(* ===== verification/Prelude.thy ===== *)
theory Prelude
  imports Main "HOL-Library.Word" "HOL-Library.Multiset"
begin

text \<open>
  What every component of the development shares: faults and results, the sequencing of
  computations that may fail, and machine integers.

  A computation that can fail returns \<^typ>\<open>'e + 'a\<close>: \<^const>\<open>Inl\<close> of the error, or
  \<^const>\<open>Inr\<close> of the result. \<open>bnd m f\<close> runs \<open>m\<close> and hands its result to \<open>f\<close>; the first
  error is the result of the whole, as a throw, an abort or undefined behaviour would end
  the C++ computation.
\<close>

section \<open>Faults\<close>

text \<open>
  The ways in which a C++ operation modelled here can go wrong. \<open>Contract\<close> is a failed
  \<^verbatim>\<open>JAM_EXPECT\<close>, \<^verbatim>\<open>JAM_ENSURE\<close> or \<^verbatim>\<open>JAM_ASSERT\<close>; \<open>Out_Of_Range\<close> is a thrown
  \<^verbatim>\<open>std::out_of_range\<close>, \<open>Diverges\<close> a loop that never ends, and the others are undefined behaviour: \<open>Overlapping_Write\<close> is the start of
  an \<^verbatim>\<open>async_write\<close> on a connection where another has not ended.
\<close>

datatype fault =
    Null_Deref
  | Dangling
  | Contract
  | Uninitialised
  | Signed_Overflow
  | Out_Of_Bounds
  | Division_By_Zero
  | Out_Of_Range
  | Diverges
  | Overlapping_Write

section \<open>Sequencing\<close>

definition bnd :: "'e + 'a \<Rightarrow> ('a \<Rightarrow> 'e + 'b) \<Rightarrow> 'e + 'b" where
  "bnd m f = (case m of Inl e \<Rightarrow> Inl e | Inr x \<Rightarrow> f x)"

lemma bnd_simps [simp]:
  "bnd (Inl e) f = Inl e"
  "bnd (Inr x) f = f x"
  by (simp_all add: bnd_def)

lemma bnd_Inr_iff: "bnd m f = Inr y \<longleftrightarrow> (\<exists>x. m = Inr x \<and> f x = Inr y)"
  by (cases m) simp_all

lemma bnd_Inl_iff: "bnd m f = Inl e \<longleftrightarrow> m = Inl e \<or> (\<exists>x. m = Inr x \<and> f x = Inl e)"
  by (cases m) auto

lemma bnd_InrE [elim!]:
  assumes "bnd m f = Inr y"
  obtains x where "m = Inr x" and "f x = Inr y"
  using assms by (auto simp: bnd_Inr_iff)

lemma bnd_cong [fundef_cong]:
  assumes "m = m'" and "\<And>x. m' = Inr x \<Longrightarrow> f x = f' x"
  shows "bnd m f = bnd m' f'"
  using assms by (cases m') simp_all

lemma bnd_assoc: "bnd (bnd m f) g = bnd m (\<lambda>x. bnd (f x) g)"
  by (cases m) simp_all

text \<open>A check that raises \<open>e\<close> when it fails, and its C++ use as a contract.\<close>

definition guard :: "'e \<Rightarrow> bool \<Rightarrow> 'e + unit" where
  "guard e b = (if b then Inr () else Inl e)"

lemma guard_simps [simp]:
  "guard e True = Inr ()"
  "guard e False = Inl e"
  "guard e b = Inr u \<longleftrightarrow> b"
  by (simp_all add: guard_def)

section \<open>Machine integers\<close>

type_synonym size_t = "64 word"

definition size_max :: nat where
  "size_max = 18446744073709551615"

lemma unat_size_t_less: "unat (n :: size_t) < Suc size_max"
  using unsigned_less [of n] by (simp add: size_max_def)

text \<open>
  \<^verbatim>\<open>int\<close> is 32 bits wide; signed overflow is undefined behaviour, so the sum of two ints is
  a value only when it is in range.
\<close>

definition int_max :: int where
  "int_max = 2147483647"

definition int_min :: int where
  "int_min = - 2147483648"

definition in_int :: "int \<Rightarrow> bool" where
  "in_int i \<longleftrightarrow> int_min \<le> i \<and> i \<le> int_max"

lemma in_int_0 [simp]: "in_int 0"
  by (simp add: in_int_def int_min_def int_max_def)

text \<open>An \<^verbatim>\<open>int\<close> result; out of range it is undefined behaviour.\<close>

definition checked_int :: "int \<Rightarrow> fault + int" where
  "checked_int i = (if in_int i then Inr i else Inl Signed_Overflow)"

lemma checked_int_iff [simp]:
  "checked_int i = Inr j \<longleftrightarrow> in_int i \<and> j = i"
  "in_int i \<Longrightarrow> checked_int i = Inr i"
  by (auto simp: checked_int_def)

end
