(* ===== verification/Node_Store.thy ===== *)
theory Node_Store
  imports Prelude
begin

text \<open>
  The free store the node-based containers live in: a partial map from addresses to nodes.
  A pointer is an address or null. Reading or writing through null or through the address
  of a node that was never allocated or is already freed is a fault, so a theorem that an
  operation returns \<^const>\<open>Inr\<close> is also its memory safety. Allocation hands out the address
  \<open>brk\<close>, which no live or freed node has (\<^verbatim>\<open>std::allocator\<close> may reuse a freed address; a
  program that never uses a stale pointer cannot tell the difference, and one that does
  faults here).
\<close>

type_synonym addr = nat
type_synonym ptr = "addr option"

record 'n store =
  cells :: "addr \<rightharpoonup> 'n"
  brk :: addr

definition load :: "'n store \<Rightarrow> ptr \<Rightarrow> fault + 'n" where
  "load h p = (case p of None \<Rightarrow> Inl Null_Deref
     | Some a \<Rightarrow> (case cells h a of None \<Rightarrow> Inl Dangling | Some n \<Rightarrow> Inr n))"

definition put :: "'n store \<Rightarrow> ptr \<Rightarrow> ('n \<Rightarrow> 'n) \<Rightarrow> fault + 'n store" where
  "put h p f = (case p of None \<Rightarrow> Inl Null_Deref
     | Some a \<Rightarrow> (case cells h a of None \<Rightarrow> Inl Dangling
         | Some n \<Rightarrow> Inr (h\<lparr>cells := (cells h)(a \<mapsto> f n)\<rparr>)))"

definition alloc :: "'n store \<Rightarrow> 'n \<Rightarrow> 'n store \<times> addr" where
  "alloc h n = (h\<lparr>cells := (cells h)(brk h \<mapsto> n), brk := Suc (brk h)\<rparr>, brk h)"

definition dealloc :: "'n store \<Rightarrow> ptr \<Rightarrow> fault + 'n store" where
  "dealloc h p = (case p of None \<Rightarrow> Inl Null_Deref
     | Some a \<Rightarrow> (case cells h a of None \<Rightarrow> Inl Dangling
         | Some n \<Rightarrow> Inr (h\<lparr>cells := (cells h)(a := None)\<rparr>)))"

text \<open>Every live address is below \<open>brk\<close>.\<close>

definition store_ok :: "'n store \<Rightarrow> bool" where
  "store_ok h \<longleftrightarrow> (\<forall>a. brk h \<le> a \<longrightarrow> cells h a = None)"

definition empty_store :: "'n store" where
  "empty_store = \<lparr>cells = Map.empty, brk = 0\<rparr>"

lemma store_ok_empty [simp]: "store_ok empty_store"
  by (simp add: store_ok_def empty_store_def)

lemma load_simps [simp]:
  "load h None = Inl Null_Deref"
  "cells h a = Some n \<Longrightarrow> load h (Some a) = Inr n"
  "cells h a = None \<Longrightarrow> load h (Some a) = Inl Dangling"
  by (simp_all add: load_def)

lemma put_simps [simp]:
  "put h None f = Inl Null_Deref"
  "cells h a = Some n \<Longrightarrow> put h (Some a) f = Inr (h\<lparr>cells := (cells h)(a \<mapsto> f n)\<rparr>)"
  "cells h a = None \<Longrightarrow> put h (Some a) f = Inl Dangling"
  by (simp_all add: put_def)

lemma dealloc_simps [simp]:
  "dealloc h None = Inl Null_Deref"
  "cells h a = Some n \<Longrightarrow> dealloc h (Some a) = Inr (h\<lparr>cells := (cells h)(a := None)\<rparr>)"
  "cells h a = None \<Longrightarrow> dealloc h (Some a) = Inl Dangling"
  by (simp_all add: dealloc_def)

lemma store_okD: "store_ok h \<Longrightarrow> cells h a = Some n \<Longrightarrow> a < brk h"
  by (metis linorder_not_less option.distinct(1) store_ok_def)

lemma store_ok_fresh [simp]: "store_ok h \<Longrightarrow> cells h (brk h) = None"
  by (simp add: store_ok_def)

lemma store_ok_put [simp]:
  "store_ok h \<Longrightarrow> cells h a = Some n \<Longrightarrow> store_ok (h\<lparr>cells := (cells h)(a \<mapsto> m)\<rparr>)"
  by (auto simp: store_ok_def dest: store_okD)

lemma store_ok_free [simp]:
  "store_ok h \<Longrightarrow> store_ok (h\<lparr>cells := (cells h)(a := None)\<rparr>)"
  by (simp add: store_ok_def)

lemma store_ok_alloc [simp]:
  "store_ok h \<Longrightarrow> store_ok (h\<lparr>cells := (cells h)(brk h \<mapsto> n), brk := Suc (brk h)\<rparr>)"
  by (simp add: store_ok_def)

text \<open>
  \<open>same h h' A\<close>: the two stores agree on the addresses of \<open>A\<close>. The frame of an operation is
  stated as agreement outside the nodes it owns.
\<close>

definition same :: "'n store \<Rightarrow> 'n store \<Rightarrow> addr set \<Rightarrow> bool" where
  "same h h' A \<longleftrightarrow> (\<forall>a\<in>A. cells h' a = cells h a)"

lemma same_refl [simp]: "same h h A"
  by (simp add: same_def)

lemma same_trans: "same h h' A \<Longrightarrow> same h' h'' A \<Longrightarrow> same h h'' A"
  by (simp add: same_def)

lemma same_mono: "same h h' A \<Longrightarrow> B \<subseteq> A \<Longrightarrow> same h h' B"
  by (auto simp: same_def)

lemma same_chain: "same h h' A \<Longrightarrow> same h' h'' B \<Longrightarrow> C \<subseteq> A \<Longrightarrow> C \<subseteq> B \<Longrightarrow> same h h'' C"
  by (meson same_mono same_trans)

lemma sameD: "same h h' A \<Longrightarrow> a \<in> A \<Longrightarrow> cells h' a = cells h a"
  by (simp add: same_def)

lemma same_upd [simp]:
  "a \<notin> A \<Longrightarrow> same h (h\<lparr>cells := (cells h)(a := v)\<rparr>) A"
  "a \<notin> A \<Longrightarrow> same h (h\<lparr>cells := (cells h)(a := v), brk := b\<rparr>) A"
  by (auto simp: same_def)

end
