(* ===== verification/Single_Linked_List.thy ===== *)
theory Single_Linked_List
  imports Node_Store
begin

text \<open>
  \<^verbatim>\<open>DataStructures/SingleLinkedList\<close>: the list's state (a head node owned by the list object and
  nodes from the allocator) and its operations, pointer by pointer. A list object is the address of its
  head node. The abstraction \<open>sll h l ns\<close> reads the list at \<open>l\<close> as the sequence \<open>ns\<close> of
  (address, value) pairs, so that theorems say both which values an operation leaves and
  which nodes carry them.
\<close>

section \<open>Nodes and chains\<close>

record 'a sll_node =
  data :: 'a
  nxt :: ptr

type_synonym 'a sll_store = "'a sll_node store"

text \<open>\<open>first ns q\<close> is the pointer to the first node of \<open>ns\<close>, or \<open>q\<close> where there is none.\<close>

fun first :: "(addr \<times> 'a) list \<Rightarrow> ptr \<Rightarrow> ptr" where
  "first [] q = q"
| "first (n # ns) q = Some (fst n)"

lemma first_append [simp]: "first (xs @ ys) q = first xs (first ys q)"
  by (cases xs) simp_all

text \<open>\<open>seg h p ns q\<close>: the nodes \<open>ns\<close>, in this order, lead from the pointer \<open>p\<close> to \<open>q\<close>.\<close>

fun seg :: "'a sll_store \<Rightarrow> ptr \<Rightarrow> (addr \<times> 'a) list \<Rightarrow> ptr \<Rightarrow> bool" where
  "seg h p [] q \<longleftrightarrow> p = q"
| "seg h p (n # ns) q \<longleftrightarrow> p = Some (fst n) \<and>
     cells h (fst n) = Some \<lparr>data = snd n, nxt = first ns q\<rparr> \<and> seg h (first ns q) ns q"

lemma seg_start: "seg h p ns q \<Longrightarrow> p = first ns q"
  by (cases ns) simp_all

lemma seg_append [simp]:
  "seg h p (xs @ ys) q \<longleftrightarrow> seg h p xs (first ys q) \<and> seg h (first ys q) ys q"
proof (induction xs arbitrary: p)
  case Nil
  then show ?case using seg_start by auto
qed simp

lemma seg_frame: "same h h' (fst ` set ns) \<Longrightarrow> seg h p ns q \<Longrightarrow> seg h' p ns q"
  by (induction ns arbitrary: p) (auto simp: same_def)

lemma seg_upd [simp]:
  "a \<notin> fst ` set ns \<Longrightarrow> seg (h\<lparr>cells := (cells h)(a := v)\<rparr>) p ns q = seg h p ns q"
  "a \<notin> fst ` set ns \<Longrightarrow> seg (h\<lparr>cells := (cells h)(a := v), brk := b\<rparr>) p ns q = seg h p ns q"
  "seg (h\<lparr>brk := b\<rparr>) p ns q = seg h p ns q"
  by (induction ns arbitrary: p) auto

lemma seg_cells: "seg h p ns q \<Longrightarrow> n \<in> set ns \<Longrightarrow> \<exists>m. cells h (fst n) = Some m \<and> data m = snd n"
  by (induction ns arbitrary: p) auto

lemma seg_live: "seg h p ns q \<Longrightarrow> a \<in> fst ` set ns \<Longrightarrow> \<exists>m. cells h a = Some m"
  using seg_cells by fastforce

lemma seg_below: "store_ok h \<Longrightarrow> seg h p ns q \<Longrightarrow> a \<in> fst ` set ns \<Longrightarrow> a < brk h"
  by (meson seg_live store_okD)

lemma seg_fresh: "store_ok h \<Longrightarrow> seg h p ns q \<Longrightarrow> brk h \<notin> fst ` set ns"
  using seg_below by fastforce

text \<open>A list of distinct live addresses below \<open>brk\<close> is no longer than \<open>brk\<close>: the fuel of the loops.\<close>

lemma seg_length:
  assumes "store_ok h" and "seg h p ns q" and "distinct (map fst ns)"
  shows "length ns \<le> brk h"
proof -
  have "fst ` set ns \<subseteq> {..<brk h}"
    using seg_below [OF assms(1,2)] by blast
  then have "card (fst ` set ns) \<le> card {..<brk h}"
    by (intro card_mono) auto
  then show ?thesis
    using assms(3) by (metis card_lessThan distinct_card length_map list.set_map)
qed

text \<open>Rewriting the last node's link redirects the whole segment.\<close>

lemma seg_relink:
  assumes "seg h p (xs @ [(a, x)]) q" and "a \<notin> fst ` set xs"
  shows "seg (h\<lparr>cells := (cells h)(a \<mapsto> \<lparr>data = x, nxt = r\<rparr>)\<rparr>) p (xs @ [(a, x)]) r"
  using assms by simp

section \<open>The list object\<close>

text \<open>
  The head node is part of the list object; it is a full node (its \<open>data\<close> is
  default-constructed and never read). \<open>sll h l ns\<close>: the list object at \<open>l\<close> holds the nodes \<open>ns\<close>.
\<close>

definition sll :: "'a sll_store \<Rightarrow> addr \<Rightarrow> (addr \<times> 'a) list \<Rightarrow> bool" where
  "sll h l ns \<longleftrightarrow> store_ok h \<and> distinct (l # map fst ns) \<and>
     (\<exists>d. seg h (Some l) ((l, d) # ns) None)"

text \<open>The addresses of the list, head included.\<close>

definition owned :: "addr \<Rightarrow> (addr \<times> 'a) list \<Rightarrow> addr set" where
  "owned l ns = insert l (fst ` set ns)"

text \<open>The values of the list.\<close>

abbreviation vals :: "(addr \<times> 'a) list \<Rightarrow> 'a list" where
  "vals \<equiv> map snd"

lemma sllE:
  assumes "sll h l ns"
  obtains d where "store_ok h" "l \<notin> fst ` set ns" "distinct (map fst ns)"
    "cells h l = Some \<lparr>data = d, nxt = first ns None\<rparr>" "seg h (first ns None) ns None"
  using assms by (auto simp: sll_def)

lemma sllI:
  assumes "store_ok h" "l \<notin> fst ` set ns" "distinct (map fst ns)"
    "cells h l = Some \<lparr>data = d, nxt = first ns None\<rparr>" "seg h (first ns None) ns None"
  shows "sll h l ns"
  using assms by (auto simp: sll_def)

text \<open>A list is untouched by an operation that works outside its nodes.\<close>

lemma sll_frame:
  assumes "sll h l ns" and "same h h' (owned l ns)" and "store_ok h'"
  shows "sll h' l ns"
proof -
  from assms(1) obtain d where d: "distinct (l # map fst ns)" "seg h (Some l) ((l, d) # ns) None"
    by (auto simp: sll_def)
  have "same h h' (fst ` set ((l, d) # ns))"
    using assms(2) by (simp add: owned_def)
  then have "seg h' (Some l) ((l, d) # ns) None"
    using d(2) by (rule seg_frame)
  with assms(3) d(1) show ?thesis by (auto simp: sll_def)
qed

text \<open>The sequence of nodes is determined by the store.\<close>

lemma seg_unique: "seg h p ns None \<Longrightarrow> seg h p ms None \<Longrightarrow> ns = ms"
proof (induction ns arbitrary: p ms)
  case Nil
  then show ?case by (cases ms) auto
next
  case (Cons n ns)
  then show ?case by (cases ms) (auto simp: prod_eq_iff)
qed

lemma sll_unique: "sll h l ns \<Longrightarrow> sll h l ms \<Longrightarrow> ns = ms"
  by (metis seg_unique seg_start sllE option.inject sll_node.select_convs(2))

lemma sll_length: "sll h l ns \<Longrightarrow> length ns \<le> brk h"
  by (meson seg_length sllE)


section \<open>Positions and relinking\<close>

text \<open>
  \<open>before l pre\<close> is the node an iterator to the last element of \<open>pre\<close> points at, and the head
  node (\<^verbatim>\<open>before_begin()\<close>) where \<open>pre\<close> is empty.
\<close>

definition before :: "addr \<Rightarrow> (addr \<times> 'a) list \<Rightarrow> addr" where
  "before l pre = (if pre = [] then l else fst (last pre))"

lemma before_simps [simp]:
  "before l [] = l"
  "before l (pre @ [n]) = fst n"
  by (simp_all add: before_def)

lemma before_in: "before l pre \<in> insert l (fst ` set pre)"
  by (cases pre rule: rev_cases) auto

lemma sll_before:
  assumes "sll h l (pre @ post)"
  obtains y where "cells h (before l pre) = Some \<lparr>data = y, nxt = first post None\<rparr>"
proof (cases pre rule: rev_cases)
  case Nil
  then show ?thesis using assms that by (auto elim!: sllE)
next
  case (snoc pre' n)
  then show ?thesis using assms that by (auto elim!: sllE)
qed

lemma before_fresh:
  assumes "distinct (l # map fst (pre @ post))"
  shows "before l pre \<notin> fst ` set post"
  using assms by (cases pre rule: rev_cases) auto

text \<open>The master lemma of the mutators: redirecting one link splices the list.\<close>

lemma sll_relink:
  assumes ok: "sll h l (pre @ post)"
    and post': "seg h (first post' None) post' None"
    and dist: "distinct (l # map fst (pre @ post'))"
    and n: "cells h (before l pre) = Some n"
  shows "sll (h\<lparr>cells := (cells h)(before l pre \<mapsto> n\<lparr>nxt := first post' None\<rparr>)\<rparr>) l (pre @ post')"
    (is "sll ?h l _")
proof -
  from ok obtain d where d: "seg h (Some l) ((l, d) # pre @ post) None" and so: "store_ok h"
    by (auto simp: sll_def)
  obtain xs y where xs: "(l, d) # pre = xs @ [(before l pre, y)]"
  proof (cases pre rule: rev_cases)
    case Nil
    then show ?thesis using that [of "[]" d] by simp
  next
    case (snoc zs z)
    then show ?thesis using that [of "(l, d) # zs" "snd z"] by simp
  qed
  have split: "(l, d) # pre @ qs = (xs @ [(before l pre, y)]) @ qs" for qs
    using xs by (metis append_Cons)
  have s1: "seg h (Some l) (xs @ [(before l pre, y)]) (first post None)"
    using d by (simp only: split seg_append)
  have fresh: "before l pre \<notin> fst ` set xs" "before l pre \<notin> fst ` set post'"
  proof -
    have "distinct (map fst ((l, d) # pre @ post'))"
      using dist by simp
    then show "before l pre \<notin> fst ` set xs" "before l pre \<notin> fst ` set post'"
      unfolding split by auto
  qed
  have yd: "data n = y"
    using s1 n by auto
  then have n': "n\<lparr>nxt := first post' None\<rparr> = \<lparr>data = y, nxt = first post' None\<rparr>"
    by simp
  have "seg ?h (Some l) (xs @ [(before l pre, y)]) (first post' None)"
    unfolding n' using s1 fresh(1) by (rule seg_relink)
  moreover have "seg ?h (first post' None) post' None"
    using post' fresh(2) by simp
  ultimately have "seg ?h (Some l) ((l, d) # pre @ post') None"
    by (simp only: split seg_append)
  then show ?thesis
    using so n dist unfolding sll_def by auto
qed

end
