(* ===== verification/SLL_Nodes.thy ===== *)
theory SLL_Nodes
  imports Single_Linked_List
begin

text \<open>
  The private helpers of \<^verbatim>\<open>SingleLinkedList\<close>: making a node, linking two nodes, runs of nodes of
  one value (\<open>make_n\<close>) and of the values of an iterator range (\<open>make_range\<close>). The locale
  \<open>input_range\<close> is what \<open>make_range\<close> asks of the iterator type it is a template over; it is
  interpreted on value sequences and on the list's own iterators.
\<close>

section \<open>Node helpers\<close>

definition make_node :: "'a sll_store \<Rightarrow> 'a \<Rightarrow> 'a sll_store \<times> addr" where
  "make_node h x = alloc h \<lparr>data = x, nxt = None\<rparr>"

definition link_nodes :: "'a sll_store \<Rightarrow> ptr \<Rightarrow> ptr \<Rightarrow> fault + 'a sll_store" where
  "link_nodes h lhs rhs = put h lhs (\<lambda>n. n\<lparr>nxt := rhs\<rparr>)"

definition next_of :: "'a sll_store \<Rightarrow> ptr \<Rightarrow> fault + ptr" where
  "next_of h p = bnd (load h p) (\<lambda>n. Inr (nxt n))"

definition data_of :: "'a sll_store \<Rightarrow> ptr \<Rightarrow> fault + 'a" where
  "data_of h p = bnd (load h p) (\<lambda>n. Inr (data n))"

lemma next_of_simps [simp]:
  "next_of h None = Inl Null_Deref"
  "cells h a = Some n \<Longrightarrow> next_of h (Some a) = Inr (nxt n)"
  by (simp_all add: next_of_def)

lemma data_of_simps [simp]:
  "data_of h None = Inl Null_Deref"
  "cells h a = Some n \<Longrightarrow> data_of h (Some a) = Inr (data n)"
  by (simp_all add: data_of_def)

lemma link_nodes_simps [simp]:
  "link_nodes h None q = Inl Null_Deref"
  "cells h a = Some n \<Longrightarrow>
     link_nodes h (Some a) q = Inr (h\<lparr>cells := (cells h)(a \<mapsto> n\<lparr>nxt := q\<rparr>)\<rparr>)"
  by (simp_all add: link_nodes_def)

lemma make_node_eq [simp]:
  "make_node h x =
     (h\<lparr>cells := (cells h)(brk h \<mapsto> \<lparr>data = x, nxt = None\<rparr>), brk := Suc (brk h)\<rparr>, brk h)"
  by (simp add: make_node_def alloc_def)

text \<open>
  \<open>make_n\<close>: a run of \<open>count\<close> nodes of one value, \<^verbatim>\<open>while (--count)\<close>. The counter is an
  unsigned 64-bit value; the decrement comes first, so a count of 0 wraps around.
\<close>

function make_n_loop :: "'a sll_store \<Rightarrow> size_t \<Rightarrow> ptr \<Rightarrow> 'a \<Rightarrow> fault + ('a sll_store \<times> ptr)" where
  "make_n_loop h n nn x =
     (let n' = n - 1 in
      if n' = 0 then Inr (h, nn)
      else let (h1, next_node) = make_node h x in
        bnd (link_nodes h1 nn (Some next_node)) (\<lambda>h2. make_n_loop h2 n' (Some next_node) x))"
  by pat_completeness auto
termination
proof (relation "measure (\<lambda>(h, c, nn, x). unat (c - 1))", goal_cases)
  case (2 h n nn x n')
  have "n' \<noteq> 0" by (rule 2(2))
  then have "unat (n' - 1) < unat n'"
    by (simp add: unat_minus_one unat_gt_0)
  then show ?case
    unfolding in_measure prod.case 2(1) .
qed simp

declare make_n_loop.simps [simp del]

definition make_n :: "'a sll_store \<Rightarrow> size_t \<Rightarrow> 'a \<Rightarrow> fault + ('a sll_store \<times> ptr \<times> ptr)" where
  "make_n h n x =
     (let (h1, nn) = make_node h x in
      bnd (make_n_loop h1 n (Some nn) x) (\<lambda>(h2, fin). Inr (h2, Some nn, fin)))"

text \<open>
  \<open>make_range\<close> is a template over the iterator type: \<open>deref\<close> and \<open>step\<close> are the iterator's
  \<^verbatim>\<open>operator*\<close> and \<^verbatim>\<open>operator++\<close>. An iterator that never reaches \<open>fin\<close> uses up the fuel.
\<close>

fun make_range_loop ::
  "nat \<Rightarrow> ('a sll_store \<Rightarrow> 'i \<Rightarrow> fault + 'a) \<Rightarrow> ('a sll_store \<Rightarrow> 'i \<Rightarrow> fault + 'i) \<Rightarrow>
   'a sll_store \<Rightarrow> 'i \<Rightarrow> 'i \<Rightarrow> ptr \<Rightarrow> fault + ('a sll_store \<times> ptr)" where
  "make_range_loop 0 deref step h it fin nn = Inl Diverges"
| "make_range_loop (Suc fuel) deref step h it fin nn =
     bnd (step h it) (\<lambda>it'.
       if it' = fin then Inr (h, nn)
       else bnd (deref h it') (\<lambda>x.
         let (h1, next_node) = make_node h x in
         bnd (link_nodes h1 nn (Some next_node)) (\<lambda>h2.
           make_range_loop fuel deref step h2 it' fin (Some next_node))))"

definition make_range ::
  "nat \<Rightarrow> ('a sll_store \<Rightarrow> 'i \<Rightarrow> fault + 'a) \<Rightarrow> ('a sll_store \<Rightarrow> 'i \<Rightarrow> fault + 'i) \<Rightarrow>
   'a sll_store \<Rightarrow> 'i \<Rightarrow> 'i \<Rightarrow> fault + ('a sll_store \<times> ptr \<times> ptr)" where
  "make_range fuel deref step h it fin =
     bnd (guard Contract (it \<noteq> fin)) (\<lambda>_.
     bnd (deref h it) (\<lambda>x.
       let (h1, nn) = make_node h x in
       bnd (make_range_loop fuel deref step h1 it fin (Some nn)) (\<lambda>(h2, lst).
         Inr (h2, Some nn, lst))))"

text \<open>The nodes a run of allocations from address \<open>b\<close> on creates.\<close>

fun fresh :: "addr \<Rightarrow> 'a list \<Rightarrow> (addr \<times> 'a) list" where
  "fresh b [] = []"
| "fresh b (x # xs) = (b, x) # fresh (Suc b) xs"

lemma fresh_simps [simp]:
  "length (fresh b xs) = length xs"
  "map snd (fresh b xs) = xs"
  "fresh b xs = [] \<longleftrightarrow> xs = []"
  by (induction xs arbitrary: b) auto

lemma fst_fresh: "fst ` set (fresh b xs) = {b..<b + length xs}"
  by (induction xs arbitrary: b) auto

lemma distinct_fresh [simp]: "distinct (map fst (fresh b xs))"
  by (induction xs arbitrary: b) (auto simp: fst_fresh)

lemma before_Cons [simp]: "before l (n # ns) = before (fst n) ns"
  by (simp add: before_def)

text \<open>
  \<open>extends h h' b ms\<close>: \<open>h'\<close> is \<open>h\<close> with the fresh run \<open>ms\<close> allocated; only the node \<open>b\<close>, the
  one the run was linked to, may have changed.
\<close>

definition extends :: "'a sll_store \<Rightarrow> 'a sll_store \<Rightarrow> addr \<Rightarrow> nat \<Rightarrow> bool" where
  "extends h h' b m \<longleftrightarrow> store_ok h' \<and> brk h' = brk h + m \<and> same h h' {a. a < brk h \<and> a \<noteq> b}"

lemma extends_refl: "store_ok h \<Longrightarrow> extends h h b 0"
  by (simp add: extends_def)

text \<open>One step of a run: allocate a node and link it behind the last one.\<close>

lemma run_step:
  assumes "store_ok h" and "cells h b = Some \<lparr>data = d, nxt = None\<rparr>"
  obtains h2 where
    "link_nodes (fst (make_node h x)) (Some b) (Some (brk h)) = Inr h2"
    "store_ok h2" "brk h2 = Suc (brk h)"
    "cells h2 (brk h) = Some \<lparr>data = x, nxt = None\<rparr>"
    "cells h2 b = Some \<lparr>data = d, nxt = Some (brk h)\<rparr>"
    "same h h2 {a. a < brk h \<and> a \<noteq> b}"
proof -
  have b: "b < brk h" "b \<noteq> brk h"
    using assms store_okD by fastforce+
  then show ?thesis
    using assms that [of "h\<lparr>cells := (cells h)(brk h \<mapsto> \<lparr>data = x, nxt = None\<rparr>,
        b \<mapsto> \<lparr>data = d, nxt = Some (brk h)\<rparr>), brk := Suc (brk h)\<rparr>"]
    by (auto simp: same_def store_ok_def)
qed

lemma run_cons:
  assumes "extends h2 h' (brk h) m" and "same h h2 {a. a < brk h \<and> a \<noteq> b}"
    and "brk h2 = Suc (brk h)" and "b < brk h"
    and "cells h2 b = Some \<lparr>data = d, nxt = Some (brk h)\<rparr>"
    and "seg h' (Some (brk h)) ((brk h, x) # ms) None"
  shows "extends h h' b (Suc m)" and "seg h' (Some b) ((b, d) # (brk h, x) # ms) None"
  using assms by (auto simp: extends_def same_def)


lemma make_n_loop_spec:
  assumes "store_ok h" and "cells h b = Some \<lparr>data = d, nxt = None\<rparr>"
    and "m = unat (n - 1)" and "ms = fresh (brk h) (replicate m x)"
  shows "\<exists>h'. make_n_loop h n (Some b) x = Inr (h', Some (before b ms)) \<and>
    extends h h' b m \<and> seg h' (Some b) ((b, d) # ms) None"
  using assms
proof (induction m arbitrary: h n b d ms)
  case 0
  then have "n - 1 = 0"
    by (metis unat_eq_zero)
  with 0 show ?case
    by (subst make_n_loop.simps) (simp add: extends_refl)
next
  case (Suc m)
  then have n: "n - 1 \<noteq> 0" and m: "m = unat (n - 1 - 1)"
    by (metis nat.distinct(1) unat_0, metis diff_Suc_1 nat.distinct(1) unat_0 unat_minus_one)
  have b: "b < brk h"
    using Suc.prems(1,2) by (rule store_okD)
  obtain h2 where h2: "link_nodes (fst (make_node h x)) (Some b) (Some (brk h)) = Inr h2"
    "store_ok h2" "brk h2 = Suc (brk h)" "cells h2 (brk h) = Some \<lparr>data = x, nxt = None\<rparr>"
    "cells h2 b = Some \<lparr>data = d, nxt = Some (brk h)\<rparr>" "same h h2 {a. a < brk h \<and> a \<noteq> b}"
    using run_step [OF Suc.prems(1,2), of x] .
  let ?ms = "fresh (Suc (brk h)) (replicate m x)"
  obtain h' where h': "make_n_loop h2 (n - 1) (Some (brk h)) x = Inr (h', Some (before (brk h) ?ms))"
    "extends h2 h' (brk h) m" "seg h' (Some (brk h)) ((brk h, x) # ?ms) None"
    using Suc.IH [OF h2(2,4) m refl] h2(3) by auto
  have run: "make_n_loop h n (Some b) x = Inr (h', Some (before b ms))"
    using n h2(1) h'(1) Suc.prems(4) by (subst make_n_loop.simps) (simp add: Let_def)
  show ?case
    using run run_cons [OF h'(2) h2(6,3) b h2(5) h'(3)] Suc.prems(4) by auto
qed

text \<open>
  \<open>built h h' ms\<close>: the store \<open>h'\<close> is \<open>h\<close> with the chain \<open>ms\<close> of new nodes, ending in null.
\<close>

definition built :: "'a sll_store \<Rightarrow> 'a sll_store \<Rightarrow> (addr \<times> 'a) list \<Rightarrow> bool" where
  "built h h' ms \<longleftrightarrow> ms \<noteq> [] \<and> ms = fresh (brk h) (vals ms) \<and> seg h' (first ms None) ms None \<and>
     store_ok h' \<and> brk h' = brk h + length ms \<and> same h h' {..<brk h}"

lemma builtI:
  assumes h1: "h1 = fst (make_node h x)" and ext: "extends h1 h' (brk h) m"
    and len: "length xs = m" and chain: "seg h' (Some (brk h)) (fresh (brk h) (x # xs)) None"
  shows "built h h' (fresh (brk h) (x # xs))"
  using assms by (auto simp: built_def extends_def same_def)

lemma alloc_start:
  assumes "store_ok h"
  shows "store_ok (fst (make_node h x))"
    and "cells (fst (make_node h x)) (brk h) = Some \<lparr>data = x, nxt = None\<rparr>"
    and "brk (fst (make_node h x)) = Suc (brk h)"
  using assms by simp_all

lemma make_n_spec:
  assumes "store_ok h" and "ms = fresh (brk h) (replicate (Suc (unat (n - 1))) x)"
  shows "\<exists>h'. make_n h n x = Inr (h', first ms None, Some (fst (last ms))) \<and> built h h' ms"
proof -
  let ?h = "fst (make_node h x)" and ?xs = "replicate (unat (n - 1)) x"
  obtain h' where h': "make_n_loop ?h n (Some (brk h)) x
      = Inr (h', Some (before (brk h) (fresh (Suc (brk h)) ?xs)))"
    "extends ?h h' (brk h) (unat (n - 1))"
    "seg h' (Some (brk h)) (fresh (brk h) (x # ?xs)) None"
    using make_n_loop_spec [OF alloc_start(1,2) [OF assms(1)] refl refl, of x n x]
    by (auto simp: alloc_start(3) [OF assms(1)])
  have "built h h' ms"
    using builtI [OF refl h'(2) _ h'(3)] assms(2) by simp
  moreover have "make_n h n x = Inr (h', first ms None, Some (fst (last ms)))"
    using h'(1) assms(2) by (simp add: make_n_def before_def)
  ultimately show ?thesis by blast
qed

text \<open>The number of nodes: the count, except that a count of 0 stands for \<open>2 ^ 64\<close>.\<close>

lemma make_n_count:
  "Suc (unat ((n :: size_t) - 1)) = (if n = 0 then 2 ^ 64 else unat n)"
proof (cases "n = 0")
  case True
  then show ?thesis by (simp add: unsigned_minus_1_eq_mask mask_eq_exp_minus_1)
next
  case False
  then show ?thesis by (simp add: unat_minus_one unat_gt_0)
qed


section \<open>Ranges of values\<close>

text \<open>
  The interface \<open>make_range\<close> asks of an iterator: \<open>rng h it xs\<close> says that \<open>it\<close> runs over the
  values \<open>xs\<close> and then equals \<open>fin\<close>, and the range does not depend on nodes allocated after
  it (those from address \<open>base\<close> on).
\<close>

locale input_range =
  fixes deref :: "'a sll_store \<Rightarrow> 'i \<Rightarrow> fault + 'a"
    and step :: "'a sll_store \<Rightarrow> 'i \<Rightarrow> fault + 'i"
    and fin :: 'i
    and rng :: "'a sll_store \<Rightarrow> 'i \<Rightarrow> 'a list \<Rightarrow> bool"
    and base :: addr
  assumes rng_Nil: "rng h it [] \<Longrightarrow> it = fin"
    and rng_Cons: "rng h it (x # xs) \<Longrightarrow>
      it \<noteq> fin \<and> deref h it = Inr x \<and> (\<exists>it'. step h it = Inr it' \<and> rng h it' xs)"
    and rng_frame: "rng h it xs \<Longrightarrow> same h h' {..<base} \<Longrightarrow> rng h' it xs"
begin

lemma make_range_loop_spec:
  assumes "store_ok h" and "cells h b = Some \<lparr>data = d, nxt = None\<rparr>" and "base \<le> b"
    and "rng h it (x # xs)" and "length xs < fuel"
  shows "\<exists>h'. make_range_loop fuel deref step h it fin (Some b)
      = Inr (h', Some (before b (fresh (brk h) xs))) \<and>
    extends h h' b (length xs) \<and> seg h' (Some b) ((b, d) # fresh (brk h) xs) None"
  using assms
proof (induction xs arbitrary: h b d it x fuel)
  case Nil
  then obtain f where f: "fuel = Suc f" by (cases fuel) auto
  have "step h it = Inr fin"
    using rng_Cons [OF Nil.prems(4)] rng_Nil by blast
  with Nil f show ?case by (simp add: extends_refl)
next
  case (Cons y ys)
  then obtain f where f: "fuel = Suc f" by (cases fuel) auto
  obtain it' where it': "step h it = Inr it'" "rng h it' (y # ys)"
    using rng_Cons [OF Cons.prems(4)] by blast
  then have y: "it' \<noteq> fin" "deref h it' = Inr y"
    using rng_Cons by blast+
  have b: "b < brk h"
    using Cons.prems(1,2) by (rule store_okD)
  obtain h2 where h2: "link_nodes (fst (make_node h y)) (Some b) (Some (brk h)) = Inr h2"
    "store_ok h2" "brk h2 = Suc (brk h)" "cells h2 (brk h) = Some \<lparr>data = y, nxt = None\<rparr>"
    "cells h2 b = Some \<lparr>data = d, nxt = Some (brk h)\<rparr>" "same h h2 {a. a < brk h \<and> a \<noteq> b}"
    using run_step [OF Cons.prems(1,2), of y] .
  have "same h h2 {..<base}"
    using h2(6) Cons.prems(3) b by (auto intro: same_mono)
  then have rng2: "rng h2 it' (y # ys)"
    using it'(2) by (rule rng_frame [rotated])
  obtain h' where h': "make_range_loop f deref step h2 it' fin (Some (brk h))
      = Inr (h', Some (before (brk h) (fresh (Suc (brk h)) ys)))"
    "extends h2 h' (brk h) (length ys)"
    "seg h' (Some (brk h)) ((brk h, y) # fresh (Suc (brk h)) ys) None"
    using Cons.IH [OF h2(2,4) _ rng2] Cons.prems(3,5) b f h2(3) by auto
  show ?case
    using it'(1) y h2(1) h'(1) f run_cons [OF h'(2) h2(6,3) b h2(5) h'(3)] by simp
qed

lemma make_range_spec:
  assumes "store_ok h" and "rng h it xs" and "xs \<noteq> []" and "base \<le> brk h" and "length xs \<le> fuel"
    and "ms = fresh (brk h) xs"
  shows "\<exists>h'. make_range fuel deref step h it fin = Inr (h', first ms None, Some (fst (last ms))) \<and>
    built h h' ms"
proof -
  obtain x ys where xs: "xs = x # ys"
    using assms(3) by (cases xs) auto
  have x: "it \<noteq> fin" "deref h it = Inr x"
    using rng_Cons assms(2) xs by blast+
  let ?h = "fst (make_node h x)"
  have "same h ?h {..<base}"
    using assms(4) by simp
  then have "rng ?h it (x # ys)"
    using assms(2) unfolding xs by (rule rng_frame [rotated])
  from make_range_loop_spec [OF alloc_start(1,2) [OF assms(1)] assms(4) this, of fuel]
  obtain h' where h': "make_range_loop fuel deref step ?h it fin (Some (brk h))
      = Inr (h', Some (before (brk h) (fresh (Suc (brk h)) ys)))"
    "extends ?h h' (brk h) (length ys)"
    "seg h' (Some (brk h)) (fresh (brk h) (x # ys)) None"
    using assms(5) xs alloc_start(3) [OF assms(1)] by auto
  have "built h h' ms"
    using builtI [OF refl h'(2) refl h'(3)] assms(6) xs by simp
  moreover have "make_range fuel deref step h it fin = Inr (h', first ms None, Some (fst (last ms)))"
    using h'(1) x assms(6) xs by (simp add: make_range_def before_def)
  ultimately show ?thesis by blast
qed

lemma make_range_empty: "rng h it [] \<Longrightarrow> make_range fuel deref step h it fin = Inl Contract"
  by (drule rng_Nil) (simp add: make_range_def)

end

text \<open>
  Two iterators of the source: a sequence of values outside the store (an array or an
  initializer list), and the list's own iterators, \<^verbatim>\<open>SLL_IteratorImpl\<close>, a pointer to a node.
\<close>

definition value_deref :: "'a sll_store \<Rightarrow> 'a list \<Rightarrow> fault + 'a" where
  "value_deref h it = (case it of [] \<Rightarrow> Inl Out_Of_Bounds | x # _ \<Rightarrow> Inr x)"

definition value_step :: "'a sll_store \<Rightarrow> 'a list \<Rightarrow> fault + 'a list" where
  "value_step h it = (case it of [] \<Rightarrow> Inl Out_Of_Bounds | _ # it' \<Rightarrow> Inr it')"

interpretation value_it: input_range value_deref value_step "[]" "\<lambda>h it xs. it = xs" base for base
  by unfold_locales (auto simp: value_deref_def value_step_def)

definition chain_rng :: "addr \<Rightarrow> ptr \<Rightarrow> 'a sll_store \<Rightarrow> ptr \<Rightarrow> 'a list \<Rightarrow> bool" where
  "chain_rng base fin h p xs \<longleftrightarrow>
     (\<exists>ns. seg h p ns fin \<and> vals ns = xs \<and> fst ` set ns \<subseteq> {..<base} \<and> fin \<notin> Some ` fst ` set ns)"

interpretation chain_it: input_range data_of next_of fin "chain_rng base fin" base for fin base
proof
  fix h :: "'a sll_store" and it x xs
  assume "chain_rng base fin h it (x # xs)"
  then obtain a ns where "seg h it ((a, x) # ns) fin" "vals ns = xs"
    "fst ` set ((a, x) # ns) \<subseteq> {..<base}" "fin \<notin> Some ` fst ` set ((a, x) # ns)"
    unfolding chain_rng_def by (fastforce simp: map_eq_Cons_conv)
  then show "it \<noteq> fin \<and> data_of h it = Inr x \<and>
      (\<exists>it'. next_of h it = Inr it' \<and> chain_rng base fin h it' xs)"
    unfolding chain_rng_def by fastforce
next
  fix h h' :: "'a sll_store" and it xs
  assume "chain_rng base fin h it xs" and same: "same h h' {..<base}"
  then obtain ns where ns: "seg h it ns fin" "vals ns = xs" "fst ` set ns \<subseteq> {..<base}"
    "fin \<notin> Some ` fst ` set ns"
    unfolding chain_rng_def by blast
  have "seg h' it ns fin"
    using same_mono [OF same ns(3)] ns(1) by (rule seg_frame)
  with ns(2-4) show "chain_rng base fin h' it xs"
    unfolding chain_rng_def by blast
qed (auto simp: chain_rng_def)

lemma sll_chain_rng:
  assumes "sll h l ns"
  shows "chain_rng (brk h) None h (first ns None) (vals ns)"
  using assms seg_below unfolding chain_rng_def by (fastforce elim!: sllE)

end
