(* ===== verification/SLL_Modifiers.thy ===== *)
theory SLL_Modifiers
  imports SLL_Nodes
begin

text \<open>
  \<^verbatim>\<open>SingleLinkedList\<close>: construction, copy, assignment, element access, insertion, erasure, swap
  and resize. Every theorem gives the resulting sequence of nodes and the frame (the
  store outside the list is untouched); by returning \<^const>\<open>Inr\<close> an operation misuses no pointer.
\<close>

section \<open>Definitions\<close>

text \<open>\<^verbatim>\<open>clear()\<close> and the destructor: \<^verbatim>\<open>while (head_.next != nullptr)\<close> unlink and free.\<close>

fun free_loop :: "nat \<Rightarrow> 'a sll_store \<Rightarrow> addr \<Rightarrow> fault + 'a sll_store" where
  "free_loop 0 h l = Inl Diverges"
| "free_loop (Suc fuel) h l =
     bnd (next_of h (Some l)) (\<lambda>temp.
       if temp = None then Inr h
       else bnd (next_of h temp) (\<lambda>r.
         bnd (link_nodes h (Some l) r) (\<lambda>h1.
         bnd (dealloc h1 temp) (\<lambda>h2. free_loop fuel h2 l))))"

definition clear :: "'a sll_store \<Rightarrow> addr \<Rightarrow> fault + 'a sll_store" where
  "clear h l = free_loop (Suc (brk h)) h l"

text \<open>A default-constructed list: a head node (with default-constructed data) and no nodes.\<close>

definition new_list :: "'a sll_store \<Rightarrow> 'a \<Rightarrow> 'a sll_store \<times> addr" where
  "new_list h dflt = make_node h dflt"

text \<open>Linking the nodes a range or run constructor made behind the head.\<close>

definition construct_n :: "'a sll_store \<Rightarrow> 'a \<Rightarrow> size_t \<Rightarrow> 'a \<Rightarrow> fault + ('a sll_store \<times> addr)" where
  "construct_n h dflt n x =
     (let (h1, l) = new_list h dflt in
      bnd (make_n h1 n x) (\<lambda>(h2, nodes).
      bnd (link_nodes h2 (Some l) (fst nodes)) (\<lambda>h3. Inr (h3, l))))"

definition construct_range :: "'a sll_store \<Rightarrow> 'a \<Rightarrow> 'a list \<Rightarrow> fault + ('a sll_store \<times> addr)" where
  "construct_range h dflt xs =
     (let (h1, l) = new_list h dflt in
      bnd (make_range (length xs) value_deref value_step h1 xs []) (\<lambda>(h2, nodes).
      bnd (link_nodes h2 (Some l) (fst nodes)) (\<lambda>h3. Inr (h3, l))))"

definition construct_copy :: "'a sll_store \<Rightarrow> 'a \<Rightarrow> addr \<Rightarrow> fault + ('a sll_store \<times> addr)" where
  "construct_copy h dflt other =
     (let (h1, l) = new_list h dflt in
      bnd (next_of h1 (Some other)) (\<lambda>b.
      bnd (make_range (brk h1) data_of next_of h1 b None) (\<lambda>(h2, nodes).
      bnd (link_nodes h2 (Some l) (fst nodes)) (\<lambda>h3. Inr (h3, l)))))"

definition construct_move :: "'a sll_store \<Rightarrow> 'a \<Rightarrow> addr \<Rightarrow> fault + ('a sll_store \<times> addr)" where
  "construct_move h dflt other =
     (let (h1, l) = new_list h dflt in
      bnd (next_of h1 (Some other)) (\<lambda>b.
      bnd (link_nodes h1 (Some other) None) (\<lambda>h2.
      bnd (link_nodes h2 (Some l) b) (\<lambda>h3. Inr (h3, l)))))"

definition copy_assign :: "'a sll_store \<Rightarrow> addr \<Rightarrow> addr \<Rightarrow> fault + 'a sll_store" where
  "copy_assign h this other =
     (if this \<noteq> other then
        bnd (clear h this) (\<lambda>h1.
        bnd (next_of h1 (Some other)) (\<lambda>b.
        bnd (if b \<noteq> None then make_range (brk h1) data_of next_of h1 b None
             else Inr (h1, None, None)) (\<lambda>(h2, nodes).
        link_nodes h2 (Some this) (fst nodes))))
      else Inr h)"

definition move_assign :: "'a sll_store \<Rightarrow> addr \<Rightarrow> addr \<Rightarrow> fault + 'a sll_store" where
  "move_assign h this other =
     (if this \<noteq> other then
        bnd (clear h this) (\<lambda>h1.
        bnd (next_of h1 (Some other)) (\<lambda>b.
        bnd (link_nodes h1 (Some other) None) (\<lambda>h2. link_nodes h2 (Some this) b)))
      else Inr h)"

definition swap_lists :: "'a sll_store \<Rightarrow> addr \<Rightarrow> addr \<Rightarrow> fault + 'a sll_store" where
  "swap_lists h this other =
     bnd (next_of h (Some this)) (\<lambda>p.
     bnd (next_of h (Some other)) (\<lambda>q.
     bnd (link_nodes h (Some this) q) (\<lambda>h1. link_nodes h1 (Some other) p)))"

definition is_empty :: "'a sll_store \<Rightarrow> addr \<Rightarrow> fault + bool" where
  "is_empty h l = bnd (next_of h (Some l)) (\<lambda>p. Inr (p = None))"

definition front :: "'a sll_store \<Rightarrow> addr \<Rightarrow> fault + 'a" where
  "front h l =
     bnd (next_of h (Some l)) (\<lambda>p.
     bnd (guard Contract (p \<noteq> None)) (\<lambda>_. data_of h p))"

text \<open>Insertion after a position; \<open>None\<close> is \<^verbatim>\<open>cend()\<close>, which the contract refuses.\<close>

definition insert_after :: "'a sll_store \<Rightarrow> ptr \<Rightarrow> 'a \<Rightarrow> fault + ('a sll_store \<times> ptr)" where
  "insert_after h pos x =
     bnd (guard Contract (pos \<noteq> None)) (\<lambda>_.
       let (h1, nn) = make_node h x in
       bnd (next_of h1 pos) (\<lambda>r.
       bnd (link_nodes h1 (Some nn) r) (\<lambda>h2.
       bnd (link_nodes h2 pos (Some nn)) (\<lambda>h3. Inr (h3, Some nn)))))"

definition splice_after ::
  "'a sll_store \<Rightarrow> ptr \<Rightarrow> ptr \<times> ptr \<Rightarrow> fault + ('a sll_store \<times> ptr)" where
  "splice_after h pos nodes =
     bnd (next_of h pos) (\<lambda>r.
     bnd (link_nodes h (snd nodes) r) (\<lambda>h1.
     bnd (link_nodes h1 pos (fst nodes)) (\<lambda>h2. Inr (h2, snd nodes))))"

definition insert_after_n ::
  "'a sll_store \<Rightarrow> ptr \<Rightarrow> size_t \<Rightarrow> 'a \<Rightarrow> fault + ('a sll_store \<times> ptr)" where
  "insert_after_n h pos n x =
     bnd (guard Contract (pos \<noteq> None)) (\<lambda>_.
       if n = 0 then Inr (h, pos)
       else bnd (make_n h n x) (\<lambda>(h1, nodes). splice_after h1 pos nodes))"

definition insert_after_range ::
  "'a sll_store \<Rightarrow> ptr \<Rightarrow> 'a list \<Rightarrow> fault + ('a sll_store \<times> ptr)" where
  "insert_after_range h pos xs =
     bnd (guard Contract (pos \<noteq> None)) (\<lambda>_.
       if xs = [] then Inr (h, pos)
       else bnd (make_range (length xs) value_deref value_step h xs []) (\<lambda>(h1, nodes).
         splice_after h1 pos nodes))"

definition push_front :: "'a sll_store \<Rightarrow> addr \<Rightarrow> 'a \<Rightarrow> fault + 'a sll_store" where
  "push_front h l x =
     (let (h1, nn) = make_node h x in
      bnd (next_of h1 (Some l)) (\<lambda>r.
      bnd (link_nodes h1 (Some nn) r) (\<lambda>h2. link_nodes h2 (Some l) (Some nn))))"

definition emplace_front :: "'a sll_store \<Rightarrow> addr \<Rightarrow> 'a \<Rightarrow> fault + ('a sll_store \<times> 'a)" where
  "emplace_front h l x =
     (let (h1, nn) = make_node h x in
      bnd (next_of h1 (Some l)) (\<lambda>r.
      bnd (link_nodes h1 (Some nn) r) (\<lambda>h2.
      bnd (link_nodes h2 (Some l) (Some nn)) (\<lambda>h3.
      bnd (data_of h3 (Some nn)) (\<lambda>v. Inr (h3, v))))))"

definition pop_front :: "'a sll_store \<Rightarrow> addr \<Rightarrow> fault + 'a sll_store" where
  "pop_front h l =
     bnd (next_of h (Some l)) (\<lambda>tmp.
       if tmp \<noteq> None then
         bnd (next_of h tmp) (\<lambda>r.
         bnd (link_nodes h (Some l) r) (\<lambda>h1. dealloc h1 tmp))
       else Inr h)"

definition erase_after :: "'a sll_store \<Rightarrow> ptr \<Rightarrow> fault + ('a sll_store \<times> ptr)" where
  "erase_after h pos =
     (if pos = None then Inr (h, None)
      else bnd (next_of h pos) (\<lambda>pn.
        if pn \<noteq> None then
          bnd (next_of h pn) (\<lambda>r.
          bnd (link_nodes h pos r) (\<lambda>h1.
          bnd (dealloc h1 pn) (\<lambda>h2.
          bnd (next_of h2 pos) (\<lambda>q. Inr (h2, q)))))
        else Inr (h, None)))"

fun erase_loop :: "nat \<Rightarrow> 'a sll_store \<Rightarrow> ptr \<Rightarrow> ptr \<Rightarrow> fault + ('a sll_store \<times> ptr)" where
  "erase_loop 0 h p e = Inl Diverges"
| "erase_loop (Suc fuel) h p e =
     (if p \<noteq> e then
        bnd (next_of h p) (\<lambda>r. bnd (dealloc h p) (\<lambda>h1. erase_loop fuel h1 r e))
      else Inr (h, p))"

definition erase_after_range :: "'a sll_store \<Rightarrow> ptr \<Rightarrow> ptr \<Rightarrow> fault + ('a sll_store \<times> ptr)" where
  "erase_after_range h b e =
     (if b = e then Inr (h, e)
      else bnd (next_of h b) (\<lambda>p.
        bnd (link_nodes h b e) (\<lambda>h1. erase_loop (Suc (brk h)) h1 p e)))"

text \<open>
  \<^verbatim>\<open>resize\<close>: walk both iterators forward until the end or the \<open>count\<close>-th element, then insert
  the missing elements or erase the surplus ones.
\<close>

fun resize_loop :: "nat \<Rightarrow> 'a sll_store \<Rightarrow> ptr \<Rightarrow> ptr \<Rightarrow> size_t \<Rightarrow> fault + (ptr \<times> ptr \<times> size_t)" where
  "resize_loop 0 h before_it it n = Inl Diverges"
| "resize_loop (Suc fuel) h before_it it n =
     (if n \<noteq> 0 \<and> it \<noteq> None then
        bnd (next_of h it) (\<lambda>it'. bnd (next_of h before_it) (\<lambda>before_it'.
          resize_loop fuel h before_it' it' (n - 1)))
      else Inr (before_it, it, n))"

definition resize :: "'a sll_store \<Rightarrow> addr \<Rightarrow> size_t \<Rightarrow> 'a \<Rightarrow> fault + 'a sll_store" where
  "resize h l n x =
     bnd (next_of h (Some l)) (\<lambda>it0.
     bnd (resize_loop (Suc (brk h)) h (Some l) it0 n) (\<lambda>(before_it, it, n).
       if n \<noteq> 0 \<and> it = None then
         bnd (insert_after_n h before_it n x) (\<lambda>(h1, _). Inr h1)
       else if n = 0 \<and> it \<noteq> None then
         bnd (erase_after_range h before_it None) (\<lambda>(h1, _). Inr h1)
       else Inr h))"


section \<open>What a mutator promises\<close>

text \<open>
  \<open>mutates h h' l ns ns'\<close>: from the store \<open>h\<close>, where the list at \<open>l\<close> holds \<open>ns\<close>, an operation has
  reached \<open>h'\<close>, where it holds \<open>ns'\<close>. Nothing outside the list changed, the nodes of \<open>ns'\<close>
  are nodes of \<open>ns\<close> or new, and the live addresses are the old ones without the nodes that left the
  list and with those that joined it: no leak, no node freed that is still in use.
\<close>

definition mutates ::
  "'a sll_store \<Rightarrow> 'a sll_store \<Rightarrow> addr \<Rightarrow> (addr \<times> 'a) list \<Rightarrow> (addr \<times> 'a) list \<Rightarrow> bool" where
  "mutates h h' l ns ns' \<longleftrightarrow> sll h l ns \<and> sll h' l ns' \<and> same h h' ({..<brk h} - owned l ns) \<and>
     brk h \<le> brk h' \<and> fst ` set ns' \<subseteq> fst ` set ns \<union> {brk h..} \<and>
     dom (cells h') = dom (cells h) - fst ` set ns \<union> fst ` set ns'"

lemma mutates_sll: "mutates h h' l ns ns' \<Longrightarrow> sll h' l ns'"
  by (simp add: mutates_def)

lemma sll_dom: "sll h l ns \<Longrightarrow> insert l (fst ` set ns) \<subseteq> dom (cells h)"
  using seg_live by (fastforce elim!: sllE)

lemma mutates_refl: "sll h l ns \<Longrightarrow> mutates h h l ns ns"
  using sll_dom by (fastforce simp: mutates_def)

lemma store_ok_dom: "store_ok h \<Longrightarrow> dom (cells h) \<subseteq> {..<brk h}"
  by (auto dest: store_okD)

lemma mutatesD:
  assumes "mutates h h' l ns ns'"
  shows "sll h l ns" "sll h' l ns'" "same h h' ({..<brk h} - owned l ns)" "brk h \<le> brk h'"
    "fst ` set ns' \<subseteq> fst ` set ns \<union> {brk h..}"
    "dom (cells h') = dom (cells h) - fst ` set ns \<union> fst ` set ns'"
  using assms by (simp_all only: mutates_def simp_thms)

lemma mutatesI:
  assumes "sll h l ns" "sll h' l ns'" "same h h' ({..<brk h} - owned l ns)" "brk h \<le> brk h'"
    "fst ` set ns' \<subseteq> fst ` set ns \<union> {brk h..}"
    "dom (cells h') = dom (cells h) - fst ` set ns \<union> fst ` set ns'"
  shows "mutates h h' l ns ns'"
  unfolding mutates_def using assms by (intro conjI)

lemma new_trans:
  fixes A A' A'' :: "addr set"
  shows "A'' \<subseteq> A' \<union> {b'..} \<Longrightarrow> A' \<subseteq> A \<union> {b..} \<Longrightarrow> b \<le> b' \<Longrightarrow> A'' \<subseteq> A \<union> {b..}"
  by fastforce

lemma dom_trans:
  fixes A A' A'' D :: "addr set"
  shows "A' \<subseteq> A \<union> {b..} \<Longrightarrow> D \<subseteq> {..<b} \<Longrightarrow> D - A \<union> A' - A' \<union> A'' = D - A \<union> A''"
  by fastforce

lemma mutates_trans:
  assumes "mutates h h' l ns ns'" and "mutates h' h'' l ns' ns''"
  shows "mutates h h'' l ns ns''"
proof (rule mutatesI)
  note 1 = mutatesD [OF assms(1)] and 2 = mutatesD [OF assms(2)]
  have "{..<brk h} - owned l ns \<subseteq> {..<brk h'} - owned l ns'"
    using 1(4) by (auto simp: owned_def dest!: subsetD [OF 1(5)])
  then show "same h h'' ({..<brk h} - owned l ns)"
    using same_trans [OF 1(3) same_mono [OF 2(3)]] by blast
  show "fst ` set ns'' \<subseteq> fst ` set ns \<union> {brk h..}"
    using 2(5) 1(5) 1(4) by (rule new_trans)
  have "dom (cells h) \<subseteq> {..<brk h}"
    using 1(1) store_ok_dom by (auto elim!: sllE)
  then show "dom (cells h'') = dom (cells h) - fst ` set ns \<union> fst ` set ns''"
    unfolding 2(6) 1(6) by (rule dom_trans [OF 1(5)])
  show "sll h l ns" "sll h'' l ns''" "brk h \<le> brk h''"
    using 1(1,4) 2(2,4) by linarith+
qed

lemma owned_below: "sll h l ns \<Longrightarrow> owned l ns \<subseteq> {..<brk h}"
  using seg_below store_okD by (fastforce simp: owned_def elim!: sllE)

lemma before_owned: "before l pre \<in> owned l (pre @ post)"
  using before_in by (fastforce simp: owned_def)

text \<open>Another list in the same store keeps its nodes.\<close>

lemma mutates_other:
  assumes "mutates h h' l ns ns'" and "sll h k ms" and "owned k ms \<inter> owned l ns = {}"
  shows "sll h' k ms"
proof (rule sll_frame [OF assms(2)])
  show "same h h' (owned k ms)"
    using assms owned_below [OF assms(2)] by (auto simp: mutates_def intro: same_mono)
  show "store_ok h'"
    using assms(1) by (auto simp: mutates_def elim!: sllE)
qed

lemma link_spec:
  assumes "sll h l (pre @ post)" and "seg h (first post' None) post' None"
    and "distinct (l # map fst (pre @ post'))"
  obtains h' where "link_nodes h (Some (before l pre)) (first post' None) = Inr h'"
    and "sll h' l (pre @ post')" and "brk h' = brk h" and "same h h' (- {before l pre})"
    and "dom (cells h') = dom (cells h)"
proof -
  obtain y where y: "cells h (before l pre) = Some \<lparr>data = y, nxt = first post None\<rparr>"
    using sll_before [OF assms(1)] .
  show ?thesis
    using sll_relink [OF assms y] y
    by (intro that [of "h\<lparr>cells := (cells h)(before l pre \<mapsto> \<lparr>data = y, nxt = first post' None\<rparr>)\<rparr>"])
      auto
qed

lemma next_before:
  "sll h l (pre @ post) \<Longrightarrow> next_of h (Some (before l pre)) = Inr (first post None)"
  by (erule sll_before) simp

lemma built_dom:
  assumes "store_ok h" and "built h h' ms"
  shows "dom (cells h') = dom (cells h) \<union> fst ` set ms"
    and "fst ` set ms = {brk h..<brk h'}"
proof -
  have fs: "fst ` set ms = {brk h..<brk h'}"
    using assms(2) fst_fresh [of "brk h" "vals ms"] by (simp add: built_def)
  have seg: "seg h' (first ms None) ms None"
    using assms(2) by (simp add: built_def)
  show "dom (cells h') = dom (cells h) \<union> fst ` set ms"
  proof (rule set_eqI)
    fix a
    show "a \<in> dom (cells h') \<longleftrightarrow> a \<in> dom (cells h) \<union> fst ` set ms"
    proof (cases "a < brk h")
      case True
      then have "cells h' a = cells h a"
        using assms(2) by (simp add: built_def same_def)
      then have "a \<in> dom (cells h') \<longleftrightarrow> a \<in> dom (cells h)"
        by (simp add: dom_def)
      with True fs show ?thesis by auto
    next
      case False
      then have "cells h a = None"
        using assms(1) by (simp add: store_ok_def)
      moreover have "a \<in> fst ` set ms \<Longrightarrow> a \<in> dom (cells h')"
        using seg_live [OF seg] by blast
      moreover have "a \<in> dom (cells h') \<Longrightarrow> a < brk h'"
        using assms(2) by (auto simp: built_def dest: store_okD)
      ultimately show ?thesis
        using False fs by auto
    qed
  qed
  show "fst ` set ms = {brk h..<brk h'}" by (rule fs)
qed

lemma built_make_node:
  "store_ok h \<Longrightarrow> built h (fst (make_node h x)) [(brk h, x)]"
  by (simp add: built_def)

lemma splice_spec:
  assumes "sll h l (pre @ post)" and "built h h1 ms"
  obtains h' where
    "splice_after h1 (Some (before l pre)) (first ms None, Some (fst (last ms)))
       = Inr (h', Some (fst (last ms)))"
    "mutates h h' l (pre @ post) (pre @ ms @ post)"
proof -
  have ok: "store_ok h" using assms(1) by (rule sllE)
  have fs: "fst ` set ms = {brk h..<brk h1}" and dom1: "dom (cells h1) = dom (cells h) \<union> fst ` set ms"
    using built_dom [OF ok assms(2)] by simp_all
  obtain ms0 z v where ms: "ms = ms0 @ [(z, v)]"
    using assms(2) by (cases ms rule: rev_cases) (auto simp: built_def)
  have zb: "brk h \<le> z" using fs ms by auto
  have "seg h1 (first ms None) ms None"
    using assms(2) by (simp add: built_def)
  then have seg1: "seg h1 (first ms None) (ms0 @ [(z, v)]) None"
    by (simp only: ms)
  have dms: "distinct (map fst ms)"
    using assms(2) distinct_fresh unfolding built_def by metis
  have below: "owned l (pre @ post) \<subseteq> {..<brk h}"
    using assms(1) by (rule owned_below)
  have zo: "z \<notin> owned l (pre @ post)" using below zb by auto
  have sll1: "sll h1 l (pre @ post)"
    using assms(2) below by (intro sll_frame [OF assms(1)]) (auto simp: built_def intro: same_mono)
  define h2 where "h2 = h1\<lparr>cells := (cells h1)(z \<mapsto> \<lparr>data = v, nxt = first post None\<rparr>)\<rparr>"
  have link1: "link_nodes h1 (Some z) (first post None) = Inr h2"
    using seg1 by (simp add: h2_def)
  have "seg h2 (first ms None) ms (first post None)"
    unfolding h2_def ms by (rule seg_relink) (use seg1 dms ms in auto)
  moreover have sll2: "sll h2 l (pre @ post)"
    using zo seg1 sll1
    by (intro sll_frame [OF sll1]) (auto simp: h2_def elim!: sllE)
  moreover have "seg h2 (first post None) post None"
    using sll2 by (auto elim!: sllE)
  ultimately have chain: "seg h2 (first (ms @ post) None) (ms @ post) None"
    using ms by simp
  have dist: "distinct (l # map fst (pre @ ms @ post))"
  proof -
    have "owned l (pre @ post) \<inter> fst ` set ms = {}"
      using below unfolding fs by auto
    moreover have "distinct (l # map fst (pre @ post))"
      using assms(1) by (simp add: sll_def)
    ultimately show ?thesis
      using dms by (auto simp: owned_def)
  qed
  obtain h3 where h3: "link_nodes h2 (Some (before l pre)) (first (ms @ post) None) = Inr h3"
    "sll h3 l (pre @ ms @ post)" "brk h3 = brk h2" "same h2 h3 (- {before l pre})"
    "dom (cells h3) = dom (cells h2)"
    using link_spec [OF sll2 chain dist] .
  have "same h h3 ({..<brk h} - owned l (pre @ post))"
  proof -
    have "same h h1 ({..<brk h} - owned l (pre @ post))"
      using assms(2) by (auto simp: built_def intro: same_mono)
    moreover have "same h1 h2 ({..<brk h} - owned l (pre @ post))"
      using zb by (simp add: h2_def)
    moreover have "same h2 h3 ({..<brk h} - owned l (pre @ post))"
      using before_owned by (intro same_mono [OF h3(4)]) blast
    ultimately show ?thesis by (blast intro: same_trans)
  qed
  moreover have "dom (cells h3) = dom (cells h) - fst ` set (pre @ post) \<union> fst ` set (pre @ ms @ post)"
  proof -
    have "dom (cells h2) = dom (cells h1)"
      using seg1 by (auto simp: h2_def)
    moreover have "fst ` set (pre @ post) \<subseteq> dom (cells h)"
      using mutates_refl [OF assms(1)] by (auto simp: mutates_def)
    ultimately show ?thesis
      using h3(5) dom1 by auto
  qed
  moreover have "brk h \<le> brk h3"
    using h3(3) assms(2) by (simp add: h2_def built_def)
  moreover have "fst ` set (pre @ ms @ post) \<subseteq> fst ` set (pre @ post) \<union> {brk h..}"
  proof -
    have "fst ` set ms \<subseteq> {brk h..}" unfolding fs by auto
    then show ?thesis by auto
  qed
  ultimately have "mutates h h3 l (pre @ post) (pre @ ms @ post)"
    using assms(1) h3(2) by (intro mutatesI)
  moreover have "splice_after h1 (Some (before l pre)) (first ms None, Some (fst (last ms)))
       = Inr (h3, Some (fst (last ms)))"
    using next_before [OF sll1] link1 h3(1) ms by (simp add: splice_after_def)
  ultimately show ?thesis by (rule that [rotated])
qed

section \<open>Removing one node\<close>

text \<open>
  Unlinking the node after a position and freeing it: the step that \<open>clear\<close>, \<open>pop_front\<close>,
  \<open>erase_after\<close>, \<open>remove_if\<close> and \<open>unique\<close> share.
\<close>

lemma unlink_spec:
  assumes "sll h l (pre @ n # post)"
  obtains h1 h2 where
    "next_of h (Some (before l pre)) = Inr (Some (fst n))"
    "next_of h (Some (fst n)) = Inr (first post None)"
    "data_of h (Some (fst n)) = Inr (snd n)"
    "link_nodes h (Some (before l pre)) (first post None) = Inr h1"
    "dealloc h1 (Some (fst n)) = Inr h2"
    "mutates h h2 l (pre @ n # post) (pre @ post)"
    "brk h2 = brk h"
proof -
  let ?a = "fst n"
  have ok: "store_ok h" and dist: "distinct (l # map fst (pre @ n # post))"
    using assms by (auto simp: sll_def)
  have cell: "cells h ?a = Some \<lparr>data = snd n, nxt = first post None\<rparr>"
    and tail: "seg h (first post None) post None"
    using assms by (auto elim!: sllE)
  have d': "distinct (l # map fst (pre @ post))"
    using dist by auto
  obtain h1 where h1: "link_nodes h (Some (before l pre)) (first post None) = Inr h1"
    "sll h1 l (pre @ post)" "brk h1 = brk h" "same h h1 (- {before l pre})"
    "dom (cells h1) = dom (cells h)"
    using link_spec [OF assms tail d'] .
  have ab: "?a \<noteq> before l pre"
    using before_fresh [OF dist] by auto
  obtain m where m: "cells h1 ?a = Some m"
    using sameD [OF h1(4), of ?a] ab cell by auto
  define h2 where "h2 = h1\<lparr>cells := (cells h1)(?a := None)\<rparr>"
  have fresh: "?a \<notin> owned l (pre @ post)"
    using dist by (auto simp: owned_def)
  have sll2: "sll h2 l (pre @ post)"
    using h1(2) fresh by (intro sll_frame [OF h1(2)]) (auto simp: h2_def elim!: sllE)
  have "mutates h h2 l (pre @ n # post) (pre @ post)"
  proof (rule mutatesI)
    have "same h h1 ({..<brk h} - owned l (pre @ n # post))"
      using before_owned by (intro same_mono [OF h1(4)]) blast
    moreover have "same h1 h2 ({..<brk h} - owned l (pre @ n # post))"
      by (simp add: h2_def owned_def)
    ultimately show "same h h2 ({..<brk h} - owned l (pre @ n # post))"
      by (rule same_trans)
    have "fst ` set (pre @ post) \<subseteq> dom (cells h)"
      using sll_dom [OF assms] by auto
    moreover have "dom (cells h2) = dom (cells h) - {?a}"
      using h1(5) by (auto simp: h2_def)
    ultimately show "dom (cells h2) = dom (cells h) - fst ` set (pre @ n # post) \<union> fst ` set (pre @ post)"
      using fresh by (auto simp: owned_def)
  qed (use assms sll2 h1(3) in \<open>auto simp: h2_def\<close>)
  moreover have "dealloc h1 (Some ?a) = Inr h2"
    using m by (simp add: h2_def)
  ultimately show ?thesis
    using that next_before [OF assms] cell h1(1,3) by (simp add: h2_def)
qed

lemmas unlink_head =
  unlink_spec [where pre = "[]", unfolded append_Nil before_simps]

lemma next_head: "sll h l ns \<Longrightarrow> next_of h (Some l) = Inr (first ns None)"
  using next_before [of h l "[]" ns] by simp

lemma free_loop_spec:
  assumes "sll h l ns" and "length ns < fuel"
  shows "\<exists>h'. free_loop fuel h l = Inr h' \<and> mutates h h' l ns [] \<and> brk h' = brk h"
  using assms
proof (induction ns arbitrary: h fuel)
  case Nil
  then obtain f where "fuel = Suc f" by (cases fuel) auto
  with Nil show ?case by (simp add: next_head mutates_refl)
next
  case (Cons n ns)
  then obtain f where f: "fuel = Suc f" by (cases fuel) auto
  obtain h1 h2 where h: "next_of h (Some l) = Inr (Some (fst n))"
    "next_of h (Some (fst n)) = Inr (first ns None)"
    "link_nodes h (Some l) (first ns None) = Inr h1" "dealloc h1 (Some (fst n)) = Inr h2"
    "mutates h h2 l (n # ns) ns" "brk h2 = brk h"
    using unlink_head [OF Cons.prems(1)] .
  obtain h' where "free_loop f h2 l = Inr h'" "mutates h2 h' l ns []" "brk h' = brk h2"
    using Cons.IH [OF mutatesD(2) [OF h(5)]] Cons.prems(2) f by auto
  then show ?case
    using h f mutates_trans [OF h(5)] by auto
qed

lemma clear_spec:
  assumes "sll h l ns"
  obtains h' where "clear h l = Inr h'" and "mutates h h' l ns []" and "brk h' = brk h"
  using free_loop_spec [OF assms, of "Suc (brk h)"] sll_length [OF assms] that
  by (auto simp: clear_def less_Suc_eq_le)

lemma pop_front_spec:
  assumes "sll h l ns"
  shows "\<exists>h'. pop_front h l = Inr h' \<and> mutates h h' l ns (tl ns)"
proof (cases ns)
  case Nil
  then show ?thesis
    using assms by (simp add: pop_front_def next_head mutates_refl)
next
  case (Cons n ns')
  obtain h1 h2 where "next_of h (Some l) = Inr (Some (fst n))"
    "next_of h (Some (fst n)) = Inr (first ns' None)"
    "link_nodes h (Some l) (first ns' None) = Inr h1" "dealloc h1 (Some (fst n)) = Inr h2"
    "mutates h h2 l ns ns'"
    using unlink_head [OF assms [unfolded Cons]] unfolding Cons .
  then show ?thesis
    using Cons by (simp add: pop_front_def)
qed

lemma erase_after_spec:
  assumes "sll h l (pre @ n # post)"
  shows "\<exists>h'. erase_after h (Some (before l pre)) = Inr (h', first post None) \<and>
    mutates h h' l (pre @ n # post) (pre @ post)"
proof -
  obtain h1 h2 where "next_of h (Some (before l pre)) = Inr (Some (fst n))"
    "next_of h (Some (fst n)) = Inr (first post None)"
    "link_nodes h (Some (before l pre)) (first post None) = Inr h1"
    "dealloc h1 (Some (fst n)) = Inr h2"
    and h2: "mutates h h2 l (pre @ n # post) (pre @ post)"
    using unlink_spec [OF assms] .
  then show ?thesis
    using next_before [OF mutatesD(2) [OF h2]] by (simp add: erase_after_def)
qed

lemma erase_after_last:
  "sll h l ns \<Longrightarrow> erase_after h (Some (before l ns)) = Inr (h, None)"
  using next_before [of h l ns "[]"] by (simp add: erase_after_def)

lemma front_spec:
  "sll h l ns \<Longrightarrow> front h l = (case ns of [] \<Rightarrow> Inl Contract | n # _ \<Rightarrow> Inr (snd n))"
  using next_head [of h l ns] by (cases ns) (auto simp: front_def elim!: sllE)

lemma is_empty_spec: "sll h l ns \<Longrightarrow> is_empty h l = Inr (ns = [])"
  using next_head [of h l ns] by (cases ns) (auto simp: is_empty_def)

section \<open>Insertion\<close>

lemma insert_after_eq:
  "insert_after h (Some a) x = splice_after (fst (make_node h x)) (Some a) (Some (brk h), Some (brk h))"
  by (simp add: insert_after_def splice_after_def)

lemma insert_after_spec:
  assumes "sll h l (pre @ post)"
  shows "\<exists>h'. insert_after h (Some (before l pre)) x = Inr (h', Some (brk h)) \<and>
    mutates h h' l (pre @ post) (pre @ (brk h, x) # post)"
proof -
  have "store_ok h" using assms by (rule sllE)
  then have "built h (fst (make_node h x)) [(brk h, x)]"
    by (rule built_make_node)
  then show ?thesis
    unfolding insert_after_eq using splice_spec [OF assms, of _ "[(brk h, x)]"] by auto
qed

lemma insert_after_end: "insert_after h None x = Inl Contract"
  by (simp add: insert_after_def)

lemma push_front_eq:
  "push_front h l x = bnd (insert_after h (Some l) x) (\<lambda>(h', _). Inr h')"
  by (simp add: push_front_def insert_after_def bnd_assoc) (simp add: bnd_def split: sum.splits)

lemma push_front_spec:
  assumes "sll h l ns"
  shows "\<exists>h'. push_front h l x = Inr h' \<and> mutates h h' l ns ((brk h, x) # ns)"
  using insert_after_spec [of h l "[]" ns x] assms by (auto simp: push_front_eq)

lemma insert_after_n_spec:
  assumes "sll h l (pre @ post)" and "ms = fresh (brk h) (replicate (unat n) x)"
  shows "\<exists>h'. insert_after_n h (Some (before l pre)) n x = Inr (h', Some (before (before l pre) ms)) \<and>
    mutates h h' l (pre @ post) (pre @ ms @ post)"
proof (cases "n = 0")
  case True
  then show ?thesis
    using assms by (simp add: insert_after_n_def mutates_refl)
next
  case False
  have ok: "store_ok h" using assms(1) by (rule sllE)
  have ms: "ms = fresh (brk h) (replicate (Suc (unat (n - 1))) x)"
    using assms(2) False by (simp only: make_n_count if_False)
  obtain h1 where h1: "make_n h n x = Inr (h1, first ms None, Some (fst (last ms)))" "built h h1 ms"
    using make_n_spec [OF ok ms] by blast
  have "before (before l pre) ms = fst (last ms)"
    using h1(2) by (simp add: before_def built_def)
  with False h1(1) show ?thesis
    using splice_spec [OF assms(1) h1(2)] by (auto simp: insert_after_n_def)
qed

lemma insert_after_range_spec:
  assumes "sll h l (pre @ post)" and "ms = fresh (brk h) xs"
  shows "\<exists>h'. insert_after_range h (Some (before l pre)) xs = Inr (h', Some (before (before l pre) ms)) \<and>
    mutates h h' l (pre @ post) (pre @ ms @ post)"
proof (cases "xs = []")
  case True
  then show ?thesis
    using assms by (simp add: insert_after_range_def mutates_refl)
next
  case False
  have ok: "store_ok h" using assms(1) by (rule sllE)
  obtain h1 where h1: "make_range (length xs) value_deref value_step h xs []
      = Inr (h1, first ms None, Some (fst (last ms)))" "built h h1 ms"
    using value_it.make_range_spec [OF ok refl False _ order_refl assms(2), of 0] by auto
  have "before (before l pre) ms = fst (last ms)"
    using h1(2) by (simp add: before_def built_def)
  with False h1(1) show ?thesis
    using splice_spec [OF assms(1) h1(2)] by (auto simp: insert_after_range_def)
qed

section \<open>Erasing a range, resizing\<close>

lemma erase_loop_spec:
  assumes "seg h p mid e" and "distinct (map fst mid)" and "e \<notin> Some ` fst ` set mid"
    and "length mid < fuel"
  shows "\<exists>h'. erase_loop fuel h p e = Inr (h', e) \<and> brk h' = brk h \<and>
    cells h' = (\<lambda>a. if a \<in> fst ` set mid then None else cells h a)"
  using assms
proof (induction mid arbitrary: h p fuel)
  case Nil
  then show ?case by (cases fuel) auto
next
  case (Cons n mid)
  then obtain f where f: "fuel = Suc f" by (cases fuel) auto
  let ?h = "h\<lparr>cells := (cells h)(fst n := None)\<rparr>"
  have "seg ?h (first mid e) mid e"
    using Cons.prems(1,2) by (auto simp: image_iff)
  then obtain h' where "erase_loop f ?h (first mid e) e = Inr (h', e)" "brk h' = brk ?h"
    "cells h' = (\<lambda>a. if a \<in> fst ` set mid then None else cells ?h a)"
    using Cons.IH [of ?h "first mid e" f] Cons.prems(2-4) f by auto
  moreover have "p = Some (fst n)" "p \<noteq> e" and
    "cells h (fst n) = Some \<lparr>data = snd n, nxt = first mid e\<rparr>"
    using Cons.prems(1,3) by auto
  ultimately show ?case
    using f by (auto simp: fun_eq_iff)
qed

lemma erase_after_range_spec:
  assumes "sll h l (pre @ mid @ post)"
  shows "\<exists>h'. erase_after_range h (Some (before l pre)) (first post None) = Inr (h', first post None) \<and>
    mutates h h' l (pre @ mid @ post) (pre @ post)"
proof -
  let ?b = "before l pre" and ?e = "first post None"
  have ok: "store_ok h" and dist: "distinct (l # map fst (pre @ mid @ post))"
    and mid: "seg h (first mid ?e) mid ?e" and tail: "seg h ?e post None"
    using assms by (auto simp: sll_def elim!: sllE)
  have d': "distinct (l # map fst (pre @ post))" using dist by auto
  obtain h1 where h1: "link_nodes h (Some ?b) ?e = Inr h1" "sll h1 l (pre @ post)" "brk h1 = brk h"
    "same h h1 (- {?b})" "dom (cells h1) = dom (cells h)"
    using link_spec [OF assms tail d'] .
  have bm: "?b \<notin> fst ` set mid" and be: "Some ?b \<noteq> ?e"
    using before_fresh [OF dist] by (auto, cases post, auto)
  have em: "?e \<notin> Some ` fst ` set mid"
    using dist by (cases post) auto
  have seg1: "seg h1 (first mid ?e) mid ?e"
    using bm by (intro seg_frame [OF same_mono [OF h1(4)] mid]) blast
  have len: "length mid \<le> brk h1"
    using sll_length [OF assms] h1(3) by simp
  have dm: "distinct (map fst mid)" using dist by simp
  obtain h2 where h2: "erase_loop (Suc (brk h1)) h1 (first mid ?e) ?e = Inr (h2, ?e)" "brk h2 = brk h1"
    "cells h2 = (\<lambda>a. if a \<in> fst ` set mid then None else cells h1 a)"
    using erase_loop_spec [OF seg1 dm em le_imp_less_Suc [OF len]] by blast
  have disj: "owned l (pre @ post) \<inter> fst ` set mid = {}"
    using dist by (auto simp: owned_def)
  have sll2: "sll h2 l (pre @ post)"
  proof (rule sll_frame [OF h1(2)])
    show "same h1 h2 (owned l (pre @ post))"
      using disj h2(3) by (auto simp: same_def)
    show "store_ok h2"
      using h1(2) h2(2,3) by (auto simp: store_ok_def elim!: sllE)
  qed
  have "mutates h h2 l (pre @ mid @ post) (pre @ post)"
  proof (rule mutatesI)
    have "same h h1 ({..<brk h} - owned l (pre @ mid @ post))"
      using before_owned by (intro same_mono [OF h1(4)]) blast
    moreover have "same h1 h2 ({..<brk h} - owned l (pre @ mid @ post))"
      using h2(3) by (auto simp: same_def owned_def)
    ultimately show "same h h2 ({..<brk h} - owned l (pre @ mid @ post))"
      by (rule same_trans)
    have "fst ` set (pre @ post) \<subseteq> dom (cells h)"
      using sll_dom [OF assms] by auto
    moreover have "dom (cells h2) = dom (cells h) - fst ` set mid"
      using h1(5) h2(3) by (auto simp: dom_def split: if_splits)
    ultimately show "dom (cells h2) =
        dom (cells h) - fst ` set (pre @ mid @ post) \<union> fst ` set (pre @ post)"
      using disj by (auto simp: owned_def)
  qed (use assms sll2 h1(3) h2(2) in auto)
  moreover have "erase_after_range h (Some ?b) ?e = Inr (h2, ?e)"
    using be next_before [OF assms] h1(1,3) h2(1) by (simp add: erase_after_range_def del: erase_loop.simps)
  ultimately show ?thesis by blast
qed

lemma resize_loop_spec:
  assumes "sll h l (pre @ post)" and "length post < fuel" and "k = min (unat n) (length post)"
  shows "resize_loop fuel h (Some (before l pre)) (first post None) n =
    Inr (Some (before l (pre @ take k post)), first (drop k post) None, n - word_of_nat k)"
  using assms
proof (induction post arbitrary: pre n k fuel)
  case Nil
  then show ?case by (cases fuel) auto
next
  case (Cons m post)
  then obtain f where f: "fuel = Suc f" by (cases fuel) auto
  show ?case
  proof (cases "n = 0")
    case True
    then show ?thesis using Cons.prems f by simp
  next
    case False
    then obtain u where u: "unat n = Suc u"
      by (metis not0_implies_Suc unat_eq_zero)
    have u': "unat (n - 1) = u"
      using u False by (simp add: unat_minus_one)
    have sll: "sll h l ((pre @ [m]) @ post)" using Cons.prems(1) by simp
    have k: "k = Suc (min u (length post))"
      using Cons.prems(3) u by simp
    have cell: "cells h (fst m) = Some \<lparr>data = snd m, nxt = first post None\<rparr>"
      using Cons.prems(1) by (auto elim!: sllE)
    have "resize_loop f h (Some (before l (pre @ [m]))) (first post None) (n - 1) =
      Inr (Some (before l ((pre @ [m]) @ take (min u (length post)) post)),
        first (drop (min u (length post)) post) None, n - 1 - word_of_nat (min u (length post)))"
      by (rule Cons.IH [OF sll]) (use Cons.prems(2) f u' in simp_all)
    then show ?thesis
      using False f k cell next_before [OF Cons.prems(1)] by (simp add: algebra_simps)
  qed
qed

lemma resize_spec:
  assumes "sll h l ns"
    and "ns' = (if length ns < unat n
      then ns @ fresh (brk h) (replicate (unat n - length ns) x) else take (unat n) ns)"
  shows "\<exists>h'. resize h l n x = Inr h' \<and> mutates h h' l ns ns'"
proof -
  define k where "k = min (unat n) (length ns)"
  have loop: "resize_loop (Suc (brk h)) h (Some l) (first ns None) n =
      Inr (Some (before l (take k ns)), first (drop k ns) None, n - word_of_nat k)"
    using resize_loop_spec [of h l "[]" ns "Suc (brk h)" k n] assms(1) sll_length [OF assms(1)]
    by (simp add: k_def)
  have kn: "k \<le> unat n" by (simp add: k_def)
  then have uk: "unat (word_of_nat k :: size_t) = k"
    using unat_size_t_less [of n] by (simp add: unsigned_of_nat take_bit_nat_eq_self size_max_def)
  with kn have diff: "unat (n - word_of_nat k) = unat n - k"
    by (simp add: unat_sub word_le_nat_alt)
  show ?thesis
  proof (cases "length ns < unat n")
    case True
    then have k: "k = length ns" by (simp add: k_def)
    have nz: "n - word_of_nat k \<noteq> 0"
      using True diff k by auto
    show ?thesis
      using insert_after_n_spec [of h l ns "[]" _ "n - word_of_nat k" x] assms True loop nz diff k
      by (auto simp: resize_def next_head)
  next
    case False
    then have k: "k = unat n" by (simp add: k_def)
    then have z: "n - word_of_nat k = 0"
      using diff by (simp add: unat_eq_zero)
    have ns': "ns' = take k ns" using False k assms(2) by simp
    show ?thesis
    proof (cases "drop k ns = []")
      case True
      then show ?thesis
        using assms(1) loop ns' z by (auto simp: resize_def next_head mutates_refl)
    next
      case False
      then have "first (drop k ns) None \<noteq> None"
        by (cases "drop k ns") auto
      then show ?thesis
        using erase_after_range_spec [of h l "take k ns" "drop k ns" "[]"] assms(1) loop ns' z
        by (auto simp: resize_def next_head)
    qed
  qed
qed


section \<open>Construction and assignment\<close>

text \<open>Linking a newly built chain behind the head of an empty list.\<close>

lemma attach_spec:
  assumes "sll h l []" and "built h h1 ms"
  obtains h2 where "link_nodes h1 (Some l) (first ms None) = Inr h2" "mutates h h2 l [] ms"
proof -
  have ok: "store_ok h" and lb: "l < brk h"
    using assms(1) owned_below [OF assms(1)] by (auto simp: owned_def elim!: sllE)
  have fs: "fst ` set ms = {brk h..<brk h1}" and dom1: "dom (cells h1) = dom (cells h) \<union> fst ` set ms"
    using built_dom [OF ok assms(2)] by simp_all
  have sll1: "sll h1 l []"
    using assms(2) lb by (intro sll_frame [OF assms(1)]) (auto simp: built_def owned_def intro: same_mono)
  have "seg h1 (first ms None) ms None" and "distinct (map fst ms)"
    using assms(2) distinct_fresh unfolding built_def by (blast, metis)
  moreover have "l \<notin> fst ` set ms"
    unfolding fs using lb by simp
  ultimately have seg: "seg h1 (first ms None) ms None" and dist: "distinct (l # map fst ([] @ ms))"
    by simp_all
  obtain h2 where h2: "link_nodes h1 (Some (before l [])) (first ms None) = Inr h2"
    "sll h2 l ([] @ ms)" "brk h2 = brk h1" "same h1 h2 (- {before l []})" "dom (cells h2) = dom (cells h1)"
    using link_spec [OF _ seg dist, of "[]"] sll1 by auto
  have "mutates h h2 l [] ms"
  proof (rule mutatesI)
    have "same h h1 ({..<brk h} - owned l [])"
      using assms(2) by (auto simp: built_def intro: same_mono)
    moreover have "same h1 h2 ({..<brk h} - owned l [])"
      using h2(4) by (rule same_mono) (auto simp: owned_def)
    ultimately show "same h h2 ({..<brk h} - owned l [])" by (rule same_trans)
    show "brk h \<le> brk h2" using assms(2) h2(3) by (simp add: built_def)
    show "fst ` set ms \<subseteq> fst ` set [] \<union> {brk h..}" unfolding fs by auto
    show "dom (cells h2) = dom (cells h) - fst ` set [] \<union> fst ` set ms"
      using h2(5) dom1 by simp
  qed (use assms(1) h2(2) in auto)
  then show ?thesis using h2(1) that by simp
qed

lemma new_list_spec:
  assumes "store_ok h" and "new_list h dflt = (h1, l)"
  shows "l = brk h" and "sll h1 l []" and "same h h1 {..<brk h}" and "brk h1 = Suc (brk h)"
    and "dom (cells h1) = insert l (dom (cells h))"
  using assms by (auto simp: new_list_def sll_def)

text \<open>
  \<open>created h h' l ns\<close>: a new list object \<open>l\<close> with the nodes \<open>ns\<close>, all of it newly allocated.
\<close>

definition created :: "'a sll_store \<Rightarrow> 'a sll_store \<Rightarrow> addr \<Rightarrow> (addr \<times> 'a) list \<Rightarrow> bool" where
  "created h h' l ns \<longleftrightarrow> sll h' l ns \<and> same h h' {..<brk h} \<and> owned l ns \<subseteq> {brk h..} \<and>
     dom (cells h') = dom (cells h) \<union> owned l ns"

lemma createdI:
  assumes "store_ok h" and "new_list h dflt = (h1, l)" and "mutates h1 h' l [] ns"
  shows "created h h' l ns"
proof -
  note new = new_list_spec [OF assms(1,2)] and mu = mutatesD [OF assms(3)]
  have "same h1 h' {..<brk h}"
    using new(1,4) by (intro same_mono [OF mu(3)]) (auto simp: owned_def)
  then have "same h h' {..<brk h}"
    using new(3) by (blast intro: same_trans)
  moreover have "fst ` set ns \<subseteq> {brk h..}"
    using mu(5) new(4) by fastforce
  ultimately show ?thesis
    using mu(2,6) new(1,5) by (auto simp: created_def owned_def)
qed

lemma construct_n_spec:
  assumes "store_ok h"
  shows "\<exists>h' ns. construct_n h dflt n x = Inr (h', brk h) \<and> created h h' (brk h) ns \<and>
    vals ns = replicate (if n = 0 then 2 ^ 64 else unat n) x"
proof -
  obtain h1 l where new: "new_list h dflt = (h1, l)" by fastforce
  note n = new_list_spec [OF assms new]
  have ok1: "store_ok h1" using n(2) by (rule sllE)
  define ms where "ms = fresh (brk h1) (replicate (Suc (unat (n - 1))) x)"
  obtain h2 where h2: "make_n h1 n x = Inr (h2, first ms None, Some (fst (last ms)))" "built h1 h2 ms"
    using make_n_spec [OF ok1 ms_def] by blast
  obtain h3 where h3: "link_nodes h2 (Some l) (first ms None) = Inr h3" "mutates h1 h3 l [] ms"
    using attach_spec [OF n(2) h2(2)] .
  have "construct_n h dflt n x = Inr (h3, l)"
    using new h2(1) h3(1) by (simp add: construct_n_def)
  moreover have "vals ms = replicate (if n = 0 then 2 ^ 64 else unat n) x"
    unfolding ms_def make_n_count by (rule fresh_simps)
  ultimately show ?thesis
    using createdI [OF assms new h3(2)] n(1) by metis
qed

lemma construct_range_spec:
  assumes "store_ok h" and "xs \<noteq> []"
  shows "\<exists>h' ns. construct_range h dflt xs = Inr (h', brk h) \<and> created h h' (brk h) ns \<and> vals ns = xs"
proof -
  obtain h1 l where new: "new_list h dflt = (h1, l)" by fastforce
  note n = new_list_spec [OF assms(1) new]
  have ok1: "store_ok h1" using n(2) by (rule sllE)
  let ?ms = "fresh (brk h1) xs"
  obtain h2 where h2: "make_range (length xs) value_deref value_step h1 xs []
      = Inr (h2, first ?ms None, Some (fst (last ?ms)))" "built h1 h2 ?ms"
    using value_it.make_range_spec [OF ok1 refl assms(2) _ order_refl refl, of 0] by auto
  obtain h3 where h3: "link_nodes h2 (Some l) (first ?ms None) = Inr h3" "mutates h1 h3 l [] ?ms"
    using attach_spec [OF n(2) h2(2)] .
  have "construct_range h dflt xs = Inr (h3, l)"
    using new h2(1) h3(1) by (simp add: construct_range_def)
  then show ?thesis
    using createdI [OF assms(1) new h3(2)] n(1) fresh_simps(2) by metis
qed

lemma construct_range_empty: "construct_range h dflt [] = Inl Contract"
  by (simp add: construct_range_def new_list_def make_range_def)

text \<open>Copying the nodes of another list with its own iterators.\<close>

lemma copy_range_spec:
  assumes "sll h k ms" and "ms \<noteq> []"
  obtains h1 ns where
    "make_range (brk h) data_of next_of h (first ms None) None
       = Inr (h1, first ns None, Some (fst (last ns)))"
    "built h h1 ns" "vals ns = vals ms"
proof -
  have ok: "store_ok h" using assms(1) by (rule sllE)
  have "vals ms \<noteq> []" "length (vals ms) \<le> brk h"
    using assms sll_length [OF assms(1)] by auto
  from chain_it.make_range_spec [OF ok sll_chain_rng [OF assms(1)] this(1) order_refl this(2) refl]
  show ?thesis using that by (metis fresh_simps(2))
qed

lemma construct_copy_spec:
  assumes "sll h k ms" and "ms \<noteq> []"
  shows "\<exists>h' ns. construct_copy h dflt k = Inr (h', brk h) \<and> created h h' (brk h) ns \<and>
    vals ns = vals ms \<and> sll h' k ms"
proof -
  obtain h1 l where new: "new_list h dflt = (h1, l)" by fastforce
  have ok: "store_ok h" using assms(1) by (rule sllE)
  note n = new_list_spec [OF ok new]
  have k1: "sll h1 k ms"
    using n(2) by (intro sll_frame [OF assms(1) same_mono [OF n(3) owned_below [OF assms(1)]]])
      (auto elim!: sllE)
  obtain h2 ns where h2: "make_range (brk h1) data_of next_of h1 (first ms None) None
      = Inr (h2, first ns None, Some (fst (last ns)))" "built h1 h2 ns" "vals ns = vals ms"
    using copy_range_spec [OF k1 assms(2)] .
  obtain h3 where h3: "link_nodes h2 (Some l) (first ns None) = Inr h3" "mutates h1 h3 l [] ns"
    using attach_spec [OF n(2) h2(2)] .
  have cr: "created h h3 l ns"
    using createdI [OF ok new h3(2)] .
  have "sll h3 k ms"
    using cr by (intro sll_frame [OF assms(1) same_mono [OF _ owned_below [OF assms(1)]]])
      (auto simp: created_def elim!: sllE)
  moreover have "construct_copy h dflt k = Inr (h3, l)"
    using new next_head [OF k1] h2(1) h3(1) by (simp add: construct_copy_def)
  ultimately show ?thesis
    using cr h2(3) n(1) by metis
qed

lemma construct_copy_empty:
  assumes "sll h k []"
  shows "construct_copy h dflt k = Inl Contract"
proof -
  obtain h1 l where new: "new_list h dflt = (h1, l)" by fastforce
  have ok: "store_ok h" using assms by (rule sllE)
  note n = new_list_spec [OF ok new]
  have "sll h1 k []"
    using n(2) by (intro sll_frame [OF assms same_mono [OF n(3) owned_below [OF assms]]])
      (auto elim!: sllE)
  then show ?thesis
    using new by (simp add: construct_copy_def next_head make_range_def)
qed

text \<open>Redirecting the head of a list object to another chain.\<close>

lemma rehead_spec:
  assumes "sll h l ns" and "seg h (first ms None) ms None" and "distinct (l # map fst ms)"
  obtains h' where "link_nodes h (Some l) (first ms None) = Inr h'" "sll h' l ms" "brk h' = brk h"
    "same h h' (- {l})" "dom (cells h') = dom (cells h)"
  using link_spec [of h l "[]" ns ms] assms that by auto

lemma sll_seg: "sll h l ns \<Longrightarrow> seg h (first ns None) ns None"
  by (erule sllE)

lemma sll_store_ok: "sll h l ns \<Longrightarrow> store_ok h"
  by (erule sllE)

lemma copy_assign_spec:
  assumes "sll h this ns" and "sll h k ms" and "owned k ms \<inter> owned this ns = {}"
  shows "\<exists>h' ns'. copy_assign h this k = Inr h' \<and> mutates h h' this ns ns' \<and>
    vals ns' = vals ms \<and> sll h' k ms"
proof -
  have ne: "this \<noteq> k" using assms(3) by (auto simp: owned_def)
  obtain h1 where h1: "clear h this = Inr h1" "mutates h h1 this ns []"
    using clear_spec [OF assms(1)] by metis
  have this1: "sll h1 this []" and k1: "sll h1 k ms"
    using mutatesD(2) [OF h1(2)] mutates_other [OF h1(2) assms(2,3)] by simp_all
  have "\<exists>h' ns'. copy_assign h this k = Inr h' \<and> mutates h1 h' this [] ns' \<and> vals ns' = vals ms"
  proof (cases "ms = []")
    case True
    obtain h2 where h2: "link_nodes h1 (Some this) None = Inr h2" "sll h2 this []" "brk h2 = brk h1"
      "same h1 h2 (- {this})" "dom (cells h2) = dom (cells h1)"
      using rehead_spec [OF this1, of "[]"] by auto
    have "mutates h1 h2 this [] []"
      using this1 h2 by (intro mutatesI) (auto simp: owned_def intro: same_mono)
    moreover have "copy_assign h this k = Inr h2"
      using True ne h1(1) h2(1) next_head [OF k1] by (simp add: copy_assign_def)
    ultimately show ?thesis using True by auto
  next
    case False
    then obtain a where a: "first ms None = Some a" by (cases ms) auto
    obtain h2 qs where h2: "make_range (brk h1) data_of next_of h1 (first ms None) None
        = Inr (h2, first qs None, Some (fst (last qs)))" "built h1 h2 qs" "vals qs = vals ms"
      using copy_range_spec [OF k1 False] .
    obtain h3 where h3: "link_nodes h2 (Some this) (first qs None) = Inr h3" "mutates h1 h3 this [] qs"
      using attach_spec [OF this1 h2(2)] .
    have "copy_assign h this k = Inr h3"
      using ne a h1(1) h2(1) h3(1) next_head [OF k1] by (simp add: copy_assign_def)
    then show ?thesis using h2(3) h3(2) by blast
  qed
  then obtain h' ns' where h': "copy_assign h this k = Inr h'" "mutates h1 h' this [] ns'"
    "vals ns' = vals ms" by blast
  have mu: "mutates h h' this ns ns'" using h1(2) h'(2) by (rule mutates_trans)
  then show ?thesis
    using h'(1,3) mutates_other [OF mu assms(2,3)] by blast
qed

lemma copy_assign_self: "copy_assign h l l = Inr h"
  by (simp add: copy_assign_def)

text \<open>
  Moving the nodes of \<open>k\<close> to an empty list: no node is copied, freed or allocated.
\<close>

lemma steal_spec:
  assumes "sll h l []" and "sll h k ms" and "l \<notin> owned k ms"
  obtains h1 h2 where "next_of h (Some k) = Inr (first ms None)" "link_nodes h (Some k) None = Inr h1"
    "link_nodes h1 (Some l) (first ms None) = Inr h2" "sll h2 l ms" "sll h2 k []"
    "same h h2 (- {l, k})" "dom (cells h2) = dom (cells h)" "brk h2 = brk h"
proof -
  have k: "k \<noteq> l" "k \<notin> fst ` set ms" "l \<notin> fst ` set ms" "distinct (map fst ms)"
    using assms(2,3) by (auto simp: owned_def elim!: sllE)
  obtain h1 where h1: "link_nodes h (Some k) None = Inr h1" "sll h1 k []" "brk h1 = brk h"
    "same h h1 (- {k})" "dom (cells h1) = dom (cells h)"
    using rehead_spec [OF assms(2), of "[]"] by auto
  have l1: "sll h1 l []"
    using k sll_store_ok [OF h1(2)]
    by (intro sll_frame [OF assms(1) same_mono [OF h1(4)]]) (auto simp: owned_def)
  have "same h h1 (fst ` set ms)"
    using k(2) by (intro same_mono [OF h1(4)]) blast
  then have seg: "seg h1 (first ms None) ms None"
    using sll_seg [OF assms(2)] by (rule seg_frame)
  obtain h2 where h2: "link_nodes h1 (Some l) (first ms None) = Inr h2" "sll h2 l ms" "brk h2 = brk h1"
    "same h1 h2 (- {l})" "dom (cells h2) = dom (cells h1)"
    using rehead_spec [OF l1 seg] k by auto
  have "sll h2 k []"
    using k sll_store_ok [OF h2(2)]
    by (intro sll_frame [OF h1(2) same_mono [OF h2(4)]]) (auto simp: owned_def)
  moreover have "same h h2 (- {l, k})"
    by (rule same_chain [OF h1(4) h2(4)]) auto
  ultimately show ?thesis
    using that [OF next_head [OF assms(2)] h1(1) h2(1,2)] h1(3,5) h2(3,5) by simp
qed

lemma move_assign_spec:
  assumes "sll h this ns" and "sll h k ms" and "owned k ms \<inter> owned this ns = {}"
  shows "\<exists>h'. move_assign h this k = Inr h' \<and> sll h' this ms \<and> sll h' k [] \<and>
    dom (cells h') = dom (cells h) - fst ` set ns \<and>
    same h h' ({..<brk h} - owned this ns - {k})"
proof -
  have ne: "this \<noteq> k" "this \<notin> owned k ms" using assms(3) by (auto simp: owned_def)
  obtain h1 where h1: "clear h this = Inr h1" "mutates h h1 this ns []"
    using clear_spec [OF assms(1)] by metis
  note mu = mutatesD [OF h1(2)]
  have k1: "sll h1 k ms"
    using mutates_other [OF h1(2) assms(2,3)] .
  obtain h2 h3 where h3: "next_of h1 (Some k) = Inr (first ms None)" "link_nodes h1 (Some k) None = Inr h2"
    "link_nodes h2 (Some this) (first ms None) = Inr h3" "sll h3 this ms" "sll h3 k []"
    "same h1 h3 (- {this, k})" "dom (cells h3) = dom (cells h1)"
    using steal_spec [OF mu(2) k1 ne(2)] by metis
  have "same h h3 ({..<brk h} - owned this ns - {k})"
    by (rule same_chain [OF mu(3) h3(6)]) (auto simp: owned_def)
  moreover have "move_assign h this k = Inr h3"
    using ne(1) h1(1) h3(1-3) by (simp add: move_assign_def)
  ultimately show ?thesis
    using h3(4,5,7) mu(6) by auto
qed

lemma construct_move_spec:
  assumes "sll h k ms"
  shows "\<exists>h'. construct_move h dflt k = Inr (h', brk h) \<and> sll h' (brk h) ms \<and> sll h' k [] \<and>
    dom (cells h') = insert (brk h) (dom (cells h)) \<and> same h h' ({..<brk h} - {k})"
proof -
  obtain h1 l where new: "new_list h dflt = (h1, l)" by fastforce
  note n = new_list_spec [OF sll_store_ok [OF assms] new]
  have below: "owned k ms \<subseteq> {..<brk h}" using assms by (rule owned_below)
  have k1: "sll h1 k ms"
    using assms same_mono [OF n(3) below] sll_store_ok [OF n(2)] by (rule sll_frame)
  have lk: "l \<notin> owned k ms" using below n(1) by auto
  obtain h2 h3 where h3: "next_of h1 (Some k) = Inr (first ms None)" "link_nodes h1 (Some k) None = Inr h2"
    "link_nodes h2 (Some l) (first ms None) = Inr h3" "sll h3 l ms" "sll h3 k []"
    "same h1 h3 (- {l, k})" "dom (cells h3) = dom (cells h1)"
    using steal_spec [OF n(2) k1 lk] by metis
  have "same h h3 ({..<brk h} - {k})"
    using n(1) by (intro same_chain [OF n(3) h3(6)]) auto
  moreover have "construct_move h dflt k = Inr (h3, l)"
    using new h3(1-3) by (simp add: construct_move_def)
  ultimately show ?thesis
    using h3(4,5,7) n(1,5) by auto
qed

lemma swap_spec:
  assumes "sll h l ns" and "sll h k ms" and "owned k ms \<inter> owned l ns = {}"
  shows "\<exists>h'. swap_lists h l k = Inr h' \<and> sll h' l ms \<and> sll h' k ns \<and>
    dom (cells h') = dom (cells h) \<and> same h h' (- {l, k})"
proof -
  have d: "l \<noteq> k" "l \<notin> fst ` set ns" "k \<notin> fst ` set ns" "l \<notin> fst ` set ms" "k \<notin> fst ` set ms"
    "distinct (map fst ns)" "distinct (map fst ms)"
    using assms by (auto simp: owned_def elim!: sllE)
  obtain h1 where h1: "link_nodes h (Some l) (first ms None) = Inr h1" "sll h1 l ms" "brk h1 = brk h"
    "same h h1 (- {l})" "dom (cells h1) = dom (cells h)"
    using rehead_spec [OF assms(1) sll_seg [OF assms(2)]] d by auto
  have k1: "sll h1 k ms"
    using d sll_store_ok [OF h1(2)]
    by (intro sll_frame [OF assms(2) same_mono [OF h1(4)]]) (auto simp: owned_def)
  have "same h h1 (fst ` set ns)"
    using d(2) by (intro same_mono [OF h1(4)]) blast
  then have seg: "seg h1 (first ns None) ns None"
    using sll_seg [OF assms(1)] by (rule seg_frame)
  obtain h2 where h2: "link_nodes h1 (Some k) (first ns None) = Inr h2" "sll h2 k ns" "brk h2 = brk h1"
    "same h1 h2 (- {k})" "dom (cells h2) = dom (cells h1)"
    using rehead_spec [OF k1 seg] d by auto
  have "sll h2 l ms"
    using d sll_store_ok [OF h2(2)]
    by (intro sll_frame [OF h1(2) same_mono [OF h2(4)]]) (auto simp: owned_def)
  moreover have "same h h2 (- {l, k})"
    by (rule same_chain [OF h1(4) h2(4)]) auto
  moreover have "swap_lists h l k = Inr h2"
    using next_head [OF assms(1)] next_head [OF assms(2)] h1(1) h2(1) by (simp add: swap_lists_def)
  ultimately show ?thesis
    using h1(5) h2(2,5) by auto
qed

end
