(* ===== verification/SLL_Algorithms.thy ===== *)
theory SLL_Algorithms
  imports SLL_Modifiers "HOL-Library.Multiset"
begin

text \<open>
  The list operations of \<^verbatim>\<open>SingleLinkedList\<close> that relink nodes: \<open>remove_if\<close>, \<open>unique\<close>,
  \<open>reverse\<close>, \<open>sort\<close> (a bubble sort on the links) and \<open>merge\<close>. For each, the pointer program, the list
  function it computes on the nodes, and the refinement between the two.
\<close>

section \<open>Definitions\<close>

fun remove_loop ::
  "nat \<Rightarrow> ('a \<Rightarrow> bool) \<Rightarrow> 'a sll_store \<Rightarrow> ptr \<Rightarrow> ptr \<Rightarrow> size_t \<Rightarrow> fault + ('a sll_store \<times> size_t)" where
  "remove_loop 0 pred h bbeg beg n = Inl Diverges"
| "remove_loop (Suc fuel) pred h bbeg beg n =
     (if beg = None then Inr (h, n)
      else bnd (data_of h beg) (\<lambda>x.
        if pred x then
          bnd (next_of h beg) (\<lambda>r.
          bnd (link_nodes h bbeg r) (\<lambda>h1.
          bnd (dealloc h1 beg) (\<lambda>h2.
          bnd (next_of h2 bbeg) (\<lambda>beg'. remove_loop fuel pred h2 bbeg beg' (n + 1)))))
        else bnd (next_of h beg) (\<lambda>beg'. remove_loop fuel pred h beg beg' n)))"

definition remove_if :: "'a sll_store \<Rightarrow> addr \<Rightarrow> ('a \<Rightarrow> bool) \<Rightarrow> fault + ('a sll_store \<times> size_t)" where
  "remove_if h l pred =
     bnd (next_of h (Some l)) (\<lambda>beg. remove_loop (Suc (brk h)) pred h (Some l) beg 0)"

definition remove_value :: "'a sll_store \<Rightarrow> addr \<Rightarrow> 'a \<Rightarrow> fault + ('a sll_store \<times> size_t)" where
  "remove_value h l v = remove_if h l (\<lambda>elem. elem = v)"

fun reverse_loop :: "nat \<Rightarrow> 'a sll_store \<Rightarrow> addr \<Rightarrow> ptr \<Rightarrow> fault + 'a sll_store" where
  "reverse_loop 0 h l beg = Inl Diverges"
| "reverse_loop (Suc fuel) h l beg =
     (if beg = None then Inr h
      else bnd (next_of h beg) (\<lambda>nx.
        bnd (next_of h (Some l)) (\<lambda>hd_next.
        bnd (link_nodes h beg hd_next) (\<lambda>h1.
        bnd (link_nodes h1 (Some l) beg) (\<lambda>h2. reverse_loop fuel h2 l nx)))))"

definition reverse_list :: "'a sll_store \<Rightarrow> addr \<Rightarrow> fault + 'a sll_store" where
  "reverse_list h l =
     bnd (next_of h (Some l)) (\<lambda>beg.
     bnd (link_nodes h (Some l) None) (\<lambda>h1. reverse_loop (Suc (brk h)) h1 l beg))"

text \<open>\<open>unique\<close>: the inner loop drops the successors of \<open>beg\<close> that the predicate relates to it.\<close>

fun unique_inner ::
  "nat \<Rightarrow> ('a \<Rightarrow> 'a \<Rightarrow> bool) \<Rightarrow> 'a sll_store \<Rightarrow> ptr \<Rightarrow> ptr \<Rightarrow> size_t \<Rightarrow>
   fault + ('a sll_store \<times> ptr \<times> size_t)" where
  "unique_inner 0 pred h beg nx n = Inl Diverges"
| "unique_inner (Suc fuel) pred h beg nx n =
     (if nx = None then Inr (h, nx, n)
      else bnd (data_of h beg) (\<lambda>x. bnd (data_of h nx) (\<lambda>y.
        if pred x y then
          bnd (next_of h nx) (\<lambda>r.
          bnd (link_nodes h beg r) (\<lambda>h1.
          bnd (dealloc h1 nx) (\<lambda>h2.
          bnd (next_of h2 beg) (\<lambda>nx'. unique_inner fuel pred h2 beg nx' (n + 1)))))
        else Inr (h, nx, n))))"

fun unique_outer ::
  "nat \<Rightarrow> ('a \<Rightarrow> 'a \<Rightarrow> bool) \<Rightarrow> 'a sll_store \<Rightarrow> ptr \<Rightarrow> size_t \<Rightarrow> fault + ('a sll_store \<times> size_t)" where
  "unique_outer 0 pred h beg n = Inl Diverges"
| "unique_outer (Suc fuel) pred h beg n =
     (if beg = None then Inr (h, n)
      else bnd (next_of h beg) (\<lambda>nx.
        if nx = None then Inr (h, n)
        else bnd (unique_inner (Suc (brk h)) pred h beg nx n) (\<lambda>(h1, nx', n').
          unique_outer fuel pred h1 nx' n')))"

definition unique :: "'a sll_store \<Rightarrow> addr \<Rightarrow> ('a \<Rightarrow> 'a \<Rightarrow> bool) \<Rightarrow> fault + ('a sll_store \<times> size_t)" where
  "unique h l pred =
     bnd (next_of h (Some l)) (\<lambda>beg. unique_outer (Suc (brk h)) pred h beg 0)"

text \<open>\<open>sort\<close>: passes of adjacent swaps until a pass swaps nothing.\<close>

definition swap_nodes :: "'a sll_store \<Rightarrow> ptr \<Rightarrow> ptr \<Rightarrow> ptr \<Rightarrow> fault + 'a sll_store" where
  "swap_nodes h blhs lhs rhs =
     bnd (link_nodes h blhs rhs) (\<lambda>h1.
     bnd (next_of h1 rhs) (\<lambda>r.
     bnd (link_nodes h1 lhs r) (\<lambda>h2. link_nodes h2 rhs lhs)))"

fun pass_loop ::
  "nat \<Rightarrow> ('a \<Rightarrow> 'a \<Rightarrow> bool) \<Rightarrow> 'a sll_store \<Rightarrow> ptr \<Rightarrow> ptr \<Rightarrow> bool \<Rightarrow> fault + ('a sll_store \<times> bool)" where
  "pass_loop 0 cmp h blhs lhs srt = Inl Diverges"
| "pass_loop (Suc fuel) cmp h blhs lhs srt =
     bnd (next_of h lhs) (\<lambda>rhs.
       if rhs = None then Inr (h, srt)
       else bnd (data_of h rhs) (\<lambda>y. bnd (data_of h lhs) (\<lambda>x.
         if cmp y x then
           bnd (swap_nodes h blhs lhs rhs) (\<lambda>h1.
           bnd (next_of h1 blhs) (\<lambda>blhs'. pass_loop fuel cmp h1 blhs' lhs False))
         else
           bnd (next_of h lhs) (\<lambda>lhs'.
           bnd (next_of h blhs) (\<lambda>blhs'. pass_loop fuel cmp h blhs' lhs' srt)))))"

fun sort_loop :: "nat \<Rightarrow> ('a \<Rightarrow> 'a \<Rightarrow> bool) \<Rightarrow> 'a sll_store \<Rightarrow> addr \<Rightarrow> fault + 'a sll_store" where
  "sort_loop 0 cmp h l = Inl Diverges"
| "sort_loop (Suc fuel) cmp h l =
     bnd (next_of h (Some l)) (\<lambda>lhs.
     bnd (pass_loop (Suc (brk h)) cmp h (Some l) lhs True) (\<lambda>(h1, srt).
       if srt then Inr h1 else sort_loop fuel cmp h1 l))"

text \<open>
  The number of passes is not bounded by the code: \<open>passes\<close> is the fuel. The theorems give
  a number of passes that is enough for every comparison that is asymmetric.
\<close>

definition sort_list :: "nat \<Rightarrow> 'a sll_store \<Rightarrow> addr \<Rightarrow> ('a \<Rightarrow> 'a \<Rightarrow> bool) \<Rightarrow> fault + 'a sll_store" where
  "sort_list passes h l cmp =
     bnd (next_of h (Some l)) (\<lambda>b. if b = None then Inr h else sort_loop passes cmp h l)"

text \<open>\<open>merge\<close>, with its two inner loops.\<close>

fun merge_advance ::
  "nat \<Rightarrow> ('a \<Rightarrow> 'a \<Rightarrow> bool) \<Rightarrow> 'a sll_store \<Rightarrow> ptr \<Rightarrow> ptr \<Rightarrow> ptr \<Rightarrow> fault + (ptr \<times> ptr)" where
  "merge_advance 0 cmp h rb lbb lb = Inl Diverges"
| "merge_advance (Suc fuel) cmp h rb lbb lb =
     (if lb = None then Inr (lbb, lb)
      else bnd (data_of h rb) (\<lambda>x. bnd (data_of h lb) (\<lambda>y.
        if \<not> cmp x y then bnd (next_of h lb) (\<lambda>lb'. merge_advance fuel cmp h rb lb lb')
        else Inr (lbb, lb))))"

fun merge_rend ::
  "nat \<Rightarrow> ('a \<Rightarrow> 'a \<Rightarrow> bool) \<Rightarrow> 'a sll_store \<Rightarrow> ptr \<Rightarrow> ptr \<Rightarrow> fault + ptr" where
  "merge_rend 0 cmp h lb rend = Inl Diverges"
| "merge_rend (Suc fuel) cmp h lb rend =
     (if rend = None then Inr rend
      else bnd (if lb = None then Inr True
                else bnd (data_of h lb) (\<lambda>x. bnd (data_of h rend) (\<lambda>y. Inr (\<not> cmp x y)))) (\<lambda>go.
        if go then bnd (next_of h rend) (\<lambda>rend'. merge_rend fuel cmp h lb rend')
        else Inr rend))"

fun merge_loop ::
  "nat \<Rightarrow> ('a \<Rightarrow> 'a \<Rightarrow> bool) \<Rightarrow> 'a sll_store \<Rightarrow> ptr \<Rightarrow> ptr \<Rightarrow> ptr \<Rightarrow> ptr \<Rightarrow> fault + 'a sll_store" where
  "merge_loop 0 cmp h lbb lb rbb rb = Inl Diverges"
| "merge_loop (Suc fuel) cmp h lbb lb rbb rb =
     (if rb = None then Inr h
      else bnd (merge_advance (Suc (brk h)) cmp h rb lbb lb) (\<lambda>(lbb, lb).
        bnd (next_of h rb) (\<lambda>rend0.
        bnd (merge_rend (Suc (brk h)) cmp h lb rend0) (\<lambda>rend.
        bnd (link_nodes h lbb rb) (\<lambda>h1.
        bnd (link_nodes h1 rbb rend) (\<lambda>h2.
        bnd (link_nodes h2 rb lb) (\<lambda>h3.
          merge_loop fuel cmp h3 lbb lb rbb rend)))))))"

definition merge_lists ::
  "'a sll_store \<Rightarrow> addr \<Rightarrow> addr \<Rightarrow> ('a \<Rightarrow> 'a \<Rightarrow> bool) \<Rightarrow> fault + 'a sll_store" where
  "merge_lists h l k cmp =
     bnd (next_of h (Some l)) (\<lambda>lb.
     bnd (next_of h (Some k)) (\<lambda>rb.
       merge_loop (Suc (brk h)) cmp h (Some l) lb (Some k) rb))"

section \<open>Removing elements\<close>

lemma node_cell:
  "sll h l (pre @ n # post) \<Longrightarrow> cells h (fst n) = Some \<lparr>data = snd n, nxt = first post None\<rparr>"
  by (auto elim!: sllE)

lemma node_access [simp]:
  "sll h l (pre @ n # post) \<Longrightarrow> next_of h (Some (fst n)) = Inr (first post None)"
  "sll h l (pre @ n # post) \<Longrightarrow> data_of h (Some (fst n)) = Inr (snd n)"
  by (frule node_cell, simp)+

lemma remove_loop_spec:
  assumes "sll h l (pre @ post)" and "length post < fuel"
  shows "\<exists>h'. remove_loop fuel pred h (Some (before l pre)) (first post None) n =
      Inr (h', n + word_of_nat (length (filter pred (vals post)))) \<and>
    mutates h h' l (pre @ post) (pre @ filter (\<lambda>m. \<not> pred (snd m)) post)"
  using assms
proof (induction post arbitrary: h pre n fuel)
  case Nil
  then show ?case by (cases fuel) (simp_all add: mutates_refl)
next
  case (Cons m post)
  then obtain f where f: "fuel = Suc f" by (cases fuel) auto
  note acc = node_access [OF Cons.prems(1)]
  show ?case
  proof (cases "pred (snd m)")
    case True
    obtain h1 h2 where h: "link_nodes h (Some (before l pre)) (first post None) = Inr h1"
      "dealloc h1 (Some (fst m)) = Inr h2" "mutates h h2 l (pre @ m # post) (pre @ post)"
      using unlink_spec [OF Cons.prems(1)] by metis
    note sll2 = mutatesD(2) [OF h(3)]
    obtain h' where h': "remove_loop f pred h2 (Some (before l pre)) (first post None) (n + 1) =
        Inr (h', n + 1 + word_of_nat (length (filter pred (vals post))))"
      "mutates h2 h' l (pre @ post) (pre @ filter (\<lambda>m. \<not> pred (snd m)) post)"
      using Cons.IH [OF sll2, of f] Cons.prems(2) f by auto
    show ?thesis
      using True f acc h(1,2) h'(1) next_before [OF sll2] mutates_trans [OF h(3) h'(2)]
      by (simp add: algebra_simps)
  next
    case False
    obtain h' where h': "remove_loop f pred h (Some (fst m)) (first post None) n =
        Inr (h', n + word_of_nat (length (filter pred (vals post))))"
      "mutates h h' l (pre @ m # post) (pre @ m # filter (\<lambda>m. \<not> pred (snd m)) post)"
      using Cons.IH [of h "pre @ [m]" f n] Cons.prems f by auto
    then show ?thesis
      using False f acc by simp
  qed
qed

lemma remove_if_spec:
  assumes "sll h l ns"
  shows "\<exists>h'. remove_if h l pred = Inr (h', word_of_nat (length (filter pred (vals ns)))) \<and>
    mutates h h' l ns (filter (\<lambda>m. \<not> pred (snd m)) ns)"
  using remove_loop_spec [of h l "[]" ns "Suc (brk h)" pred 0] assms sll_length [OF assms]
  by (simp add: remove_if_def next_head del: remove_loop.simps)

section \<open>Dropping adjacent duplicates\<close>

text \<open>The list function of \<open>unique\<close>: keep an element, drop the ones after it it is related to.\<close>

function uniq :: "('a \<Rightarrow> 'a \<Rightarrow> bool) \<Rightarrow> (addr \<times> 'a) list \<Rightarrow> (addr \<times> 'a) list" where
  "uniq pred [] = []"
| "uniq pred (n # ns) = n # uniq pred (dropWhile (\<lambda>m. pred (snd n) (snd m)) ns)"
  by pat_completeness auto
termination
  by (relation "measure (\<lambda>(p, ns). length ns)") (simp_all add: length_dropWhile_le less_Suc_eq_le)

lemma unique_inner_spec:
  assumes "sll h l (pre @ b # post)" and "length post < fuel"
    and "rest = dropWhile (\<lambda>m. pred (snd b) (snd m)) post"
  shows "\<exists>h'. unique_inner fuel pred h (Some (fst b)) (first post None) n =
      Inr (h', first rest None, n + word_of_nat (length post - length rest)) \<and>
    mutates h h' l (pre @ b # post) (pre @ b # rest) \<and> brk h' = brk h"
  using assms
proof (induction post arbitrary: h n fuel)
  case Nil
  then show ?case by (cases fuel) (simp_all add: mutates_refl)
next
  case (Cons m post)
  then obtain f where f: "fuel = Suc f" by (cases fuel) auto
  have pos: "sll h l ((pre @ [b]) @ m # post)"
    using Cons.prems(1) by simp
  note acc = node_access [OF pos] node_access [OF Cons.prems(1)]
  show ?case
  proof (cases "pred (snd b) (snd m)")
    case True
    obtain h1 h2 where h: "link_nodes h (Some (fst b)) (first post None) = Inr h1"
      "dealloc h1 (Some (fst m)) = Inr h2" "mutates h h2 l (pre @ b # m # post) (pre @ b # post)"
      "brk h2 = brk h"
      using unlink_spec [OF pos, simplified] by metis
    note sll2 = mutatesD(2) [OF h(3)]
    have rest: "rest = dropWhile (\<lambda>m. pred (snd b) (snd m)) post"
      using Cons.prems(3) True by simp
    then have len: "length rest \<le> length post"
      by (simp add: length_dropWhile_le)
    obtain h' where h': "unique_inner f pred h2 (Some (fst b)) (first post None) (n + 1) =
        Inr (h', first rest None, n + 1 + word_of_nat (length post - length rest))"
      "mutates h2 h' l (pre @ b # post) (pre @ b # rest)" "brk h' = brk h2"
      using Cons.IH [OF sll2 _ rest, of f "n + 1"] Cons.prems(2) f by auto
    have "n + 1 + word_of_nat (length post - length rest)
        = n + word_of_nat (length (m # post) - length rest)"
      using len by (simp add: Suc_diff_le algebra_simps)
    then show ?thesis
      using True f acc h(1,2,4) h' node_access [OF sll2] mutates_trans [OF h(3) h'(2)] by simp
  next
    case False
    then show ?thesis
      using Cons.prems f acc by (simp add: mutates_refl)
  qed
qed

lemma uniq_length: "length (uniq pred ns) \<le> length ns"
proof (induction pred ns rule: uniq.induct)
  case (2 pred n ns)
  then show ?case
    using length_dropWhile_le [of "\<lambda>m. pred (snd n) (snd m)" ns] by simp
qed simp

lemma unique_outer_spec:
  assumes "sll h l (pre @ post)" and "length post < fuel"
  shows "\<exists>h'. unique_outer fuel pred h (first post None) n =
      Inr (h', n + word_of_nat (length post - length (uniq pred post))) \<and>
    mutates h h' l (pre @ post) (pre @ uniq pred post)"
  using assms
proof (induction pred post arbitrary: h pre n fuel rule: uniq.induct)
  case (1 pred)
  then show ?case by (cases fuel) (simp_all add: mutates_refl)
next
  case (2 pred b post)
  then obtain f where f: "fuel = Suc f" by (cases fuel) auto
  let ?rest = "dropWhile (\<lambda>m. pred (snd b) (snd m)) post"
  show ?case
  proof (cases "post = []")
    case True
    then show ?thesis
      using 2 f by (simp add: mutates_refl)
  next
    case False
    then obtain a where a: "first post None = Some a" by (cases post) auto
    have "length post \<le> brk h"
      using sll_length [OF "2.prems"(1)] by simp
    then obtain h1 where h1: "unique_inner (Suc (brk h)) pred h (Some (fst b)) (first post None) n =
        Inr (h1, first ?rest None, n + word_of_nat (length post - length ?rest))"
      "mutates h h1 l (pre @ b # post) (pre @ b # ?rest)"
      using unique_inner_spec [OF "2.prems"(1) _ refl, of "Suc (brk h)" pred n] by auto
    have len: "length ?rest \<le> length post" by (rule length_dropWhile_le)
    have sll1: "sll h1 l ((pre @ [b]) @ ?rest)"
      using mutatesD(2) [OF h1(2)] by simp
    let ?n = "n + word_of_nat (length post - length ?rest)"
    obtain h' where h': "unique_outer f pred h1 (first ?rest None) ?n =
        Inr (h', ?n + word_of_nat (length ?rest - length (uniq pred ?rest)))"
      "mutates h1 h' l (pre @ b # ?rest) (pre @ b # uniq pred ?rest)"
      using "2.IH" [OF sll1, of f ?n] "2.prems"(2) f len by auto
    have "length post - length (uniq pred ?rest)
        = (length post - length ?rest) + (length ?rest - length (uniq pred ?rest))"
      using len uniq_length [of pred ?rest] by simp
    then have "?n + word_of_nat (length ?rest - length (uniq pred ?rest))
        = n + word_of_nat (length post - length (uniq pred ?rest))"
      by (simp add: add.assoc)
    then show ?thesis
      using f a h1(1) h'(1) node_access [OF "2.prems"(1)] mutates_trans [OF h1(2) h'(2)]
      by (simp del: unique_inner.simps)
  qed
qed

lemma unique_spec:
  assumes "sll h l ns"
  shows "\<exists>h'. unique h l pred = Inr (h', word_of_nat (length ns - length (uniq pred ns))) \<and>
    mutates h h' l ns (uniq pred ns)"
  using unique_outer_spec [of h l "[]" ns "Suc (brk h)" pred 0] assms sll_length [OF assms]
  by (simp add: unique_def next_head del: unique_outer.simps)

text \<open>With equality, the values are those without adjacent duplicates.\<close>

lemma uniq_remdups: "vals (uniq (=) ns) = remdups_adj (vals ns)"
proof (induction "(=) :: 'a \<Rightarrow> 'a \<Rightarrow> bool" ns rule: uniq.induct)
  case (2 n ns)
  have "remdups_adj (snd n # vals ns) = snd n # remdups_adj (dropWhile ((=) (snd n)) (vals ns))"
    unfolding remdups_adj_Cons' by (intro arg_cong2 [of _ _ _ _ "(#)"] arg_cong [of _ _ remdups_adj]) (auto intro: dropWhile_cong)
  moreover have "dropWhile ((=) (snd n)) (vals ns) = vals (dropWhile (\<lambda>m. snd n = snd m) ns)"
    by (simp add: dropWhile_map comp_def)
  ultimately show ?case
    using 2 by simp
qed simp

section \<open>Reversing\<close>

lemma reverse_loop_spec:
  assumes "sll h l ds" and "seg h (first ts None) ts None" and "distinct (l # map fst (ts @ ds))"
    and "length ts < fuel"
  shows "\<exists>h'. reverse_loop fuel h l (first ts None) = Inr h' \<and> sll h' l (rev ts @ ds) \<and>
    same h h' (- insert l (fst ` set ts)) \<and> dom (cells h') = dom (cells h) \<and> brk h' = brk h"
  using assms
proof (induction ts arbitrary: h ds fuel)
  case Nil
  then show ?case by (cases fuel) simp_all
next
  case (Cons n ts)
  then obtain f where f: "fuel = Suc f" by (cases fuel) auto
  obtain a x where n: "n = (a, x)" by (cases n)
  have cell: "cells h a = Some \<lparr>data = x, nxt = first ts None\<rparr>"
    and seg: "seg h (first ts None) ts None"
    using Cons.prems(2) n by auto
  define h1 where "h1 = h\<lparr>cells := (cells h)(a \<mapsto> \<lparr>data = x, nxt = first ds None\<rparr>)\<rparr>"
  have a: "a \<notin> owned l ds" "a \<notin> fst ` set ts" "l \<notin> fst ` set ts"
    using Cons.prems(3) n by (auto simp: owned_def)
  have sll1: "sll h1 l ds"
    using a cell sll_store_ok [OF Cons.prems(1)]
    by (intro sll_frame [OF Cons.prems(1)]) (auto simp: h1_def)
  then have seg1: "seg h1 (first (n # ds) None) (n # ds) None"
    using n sll_seg [OF sll1] by (simp add: h1_def)
  have d1: "distinct (l # map fst (n # ds))"
    using Cons.prems(3) by auto
  obtain h2 where h2: "link_nodes h1 (Some l) (Some a) = Inr h2" "sll h2 l (n # ds)" "brk h2 = brk h1"
    "same h1 h2 (- {l})" "dom (cells h2) = dom (cells h1)"
    using rehead_spec [OF sll1 seg1 d1] n by auto
  have same2: "same h h2 (- {l, a})"
    by (rule same_chain [OF _ h2(4), of h "- {a}"]) (auto simp: h1_def)
  have seg2: "seg h2 (first ts None) ts None"
    using a by (intro seg_frame [OF same_mono [OF same2] seg]) auto
  obtain h' where h': "reverse_loop f h2 l (first ts None) = Inr h'" "sll h' l (rev ts @ n # ds)"
    "same h2 h' (- insert l (fst ` set ts))" "dom (cells h') = dom (cells h2)" "brk h' = brk h2"
    using Cons.IH [OF h2(2) seg2, of f] Cons.prems(3,4) f by auto
  have "same h h' (- insert l (fst ` set (n # ts)))"
    using n by (intro same_chain [OF same2 h'(3)]) auto
  moreover have "dom (cells h1) = dom (cells h)"
    using cell by (auto simp: h1_def)
  moreover have "link_nodes h (Some a) (first ds None) = Inr h1"
    using cell by (simp add: h1_def)
  ultimately show ?case
    using f n cell h2(1,3,5) h' next_head [OF Cons.prems(1)] by (simp add: h1_def)
qed

lemma reverse_list_spec:
  assumes "sll h l ns"
  shows "\<exists>h'. reverse_list h l = Inr h' \<and> mutates h h' l ns (rev ns)"
proof -
  have d: "distinct (l # map fst (ns @ []))"
    using assms by (simp add: sll_def)
  obtain h1 where h1: "link_nodes h (Some l) None = Inr h1" "sll h1 l []" "brk h1 = brk h"
    "same h h1 (- {l})" "dom (cells h1) = dom (cells h)"
    using rehead_spec [OF assms, of "[]"] by auto
  have seg1: "seg h1 (first ns None) ns None"
    using d by (intro seg_frame [OF same_mono [OF h1(4)] sll_seg [OF assms]]) auto
  have len: "length ns < Suc (brk h)"
    using sll_length [OF assms] by simp
  obtain h2 where h2: "reverse_loop (Suc (brk h)) h1 l (first ns None) = Inr h2" "sll h2 l (rev ns @ [])"
    "same h1 h2 (- insert l (fst ` set ns))" "dom (cells h2) = dom (cells h1)" "brk h2 = brk h1"
    using reverse_loop_spec [OF h1(2) seg1 d len] by blast
  have "mutates h h2 l ns (rev ns)"
  proof (rule mutatesI)
    show "same h h2 ({..<brk h} - owned l ns)"
      by (rule same_chain [OF h1(4) h2(3)]) (auto simp: owned_def)
    show "dom (cells h2) = dom (cells h) - fst ` set ns \<union> fst ` set (rev ns)"
      using h1(5) h2(4) sll_dom [OF assms] by auto
  qed (use assms h1(3) h2 in auto)
  then show ?thesis
    using h1(1) h2(1) next_head [OF assms] by (simp add: reverse_list_def del: reverse_loop.simps)
qed

section \<open>Sorting\<close>

text \<open>
  One pass over the list, as a list function: the element \<open>n\<close> is carried along as long as the next
  one comes before it. \<open>calm\<close> says that no two neighbours are out of order, which is what ends the
  passes.
\<close>

fun bubble :: "('a \<Rightarrow> 'a \<Rightarrow> bool) \<Rightarrow> addr \<times> 'a \<Rightarrow> (addr \<times> 'a) list \<Rightarrow> (addr \<times> 'a) list" where
  "bubble cmp n [] = [n]"
| "bubble cmp n (m # ms) =
     (if cmp (snd m) (snd n) then m # bubble cmp n ms else n # bubble cmp m ms)"

fun calm :: "('a \<Rightarrow> 'a \<Rightarrow> bool) \<Rightarrow> (addr \<times> 'a) list \<Rightarrow> bool" where
  "calm cmp (n # m # ms) \<longleftrightarrow> \<not> cmp (snd m) (snd n) \<and> calm cmp (m # ms)"
| "calm cmp ms \<longleftrightarrow> True"

definition pass :: "('a \<Rightarrow> 'a \<Rightarrow> bool) \<Rightarrow> (addr \<times> 'a) list \<Rightarrow> (addr \<times> 'a) list" where
  "pass cmp ns = (case ns of [] \<Rightarrow> [] | n # ms \<Rightarrow> bubble cmp n ms)"

lemma bubble_mset [simp]: "mset (bubble cmp n ms) = add_mset n (mset ms)"
  by (induction ms arbitrary: n) simp_all

lemma bubble_calm: "calm cmp (n # ms) \<Longrightarrow> bubble cmp n ms = n # ms"
  by (induction ms arbitrary: n) auto

lemma pass_mset [simp]: "mset (pass cmp ns) = mset ns"
  by (cases ns) (simp_all add: pass_def)

text \<open>Swapping two neighbours.\<close>

lemma swap_nodes_spec:
  assumes "sll h l (pre @ n # m # post)"
  obtains h' where "swap_nodes h (Some (before l pre)) (Some (fst n)) (Some (fst m)) = Inr h'"
    "sll h' l (pre @ m # n # post)" "brk h' = brk h" "dom (cells h') = dom (cells h)"
    "same h h' (- owned l (pre @ n # m # post))"
proof -
  have d: "distinct (l # map fst (pre @ n # m # post))"
    using assms by (simp add: sll_def)
  have cn: "cells h (fst n) = Some \<lparr>data = snd n, nxt = Some (fst m)\<rparr>"
    using node_cell [OF assms] by simp
  have segs: "seg h (Some (fst m)) (m # post) None"
    using sll_seg [OF assms] by simp
  have ne: "before l pre \<noteq> fst n" "fst n \<notin> owned l (pre @ m # post)"
    using before_fresh [OF d] d by (auto simp: owned_def)
  obtain h1 where h1: "link_nodes h (Some (before l pre)) (Some (fst m)) = Inr h1"
    "sll h1 l (pre @ m # post)" "brk h1 = brk h" "same h h1 (- {before l pre})"
    "dom (cells h1) = dom (cells h)"
    using link_spec [OF assms, of "m # post"] segs d by auto
  have cn1: "cells h1 (fst n) = Some \<lparr>data = snd n, nxt = Some (fst m)\<rparr>"
    using sameD [OF h1(4)] ne(1) cn by simp
  define h2 where "h2 = h1\<lparr>cells := (cells h1)(fst n \<mapsto> \<lparr>data = snd n, nxt = first post None\<rparr>)\<rparr>"
  have same2: "same h1 h2 (- {fst n})" and ok2: "store_ok h2"
    using cn1 sll_store_ok [OF h1(2)] by (simp_all add: h2_def)
  have sll2: "sll h2 l ((pre @ [m]) @ post)"
    using ne(2) sll_frame [OF h1(2) same_mono [OF same2] ok2] by auto
  have "seg h2 (first (n # post) None) (n # post) None"
    using sll_seg [OF sll2] by (simp add: h2_def)
  then obtain h3 where h3: "link_nodes h2 (Some (fst m)) (Some (fst n)) = Inr h3"
    "sll h3 l (pre @ m # n # post)" "brk h3 = brk h2" "same h2 h3 (- {fst m})"
    "dom (cells h3) = dom (cells h2)"
    using link_spec [OF sll2, of "n # post"] d by auto
  have own: "before l pre \<in> owned l (pre @ n # m # post)" "fst n \<in> owned l (pre @ n # m # post)"
    "fst m \<in> owned l (pre @ n # m # post)"
    using before_owned by (auto simp: owned_def)
  have "same h h2 (- owned l (pre @ n # m # post))"
    using own by (intro same_chain [OF h1(4) same2]) auto
  then have "same h h3 (- owned l (pre @ n # m # post))"
    using own by (intro same_chain [OF _ h3(4)]) auto
  moreover have "dom (cells h3) = dom (cells h)"
    using h3(5) h1(5) cn1 by (auto simp: h2_def)
  moreover have "link_nodes h1 (Some (fst n)) (first post None) = Inr h2"
    using cn1 by (simp add: h2_def)
  moreover have "next_of h1 (Some (fst m)) = Inr (first post None)"
    by (rule node_access [OF h1(2)])
  ultimately show ?thesis
    using that [of h3] h1(1,3) h3(1-3) by (simp add: swap_nodes_def h2_def)
qed

text \<open>The effect of the relinking operations that allocate and free nothing.\<close>

definition permutes :: "'a sll_store \<Rightarrow> 'a sll_store \<Rightarrow> addr \<Rightarrow> (addr \<times> 'a) list \<Rightarrow> (addr \<times> 'a) list \<Rightarrow> bool" where
  "permutes h h' l ns ns' \<longleftrightarrow> sll h l ns \<and> sll h' l ns' \<and> mset ns' = mset ns \<and> brk h' = brk h \<and>
     dom (cells h') = dom (cells h) \<and> same h h' (- owned l ns)"

lemma owned_mset: "mset ns = mset ms \<Longrightarrow> owned l ns = owned l ms"
  by (metis owned_def set_mset_mset)

lemma permutes_refl: "sll h l ns \<Longrightarrow> permutes h h l ns ns"
  by (simp add: permutes_def)

lemma permutes_trans: "permutes h h' l ns ns' \<Longrightarrow> permutes h' h'' l ns' ns'' \<Longrightarrow> permutes h h'' l ns ns''"
  unfolding permutes_def using owned_mset by (metis same_trans)

lemma permutes_sll: "permutes h h' l ns ns' \<Longrightarrow> sll h' l ns'" "permutes h h' l ns ns' \<Longrightarrow> brk h' = brk h"
  by (simp_all add: permutes_def)

lemma permutes_mutates: "permutes h h' l ns ns' \<Longrightarrow> mutates h h' l ns ns'"
proof (rule mutatesI)
  assume p: "permutes h h' l ns ns'"
  then have m: "set ns' = set ns" by (metis permutes_def set_mset_mset)
  show "same h h' ({..<brk h} - owned l ns)"
    using p by (auto simp: permutes_def intro: same_mono)
  show "dom (cells h') = dom (cells h) - fst ` set ns \<union> fst ` set ns'"
    using p m sll_dom [of h l ns] by (auto simp: permutes_def)
qed (auto simp: permutes_def dest: mset_eq_setD)

lemma swap_permutes:
  assumes "sll h l (pre @ n # m # post)"
  obtains h' where "swap_nodes h (Some (before l pre)) (Some (fst n)) (Some (fst m)) = Inr h'"
    "permutes h h' l (pre @ n # m # post) (pre @ m # n # post)"
  by (rule swap_nodes_spec [OF assms], rule that) (use assms in \<open>simp_all add: permutes_def\<close>)

lemma pass_loop_spec:
  assumes "sll h l (pre @ n # ms)" and "length ms < fuel"
  shows "\<exists>h'. pass_loop fuel cmp h (Some (before l pre)) (Some (fst n)) srt
      = Inr (h', srt \<and> calm cmp (n # ms)) \<and>
    permutes h h' l (pre @ n # ms) (pre @ bubble cmp n ms)"
  using assms
proof (induction ms arbitrary: h pre n srt fuel)
  case Nil
  then show ?case by (cases fuel) (simp_all add: permutes_refl)
next
  case (Cons m ms)
  then obtain f where f: "fuel = Suc f" by (cases fuel) auto
  have pos: "sll h l ((pre @ [n]) @ m # ms)" using Cons.prems(1) by simp
  note acc = node_access [OF Cons.prems(1)] node_access [OF pos] next_before [OF Cons.prems(1)]
  show ?case
  proof (cases "cmp (snd m) (snd n)")
    case True
    obtain h1 where h1: "swap_nodes h (Some (before l pre)) (Some (fst n)) (Some (fst m)) = Inr h1"
      "permutes h h1 l (pre @ n # m # ms) (pre @ m # n # ms)"
      using swap_permutes [OF Cons.prems(1)] .
    have sll1: "sll h1 l ((pre @ [m]) @ n # ms)"
      using permutes_sll(1) [OF h1(2)] by simp
    obtain h' where h': "pass_loop f cmp h1 (Some (fst m)) (Some (fst n)) False = Inr (h', False)"
      "permutes h1 h' l (pre @ m # n # ms) (pre @ m # bubble cmp n ms)"
      using Cons.IH [OF sll1, of f False] Cons.prems(2) f by auto
    have "next_of h1 (Some (before l pre)) = Inr (Some (fst m))"
      using next_before [OF permutes_sll(1) [OF h1(2)]] by simp
    then show ?thesis
      using True f acc h1(1) h'(1) permutes_trans [OF h1(2) h'(2)] by simp
  next
    case False
    obtain h' where h': "pass_loop f cmp h (Some (fst n)) (Some (fst m)) srt
        = Inr (h', srt \<and> calm cmp (m # ms))"
      "permutes h h' l (pre @ n # m # ms) (pre @ n # bubble cmp m ms)"
      using Cons.IH [OF pos, of f srt] Cons.prems(2) f by auto
    then show ?thesis
      using False f acc by simp
  qed
qed

text \<open>
  The inversions: pairs out of order. A pass that swaps decreases their number, provided the
  comparison is asymmetric, so the passes end.
\<close>

definition before_count :: "('a \<Rightarrow> 'a \<Rightarrow> bool) \<Rightarrow> 'a \<Rightarrow> (addr \<times> 'a) list \<Rightarrow> nat" where
  "before_count cmp x ms = length (filter (\<lambda>m. cmp (snd m) x) ms)"

fun inversions :: "('a \<Rightarrow> 'a \<Rightarrow> bool) \<Rightarrow> (addr \<times> 'a) list \<Rightarrow> nat" where
  "inversions cmp [] = 0"
| "inversions cmp (n # ns) = before_count cmp (snd n) ns + inversions cmp ns"

lemma before_count_Cons [simp]:
  "before_count cmp x (m # ms) = (if cmp (snd m) x then Suc (before_count cmp x ms) else before_count cmp x ms)"
  by (simp add: before_count_def)

lemma before_count_bubble [simp]: "before_count cmp x (bubble cmp n ms) = before_count cmp x (n # ms)"
  unfolding before_count_def by (metis bubble_mset mset.simps(2) mset_filter size_mset)

lemma inversions_bubble:
  assumes "\<And>x y. cmp x y \<Longrightarrow> \<not> cmp y x"
  shows "inversions cmp (bubble cmp n ms) + (if calm cmp (n # ms) then 0 else 1) \<le> inversions cmp (n # ms)"
proof (induction ms arbitrary: n)
  case (Cons m ms)
  show ?case
  proof (cases "cmp (snd m) (snd n)")
    case True
    then show ?thesis using Cons.IH [of n] assms by (auto split: if_splits)
  next
    case False
    then show ?thesis using Cons.IH [of m] by (auto split: if_splits)
  qed
qed simp

lemma inversions_bound: "inversions cmp ns \<le> length ns * length ns"
proof (induction ns)
  case (Cons n ns)
  have "before_count cmp (snd n) ns \<le> length ns" by (simp add: before_count_def)
  with Cons show ?case by simp
qed simp

text \<open>An element class no two members of which are ever swapped keeps its order.\<close>

lemma bubble_stable:
  assumes "\<And>m n. P n \<Longrightarrow> P m \<Longrightarrow> \<not> cmp (snd m) (snd n)"
  shows "filter P (bubble cmp n ms) = filter P (n # ms)"
  using assms by (induction ms arbitrary: n) auto

lemma calm_sorted:
  assumes "\<And>x y z. \<not> cmp y x \<Longrightarrow> \<not> cmp z y \<Longrightarrow> \<not> cmp z x" and "calm cmp ns"
  shows "sorted_wrt (\<lambda>x y. \<not> cmp y x) (vals ns)"
  using assms(2)
proof (induction ns rule: induct_list012)
  case (3 n m ms)
  then have "\<forall>x\<in>set ms. \<not> cmp (snd x) (snd n)"
    using assms(1) [of "snd m" "snd n"] by auto
  with 3 show ?case by simp
qed simp_all

text \<open>
  The specification of the whole operation: enough passes is one more than the inversions, hence
  at most \<open>n * n + 1\<close>. Within it: the nodes are permuted, no two neighbours are out of order, and
  classes of equivalent elements keep their order.
\<close>

definition sorts :: "('a \<Rightarrow> 'a \<Rightarrow> bool) \<Rightarrow> (addr \<times> 'a) list \<Rightarrow> (addr \<times> 'a) list \<Rightarrow> bool" where
  "sorts cmp ns ns' \<longleftrightarrow> calm cmp ns' \<and>
     (\<forall>P. (\<forall>n m. P n \<longrightarrow> P m \<longrightarrow> \<not> cmp (snd m) (snd n)) \<longrightarrow> filter P ns' = filter P ns)"

lemma sort_loop_spec:
  assumes asym: "\<And>x y. cmp x y \<Longrightarrow> \<not> cmp y x"
    and "sll h l ns" and "ns \<noteq> []" and "inversions cmp ns < passes"
  shows "\<exists>h' ns'. sort_loop passes cmp h l = Inr h' \<and> permutes h h' l ns ns' \<and> sorts cmp ns ns'"
  using assms(2-)
proof (induction passes arbitrary: h ns)
  case (Suc passes)
  then obtain n ms where ns: "ns = n # ms" by (cases ns) auto
  have "length ms < Suc (brk h)"
    using sll_length [OF Suc.prems(1)] ns by simp
  then obtain h1 where h1: "pass_loop (Suc (brk h)) cmp h (Some l) (Some (fst n)) True
      = Inr (h1, calm cmp ns)" "permutes h h1 l ns (bubble cmp n ms)"
    using pass_loop_spec [of h l "[]" n ms "Suc (brk h)" cmp True] Suc.prems(1) ns by auto
  have head: "next_of h (Some l) = Inr (Some (fst n))"
    using next_head [OF Suc.prems(1)] ns by simp
  show ?case
  proof (cases "calm cmp ns")
    case True
    then show ?thesis
      using h1 head bubble_calm [of cmp n ms] ns by (auto simp: sorts_def simp del: pass_loop.simps)
  next
    case False
    have ne: "bubble cmp n ms \<noteq> []"
      by (metis bubble_mset add_mset_not_empty mset_zero_iff)
    have "inversions cmp (bubble cmp n ms) < passes"
      using inversions_bubble [of cmp n ms, OF asym] False ns Suc.prems(3) by simp
    then obtain h' ns' where h': "sort_loop passes cmp h1 l = Inr h'"
      "permutes h1 h' l (bubble cmp n ms) ns'" "sorts cmp (bubble cmp n ms) ns'"
      using Suc.IH [OF permutes_sll(1) [OF h1(2)] ne] by blast
    have "sorts cmp ns ns'"
      using h'(3) bubble_stable [of _ cmp n ms] ns by (auto simp: sorts_def)
    then show ?thesis
      using False head h1(1) h'(1) permutes_trans [OF h1(2) h'(2)] by (auto simp del: pass_loop.simps)
  qed
qed simp

lemma sort_list_spec:
  assumes "\<And>x y. cmp x y \<Longrightarrow> \<not> cmp y x" and "sll h l ns" and "inversions cmp ns < passes"
  shows "\<exists>h' ns'. sort_list passes h l cmp = Inr h' \<and> permutes h h' l ns ns' \<and> sorts cmp ns ns'"
proof (cases ns)
  case Nil
  then show ?thesis
    using assms(2) next_head [OF assms(2)] by (auto simp: sort_list_def sorts_def intro: permutes_refl)
next
  case (Cons n ms)
  then show ?thesis
    using sort_loop_spec [OF assms(1,2) _ assms(3)] next_head [OF assms(2)] by (auto simp: sort_list_def)
qed

section \<open>Merging\<close>

text \<open>
  What \<open>merge\<close> computes: the elements of the receiver up to the place of \<open>r\<close>, then \<open>r\<close>; the elements
  of the other list behind \<open>r\<close> that belong in the same gap are skipped, and lost.
\<close>

function merge_f ::
  "('a \<Rightarrow> 'a \<Rightarrow> bool) \<Rightarrow> (addr \<times> 'a) list \<Rightarrow> (addr \<times> 'a) list \<Rightarrow> (addr \<times> 'a) list" where
  "merge_f cmp L [] = L"
| "merge_f cmp L (r # R) =
     (let A = takeWhile (\<lambda>x. \<not> cmp (snd r) (snd x)) L; B = dropWhile (\<lambda>x. \<not> cmp (snd r) (snd x)) L
      in A @ r # merge_f cmp B (dropWhile (\<lambda>y. B = [] \<or> \<not> cmp (snd (hd B)) (snd y)) R))"
  by pat_completeness auto
termination
  by (relation "measure (\<lambda>(cmp, L, R). length R)") (simp_all add: length_dropWhile_le less_Suc_eq_le)

lemma node_suffix:
  assumes "sll h l (pre @ L)"
  shows "seg h (first L None) L None" and "length L \<le> brk h"
  using sll_seg [OF assms] sll_length [OF assms] by simp_all

lemma merge_advance_spec:
  assumes "seg h (first L None) L None" and "data_of h rb = Inr x" and "length L < fuel"
  shows "merge_advance fuel cmp h rb (Some b) (first L None) =
    Inr (Some (before b (takeWhile (\<lambda>m. \<not> cmp x (snd m)) L)),
         first (dropWhile (\<lambda>m. \<not> cmp x (snd m)) L) None)"
  using assms
proof (induction L arbitrary: b fuel)
  case Nil
  then show ?case by (cases fuel) simp_all
next
  case (Cons m L)
  then obtain f where f: "fuel = Suc f" by (cases fuel) auto
  have "next_of h (Some (fst m)) = Inr (first L None)" "data_of h (Some (fst m)) = Inr (snd m)"
    using Cons.prems(1) by simp_all
  then show ?case
    using Cons.IH [of f "fst m"] Cons.prems f by simp
qed

lemma merge_rend_spec:
  assumes "seg h (first R None) R None" and "seg h (first B None) B None" and "length R < fuel"
  shows "merge_rend fuel cmp h (first B None) (first R None) =
    Inr (first (dropWhile (\<lambda>y. B = [] \<or> \<not> cmp (snd (hd B)) (snd y)) R) None)"
  using assms
proof (induction R arbitrary: fuel)
  case Nil
  then show ?case by (cases fuel) simp_all
next
  case (Cons m R)
  then obtain f where f: "fuel = Suc f" by (cases fuel) auto
  have "next_of h (Some (fst m)) = Inr (first R None)" "data_of h (Some (fst m)) = Inr (snd m)"
    using Cons.prems(1) by simp_all
  then show ?case
    using Cons.IH [of f] Cons.prems f by (cases B) simp_all
qed

lemma distinct_pieces:
  "distinct (l # map fst (pre @ Q)) \<longleftrightarrow>
    distinct (l # map fst pre) \<and> distinct (map fst Q) \<and> owned l pre \<inter> fst ` set Q = {}"
  by (auto simp: owned_def)

text \<open>One round: the node \<open>r\<close> moves from \<open>k\<close> to the place behind \<open>pre\<close>, and \<open>k\<close> is cut to \<open>R'\<close>.\<close>

lemma move_spec:
  assumes l: "sll h l (pre @ B)" and k: "sll h k (r # S @ R)"
    and dis: "owned l (pre @ B) \<inter> owned k (r # S @ R) = {}"
  obtains h1 h2 h3 where "link_nodes h (Some (before l pre)) (Some (fst r)) = Inr h1"
    "link_nodes h1 (Some k) (first R None) = Inr h2"
    "link_nodes h2 (Some (fst r)) (first B None) = Inr h3"
    "sll h3 l (pre @ r # B)" "sll h3 k R" "brk h3 = brk h" "dom (cells h3) = dom (cells h)"
    "same h h3 (- (owned l (pre @ B) \<union> owned k (r # S @ R)))"
proof -
  let ?O = "- (owned l (pre @ B) \<union> owned k (r # S @ R))"
  have d: "distinct (l # map fst (pre @ B))" "distinct (k # map fst (r # S @ R))"
    using l k by (simp_all add: sll_def)
  have disj: "x \<in> owned l (pre @ B) \<Longrightarrow> x \<notin> owned k (r # S @ R)" for x
    using dis by blast
  have dk: "before l pre \<notin> owned k (r # S @ R)"
    using before_owned by (rule disj)
  have kl: "k \<notin> owned l (pre @ B)" "fst r \<notin> owned l (pre @ B)"
    by (rule notI, drule disj, simp add: owned_def)+
  have kr: "k \<notin> owned l (pre @ r # S @ R)" "fst r \<notin> owned k R"
    using kl(1) d(2) by (auto simp: owned_def)
  have d1: "distinct (l # map fst (pre @ r # S @ R))" "distinct (l # map fst (pre @ r # B))"
  proof -
    have "owned l pre \<subseteq> owned l (pre @ B)" "fst ` set (r # S @ R) \<subseteq> owned k (r # S @ R)"
      by (auto simp: owned_def)
    then have "owned l pre \<inter> fst ` set (r # S @ R) = {}" using dis by blast
    then show "distinct (l # map fst (pre @ r # S @ R))"
      using d unfolding distinct_pieces by simp
    show "distinct (l # map fst (pre @ r # B))"
      using d kl(2) by (simp add: owned_def image_Un)
  qed
  have segr: "seg h (first (r # S @ R) None) (r # S @ R) None" using k by (rule sll_seg)
  obtain h1 where h1: "link_nodes h (Some (before l pre)) (Some (fst r)) = Inr h1"
    "sll h1 l (pre @ r # S @ R)" "brk h1 = brk h" "same h h1 (- {before l pre})"
    "dom (cells h1) = dom (cells h)"
    using link_spec [OF l segr d1(1)] by auto
  have k1: "sll h1 k (r # S @ R)"
    using dk by (intro sll_frame [OF k same_mono [OF h1(4)] sll_store_ok [OF h1(2)]]) auto
  have seg1: "seg h1 (first R None) R None"
    using sll_seg [OF k1] by simp
  have dR: "distinct (k # map fst R)" using d(2) by simp
  obtain h2 where h2: "link_nodes h1 (Some k) (first R None) = Inr h2" "sll h2 k R" "brk h2 = brk h1"
    "same h1 h2 (- {k})" "dom (cells h2) = dom (cells h1)"
    using rehead_spec [OF k1 seg1 dR] .
  have l2: "sll h2 l ((pre @ [r]) @ S @ R)"
    using kr(1) sll_frame [OF h1(2) same_mono [OF h2(4)] sll_store_ok [OF h2(2)]] by auto
  have same2: "same h h2 (- {before l pre, k})"
    by (rule same_chain [OF h1(4) h2(4)]) auto
  have "k \<notin> fst ` set B"
    using kl(1) by (simp add: owned_def image_Un)
  then have "fst ` set B \<subseteq> - {before l pre, k}"
    using before_fresh [OF d(1)] by blast
  with same2 have "same h h2 (fst ` set B)"
    by (rule same_mono)
  then have segB: "seg h2 (first B None) B None"
    using node_suffix(1) [OF l] by (rule seg_frame)
  obtain h3 where h3: "link_nodes h2 (Some (fst r)) (first B None) = Inr h3" "sll h3 l (pre @ r # B)"
    "brk h3 = brk h2" "same h2 h3 (- {fst r})" "dom (cells h3) = dom (cells h2)"
    using link_spec [OF l2 segB] d1(2) by auto
  have "sll h3 k R"
    using kr(2) by (intro sll_frame [OF h2(2) same_mono [OF h3(4)] sll_store_ok [OF h3(2)]]) auto
  moreover have "same h h3 ?O"
    using before_owned [of l pre B] by (intro same_chain [OF same2 h3(4)]) (auto simp: owned_def)
  ultimately show ?thesis
    using that h1(1,3,5) h2(1,3,5) h3(1,2,3,5) by auto
qed

lemma before_append [simp]: "before l (xs @ ys) = before (before l xs) ys"
  by (simp add: before_def)

lemma merge_loop_spec:
  assumes asym: "\<And>x y. cmp x y \<Longrightarrow> \<not> cmp y x"
    and "sll h l (pre @ q @ L)" and "sll h k R" and "owned l (pre @ q @ L) \<inter> owned k R = {}"
    and "length R < fuel" and "q = [] \<or> R = [] \<or> (L \<noteq> [] \<and> \<not> cmp (snd (hd R)) (snd (hd L)))"
  shows "\<exists>h'. merge_loop fuel cmp h (Some (before l pre)) (first L None) (Some k) (first R None) = Inr h' \<and>
    sll h' l (pre @ q @ merge_f cmp L R) \<and> sll h' k [] \<and> brk h' = brk h \<and> dom (cells h') = dom (cells h) \<and>
    same h h' (- (owned l (pre @ q @ L) \<union> owned k R))"
  using assms(2-)
proof (induction fuel arbitrary: h pre q L R)
  case (Suc f)
  show ?case
  proof (cases R)
    case Nil
    then show ?thesis using Suc.prems by simp
  next
    case (Cons r R')
    define A where "A = takeWhile (\<lambda>x. \<not> cmp (snd r) (snd x)) L"
    define B where "B = dropWhile (\<lambda>x. \<not> cmp (snd r) (snd x)) L"
    define go where "go = (\<lambda>y :: addr \<times> 'a. B = [] \<or> \<not> cmp (snd (hd B)) (snd y))"
    define S where "S = takeWhile go R'"
    define T where "T = dropWhile go R'"
    have LA: "L = A @ B" and RT: "R = r # S @ T"
      unfolding A_def B_def S_def T_def Cons by simp_all
    have f: "merge_f cmp L R = A @ r # merge_f cmp B T"
      unfolding Cons merge_f.simps Let_def A_def [symmetric] B_def [symmetric] go_def [symmetric]
        T_def [symmetric] ..
    have bef: "before (before l pre) A = before l (pre @ q @ A)"
    proof (cases "q = []")
      case False
      then have "A \<noteq> []" using Suc.prems(5) Cons by (cases L) (auto simp: A_def)
      then show ?thesis by (simp add: before_def)
    qed simp
    have l: "sll h l ((pre @ q @ A) @ B)" and k: "sll h k (r # S @ T)"
      and dis: "owned l ((pre @ q @ A) @ B) \<inter> owned k (r # S @ T) = {}"
      using Suc.prems(1-3) LA RT by simp_all
    have segs: "seg h (first L None) L None" "seg h (first B None) B None" "seg h (first R' None) R' None"
      and len: "length L < Suc (brk h)" "length R' < Suc (brk h)"
      using node_suffix [of h l "pre @ q" L] node_suffix [of h l "pre @ q @ A" B] Suc.prems(1)
        node_suffix [of h k "[r]" R'] Suc.prems(2) Cons LA by simp_all
    have acc: "data_of h (Some (fst r)) = Inr (snd r)" "next_of h (Some (fst r)) = Inr (first R' None)"
      using node_access [of h k "[]" r R'] Suc.prems(2) Cons by simp_all
    have adv: "merge_advance (Suc (brk h)) cmp h (Some (fst r)) (Some (before l pre)) (first L None)
        = Inr (Some (before l (pre @ q @ A)), first B None)"
      using merge_advance_spec [OF segs(1) acc(1) len(1), of cmp "before l pre"] bef
      unfolding A_def [symmetric] B_def [symmetric] by simp
    have rend: "merge_rend (Suc (brk h)) cmp h (first B None) (first R' None) = Inr (first T None)"
      using merge_rend_spec [OF segs(3,2) len(2), of cmp] unfolding go_def [symmetric] T_def [symmetric] .
    obtain h1 h2 h3 where h3: "link_nodes h (Some (before l (pre @ q @ A))) (Some (fst r)) = Inr h1"
      "link_nodes h1 (Some k) (first T None) = Inr h2"
      "link_nodes h2 (Some (fst r)) (first B None) = Inr h3"
      "sll h3 l ((pre @ q @ A) @ r # B)" "sll h3 k T" "brk h3 = brk h" "dom (cells h3) = dom (cells h)"
      "same h h3 (- (owned l ((pre @ q @ A) @ B) \<union> owned k (r # S @ T)))"
      using move_spec [OF l k dis] .
    have "T = [] \<or> (B \<noteq> [] \<and> \<not> cmp (snd (hd T)) (snd (hd B)))"
      using hd_dropWhile [of go R'] asym unfolding T_def [symmetric] by (auto simp: go_def)
    moreover have dis': "owned l ((pre @ q @ A) @ [r] @ B) \<inter> owned k T = {}"
      using dis k by (auto simp: owned_def sll_def)
    moreover have "length T < f"
      using Suc.prems(4) RT by simp
    ultimately obtain h' where h': "merge_loop f cmp h3 (Some (before l (pre @ q @ A))) (first B None)
        (Some k) (first T None) = Inr h'" "sll h' l ((pre @ q @ A) @ [r] @ merge_f cmp B T)" "sll h' k []"
      "brk h' = brk h3" "dom (cells h') = dom (cells h3)"
      "same h3 h' (- (owned l ((pre @ q @ A) @ [r] @ B) \<union> owned k T))"
      using Suc.IH [of h3 "pre @ q @ A" "[r]" B T] h3(4,5) by auto
    have own: "owned l (pre @ q @ L) = owned l ((pre @ q @ A) @ B)"
      "owned l ((pre @ q @ A) @ [r] @ B) \<union> owned k T \<subseteq> owned l (pre @ q @ L) \<union> owned k R"
      using LA RT by (auto simp: owned_def)
    have "same h h' (- (owned l (pre @ q @ L) \<union> owned k R))"
      using own RT by (intro same_chain [OF h3(8) h'(6)]) auto
    then show ?thesis
      using acc(2) adv rend h3(1-3,6,7) h'(1-5) f RT Cons
      by (simp del: merge_advance.simps merge_rend.simps merge_f.simps before_append)
  qed
qed simp

lemma merge_lists_spec:
  assumes "\<And>x y. cmp x y \<Longrightarrow> \<not> cmp y x" and "sll h l L" and "sll h k R" and "owned l L \<inter> owned k R = {}"
  shows "\<exists>h'. merge_lists h l k cmp = Inr h' \<and> sll h' l (merge_f cmp L R) \<and> sll h' k [] \<and>
    dom (cells h') = dom (cells h) \<and> same h h' (- (owned l L \<union> owned k R))"
  using merge_loop_spec [of cmp h l "[]" "[]" L k R "Suc (brk h)"] assms sll_length [OF assms(3)]
  by (auto simp: merge_lists_def next_head simp del: merge_loop.simps)

text \<open>The nodes that end up in neither list.\<close>

function lost_f ::
  "('a \<Rightarrow> 'a \<Rightarrow> bool) \<Rightarrow> (addr \<times> 'a) list \<Rightarrow> (addr \<times> 'a) list \<Rightarrow> (addr \<times> 'a) list" where
  "lost_f cmp L [] = []"
| "lost_f cmp L (r # R) =
     (let B = dropWhile (\<lambda>x. \<not> cmp (snd r) (snd x)) L;
          go = (\<lambda>y. B = [] \<or> \<not> cmp (snd (hd B)) (snd y))
      in takeWhile go R @ lost_f cmp B (dropWhile go R))"
  by pat_completeness auto
termination
  by (relation "measure (\<lambda>(cmp, L, R). length R)") (simp_all add: length_dropWhile_le less_Suc_eq_le)

lemma merge_mset: "mset (merge_f cmp L R) + mset (lost_f cmp L R) = mset L + mset R"
proof (induction cmp L R rule: merge_f.induct)
  case (2 cmp L r R)
  define B where "B = dropWhile (\<lambda>x. \<not> cmp (snd r) (snd x)) L"
  define go where "go = (\<lambda>y :: addr \<times> 'a. B = [] \<or> \<not> cmp (snd (hd B)) (snd y))"
  have "mset (merge_f cmp B (dropWhile go R)) + mset (lost_f cmp B (dropWhile go R))
      = mset B + mset (dropWhile go R)"
    using 2 unfolding B_def go_def by simp
  moreover have "mset L = mset (takeWhile (\<lambda>x. \<not> cmp (snd r) (snd x)) L) + mset B"
    unfolding B_def by (metis mset_append takeWhile_dropWhile_id)
  moreover have "mset R = mset (takeWhile go R) + mset (dropWhile go R)"
    by (metis mset_append takeWhile_dropWhile_id)
  ultimately show ?case
    unfolding merge_f.simps lost_f.simps Let_def B_def [symmetric] go_def [symmetric]
    by (simp add: add.assoc add.left_commute)
qed simp

text \<open>Of sorted lists the result is sorted.\<close>

lemma sorted_merge:
  assumes "\<And>x y z. \<not> cmp y x \<Longrightarrow> \<not> cmp z y \<Longrightarrow> \<not> cmp z x" and "\<And>x y. cmp x y \<Longrightarrow> \<not> cmp y x"
    and "sorted_wrt (\<lambda>x y. \<not> cmp y x) (vals L)" and "sorted_wrt (\<lambda>x y. \<not> cmp y x) (vals R)"
  shows "sorted_wrt (\<lambda>x y. \<not> cmp y x) (vals (merge_f cmp L R))"
  using assms
proof (induction cmp L R rule: merge_f.induct)
  case (1 cmp L)
  show ?case unfolding merge_f.simps by (rule 1(3))
next
  case (2 cmp L r R)
  define A where "A = takeWhile (\<lambda>x. \<not> cmp (snd r) (snd x)) L"
  define B where "B = dropWhile (\<lambda>x. \<not> cmp (snd r) (snd x)) L"
  define T where "T = dropWhile (\<lambda>y. B = [] \<or> \<not> cmp (snd (hd B)) (snd y)) R"
  have f: "merge_f cmp L (r # R) = A @ r # merge_f cmp B T"
    unfolding merge_f.simps Let_def A_def B_def T_def ..
  have L: "L = A @ B" by (simp add: A_def B_def)
  have "\<exists>S. R = S @ T" unfolding T_def by (metis takeWhile_dropWhile_id)
  then obtain S where R: "R = S @ T" ..
  have T: "\<not> cmp (snd y) (snd r)" if "y \<in> set T" for y
    using that "2.prems"(4) R by auto
  have Ar: "\<not> cmp (snd r) (snd x)" if "x \<in> set A" for x
    using that unfolding A_def by (auto dest: set_takeWhileD)
  have AB: "\<not> cmp (snd y) (snd x)" if "x \<in> set A" "y \<in> set B" for x y
    using that "2.prems"(3) L by (auto simp: sorted_wrt_append)
  have B: "\<not> cmp (snd y) (snd r)" if "y \<in> set B" for y
  proof -
    obtain b bs where b: "B = b # bs" using \<open>y \<in> set B\<close> by (cases B) auto
    then have "cmp (snd r) (snd b)"
      using hd_dropWhile [of "\<lambda>x. \<not> cmp (snd r) (snd x)" L] unfolding B_def [symmetric] by simp
    then have "\<not> cmp (snd b) (snd r)" by (rule "2.prems"(2))
    moreover have "y = b \<or> \<not> cmp (snd y) (snd b)"
      using that b "2.prems"(3) L by (auto simp: sorted_wrt_append)
    ultimately show ?thesis using "2.prems"(1) by blast
  qed
  have sub: "set (merge_f cmp B T) \<subseteq> set B \<union> set T"
    using merge_mset [of cmp B T] by (metis mset_subset_eq_add_left set_mset_mono set_mset_mset set_mset_union)
  have AT: "\<not> cmp (snd y) (snd x)" if "x \<in> set A" "y \<in> set T" for x y
    using "2.prems"(1) Ar [OF that(1)] T [OF that(2)] .
  have "sorted_wrt (\<lambda>x y. \<not> cmp y x) (vals (merge_f cmp B T))"
    using "2.IH" [OF refl refl "2.prems"(1,2)] "2.prems"(3,4) L R
    unfolding A_def [symmetric] B_def [symmetric] T_def [symmetric]
    by (simp add: sorted_wrt_append)
  moreover have "sorted_wrt (\<lambda>x y. \<not> cmp y x) (vals A)"
    using "2.prems"(3) L by (simp add: sorted_wrt_append)
  ultimately show ?case
    unfolding f using sub Ar AB AT B T by (auto simp: sorted_wrt_append) 
qed

end
