(* ===== verification/SLL_Properties.thy ===== *)
theory SLL_Properties
  imports SLL_Algorithms
begin

text \<open>
  The properties of \<^verbatim>\<open>SingleLinkedList\<close>. Each says which values an operation leaves, that it neither
  touches a freed or null pointer nor any node of another list (\<^const>\<open>mutates\<close>, \<^const>\<open>permutes\<close>), and
  which nodes are live afterwards. \<open>placed\<close> builds the concrete stores of the witnesses.
\<close>

section \<open>Concrete stores\<close>

fun put_nodes :: "'a sll_store \<Rightarrow> addr \<Rightarrow> 'a list \<Rightarrow> 'a sll_store" where
  "put_nodes h b [] = h"
| "put_nodes h b (x # xs) =
     put_nodes (h\<lparr>cells := (cells h)(b \<mapsto> \<lparr>data = x, nxt = if xs = [] then None else Some (Suc b)\<rparr>),
       brk := Suc b\<rparr>) (Suc b) xs"

text \<open>A list object at the next free address, with the values \<open>xs\<close> in the nodes behind it.\<close>

definition placed :: "'a sll_store \<Rightarrow> 'a list \<Rightarrow> 'a sll_store" where
  "placed h xs = put_nodes h (brk h) (undefined # xs)"

lemma put_nodes_spec:
  assumes "store_ok h" and "b = brk h"
  shows "seg (put_nodes h b xs) (first (fresh b xs) None) (fresh b xs) None"
    and "store_ok (put_nodes h b xs)" and "brk (put_nodes h b xs) = b + length xs"
    and "same h (put_nodes h b xs) {..<b}"
proof -
  have "seg (put_nodes h b xs) (first (fresh b xs) None) (fresh b xs) None \<and>
    store_ok (put_nodes h b xs) \<and> brk (put_nodes h b xs) = b + length xs \<and> same h (put_nodes h b xs) {..<b}"
    using assms
  proof (induction xs arbitrary: h b)
    case (Cons x xs)
    define h1 where "h1 = h\<lparr>cells := (cells h)(b \<mapsto> \<lparr>data = x, nxt = if xs = [] then None else Some (Suc b)\<rparr>),
       brk := Suc b\<rparr>"
    have ok: "store_ok h1" "Suc b = brk h1"
      using Cons.prems by (simp_all add: h1_def)
    have s1: "same h h1 {..<b}"
      unfolding h1_def by simp
    note IH = Cons.IH [OF ok]
    have b: "cells (put_nodes h1 (Suc b) xs) b = cells h1 b"
      by (rule sameD [OF IH [THEN conjunct2, THEN conjunct2, THEN conjunct2]]) simp
    have "same h (put_nodes h1 (Suc b) xs) {..<b}"
      by (rule same_chain [OF s1 IH [THEN conjunct2, THEN conjunct2, THEN conjunct2]]) auto
    moreover have "put_nodes h b (x # xs) = put_nodes h1 (Suc b) xs"
      unfolding h1_def by simp
    moreover have "cells h1 b = Some \<lparr>data = x, nxt = first (fresh (Suc b) xs) None\<rparr>"
      unfolding h1_def by (cases xs) simp_all
    ultimately show ?case
      using IH b by simp
  qed simp
  then show "seg (put_nodes h b xs) (first (fresh b xs) None) (fresh b xs) None"
    and "store_ok (put_nodes h b xs)" and "brk (put_nodes h b xs) = b + length xs"
    and "same h (put_nodes h b xs) {..<b}" by simp_all
qed

lemma placed_spec:
  assumes "store_ok h"
  shows "sll (placed h xs) (brk h) (fresh (Suc (brk h)) xs)"
    and "store_ok (placed h xs)" and "brk (placed h xs) = Suc (brk h + length xs)"
    and "same h (placed h xs) {..<brk h}"
  using put_nodes_spec [OF assms refl, of "undefined # xs"] distinct_fresh [of "brk h" "undefined # xs"]
  unfolding placed_def sll_def by auto

lemma placed_first: "sll (placed empty_store xs) 0 (fresh 1 xs)"
  using placed_spec(1) [OF store_ok_empty, of xs] by (simp add: empty_store_def)

text \<open>Two lists side by side.\<close>

lemma placed_both:
  fixes xs ys :: "'a list"
  defines "h \<equiv> placed (placed empty_store xs) ys" and "k \<equiv> Suc (length xs)"
  shows "sll h 0 (fresh 1 xs)" and "sll h k (fresh (Suc k) ys)"
    and "owned 0 (fresh 1 xs) \<inter> owned k (fresh (Suc k) ys) = {}"
    and "owned k (fresh (Suc k) ys) \<inter> owned 0 (fresh 1 xs) = {}"
proof -
  let ?h = "placed empty_store xs :: 'a sll_store"
  have ok: "store_ok ?h" and brk: "brk ?h = k"
    using placed_spec(2,3) [OF store_ok_empty, of xs] by (simp_all add: empty_store_def k_def)
  have own: "owned 0 (fresh 1 xs) \<subseteq> {..<k}" by (auto simp: owned_def fst_fresh k_def)
  show "sll h 0 (fresh 1 xs)"
    unfolding h_def using own placed_spec(2,4) [OF ok, of ys] brk
    by (intro sll_frame [OF placed_first]) (auto intro: same_mono)
  show "sll h k (fresh (Suc k) ys)"
    unfolding h_def using placed_spec(1) [OF ok, of ys] brk by simp
  show "owned 0 (fresh 1 xs) \<inter> owned k (fresh (Suc k) ys) = {}"
    "owned k (fresh (Suc k) ys) \<inter> owned 0 (fresh 1 xs) = {}"
    using own by (auto simp: owned_def fst_fresh k_def)
qed

section \<open>Properties\<close>

text \<open>C3 (SingleLinkedList::sort). Sorting by \<open>key x < key y\<close> ends after at most \<open>n * n + 1\<close> passes,
  never follows a bad pointer, and leaves exactly the stable sort of the nodes: the same nodes, relinked, none
  copied, freed or allocated.\<close>

theorem sort_is_stable_sort:
  fixes key :: "'a \<Rightarrow> 'k :: linorder"
  assumes "sll h l ns" and "length ns * length ns < passes"
  shows "\<exists>h'. sort_list passes h l (\<lambda>x y. key x < key y) = Inr h' \<and>
    permutes h h' l ns (sort_key (\<lambda>n. key (snd n)) ns)"
proof -
  let ?cmp = "\<lambda>x y. key x < key y"
  have "inversions ?cmp ns < passes"
    using inversions_bound [of ?cmp ns] assms(2) by simp
  then obtain h' ns' where h': "sort_list passes h l ?cmp = Inr h'" "permutes h h' l ns ns'" "sorts ?cmp ns ns'"
    using sort_list_spec [OF _ assms(1), of ?cmp] by force
  have sorted: "sorted (map (\<lambda>n. key (snd n)) ns')"
    using calm_sorted [of ?cmp ns'] h'(3) by (auto simp: sorts_def not_less sorted_map sorted_wrt_map)
  have "filter (\<lambda>n. key (snd m) = key (snd n)) ns' = filter (\<lambda>n. key (snd m) = key (snd n)) ns" for m
    using h'(3) by (auto simp: sorts_def)
  then have "sort_key (\<lambda>n. key (snd n)) ns = ns'"
    using h'(2) sorted by (intro properties_for_sort_key) (simp_all add: permutes_def)
  with h' show ?thesis by auto
qed

lemma sort_is_stable_sort_witness:
  "\<exists>h'. sort_list 10 (placed empty_store [3, 1, 2 :: int]) 0 (\<lambda>x y. id x < id y) = Inr h' \<and>
    sll h' 0 [(2, 1), (3, 2), (1, 3)]"
  using sort_is_stable_sort [OF placed_first, of "[3, 1, 2 :: int]" 10 id] by (auto simp: permutes_def eval_nat_numeral)

text \<open>C16 (SingleLinkedList::merge). For a strict weak order, merging a second list into a sorted one ends,
  never follows a bad pointer and leaves the second list empty; the result is sorted, holds nodes of
  the two lists only, and each node of the two lists is either in it or among the \<open>lost_f\<close> ones, which
  stay allocated with no list reaching them.\<close>

theorem merge_sorted:
  assumes "\<And>x y. cmp x y \<Longrightarrow> \<not> cmp y x" and "\<And>x y z. \<not> cmp y x \<Longrightarrow> \<not> cmp z y \<Longrightarrow> \<not> cmp z x"
    and "sll h l L" and "sll h k R" and "owned l L \<inter> owned k R = {}"
    and "sorted_wrt (\<lambda>x y. \<not> cmp y x) (vals L)" and "sorted_wrt (\<lambda>x y. \<not> cmp y x) (vals R)"
  shows "\<exists>h' ns. merge_lists h l k cmp = Inr h' \<and> sll h' l ns \<and> sll h' k [] \<and>
    sorted_wrt (\<lambda>x y. \<not> cmp y x) (vals ns) \<and> mset ns + mset (lost_f cmp L R) = mset L + mset R \<and>
    dom (cells h') = dom (cells h)"
proof -
  have "sorted_wrt (\<lambda>x y. \<not> cmp y x) (vals (merge_f cmp L R))"
    by (rule sorted_merge) (fact assms)+
  then show ?thesis
    using merge_lists_spec [of cmp h l L k R, OF assms(1,3-5)] merge_mset [of cmp L R] by blast
qed

lemma merge_sorted_witness:
  "\<exists>h' ns. merge_lists (placed (placed empty_store [1, 5]) [2, 7 :: int]) 0 3 (<) = Inr h' \<and>
    sll h' 0 ns \<and> sorted (vals ns)"
proof -
  let ?h = "placed (placed empty_store [1, 5]) [2, 7 :: int]"
  have "\<exists>h' ns. merge_lists ?h 0 3 (<) = Inr h' \<and> sll h' 0 ns \<and> sll h' 3 [] \<and>
    sorted_wrt (\<lambda>x y. \<not> y < x) (vals ns) \<and> mset ns + mset (lost_f (<) (fresh 1 [1, 5]) (fresh 4 [2, 7]))
      = mset (fresh 1 [1, 5]) + mset (fresh 4 [2, 7]) \<and> dom (cells h') = dom (cells ?h)"
    using placed_both [of "[1, 5]" "[2, 7 :: int]"] by (intro merge_sorted) (simp_all add: eval_nat_numeral)
  then show ?thesis by (auto simp: not_less)
qed

text \<open>SingleLinkedList::merge loses elements. Merging \<open>[1, 2]\<close> into \<open>[9]\<close> drops the 2: of a run of
  elements that go to the same place only the first is linked. Stated for every list of one element and every
  sorted pair below it.\<close>

theorem merge_drops_run:
  assumes "sll h l [c]" and "sll h k [a, b]" and "owned l [c] \<inter> owned k [a, b] = {}"
    and "snd a < (snd c :: 'a :: linorder)" and "snd b \<le> snd c"
  shows "\<exists>h'. merge_lists h l k (<) = Inr h' \<and> sll h' l [a, c] \<and> sll h' k [] \<and> cells h' (fst b) \<noteq> None"
proof -
  obtain h' where h': "merge_lists h l k (<) = Inr h'" "sll h' l (merge_f (<) [c] [a, b])" "sll h' k []"
    "dom (cells h') = dom (cells h)"
    using merge_lists_spec [of "(<)" h l "[c]" k "[a, b]", OF _ assms(1-3)] by (metis order.asym)
  have "merge_f (<) [c] [a, b] = [a, c]"
    using assms(4,5) by (auto simp: Let_def not_less)
  moreover have "fst b \<in> dom (cells h)"
    using sll_dom [OF assms(2)] by auto
  ultimately show ?thesis
    using h' by auto
qed

lemma merge_drops_run_witness:
  "\<exists>h'. merge_lists (placed (placed empty_store [9]) [1, 2 :: int]) 0 2 (<) = Inr h' \<and>
    sll h' 0 [(3, 1), (1, 9)] \<and> sll h' 2 [] \<and> cells h' 4 \<noteq> None"
  using merge_drops_run [of "placed (placed empty_store [9]) [1, 2 :: int]" 0 "(1, 9)" 2 "(3, 1)" "(4, 2)"]
    placed_both [of "[9]" "[1, 2 :: int]"] by (simp add: eval_nat_numeral)

text \<open>SingleLinkedList::remove_if and unique. Both return how many elements they drop, free exactly
  the nodes of those, and keep the others in order: \<open>remove_if\<close> the ones the predicate rejects,
  \<open>unique\<close> the first of each run of equal ones.\<close>

theorem remove_if_unique:
  assumes "sll h l ns"
  shows "\<exists>h1 h2 ns2.
    remove_if h l pred = Inr (h1, word_of_nat (length (filter pred (vals ns)))) \<and>
    mutates h h1 l ns (filter (\<lambda>m. \<not> pred (snd m)) ns) \<and>
    unique h l (=) = Inr (h2, word_of_nat (length ns - length ns2)) \<and>
    mutates h h2 l ns ns2 \<and> vals ns2 = remdups_adj (vals ns)"
  using remove_if_spec [OF assms, of pred] unique_spec [OF assms, of "(=)"] uniq_remdups [of ns] by blast

lemma remove_if_unique_witness:
  "\<exists>h1 h2 ns2. remove_if (placed empty_store [1, 2, 2, 3 :: int]) 0 even = Inr (h1, 2) \<and>
    sll h1 0 [(1, 1), (4, 3)] \<and>
    unique (placed empty_store [1, 2, 2, 3 :: int]) 0 (=) = Inr (h2, 1) \<and> sll h2 0 ns2 \<and> vals ns2 = [1, 2, 3]"
proof -
  let ?h = "placed empty_store [1, 2, 2, 3 :: int]"
  obtain h1 h2 ns2 where h: "remove_if ?h 0 even = Inr (h1, 2)" "sll h1 0 [(1, 1), (4, 3)]"
    "unique ?h 0 (=) = Inr (h2, word_of_nat (4 - length ns2))" "sll h2 0 ns2" "vals ns2 = [1, 2, 3]"
    using remove_if_unique [OF placed_first, of "[1, 2, 2, 3 :: int]" even]
    by (simp add: remdups_adj_Cons eval_nat_numeral) (metis mutates_sll)
  have "length ns2 = 3"
    using arg_cong [OF h(5), of length] by simp
  with h show ?thesis by auto
qed

text \<open>SingleLinkedList::reverse. The list ends up with its own nodes in the opposite order.\<close>

theorem reverse_correct:
  assumes "sll h l ns"
  shows "\<exists>h'. reverse_list h l = Inr h' \<and> mutates h h' l ns (rev ns)"
  using assms by (rule reverse_list_spec)

lemma reverse_correct_witness:
  "\<exists>h'. reverse_list (placed empty_store ''abc'') 0 = Inr h' \<and> sll h' 0 [(3, CHR ''c''), (2, CHR ''b''), (1, CHR ''a'')]"
  using reverse_correct [OF placed_first, of "''abc''"] by (auto simp: eval_nat_numeral dest!: mutates_sll)

text \<open>C40 (copy assignment). Assigning another list frees the old nodes and makes fresh copies of the
  other's values; the other list is unchanged and the two share no node.\<close>

theorem copy_assign_correct:
  assumes "sll h this ns" and "sll h k ms" and "owned k ms \<inter> owned this ns = {}"
  shows "\<exists>h' ns'. copy_assign h this k = Inr h' \<and> mutates h h' this ns ns' \<and> vals ns' = vals ms \<and>
    sll h' k ms \<and> owned k ms \<inter> owned this ns' = {}"
proof -
  obtain h' ns' where h': "copy_assign h this k = Inr h'" "mutates h h' this ns ns'" "vals ns' = vals ms"
    "sll h' k ms"
    using copy_assign_spec [OF assms] by blast
  have "owned k ms \<inter> owned this ns' = {}"
  proof -
    have "owned this ns' \<subseteq> owned this ns \<union> {brk h..}"
      using mutatesD(5) [OF h'(2)] unfolding owned_def by blast
    moreover have "owned k ms \<inter> {brk h..} = {}"
      using owned_below [OF assms(2)] by fastforce
    ultimately show ?thesis using assms(3) by blast
  qed
  with h' show ?thesis by blast
qed

lemma copy_assign_correct_witness:
  "\<exists>h' ns'. copy_assign (placed (placed empty_store [7]) [1, 2 :: int]) 0 2 = Inr h' \<and>
    sll h' 0 ns' \<and> vals ns' = [1, 2] \<and> sll h' 2 [(3, 1), (4, 2)]"
proof -
  have "sll (placed (placed empty_store [7]) [1, 2 :: int]) 0 [(1, 7)]"
    "sll (placed (placed empty_store [7]) [1, 2 :: int]) 2 [(3, 1), (4, 2)]"
    using placed_both [of "[7]" "[1, 2 :: int]"] by (simp_all add: eval_nat_numeral)
  from copy_assign_correct [OF this] obtain h' ns' where
    "copy_assign (placed (placed empty_store [7]) [1, 2 :: int]) 0 2 = Inr h'"
    "mutates (placed (placed empty_store [7]) [1, 2 :: int]) h' 0 [(1, 7)] ns'"
    "vals ns' = [1, 2]" "sll h' 2 [(3, 1), (4, 2)]"
    by (auto simp: owned_def)
  then show ?thesis by (metis mutates_sll)
qed

text \<open>construction from another list or range. Copy-constructing from a list makes fresh copies of its
  values, except that an empty source fails the contract in \<open>make_range\<close>, and a requested count of 0
  makes \<open>2 ^ 64\<close> nodes.\<close>

theorem construct_copy_n:
  assumes "sll h k ms"
  shows "(if ms = [] then construct_copy h dflt k = Inl Contract
      else \<exists>h' ns. construct_copy h dflt k = Inr (h', brk h) \<and> created h h' (brk h) ns \<and> vals ns = vals ms) \<and>
    (\<exists>h' ns. construct_n h dflt n x = Inr (h', brk h) \<and> created h h' (brk h) ns \<and>
      length ns = (if n = 0 then 2 ^ 64 else unat n))"
proof (rule conjI)
  show "if ms = [] then construct_copy h dflt k = Inl Contract
    else \<exists>h' ns. construct_copy h dflt k = Inr (h', brk h) \<and> created h h' (brk h) ns \<and> vals ns = vals ms"
    using construct_copy_empty construct_copy_spec assms by metis
  show "\<exists>h' ns. construct_n h dflt n x = Inr (h', brk h) \<and> created h h' (brk h) ns \<and>
      length ns = (if n = 0 then 2 ^ 64 else unat n)"
    using construct_n_spec [OF sll_store_ok [OF assms]] by (metis length_map length_replicate)
qed

lemma construct_copy_n_witness:
  "construct_copy (placed empty_store ([] :: int list)) 0 0 = Inl Contract"
  using construct_copy_n [OF placed_first, of "[] :: int list"] by simp

text \<open>resize. Resizing to \<open>n\<close> keeps the first \<open>n\<close> elements and frees the rest, or appends fresh copies of
  the given value up to the length \<open>n\<close>.\<close>

theorem resize_correct:
  assumes "sll h l ns"
  shows "\<exists>h' ns'. resize h l n x = Inr h' \<and> mutates h h' l ns ns' \<and> length ns' = unat n \<and>
    vals ns' = take (unat n) (vals ns) @ replicate (unat n - length ns) x"
proof -
  let ?ns' = "if length ns < unat n then ns @ fresh (brk h) (replicate (unat n - length ns) x)
    else take (unat n) ns"
  obtain h' where "resize h l n x = Inr h'" "mutates h h' l ns ?ns'"
    using resize_spec [OF assms refl] by blast
  then show ?thesis
    by (intro exI [of _ h'] exI [of _ ?ns']) (simp add: take_map)
qed

lemma resize_correct_witness:
  "\<exists>h' ns'. resize (placed empty_store [1, 2 :: int]) 0 4 9 = Inr h' \<and> sll h' 0 ns' \<and> vals ns' = [1, 2] @ replicate 2 9"
  using resize_correct [OF placed_first, of "[1, 2 :: int]" 4 9]
  by (simp del: replicate.simps) (metis mutates_sll)

end
