(* ===== verification/Input_Stream.thy ===== *)
theory Input_Stream
  imports Prelude
begin

text \<open>
  The part of \<^verbatim>\<open>std::istream\<close> the scanners use, over the characters still to be read, and the
  contract of a token stream with one token of push-back, which three components implement:
  \<^verbatim>\<open>Punypy-parser\<close>'s \<^verbatim>\<open>Scanner\<close>, \<^verbatim>\<open>Punypy2\<close>'s \<^verbatim>\<open>Scanner\<close> and the calculator's \<^verbatim>\<open>TokenStream\<close>.
\<close>

section \<open>Streams\<close>

text \<open>\<open>rest\<close> are the characters not yet extracted; the two state bits are those the scanners test.\<close>

record istream =
  rest :: string
  eofbit :: bool
  failbit :: bool

definition of_string :: "string \<Rightarrow> istream" where
  "of_string cs = \<lparr>rest = cs, eofbit = False, failbit = False\<rparr>"

definition good :: "istream \<Rightarrow> bool" where
  "good s \<longleftrightarrow> \<not> eofbit s \<and> \<not> failbit s"

text \<open>
  \<^verbatim>\<open>get(ch)\<close>: \<open>None\<close> where no character is extracted, and then \<^verbatim>\<open>ch\<close> keeps its value. On a stream
  that is not good only \<open>failbit\<close> is set.
\<close>

definition get_ch :: "istream \<Rightarrow> char option \<times> istream" where
  "get_ch s =
     (if good s then
        (case rest s of [] \<Rightarrow> (None, s\<lparr>eofbit := True, failbit := True\<rparr>)
         | c # cs \<Rightarrow> (Some c, s\<lparr>rest := cs\<rparr>))
      else (None, s\<lparr>failbit := True\<rparr>))"

text \<open>\<^verbatim>\<open>peek()\<close> sets only \<open>eofbit\<close> at the end; on a stream that is not good it sets \<open>failbit\<close>.\<close>

definition peek_ch :: "istream \<Rightarrow> char option \<times> istream" where
  "peek_ch s =
     (if good s then
        (case rest s of [] \<Rightarrow> (None, s\<lparr>eofbit := True\<rparr>) | c # cs \<Rightarrow> (Some c, s))
      else (None, s\<lparr>failbit := True\<rparr>))"

text \<open>
  \<^verbatim>\<open>putback(ch)\<close> of the character extracted last. It clears \<open>eofbit\<close> first; on a stream that has failed
  nothing is put back.
\<close>

definition putback_ch :: "char \<Rightarrow> istream \<Rightarrow> istream" where
  "putback_ch c s =
     (if failbit s then s\<lparr>eofbit := False\<rparr> else s\<lparr>rest := c # rest s, eofbit := False\<rparr>)"

text \<open>The loop \<^verbatim>\<open>while (source.get(ch) && p(ch)) oss << ch;\<close>, with the characters it collects and the
  final value of \<^verbatim>\<open>ch\<close>.\<close>

function get_while :: "(char \<Rightarrow> bool) \<Rightarrow> char \<Rightarrow> istream \<Rightarrow> string \<times> char \<times> istream" where
  "get_while p ch s =
     (case get_ch s of
        (None, s') \<Rightarrow> ([], ch, s')
      | (Some c, s') \<Rightarrow>
          if p c then (let (cs, ch', s'') = get_while p c s' in (c # cs, ch', s''))
          else ([], c, s'))"
  by pat_completeness auto
termination
  by (relation "measure (\<lambda>(p, ch, s). length (rest s))")
    (auto simp: get_ch_def split: if_splits list.splits)

declare get_while.simps [simp del]

section \<open>Characters and numbers\<close>

definition newline :: char where
  "newline = CHR 0x0A"

text \<open>The classes of \<^verbatim>\<open><cctype>\<close> in the C locale.\<close>

definition is_digit :: "char \<Rightarrow> bool" where
  "is_digit c \<longleftrightarrow> c \<in> set ''0123456789''"

definition is_alpha :: "char \<Rightarrow> bool" where
  "is_alpha c \<longleftrightarrow> 65 \<le> (of_char c :: nat) \<and> (of_char c :: nat) \<le> 90 \<or> 97 \<le> (of_char c :: nat) \<and> (of_char c :: nat) \<le> 122"

definition is_space :: "char \<Rightarrow> bool" where
  "is_space c \<longleftrightarrow> (of_char c :: nat) = 32 \<or> 9 \<le> (of_char c :: nat) \<and> (of_char c :: nat) \<le> 13"

definition digit_val :: "char \<Rightarrow> int" where
  "digit_val c = of_char c - 48"

definition number :: "string \<Rightarrow> int" where
  "number cs = foldl (\<lambda>n c. 10 * n + digit_val c) 0 cs"

text \<open>
  \<^verbatim>\<open>source >> val\<close> at a digit: the longest run of digits; reaching the end sets \<open>eofbit\<close>, a value out of
  range sets \<open>failbit\<close> and yields the largest \<^verbatim>\<open>int\<close>.
\<close>

definition read_int :: "istream \<Rightarrow> int \<times> istream" where
  "read_int s =
     (let ds = takeWhile is_digit (rest s); cs = dropWhile is_digit (rest s); n = number ds;
          s' = s\<lparr>rest := cs, eofbit := (cs = [])\<rparr>
      in if in_int n then (n, s') else (int_max, s'\<lparr>failbit := True\<rparr>))"

lemma class_disjoint [simp]:
  "is_digit c \<Longrightarrow> \<not> is_alpha c" "is_digit c \<Longrightarrow> \<not> is_space c" "is_alpha c \<Longrightarrow> \<not> is_space c"
  by (auto simp: is_digit_def is_alpha_def is_space_def)

lemma good_simps [simp]:
  "good (s\<lparr>rest := cs\<rparr>) = good s"
  "good (of_string cs)"
  by (simp_all add: good_def of_string_def)

lemma of_string_simps [simp]:
  "rest (of_string cs) = cs" "eofbit (of_string cs) = False" "failbit (of_string cs) = False"
  "(of_string cs)\<lparr>rest := ds\<rparr> = of_string ds"
  by (simp_all add: of_string_def)

lemma get_ch_simps [simp]:
  "good s \<Longrightarrow> rest s = [] \<Longrightarrow> get_ch s = (None, s\<lparr>eofbit := True, failbit := True\<rparr>)"
  "good s \<Longrightarrow> rest s = c # cs \<Longrightarrow> get_ch s = (Some c, s\<lparr>rest := cs\<rparr>)"
  "\<not> good s \<Longrightarrow> get_ch s = (None, s\<lparr>failbit := True\<rparr>)"
  by (simp_all add: get_ch_def)

lemma get_ch_cases:
  assumes "get_ch s = (r, s')"
  obtains (char) c cs where "good s" "rest s = c # cs" "r = Some c" "s' = s\<lparr>rest := cs\<rparr>"
  | (eof) "good s" "rest s = []" "r = None" "s' = s\<lparr>eofbit := True, failbit := True\<rparr>"
  | (bad) "\<not> good s" "r = None" "s' = s\<lparr>failbit := True\<rparr>"
  using assms by (auto simp: get_ch_def split: if_splits list.splits)

text \<open>\<open>get_while\<close> on a good stream, in terms of the characters.\<close>

lemma get_while_good:
  assumes "good s"
  shows "get_while p ch s =
    (case dropWhile p (rest s) of
       [] \<Rightarrow> (rest s, last (ch # rest s), s\<lparr>rest := [], eofbit := True, failbit := True\<rparr>)
     | c # cs \<Rightarrow> (takeWhile p (rest s), c, s\<lparr>rest := cs\<rparr>))"
  using assms
proof (induction "rest s" arbitrary: s ch)
  case Nil
  then show ?case by (subst get_while.simps) simp
next
  case (Cons c cs)
  show ?case
  proof (cases "p c")
    case True
    have "get_while p c (s\<lparr>rest := cs\<rparr>) =
      (case dropWhile p cs of
         [] \<Rightarrow> (cs, last (c # cs), s\<lparr>rest := [], eofbit := True, failbit := True\<rparr>)
       | c' # cs' \<Rightarrow> (takeWhile p cs, c', s\<lparr>rest := cs'\<rparr>))"
      using Cons.hyps(1) [of "s\<lparr>rest := cs\<rparr>" c] Cons.prems
      by (cases "dropWhile p cs") (simp_all del: dropWhile_eq_Nil_conv)
    then show ?thesis
      using Cons.hyps(2) [symmetric] Cons.prems True
      by (subst get_while.simps, cases "dropWhile p cs") (simp_all del: dropWhile_eq_Nil_conv)
  next
    case False
    then show ?thesis
      using Cons.hyps(2) [symmetric] Cons.prems by (subst get_while.simps) simp
  qed
qed

lemma putback_ch_simps [simp]:
  "good s \<Longrightarrow> putback_ch c s = s\<lparr>rest := c # rest s\<rparr>"
  "failbit s \<Longrightarrow> putback_ch c s = s\<lparr>eofbit := False\<rparr>"
  by (simp_all add: good_def putback_ch_def)

text \<open>\<open>get_while\<close> extracts at least one character unless it fails.\<close>

lemma get_while_rest:
  "get_while p ch s = (cs, ch', s') \<Longrightarrow> length (rest s') \<le> length (rest s) \<and>
     (\<not> failbit s' \<longrightarrow> length (rest s') < length (rest s))"
proof (induction p ch s arbitrary: cs rule: get_while.induct)
  case (1 p ch s)
  show ?case
  proof (cases "get_ch s")
    case (Pair r s1)
    with 1 show ?thesis
      by (auto simp: get_while.simps [of p ch s] get_ch_def split: if_splits list.splits prod.splits)
  qed
qed

lemma putback_ch_rest:
  "length (rest (putback_ch c s)) \<le> Suc (length (rest s))"
  "\<not> good s \<Longrightarrow> eofbit s \<Longrightarrow> failbit s \<Longrightarrow> length (rest (putback_ch c s)) = length (rest s)"
  by (simp_all add: putback_ch_def)

section \<open>Decimal numerals\<close>

definition digit :: "nat \<Rightarrow> char" where
  "digit d = ''0123456789'' ! d"

fun show_nat :: "nat \<Rightarrow> string" where
  "show_nat n = (if n < 10 then [digit n] else show_nat (n div 10) @ [digit (n mod 10)])"

declare show_nat.simps [simp del]

lemma digit_cases: "d < 10 \<Longrightarrow> is_digit (digit d) \<and> digit_val (digit d) = int d"
proof -
  assume "d < 10"
  then have "d \<in> {0, 1, 2, 3, 4, 5, 6, 7, 8, 9}" by auto
  then show ?thesis
    by (auto simp: digit_def is_digit_def digit_val_def)
qed

lemma show_nat_digits: "set (show_nat n) \<subseteq> Collect is_digit \<and> show_nat n \<noteq> [] \<and> number (show_nat n) = int n"
proof (induction n rule: show_nat.induct)
  case (1 n)
  show ?case
  proof (cases "n < 10")
    case True
    then show ?thesis
      using digit_cases [of n] by (simp add: show_nat.simps [of n] number_def)
  next
    case False
    have "int n = 10 * int (n div 10) + int (n mod 10)"
      by (metis mult_div_mod_eq of_nat_add of_nat_mult of_nat_numeral)
    then show ?thesis
      using False 1 digit_cases [of "n mod 10"] by (simp add: show_nat.simps [of n] number_def)
  qed
qed

definition show_int :: "int \<Rightarrow> string" where
  "show_int i = (if i < 0 then CHR ''-'' # show_nat (nat (- i)) else show_nat (nat i))"

section \<open>Streams of tokens with one token of push-back\<close>

text \<open>
  The contract: \<open>view\<close> is what a stream shows, the token pushed back (if any) and the state of the source
  behind it; \<open>fetch\<close> reads a token from that state.
\<close>

locale token_stream =
  fixes get :: "'s \<Rightarrow> 'e + ('t \<times> 's)"
    and putback :: "'t \<Rightarrow> 's \<Rightarrow> 'e + 's"
    and view :: "'s \<Rightarrow> 't option \<times> 'v"
    and fetch :: "'v \<Rightarrow> 'e + ('t \<times> 'v)"
    and full_error :: 'e
  assumes get_full: "view s = (Some t, v) \<Longrightarrow> \<exists>s'. get s = Inr (t, s') \<and> view s' = (None, v)"
    and get_ok: "view s = (None, v) \<Longrightarrow> fetch v = Inr (t, v') \<Longrightarrow>
      \<exists>s'. get s = Inr (t, s') \<and> view s' = (None, v')"
    and get_error: "view s = (None, v) \<Longrightarrow> fetch v = Inl e \<Longrightarrow> get s = Inl e"
    and putback_empty: "view s = (None, v) \<Longrightarrow> \<exists>s'. putback t s = Inr s' \<and> view s' = (Some t, v)"
    and putback_full: "view s = (Some t', v) \<Longrightarrow> putback t s = Inl full_error"
begin

text \<open>What is put back is what the next \<open>get\<close> returns, and the stream behind it is untouched.\<close>

lemma putback_get:
  assumes "view s = (None, v)" and "putback t s = Inr s1"
  shows "\<exists>s2. get s1 = Inr (t, s2) \<and> view s2 = view s"
  using assms putback_empty [of s v t] get_full [of s1 t v] by auto

text \<open>A token that is read and put back is read again: reading ahead loses nothing.\<close>

lemma get_putback_get:
  assumes "get s = Inr (t, s1)"
  shows "\<exists>s2 s3. putback t s1 = Inr s2 \<and> get s2 = Inr (t, s3) \<and> view s3 = view s1"
proof -
  obtain v where v: "view s1 = (None, v)"
    using assms get_full [of s] get_ok [of s] get_error [of s]
    by (cases "view s"; cases "fst (view s)"; cases "fetch (snd (view s))") fastforce+
  then obtain s2 where s2: "putback t s1 = Inr s2" "view s2 = (Some t, v)"
    using putback_empty by blast
  with v show ?thesis
    using get_full [OF s2(2)] by auto
qed

text \<open>The slot holds one token.\<close>

lemma putback_twice:
  assumes "putback t s = Inr s1"
  shows "putback t' s1 = Inl full_error"
proof -
  obtain v where "view s = (None, v)"
    using assms putback_full [of s] by (cases "view s"; cases "fst (view s)") auto
  then have "view s1 = (Some t, v)"
    using assms putback_empty [of s v t] by fastforce
  then show ?thesis by (rule putback_full)
qed

end

end
