(* ===== verification/PunyPy_Scanner.thy ===== *)
theory PunyPy_Scanner
  imports Input_Stream
begin

text \<open>
  \<^verbatim>\<open>Parsers/Punypy-parser\<close>: tokens (\<^verbatim>\<open>Token.h\<close>) and the scanner (\<^verbatim>\<open>Scanner.h\<close>, \<^verbatim>\<open>Scanner.cpp\<close>).
  The scanner's state is the source stream and a one-token buffer; it is an interpretation of the
  \<open>token_stream\<close> contract.
\<close>

section \<open>Tokens\<close>

datatype kind =
    KDef | KName | KInt | KLParen | KRParen | KPlus | KMinus | KColon | KComma | KEquals | KIndent | KEof

datatype variant = VChar char | VInt int | VStr string

record token =
  kind :: kind
  val :: variant

text \<open>The exceptions of the parser, the analyser and the interpreter, and undefined behaviour.\<close>

datatype perror =
    Bad_token
  | Invalid_token
  | Invalid_char
  | Bad_production
  | Bad_declaration
  | Full_buffer
  | Bad_variant
  | Fault fault

text \<open>The character that compares equal to \<^verbatim>\<open>eof()\<close> where \<^verbatim>\<open>char\<close> is signed.\<close>

definition byte_eof :: char where
  "byte_eof = CHR 0xFF"

definition make_kind :: "char \<Rightarrow> perror + kind" where
  "make_kind ch =
     (if ch = CHR ''('' then Inr KLParen
      else if ch = CHR '')'' then Inr KRParen
      else if ch = CHR ''+'' then Inr KPlus
      else if ch = CHR ''-'' then Inr KMinus
      else if ch = CHR '':'' then Inr KColon
      else if ch = CHR '','' then Inr KComma
      else if ch = CHR ''='' then Inr KEquals
      else if is_space ch then Inr KIndent
      else Inl Invalid_char)"

definition kind_token :: "kind \<Rightarrow> token" where
  "kind_token k = \<lparr>kind = k, val = VInt 0\<rparr>"

definition string_token :: "kind \<Rightarrow> string \<Rightarrow> token" where
  "string_token k v = \<lparr>kind = k, val = VStr v\<rparr>"

definition name_token :: "string \<Rightarrow> token" where
  "name_token v = \<lparr>kind = KName, val = VStr v\<rparr>"

definition char_token :: "char \<Rightarrow> perror + token" where
  "char_token ch = bnd (make_kind ch) (\<lambda>k. Inr \<lparr>kind = k, val = VChar ch\<rparr>)"

definition int_token :: "int \<Rightarrow> token" where
  "int_token i = \<lparr>kind = KInt, val = VInt i\<rparr>"

text \<open>\<^verbatim>\<open>std::get\<close> of the wrong alternative throws through \<^verbatim>\<open>noexcept\<close>, which ends the program.\<close>

definition int_val :: "token \<Rightarrow> perror + int" where
  "int_val t = (case val t of VInt i \<Rightarrow> Inr i | _ \<Rightarrow> Inl Bad_variant)"

definition str_val :: "token \<Rightarrow> perror + string" where
  "str_val t = (case val t of VStr v \<Rightarrow> Inr v | _ \<Rightarrow> Inl Bad_variant)"

section \<open>The scanner\<close>

record scanner =
  source :: istream
  full :: bool
  buffer :: token

definition new_scanner :: "istream \<Rightarrow> scanner" where
  "new_scanner src = \<lparr>source = src, full = False, buffer = int_token 0\<rparr>"

text \<open>\<^verbatim>\<open>while ((ch = source_.peek()) != '\n' && std::isspace(ch)) source_.ignore();\<close>\<close>

function skip_blanks :: "istream \<Rightarrow> istream" where
  "skip_blanks s =
     (case peek_ch s of
        (None, s') \<Rightarrow> s'
      | (Some c, s') \<Rightarrow>
          if c \<noteq> newline \<and> is_space c then skip_blanks (s'\<lparr>rest := tl (rest s')\<rparr>) else s')"
  by pat_completeness auto
termination
  by (relation "measure (\<lambda>s. length (rest s))")
    (auto simp: peek_ch_def split: if_splits list.splits)

declare skip_blanks.simps [simp del]

lemma skip_blanks_good:
  assumes "good s"
  shows "skip_blanks s =
    (let cs = dropWhile (\<lambda>c. c \<noteq> newline \<and> is_space c) (rest s)
     in s\<lparr>rest := cs, eofbit := (cs = [])\<rparr>)"
  using assms
proof (induction "rest s" arbitrary: s)
  case Nil
  then show ?case by (subst skip_blanks.simps) (simp add: peek_ch_def good_def)
next
  case (Cons c cs)
  show ?case
  proof (cases "c \<noteq> newline \<and> is_space c")
    case True
    then show ?thesis
      using Cons.hyps(1) [of "s\<lparr>rest := cs\<rparr>"] Cons.hyps(2) [symmetric] Cons.prems
      by (subst skip_blanks.simps) (simp add: peek_ch_def Let_def)
  next
    case False
    then show ?thesis
      using Cons.hyps(2) [symmetric] Cons.prems
      by (subst skip_blanks.simps) (auto simp: peek_ch_def good_def Let_def)
  qed
qed

definition is_name_char :: "char \<Rightarrow> bool" where
  "is_name_char ch \<longleftrightarrow> is_alpha ch \<or> is_digit ch \<or> ch = CHR ''_''"

lemma get_ch_Some:
  "get_ch src = (Some c, s) \<Longrightarrow> good src \<and> rest src = c # rest s \<and> s = src\<lparr>rest := rest s\<rparr> \<and> good s"
  by (auto simp: get_ch_def split: if_splits list.splits)

lemma putback_length:
  "length (rest (putback_ch c s)) = (if failbit s then length (rest s) else Suc (length (rest s)))"
  by (simp add: putback_ch_def)

text \<open>
  \<^verbatim>\<open>Scanner::get\<close> on an empty buffer. \<^verbatim>\<open>ch\<close> is uninitialised until the first \<^verbatim>\<open>source_.get(ch)\<close> succeeds,
  and the code looks only at \<^verbatim>\<open>eof()\<close> before the \<^verbatim>\<open>switch\<close> on it.
\<close>

function (sequential) scan :: "istream \<Rightarrow> perror + (token \<times> istream)" where
  "scan src =
     (case get_ch src of (r, s) \<Rightarrow>
      if eofbit s then Inr (kind_token KEof, s)
      else (case r of
        None \<Rightarrow> Inl (Fault Uninitialised)
      | Some ch \<Rightarrow>
          if ch \<in> set ''()+-:,='' then bnd (char_token ch) (\<lambda>t. Inr (t, s))
          else if is_digit ch then
            (case read_int (putback_ch ch s) of (v, s1) \<Rightarrow> Inr (int_token v, s1))
          else if ch = newline then
            (case get_while (\<lambda>c. c = newline) ch s of (_, ch1, s1) \<Rightarrow>
               if failbit s1 then Inr (kind_token KEof, s1)
               else if is_space ch1 then
                 (case get_while is_space ch1 s1 of (cs, ch2, s2) \<Rightarrow>
                    Inr (string_token KIndent (ch1 # cs), putback_ch ch2 s2))
               else scan (putback_ch ch1 s1))
          else if ch = byte_eof then Inr (kind_token KEof, s)
          else if is_alpha ch then
            (case get_while is_name_char ch s of (cs, ch1, s1) \<Rightarrow>
               Inr (if ch # cs = ''def'' then kind_token KDef else name_token (ch # cs),
                    putback_ch ch1 s1))
          else if is_space ch then scan (skip_blanks s)
          else Inl Invalid_token))"
  by pat_completeness auto
termination
proof (relation "measure (\<lambda>s. length (rest s))", goal_cases)
  case (2 src r s ch x y ch1 s1)
  have g: "get_ch src = (Some ch, s)" using 2 by simp
  have "length (rest s1) < length (rest s)"
    using get_while_rest [of "\<lambda>c. c = newline" ch s x ch1 s1] 2 by auto
  then show ?case using 2 get_ch_Some [OF g] by (simp add: putback_length)
next
  case (3 src r s ch)
  have g: "get_ch src = (Some ch, s)" using 3 by simp
  have "good s" "length (rest s) < length (rest src)"
    using get_ch_Some [OF g] by simp_all
  then show ?case
    using length_dropWhile_le [of "\<lambda>c. c \<noteq> newline \<and> is_space c" "rest s"]
    by (simp add: skip_blanks_good Let_def)
qed simp

declare scan.simps [simp del]

definition scanner_get :: "scanner \<Rightarrow> perror + (token \<times> scanner)" where
  "scanner_get sc =
     (if full sc then Inr (buffer sc, sc\<lparr>full := False\<rparr>)
      else bnd (scan (source sc)) (\<lambda>(t, src). Inr (t, sc\<lparr>source := src\<rparr>)))"

definition scanner_peek :: "scanner \<Rightarrow> perror + (token \<times> scanner)" where
  "scanner_peek sc =
     (if full sc then Inr (buffer sc, sc)
      else bnd (scanner_get sc) (\<lambda>(t, sc1). Inr (t, sc1\<lparr>full := True, buffer := t\<rparr>)))"

definition scanner_putback :: "token \<Rightarrow> scanner \<Rightarrow> perror + scanner" where
  "scanner_putback t sc =
     (if full sc then Inl Full_buffer else Inr (sc\<lparr>buffer := t, full := True\<rparr>))"

text \<open>
  \<^verbatim>\<open>ignore\<close> reads until it finds the token; at the end of the input it never does. The fuel is the number of
  tokens read.
\<close>

fun ignore_loop :: "nat \<Rightarrow> (token \<Rightarrow> bool) \<Rightarrow> scanner \<Rightarrow> perror + scanner" where
  "ignore_loop 0 p sc = Inl (Fault Diverges)"
| "ignore_loop (Suc fuel) p sc =
     bnd (scanner_get sc) (\<lambda>(t, sc1). if p t then Inr sc1 else ignore_loop fuel p sc1)"

definition ignore_token :: "nat \<Rightarrow> token \<Rightarrow> scanner \<Rightarrow> perror + scanner" where
  "ignore_token fuel t sc =
     (if full sc \<and> t = buffer sc then Inr (sc\<lparr>full := False\<rparr>)
      else ignore_loop fuel (\<lambda>tok. tok = t) (sc\<lparr>full := False\<rparr>))"

definition ignore_kind :: "nat \<Rightarrow> kind \<Rightarrow> scanner \<Rightarrow> perror + scanner" where
  "ignore_kind fuel k sc =
     (if full sc \<and> kind (buffer sc) = k then Inr (sc\<lparr>full := False\<rparr>)
      else ignore_loop fuel (\<lambda>tok. kind tok = k) (sc\<lparr>full := False\<rparr>))"

definition scanner_good :: "scanner \<Rightarrow> bool" where
  "scanner_good sc \<longleftrightarrow> good (source sc) \<and> \<not> failbit (source sc)"

section \<open>The scanner as a lexer\<close>

text \<open>
  The reference: the longest-match lexer on the characters left. \<open>ended\<close> is the stream after the end was
  read, \<open>behind r\<close> the stream after a word or an indentation followed by \<open>r\<close>: where nothing follows, the
  failed \<^verbatim>\<open>get\<close> has set \<open>failbit\<close> and the \<^verbatim>\<open>putback\<close> after it has cleared \<open>eofbit\<close>.
\<close>

definition ended :: istream where
  "ended = \<lparr>rest = [], eofbit = True, failbit = True\<rparr>"

definition behind :: "string \<Rightarrow> istream" where
  "behind r = \<lparr>rest = r, eofbit = False, failbit = (r = [])\<rparr>"

function (sequential) lexer :: "string \<Rightarrow> perror + (token \<times> istream)" where
  "lexer [] = Inr (kind_token KEof, ended)"
| "lexer (ch # cs) =
     (if ch \<in> set ''()+-:,='' then bnd (char_token ch) (\<lambda>t. Inr (t, of_string cs))
      else if is_digit ch then
        (let n = number (takeWhile is_digit (ch # cs)); r = dropWhile is_digit cs
         in Inr (int_token (if in_int n then n else int_max),
              \<lparr>rest = r, eofbit = (r = []), failbit = (\<not> in_int n)\<rparr>))
      else if ch = newline then
        (case dropWhile (\<lambda>c. c = newline) cs of
           [] \<Rightarrow> Inr (kind_token KEof, ended)
         | c # r \<Rightarrow> if is_space c
             then Inr (string_token KIndent (takeWhile is_space (c # r)), behind (dropWhile is_space r))
             else lexer (c # r))
      else if ch = byte_eof then Inr (kind_token KEof, of_string cs)
      else if is_alpha ch then
        (let w = takeWhile is_name_char (ch # cs)
         in Inr (if w = ''def'' then kind_token KDef else name_token w, behind (dropWhile is_name_char cs)))
      else if is_space ch then lexer (dropWhile (\<lambda>c. c \<noteq> newline \<and> is_space c) cs)
      else Inl Invalid_token)"
  by pat_completeness auto
termination
proof (relation "measure length", goal_cases)
  case (2 ch cs c r)
  then show ?case
    using length_dropWhile_le [of "\<lambda>c. c = newline" cs] by simp
next
  case (3 ch cs)
  then show ?case
    using length_dropWhile_le [of "\<lambda>c. c \<noteq> newline \<and> is_space c" cs] by simp
qed simp

declare lexer.simps(2) [simp del]

lemma good_of_string: "good src \<longleftrightarrow> src = of_string (rest src)"
  by (cases src) (auto simp: good_def of_string_def)

lemma of_string_end [simp]: "of_string []\<lparr>eofbit := True, failbit := True\<rparr> = ended"
  by (simp add: of_string_def ended_def)

lemma ended_simps [simp]: "failbit ended" "eofbit ended" "rest ended = []" "\<not> good ended"
  by (simp_all add: ended_def good_def)

lemma behind_simps [simp]:
  "behind (c # r) = of_string (c # r)"
  "putback_ch c (of_string r) = of_string (c # r)"
  "putback_ch c ended = behind []"
  by (simp_all add: behind_def of_string_def putback_ch_def ended_def)

lemma scan_ended: "eofbit src \<Longrightarrow> scan src = Inr (kind_token KEof, src\<lparr>failbit := True\<rparr>)"
  by (simp add: scan.simps [of src] good_def)

lemma scan_stuck: "\<not> eofbit src \<Longrightarrow> failbit src \<Longrightarrow> scan src = Inl (Fault Uninitialised)"
  by (simp add: scan.simps [of src] good_def)

lemma get_word:
  "get_while p ch (of_string cs) = (ws, ch', s') \<Longrightarrow> ws = takeWhile p cs \<and>
     putback_ch ch' s' = behind (dropWhile p cs)"
proof -
  assume w: "get_while p ch (of_string cs) = (ws, ch', s')"
  show "ws = takeWhile p cs \<and> putback_ch ch' s' = behind (dropWhile p cs)"
  proof (cases "dropWhile p cs")
    case Nil
    then have "takeWhile p cs = cs" by (metis takeWhile_dropWhile_id append_Nil2)
    moreover have "get_while p ch (of_string cs) =
        (cs, last (ch # cs), (of_string cs)\<lparr>rest := [], eofbit := True, failbit := True\<rparr>)"
      using Nil by (simp add: get_while_good del: dropWhile_eq_Nil_conv)
    then have "ws = cs" "s' = ended"
      using w by auto
    ultimately show ?thesis
      using Nil by (simp del: dropWhile_eq_Nil_conv takeWhile_eq_all_conv)
  next
    case (Cons c r)
    then have "ws = takeWhile p cs" "ch' = c" "s' = of_string r"
      using w by (simp_all add: get_while_good)
    then show ?thesis
      using Cons by simp
  qed
qed

lemma newline_class [simp]:
  "\<not> is_digit newline" "\<not> is_alpha newline" "is_space newline"
  "newline \<noteq> CHR ''(''" "newline \<noteq> CHR '')''" "newline \<noteq> CHR ''+''" "newline \<noteq> CHR ''-''"
  "newline \<noteq> CHR '':''" "newline \<noteq> CHR '',''" "newline \<noteq> CHR ''=''"
  by (simp_all add: newline_def is_digit_def is_alpha_def is_space_def)

lemma scan_blanks:
  "scan (skip_blanks (of_string cs)) = scan (of_string (dropWhile (\<lambda>c. c \<noteq> newline \<and> is_space c) cs))"
  (is "_ = scan (of_string ?ds)")
proof (cases "?ds = []")
  case True
  then have "skip_blanks (of_string cs) = \<lparr>rest = [], eofbit = True, failbit = False\<rparr>"
    using skip_blanks_good [of "of_string cs"] by (simp add: of_string_def good_def)
  then have "scan (skip_blanks (of_string cs)) = Inr (kind_token KEof, ended)"
    by (simp add: scan_ended ended_def)
  moreover have "get_ch (of_string []) = (None, ended)"
    by (simp add: get_ch_def good_def of_string_def ended_def)
  ultimately show ?thesis
    unfolding True by (simp add: scan.simps [of "of_string []"])
next
  case False
  then have "skip_blanks (of_string cs) = of_string ?ds"
    using skip_blanks_good [of "of_string cs"] by (simp add: Let_def of_string_def good_def)
  then show ?thesis by simp
qed

lemma read_int_of_string:
  "read_int (of_string cs) = (let n = number (takeWhile is_digit cs); r = dropWhile is_digit cs
     in (if in_int n then n else int_max, \<lparr>rest = r, eofbit = (r = []), failbit = (\<not> in_int n)\<rparr>))"
  by (simp add: read_int_def Let_def of_string_def)

lemma scan_lex: "scan (of_string cs) = lexer cs"
proof (induction cs rule: lexer.induct)
  case 1
  have "get_ch (of_string []) = (None, ended)"
    by (simp add: get_ch_def good_def of_string_def ended_def)
  then show ?case
    by (simp add: scan.simps [of "of_string []"] ended_def)
next
  case (2 ch cs)
  have g: "get_ch (of_string (ch # cs)) = (Some ch, of_string cs)" by simp
  note step = scan.simps [of "of_string (ch # cs)"] lexer.simps(2) [of ch cs]
  consider (nl) "ch = newline" | (alpha) "is_alpha ch" | (space) "ch \<noteq> newline" "is_space ch"
    | (rest) "ch \<noteq> newline" "\<not> is_alpha ch" "\<not> is_space ch"
    by blast
  then show ?case
  proof cases
    case nl
    show ?thesis
    proof (cases "dropWhile (\<lambda>c. c = newline) cs")
      case Nil
      then have "get_while (\<lambda>c. c = newline) newline (of_string cs) = (cs, last (newline # cs), ended)"
        by (simp add: get_while_good del: dropWhile_eq_Nil_conv)
      then show ?thesis
        using nl Nil unfolding step by (simp del: dropWhile_eq_Nil_conv)
    next
      case (Cons c r)
      obtain ws ch' s' where w: "get_while is_space c (of_string r) = (ws, ch', s')"
        by (metis prod_cases3)
      have "get_while (\<lambda>c. c = newline) newline (of_string cs)
          = (takeWhile (\<lambda>c. c = newline) cs, c, of_string r)"
        using Cons by (simp add: get_while_good)
      then show ?thesis
        using nl Cons w get_word [OF w] "2.IH"(1) [of c r] unfolding step
        by auto
    qed
  next
    case alpha
    obtain ws ch' s' where w: "get_while is_name_char ch (of_string cs) = (ws, ch', s')"
      by (metis prod_cases3)
    then show ?thesis
      using alpha get_word [OF w] unfolding step by (auto simp: is_name_char_def Let_def)
  next
    case space
    let ?ds = "dropWhile (\<lambda>c. c \<noteq> newline \<and> is_space c) cs"
    have "scan (of_string ?ds) = lexer ?ds" if "ch \<notin> set ''()+-:,=''" "\<not> is_digit ch"
        "ch \<noteq> byte_eof" "\<not> is_alpha ch"
      using "2.IH"(2) space that by simp
    then show ?thesis
      using space by (auto simp: step scan_blanks)
  next
    case rest
    then show ?thesis
      unfolding step by (auto simp: read_int_of_string Let_def)
  qed
qed

text \<open>What every token satisfies: progress, the right payload, and nothing invented.\<close>

definition token_ok :: "token \<Rightarrow> bool" where
  "token_ok t \<longleftrightarrow> (kind t \<in> {KName, KIndent} \<longrightarrow> (\<exists>v. val t = VStr v)) \<and>
     (kind t = KInt \<longrightarrow> (\<exists>i. val t = VInt i \<and> in_int i))"

lemma number_nonneg: "set ds \<subseteq> Collect is_digit \<Longrightarrow> 0 \<le> number ds"
  by (induction ds rule: rev_induct) (auto simp: number_def digit_val_def is_digit_def)

lemma set_dropWhile_le: "set (dropWhile p cs) \<subseteq> set cs"
  by (meson set_dropWhileD subsetI)

definition lex_ok :: "string \<Rightarrow> perror + (token \<times> istream) \<Rightarrow> bool" where
  "lex_ok cs r \<longleftrightarrow> (case r of
     Inl e \<Rightarrow> e = Invalid_token
   | Inr (t, src) \<Rightarrow> token_ok t \<and> set (rest src) \<subseteq> set cs \<and> length (rest src) \<le> length cs \<and>
       (kind t \<noteq> KEof \<longrightarrow> length (rest src) < length cs) \<and>
       (kind t = KEof \<longrightarrow> byte_eof \<notin> set cs \<longrightarrow> \<not> good src))"

lemma lex_ok_mono:
  "lex_ok ds r \<Longrightarrow> set ds \<subseteq> set cs \<Longrightarrow> length ds \<le> length cs \<Longrightarrow> lex_ok cs r"
  by (auto simp: lex_ok_def split: sum.splits)

lemma lex_facts: "lex_ok cs (lexer cs)"
proof (induction cs rule: lexer.induct)
  case 1
  show ?case by (simp add: lex_ok_def token_ok_def kind_token_def ended_def good_def)
next
  case (2 ch cs)
  note step = lexer.simps(2) [of ch cs]
  consider (char) "ch \<in> set ''()+-:,=''" | (digit) "is_digit ch" "ch \<notin> set ''()+-:,=''" | (nl) "ch = newline"
    | (alpha) "is_alpha ch" "ch \<notin> set ''()+-:,=''"
    | (space) "ch \<noteq> newline" "is_space ch" "ch \<notin> set ''()+-:,=''"
    | (other) "ch \<noteq> newline" "\<not> is_alpha ch" "\<not> is_space ch" "\<not> is_digit ch" "ch \<notin> set ''()+-:,=''"
    by blast
  then show ?case
  proof cases
    case char
    then show ?thesis
      by (auto simp: step lex_ok_def token_ok_def char_token_def make_kind_def)
  next
    case digit
    then show ?thesis
      using number_nonneg [of "takeWhile is_digit (ch # cs)"] set_dropWhile_le [of is_digit cs]
        length_dropWhile_le [of is_digit cs]
      by (auto simp: step lex_ok_def token_ok_def Let_def int_token_def in_int_def int_min_def int_max_def
          dest: set_takeWhileD)
  next
    case nl
    show ?thesis
    proof (cases "dropWhile (\<lambda>c. c = newline) cs")
      case Nil
      then show ?thesis
        using nl unfolding step by (simp add: lex_ok_def token_ok_def kind_token_def ended_def good_def
            del: dropWhile_eq_Nil_conv)
    next
      case (Cons c r)
      have sub: "set (c # r) \<subseteq> set cs" "length (c # r) \<le> length cs"
        using set_dropWhile_le [of "\<lambda>c. c = newline" cs] length_dropWhile_le [of "\<lambda>c. c = newline" cs]
        unfolding Cons by simp_all
      show ?thesis
      proof (cases "is_space c")
        case True
        then show ?thesis
          using nl Cons sub set_dropWhile_le [of is_space r] length_dropWhile_le [of is_space r] unfolding step
          by (auto simp: lex_ok_def token_ok_def string_token_def behind_def)
      next
        case False
        then have "lex_ok (c # r) (lexer (c # r))"
          using "2.IH"(1) [of c r] nl Cons by simp
        then have "lex_ok (newline # cs) (lexer (c # r))"
          by (rule lex_ok_mono) (use sub in auto)
        then show ?thesis
          using nl Cons False unfolding step by simp
      qed
    qed
  next
    case alpha
    then show ?thesis
      using set_dropWhile_le [of is_name_char cs] length_dropWhile_le [of is_name_char cs]
      by (auto simp: step lex_ok_def token_ok_def Let_def name_token_def kind_token_def behind_def)
  next
    case space
    show ?thesis
    proof (cases "is_digit ch \<or> ch = byte_eof \<or> is_alpha ch")
      case True
      with space have "ch = byte_eof" by auto
      then show ?thesis
        using space unfolding step by (auto simp: lex_ok_def token_ok_def kind_token_def)
    next
      case False
      let ?ds = "dropWhile (\<lambda>c. c \<noteq> newline \<and> is_space c) cs"
      have "lex_ok ?ds (lexer ?ds)"
        using "2.IH"(2) space False by simp
      then have "lex_ok (ch # cs) (lexer ?ds)"
        by (rule lex_ok_mono) (auto simp: le_SucI length_dropWhile_le dest: set_dropWhileD)
      then show ?thesis
        using space False unfolding step by simp
    qed
  next
    case other
    then show ?thesis
      by (auto simp: step lex_ok_def token_ok_def kind_token_def)
  qed
qed

lemma scan_facts:
  assumes "scan src = Inr (t, src')"
  shows "token_ok t" and "set (rest src') \<subseteq> set (rest src)" and "length (rest src') \<le> length (rest src)"
    and "kind t \<noteq> KEof \<Longrightarrow> length (rest src') < length (rest src)"
    and "kind t = KEof \<Longrightarrow> byte_eof \<notin> set (rest src) \<Longrightarrow> \<not> good src'"
proof -
  have "lex_ok (rest src) (Inr (t, src')) \<or> (kind t = KEof \<and> token_ok t \<and> rest src' = rest src \<and> \<not> good src')"
  proof (cases "good src")
    case True
    then show ?thesis
      using assms scan_lex lex_facts good_of_string by metis
  next
    case False
    then show ?thesis
      using assms scan_ended [of src] scan_stuck [of src]
      by (cases "eofbit src") (auto simp: good_def kind_token_def token_ok_def)
  qed
  then show "token_ok t" and "set (rest src') \<subseteq> set (rest src)" and "length (rest src') \<le> length (rest src)"
    and "kind t \<noteq> KEof \<Longrightarrow> length (rest src') < length (rest src)"
    and "kind t = KEof \<Longrightarrow> byte_eof \<notin> set (rest src) \<Longrightarrow> \<not> good src'"
    by (auto simp: lex_ok_def)
qed

lemma scan_error: "scan src = Inl e \<Longrightarrow> e = Invalid_token \<or> e = Fault Uninitialised"
proof (cases "good src")
  case True
  assume "scan src = Inl e"
  then have "lexer (rest src) = Inl e"
    using True scan_lex good_of_string by metis
  then show ?thesis
    using lex_facts [of "rest src"] by (simp add: lex_ok_def)
next
  case False
  assume "scan src = Inl e"
  then show ?thesis
    using False scan_ended [of src] scan_stuck [of src] by (cases "eofbit src") (auto simp: good_def)
qed

section \<open>The scanner's size, and its contract\<close>

text \<open>The size of a scanner: what is left of the input, and the token in the buffer.\<close>

instantiation scanner_ext :: (type) size
begin

definition size_scanner_ext :: "'a scanner_ext \<Rightarrow> nat" where
  "size_scanner_ext sc =
     2 * length (rest (source sc)) + (if full sc \<and> kind (buffer sc) \<noteq> KEof then 1 else 0)"

instance ..

end

lemma get_less:
  assumes "scanner_get sc = Inr (t, sc')"
  shows "size sc' \<le> size sc" and "kind t \<noteq> KEof \<Longrightarrow> size sc' < size sc" and "\<not> full sc'"
proof -
  have "size sc' \<le> size sc \<and> (kind t \<noteq> KEof \<longrightarrow> size sc' < size sc) \<and> \<not> full sc'"
    using assms scan_facts(3,4) [of "source sc"]
    by (fastforce simp: scanner_get_def size_scanner_ext_def split: if_splits)
  then show "size sc' \<le> size sc" and "kind t \<noteq> KEof \<Longrightarrow> size sc' < size sc" and "\<not> full sc'"
    by simp_all
qed

lemma peek_le:
  assumes "scanner_peek sc = Inr (t, sc')"
  shows "size sc' \<le> size sc" and "full sc'" and "buffer sc' = t"
proof -
  have "size sc' \<le> size sc \<and> full sc' \<and> buffer sc' = t"
    using assms scan_facts(3,4) [of "source sc"]
    by (fastforce simp: scanner_peek_def scanner_get_def size_scanner_ext_def split: if_splits)
  then show "size sc' \<le> size sc" and "full sc'" and "buffer sc' = t"
    by simp_all
qed

lemma ignore_peeked [simp]:
  "full sc \<Longrightarrow> kind (buffer sc) = k \<Longrightarrow> ignore_kind fuel k sc = Inr (sc\<lparr>full := False\<rparr>)"
  by (simp add: ignore_kind_def)

definition scanner_view :: "scanner \<Rightarrow> token option \<times> istream" where
  "scanner_view sc = (if full sc then Some (buffer sc) else None, source sc)"

interpretation sc: token_stream scanner_get scanner_putback scanner_view scan Full_buffer
proof
  fix s t v v' e t'
  show "scanner_view s = (Some t, v) \<Longrightarrow> \<exists>s'. scanner_get s = Inr (t, s') \<and> scanner_view s' = (None, v)"
    by (auto simp: scanner_view_def scanner_get_def split: if_splits)
  show "scanner_view s = (None, v) \<Longrightarrow> scan v = Inr (t, v') \<Longrightarrow>
      \<exists>s'. scanner_get s = Inr (t, s') \<and> scanner_view s' = (None, v')"
    by (auto simp: scanner_view_def scanner_get_def split: if_splits)
  show "scanner_view s = (None, v) \<Longrightarrow> scan v = Inl e \<Longrightarrow> scanner_get s = Inl e"
    by (auto simp: scanner_view_def scanner_get_def split: if_splits)
  show "scanner_view s = (None, v) \<Longrightarrow> \<exists>s'. scanner_putback t s = Inr s' \<and> scanner_view s' = (Some t, v)"
    by (auto simp: scanner_view_def scanner_putback_def split: if_splits)
  show "scanner_view s = (Some t', v) \<Longrightarrow> scanner_putback t s = Inl Full_buffer"
    by (auto simp: scanner_view_def scanner_putback_def split: if_splits)
qed

text \<open>\<^verbatim>\<open>peek\<close> shows the token the next \<^verbatim>\<open>get\<close> returns, and peeking again changes nothing.\<close>

lemma peek_get:
  "scanner_peek sc = Inr (t, sc1) \<Longrightarrow>
     scanner_peek sc1 = Inr (t, sc1) \<and> scanner_get sc1 = Inr (t, sc1\<lparr>full := False\<rparr>)"
  by (auto simp: scanner_peek_def scanner_get_def split: if_splits)

end
