(* ===== verification/PunyPy_Parser.thy ===== *)
theory PunyPy_Parser
  imports PunyPy_Scanner
begin

text \<open>
  \<^verbatim>\<open>Parsers/Punypy-parser\<close>: the productions (\<^verbatim>\<open>Production.h\<close>) and the recursive-descent parser
  (\<^verbatim>\<open>Parser.h\<close>, \<^verbatim>\<open>Parser.cpp\<close>). The parser's only state is its scanner. Every function consumes a token
  before it calls itself again, so they are total: recursion is on the size of the scanner.
\<close>

section \<open>Productions\<close>

datatype expression =
    Int_prod int
  | Var_prod string
  | Plus_prod expression expression

datatype production =
    Expr_prod expression
  | FuncCall_prod string "expression list"
  | FuncDef_prod string "expression list" production
  | Funcbod_prod string "production list"
  | Decl_prod string expression
  | Eof_prod

text \<open>\<^verbatim>\<open>rep()\<close>: how \<^verbatim>\<open>main\<close> prints a production it has parsed.\<close>

fun rep_expr :: "expression \<Rightarrow> string" where
  "rep_expr (Int_prod i) = ''    Int: '' @ show_int i"
| "rep_expr (Var_prod v) = ''    Var: '' @ v"
| "rep_expr (Plus_prod l r) =
     ''  - Plus'' @ newline # ''    '' @ rep_expr l @ newline # ''    '' @ rep_expr r"

definition rep_params :: "expression list \<Rightarrow> string" where
  "rep_params ps =
     ''- Parameters ='' @ newline # concat (map (\<lambda>p. ''    '' @ rep_expr p @ [newline]) ps)"

fun rep :: "production \<Rightarrow> string" where
  "rep (Expr_prod e) = rep_expr e"
| "rep (FuncCall_prod n ps) = ''* Call:'' @ newline # ''  - name = '' @ n @ newline # ''  '' @ rep_params ps"
| "rep (FuncDef_prod n ps body) =
     ''* Function'' @ newline # ''  - name = '' @ n @ newline # ''  '' @ rep_params ps @
     newline # ''  '' @ rep body"
| "rep (Funcbod_prod indent ps) =
     ''- function body'' @ concat (map (\<lambda>p. newline # ''    '' @ indent @ rep p) ps)"
| "rep (Decl_prod n e) =
     ''* Declaration'' @ newline # ''  - name = '' @ n @ newline # ''  - value ='' @ newline # rep_expr e"
| "rep Eof_prod = newline # ''Done.''"

section \<open>The parser\<close>

text \<open>\<^verbatim>\<open>tok = scanner_.get(); if (tok.kind() != k) throw Bad_token\<close>.\<close>

definition expect :: "kind \<Rightarrow> scanner \<Rightarrow> perror + (token \<times> scanner)" where
  "expect k sc =
     bnd (scanner_get sc) (\<lambda>(tok, sc1).
     bnd (guard Bad_token (kind tok = k)) (\<lambda>_. Inr (tok, sc1)))"

text \<open>\<^verbatim>\<open>ignore\<close> is called only on the kind just peeked; one unit of fuel is more than it needs.\<close>

abbreviation ignore :: "kind \<Rightarrow> scanner \<Rightarrow> perror + scanner" where
  "ignore \<equiv> ignore_kind 1"

lemma expect_less:
  "expect k sc = Inr (t, sc') \<Longrightarrow> k \<noteq> KEof \<Longrightarrow> size sc' < size sc"
  using get_less(2) by (auto simp: expect_def)

function (sequential)
  parse_expression :: "scanner \<Rightarrow> perror + (expression \<times> scanner)" and
  parse_expression_name :: "string \<Rightarrow> scanner \<Rightarrow> perror + (expression \<times> scanner)" and
  parse_plus :: "expression \<Rightarrow> scanner \<Rightarrow> perror + (expression \<times> scanner)"
where
  "parse_expression sc =
     bnd (scanner_get sc) (\<lambda>(tok, sc1).
       (case kind tok of
          KName \<Rightarrow> bnd (str_val tok) (\<lambda>v. parse_expression_name v sc1)
        | KInt \<Rightarrow>
            bnd (scanner_peek sc1) (\<lambda>(nx, sc2).
              if kind nx = KPlus then bnd (int_val tok) (\<lambda>i. parse_plus (Int_prod i) sc2)
              else bnd (int_val tok) (\<lambda>i. Inr (Int_prod i, sc2)))
        | _ \<Rightarrow> Inl Bad_token))"
| "parse_expression_name v sc =
     bnd (scanner_peek sc) (\<lambda>(nx, sc1).
       if kind nx = KPlus then parse_plus (Var_prod v) sc1 else Inr (Var_prod v, sc1))"
| "parse_plus left sc =
     bnd (expect KPlus sc) (\<lambda>(_, sc1).
     bnd (parse_expression sc1) (\<lambda>(right, sc2). Inr (Plus_prod left right, sc2)))"
  by pat_completeness auto
termination
proof (relation "measures [case_sum size (case_sum (\<lambda>(v, sc). size sc) (\<lambda>(l, sc). size sc)),
    case_sum (\<lambda>sc. 0) (case_sum (\<lambda>(v, sc). 2) (\<lambda>(l, sc). 1 :: nat))]", goal_cases)
  case (2 sc x tok sc1)
  then show ?case using get_less(2) [of sc tok sc1] by auto
next
  case (3 sc x tok sc1 xa nx sc2)
  then show ?case using get_less(2) [of sc tok sc1] peek_le(1) [of sc1 nx sc2] by auto
next
  case (4 v sc x nx sc1)
  then show ?case using peek_le(1) [of sc nx sc1] by auto
next
  case (5 left sc)
  then show ?case using expect_less by auto
qed simp

declare parse_expression.simps [simp del] parse_expression_name.simps [simp del] parse_plus.simps [simp del]

text \<open>An expression consumes at least a token.\<close>

lemma parse_expression_less:
  "parse_expression sc = Inr (e, sc') \<Longrightarrow> size sc' < size sc"
  "parse_expression_name v sc = Inr (e, sc') \<Longrightarrow> size sc' \<le> size sc"
  "parse_plus l sc = Inr (e, sc') \<Longrightarrow> size sc' < size sc"
proof (induction sc and v sc and l sc arbitrary: e sc' and e sc' and e sc'
    rule: parse_expression_parse_expression_name_parse_plus.induct)
  case (1 sc)
  from "1.prems" obtain tok sc1 where g: "scanner_get sc = Inr (tok, sc1)"
    by (auto simp: parse_expression.simps [of sc])
  have less: "kind tok \<noteq> KEof \<Longrightarrow> size sc1 < size sc" by (rule get_less(2) [OF g])
  show ?case
  proof (cases "kind tok")
    case KName
    then show ?thesis
      using "1.prems" g less "1.IH"(1) [OF g] by (fastforce simp: parse_expression.simps [of sc])
  next
    case KInt
    then obtain nx sc2 where p: "scanner_peek sc1 = Inr (nx, sc2)"
      using "1.prems" g by (auto simp: parse_expression.simps [of sc])
    then show ?thesis
      using KInt "1.prems" g less peek_le(1) [OF p] "1.IH"(2) [OF g _ _ p]
      by (fastforce simp: parse_expression.simps [of sc] split: if_splits)
  qed (use "1.prems" g in \<open>simp_all add: parse_expression.simps [of sc]\<close>)
next
  case (2 v sc)
  from "2.prems" obtain nx sc1 where p: "scanner_peek sc = Inr (nx, sc1)"
    by (auto simp: parse_expression_name.simps [of v sc])
  then show ?case
    using "2.prems" peek_le(1) [OF p] "2.IH" [OF p]
    by (fastforce simp: parse_expression_name.simps [of v sc] split: if_splits)
next
  case (3 left sc)
  from "3.prems" obtain tok sc1 where g: "expect KPlus sc = Inr (tok, sc1)"
    by (auto simp: parse_plus.simps [of left sc])
  then show ?case
    using "3.prems" expect_less [OF g] "3.IH" [OF g] by (fastforce simp: parse_plus.simps [of left sc])
qed


text \<open>
  The loop of \<^verbatim>\<open>parameters()\<close>. After a comma it goes straight to the next expression, so a trailing comma
  is an error.
\<close>

function params_loop :: "expression list \<Rightarrow> scanner \<Rightarrow> perror + (expression list \<times> scanner)" where
  "params_loop params sc =
     bnd (parse_expression sc) (\<lambda>(e, sc1).
     bnd (scanner_peek sc1) (\<lambda>(tok, sc2).
       (case kind tok of
          KComma \<Rightarrow> bnd (ignore KComma sc2) (\<lambda>sc3. params_loop (params @ [e]) sc3)
        | KRParen \<Rightarrow> Inr (params @ [e], sc2)
        | _ \<Rightarrow> Inl Bad_token)))"
  by pat_completeness auto
termination
proof (relation "measure (\<lambda>(ps, sc). size sc)", goal_cases)
  case (2 ps sc x e sc1 y tok sc2 sc3)
  then have p: "scanner_peek sc1 = Inr (tok, sc2)" and e: "parse_expression sc = Inr (e, sc1)"
    by simp_all
  have "size sc3 \<le> size sc2"
    using 2 peek_le(2,3) [OF p] by (auto simp: size_scanner_ext_def)
  then show ?case
    using parse_expression_less(1) [OF e] peek_le(1) [OF p] by simp
qed simp

declare params_loop.simps [simp del]

definition parse_parameters :: "scanner \<Rightarrow> perror + (expression list \<times> scanner)" where
  "parse_parameters sc =
     bnd (scanner_peek sc) (\<lambda>(tok, sc1).
       if kind tok = KRParen then Inr ([], sc1) else params_loop [] sc1)"

definition parse_function_call :: "string \<Rightarrow> scanner \<Rightarrow> perror + (production \<times> scanner)" where
  "parse_function_call name sc =
     bnd (expect KLParen sc) (\<lambda>(_, sc1).
     bnd (parse_parameters sc1) (\<lambda>(params, sc2).
     bnd (expect KRParen sc2) (\<lambda>(_, sc3). Inr (FuncCall_prod name params, sc3))))"

definition parse_declaration :: "string \<Rightarrow> scanner \<Rightarrow> perror + (production \<times> scanner)" where
  "parse_declaration name sc =
     bnd (expect KEquals sc) (\<lambda>(_, sc1).
     bnd (parse_expression sc1) (\<lambda>(e, sc2). Inr (Decl_prod name e, sc2)))"

lemma params_loop_less:
  "params_loop ps sc = Inr (qs, sc') \<Longrightarrow> size sc' < size sc"
proof (induction ps sc rule: params_loop.induct)
  case (1 ps sc)
  from "1.prems" obtain e sc1 tok sc2 where
    e: "parse_expression sc = Inr (e, sc1)" and p: "scanner_peek sc1 = Inr (tok, sc2)"
    by (auto simp: params_loop.simps [of ps sc])
  have less: "size sc2 < size sc"
    using parse_expression_less(1) [OF e] peek_le(1) [OF p] by simp
  show ?case
  proof (cases "kind tok")
    case KComma
    then obtain sc3 where g: "ignore KComma sc2 = Inr sc3" "sc3 = sc2\<lparr>full := False\<rparr>"
      using peek_le(2,3) [OF p] by simp
    then have "size sc3 \<le> size sc2"
      by (simp add: size_scanner_ext_def)
    then show ?thesis
      using "1.prems" "1.IH" [OF e refl p refl KComma g(1)] e p KComma g(1) less
      by (simp add: params_loop.simps [of ps sc])
  next
    case KRParen
    then show ?thesis
      using "1.prems" e p less by (simp add: params_loop.simps [of ps sc])
  qed (use "1.prems" e p in \<open>simp_all add: params_loop.simps [of ps sc]\<close>)
qed

lemma parse_parameters_le: "parse_parameters sc = Inr (ps, sc') \<Longrightarrow> size sc' \<le> size sc"
  using peek_le(1) params_loop_less
  by (fastforce simp: parse_parameters_def split: if_splits)

lemma parse_function_call_less: "parse_function_call name sc = Inr (p, sc') \<Longrightarrow> size sc' < size sc"
proof -
  assume "parse_function_call name sc = Inr (p, sc')"
  then obtain t sc1 ps sc2 u where "expect KLParen sc = Inr (t, sc1)" "parse_parameters sc1 = Inr (ps, sc2)"
    "expect KRParen sc2 = Inr (u, sc')"
    by (auto simp: parse_function_call_def)
  then show "size sc' < size sc"
    using expect_less [of KLParen sc t sc1] expect_less [of KRParen sc2 u sc'] parse_parameters_le [of sc1 ps sc2]
    by simp
qed

text \<open>One statement of a function body: an expression or a call.\<close>

definition parse_statement :: "scanner \<Rightarrow> perror + (production \<times> scanner)" where
  "parse_statement sc =
     bnd (scanner_peek sc) (\<lambda>(tok, sc1).
       (case kind tok of
          KInt \<Rightarrow> bnd (parse_expression sc1) (\<lambda>(e, sc2). Inr (Expr_prod e, sc2))
        | KName \<Rightarrow>
            bnd (ignore KName sc1) (\<lambda>sc2.
            bnd (scanner_peek sc2) (\<lambda>(nx, sc3).
            bnd (str_val tok) (\<lambda>v.
              if kind nx \<noteq> KLParen then
                bnd (parse_expression_name v sc3) (\<lambda>(e, sc4). Inr (Expr_prod e, sc4))
              else parse_function_call v sc3)))
        | _ \<Rightarrow> Inl Bad_token))"

lemma parse_statement_less: "parse_statement sc = Inr (p, sc') \<Longrightarrow> size sc' < size sc"
proof -
  assume a: "parse_statement sc = Inr (p, sc')"
  then obtain tok sc1 where p: "scanner_peek sc = Inr (tok, sc1)"
    by (auto simp: parse_statement_def)
  note le = peek_le [OF p]
  show "size sc' < size sc"
  proof (cases "kind tok")
    case KInt
    then show ?thesis
      using a p le(1) parse_expression_less(1) [of sc1] by (fastforce simp: parse_statement_def)
  next
    case KName
    then have "ignore KName sc1 = Inr (sc1\<lparr>full := False\<rparr>)" and less: "size (sc1\<lparr>full := False\<rparr>) < size sc1"
      using le(2,3) by (simp_all add: size_scanner_ext_def)
    then obtain nx sc3 v where q: "scanner_peek (sc1\<lparr>full := False\<rparr>) = Inr (nx, sc3)"
      "(if kind nx \<noteq> KLParen then bnd (parse_expression_name v sc3) (\<lambda>(e, sc4). Inr (Expr_prod e, sc4))
        else parse_function_call v sc3) = Inr (p, sc')"
      using a p KName by (auto simp: parse_statement_def simp del: not_None_eq)
    then have "size sc' \<le> size sc3"
      using parse_expression_less(2) [of v sc3] parse_function_call_less [of v sc3]
      by (fastforce split: if_splits intro: less_imp_le)
    then show ?thesis
      using less le(1) peek_le(1) [OF q(1)] by simp
  qed (use a p in \<open>simp_all add: parse_statement_def\<close>)
qed

function body_loop :: "production list \<Rightarrow> scanner \<Rightarrow> perror + (production list \<times> scanner)" where
  "body_loop body sc =
     bnd (parse_statement sc) (\<lambda>(p, sc1).
     bnd (scanner_peek sc1) (\<lambda>(tok, sc2).
       if kind tok \<noteq> KIndent then Inr (body @ [p], sc2)
       else bnd (ignore KIndent sc2) (\<lambda>sc3. body_loop (body @ [p]) sc3)))"
  by pat_completeness auto
termination
proof (relation "measure (\<lambda>(ps, sc). size sc)", goal_cases)
  case (2 ps sc x e sc1 y tok sc2 sc3)
  then have p: "scanner_peek sc1 = Inr (tok, sc2)" and e: "parse_statement sc = Inr (e, sc1)"
    by simp_all
  have "size sc3 \<le> size sc2"
    using 2 peek_le(2,3) [OF p] by (auto simp: size_scanner_ext_def)
  then show ?case
    using parse_statement_less [OF e] peek_le(1) [OF p] by simp
qed simp

declare body_loop.simps [simp del]

definition parse_function_body :: "scanner \<Rightarrow> perror + (production \<times> scanner)" where
  "parse_function_body sc =
     bnd (expect KIndent sc) (\<lambda>(tok, sc1).
     bnd (str_val tok) (\<lambda>indent.
     bnd (body_loop [] sc1) (\<lambda>(body, sc2). Inr (Funcbod_prod indent body, sc2))))"

definition parse_function_def :: "scanner \<Rightarrow> perror + (production \<times> scanner)" where
  "parse_function_def sc =
     bnd (expect KName sc) (\<lambda>(name, sc1).
     bnd (expect KLParen sc1) (\<lambda>(_, sc2).
     bnd (parse_parameters sc2) (\<lambda>(params, sc3).
     bnd (expect KRParen sc3) (\<lambda>(_, sc4).
     bnd (expect KColon sc4) (\<lambda>(_, sc5).
     bnd (parse_function_body sc5) (\<lambda>(body, sc6).
     bnd (str_val name) (\<lambda>v. Inr (FuncDef_prod v params body, sc6))))))))"

definition parse_root :: "scanner \<Rightarrow> perror + (production \<times> scanner)" where
  "parse_root sc =
     bnd (scanner_peek sc) (\<lambda>(token, sc1).
       (case kind token of
          KDef \<Rightarrow> bnd (ignore KDef sc1) parse_function_def
        | KName \<Rightarrow>
            bnd (ignore KName sc1) (\<lambda>sc2.
            bnd (scanner_peek sc2) (\<lambda>(nx, sc3).
            bnd (str_val token) (\<lambda>v.
              if kind nx = KLParen then parse_function_call v sc3 else parse_declaration v sc3)))
        | KEof \<Rightarrow> Inr (Eof_prod, sc1)
        | _ \<Rightarrow> Inl Bad_token))"

text \<open>
  The loop of \<^verbatim>\<open>main\<close>: productions are pushed until the stream is no longer good. \<^verbatim>\<open>parser.root()\<close> is called in the
  \<^verbatim>\<open>for\<close> header, outside the \<^verbatim>\<open>try\<close> block that is its body, so an exception ends the program. The
  fuel bounds the number of productions.
\<close>

fun parse_program :: "nat \<Rightarrow> scanner \<Rightarrow> perror + production list" where
  "parse_program 0 sc = Inl (Fault Diverges)"
| "parse_program (Suc fuel) sc =
     bnd (parse_root sc) (\<lambda>(p, sc1).
       if \<not> scanner_good sc1 then Inr [p]
       else bnd (parse_program fuel sc1) (\<lambda>ps. Inr (p # ps)))"

section \<open>What holds of every state the parser reaches\<close>

text \<open>
  A property of scanners that reading a token keeps is kept by the whole parser, and the parser adds no
  error but \<open>Bad_token\<close> to those of the scanner.
\<close>

locale parser_invariant =
  fixes I :: "scanner \<Rightarrow> bool" and E :: "perror \<Rightarrow> bool"
  assumes get_I: "I sc \<Longrightarrow> scanner_get sc = Inr (t, sc') \<Longrightarrow> I sc' \<and> token_ok t"
    and get_E: "I sc \<Longrightarrow> scanner_get sc = Inl e \<Longrightarrow> E e"
    and peek_I: "I sc \<Longrightarrow> scanner_peek sc = Inr (t, sc') \<Longrightarrow> I sc'"
    and drop_I: "I sc \<Longrightarrow> I (sc\<lparr>full := False\<rparr>)"
    and bad_token: "E Bad_token"
begin

definition okr :: "perror + ('a \<times> scanner) \<Rightarrow> bool" where
  "okr r \<longleftrightarrow> (case r of Inl e \<Rightarrow> E e | Inr (x, sc) \<Rightarrow> I sc)"

lemma okr_simps [simp]:
  "okr (Inr (x, sc)) = I sc" "okr (Inl Bad_token)"
  by (simp_all add: okr_def bad_token)

lemma okr_bnd:
  "okr m \<Longrightarrow> (\<And>x sc. m = Inr (x, sc) \<Longrightarrow> I sc \<Longrightarrow> okr (f (x, sc))) \<Longrightarrow> okr (bnd m f)"
  by (cases m) (auto simp: okr_def)

lemma okr_get: "I sc \<Longrightarrow> okr (scanner_get sc)"
  using get_I [of sc] get_E [of sc] by (auto simp: okr_def split: sum.splits)

lemma get_token: "I sc \<Longrightarrow> scanner_get sc = Inr (t, sc') \<Longrightarrow> token_ok t"
  using get_I by blast

lemma okr_peek: "I sc \<Longrightarrow> okr (scanner_peek sc)"
  using peek_I [of sc] get_E [of sc] by (auto simp: okr_def scanner_peek_def bnd_def split: sum.splits if_splits)

lemma okr_expect: "I sc \<Longrightarrow> okr (expect k sc)"
  unfolding expect_def by (intro okr_bnd okr_get) (auto simp: guard_def)

lemma okr_ignore: "I sc \<Longrightarrow> scanner_peek sc' = Inr (t, sc) \<Longrightarrow> (\<And>s. I s \<Longrightarrow> okr (f s)) \<Longrightarrow>
    okr (bnd (ignore (kind t) sc) f)"
  using peek_le(2,3) [of sc' t sc] drop_I by simp

lemma okr_str_val:
  "token_ok t \<Longrightarrow> kind t = KName \<or> kind t = KIndent \<Longrightarrow> (\<And>v. okr (f v)) \<Longrightarrow> okr (bnd (str_val t) f)"
  by (auto simp: token_ok_def str_val_def)

lemma okr_int_val:
  "token_ok t \<Longrightarrow> kind t = KInt \<Longrightarrow> (\<And>v. okr (f v)) \<Longrightarrow> okr (bnd (int_val t) f)"
  by (auto simp: token_ok_def int_val_def)

lemma peek_token:
  assumes "I sc" and "scanner_peek sc = Inr (t, sc')"
  shows "token_ok t"
proof -
  have "I sc'" by (rule peek_I [OF assms])
  moreover have "scanner_get sc' = Inr (t, sc'\<lparr>full := False\<rparr>)"
    using peek_get assms(2) by blast
  ultimately show ?thesis by (rule get_token)
qed

lemma okr_expression:
  "I sc \<Longrightarrow> okr (parse_expression sc)"
  "I sc \<Longrightarrow> okr (parse_expression_name v sc)"
  "I sc \<Longrightarrow> okr (parse_plus l sc)"
proof (induction sc and v sc and l sc rule: parse_expression_parse_expression_name_parse_plus.induct)
  case (1 sc)
  show ?case
    unfolding parse_expression.simps [of sc]
  proof (intro okr_bnd okr_get "1.prems", unfold prod.case)
    fix t sc1
    assume g: "scanner_get sc = Inr (t, sc1)" and i: "I sc1"
    note tok = get_token [OF "1.prems" g]
    show "okr (case kind t of KName \<Rightarrow> bnd (str_val t) (\<lambda>v. parse_expression_name v sc1)
        | KInt \<Rightarrow> bnd (scanner_peek sc1) (\<lambda>(nx, sc2).
              if kind nx = KPlus then bnd (int_val t) (\<lambda>i. parse_plus (Int_prod i) sc2)
              else bnd (int_val t) (\<lambda>i. Inr (Int_prod i, sc2)))
        | _ \<Rightarrow> Inl Bad_token)"
      using "1.IH"(1) [OF g refl] "1.IH"(2) [OF g refl] i tok
      by (cases "kind t")
        (auto intro!: okr_bnd okr_peek okr_str_val okr_int_val simp: str_val_def int_val_def token_ok_def)
  qed
next
  case (2 v sc)
  then show ?case
    unfolding parse_expression_name.simps [of v sc]
    by (intro okr_bnd okr_peek) auto
next
  case (3 left sc)
  then show ?case
    unfolding parse_plus.simps [of left sc]
    by (intro okr_bnd okr_expect) (auto intro!: okr_bnd)
qed

lemma okr_params_loop: "I sc \<Longrightarrow> okr (params_loop ps sc)"
proof (induction ps sc rule: params_loop.induct)
  case (1 ps sc)
  show ?case
    unfolding params_loop.simps [of ps sc]
  proof (intro okr_bnd okr_expression "1.prems", unfold prod.case, intro okr_bnd okr_peek, assumption,
      unfold prod.case)
    fix e sc1 t sc2
    assume e: "parse_expression sc = Inr (e, sc1)" and p: "scanner_peek sc1 = Inr (t, sc2)" and i: "I sc2"
    have "okr (params_loop (ps @ [e]) sc3)" if "kind t = KComma" "ignore KComma sc2 = Inr sc3" "I sc3" for sc3
      using "1.IH" [OF e refl p refl that(1,2,3)] .
    then show "okr (case kind t of KComma \<Rightarrow> bnd (ignore KComma sc2) (params_loop (ps @ [e]))
        | KRParen \<Rightarrow> Inr (ps @ [e], sc2) | _ \<Rightarrow> Inl Bad_token)"
      using i peek_le(2,3) [OF p] drop_I [OF i] by (cases "kind t") simp_all
  qed
qed

lemma okr_parameters: "I sc \<Longrightarrow> okr (parse_parameters sc)"
  unfolding parse_parameters_def
  by (intro okr_bnd okr_peek) (auto intro: okr_params_loop)

lemma okr_function_call: "I sc \<Longrightarrow> okr (parse_function_call name sc)"
  unfolding parse_function_call_def
  by (rule okr_bnd, erule okr_expect, unfold prod.case, rule okr_bnd, erule okr_parameters, unfold prod.case,
      rule okr_bnd, erule okr_expect) auto

lemma okr_declaration: "I sc \<Longrightarrow> okr (parse_declaration name sc)"
  unfolding parse_declaration_def
  by (rule okr_bnd, erule okr_expect, unfold prod.case, rule okr_bnd, erule okr_expression) auto

text \<open>Both \<open>parse_statement\<close> and \<open>parse_root\<close> look one token past a name.\<close>

lemma okr_after_name:
  assumes "I sc" and p: "scanner_peek sc = Inr (t, sc1)" and "kind t = KName"
    and f: "\<And>nx v sc3. I sc3 \<Longrightarrow> okr (f nx v sc3)"
  shows "okr (bnd (ignore KName sc1) (\<lambda>sc2. bnd (scanner_peek sc2) (\<lambda>(nx, sc3).
    bnd (str_val t) (\<lambda>v. f nx v sc3))))"
proof -
  have "I (sc1\<lparr>full := False\<rparr>)"
    using drop_I [OF peek_I [OF assms(1,2)]] .
  then have "okr (bnd (scanner_peek (sc1\<lparr>full := False\<rparr>)) (\<lambda>(nx, sc3). bnd (str_val t) (\<lambda>v. f nx v sc3)))"
    using peek_token [OF assms(1) p] assms(3) by (intro okr_bnd okr_peek) (auto intro: okr_str_val f)
  then show ?thesis
    using peek_le(2,3) [OF p] assms(3) by simp
qed

lemma okr_statement:
  assumes "I sc"
  shows "okr (parse_statement sc)"
  unfolding parse_statement_def
proof (intro okr_bnd okr_peek assms, unfold prod.case)
  fix t sc1
  assume p: "scanner_peek sc = Inr (t, sc1)" and i: "I sc1"
  show "okr (case kind t of
      KInt \<Rightarrow> bnd (parse_expression sc1) (\<lambda>(e, sc2). Inr (Expr_prod e, sc2))
    | KName \<Rightarrow> bnd (ignore KName sc1) (\<lambda>sc2. bnd (scanner_peek sc2) (\<lambda>(nx, sc3).
        bnd (str_val t) (\<lambda>v.
          if kind nx \<noteq> KLParen then
            bnd (parse_expression_name v sc3) (\<lambda>(e, sc4). Inr (Expr_prod e, sc4))
          else parse_function_call v sc3)))
    | _ \<Rightarrow> Inl Bad_token)"
  proof (cases "kind t")
    case KName
    have "okr (if kind nx \<noteq> KLParen then bnd (parse_expression_name v sc3) (\<lambda>(e, sc4). Inr (Expr_prod e, sc4))
        else parse_function_call v sc3)" if "I sc3" for nx v sc3
      using that by (auto intro!: okr_bnd okr_expression okr_function_call)
    from okr_after_name [OF assms p KName this] show ?thesis
      using KName by simp
  qed (auto intro!: okr_bnd okr_expression i)
qed

lemma okr_body_loop: "I sc \<Longrightarrow> okr (body_loop body sc)"
proof (induction body sc rule: body_loop.induct)
  case (1 body sc)
  show ?case
    unfolding body_loop.simps [of body sc]
  proof (intro okr_bnd okr_statement "1.prems", unfold prod.case, intro okr_bnd okr_peek, assumption,
      unfold prod.case)
    fix e sc1 t sc2
    assume e: "parse_statement sc = Inr (e, sc1)" and p: "scanner_peek sc1 = Inr (t, sc2)" and i: "I sc2"
    have "okr (body_loop (body @ [e]) sc3)" if "\<not> kind t \<noteq> KIndent" "ignore KIndent sc2 = Inr sc3" "I sc3" for sc3
      using "1.IH" [OF e refl p refl that(1,2,3)] .
    then show "okr (if kind t \<noteq> KIndent then Inr (body @ [e], sc2)
        else bnd (ignore KIndent sc2) (body_loop (body @ [e])))"
      using i peek_le(2,3) [OF p] drop_I [OF i] by simp
  qed
qed

lemma okr_function_body:
  assumes "I sc"
  shows "okr (parse_function_body sc)"
  unfolding parse_function_body_def
proof (intro okr_bnd okr_expect assms, unfold prod.case)
  fix t sc1
  assume e: "expect KIndent sc = Inr (t, sc1)" and i: "I sc1"
  then have "token_ok t" "kind t = KIndent"
    using get_token [OF assms] by (auto simp: expect_def)
  then show "okr (bnd (str_val t) (\<lambda>indent. bnd (body_loop [] sc1) (\<lambda>(body, sc2). Inr (Funcbod_prod indent body, sc2))))"
    using i by (auto intro!: okr_str_val okr_bnd okr_body_loop)
qed

lemma okr_function_def:
  assumes "I sc"
  shows "okr (parse_function_def sc)"
  unfolding parse_function_def_def
proof (rule okr_bnd, rule okr_expect, rule assms, unfold prod.case)
  fix t sc1
  assume e: "expect KName sc = Inr (t, sc1)" and i: "I sc1"
  then have "token_ok t" "kind t = KName"
    using get_token [OF assms] by (auto simp: expect_def)
  then show "okr (bnd (expect KLParen sc1) (\<lambda>(_, sc2). bnd (parse_parameters sc2) (\<lambda>(params, sc3).
      bnd (expect KRParen sc3) (\<lambda>(_, sc4). bnd (expect KColon sc4) (\<lambda>(_, sc5).
      bnd (parse_function_body sc5) (\<lambda>(body, sc6).
      bnd (str_val t) (\<lambda>v. Inr (FuncDef_prod v params body, sc6))))))))"
    using i
    by - (rule okr_bnd, erule okr_expect, unfold prod.case, rule okr_bnd, erule okr_parameters, unfold prod.case,
      rule okr_bnd, erule okr_expect, unfold prod.case, rule okr_bnd, erule okr_expect, unfold prod.case,
      rule okr_bnd, erule okr_function_body, auto intro: okr_str_val)
qed

lemma okr_root:
  assumes "I sc"
  shows "okr (parse_root sc)"
  unfolding parse_root_def
proof (intro okr_bnd okr_peek assms, unfold prod.case)
  fix t sc1
  assume p: "scanner_peek sc = Inr (t, sc1)" and i: "I sc1"
  show "okr (case kind t of
      KDef \<Rightarrow> bnd (ignore KDef sc1) parse_function_def
    | KName \<Rightarrow> bnd (ignore KName sc1) (\<lambda>sc2. bnd (scanner_peek sc2) (\<lambda>(nx, sc3).
        bnd (str_val t) (\<lambda>v.
          if kind nx = KLParen then parse_function_call v sc3 else parse_declaration v sc3)))
    | KEof \<Rightarrow> Inr (Eof_prod, sc1)
    | _ \<Rightarrow> Inl Bad_token)"
  proof (cases "kind t")
    case KName
    have "okr (if kind nx = KLParen then parse_function_call v sc3 else parse_declaration v sc3)"
      if "I sc3" for nx v sc3
      using that by (auto intro: okr_declaration okr_function_call)
    from okr_after_name [OF assms p KName this] show ?thesis
      using KName by simp
  qed (use i peek_le(2,3) [OF p] drop_I [OF i] in \<open>auto intro: okr_function_def\<close>)
qed

end

section \<open>Progress and errors of the whole parser\<close>

lemma body_loop_less: "body_loop body sc = Inr (ps, sc') \<Longrightarrow> size sc' < size sc"
proof (induction body sc rule: body_loop.induct)
  case (1 body sc)
  from "1.prems" obtain e sc1 t sc2 where
    e: "parse_statement sc = Inr (e, sc1)" and p: "scanner_peek sc1 = Inr (t, sc2)"
    by (auto simp: body_loop.simps [of body sc])
  have less: "size sc2 < size sc"
    using parse_statement_less [OF e] peek_le(1) [OF p] by simp
  show ?case
  proof (cases "kind t = KIndent")
    case True
    then have g: "ignore KIndent sc2 = Inr (sc2\<lparr>full := False\<rparr>)" "size (sc2\<lparr>full := False\<rparr>) \<le> size sc2"
      using peek_le(2,3) [OF p] by (simp_all add: size_scanner_ext_def)
    then show ?thesis
      using "1.prems" "1.IH" [OF e refl p refl _ g(1)] e p True less by (simp add: body_loop.simps [of body sc])
  next
    case False
    then show ?thesis
      using "1.prems" e p less by (simp add: body_loop.simps [of body sc])
  qed
qed

lemma parse_function_def_less: "parse_function_def sc = Inr (p, sc') \<Longrightarrow> size sc' < size sc"
proof -
  assume "parse_function_def sc = Inr (p, sc')"
  then obtain t1 sc1 t2 sc2 ps sc3 t4 sc4 t5 sc5 t6 sc6 body where e: "expect KName sc = Inr (t1, sc1)"
    "expect KLParen sc1 = Inr (t2, sc2)" "parse_parameters sc2 = Inr (ps, sc3)"
    "expect KRParen sc3 = Inr (t4, sc4)" "expect KColon sc4 = Inr (t5, sc5)" "expect KIndent sc5 = Inr (t6, sc6)"
    "body_loop [] sc6 = Inr (body, sc')"
    by (auto simp: parse_function_def_def parse_function_body_def)
  show "size sc' < size sc"
    using expect_less [OF e(1)] expect_less [OF e(2)] parse_parameters_le [OF e(3)] expect_less [OF e(4)]
      expect_less [OF e(5)] expect_less [OF e(6)] body_loop_less [OF e(7)] by simp
qed

lemma parse_root_progress:
  assumes "parse_root sc = Inr (p, sc')"
  shows "p \<noteq> Eof_prod \<and> size sc' < size sc \<or>
    p = Eof_prod \<and> (\<exists>t. scanner_peek sc = Inr (t, sc') \<and> kind t = KEof)"
proof -
  obtain t sc1 where p: "scanner_peek sc = Inr (t, sc1)"
    using assms by (auto simp: parse_root_def)
  note pl = peek_le [OF p]
  have drop: "ignore (kind t) sc1 = Inr (sc1\<lparr>full := False\<rparr>)" "size (sc1\<lparr>full := False\<rparr>) \<le> size sc1"
    using pl(2,3) by (simp_all add: size_scanner_ext_def)
  show ?thesis
  proof (cases "kind t")
    case KDef
    then have "parse_function_def (sc1\<lparr>full := False\<rparr>) = Inr (p, sc')"
      using assms p drop by (simp add: parse_root_def)
    moreover from this have "p \<noteq> Eof_prod" by (auto simp: parse_function_def_def)
    ultimately show ?thesis
      using parse_function_def_less drop(2) pl(1) by fastforce
  next
    case KName
    obtain nx sc3 v where q: "scanner_peek (sc1\<lparr>full := False\<rparr>) = Inr (nx, sc3)"
      "(if kind nx = KLParen then parse_function_call v sc3 else parse_declaration v sc3) = Inr (p, sc')"
      using assms p drop(1) KName by (auto simp: parse_root_def)
    have "size sc' < size sc3 \<and> p \<noteq> Eof_prod"
    proof (cases "kind nx = KLParen")
      case True
      then have c: "parse_function_call v sc3 = Inr (p, sc')" using q(2) by simp
      then have "p \<noteq> Eof_prod" by (auto simp: parse_function_call_def)
      with parse_function_call_less [OF c] show ?thesis by simp
    next
      case False
      then obtain t sc4 e where d: "expect KEquals sc3 = Inr (t, sc4)" "parse_expression sc4 = Inr (e, sc')"
        "p = Decl_prod v e"
        using q(2) by (auto simp: parse_declaration_def)
      then show ?thesis
        using expect_less [OF d(1)] parse_expression_less(1) [OF d(2)] by simp
    qed
    then show ?thesis
      using peek_le(1) [OF q(1)] drop(2) pl(1) by simp
  qed (use assms p in \<open>simp_all add: parse_root_def\<close>)
qed

text \<open>
  Where the input has no byte \<open>0xFF\<close>, a buffered end-of-input token means that the stream is no
  longer good, and the only errors are those of bad input and of reading past a word at the end.
\<close>

definition no_ff :: "scanner \<Rightarrow> bool" where
  "no_ff sc \<longleftrightarrow> byte_eof \<notin> set (rest (source sc)) \<and>
     (full sc \<longrightarrow> token_ok (buffer sc) \<and> (kind (buffer sc) = KEof \<longrightarrow> \<not> good (source sc)))"

definition input_error :: "perror \<Rightarrow> bool" where
  "input_error e \<longleftrightarrow> e \<in> {Bad_token, Invalid_token, Fault Uninitialised}"

lemma no_ff_get:
  assumes "no_ff sc" and "scanner_get sc = Inr (t, sc')"
  shows "no_ff sc'" and "token_ok t" and "kind t = KEof \<Longrightarrow> \<not> good (source sc')"
  using assms scan_facts(1,2,5) [of "source sc" t]
  by (auto simp: no_ff_def scanner_get_def split: if_splits)

interpretation ni: parser_invariant no_ff input_error
proof
  fix sc sc' t e
  show "no_ff sc \<Longrightarrow> scanner_get sc = Inr (t, sc') \<Longrightarrow> no_ff sc' \<and> token_ok t"
    using no_ff_get by blast
  show "no_ff sc \<Longrightarrow> scanner_get sc = Inl e \<Longrightarrow> input_error e"
    using scan_error [of "source sc" e]
    by (auto simp: scanner_get_def input_error_def bnd_Inl_iff split: if_splits)
  show "no_ff sc \<Longrightarrow> scanner_peek sc = Inr (t, sc') \<Longrightarrow> no_ff sc'"
    using no_ff_get [of sc t] by (auto simp: scanner_peek_def no_ff_def split: if_splits)
  show "no_ff sc \<Longrightarrow> no_ff (sc\<lparr>full := False\<rparr>)"
    by (simp add: no_ff_def)
  show "input_error Bad_token"
    by (simp add: input_error_def)
qed

lemma parse_program_total:
  assumes "no_ff sc" and "size sc < fuel"
  shows "case parse_program fuel sc of Inl e \<Rightarrow> input_error e | Inr ps \<Rightarrow> ps \<noteq> []"
  using assms
proof (induction fuel arbitrary: sc)
  case (Suc fuel)
  show ?case
  proof (cases "parse_root sc")
    case (Inl e)
    then show ?thesis
      using ni.okr_root [OF Suc.prems(1)] by (simp add: ni.okr_def)
  next
    case (Inr r)
    then obtain p sc1 where r: "parse_root sc = Inr (p, sc1)" by (cases r) auto
    have i: "no_ff sc1"
      using ni.okr_root [OF Suc.prems(1)] r by (simp add: ni.okr_def)
    show ?thesis
    proof (cases "scanner_good sc1")
      case True
      have "p \<noteq> Eof_prod"
      proof
        assume "p = Eof_prod"
        then obtain t where "scanner_peek sc = Inr (t, sc1)" "kind t = KEof"
          using parse_root_progress [OF r] by auto
        then have "\<not> good (source sc1)"
          using i peek_le(2,3) by (auto simp: no_ff_def)
        with True show False by (simp add: scanner_good_def)
      qed
      then have "size sc1 < fuel"
        using parse_root_progress [OF r] Suc.prems(2) by auto
      then show ?thesis
        using Suc.IH [OF i] r True by (auto split: sum.splits)
    qed (use r in simp)
  qed
qed simp

end
