(* ===== verification/PunyPy_Grammar.thy ===== *)
theory PunyPy_Grammar
  imports PunyPy_Parser
begin

text \<open>
  The language of the \<^verbatim>\<open>Punypy-parser\<close>: the tokens and the text of a program, and the proof that
  scanner and parser read a program back from its text. The grammar is the one the parser implements
  (\<open>+\<close> nests to the right), not the one in the comment of \<^verbatim>\<open>Parser.h\<close>.
\<close>

section \<open>Tokens of a production\<close>

text \<open>What the parser makes of \<open>a + b + c\<close>: the left operand of a sum is not a sum.\<close>

fun rnest :: "expression \<Rightarrow> bool" where
  "rnest (Int_prod i) \<longleftrightarrow> 0 \<le> i \<and> in_int i"
| "rnest (Var_prod v) \<longleftrightarrow> True"
| "rnest (Plus_prod (Plus_prod a b) r) \<longleftrightarrow> False"
| "rnest (Plus_prod (Int_prod i) r) \<longleftrightarrow> 0 \<le> i \<and> in_int i \<and> rnest r"
| "rnest (Plus_prod (Var_prod v) r) \<longleftrightarrow> rnest r"

definition punct :: "kind \<Rightarrow> char \<Rightarrow> token" where
  "punct k c = \<lparr>kind = k, val = VChar c\<rparr>"

fun expr_tokens :: "expression \<Rightarrow> token list" where
  "expr_tokens (Int_prod i) = [int_token i]"
| "expr_tokens (Var_prod v) = [name_token v]"
| "expr_tokens (Plus_prod l r) = expr_tokens l @ punct KPlus CHR ''+'' # expr_tokens r"

fun param_tokens :: "expression list \<Rightarrow> token list" where
  "param_tokens [] = []"
| "param_tokens [e] = expr_tokens e"
| "param_tokens (e # es) = expr_tokens e @ punct KComma CHR '','' # param_tokens es"

definition call_tokens :: "string \<Rightarrow> expression list \<Rightarrow> token list" where
  "call_tokens f ps = name_token f # punct KLParen CHR ''('' # param_tokens ps @ [punct KRParen CHR '')'']"

fun statement_tokens :: "production \<Rightarrow> token list" where
  "statement_tokens (Expr_prod e) = expr_tokens e"
| "statement_tokens (FuncCall_prod f ps) = call_tokens f ps"
| "statement_tokens _ = []"

fun statement_ok :: "production \<Rightarrow> bool" where
  "statement_ok (Expr_prod e) \<longleftrightarrow> rnest e"
| "statement_ok (FuncCall_prod f ps) \<longleftrightarrow> list_all rnest ps"
| "statement_ok _ \<longleftrightarrow> False"

definition body_tokens :: "string \<Rightarrow> production list \<Rightarrow> token list" where
  "body_tokens ind body = concat (map (\<lambda>p. string_token KIndent ind # statement_tokens p) body)"

fun prod_tokens :: "production \<Rightarrow> token list" where
  "prod_tokens (FuncCall_prod f ps) = call_tokens f ps"
| "prod_tokens (FuncDef_prod f ps (Funcbod_prod ind body)) =
     kind_token KDef # call_tokens f ps @ punct KColon CHR '':'' # body_tokens ind body"
| "prod_tokens (Decl_prod v e) = name_token v # punct KEquals CHR ''='' # expr_tokens e"
| "prod_tokens _ = []"

fun prod_ok :: "production \<Rightarrow> bool" where
  "prod_ok (FuncCall_prod f ps) \<longleftrightarrow> list_all rnest ps"
| "prod_ok (FuncDef_prod f ps (Funcbod_prod ind body)) \<longleftrightarrow>
     list_all rnest ps \<and> body \<noteq> [] \<and> list_all statement_ok body"
| "prod_ok (Decl_prod v e) \<longleftrightarrow> rnest e"
| "prod_ok _ \<longleftrightarrow> False"

section \<open>Parsing tokens\<close>

text \<open>
  \<open>ahead sc ts\<close>: the next tokens are \<open>ts\<close>, and the stream is good as long as the end has not been read.
\<close>

fun ahead :: "scanner \<Rightarrow> token list \<Rightarrow> bool" where
  "ahead sc [] \<longleftrightarrow> True"
| "ahead sc (t # ts) \<longleftrightarrow> (\<exists>sc1. scanner_get sc = Inr (t, sc1) \<and>
     (good (source sc1) \<longleftrightarrow> kind t \<noteq> KEof) \<and> ahead sc1 ts)"

lemma get_view:
  assumes "scanner_view sc = scanner_view sc'" and "scanner_get sc = Inr (t, sc1)"
  shows "\<exists>sc1'. scanner_get sc' = Inr (t, sc1') \<and> scanner_view sc1 = scanner_view sc1'"
proof -
  have v: "full sc' = full sc" "source sc' = source sc" "full sc \<Longrightarrow> buffer sc' = buffer sc"
    using assms(1) by (auto simp: scanner_view_def split: if_splits)
  show ?thesis
  proof (cases "full sc")
    case True
    then show ?thesis
      using v assms(2) by (auto simp: scanner_view_def scanner_get_def)
  next
    case False
    then obtain src where "scan (source sc) = Inr (t, src)" "sc1 = sc\<lparr>source := src\<rparr>"
      using assms(2) by (auto simp: scanner_get_def)
    then show ?thesis
      using v False by (simp add: scanner_view_def scanner_get_def)
  qed
qed

lemma view_source: "scanner_view sc = scanner_view sc' \<Longrightarrow> source sc = source sc'"
  by (simp add: scanner_view_def)

lemma ahead_view: "scanner_view sc = scanner_view sc' \<Longrightarrow> ahead sc ts \<Longrightarrow> ahead sc' ts"
proof (induction ts arbitrary: sc sc')
  case (Cons t ts)
  obtain sc1 where g: "scanner_get sc = Inr (t, sc1)" "good (source sc1) \<longleftrightarrow> kind t \<noteq> KEof" "ahead sc1 ts"
    using Cons.prems(2) by auto
  obtain sc1' where g': "scanner_get sc' = Inr (t, sc1')" "scanner_view sc1 = scanner_view sc1'"
    using get_view [OF Cons.prems(1) g(1)] by blast
  then show ?case
    using g(2) Cons.IH [OF g'(2) g(3)] view_source [OF g'(2)] by simp
qed simp

lemma ahead_peek:
  assumes "ahead sc (t # ts)"
  obtains sc1 where "scanner_peek sc = Inr (t, sc1)" "ahead sc1 (t # ts)"
    "ignore (kind t) sc1 = Inr (sc1\<lparr>full := False\<rparr>)" "ahead (sc1\<lparr>full := False\<rparr>) ts"
    "good (source sc1) \<longleftrightarrow> kind t \<noteq> KEof"
proof -
  obtain sc0 where g: "scanner_get sc = Inr (t, sc0)" "good (source sc0) \<longleftrightarrow> kind t \<noteq> KEof" "ahead sc0 ts"
    using assms by auto
  obtain sc1 where p: "scanner_peek sc = Inr (t, sc1)" and v: "scanner_view sc0 = scanner_view (sc1\<lparr>full := False\<rparr>)"
    using g(1) by (auto simp: scanner_peek_def scanner_get_def scanner_view_def split: if_splits)
  have g1: "scanner_get sc1 = Inr (t, sc1\<lparr>full := False\<rparr>)"
    using peek_get [OF p] by simp
  have a: "ahead (sc1\<lparr>full := False\<rparr>) ts" and gd: "good (source sc1) \<longleftrightarrow> kind t \<noteq> KEof"
    using ahead_view [OF v g(3)] view_source [OF v] g(2) by simp_all
  show ?thesis
    using p g1 a gd peek_le(2,3) [OF p] by (intro that [of sc1]) simp_all
qed

lemma ahead_expect:
  assumes "ahead sc (t # ts)"
  obtains sc1 where "expect (kind t) sc = Inr (t, sc1)" "ahead sc1 ts"
  using assms that by (auto simp: expect_def)

lemma kinds [simp]:
  "kind (punct k c) = k" "kind (name_token v) = KName" "kind (int_token i) = KInt"
  "kind (kind_token k) = k" "kind (string_token k v) = k"
  by (simp_all add: punct_def name_token_def int_token_def kind_token_def string_token_def)

lemma vals_ok [simp]:
  "str_val (name_token v) = Inr v" "int_val (int_token i) = Inr i" "str_val (string_token k v) = Inr v"
  by (simp_all add: str_val_def name_token_def int_val_def int_token_def string_token_def)

lemma parse_expr_tokens:
  assumes "rnest e" and "ahead sc (expr_tokens e @ t # ts)" and "kind t \<noteq> KPlus"
  shows "\<exists>sc'. parse_expression sc = Inr (e, sc') \<and> ahead sc' (t # ts)"
  using assms
proof (induction e arbitrary: sc rule: rnest.induct)
  case (1 i)
  then obtain sc1 where g: "scanner_get sc = Inr (int_token i, sc1)" "ahead sc1 (t # ts)" by auto
  obtain sc2 where p: "scanner_peek sc1 = Inr (t, sc2)" "ahead sc2 (t # ts)"
    using ahead_peek [OF g(2)] by metis
  show ?case
    using g p 1(3) by (simp add: parse_expression.simps [of sc])
next
  case (2 v)
  then obtain sc1 where g: "scanner_get sc = Inr (name_token v, sc1)" "ahead sc1 (t # ts)" by auto
  obtain sc2 where p: "scanner_peek sc1 = Inr (t, sc2)" "ahead sc2 (t # ts)"
    using ahead_peek [OF g(2)] by metis
  show ?case
    using g p 2(3) by (simp add: parse_expression.simps [of sc] parse_expression_name.simps [of v sc1])
next
  case (4 i r)
  let ?p = "punct KPlus CHR ''+''"
  obtain sc1 where g: "scanner_get sc = Inr (int_token i, sc1)" "ahead sc1 (?p # expr_tokens r @ t # ts)"
    using 4(3) by auto
  obtain sc2 where p: "scanner_peek sc1 = Inr (?p, sc2)" "ahead sc2 (?p # expr_tokens r @ t # ts)"
    using ahead_peek [OF g(2)] by metis
  obtain sc3 where e: "expect KPlus sc2 = Inr (?p, sc3)" "ahead sc3 (expr_tokens r @ t # ts)"
    using ahead_expect [OF p(2)] by auto
  obtain sc' where "parse_expression sc3 = Inr (r, sc')" "ahead sc' (t # ts)"
    using 4(1) [OF _ e(2) 4(4)] 4(2) by auto
  then show ?case
    using g p e by (simp add: parse_expression.simps [of sc] parse_plus.simps [of _ sc2])
next
  case (5 v r)
  let ?p = "punct KPlus CHR ''+''"
  obtain sc1 where g: "scanner_get sc = Inr (name_token v, sc1)" "ahead sc1 (?p # expr_tokens r @ t # ts)"
    using 5(3) by auto
  obtain sc2 where p: "scanner_peek sc1 = Inr (?p, sc2)" "ahead sc2 (?p # expr_tokens r @ t # ts)"
    using ahead_peek [OF g(2)] by metis
  obtain sc3 where e: "expect KPlus sc2 = Inr (?p, sc3)" "ahead sc3 (expr_tokens r @ t # ts)"
    using ahead_expect [OF p(2)] by auto
  obtain sc' where "parse_expression sc3 = Inr (r, sc')" "ahead sc' (t # ts)"
    using 5(1) [OF _ e(2) 5(4)] 5(2) by auto
  then show ?case
    using g p e by (simp add: parse_expression.simps [of sc] parse_expression_name.simps [of v sc1]
        parse_plus.simps [of _ sc2])
qed simp


lemma expr_tokens_hd:
  obtains t ts where "expr_tokens e = t # ts" "kind t = KName \<or> kind t = KInt"
proof -
  have "\<exists>t ts. expr_tokens e = t # ts \<and> (kind t = KName \<or> kind t = KInt)"
    by (induction e) auto
  with that show thesis by blast
qed

lemma params_tokens_hd:
  assumes "ps \<noteq> []"
  obtains t ts where "param_tokens ps = t # ts" "kind t = KName \<or> kind t = KInt"
proof (cases ps rule: param_tokens.cases)
  case (2 e)
  then show ?thesis using that expr_tokens_hd [of e] by (metis param_tokens.simps(2))
next
  case (3 e e' es)
  then show ?thesis using that expr_tokens_hd [of e] by (metis append_Cons param_tokens.simps(3))
qed (use assms in simp)

lemma params_loop_tokens:
  assumes "list_all rnest ps" and "ps \<noteq> []" and "ahead sc (param_tokens ps @ t # ts)" and "kind t = KRParen"
  shows "\<exists>sc'. params_loop acc sc = Inr (acc @ ps, sc') \<and> ahead sc' (t # ts)"
  using assms
proof (induction ps arbitrary: sc acc rule: param_tokens.induct)
  case (2 e)
  obtain sc1 where e: "parse_expression sc = Inr (e, sc1)" "ahead sc1 (t # ts)"
    using parse_expr_tokens [of e sc t ts] 2 by auto
  obtain sc2 where "scanner_peek sc1 = Inr (t, sc2)" "ahead sc2 (t # ts)"
    using ahead_peek [OF e(2)] by metis
  then show ?case
    using e 2(4) by (simp add: params_loop.simps [of acc sc])
next
  case (3 e e' es)
  let ?c = "punct KComma CHR '',''"
  obtain sc1 where e: "parse_expression sc = Inr (e, sc1)" "ahead sc1 (?c # param_tokens (e' # es) @ t # ts)"
    using parse_expr_tokens [of e sc ?c "param_tokens (e' # es) @ t # ts"] 3 by auto
  obtain sc2 where p: "scanner_peek sc1 = Inr (?c, sc2)"
    "ignore KComma sc2 = Inr (sc2\<lparr>full := False\<rparr>)" "ahead (sc2\<lparr>full := False\<rparr>) (param_tokens (e' # es) @ t # ts)"
    using ahead_peek [OF e(2)] by (metis kinds(1))
  obtain sc' where "params_loop (acc @ [e]) (sc2\<lparr>full := False\<rparr>) = Inr ((acc @ [e]) @ e' # es, sc')"
    "ahead sc' (t # ts)"
    using "3.IH" [OF _ _ p(3), of "acc @ [e]"] 3 by auto
  then show ?case
    using e p by (simp add: params_loop.simps [of acc sc])
qed simp

lemma parameters_tokens:
  assumes "list_all rnest ps" and "ahead sc (param_tokens ps @ t # ts)" and "kind t = KRParen"
  shows "\<exists>sc'. parse_parameters sc = Inr (ps, sc') \<and> ahead sc' (t # ts)"
proof (cases "ps = []")
  case True
  obtain sc1 where "scanner_peek sc = Inr (t, sc1)" "ahead sc1 (t # ts)"
    using ahead_peek [of sc t ts] assms(2) True by (metis append_Nil param_tokens.simps(1))
  then show ?thesis
    using True assms(3) by (simp add: parse_parameters_def)
next
  case False
  obtain u us where u: "param_tokens ps = u # us" "kind u = KName \<or> kind u = KInt"
    using params_tokens_hd [OF False] .
  obtain sc1 where p: "scanner_peek sc = Inr (u, sc1)" "ahead sc1 (param_tokens ps @ t # ts)"
    using ahead_peek [of sc u "us @ t # ts"] assms(2) u(1) by (metis append_Cons)
  then show ?thesis
    using params_loop_tokens [OF assms(1) False p(2) assms(3), of "[]"] u(2)
    by (auto simp: parse_parameters_def)
qed

lemma call_rest_tokens:
  assumes "list_all rnest ps" and "ahead sc (tl (call_tokens f ps) @ ts)"
  shows "\<exists>sc'. parse_function_call f sc = Inr (FuncCall_prod f ps, sc') \<and> ahead sc' ts"
proof -
  let ?l = "punct KLParen CHR ''(''" and ?r = "punct KRParen CHR '')''"
  have a: "ahead sc (?l # param_tokens ps @ ?r # ts)"
    using assms(2) by (simp add: call_tokens_def del: ahead.simps)
  obtain sc1 where e: "expect KLParen sc = Inr (?l, sc1)" "ahead sc1 (param_tokens ps @ ?r # ts)"
    using ahead_expect [OF a] by auto
  obtain sc2 where p: "parse_parameters sc1 = Inr (ps, sc2)" "ahead sc2 (?r # ts)"
    using parameters_tokens [OF assms(1) e(2)] by auto
  obtain sc3 where "expect KRParen sc2 = Inr (?r, sc3)" "ahead sc3 ts"
    using ahead_expect [OF p(2)] by auto
  then show ?thesis
    using e p by (simp add: parse_function_call_def)
qed

text \<open>An expression that starts with a name, read after the name.\<close>

lemma parse_name_tokens:
  assumes "rnest e" and "expr_tokens e = name_token v # us" and "ahead sc (us @ t # ts)" and "kind t \<noteq> KPlus"
  shows "\<exists>sc'. parse_expression_name v sc = Inr (e, sc') \<and> ahead sc' (t # ts)"
proof -
  define sc0 where "sc0 = sc\<lparr>buffer := name_token v, full := True, source := source sc\<rparr>"
  have "e = Var_prod v \<and> us = [] \<or>
    (\<exists>r. e = Plus_prod (Var_prod v) r \<and> rnest r \<and> us = punct KPlus CHR ''+'' # expr_tokens r)"
    using assms(1,2) by (cases e rule: rnest.cases) (auto simp: name_token_def int_token_def)
  then show ?thesis
  proof (elim disjE exE conjE)
    assume e: "e = Var_prod v" "us = []"
    obtain sc1 where "scanner_peek sc = Inr (t, sc1)" "ahead sc1 (t # ts)"
      using ahead_peek [of sc t ts] assms(3) e(2) by (metis append_Nil)
    then show ?thesis
      using e assms(4) by (simp add: parse_expression_name.simps [of v sc])
  next
    fix r
    let ?p = "punct KPlus CHR ''+''"
    assume e: "e = Plus_prod (Var_prod v) r" "rnest r" "us = ?p # expr_tokens r"
    obtain sc2 where p: "scanner_peek sc = Inr (?p, sc2)" "ahead sc2 (?p # expr_tokens r @ t # ts)"
      using ahead_peek [of sc ?p "expr_tokens r @ t # ts"] assms(3) e(3) by (metis append_Cons)
    obtain sc3 where x: "expect KPlus sc2 = Inr (?p, sc3)" "ahead sc3 (expr_tokens r @ t # ts)"
      using ahead_expect [OF p(2)] by auto
    obtain sc' where "parse_expression sc3 = Inr (r, sc')" "ahead sc' (t # ts)"
      using parse_expr_tokens [OF e(2) x(2) assms(4)] by blast
    then show ?thesis
      using e p x by (simp add: parse_expression_name.simps [of v sc] parse_plus.simps [of _ sc2])
  qed
qed

lemma expr_tokens_name:
  "expr_tokens e = t # us \<Longrightarrow> kind t = KName \<Longrightarrow> \<exists>v. t = name_token v"
proof (induction e arbitrary: us)
  case (Plus_prod l r)
  then show ?case by (cases "expr_tokens l") auto
qed (auto simp: int_token_def)

lemma expr_tokens_second:
  "rnest e \<Longrightarrow> expr_tokens e = t # u # us \<Longrightarrow> kind u = KPlus"
  by (cases e rule: rnest.cases) auto

lemma statement_tokens_parse:
  assumes "statement_ok p" and "ahead sc (statement_tokens p @ t # ts)" and "kind t \<notin> {KPlus, KLParen}"
  shows "\<exists>sc'. parse_statement sc = Inr (p, sc') \<and> ahead sc' (t # ts)"
proof (cases p)
  case (Expr_prod e)
  then have rn: "rnest e" and a: "ahead sc (expr_tokens e @ t # ts)"
    using assms by simp_all
  obtain u us where u: "expr_tokens e = u # us" "kind u = KName \<or> kind u = KInt"
    using expr_tokens_hd .
  obtain sc1 where p: "scanner_peek sc = Inr (u, sc1)" "ahead sc1 (expr_tokens e @ t # ts)"
    "ignore (kind u) sc1 = Inr (sc1\<lparr>full := False\<rparr>)" "ahead (sc1\<lparr>full := False\<rparr>) (us @ t # ts)"
    using ahead_peek [of sc u "us @ t # ts"] a u(1) by (metis append_Cons)
  show ?thesis
  proof (cases "kind u = KInt")
    case True
    moreover obtain sc' where "parse_expression sc1 = Inr (e, sc')" "ahead sc' (t # ts)"
      using parse_expr_tokens [OF rn p(2)] assms(3) by auto
    ultimately show ?thesis
      using p(1) Expr_prod by (simp add: parse_statement_def)
  next
    case False
    then obtain v where v: "u = name_token v"
      using expr_tokens_name [OF u(1)] u(2) by blast
    obtain w ws where w: "us @ t # ts = w # ws" by (cases "us @ t # ts") auto
    have "kind w \<noteq> KLParen"
    proof (cases us)
      case Nil
      then show ?thesis using w assms(3) by auto
    next
      case (Cons u' us')
      then have "kind u' = KPlus" using expr_tokens_second [OF rn, of u u' us'] u(1) by blast
      then show ?thesis using w Cons by auto
    qed
    moreover obtain sc3 where q: "scanner_peek (sc1\<lparr>full := False\<rparr>) = Inr (w, sc3)" "ahead sc3 (us @ t # ts)"
      using ahead_peek [of "sc1\<lparr>full := False\<rparr>" w ws] p(4) w by metis
    moreover obtain sc' where "parse_expression_name v sc3 = Inr (e, sc')" "ahead sc' (t # ts)"
      using parse_name_tokens [OF rn _ q(2), of v] u(1) v assms(3) by auto
    ultimately show ?thesis
      using p(1,3) v Expr_prod by (simp add: parse_statement_def del: ignore_peeked)
  qed
next
  case (FuncCall_prod f ps)
  let ?n = "name_token f" and ?l = "punct KLParen CHR ''(''"
  have rn: "list_all rnest ps" and a: "ahead sc (?n # tl (call_tokens f ps) @ t # ts)"
    using assms FuncCall_prod by (simp_all add: call_tokens_def)
  obtain sc1 where p: "scanner_peek sc = Inr (?n, sc1)"
    "ignore KName sc1 = Inr (sc1\<lparr>full := False\<rparr>)" "ahead (sc1\<lparr>full := False\<rparr>) (tl (call_tokens f ps) @ t # ts)"
    using ahead_peek [OF a] by (metis kinds(2))
  have tl: "tl (call_tokens f ps) @ t # ts = ?l # tl (tl (call_tokens f ps)) @ t # ts"
    by (simp add: call_tokens_def)
  obtain sc3 where q: "scanner_peek (sc1\<lparr>full := False\<rparr>) = Inr (?l, sc3)"
    "ahead sc3 (tl (call_tokens f ps) @ t # ts)"
    using ahead_peek [of "sc1\<lparr>full := False\<rparr>" ?l] p(3) tl by metis
  obtain sc' where "parse_function_call f sc3 = Inr (FuncCall_prod f ps, sc')" "ahead sc' (t # ts)"
    using call_rest_tokens [OF rn q(2)] by blast
  then show ?thesis
    using p q FuncCall_prod by (simp add: parse_statement_def)
qed (use assms in simp_all)

lemma body_loop_tokens:
  assumes "list_all statement_ok (p # body)" and "kind t \<notin> {KPlus, KLParen, KIndent}"
    and "ahead sc (statement_tokens p @ body_tokens ind body @ t # ts)"
  shows "\<exists>sc'. body_loop acc sc = Inr (acc @ p # body, sc') \<and> ahead sc' (t # ts)"
  using assms
proof (induction body arbitrary: p sc acc)
  case Nil
  obtain sc1 where s: "parse_statement sc = Inr (p, sc1)" "ahead sc1 (t # ts)"
    using statement_tokens_parse [of p sc t ts] Nil by (auto simp: body_tokens_def)
  obtain sc2 where "scanner_peek sc1 = Inr (t, sc2)" "ahead sc2 (t # ts)"
    using ahead_peek [OF s(2)] by metis
  then show ?case
    using s Nil(2) by (simp add: body_loop.simps [of acc sc])
next
  case (Cons q body)
  let ?i = "string_token KIndent ind"
  let ?us = "statement_tokens q @ body_tokens ind body @ t # ts"
  obtain sc1 where s: "parse_statement sc = Inr (p, sc1)" "ahead sc1 (?i # ?us)"
    using statement_tokens_parse [of p sc ?i ?us] Cons.prems by (auto simp: body_tokens_def)
  obtain sc2 where k: "scanner_peek sc1 = Inr (?i, sc2)"
    "ignore KIndent sc2 = Inr (sc2\<lparr>full := False\<rparr>)" "ahead (sc2\<lparr>full := False\<rparr>) ?us"
    using ahead_peek [OF s(2)] by (metis kinds(5))
  obtain sc' where "body_loop (acc @ [p]) (sc2\<lparr>full := False\<rparr>) = Inr ((acc @ [p]) @ q # body, sc')"
    "ahead sc' (t # ts)"
    using Cons.IH [of q "sc2\<lparr>full := False\<rparr>" "acc @ [p]"] Cons.prems k(3) by auto
  then show ?case
    using s k by (simp add: body_loop.simps [of acc sc])
qed

lemma prod_tokens_parse:
  assumes "prod_ok p" and "ahead sc (prod_tokens p @ t # ts)" and "kind t \<notin> {KPlus, KLParen, KIndent}"
  shows "\<exists>sc'. parse_root sc = Inr (p, sc') \<and> ahead sc' (t # ts)"
  using assms(1)
proof (cases p rule: prod_ok.cases)
  case (1 f ps)
  let ?n = "name_token f" and ?l = "punct KLParen CHR ''(''"
  have rn: "list_all rnest ps" and a: "ahead sc (?n # tl (call_tokens f ps) @ t # ts)"
    using assms 1 by (simp_all add: call_tokens_def)
  obtain sc1 where p: "scanner_peek sc = Inr (?n, sc1)"
    "ignore KName sc1 = Inr (sc1\<lparr>full := False\<rparr>)" "ahead (sc1\<lparr>full := False\<rparr>) (tl (call_tokens f ps) @ t # ts)"
    using ahead_peek [OF a] by (metis kinds(2))
  have tl: "tl (call_tokens f ps) @ t # ts = ?l # tl (tl (call_tokens f ps)) @ t # ts"
    by (simp add: call_tokens_def)
  obtain sc3 where q: "scanner_peek (sc1\<lparr>full := False\<rparr>) = Inr (?l, sc3)"
    "ahead sc3 (tl (call_tokens f ps) @ t # ts)"
    using ahead_peek [of "sc1\<lparr>full := False\<rparr>" ?l] p(3) tl by metis
  obtain sc' where "parse_function_call f sc3 = Inr (FuncCall_prod f ps, sc')" "ahead sc' (t # ts)"
    using call_rest_tokens [OF rn q(2)] by blast
  then show ?thesis
    using p q 1 by (simp add: parse_root_def)
next
  case (2 f ps ind body)
  let ?d = "kind_token KDef" and ?n = "name_token f" and ?l = "punct KLParen CHR ''(''"
  let ?r = "punct KRParen CHR '')''" and ?c = "punct KColon CHR '':''" and ?i = "string_token KIndent ind"
  obtain q qs where body: "body = q # qs" using assms(1) 2 by (cases body) auto
  let ?us = "statement_tokens q @ body_tokens ind qs @ t # ts"
  have rn: "list_all rnest ps" and so: "list_all statement_ok (q # qs)"
    and a: "ahead sc (?d # ?n # ?l # param_tokens ps @ ?r # ?c # ?i # ?us)"
    using assms 2 body by (simp_all add: call_tokens_def body_tokens_def)
  obtain sc1 where p: "scanner_peek sc = Inr (?d, sc1)" "ignore KDef sc1 = Inr (sc1\<lparr>full := False\<rparr>)"
    "ahead (sc1\<lparr>full := False\<rparr>) (?n # ?l # param_tokens ps @ ?r # ?c # ?i # ?us)"
    using ahead_peek [OF a] by (metis kinds(4))
  obtain sc2 where n: "expect KName (sc1\<lparr>full := False\<rparr>) = Inr (?n, sc2)"
    "ahead sc2 (?l # param_tokens ps @ ?r # ?c # ?i # ?us)"
    using ahead_expect [OF p(3)] by auto
  obtain sc3 where l: "expect KLParen sc2 = Inr (?l, sc3)" "ahead sc3 (param_tokens ps @ ?r # ?c # ?i # ?us)"
    using ahead_expect [OF n(2)] by auto
  obtain sc4 where ps: "parse_parameters sc3 = Inr (ps, sc4)" "ahead sc4 (?r # ?c # ?i # ?us)"
    using parameters_tokens [OF rn l(2)] by auto
  obtain sc5 where r: "expect KRParen sc4 = Inr (?r, sc5)" "ahead sc5 (?c # ?i # ?us)"
    using ahead_expect [OF ps(2)] by auto
  obtain sc6 where c: "expect KColon sc5 = Inr (?c, sc6)" "ahead sc6 (?i # ?us)"
    using ahead_expect [OF r(2)] by auto
  obtain sc7 where i: "expect KIndent sc6 = Inr (?i, sc7)" "ahead sc7 ?us"
    using ahead_expect [OF c(2)] by auto
  obtain sc' where "body_loop [] sc7 = Inr (q # qs, sc')" "ahead sc' (t # ts)"
    using body_loop_tokens [OF so assms(3) i(2), of "[]"] by auto
  then show ?thesis
    using p n l ps r c i 2 body by (simp add: parse_root_def parse_function_def_def parse_function_body_def)
next
  case (3 v e)
  let ?n = "name_token v" and ?q = "punct KEquals CHR ''=''"
  have rn: "rnest e" and a: "ahead sc (?n # ?q # expr_tokens e @ t # ts)"
    using assms 3 by simp_all
  obtain sc1 where p: "scanner_peek sc = Inr (?n, sc1)"
    "ignore KName sc1 = Inr (sc1\<lparr>full := False\<rparr>)" "ahead (sc1\<lparr>full := False\<rparr>) (?q # expr_tokens e @ t # ts)"
    using ahead_peek [OF a] by (metis kinds(2))
  obtain sc3 where q: "scanner_peek (sc1\<lparr>full := False\<rparr>) = Inr (?q, sc3)" "ahead sc3 (?q # expr_tokens e @ t # ts)"
    using ahead_peek [OF p(3)] by metis
  obtain sc4 where x: "expect KEquals sc3 = Inr (?q, sc4)" "ahead sc4 (expr_tokens e @ t # ts)"
    using ahead_expect [OF q(2)] by auto
  obtain sc' where "parse_expression sc4 = Inr (e, sc')" "ahead sc' (t # ts)"
    using parse_expr_tokens [OF rn x(2)] assms(3) by auto
  then show ?thesis
    using p q x 3 by (simp add: parse_root_def parse_declaration_def)
qed simp_all

text \<open>A token is ahead, and it is not the end: the stream is good.\<close>

lemma ahead_good:
  assumes "ahead sc (t # ts)" and "kind t \<noteq> KEof"
  shows "scanner_good sc"
proof (cases "full sc")
  case True
  then show ?thesis
    using assms by (auto simp: scanner_get_def scanner_good_def good_def)
next
  case False
  then obtain src where s: "scan (source sc) = Inr (t, src)"
    using assms(1) by (auto simp: scanner_get_def)
  show ?thesis
  proof (rule ccontr)
    assume "\<not> scanner_good sc"
    then have "\<not> good (source sc)" by (auto simp: scanner_good_def good_def)
    then have "scan (source sc) = Inl (Fault Uninitialised) \<or> kind t = KEof"
      using s scan_ended [of "source sc"] scan_stuck [of "source sc"] by (cases "eofbit (source sc)") (auto simp: good_def)
    with s assms(2) show False by simp
  qed
qed

lemma prod_tokens_hd:
  assumes "prod_ok p"
  obtains t ts where "prod_tokens p = t # ts" "kind t \<in> {KDef, KName}"
  using assms by (cases p rule: prod_ok.cases) (auto simp: call_tokens_def)

definition eof_token :: token where
  "eof_token = kind_token KEof"

lemma parse_program_tokens:
  assumes "list_all prod_ok ps" and "ahead sc (concat (map prod_tokens ps) @ [eof_token])"
    and "length ps < fuel" and "ps = [] \<Longrightarrow> scanner_good sc"
  shows "parse_program fuel sc = Inr (ps @ [Eof_prod]) \<or> ps \<noteq> [] \<and> parse_program fuel sc = Inr ps"
  using assms
proof (induction ps arbitrary: sc fuel)
  case Nil
  then obtain f where f: "fuel = Suc f" by (cases fuel) auto
  obtain sc1 where "scanner_peek sc = Inr (eof_token, sc1)" "\<not> good (source sc1)"
    using ahead_peek [of sc eof_token "[]"] Nil.prems(2) by (auto simp: eof_token_def)
  then show ?case
    using f by (auto simp: parse_root_def eof_token_def scanner_good_def)
next
  case (Cons p ps)
  then obtain f where f: "fuel = Suc f" by (cases fuel) auto
  obtain t ts where t: "concat (map prod_tokens ps) @ [eof_token] = t # ts" "kind t \<in> {KDef, KName, KEof}"
    "kind t = KEof \<longrightarrow> ps = []"
  proof (cases ps)
    case Nil
    then show ?thesis using that by (simp add: eof_token_def)
  next
    case (Cons q qs)
    with Cons.prems(1) obtain t ts where "prod_tokens q = t # ts" "kind t \<in> {KDef, KName}"
      using prod_tokens_hd [of q] by auto
    with Cons that show ?thesis by auto
  qed
  obtain sc' where r: "parse_root sc = Inr (p, sc')" "ahead sc' (concat (map prod_tokens ps) @ [eof_token])"
    using prod_tokens_parse [of p sc t ts] Cons.prems(1,2) t by auto
  show ?case
  proof (cases "scanner_good sc'")
    case True
    then show ?thesis
      using Cons.IH [of sc' f] Cons.prems(1,3) r f by auto
  next
    case False
    then have "kind t = KEof"
      using ahead_good r(2) unfolding t(1) by blast
    then show ?thesis
      using t(3) False r(1) f by simp
  qed
qed

section \<open>Text\<close>

definition name_ok :: "string \<Rightarrow> bool" where
  "name_ok v \<longleftrightarrow> v \<noteq> [] \<and> is_alpha (hd v) \<and> list_all is_name_char v \<and> v \<noteq> ''def''"

definition indent_ok :: "string \<Rightarrow> bool" where
  "indent_ok v \<longleftrightarrow> v \<noteq> [] \<and> list_all is_space v \<and> hd v \<noteq> newline"

fun tok_text :: "token \<Rightarrow> string" where
  "tok_text t = (case val t of
     VStr v \<Rightarrow> if kind t = KIndent then newline # v else v @ '' ''
   | VInt i \<Rightarrow> if kind t = KDef then ''def '' else show_nat (nat i) @ '' ''
   | VChar c \<Rightarrow> [c, CHR '' ''])"

declare tok_text.simps [simp del]

text \<open>The tokens a text can hold.\<close>

definition text_ok :: "token \<Rightarrow> bool" where
  "text_ok t \<longleftrightarrow> (\<exists>v. t = name_token v \<and> name_ok v) \<or> (\<exists>v. t = string_token KIndent v \<and> indent_ok v) \<or>
     (\<exists>i. t = int_token i \<and> 0 \<le> i \<and> in_int i) \<or> t = kind_token KDef \<or>
     (\<exists>k c. t = punct k c \<and> c \<in> set ''()+-:,='' \<and> make_kind c = Inr k)"

text \<open>\<open>lexes cs ts\<close>: reading \<open>cs\<close> gives \<open>ts\<close>, and then the end.\<close>

fun lexes :: "string \<Rightarrow> token list \<Rightarrow> bool" where
  "lexes cs [] \<longleftrightarrow> (\<exists>src. lexer cs = Inr (eof_token, src) \<and> \<not> good src)"
| "lexes cs (t # ts) \<longleftrightarrow> kind t \<noteq> KEof \<and> (\<exists>ds. lexer cs = Inr (t, of_string ds) \<and> lexes ds ts)"

lemma lexes_ahead:
  "lexes cs ts \<Longrightarrow> \<not> full sc \<Longrightarrow> source sc = of_string cs \<Longrightarrow> ahead sc (ts @ [eof_token])"
proof (induction ts arbitrary: cs sc)
  case Nil
  then show ?case
    by (auto simp: scanner_get_def scan_lex eof_token_def)
next
  case (Cons t ts)
  then obtain ds where "lexer cs = Inr (t, of_string ds)" "lexes ds ts" "kind t \<noteq> KEof" by auto
  then show ?case
    using Cons.IH [of ds "sc\<lparr>source := of_string ds\<rparr>"] Cons.prems by (auto simp: scanner_get_def scan_lex)
qed

text \<open>Blanks between tokens and newlines before a token that starts a line are skipped.\<close>

lemma space_class [simp]:
  "is_space CHR '' ''" "\<not> is_digit CHR '' ''" "\<not> is_alpha CHR '' ''" "\<not> is_name_char CHR '' ''"
  "CHR '' '' \<noteq> newline" "CHR '' '' \<noteq> byte_eof"
  by (simp_all add: is_space_def is_digit_def is_alpha_def is_name_char_def newline_def byte_eof_def)

definition starts :: "string \<Rightarrow> bool" where
  "starts cs \<longleftrightarrow> cs = [] \<or> hd cs = newline \<or> \<not> is_space (hd cs)"

lemma lexer_space: "starts cs \<Longrightarrow> lexer (CHR '' '' # cs) = lexer cs"
  by (cases cs) (auto simp: starts_def lexer.simps(2) [of "CHR '' ''"])

lemma lexes_space: "starts cs \<Longrightarrow> lexes cs ts \<Longrightarrow> lexes (CHR '' '' # cs) ts"
  by (cases ts) (simp_all add: lexer_space)

lemma lexer_newline:
  assumes "cs = [] \<or> \<not> is_space (hd cs)"
  shows "lexer (newline # cs) = lexer cs"
proof (cases cs)
  case (Cons c r)
  then have "c \<noteq> newline" using assms by auto
  then show ?thesis
    using assms Cons unfolding lexer.simps(2) [of newline cs] by simp
qed (simp add: lexer.simps(2))

lemma lexes_newline:
  "cs = [] \<or> \<not> is_space (hd cs) \<Longrightarrow> lexes cs ts \<Longrightarrow> lexes (newline # cs) ts"
  by (cases ts) (simp_all add: lexer_newline)

lemma takeWhile_all_append: "list_all P xs \<Longrightarrow> \<not> P y \<Longrightarrow> takeWhile P (xs @ y # ys) = xs"
  "list_all P xs \<Longrightarrow> \<not> P y \<Longrightarrow> dropWhile P (xs @ y # ys) = y # ys"
  by (induction xs) simp_all

lemma alpha_name: "is_alpha c \<Longrightarrow> c \<noteq> newline \<and> \<not> is_digit c \<and> c \<notin> set ''()+-:,='' \<and> c \<noteq> byte_eof"
  by (auto simp: is_alpha_def newline_def is_digit_def byte_eof_def)

lemma digit_name: "is_digit c \<Longrightarrow> c \<noteq> newline \<and> c \<notin> set ''()+-:,=''"
  by (auto simp: newline_def is_digit_def)

lemma of_string_inject [simp]: "of_string cs = of_string ds \<longleftrightarrow> cs = ds"
  by (auto simp: of_string_def)

text \<open>One token.\<close>

lemma lexes_token:
  assumes "text_ok t" and "lexes cs ts" and "starts cs" and "kind t = KIndent \<Longrightarrow> cs \<noteq> [] \<and> \<not> is_space (hd cs)"
  shows "lexes (tok_text t @ cs) (t # ts)"
  using assms(1) unfolding text_ok_def
proof (elim disjE exE conjE)
  fix v
  assume t: "t = name_token v" and v: "name_ok v"
  then obtain c w where cw: "v = c # w" "is_alpha c" "list_all is_name_char w"
    by (cases v) (auto simp: name_ok_def)
  have "lexer (v @ CHR '' '' # cs) = Inr (name_token v, of_string (CHR '' '' # cs))"
    using v cw alpha_name [OF cw(2)]
    by (auto simp: lexer.simps(2) [of c] takeWhile_all_append Let_def name_ok_def)
  then show ?thesis
    using t lexes_space [OF assms(3,2)] by (simp add: tok_text.simps name_token_def)
next
  fix v
  assume t: "t = string_token KIndent v" and v: "indent_ok v"
  then obtain c w where cw: "v = c # w" "is_space c" "list_all is_space w" "c \<noteq> newline"
    by (cases v) (auto simp: indent_ok_def)
  obtain d ds where d: "cs = d # ds" "\<not> is_space d"
    using assms(4) t by (cases cs) auto
  have "lexer (newline # v @ cs) = Inr (t, behind cs)"
    using cw d t unfolding lexer.simps(2) [of newline]
    by (simp add: takeWhile_all_append)
  then show ?thesis
    using t d assms(2) by (simp add: tok_text.simps string_token_def)
next
  fix i
  assume t: "t = int_token i" and i: "0 \<le> i" "in_int i"
  note dg = show_nat_digits [of "nat i"]
  obtain c w where cw: "show_nat (nat i) = c # w" "is_digit c" "list_all is_digit w"
    using dg by (cases "show_nat (nat i)") (auto simp: list_all_iff)
  have n: "number (c # w) = i" using dg i cw(1) by simp
  have "lexer (show_nat (nat i) @ CHR '' '' # cs) = Inr (t, of_string (CHR '' '' # cs))"
    using cw n i t digit_name [OF cw(2)]
    by (simp add: lexer.simps(2) [of c] takeWhile_all_append Let_def of_string_def)
  then show ?thesis
    using t lexes_space [OF assms(3,2)] by (simp add: tok_text.simps int_token_def)
next
  assume t: "t = kind_token KDef"
  have "lexer (''def '' @ cs) = Inr (t, of_string (CHR '' '' # cs))"
    using t unfolding append_Cons append_Nil lexer.simps(2) [of "CHR ''d''"]
    by (simp add: is_name_char_def is_alpha_def is_digit_def newline_def byte_eof_def Let_def)
  then show ?thesis
    using t lexes_space [OF assms(3,2)] by (simp add: tok_text.simps kind_token_def)
next
  fix k c
  assume t: "t = punct k c" and c: "c \<in> set ''()+-:,=''" "make_kind c = Inr k"
  then have "k \<noteq> KEof" by (auto simp: make_kind_def split: if_splits)
  moreover have "lexer (c # CHR '' '' # cs) = Inr (t, of_string (CHR '' '' # cs))"
    using c t by (simp add: lexer.simps(2) [of c] char_token_def punct_def)
  ultimately show ?thesis
    using t lexes_space [OF assms(3,2)] by (simp add: tok_text.simps punct_def)
qed


text \<open>A token list in which every indentation is followed by another token.\<close>

fun spaced :: "token list \<Rightarrow> bool" where
  "spaced [] \<longleftrightarrow> True"
| "spaced (t # ts) \<longleftrightarrow> (kind t = KIndent \<longrightarrow> ts \<noteq> [] \<and> kind (hd ts) \<noteq> KIndent) \<and> spaced ts"

lemma spaced_append: "spaced xs \<Longrightarrow> spaced ys \<Longrightarrow> spaced (xs @ ys)"
  by (induction xs) auto

lemma spaced_plain: "(\<And>t. t \<in> set ts \<Longrightarrow> kind t \<noteq> KIndent) \<Longrightarrow> spaced ts"
  by (induction ts) auto

lemma expr_tokens_plain: "t \<in> set (expr_tokens e) \<Longrightarrow> kind t \<noteq> KIndent"
  by (induction e) auto

lemma param_tokens_plain: "t \<in> set (param_tokens ps) \<Longrightarrow> kind t \<noteq> KIndent"
  by (induction ps rule: param_tokens.induct) (auto dest: expr_tokens_plain)

lemma call_tokens_plain: "t \<in> set (call_tokens f ps) \<Longrightarrow> kind t \<noteq> KIndent"
  by (auto simp: call_tokens_def dest: param_tokens_plain)

lemma statement_tokens_plain: "t \<in> set (statement_tokens p) \<Longrightarrow> kind t \<noteq> KIndent"
  by (cases p) (auto dest: expr_tokens_plain call_tokens_plain)

lemma expr_tokens_ne [simp]: "expr_tokens e \<noteq> []"
  by (induction e) simp_all

lemma body_tokens_spaced: "list_all statement_ok body \<Longrightarrow> spaced (body_tokens ind body)"
proof (induction body)
  case (Cons p body)
  have "statement_tokens p \<noteq> []"
    using Cons.prems by (cases p) (simp_all add: call_tokens_def)
  then obtain t ts where t: "statement_tokens p = t # ts" by (cases "statement_tokens p") auto
  then have "kind t \<noteq> KIndent" using statement_tokens_plain [of t p] by simp
  moreover have "spaced (statement_tokens p @ body_tokens ind body)"
    using Cons statement_tokens_plain [of _ p] by (intro spaced_append spaced_plain [of "statement_tokens p"]) auto
  ultimately show ?case
    using t by (simp add: body_tokens_def)
qed (simp add: body_tokens_def)

lemma prod_tokens_spaced: "prod_ok p \<Longrightarrow> spaced (prod_tokens p)"
proof (cases p rule: prod_ok.cases)
  case (2 f ps ind body)
  assume "prod_ok p"
  then have "spaced (body_tokens ind body)"
    using 2 by (simp add: body_tokens_spaced)
  moreover have "spaced (kind_token KDef # call_tokens f ps @ [punct KColon CHR '':''])"
    using call_tokens_plain [of _ f ps] by (intro spaced_plain) auto
  ultimately show ?thesis
    using 2 spaced_append by fastforce
qed (auto intro!: spaced_plain dest: call_tokens_plain expr_tokens_plain)

lemma tok_text_hd:
  assumes "text_ok t"
  shows "tok_text t \<noteq> []" and "kind t \<noteq> KIndent \<Longrightarrow> \<not> is_space (hd (tok_text t))"
    and "kind t = KIndent \<Longrightarrow> hd (tok_text t) = newline"
proof -
  have "tok_text t \<noteq> [] \<and> (kind t \<noteq> KIndent \<longrightarrow> \<not> is_space (hd (tok_text t))) \<and>
    (kind t = KIndent \<longrightarrow> hd (tok_text t) = newline)"
    using assms unfolding text_ok_def
  proof (elim disjE exE conjE)
    fix v
    assume "t = name_token v" "name_ok v"
    then show ?thesis
      by (cases v) (auto simp: tok_text.simps name_token_def name_ok_def)
  next
    fix i
    assume "t = int_token i" "0 \<le> i" "in_int i"
    then show ?thesis
      using show_nat_digits [of "nat i"] by (cases "show_nat (nat i)") (auto simp: tok_text.simps int_token_def)
  next
    fix k c
    assume "t = punct k c" "c \<in> set ''()+-:,=''" "make_kind c = Inr k"
    then show ?thesis
      by (auto simp: tok_text.simps punct_def make_kind_def is_space_def split: if_splits)
  qed (auto simp: tok_text.simps string_token_def kind_token_def is_space_def)
  then show "tok_text t \<noteq> []" and "kind t \<noteq> KIndent \<Longrightarrow> \<not> is_space (hd (tok_text t))"
    and "kind t = KIndent \<Longrightarrow> hd (tok_text t) = newline"
    by simp_all
qed

definition tokens_text :: "token list \<Rightarrow> string" where
  "tokens_text ts = concat (map tok_text ts)"

lemma lexes_tokens:
  assumes "list_all text_ok ts" and "spaced ts" and "lexes cs us" and "starts cs"
  shows "lexes (tokens_text ts @ cs) (ts @ us) \<and> starts (tokens_text ts @ cs) \<and>
    (ts \<noteq> [] \<longrightarrow> kind (hd ts) \<noteq> KIndent \<longrightarrow> tokens_text ts \<noteq> [] \<and> \<not> is_space (hd (tokens_text ts)))"
  using assms(1,2)
proof (induction ts)
  case Nil
  then show ?case using assms(3,4) by (simp add: tokens_text_def)
next
  case (Cons t ts)
  have h: "tok_text t \<noteq> []" "kind t \<noteq> KIndent \<Longrightarrow> \<not> is_space (hd (tok_text t))"
    "kind t = KIndent \<Longrightarrow> hd (tok_text t) = newline"
    using tok_text_hd [of t] Cons.prems by simp_all
  have IH: "lexes (tokens_text ts @ cs) (ts @ us)" "starts (tokens_text ts @ cs)"
    "ts \<noteq> [] \<Longrightarrow> kind (hd ts) \<noteq> KIndent \<Longrightarrow> tokens_text ts \<noteq> [] \<and> \<not> is_space (hd (tokens_text ts))"
    using Cons by simp_all
  have "lexes (tok_text t @ tokens_text ts @ cs) (t # ts @ us)"
    using Cons.prems IH by (intro lexes_token) auto
  then show ?case
    using h by (cases "kind t = KIndent") (auto simp: tokens_text_def starts_def)
qed

text \<open>The text of a program: each production on its own lines.\<close>

definition prog_text :: "production list \<Rightarrow> string" where
  "prog_text ps = concat (map (\<lambda>p. tokens_text (prod_tokens p) @ [newline]) ps)"

text \<open>What can be written: productions of the grammar whose names, numbers and indentations are lexically right.\<close>

definition printable :: "production \<Rightarrow> bool" where
  "printable p \<longleftrightarrow> prod_ok p \<and> list_all text_ok (prod_tokens p)"

lemma lexes_program:
  assumes "list_all printable ps"
  shows "lexes (prog_text ps) (concat (map prod_tokens ps)) \<and>
    (prog_text ps = [] \<or> \<not> is_space (hd (prog_text ps)))"
  using assms
proof (induction ps)
  case Nil
  show ?case by (simp add: prog_text_def eof_token_def)
next
  case (Cons p ps)
  let ?ts = "prod_tokens p"
  have p: "prod_ok p" "list_all text_ok ?ts"
    using Cons.prems by (simp_all add: printable_def)
  obtain t ts where t: "?ts = t # ts" "kind t \<in> {KDef, KName}"
    using prod_tokens_hd [OF p(1)] .
  have nl: "lexes (newline # prog_text ps) (concat (map prod_tokens ps))" "starts (newline # prog_text ps)"
    using Cons by (auto intro: lexes_newline simp: starts_def)
  have "lexes (tokens_text ?ts @ newline # prog_text ps) (?ts @ concat (map prod_tokens ps))"
    "tokens_text ?ts \<noteq> []" "\<not> is_space (hd (tokens_text ?ts))"
    using lexes_tokens [OF p(2) prod_tokens_spaced [OF p(1)] nl] t by auto
  then show ?case
    by (simp add: prog_text_def)
qed

lemma parse_print:
  assumes "list_all printable ps" and "length ps < fuel"
  shows "parse_program fuel (new_scanner (of_string (prog_text ps))) \<in> {Inr ps, Inr (ps @ [Eof_prod])}"
proof -
  have "list_all prod_ok ps"
    using assms(1) by (auto simp: list_all_iff printable_def)
  moreover have "ahead (new_scanner (of_string (prog_text ps))) (concat (map prod_tokens ps) @ [eof_token])"
    using lexes_program [OF assms(1)] by (intro lexes_ahead) (auto simp: new_scanner_def)
  moreover have "scanner_good (new_scanner (of_string (prog_text ps)))"
    by (simp add: scanner_good_def new_scanner_def)
  ultimately show ?thesis
    using parse_program_tokens [of ps _ fuel] assms(2) by blast
qed

end
