(* ===== verification/PunyPy_Semantics.thy ===== *)
theory PunyPy_Semantics
  imports PunyPy_Parser
begin

text \<open>
  \<^verbatim>\<open>Parsers/Punypy-parser\<close>: the world (\<^verbatim>\<open>PunyPyWorld.h\<close>, \<^verbatim>\<open>PunyPyWorld.cpp\<close>), the analyser and the
  interpreter (\<^verbatim>\<open>Production.h\<close>, \<^verbatim>\<open>Production.cpp\<close>, \<^verbatim>\<open>Analyzer.h\<close>, \<^verbatim>\<open>Interpreter.h\<close>) and \<^verbatim>\<open>main\<close>.
  The analysis changes the world it is given, also when it throws, so it returns the world together
  with its outcome; what the interpretation prints is kept the same way.
\<close>

section \<open>The world\<close>

record func =
  func_name :: string
  func_params :: "expression list"
  func_body :: production

record world =
  variables :: "string \<rightharpoonup> int"
  funcs :: "string \<rightharpoonup> func"
  buildins :: "string \<rightharpoonup> (int list \<Rightarrow> int list \<times> int)"

definition empty_world :: world where
  "empty_world = \<lparr>variables = Map.empty, funcs = Map.empty, buildins = Map.empty\<rparr>"

definition get_var :: "world \<Rightarrow> string \<Rightarrow> int \<times> bool" where
  "get_var w n = (case variables w n of Some v \<Rightarrow> (v, True) | None \<Rightarrow> (0, False))"

definition set_var :: "string \<Rightarrow> int \<Rightarrow> world \<Rightarrow> world" where
  "set_var n v w = w\<lparr>variables := (variables w)(n \<mapsto> v)\<rparr>"

definition get_func :: "world \<Rightarrow> string \<Rightarrow> func option" where
  "get_func w n = funcs w n"

definition set_func :: "string \<Rightarrow> func \<Rightarrow> world \<Rightarrow> world \<times> (perror + unit)" where
  "set_func n f w =
     (if funcs w n = None then (w\<lparr>funcs := (funcs w)(n \<mapsto> f)\<rparr>, Inr ())
      else (w, Inl Bad_declaration))"

definition get_buildin :: "world \<Rightarrow> string \<Rightarrow> (int list \<Rightarrow> int list \<times> int) option" where
  "get_buildin w n = buildins w n"

definition set_buildin ::
  "string \<Rightarrow> (int list \<Rightarrow> int list \<times> int) \<Rightarrow> world \<Rightarrow> world \<times> (perror + unit)" where
  "set_buildin n f w =
     (if buildins w n = None then (w\<lparr>buildins := (buildins w)(n \<mapsto> f)\<rparr>, Inr ())
      else (w, Inl Bad_declaration))"

section \<open>Analysis\<close>

text \<open>Doing one thing after another, keeping the world when the first throws.\<close>

definition andthen :: "world \<times> (perror + unit) \<Rightarrow> (world \<Rightarrow> world \<times> (perror + unit)) \<Rightarrow> world \<times> (perror + unit)" where
  "andthen r f = (case r of (w, Inl e) \<Rightarrow> (w, Inl e) | (w, Inr _) \<Rightarrow> f w)"

lemma andthen_simps [simp]:
  "andthen (w, Inl e) f = (w, Inl e)"
  "andthen (w, Inr u) f = f w"
  by (simp_all add: andthen_def)

lemma andthen_Inr_iff:
  "andthen r f = (w', Inr u) \<longleftrightarrow> (\<exists>w. r = (w, Inr ()) \<and> f w = (w', Inr u))"
  by (cases r; cases "snd r") auto

lemma andthen_cong [fundef_cong]:
  "r = r' \<Longrightarrow> (\<And>w. r' = (w, Inr ()) \<Longrightarrow> f w = f' w) \<Longrightarrow> andthen r f = andthen r' f'"
  by (cases r'; cases "snd r'") (auto simp: andthen_def)

fun expr_value :: "expression \<Rightarrow> perror + int" where
  "expr_value (Int_prod i) = Inr i"
| "expr_value _ = Inl Bad_production"

fun expr_name :: "expression \<Rightarrow> perror + string" where
  "expr_name (Var_prod v) = Inr v"
| "expr_name _ = Inl Bad_production"

fun analyze_expr :: "world \<Rightarrow> expression \<Rightarrow> perror + unit" where
  "analyze_expr w (Int_prod i) = Inr ()"
| "analyze_expr w (Var_prod v) = guard Bad_production (snd (get_var w v))"
| "analyze_expr w (Plus_prod l r) = bnd (analyze_expr w l) (\<lambda>_. analyze_expr w r)"

fun analyze_params :: "world \<Rightarrow> expression list \<Rightarrow> perror + unit" where
  "analyze_params w [] = Inr ()"
| "analyze_params w (e # es) = bnd (analyze_expr w e) (\<lambda>_. analyze_params w es)"

definition analyze_call :: "world \<Rightarrow> string \<Rightarrow> expression list \<Rightarrow> perror + unit" where
  "analyze_call w n ps =
     bnd (analyze_params w ps) (\<lambda>_.
       case get_buildin w n of
         Some f \<Rightarrow> Inr ()
       | None \<Rightarrow>
           (case get_func w n of
              None \<Rightarrow> Inl Bad_production
            | Some f \<Rightarrow> guard Bad_production (length ps = length (func_params f))))"

fun analyze :: "production \<Rightarrow> world \<Rightarrow> world \<times> (perror + unit)"
and analyze_list :: "production list \<Rightarrow> world \<Rightarrow> world \<times> (perror + unit)" where
  "analyze (Expr_prod e) w = (w, analyze_expr w e)"
| "analyze (FuncCall_prod n ps) w = (w, analyze_call w n ps)"
| "analyze (FuncDef_prod n ps body) w =
     andthen (analyze body w) (\<lambda>w1.
       set_func n \<lparr>func_name = n, func_params = ps, func_body = body\<rparr> w1)"
| "analyze (Funcbod_prod ind ps) w = analyze_list ps w"
| "analyze (Decl_prod n e) w =
     (case bnd (analyze_expr w e) (\<lambda>_. expr_value e) of
        Inl err \<Rightarrow> (w, Inl err)
      | Inr v \<Rightarrow> (set_var n v w, Inr ()))"
| "analyze Eof_prod w = (w, Inr ())"
| "analyze_list [] w = (w, Inr ())"
| "analyze_list (p # ps) w = andthen (analyze p w) (analyze_list ps)"

section \<open>Interpretation\<close>

definition int_plus :: "int \<Rightarrow> int \<Rightarrow> perror + int" where
  "int_plus a b = (if in_int (a + b) then Inr (a + b) else Inl (Fault Signed_Overflow))"

fun interp_expr :: "world \<Rightarrow> expression \<Rightarrow> perror + int" where
  "interp_expr w (Int_prod i) = Inr i"
| "interp_expr w (Var_prod v) = Inr (fst (get_var w v))"
| "interp_expr w (Plus_prod l r) =
     bnd (interp_expr w l) (\<lambda>a. bnd (interp_expr w r) (\<lambda>b. int_plus a b))"

fun interp_params :: "world \<Rightarrow> expression list \<Rightarrow> perror + int list" where
  "interp_params w [] = Inr []"
| "interp_params w (e # es) = bnd (interp_expr w e) (\<lambda>v. bnd (interp_params w es) (\<lambda>vs. Inr (v # vs)))"

text \<open>The loop that assigns the arguments to the parameters in the local copy of the world.\<close>

fun assign_params :: "int list \<Rightarrow> expression list \<Rightarrow> world \<Rightarrow> perror + world" where
  "assign_params (v # vs) (e # es) w =
     bnd (expr_name e) (\<lambda>n. assign_params vs es (set_var n v w))"
| "assign_params _ _ w = Inr w"

text \<open>
  A call: the built-in of that name, or else the function of that name, dereferenced without a
  check, with its body run in a copy of the caller's world. The fuel bounds the depth of calls.
\<close>

fun interp :: "nat \<Rightarrow> production \<Rightarrow> world \<Rightarrow> int list \<times> (perror + int)"
and interp_list :: "nat \<Rightarrow> production list \<Rightarrow> int \<Rightarrow> world \<Rightarrow> int list \<times> (perror + int)" where
  "interp fuel (Expr_prod e) w = ([], interp_expr w e)"
| "interp fuel (FuncCall_prod n ps) w =
     (case get_buildin w n of
        Some f \<Rightarrow>
          (case interp_params w ps of
             Inl e \<Rightarrow> ([], Inl e)
           | Inr vs \<Rightarrow> (fst (f vs), Inr (snd (f vs))))
      | None \<Rightarrow>
          (case interp_params w ps of
             Inl e \<Rightarrow> ([], Inl e)
           | Inr vs \<Rightarrow>
               (case get_func w n of
                  None \<Rightarrow> ([], Inl (Fault Null_Deref))
                | Some f \<Rightarrow>
                    (case assign_params vs (func_params f) w of
                       Inl e \<Rightarrow> ([], Inl e)
                     | Inr local_world \<Rightarrow>
                         (case fuel of
                            0 \<Rightarrow> ([], Inl (Fault Diverges))
                          | Suc fuel' \<Rightarrow> interp fuel' (func_body f) local_world)))))"
| "interp fuel (FuncDef_prod n ps body) w = ([], Inr 0)"
| "interp fuel (Funcbod_prod ind ps) w = interp_list fuel ps 0 w"
| "interp fuel (Decl_prod n e) w = ([], interp_expr w e)"
| "interp fuel Eof_prod w = ([], Inr 0)"
| "interp_list fuel [] res w = ([], Inr res)"
| "interp_list fuel (p # ps) res w =
     (case interp fuel p w of
        (out, Inl e) \<Rightarrow> (out, Inl e)
      | (out, Inr v) \<Rightarrow> (case interp_list fuel ps v w of (out', r) \<Rightarrow> (out @ out', r)))"

section \<open>The program\<close>

definition print_buildin :: "int list \<Rightarrow> int list \<times> int" where
  "print_buildin vs = (vs, 0)"

definition main_world :: world where
  "main_world = fst (set_buildin ''print'' print_buildin empty_world)"

text \<open>
  \<^verbatim>\<open>main\<close>: a parse error ends the program; an analysis error is reported, and the productions are
  interpreted all the same, in the world the analysis has left.
\<close>

record outcome =
  listing :: string
  analysed :: "perror + unit"
  printed :: "int list"
  interpreted :: "perror + int"

definition run_program :: "nat \<Rightarrow> nat \<Rightarrow> string \<Rightarrow> perror + outcome" where
  "run_program pfuel fuel text =
     bnd (parse_program pfuel (new_scanner (of_string text))) (\<lambda>prods.
       let (w, r) = analyze_list prods main_world; (out, v) = interp_list fuel prods 0 w
       in Inr \<lparr>listing = concat (map (\<lambda>p. rep p @ [newline]) prods),
         analysed = r, printed = out, interpreted = v\<rparr>)"

section \<open>Worlds whose calls go down\<close>

text \<open>
  \<open>calls_below w rk r p\<close>: every call in \<open>p\<close> is of a built-in or of a declared function of rank below
  \<open>r\<close>. In a \<open>ranked\<close> world the calls in the body of a function go to functions of lower rank, so
  calls nest no deeper than the rank.
\<close>

fun calls_below :: "world \<Rightarrow> (string \<Rightarrow> nat) \<Rightarrow> nat \<Rightarrow> production \<Rightarrow> bool" where
  "calls_below w rk r (FuncCall_prod n ps) \<longleftrightarrow>
     get_buildin w n \<noteq> None \<or> get_func w n \<noteq> None \<and> rk n < r"
| "calls_below w rk r (Funcbod_prod ind ps) \<longleftrightarrow> list_all (calls_below w rk r) ps"
| "calls_below w rk r _ \<longleftrightarrow> True"

definition ranked :: "(string \<Rightarrow> nat) \<Rightarrow> nat \<Rightarrow> world \<Rightarrow> bool" where
  "ranked rk m w \<longleftrightarrow> (\<forall>n f. funcs w n = Some f \<longrightarrow> rk n < m \<and> calls_below w rk (rk n) (func_body f))"

lemma calls_below_cong:
  assumes "funcs w' = funcs w" and "buildins w' = buildins w"
  shows "calls_below w' rk r p = calls_below w rk r p"
  using assms
  by (induction w rk r p rule: calls_below.induct)
    (auto simp: get_buildin_def get_func_def list_all_iff cong: list.pred_cong)

lemma calls_below_mono: "calls_below w rk r p \<Longrightarrow> r \<le> r' \<Longrightarrow> calls_below w rk r' p"
  by (induction w rk r p rule: calls_below.induct) (auto simp: list_all_iff)

lemma ranked_cong:
  "funcs w' = funcs w \<Longrightarrow> buildins w' = buildins w \<Longrightarrow> ranked rk m w' = ranked rk m w"
  by (simp add: ranked_def calls_below_cong [of w' w])

lemma set_var_simps [simp]:
  "funcs (set_var n v w) = funcs w" "buildins (set_var n v w) = buildins w"
  by (simp_all add: set_var_def)

lemma assign_params_frame:
  "assign_params vs es w = Inr w' \<Longrightarrow> funcs w' = funcs w \<and> buildins w' = buildins w"
  by (induction vs es w rule: assign_params.induct) auto

text \<open>The errors that are left in a ranked world.\<close>

definition run_error :: "perror \<Rightarrow> bool" where
  "run_error e \<longleftrightarrow> e = Bad_production \<or> e = Fault Signed_Overflow"

lemma interp_expr_error: "interp_expr w e = Inl err \<Longrightarrow> err = Fault Signed_Overflow"
  by (induction w e rule: interp_expr.induct) (auto simp: bnd_Inl_iff int_plus_def split: if_splits)

lemma interp_params_error: "interp_params w es = Inl err \<Longrightarrow> err = Fault Signed_Overflow"
  by (induction w es rule: interp_params.induct) (auto simp: bnd_Inl_iff dest: interp_expr_error)

lemma expr_name_error: "expr_name e = Inl err \<Longrightarrow> err = Bad_production"
  by (cases e) auto

lemma assign_params_error: "assign_params vs es w = Inl err \<Longrightarrow> err = Bad_production"
  by (induction vs es w rule: assign_params.induct) (auto simp: bnd_Inl_iff dest: expr_name_error)

lemma interp_ranked:
  "ranked rk m w \<Longrightarrow> calls_below w rk fuel p \<Longrightarrow> snd (interp fuel p w) = Inl e \<Longrightarrow> run_error e"
  "ranked rk m w \<Longrightarrow> list_all (calls_below w rk fuel) ps \<Longrightarrow> snd (interp_list fuel ps v w) = Inl e \<Longrightarrow> run_error e"
proof (induction fuel p w and fuel ps v w rule: interp_interp_list.induct)
  case (1 fuel e w)
  then show ?case by (auto simp: run_error_def dest: interp_expr_error)
next
  case (2 fuel n ps w)
  show ?case
  proof (cases "get_buildin w n")
    case None
    then obtain f where f: "get_func w n = Some f" "rk n < fuel"
      using "2.prems"(2) by auto
    then obtain fuel' where fuel': "fuel = Suc fuel'" "rk n \<le> fuel'" by (cases fuel) auto
    show ?thesis
    proof (cases "interp_params w ps")
      case (Inl err)
      then show ?thesis
        using None "2.prems"(3) by (auto simp: run_error_def dest: interp_params_error)
    next
      case (Inr vs)
      show ?thesis
      proof (cases "assign_params vs (func_params f) w")
        case (Inl err)
        then show ?thesis
          using None Inr f "2.prems"(3) assign_params_error [OF Inl] by (simp add: run_error_def)
      next
        case (Inr lw)
        note fr = assign_params_frame [OF Inr]
        have "ranked rk m lw"
          using "2.prems"(1) fr ranked_cong by blast
        moreover have "calls_below w rk (rk n) (func_body f)"
          using "2.prems"(1) f(1) by (simp add: ranked_def get_func_def)
        then have "calls_below lw rk fuel' (func_body f)"
          using calls_below_mono [OF _ fuel'(2)] fr calls_below_cong [of lw w] by blast
        ultimately show ?thesis
          using "2.IH" [OF None \<open>interp_params w ps = Inr vs\<close> f(1) Inr fuel'(1)] "2.prems"(3)
            None \<open>interp_params w ps = Inr vs\<close> f(1) Inr fuel'(1) by simp
      qed
    qed
  next
    case (Some f)
    then show ?thesis
      using "2.prems"(3) by (auto simp: run_error_def split: sum.splits dest: interp_params_error)
  qed
next
  case (8 fuel p ps res w)
  then show ?case by (auto split: prod.splits sum.splits)
next
  case (5 fuel n e w)
  then show ?case by (auto simp: run_error_def dest: interp_expr_error)
qed simp_all


section \<open>What an analysis that succeeds guarantees\<close>

text \<open>The productions the parser makes: functions are not nested.\<close>

fun statement_shape :: "production \<Rightarrow> bool" where
  "statement_shape (Expr_prod e) \<longleftrightarrow> True"
| "statement_shape (FuncCall_prod n ps) \<longleftrightarrow> True"
| "statement_shape _ \<longleftrightarrow> False"

fun program_shape :: "production \<Rightarrow> bool" where
  "program_shape (FuncDef_prod n ps (Funcbod_prod ind body)) \<longleftrightarrow> list_all statement_shape body"
| "program_shape (FuncDef_prod n ps _) \<longleftrightarrow> False"
| "program_shape (Funcbod_prod ind body) \<longleftrightarrow> False"
| "program_shape _ \<longleftrightarrow> True"

lemma analyze_statement:
  assumes "statement_shape p" and "ranked rk m w" and "analyze p w = (w', Inr ())"
  shows "w' = w \<and> calls_below w rk m p"
  using assms
  by (cases p) (auto simp: analyze_call_def ranked_def get_func_def bnd_Inr_iff split: option.splits)

lemma analyze_statements:
  assumes "list_all statement_shape ps" and "ranked rk m w" and "analyze_list ps w = (w', Inr ())"
  shows "w' = w \<and> list_all (calls_below w rk m) ps"
  using assms(1,3)
proof (induction ps)
  case (Cons p ps)
  then obtain w1 where w1: "analyze p w = (w1, Inr ())" "analyze_list ps w1 = (w', Inr ())"
    by (auto simp: andthen_Inr_iff)
  then have "w1 = w \<and> calls_below w rk m p"
    using analyze_statement [of p] assms(2) Cons.prems(1) by simp
  with Cons w1 show ?case by auto
qed simp

text \<open>One production: the functions declared so far keep their ranks, a new one gets the next.\<close>

definition extends_world :: "(string \<Rightarrow> nat) \<Rightarrow> (string \<Rightarrow> nat) \<Rightarrow> world \<Rightarrow> world \<Rightarrow> bool" where
  "extends_world rk rk' w w' \<longleftrightarrow> buildins w' = buildins w \<and> funcs w \<subseteq>\<^sub>m funcs w' \<and>
     (\<forall>n. funcs w n \<noteq> None \<longrightarrow> rk' n = rk n)"

lemma calls_below_extends:
  "calls_below w rk r p \<Longrightarrow> extends_world rk rk' w w' \<Longrightarrow> calls_below w' rk' r p"
proof (induction w rk r p rule: calls_below.induct)
  case (1 w rk r n ps)
  then show ?case
    by (auto simp: extends_world_def get_buildin_def get_func_def map_le_def dom_def)
qed (auto simp: list_all_iff)

lemma analyze_production:
  assumes "program_shape p" and "ranked rk m w" and "analyze p w = (w', Inr ())"
  shows "\<exists>rk'. ranked rk' (Suc m) w' \<and> extends_world rk rk' w w' \<and> calls_below w' rk' (Suc m) p"
proof (cases p)
  case (FuncDef_prod n ps body)
  then obtain ind stmts where body: "body = Funcbod_prod ind stmts" "list_all statement_shape stmts"
    using assms(1) by (cases body) auto
  let ?f = "\<lparr>func_name = n, func_params = ps, func_body = body\<rparr>"
  obtain w1 where w1: "analyze_list stmts w = (w1, Inr ())" "set_func n ?f w1 = (w', Inr ())"
    using assms(3) FuncDef_prod body(1) by (auto simp: andthen_Inr_iff)
  have st: "w1 = w" "list_all (calls_below w rk m) stmts"
    using analyze_statements [OF body(2) assms(2) w1(1)] by simp_all
  then have new: "funcs w n = None" and w': "w' = w\<lparr>funcs := (funcs w)(n \<mapsto> ?f)\<rparr>"
    using w1(2) by (auto simp: set_func_def split: if_splits)
  let ?rk = "rk(n := m)"
  have ext: "extends_world rk ?rk w w'"
    using new w' by (auto simp: extends_world_def map_le_def)
  have "calls_below w rk m (func_body ?f)"
    using st(2) body(1) by simp
  then have bd: "calls_below w' ?rk m (func_body ?f)"
    using ext by (rule calls_below_extends)
  have "?rk k < Suc m \<and> calls_below w' ?rk (?rk k) (func_body g)" if "funcs w' k = Some g" for k g
  proof (cases "k = n")
    case True
    then show ?thesis using that w' bd by auto
  next
    case False
    then have "rk k < m" "calls_below w rk (rk k) (func_body g)"
      using that w' assms(2) by (auto simp: ranked_def)
    with False show ?thesis using calls_below_extends [OF _ ext] by simp
  qed
  then have "ranked ?rk (Suc m) w'"
    unfolding ranked_def by blast
  then show ?thesis
    using ext FuncDef_prod by (intro exI [of _ ?rk]) simp
next
  case (FuncCall_prod n ps)
  then have "statement_shape p" by simp
  then have "w' = w" "calls_below w rk m p"
    using analyze_statement assms(2,3) by blast+
  then show ?thesis
    using assms(2) calls_below_mono [of w rk m p "Suc m"]
    by (intro exI [of _ rk]) (auto simp: extends_world_def ranked_def less_SucI)
next
  case (Decl_prod n e)
  then have "funcs w' = funcs w" "buildins w' = buildins w"
    using assms(3) by (auto split: sum.splits)
  then show ?thesis
    using assms(2) Decl_prod ranked_cong [of w' w rk m]
    by (intro exI [of _ rk]) (auto simp: extends_world_def ranked_def less_SucI)
qed (use assms in \<open>auto simp: extends_world_def ranked_def less_SucI intro!: exI [of _ rk]\<close>)

lemma extends_world_trans:
  "extends_world rk rk' w w' \<Longrightarrow> extends_world rk' rk'' w' w'' \<Longrightarrow> extends_world rk rk'' w w''"
  unfolding extends_world_def by (metis map_le_trans map_le_def domIff)

lemma analyze_program:
  assumes "list_all program_shape ps" and "ranked rk m w" and "analyze_list ps w = (w', Inr ())"
  shows "\<exists>rk'. ranked rk' (m + length ps) w' \<and> extends_world rk rk' w w' \<and>
    list_all (calls_below w' rk' (m + length ps)) ps"
  using assms
proof (induction ps arbitrary: rk m w)
  case Nil
  then show ?case by (auto simp: extends_world_def intro!: exI [of _ rk])
next
  case (Cons p ps)
  then obtain w1 where w1: "analyze p w = (w1, Inr ())" "analyze_list ps w1 = (w', Inr ())"
    by (auto simp: andthen_Inr_iff)
  obtain rk1 where rk1: "ranked rk1 (Suc m) w1" "extends_world rk rk1 w w1" "calls_below w1 rk1 (Suc m) p"
    using analyze_production [of p rk m w w1] Cons.prems w1(1) by auto
  obtain rk' where rk': "ranked rk' (Suc m + length ps) w'" "extends_world rk1 rk' w1 w'"
    "list_all (calls_below w' rk' (Suc m + length ps)) ps"
    using Cons.IH [OF _ rk1(1) w1(2)] Cons.prems(1) by auto
  have "calls_below w' rk' (Suc m + length ps) p"
    using calls_below_mono [OF calls_below_extends [OF rk1(3) rk'(2)]] by simp
  then show ?case
    using rk' extends_world_trans [OF rk1(2) rk'(2)] by (intro exI [of _ rk']) simp
qed

lemma analyzed_runs:
  assumes "list_all program_shape ps" and "analyze_list ps main_world = (w, Inr ())"
    and "length ps \<le> fuel" and "snd (interp_list fuel ps v w) = Inl e"
  shows "run_error e"
proof -
  have "ranked (\<lambda>_. 0) 0 main_world"
    by (simp add: ranked_def main_world_def set_buildin_def empty_world_def)
  then obtain rk where "ranked rk (length ps) w" "list_all (calls_below w rk (length ps)) ps"
    using analyze_program [OF assms(1) _ assms(2)] by fastforce
  then have "list_all (calls_below w rk fuel) ps"
    using assms(3) calls_below_mono by (auto simp: list_all_iff)
  with \<open>ranked rk (length ps) w\<close> show ?thesis
    using assms(4) by (rule interp_ranked(2))
qed

text \<open>The parser makes only productions of this shape.\<close>

lemma parse_statement_shape: "parse_statement sc = Inr (p, sc') \<Longrightarrow> statement_shape p"
  by (auto simp: parse_statement_def parse_function_call_def split: kind.splits if_splits)

lemma body_loop_shape:
  "body_loop body sc = Inr (ps, sc') \<Longrightarrow> list_all statement_shape body \<Longrightarrow> list_all statement_shape ps"
proof (induction body sc rule: body_loop.induct)
  case (1 body sc)
  from "1.prems"(1) obtain p sc1 t sc2 where p: "parse_statement sc = Inr (p, sc1)"
    "scanner_peek sc1 = Inr (t, sc2)"
    by (auto simp: body_loop.simps [of body sc])
  then show ?case
    using 1 parse_statement_shape [OF p(1)]
    by (auto simp: body_loop.simps [of body sc] split: if_splits)
qed

lemma parse_root_shape: "parse_root sc = Inr (p, sc') \<Longrightarrow> program_shape p"
  using body_loop_shape [of "[]"]
  by (auto simp: parse_root_def parse_function_def_def parse_function_body_def parse_function_call_def
      parse_declaration_def split: kind.splits if_splits)

lemma parse_program_shape: "parse_program fuel sc = Inr ps \<Longrightarrow> list_all program_shape ps"
proof (induction fuel arbitrary: sc ps)
  case (Suc fuel)
  then obtain p sc1 where r: "parse_root sc = Inr (p, sc1)" by auto
  show ?case
    using Suc parse_root_shape [OF r] r by (auto split: if_splits)
qed simp

lemma parse_program_length: "parse_program fuel sc = Inr ps \<Longrightarrow> length ps \<le> fuel"
proof (induction fuel arbitrary: sc ps)
  case (Suc fuel)
  then show ?case by (auto split: if_splits)
qed simp

end
