(* ===== verification/PunyPy_Properties.thy ===== *)
theory PunyPy_Properties
  imports PunyPy_Grammar PunyPy_Semantics
begin

text \<open>The properties of the \<^verbatim>\<open>Punypy-parser\<close>: scanner, parser, analysis and interpretation.\<close>

section \<open>Helpers\<close>

lemma lexer_word:
  assumes "name_ok v" and "cs = [] \<or> \<not> is_name_char (hd cs)"
  shows "lexer (v @ cs) = Inr (name_token v, behind cs)"
proof -
  obtain c w where cw: "v = c # w" "is_alpha c" "list_all is_name_char w"
    using assms(1) by (cases v) (auto simp: name_ok_def)
  have "takeWhile is_name_char (c # w @ cs) = v" "dropWhile is_name_char (w @ cs) = cs"
    using assms(2) cw takeWhile_all_append [of is_name_char w] by (cases cs; auto simp: is_name_char_def takeWhile_eq_all_conv list_all_iff)+
  then show ?thesis
    using assms(1) cw alpha_name [OF cw(2)] by (auto simp: lexer.simps(2) [of c] Let_def name_ok_def)
qed

lemma equals_class [simp]: "\<not> is_name_char CHR ''=''"
  by (simp add: is_name_char_def is_alpha_def is_digit_def)

lemma lexer_equals: "lexer (CHR ''='' # cs) = Inr (punct KEquals CHR ''='', of_string cs)"
  by (simp add: lexer.simps(2) [of "CHR ''=''"] char_token_def make_kind_def punct_def)

lemma scan_behind: "cs \<noteq> [] \<Longrightarrow> scan (behind cs) = lexer cs" "scan (behind []) = Inl (Fault Uninitialised)"
  by (cases cs; simp add: scan_lex) (simp add: scan_stuck behind_def)

lemma text_ok_punct: "c \<in> set ''()+-:,='' \<Longrightarrow> make_kind c = Inr k \<Longrightarrow> text_ok (punct k c)"
  unfolding text_ok_def by blast

lemma text_ok_name: "name_ok v \<Longrightarrow> text_ok (name_token v)"
  unfolding text_ok_def by blast

lemma text_ok_int: "0 \<le> i \<Longrightarrow> in_int i \<Longrightarrow> text_ok (int_token i)"
  unfolding text_ok_def by blast

section \<open>Properties\<close>

text \<open>C4 (parse after print). For every program of the grammar whose names, numbers and indentations are
  lexically right, scanning and parsing its text gives the program back, with an end-of-input
  production behind it where the last production did not read that far. Sums nest to the right.\<close>

theorem parse_of_text:
  assumes "list_all printable ps" and "length ps < fuel"
  shows "parse_program fuel (new_scanner (of_string (prog_text ps))) \<in> {Inr ps, Inr (ps @ [Eof_prod])}"
  using assms by (rule parse_print)

lemma parse_of_text_witness:
  "let ps = [Decl_prod ''x'' (Int_prod 42), FuncCall_prod ''print'' [Plus_prod (Var_prod ''x'') (Int_prod 1)]]
   in parse_program 3 (new_scanner (of_string (prog_text ps))) \<in> {Inr ps, Inr (ps @ [Eof_prod])}"
proof -
  have "text_ok (punct KEquals CHR ''='')" "text_ok (punct KLParen CHR ''('')" "text_ok (punct KPlus CHR ''+'')"
    "text_ok (punct KRParen CHR '')'')"
    by (rule text_ok_punct; simp add: make_kind_def)+
  moreover have "text_ok (name_token ''x'')" "text_ok (name_token ''print'')"
    by (rule text_ok_name; simp add: name_ok_def is_alpha_def is_name_char_def)+
  moreover have "text_ok (int_token 42)" "text_ok (int_token 1)"
    by (rule text_ok_int; simp add: in_int_def int_max_def int_min_def)+
  ultimately have "list_all printable
    [Decl_prod ''x'' (Int_prod 42), FuncCall_prod ''print'' [Plus_prod (Var_prod ''x'') (Int_prod 1)]]"
    by (simp add: printable_def call_tokens_def in_int_def int_max_def int_min_def)
  from parse_of_text [OF this, of 3] show ?thesis
    by (simp add: Let_def)
qed

text \<open>C12 (Parser::root and the loop of main terminate). On an input without the byte 0xFF the parser ends
  within twice its length of productions, with a non-empty list of productions or with one of three errors: an
  unexpected token, an unknown character, or a read past a word at the end of the input. It never
  overfills the scanner's buffer and never reads the wrong alternative of a token.\<close>

theorem parser_total:
  assumes "byte_eof \<notin> set text"
  shows "case parse_program (Suc (2 * length text)) (new_scanner (of_string text)) of
      Inl e \<Rightarrow> input_error e | Inr ps \<Rightarrow> ps \<noteq> []"
  using assms by (intro parse_program_total) (simp_all add: no_ff_def new_scanner_def size_scanner_ext_def)

lemma parser_total_witness:
  "case parse_program 9 (new_scanner (of_string ''f(+)'')) of Inl e \<Rightarrow> input_error e | Inr ps \<Rightarrow> ps \<noteq> []"
  using parser_total [of "''f(+)''"] by (simp add: byte_eof_def eval_nat_numeral)

text \<open>C11 (Scanner::get). The character-by-character scanner is the longest-match lexer.\<close>

theorem scanner_is_lexer:
  "\<not> full sc \<Longrightarrow> source sc = of_string cs \<Longrightarrow>
     scanner_get sc = bnd (lexer cs) (\<lambda>(t, src). Inr (t, sc\<lparr>source := src\<rparr>))"
  by (simp add: scanner_get_def scan_lex)

lemma scanner_is_lexer_witness:
  "scanner_get (new_scanner (of_string ''12+'')) =
     Inr (int_token 12, (new_scanner (of_string ''12+''))\<lparr>source := of_string ''+''\<rparr>)"
  using scanner_is_lexer [of "new_scanner (of_string ''12+'')" "''12+''"]
  by (simp add: new_scanner_def lexer.simps(2) is_digit_def number_def digit_val_def Let_def in_int_def int_max_def
      int_min_def newline_def of_string_def)

text \<open>Scanner::putback, peek. A token put back is the next token read, and peeking does not change what
  is read; the buffer holds one token, and a second one is refused.\<close>

theorem scanner_pushback:
  assumes "scanner_get sc = Inr (t, sc1)"
  shows "\<exists>sc2 sc3. scanner_putback t sc1 = Inr sc2 \<and> scanner_get sc2 = Inr (t, sc3) \<and>
    scanner_view sc3 = scanner_view sc1 \<and> scanner_peek sc2 = Inr (t, sc2) \<and>
    scanner_putback u sc2 = Inl Full_buffer"
proof -
  obtain sc2 sc3 where r: "scanner_putback t sc1 = Inr sc2" "scanner_get sc2 = Inr (t, sc3)"
    "scanner_view sc3 = scanner_view sc1"
    using sc.get_putback_get [OF assms] by blast
  moreover have "scanner_peek sc2 = Inr (t, sc2)"
    using r(1) by (auto simp: scanner_putback_def scanner_peek_def split: if_splits)
  ultimately show ?thesis
    using sc.putback_twice [OF r(1)] by blast
qed

lemma scanner_pushback_witness:
  "\<exists>sc1 sc2 sc3. scanner_get (new_scanner (of_string ''='')) = Inr (punct KEquals CHR ''='', sc1) \<and>
    scanner_putback (punct KEquals CHR ''='') sc1 = Inr sc2 \<and>
    scanner_get sc2 = Inr (punct KEquals CHR ''='', sc3)"
proof -
  have "scanner_get (new_scanner (of_string ''='')) =
    Inr (punct KEquals CHR ''='', (new_scanner (of_string ''=''))\<lparr>source := of_string []\<rparr>)"
    using lexer_equals [of "[]"] by (simp add: scanner_get_def new_scanner_def scan_lex)
  from scanner_pushback [OF this, of undefined] this show ?thesis by blast
qed

text \<open>A word at the end of the input. Where the input ends right behind a name, the scanner's next
  read looks at an uninitialised character: the failed \<open>putback\<close> has cleared \<open>eofbit\<close>, the only bit the
  scanner tests. Stated for every declaration of one variable by another without a final newline.\<close>

theorem word_at_end_uninitialised:
  assumes "name_ok v" and "name_ok w"
  shows "parse_program (Suc fuel) (new_scanner (of_string (v @ ''='' @ w))) = Inl (Fault Uninitialised)"
proof -
  let ?sc = "new_scanner (of_string (v @ ''='' @ w))"
  have v: "scan (of_string (v @ ''='' @ w)) = Inr (name_token v, of_string (''='' @ w))"
    using lexer_word [OF assms(1), of "''='' @ w"] by (simp add: scan_lex)
  have q: "scan (of_string (''='' @ w)) = Inr (punct KEquals CHR ''='', of_string w)"
    using lexer_equals [of w] by (simp add: scan_lex)
  have w: "scan (of_string w) = Inr (name_token w, behind [])"
    using lexer_word [OF assms(2), of "[]"] by (simp add: scan_lex)
  have "parse_root ?sc = Inl (Fault Uninitialised)"
    using v q w scan_behind(2)
    by (simp add: parse_root_def scanner_peek_def scanner_get_def new_scanner_def parse_declaration_def expect_def
        parse_expression.simps parse_expression_name.simps)
  then show ?thesis by simp
qed

lemma word_at_end_uninitialised_witness:
  "parse_program 1 (new_scanner (of_string ''x=y'')) = Inl (Fault Uninitialised)"
  using word_at_end_uninitialised [of "''x''" "''y''" 0] by (simp add: name_ok_def is_alpha_def is_name_char_def)

text \<open>The byte 0xFF. It is taken for the end of the input while the stream is still good, so the loop of
  main collects end-of-input productions for ever: no number of productions is enough.\<close>

theorem byte_ff_diverges:
  "parse_program fuel (new_scanner (of_string (byte_eof # cs))) = Inl (Fault Diverges)"
proof -
  let ?sc = "\<lparr>source = of_string cs, full = True, buffer = kind_token KEof\<rparr>"
  have "byte_eof \<notin> set ''()+-:,=''" "\<not> is_digit byte_eof" "byte_eof \<noteq> newline"
    by (simp_all add: byte_eof_def is_digit_def newline_def)
  then have "lexer (byte_eof # cs) = Inr (kind_token KEof, of_string cs)"
    unfolding lexer.simps(2) [of byte_eof] by simp
  then have root: "parse_root (new_scanner (of_string (byte_eof # cs))) = Inr (Eof_prod, ?sc)"
    by (simp add: parse_root_def scanner_peek_def scanner_get_def new_scanner_def scan_lex)
  have again: "parse_program f ?sc = Inl (Fault Diverges)" for f
    by (induction f) (simp_all add: parse_root_def scanner_peek_def scanner_good_def)
  show ?thesis
    using root again by (cases fuel) (simp_all add: scanner_good_def)
qed

text \<open>C5 (analysed programs run safely). If a text parses and its analysis reports nothing, interpreting it
  ends, follows no null function pointer, and fails only by overflow of a sum or because a called function has
  a parameter that is not a name (which the analysis does not check).\<close>

theorem analysed_program_safe:
  assumes "run_program pfuel fuel text = Inr oc" and "pfuel \<le> fuel" and "analysed oc = Inr ()"
    and "interpreted oc = Inl e"
  shows "e = Bad_production \<or> e = Fault Signed_Overflow"
proof -
  obtain ps where ps: "parse_program pfuel (new_scanner (of_string text)) = Inr ps"
    using assms(1) by (auto simp: run_program_def)
  obtain w r where w: "analyze_list ps main_world = (w, r)" by fastforce
  have "r = Inr ()" and "snd (interp_list fuel ps 0 w) = Inl e"
    using assms(1,3,4) ps w by (auto simp: run_program_def Let_def split: prod.splits)
  then have "run_error e"
    using analyzed_runs [OF parse_program_shape [OF ps], of w fuel 0 e] w parse_program_length [OF ps] assms(2) by simp
  then show ?thesis by (simp add: run_error_def)
qed

lemma analysed_program_safe_witness:
  "\<exists>oc e. run_program 9 9 (''x=2147483647'' @ [newline] @ ''print(x+1)'' @ [newline]) = Inr oc \<and>
     analysed oc = Inr () \<and> interpreted oc = Inl e \<and> (e = Bad_production \<or> e = Fault Signed_Overflow)"
proof -
  let ?text = "''x=2147483647'' @ [newline] @ ''print(x+1)'' @ [newline]"
  let ?ps = "[Decl_prod ''x'' (Int_prod 2147483647), FuncCall_prod ''print'' [Plus_prod (Var_prod ''x'') (Int_prod 1)],
    Eof_prod]"
  have p: "parse_program 9 (new_scanner (of_string ?text)) = Inr ?ps"
    by code_simp
  have a: "snd (analyze_list ?ps main_world) = Inr ()"
    and i: "snd (interp_list 9 ?ps 0 (fst (analyze_list ?ps main_world))) = Inl (Fault Signed_Overflow)"
    by code_simp+
  obtain oc where oc: "run_program 9 9 ?text = Inr oc" "analysed oc = Inr ()"
    "interpreted oc = Inl (Fault Signed_Overflow)"
    using a i unfolding run_program_def p bnd_simps Let_def by (simp only: split_beta outcome.simps)
  from analysed_program_safe [OF oc(1) order_refl oc(2,3)] oc show ?thesis by auto
qed

text \<open>what the analysis rejects. A declaration is accepted only if its value is a number: a sum or
  a name is refused even where all its names are declared. A function that calls itself is refused, and
  so is one that uses a parameter, unless a global variable of that name is declared.\<close>

theorem analysis_rejects:
  "snd (analyze (Decl_prod x (Plus_prod l r)) w) = Inl Bad_production \<and>
   snd (analyze (Decl_prod x (Var_prod y)) w) = Inl Bad_production \<and>
   (get_buildin w f = None \<longrightarrow> get_func w f = None \<longrightarrow>
     snd (analyze (FuncDef_prod f ps (Funcbod_prod ind [FuncCall_prod f qs])) w) = Inl Bad_production) \<and>
   (variables w a = None \<longrightarrow>
     snd (analyze (FuncDef_prod f [Var_prod a] (Funcbod_prod ind [Expr_prod (Var_prod a)])) w) = Inl Bad_production)"
proof -
  have e: "analyze_expr w u = Inr () \<or> analyze_expr w u = Inl Bad_production" for u
    by (induction w u rule: analyze_expr.induct) (auto simp: guard_def)
  have ps: "analyze_params w us = Inr () \<or> analyze_params w us = Inl Bad_production" for us
  proof (induction us)
    case (Cons u us)
    then show ?case using e [of u] by auto
  qed simp
  show ?thesis
    using e [of "Plus_prod l r"] e [of "Var_prod y"] ps [of qs]
    by (auto simp: analyze_call_def get_var_def simp del: analyze_expr.simps(3))
qed

lemma analysis_rejects_witness:
  "snd (analyze (FuncDef_prod ''f'' [] (Funcbod_prod ''  '' [FuncCall_prod ''f'' []])) main_world) = Inl Bad_production"
  using analysis_rejects [of undefined undefined undefined main_world undefined "''f''" "[]" "''  ''" "[]"]
  by (simp add: main_world_def set_buildin_def empty_world_def get_buildin_def get_func_def)

text \<open>Main interprets what the analysis refused. A call of a function that is neither built in nor
  declared is reported by the analysis, and then interpreted all the same: the interpreter
  dereferences the null pointer \<open>get_func\<close> returns.\<close>

theorem refused_call_is_run:
  assumes "get_buildin w f = None" and "get_func w f = None" and "interp_params w ps = Inr vs"
  shows "(\<exists>e. snd (analyze_list (FuncCall_prod f ps # qs) w) = Inl e) \<and>
    snd (interp_list fuel (FuncCall_prod f ps # qs) v w) = Inl (Fault Null_Deref)"
proof -
  have "\<exists>e. analyze_call w f ps = Inl e"
    using assms(1,2) by (cases "analyze_params w ps") (simp_all add: analyze_call_def)
  then show ?thesis
    using assms by (auto simp: andthen_def)
qed

lemma refused_call_is_run_witness:
  "snd (interp_list 5 [FuncCall_prod ''f'' [Int_prod 1]] 0 main_world) = Inl (Fault Null_Deref)"
  using refused_call_is_run [of main_world "''f''" "[Int_prod 1]" "[1]" "[]" 5 0]
  by (simp add: main_world_def set_buildin_def empty_world_def get_buildin_def get_func_def)

text \<open>declarations are not executed in order. The analysis of the whole program sets the variables, the
  interpretation does not: a print between two declarations of a variable prints the value of the
  last one.\<close>

theorem last_declaration_wins:
  "\<exists>w. analyze_list [Decl_prod x (Int_prod i), FuncCall_prod ''print'' [Var_prod x], Decl_prod x (Int_prod j)]
      main_world = (w, Inr ()) \<and>
    interp_list fuel [Decl_prod x (Int_prod i), FuncCall_prod ''print'' [Var_prod x], Decl_prod x (Int_prod j)] 0 w
      = ([j], Inr j)"
  by (simp add: main_world_def set_buildin_def empty_world_def set_var_def analyze_call_def get_var_def
      get_buildin_def print_buildin_def)

end
