(* ===== verification/Map_Interface.thy ===== *)
theory Map_Interface
  imports Prelude
begin

text \<open>
  What a client of an associative container relies on: lookup, insertion of a new key,
  insertion or assignment, and erasure by key, each described by the finite map the container
  stands for. Any sequence of calls then behaves as on that map. A container may accept new keys
  only in some of its states (\<open>allowed\<close>). The locale is interpreted on the buckets of the hash
  map, on the hash map itself, and on the binary tree.
\<close>

datatype ('k, 'v) call =
    Insert 'k 'v
  | Assign 'k 'v
  | Erase 'k
  | Find 'k

datatype 'v answer =
    Inserted bool
  | Erased size_t
  | Found "'v option"

section \<open>The map itself\<close>

fun map_call :: "('k \<rightharpoonup> 'v) \<Rightarrow> ('k, 'v) call \<Rightarrow> ('k \<rightharpoonup> 'v) \<times> 'v answer" where
  "map_call f (Insert k v) = (if f k = None then f(k \<mapsto> v) else f, Inserted (f k = None))"
| "map_call f (Assign k v) = (f(k \<mapsto> v), Inserted (f k = None))"
| "map_call f (Erase k) = (f(k := None), Erased (if f k = None then 0 else 1))"
| "map_call f (Find k) = (f, Found (f k))"

fun map_calls :: "('k \<rightharpoonup> 'v) \<Rightarrow> ('k, 'v) call list \<Rightarrow> ('k \<rightharpoonup> 'v) \<times> 'v answer list" where
  "map_calls f [] = (f, [])"
| "map_calls f (c # cs) =
     (let (f', a) = map_call f c; (f'', as) = map_calls f' cs in (f'', a # as))"

lemma fst_map_calls: "fst (map_calls f (c # cs)) = fst (map_calls (fst (map_call f c)) cs)"
  by (simp add: Let_def split: prod.splits)

text \<open>Inserting a sequence of pairs: what is in the map stays, then the first pair of a key wins.\<close>

lemma map_calls_insert_all:
  "fst (map_calls f (map (\<lambda>(k, v). Insert k v) xs)) = map_of xs ++ f"
  by (induction xs arbitrary: f)
    (auto simp: fst_map_calls map_add_def fun_eq_iff simp del: map_calls.simps(2) split: option.splits if_splits)

text \<open>Calls that insert only where the container accepts a new key.\<close>

fun call_allowed :: "(('k \<rightharpoonup> 'v) \<Rightarrow> bool) \<Rightarrow> ('k \<rightharpoonup> 'v) \<Rightarrow> ('k, 'v) call \<Rightarrow> bool" where
  "call_allowed allowed f (Insert k v) = allowed f"
| "call_allowed allowed f (Assign k v) = allowed f"
| "call_allowed allowed f (Erase k) = True"
| "call_allowed allowed f (Find k) = True"

fun calls_allowed :: "(('k \<rightharpoonup> 'v) \<Rightarrow> bool) \<Rightarrow> ('k \<rightharpoonup> 'v) \<Rightarrow> ('k, 'v) call list \<Rightarrow> bool" where
  "calls_allowed allowed f [] = True"
| "calls_allowed allowed f (c # cs) =
     (call_allowed allowed f c \<and> calls_allowed allowed (fst (map_call f c)) cs)"

lemma calls_allowed_always: "(\<And>f. allowed f) \<Longrightarrow> calls_allowed allowed f cs"
proof (induction cs arbitrary: f)
  case (Cons c cs)
  then show ?case by (cases c) simp_all
qed simp

section \<open>The container\<close>

fun do_call where
  "do_call look ins asg del s (Insert k v) = bnd (ins s k v) (\<lambda>(s', b). Inr (s', Inserted b))"
| "do_call look ins asg del s (Assign k v) = bnd (asg s k v) (\<lambda>(s', b). Inr (s', Inserted b))"
| "do_call look ins asg del s (Erase k) = bnd (del s k) (\<lambda>(s', n). Inr (s', Erased n))"
| "do_call look ins asg del s (Find k) = bnd (look s k) (\<lambda>r. Inr (s, Found r))"

fun do_calls where
  "do_calls look ins asg del s [] = Inr (s, [])"
| "do_calls look ins asg del s (c # cs) =
     bnd (do_call look ins asg del s c) (\<lambda>(s', a).
     bnd (do_calls look ins asg del s' cs) (\<lambda>(s'', as). Inr (s'', a # as)))"

locale assoc =
  fixes ok :: "'s \<Rightarrow> bool"
    and view :: "'s \<Rightarrow> 'k \<rightharpoonup> 'v"
    and allowed :: "('k \<rightharpoonup> 'v) \<Rightarrow> bool"
    and look :: "'s \<Rightarrow> 'k \<Rightarrow> 'e + 'v option"
    and ins :: "'s \<Rightarrow> 'k \<Rightarrow> 'v \<Rightarrow> 'e + ('s \<times> bool)"
    and asg :: "'s \<Rightarrow> 'k \<Rightarrow> 'v \<Rightarrow> 'e + ('s \<times> bool)"
    and del :: "'s \<Rightarrow> 'k \<Rightarrow> 'e + ('s \<times> size_t)"
  assumes look: "ok s \<Longrightarrow> look s k = Inr (view s k)"
    and ins: "ok s \<Longrightarrow> allowed (view s) \<Longrightarrow> \<exists>s'. ins s k v = Inr (s', view s k = None) \<and> ok s' \<and>
      view s' = (if view s k = None then (view s)(k \<mapsto> v) else view s)"
    and asg: "ok s \<Longrightarrow> allowed (view s) \<Longrightarrow> \<exists>s'. asg s k v = Inr (s', view s k = None) \<and> ok s' \<and>
      view s' = (view s)(k \<mapsto> v)"
    and del: "ok s \<Longrightarrow> \<exists>s'. del s k = Inr (s', if view s k = None then 0 else 1) \<and> ok s' \<and>
      view s' = (view s)(k := None)"
begin

lemma call_refines:
  assumes "ok s" and "call_allowed allowed (view s) c"
  shows "\<exists>s'. do_call look ins asg del s c = Inr (s', snd (map_call (view s) c)) \<and> ok s' \<and>
    view s' = fst (map_call (view s) c)"
proof (cases c)
  case (Insert k v)
  with assms show ?thesis using ins [OF assms(1), of k v] by auto
next
  case (Assign k v)
  with assms show ?thesis using asg [OF assms(1), of k v] by auto
next
  case (Erase k)
  then show ?thesis using del [OF assms(1), of k] by auto
next
  case (Find k)
  then show ?thesis using look [OF assms(1), of k] assms(1) by auto
qed

text \<open>Any sequence of calls answers as the map does and leaves the container at that map.\<close>

lemma calls_refine:
  assumes "ok s" and "calls_allowed allowed (view s) cs"
  shows "\<exists>s'. do_calls look ins asg del s cs = Inr (s', snd (map_calls (view s) cs)) \<and> ok s' \<and>
    view s' = fst (map_calls (view s) cs)"
  using assms
proof (induction cs arbitrary: s)
  case (Cons c cs)
  have "call_allowed allowed (view s) c" using Cons.prems(2) by simp
  with call_refines [OF Cons.prems(1)] obtain s' where s': "ok s'"
    "do_call look ins asg del s c = Inr (s', snd (map_call (view s) c))"
    "view s' = fst (map_call (view s) c)"
    by auto
  have "calls_allowed allowed (view s') cs" using Cons.prems(2) s'(3) by simp
  with Cons.IH [OF s'(1)] s' show ?case
    by (auto simp: Let_def split: prod.splits)
qed simp

text \<open>Erasing a key that was just inserted as new restores the map.\<close>

lemma ins_del:
  assumes "ok s" and "view s k = None" and "allowed (view s)"
  obtains s1 s2 where "ins s k v = Inr (s1, True)" and "del s1 k = Inr (s2, 1)" and "ok s2"
    and "view s2 = view s"
proof -
  from ins [OF assms(1,3), of k v] assms(2) obtain s1 where s1: "ins s k v = Inr (s1, True)" "ok s1"
    "view s1 = (view s)(k \<mapsto> v)" by auto
  from del [OF s1(2), of k] s1(3) obtain s2 where "del s1 k = Inr (s2, 1)" "ok s2"
    "view s2 = (view s)(k := None)" by auto
  with s1 assms(2) that show thesis by (metis fun_upd_triv)
qed

end

end
