(* ===== verification/Hash_Bucket.thy ===== *)
theory Hash_Bucket
  imports Map_Interface
begin

text \<open>
  \<^verbatim>\<open>HashMapBucket\<close> (\<^verbatim>\<open>src/DataStructures/HashMap/include/hash_map/hash_map_bucket.hpp\<close>): a
  singly linked chain of key/value nodes that one bucket owns alone. No node is reachable from
  outside its bucket, so the chain is the list of its pairs, and a node pointer is its place in
  the chain: 0 is \<^verbatim>\<open>head_\<close> (the place before the first node), \<open>Suc i\<close> the node of the i-th pair,
  \<^const>\<open>None\<close> the null pointer.
\<close>

type_synonym ('k, 'v) bucket = "('k \<times> 'v) list"
type_synonym pos = "nat option"

section \<open>Iterators\<close>

definition node_after :: "('k, 'v) bucket \<Rightarrow> nat \<Rightarrow> pos" where
  "node_after b p = (if p < length b then Some (Suc p) else None)"

definition before_begin :: pos where
  "before_begin = Some 0"

definition bucket_begin :: "('k, 'v) bucket \<Rightarrow> pos" where
  "bucket_begin b = node_after b 0"

definition bucket_end :: pos where
  "bucket_end = None"

definition node_next :: "('k, 'v) bucket \<Rightarrow> pos \<Rightarrow> fault + pos" where
  "node_next b n = (case n of None \<Rightarrow> Inl Null_Deref
     | Some p \<Rightarrow> if p \<le> length b then Inr (node_after b p) else Inl Dangling)"

definition node_data :: "('k, 'v) bucket \<Rightarrow> pos \<Rightarrow> fault + ('k \<times> 'v)" where
  "node_data b n = (case n of None \<Rightarrow> Inl Null_Deref | Some 0 \<Rightarrow> Inl Out_Of_Bounds
     | Some (Suc i) \<Rightarrow> if i < length b then Inr (b ! i) else Inl Dangling)"

lemma node_next_simps [simp]:
  "node_next b None = Inl Null_Deref"
  "p < length b \<Longrightarrow> node_next b (Some p) = Inr (Some (Suc p))"
  "node_next b (Some (length b)) = Inr None"
  by (simp_all add: node_next_def node_after_def)

lemma node_data_simps [simp]:
  "node_data b None = Inl Null_Deref"
  "i < length b \<Longrightarrow> node_data b (Some (Suc i)) = Inr (b ! i)"
  by (simp_all add: node_data_def)

lemma bucket_begin_simps [simp]:
  "bucket_begin [] = None"
  "bucket_begin (x # b) = Some 1"
  by (simp_all add: bucket_begin_def node_after_def)

section \<open>Capacity\<close>

definition bucket_empty :: "('k, 'v) bucket \<Rightarrow> bool" where
  "bucket_empty b \<longleftrightarrow> bucket_begin b = None"

fun bucket_size_from :: "('k, 'v) bucket \<Rightarrow> size_t \<Rightarrow> size_t" where
  "bucket_size_from [] c = c"
| "bucket_size_from (x # b) c = bucket_size_from b (c + 1)"

definition bucket_size :: "('k, 'v) bucket \<Rightarrow> size_t" where
  "bucket_size b = bucket_size_from b 0"

lemma bucket_size_from: "bucket_size_from b c = c + of_nat (length b)"
  by (induction b arbitrary: c) (simp_all add: algebra_simps)

lemma bucket_size: "bucket_size b = of_nat (length b)"
  by (simp add: bucket_size_def bucket_size_from)

section \<open>Linking and unlinking nodes\<close>

text \<open>\<open>insert_front\<close> links a node behind the head, \<open>link_after\<close> behind any node.\<close>

definition insert_front :: "('k, 'v) bucket \<Rightarrow> 'k \<times> 'v \<Rightarrow> ('k, 'v) bucket" where
  "insert_front b x = x # b"

definition bucket_push_front :: "('k, 'v) bucket \<Rightarrow> 'k \<times> 'v \<Rightarrow> ('k, 'v) bucket" where
  "bucket_push_front b x = insert_front b x"

definition bucket_emplace_front :: "('k, 'v) bucket \<Rightarrow> 'k \<Rightarrow> 'v \<Rightarrow> ('k, 'v) bucket" where
  "bucket_emplace_front b k v = insert_front b (k, v)"

definition link_after :: "('k, 'v) bucket \<Rightarrow> pos \<Rightarrow> 'k \<times> 'v \<Rightarrow> fault + (('k, 'v) bucket \<times> pos)" where
  "link_after b n x = (case n of None \<Rightarrow> Inl Null_Deref
     | Some p \<Rightarrow> if p \<le> length b then Inr (take p b @ x # drop p b, Some (Suc p)) else Inl Dangling)"

definition bucket_insert_after :: "('k, 'v) bucket \<Rightarrow> pos \<Rightarrow> 'k \<times> 'v \<Rightarrow> fault + (('k, 'v) bucket \<times> pos)" where
  "bucket_insert_after b n x = link_after b n x"

fun bucket_insert_range_after ::
  "('k, 'v) bucket \<Rightarrow> pos \<Rightarrow> ('k \<times> 'v) list \<Rightarrow> fault + (('k, 'v) bucket \<times> pos)" where
  "bucket_insert_range_after b p [] = Inr (b, p)"
| "bucket_insert_range_after b p (x # xs) =
     bnd (link_after b p x) (\<lambda>(b', nn). bucket_insert_range_after b' nn xs)"

definition unlink_after :: "('k, 'v) bucket \<Rightarrow> pos \<Rightarrow> fault + ('k, 'v) bucket" where
  "unlink_after b n = bnd (guard Contract (n \<noteq> None)) (\<lambda>_.
     bnd (node_next b n) (\<lambda>to_free. case to_free of None \<Rightarrow> Inl Null_Deref
       | Some p \<Rightarrow> Inr (take (p - 1) b @ drop p b)))"

text \<open>\<open>make_range\<close>: the nodes of the values of a range, one behind the other.\<close>

fun bucket_make_range_loop :: "('k, 'v) bucket \<Rightarrow> ('k \<times> 'v) list \<Rightarrow> ('k, 'v) bucket" where
  "bucket_make_range_loop nodes [] = nodes"
| "bucket_make_range_loop nodes (x # xs) = bucket_make_range_loop (nodes @ [x]) xs"

definition make_range_nodes :: "('k \<times> 'v) list \<Rightarrow> fault + ('k, 'v) bucket" where
  "make_range_nodes xs = (case xs of [] \<Rightarrow> Inl Contract
     | x # ys \<Rightarrow> Inr (bucket_make_range_loop [x] ys))"

definition range_bucket :: "('k \<times> 'v) list \<Rightarrow> fault + ('k, 'v) bucket" where
  "range_bucket xs = (if xs = [] then Inr [] else make_range_nodes xs)"

fun values_from :: "nat \<Rightarrow> ('k, 'v) bucket \<Rightarrow> pos \<Rightarrow> fault + ('k \<times> 'v) list" where
  "values_from 0 b n = (if n = bucket_end then Inr [] else Inl Diverges)"
| "values_from (Suc f) b n = (if n = bucket_end then Inr []
     else bnd (node_data b n) (\<lambda>x. bnd (node_next b n) (\<lambda>n'.
       bnd (values_from f b n') (\<lambda>xs. Inr (x # xs)))))"

definition copy_bucket :: "('k, 'v) bucket \<Rightarrow> fault + ('k, 'v) bucket" where
  "copy_bucket other = (if bucket_empty other then Inr []
     else bnd (values_from (length other) other (bucket_begin other)) make_range_nodes)"

definition move_bucket :: "('k, 'v) bucket \<Rightarrow> ('k, 'v) bucket \<times> ('k, 'v) bucket" where
  "move_bucket other = (other, [])"

section \<open>Lookup and modifiers by key\<close>

fun find_from :: "'k \<Rightarrow> ('k, 'v) bucket \<Rightarrow> nat \<Rightarrow> pos" where
  "find_from k [] p = bucket_end"
| "find_from k (x # b) p = (if fst x = k then Some p else find_from k b (Suc p))"

definition bucket_find :: "('k, 'v) bucket \<Rightarrow> 'k \<Rightarrow> pos" where
  "bucket_find b k = find_from k b 1"

definition insert_unique ::
  "('k, 'v) bucket \<Rightarrow> 'k \<times> 'v \<Rightarrow> ('k, 'v) bucket \<times> pos \<times> bool" where
  "insert_unique b x = (let it = bucket_find b (fst x) in
     if it \<noteq> bucket_end then (b, it, False)
     else let b' = bucket_push_front b x in (b', bucket_begin b', True))"

definition insert_or_assign ::
  "('k, 'v) bucket \<Rightarrow> 'k \<Rightarrow> 'v \<Rightarrow> ('k, 'v) bucket \<times> pos \<times> bool" where
  "insert_or_assign b k v = (case bucket_find b k of
       Some p \<Rightarrow> (b[p - 1 := (fst (b ! (p - 1)), v)], Some p, False)
     | None \<Rightarrow> let b' = bucket_push_front b (k, v) in (b', bucket_begin b', True))"

definition try_emplace ::
  "('k, 'v) bucket \<Rightarrow> 'k \<Rightarrow> 'v \<Rightarrow> ('k, 'v) bucket \<times> pos \<times> bool" where
  "try_emplace b k v = (let it = bucket_find b k in
     if it \<noteq> bucket_end then (b, it, False)
     else let b' = bucket_emplace_front b k v in (b', bucket_begin b', True))"

text \<open>
  \<open>bucket_erase\<close>: the loop looks at the node behind \<open>n\<close>; when that node is erased, \<^verbatim>\<open>n = n->next\<close>
  still moves on, so the node that took its place is not looked at.
\<close>

fun bucket_erase :: "('k, 'v) bucket \<Rightarrow> 'k \<Rightarrow> ('k, 'v) bucket \<times> size_t" where
  "bucket_erase [] k = ([], 0)"
| "bucket_erase [x] k = (if fst x = k then ([], 1) else ([x], 0))"
| "bucket_erase (x # y # b) k =
     (if fst x = k then let (b', c) = bucket_erase b k in (y # b', c + 1)
      else let (b', c) = bucket_erase (y # b) k in (x # b', c))"

text \<open>\<open>bucket_erase_pos\<close>: the loop walks to \<open>pos\<close> and stops only there.\<close>

function erase_walk :: "('k, 'v) bucket \<Rightarrow> pos \<Rightarrow> pos \<Rightarrow> pos \<Rightarrow> fault + (pos \<times> pos)" where
  "erase_walk b pred it pos = (if it \<noteq> pos
     then bnd (node_next b it) (\<lambda>it'. erase_walk b it it' pos) else Inr (pred, it))"
  by pat_completeness auto
termination
  by (relation "measure (\<lambda>(b, pred, it, pos). case it of None \<Rightarrow> 0 | Some p \<Rightarrow> Suc (length b) - p)")
    (auto simp: node_next_def node_after_def split: option.splits if_splits)

declare erase_walk.simps [simp del]

definition bucket_erase_pos :: "('k, 'v) bucket \<Rightarrow> pos \<Rightarrow> fault + (('k, 'v) bucket \<times> pos)" where
  "bucket_erase_pos b pos =
     bnd (erase_walk b before_begin (bucket_begin b) pos) (\<lambda>(pred, it).
     bnd (guard Contract (it = pos)) (\<lambda>_.
     bnd (unlink_after b pred) (\<lambda>b'.
     bnd (node_next b' pred) (\<lambda>n. Inr (b', n)))))"

section \<open>The bucket as a map\<close>

definition keys_distinct :: "('k, 'v) bucket \<Rightarrow> bool" where
  "keys_distinct b \<longleftrightarrow> distinct (map fst b)"

lemma find_from_cases:
  "(case find_from k b p of
      None \<Rightarrow> map_of b k = None
    | Some q \<Rightarrow> p \<le> q \<and> q - p < length b \<and> fst (b ! (q - p)) = k \<and>
        map_of b k = Some (snd (b ! (q - p))))"
proof (induction b arbitrary: p)
  case (Cons x b)
  from Cons.IH [of "Suc p"] show ?case
    by (cases x) (auto simp: nth_Cons' Suc_diff_le split: option.splits)
qed (simp add: bucket_end_def)

lemma bucket_find_None: "bucket_find b k = None \<longleftrightarrow> map_of b k = None"
  using find_from_cases [of b k 1] by (auto simp: bucket_find_def split: option.splits)

lemma bucket_find_Some:
  assumes "bucket_find b k = Some q"
  obtains i where "q = Suc i" and "i < length b" and "fst (b ! i) = k"
    and "map_of b k = Some (snd (b ! i))"
  using find_from_cases [of b k 1] assms that [of "q - 1"] by (auto simp: bucket_find_def)

lemma bucket_find_end: "bucket_find b k = bucket_end \<longleftrightarrow> map_of b k = None"
  by (simp add: bucket_end_def bucket_find_None)

lemma insert_unique_eq:
  "insert_unique b (k, v) = (if map_of b k = None then ((k, v) # b, Some 1, True)
     else (b, bucket_find b k, False))"
  by (simp add: insert_unique_def bucket_find_end bucket_push_front_def insert_front_def Let_def)

lemma try_emplace_eq: "try_emplace b k v = insert_unique b (k, v)"
  by (simp add: insert_unique_def try_emplace_def bucket_push_front_def bucket_emplace_front_def Let_def)

lemma map_of_update_nth:
  "distinct (map fst b) \<Longrightarrow> i < length b \<Longrightarrow>
   map_of (b[i := (fst (b ! i), v)]) = (map_of b)(fst (b ! i) \<mapsto> v)"
proof (induction b arbitrary: i)
  case (Cons x b)
  then show ?case
    by (cases x; cases i) (auto simp: fun_eq_iff dest: nth_mem)
qed simp

lemma map_fst_update_nth: "map fst (b[i := (fst (b ! i), v)]) = map fst b"
  by (metis fst_conv list_update_id map_update)

lemma assign_facts:
  assumes "keys_distinct b"
  obtains b' n where "insert_or_assign b k v = (b', n, map_of b k = None)"
    and "n \<noteq> None" and "keys_distinct b'" and "map_of b' = (map_of b)(k \<mapsto> v)"
    and "fst ` set b' = insert k (fst ` set b)"
    and "length b' = length b + (if map_of b k = None then 1 else 0)"
proof (cases "bucket_find b k")
  case None
  then have n: "map_of b k = None" by (simp add: bucket_find_None)
  with assms None show thesis
    by (intro that [of "(k, v) # b" "Some 1"])
      (auto simp: insert_or_assign_def bucket_push_front_def insert_front_def keys_distinct_def
        map_of_eq_None_iff)
next
  case (Some q)
  then obtain i where i: "q = Suc i" "i < length b" "fst (b ! i) = k"
    "map_of b k = Some (snd (b ! i))"
    by (rule bucket_find_Some)
  have ks: "map fst (b[i := (k, v)]) = map fst b"
    using map_fst_update_nth [of b i v] i by simp
  have "k \<in> set (map fst b)"
    using i(4) by (metis map_of_eq_None_iff option.distinct(1) set_map)
  then have "insert k (fst ` set b) = fst ` set b"
    by auto
  moreover have "fst ` set (b[i := (k, v)]) = fst ` set b"
    using ks by (metis list.set_map)
  ultimately show thesis
    using Some i assms ks map_of_update_nth [of b i v]
    by (intro that [of "b[i := (k, v)]" "Some q"])
      (simp_all add: insert_or_assign_def keys_distinct_def)
qed

text \<open>With distinct keys the node the erasing loop skips has another key, so skipping it is harmless.\<close>

lemma bucket_erase_absent: "map_of b k = None \<Longrightarrow> bucket_erase b k = (b, 0)"
  by (induction b k rule: bucket_erase.induct) (auto split: if_splits prod.splits)

lemma bucket_erase_distinct:
  "keys_distinct b \<Longrightarrow>
   bucket_erase b k = (filter (\<lambda>x. fst x \<noteq> k) b, if map_of b k = None then 0 else 1)"
proof (induction b k rule: bucket_erase.induct)
  case (3 x y b k)
  have f: "filter (\<lambda>x. fst x \<noteq> k) b = b" if "k \<notin> fst ` set b"
    using that by (auto simp: filter_id_conv)
  show ?case
  proof (cases "fst x = k")
    case True
    with "3.prems" have a: "map_of b k = None" "k \<notin> fst ` set b" "fst y \<noteq> k"
      by (auto simp: keys_distinct_def map_of_eq_None_iff)
    with True f show ?thesis
      by (cases x) (auto simp: bucket_erase_absent)
  next
    case False
    with 3 show ?thesis
      by (cases x) (auto simp: keys_distinct_def split: prod.splits if_splits)
  qed
qed auto

text \<open>Of a run of nodes of one key the loop erases only every other one.\<close>

lemma bucket_erase_run: "bucket_erase (replicate n (k, v)) k =
  (replicate (n div 2) (k, v), of_nat (n - n div 2))"
proof (induction n rule: nat_less_induct)
  case (1 n)
  then show ?case
  proof (cases n rule: nat.exhaust)
    case (Suc m)
    then show ?thesis
    proof (cases m)
      case (Suc l)
      have "of_nat (Suc l - l div 2) = of_nat (l - l div 2) + (1 :: size_t)"
        by (simp add: Suc_diff_le)
      with 1 Suc \<open>n = Suc m\<close> show ?thesis
        by simp
    qed simp
  qed simp
qed

lemma map_of_filter_key: "map_of (filter (\<lambda>x. fst x \<noteq> k) b) = (map_of b)(k := None)"
  by (induction b) (auto simp: fun_eq_iff)

lemma keys_distinct_filter: "keys_distinct b \<Longrightarrow> keys_distinct (filter P b)"
  by (induction b) (auto simp: keys_distinct_def)

lemma length_filter_key:
  "keys_distinct b \<Longrightarrow> length (filter (\<lambda>x. fst x \<noteq> k) b) + (if map_of b k = None then 0 else 1) = length b"
proof (induction b)
  case (Cons x b)
  have "filter (\<lambda>x. fst x \<noteq> k') b = b" if "k' \<notin> fst ` set b" for k'
    using that by (force simp: filter_id_conv)
  with Cons show ?case
    by (cases x) (auto simp: keys_distinct_def split: if_splits)
qed simp

definition bucket_value :: "('k, 'v) bucket \<Rightarrow> 'k \<Rightarrow> fault + 'v option" where
  "bucket_value b k = (case bucket_find b k of None \<Rightarrow> Inr None
     | Some n \<Rightarrow> bnd (node_data b (Some n)) (\<lambda>x. Inr (Some (snd x))))"

lemma bucket_value: "bucket_value b k = Inr (map_of b k)"
proof (cases "bucket_find b k")
  case None
  then show ?thesis using bucket_find_None [of b k] by (simp add: bucket_value_def)
next
  case (Some n)
  then show ?thesis by (rule bucket_find_Some) (simp add: bucket_value_def Some)
qed

text \<open>A bucket of distinct keys is an associative container.\<close>

interpretation bucket: assoc keys_distinct map_of "\<lambda>_. True" bucket_value
  "\<lambda>b k v. case insert_unique b (k, v) of (b', n, new) \<Rightarrow> Inr (b', new)"
  "\<lambda>b k v. case insert_or_assign b k v of (b', n, new) \<Rightarrow> Inr (b', new)"
  "\<lambda>b k. Inr (bucket_erase b k)"
proof (unfold_locales, goal_cases)
  case (1 b k)
  show ?case by (simp add: bucket_value)
next
  case (2 b k v)
  then show ?case
    by (auto simp: insert_unique_eq keys_distinct_def map_of_eq_None_iff)
next
  case (3 b k v)
  show ?case
    by (rule assign_facts [OF 3(1), of k v]) auto
next
  case (4 b k)
  then show ?case
    by (simp add: bucket_erase_distinct map_of_filter_key keys_distinct_filter)
qed

section \<open>Positions\<close>

lemma values_from_pos:
  "p < length b \<Longrightarrow> length b \<le> p + f \<Longrightarrow> values_from f b (Some (Suc p)) = Inr (drop p b)"
proof (induction f arbitrary: p)
  case (Suc f)
  show ?case
  proof (cases "Suc p < length b")
    case True
    with Suc show ?thesis
      by (simp add: bucket_end_def Cons_nth_drop_Suc)
  next
    case False
    with Suc.prems have "length b = Suc p" by simp
    moreover from this have "node_next b (Some (Suc p)) = Inr None"
      using node_next_simps(3) [of b] by simp
    moreover have "values_from f b None = Inr []"
      by (cases f) (simp_all add: bucket_end_def)
    ultimately show ?thesis
      by (simp add: bucket_end_def Cons_nth_drop_Suc [symmetric])
  qed
qed simp

lemma bucket_make_range_loop: "bucket_make_range_loop nodes xs = nodes @ xs"
  by (induction xs arbitrary: nodes) simp_all

lemma range_bucket: "range_bucket xs = Inr xs"
  by (cases xs) (simp_all add: range_bucket_def make_range_nodes_def bucket_make_range_loop)

lemma copy_bucket: "copy_bucket b = Inr b"
proof (cases b)
  case (Cons x xs)
  then have "values_from (length b) b (Some 1) = Inr b"
    using values_from_pos [of 0 b "length b"] by simp
  with Cons show ?thesis
    by (simp add: copy_bucket_def bucket_empty_def make_range_nodes_def bucket_make_range_loop)
qed (simp add: copy_bucket_def bucket_empty_def)

lemma bucket_insert_range_after:
  "p \<le> length b \<Longrightarrow>
   bucket_insert_range_after b (Some p) xs = Inr (take p b @ xs @ drop p b, Some (p + length xs))"
proof (induction xs arbitrary: b p)
  case (Cons x xs)
  from Cons.IH [of "Suc p" "take p b @ x # drop p b"] Cons.prems show ?case
    by (simp add: link_after_def min_def)
qed simp

lemma unlink_after:
  "p < length b \<Longrightarrow> unlink_after b (Some p) = Inr (take p b @ drop (Suc p) b)"
  "unlink_after b (Some (length b)) = Inl Null_Deref"
  by (simp_all add: unlink_after_def)

lemma erase_walk_step:
  "p \<le> q \<Longrightarrow> q < length b \<Longrightarrow>
   erase_walk b (Some p) (Some (Suc p)) (Some (Suc q)) = Inr (Some q, Some (Suc q))"
proof (induction "q - p" arbitrary: p)
  case 0
  then show ?case by (simp add: erase_walk.simps)
next
  case (Suc d)
  then show ?case by (subst erase_walk.simps) simp
qed

text \<open>
  Erasing at a node removes that node and gives the next one; at \<^verbatim>\<open>end()\<close> the loop stops behind
  the last node and unlinks a node that is not there.
\<close>

lemma bucket_erase_pos:
  assumes "i < length b"
  shows "bucket_erase_pos b (Some (Suc i)) =
    Inr (take i b @ drop (Suc i) b, node_after (take i b @ drop (Suc i) b) i)"
proof -
  from assms have "bucket_begin b = Some 1" by (cases b) simp_all
  with assms show ?thesis
    using erase_walk_step [of 0 i b]
    by (simp add: bucket_erase_pos_def before_begin_def unlink_after node_next_def)
qed

end
