(* ===== verification/Hash_Map.thy ===== *)
theory Hash_Map
  imports Hash_Bucket
begin

text \<open>
  \<^verbatim>\<open>HashMap\<close> (\<^verbatim>\<open>src/DataStructures/HashMap/include/hash_map/hash_map.hpp\<close>): an array of buckets, the
  number of buckets, the number of elements, the hash function and the maximal load factor.

  \<^verbatim>\<open>end()\<close> and the loop of \<^verbatim>\<open>next_node\<close> read the first node of the bucket behind the last one. That
  read is out of bounds; what it gives is the parameter \<open>past\<close> of every operation that may reach
  it: with \<open>past = Inl Out_Of_Bounds\<close> the model is that of the language, with \<open>past = Inr n\<close> that
  of an implementation on which the read yields the pointer \<open>n\<close>. The operations that allocate nodes
  in a loop (copies, \<^verbatim>\<open>rehash\<close>) read there several times, and an allocation may change the memory behind the
  table: their parameter gives the read after \<open>t\<close> nodes were allocated.

  Floating-point numbers are a type parameter; the two operations on them, the quotient of
  \<^verbatim>\<open>load_factor\<close> and the rounded-up quotient of \<^verbatim>\<open>reserve\<close>, are arguments of their users.
\<close>

section \<open>State\<close>

text \<open>The array of buckets: alive, the null pointer a move leaves, or deallocated.\<close>

datatype 'b barray =
    Live "'b list"
  | Null_Array
  | Freed

record ('k, 'v, 'f) hash_map =
  hm_hash :: "'k \<Rightarrow> size_t"
  hm_size :: size_t
  hm_buckets :: "('k, 'v) bucket barray"
  hm_count :: size_t
  hm_max_load :: 'f

record hm_iter =
  it_bucket :: nat
  it_end :: nat
  it_node :: pos

definition bucket_at :: "('k, 'v, 'f) hash_map \<Rightarrow> nat \<Rightarrow> fault + ('k, 'v) bucket" where
  "bucket_at m i = (case hm_buckets m of
       Live bs \<Rightarrow> if i < length bs then Inr (bs ! i) else Inl Out_Of_Bounds
     | Null_Array \<Rightarrow> Inl Null_Deref
     | Freed \<Rightarrow> Inl Dangling)"

definition set_bucket ::
  "('k, 'v, 'f) hash_map \<Rightarrow> nat \<Rightarrow> ('k, 'v) bucket \<Rightarrow> ('k, 'v, 'f) hash_map" where
  "set_bucket m i b = (case hm_buckets m of
       Live bs \<Rightarrow> m\<lparr>hm_buckets := Live (bs[i := b])\<rparr> | _ \<Rightarrow> m)"

definition bucket_index :: "('k, 'v, 'f) hash_map \<Rightarrow> 'k \<Rightarrow> fault + nat" where
  "bucket_index m k = (if hm_size m = 0 then Inl Division_By_Zero
     else Inr (unat (hm_hash m k mod hm_size m)))"

definition get_bucket :: "('k, 'v, 'f) hash_map \<Rightarrow> 'k \<Rightarrow> fault + (nat \<times> ('k, 'v) bucket)" where
  "get_bucket m k = bnd (bucket_index m k) (\<lambda>i. bnd (bucket_at m i) (\<lambda>b. Inr (i, b)))"

section \<open>Iterators\<close>

text \<open>\<open>first_of\<close> is \<^verbatim>\<open>bucket_->begin()\<close>, which may be applied one behind the last bucket.\<close>

definition first_of :: "fault + pos \<Rightarrow> ('k, 'v, 'f) hash_map \<Rightarrow> nat \<Rightarrow> fault + pos" where
  "first_of past m i = (case hm_buckets m of
       Live bs \<Rightarrow> if i = length bs then past
         else bnd (bucket_at m i) (\<lambda>b. Inr (bucket_begin b))
     | Null_Array \<Rightarrow> Inl Null_Deref
     | Freed \<Rightarrow> Inl Dangling)"

definition array_length :: "('k, 'v, 'f) hash_map \<Rightarrow> nat" where
  "array_length m = (case hm_buckets m of Live bs \<Rightarrow> length bs | _ \<Rightarrow> 0)"

lemma first_of_bound: "first_of past m i = Inr n \<Longrightarrow> i \<le> array_length m"
  by (auto simp: first_of_def bucket_at_def array_length_def split: barray.splits if_splits)

function next_node :: "fault + pos \<Rightarrow> ('k, 'v, 'f) hash_map \<Rightarrow> hm_iter \<Rightarrow> fault + hm_iter" where
  "next_node past m it = (if it_node it = bucket_end \<and> it_bucket it \<noteq> it_end it
     then bnd (first_of past m (Suc (it_bucket it))) (\<lambda>n.
       next_node past m (it\<lparr>it_bucket := Suc (it_bucket it), it_node := n\<rparr>))
     else Inr it)"
  by pat_completeness auto
termination
  by (relation "measure (\<lambda>(past, m, it). array_length m - it_bucket it)")
    (auto dest: first_of_bound)

declare next_node.simps [simp del]

definition end_iter :: "fault + pos \<Rightarrow> ('k, 'v, 'f) hash_map \<Rightarrow> nat \<Rightarrow> fault + hm_iter" where
  "end_iter past m e = bnd (first_of past m e) (\<lambda>n.
     Inr \<lparr>it_bucket = e, it_end = e, it_node = n\<rparr>)"

definition first_iter ::
  "fault + pos \<Rightarrow> ('k, 'v, 'f) hash_map \<Rightarrow> nat \<Rightarrow> nat \<Rightarrow> fault + hm_iter" where
  "first_iter past m i e = bnd (first_of past m i) (\<lambda>n.
     next_node past m \<lparr>it_bucket = i, it_end = e, it_node = n\<rparr>)"

definition node_iter ::
  "fault + pos \<Rightarrow> ('k, 'v, 'f) hash_map \<Rightarrow> nat \<Rightarrow> nat \<Rightarrow> pos \<Rightarrow> fault + hm_iter" where
  "node_iter past m i e n = next_node past m \<lparr>it_bucket = i, it_end = e, it_node = n\<rparr>"

definition iter_data :: "('k, 'v, 'f) hash_map \<Rightarrow> hm_iter \<Rightarrow> fault + ('k \<times> 'v)" where
  "iter_data m it = bnd (bucket_at m (it_bucket it)) (\<lambda>b. node_data b (it_node it))"

definition iter_next :: "fault + pos \<Rightarrow> ('k, 'v, 'f) hash_map \<Rightarrow> hm_iter \<Rightarrow> fault + hm_iter" where
  "iter_next past m it = bnd (bucket_at m (it_bucket it)) (\<lambda>b.
     bnd (node_next b (it_node it)) (\<lambda>n. next_node past m (it\<lparr>it_node := n\<rparr>)))"

definition iter_eq :: "hm_iter \<Rightarrow> hm_iter \<Rightarrow> bool" where
  "iter_eq l r \<longleftrightarrow> it_bucket l = it_bucket r \<and> it_node l = it_node r"

definition bend :: "('k, 'v, 'f) hash_map \<Rightarrow> nat" where
  "bend m = unat (hm_size m)"

definition hm_begin :: "fault + pos \<Rightarrow> ('k, 'v, 'f) hash_map \<Rightarrow> fault + hm_iter" where
  "hm_begin past m = first_iter past m 0 (bend m)"

definition hm_end :: "fault + pos \<Rightarrow> ('k, 'v, 'f) hash_map \<Rightarrow> fault + hm_iter" where
  "hm_end past m = end_iter past m (bend m)"

text \<open>
  The values a loop \<^verbatim>\<open>for (it = first; it != last; ++it)\<close> visits. An iterator only moves on, so
  the sum of what is behind it decreases.
\<close>

definition nodes_left :: "('k, 'v, 'f) hash_map \<Rightarrow> hm_iter \<Rightarrow> nat" where
  "nodes_left m it = (case bucket_at m (it_bucket it) of Inl _ \<Rightarrow> 0
     | Inr b \<Rightarrow> (case it_node it of None \<Rightarrow> 0 | Some p \<Rightarrow> Suc (length b) - p))"

lemma next_node_bucket:
  "next_node past m it = Inr it' \<Longrightarrow> it_bucket it \<le> array_length m \<Longrightarrow>
   it' = it \<or> it_bucket it < it_bucket it' \<and> it_bucket it' \<le> array_length m"
proof (induction past m it rule: next_node.induct)
  case (1 past m it)
  show ?case
  proof (cases "it_node it = bucket_end \<and> it_bucket it \<noteq> it_end it")
    case True
    with "1.prems"(1) obtain n where n: "first_of past m (Suc (it_bucket it)) = Inr n"
      "next_node past m (it\<lparr>it_bucket := Suc (it_bucket it), it_node := n\<rparr>) = Inr it'"
      by (subst (asm) next_node.simps) auto
    from "1.IH" [OF True n(1,2)] first_of_bound [OF n(1)] show ?thesis
      by auto
  next
    case False
    with "1.prems"(1) show ?thesis
      by (subst (asm) next_node.simps) auto
  qed
qed

lemma bucket_at_bound: "bucket_at m i = Inr b \<Longrightarrow> i < array_length m"
  by (auto simp: bucket_at_def array_length_def split: barray.splits if_splits)

lemma iter_next_progress:
  assumes "iter_next past m it = Inr it'"
  shows "(it', it) \<in> measures [\<lambda>it. array_length m - it_bucket it, nodes_left m]"
proof -
  from assms obtain b n where b: "bucket_at m (it_bucket it) = Inr b"
    "node_next b (it_node it) = Inr n" "next_node past m (it\<lparr>it_node := n\<rparr>) = Inr it'"
    by (auto simp: iter_next_def)
  from next_node_bucket [OF b(3)] bucket_at_bound [OF b(1)]
  have "it' = it\<lparr>it_node := n\<rparr> \<or> it_bucket it < it_bucket it' \<and> it_bucket it' \<le> array_length m"
    by simp
  with b bucket_at_bound [OF b(1)] show ?thesis
    by (auto simp: nodes_left_def node_next_def node_after_def split: option.splits if_splits)
qed

function visit ::
  "fault + pos \<Rightarrow> ('k, 'v, 'f) hash_map \<Rightarrow> hm_iter \<Rightarrow> hm_iter \<Rightarrow> fault + ('k \<times> 'v) list" where
  "visit past m it fin = (if iter_eq it fin then Inr []
     else bnd (iter_data m it) (\<lambda>x. bnd (iter_next past m it) (\<lambda>it'.
       bnd (visit past m it' fin) (\<lambda>xs. Inr (x # xs)))))"
  by pat_completeness auto
termination
proof (relation "measures [\<lambda>(past, m, it, fin). array_length m - it_bucket it,
      \<lambda>(past, m, it, fin). nodes_left m it]", goal_cases)
  case 1
  show ?case by simp
next
  case (2 past m it fin x it')
  then show ?case using iter_next_progress [of past m it it'] by auto
qed

declare visit.simps [simp del]

definition hm_elements :: "fault + pos \<Rightarrow> ('k, 'v, 'f) hash_map \<Rightarrow> fault + ('k \<times> 'v) list" where
  "hm_elements past m = bnd (hm_begin past m) (\<lambda>first.
     bnd (hm_end past m) (\<lambda>fin. visit past m first fin))"

section \<open>Filling\<close>

definition make_buckets :: "size_t \<Rightarrow> ('k, 'v) bucket barray" where
  "make_buckets n = Live (replicate (unat n) [])"

text \<open>
  \<^verbatim>\<open>fill_buckets(first, last)\<close> over the iterators of another map, \<open>t\<close> nodes after its begin. \<^verbatim>\<open>last\<close> was made
  before the first node.
\<close>

function fill_buckets ::
  "(nat \<Rightarrow> fault + pos) \<Rightarrow> nat \<Rightarrow> ('k, 'v, 'f) hash_map \<Rightarrow> hm_iter \<Rightarrow> hm_iter \<Rightarrow>
   ('k, 'v, 'f) hash_map \<Rightarrow> size_t \<Rightarrow> fault + (('k, 'v, 'f) hash_map \<times> size_t)" where
  "fill_buckets past t other it fin m c = (if iter_eq it fin then Inr (m, c)
     else bnd (iter_data other it) (\<lambda>x. bnd (get_bucket m (fst x)) (\<lambda>(i, b).
       bnd (iter_next (past (Suc t)) other it) (\<lambda>it'.
       fill_buckets past (Suc t) other it' fin (set_bucket m i (bucket_push_front b x)) (c + 1)))))"
  by pat_completeness auto
termination
proof (relation "measures [\<lambda>(past, t, other, it, fin, m, c). array_length other - it_bucket it,
      \<lambda>(past, t, other, it, fin, m, c). nodes_left other it]", goal_cases)
  case 1
  show ?case by simp
next
  case (2 past t other it fin m c x z i b it')
  then show ?case using iter_next_progress [of "past (Suc t)" other it it'] by auto
qed

declare fill_buckets.simps [simp del]

fun safe_fill_buckets ::
  "('k, 'v, 'f) hash_map \<Rightarrow> ('k \<times> 'v) list \<Rightarrow> size_t \<Rightarrow> fault + (('k, 'v, 'f) hash_map \<times> size_t)" where
  "safe_fill_buckets m [] c = Inr (m, c)"
| "safe_fill_buckets m (x # xs) c = bnd (get_bucket m (fst x)) (\<lambda>(i, b).
     case insert_unique b x of (b', n, new) \<Rightarrow> safe_fill_buckets (set_bucket m i b') xs (c + 1))"

definition free_buckets :: "('k, 'v) bucket barray \<Rightarrow> fault + ('k, 'v) bucket barray" where
  "free_buckets bs = (case bs of Live _ \<Rightarrow> Inr Freed | Null_Array \<Rightarrow> Inr Null_Array
     | Freed \<Rightarrow> Inl Dangling)"

section \<open>Construction, copying and moving\<close>

definition default_bucket_count :: size_t where
  "default_bucket_count = 17"

definition new_map :: "'f \<Rightarrow> ('k \<Rightarrow> size_t) \<Rightarrow> size_t \<Rightarrow> ('k, 'v, 'f) hash_map" where
  "new_map one hash n = \<lparr>hm_hash = hash, hm_size = n, hm_buckets = make_buckets n,
     hm_count = 0, hm_max_load = one\<rparr>"

definition range_map ::
  "'f \<Rightarrow> ('k \<Rightarrow> size_t) \<Rightarrow> size_t \<Rightarrow> ('k \<times> 'v) list \<Rightarrow> fault + ('k, 'v, 'f) hash_map" where
  "range_map one hash n xs = bnd (safe_fill_buckets (new_map one hash n) xs 0) (\<lambda>(m, c).
     Inr (m\<lparr>hm_count := c\<rparr>))"

text \<open>The nodes of a copy are allocated while the other map is iterated over.\<close>

definition fill_from ::
  "(nat \<Rightarrow> fault + pos) \<Rightarrow> ('k, 'v, 'f) hash_map \<Rightarrow> ('k, 'v, 'f) hash_map \<Rightarrow>
   fault + (('k, 'v, 'f) hash_map \<times> size_t)" where
  "fill_from past other m = bnd (hm_begin (past 0) other) (\<lambda>first. bnd (hm_end (past 0) other) (\<lambda>fin.
     fill_buckets past 0 other first fin m 0))"

definition copy_map ::
  "(nat \<Rightarrow> fault + pos) \<Rightarrow> 'f \<Rightarrow> ('k, 'v, 'f) hash_map \<Rightarrow> fault + ('k, 'v, 'f) hash_map" where
  "copy_map past one other =
     bnd (fill_from past other (new_map one (hm_hash other) (hm_size other))) (\<lambda>(m, c).
     bnd (guard Contract (c = hm_count other)) (\<lambda>_. Inr (m\<lparr>hm_count := c\<rparr>)))"

definition copy_map_alloc :: "'f \<Rightarrow> ('k, 'v, 'f) hash_map \<Rightarrow> ('k, 'v, 'f) hash_map" where
  "copy_map_alloc one other =
     (new_map one (hm_hash other) (hm_size other))\<lparr>hm_count := hm_count other\<rparr>"

text \<open>A move gives the new map and what is left of the old one.\<close>

definition move_map ::
  "'f \<Rightarrow> ('k, 'v, 'f) hash_map \<Rightarrow> ('k, 'v, 'f) hash_map \<times> ('k, 'v, 'f) hash_map" where
  "move_map one other =
     (\<lparr>hm_hash = hm_hash other, hm_size = hm_size other, hm_buckets = hm_buckets other,
       hm_count = hm_count other, hm_max_load = one\<rparr>,
      other\<lparr>hm_buckets := Null_Array, hm_count := 0\<rparr>)"

definition assign_map ::
  "(nat \<Rightarrow> fault + pos) \<Rightarrow> ('k, 'v, 'f) hash_map \<Rightarrow> ('k, 'v, 'f) hash_map \<Rightarrow>
   fault + ('k, 'v, 'f) hash_map" where
  "assign_map past m other = bnd (free_buckets (hm_buckets m)) (\<lambda>_.
     let m1 = m\<lparr>hm_hash := hm_hash other, hm_size := hm_size other,
       hm_buckets := make_buckets (hm_size other)\<rparr> in
     bnd (fill_from past other m1) (\<lambda>(m2, c). Inr (m2\<lparr>hm_count := c\<rparr>)))"

definition move_assign_map ::
  "('k, 'v, 'f) hash_map \<Rightarrow> ('k, 'v, 'f) hash_map \<Rightarrow>
   fault + (('k, 'v, 'f) hash_map \<times> ('k, 'v, 'f) hash_map)" where
  "move_assign_map m other = bnd (free_buckets (hm_buckets m)) (\<lambda>_.
     Inr (m\<lparr>hm_hash := hm_hash other, hm_size := hm_size other, hm_buckets := hm_buckets other,
            hm_count := hm_count other\<rparr>,
          other\<lparr>hm_buckets := Null_Array, hm_count := 0\<rparr>))"

definition swap_maps ::
  "('k, 'v, 'f) hash_map \<Rightarrow> ('k, 'v, 'f) hash_map \<Rightarrow> ('k, 'v, 'f) hash_map \<times> ('k, 'v, 'f) hash_map" where
  "swap_maps m other =
     (other\<lparr>hm_max_load := hm_max_load m\<rparr>, m\<lparr>hm_max_load := hm_max_load other\<rparr>)"

section \<open>Capacity\<close>

definition hm_empty :: "('k, 'v, 'f) hash_map \<Rightarrow> bool" where
  "hm_empty m \<longleftrightarrow> hm_count m = 0"

definition hm_clear :: "('k, 'v, 'f) hash_map \<Rightarrow> fault + ('k, 'v, 'f) hash_map" where
  "hm_clear m = bnd (free_buckets (hm_buckets m)) (\<lambda>bs. Inr (m\<lparr>hm_buckets := bs\<rparr>))"

definition count_key :: "('k, 'v, 'f) hash_map \<Rightarrow> 'k \<Rightarrow> size_t" where
  "count_key m k = hm_count m"

definition bucket_of :: "('k, 'v, 'f) hash_map \<Rightarrow> 'k \<Rightarrow> fault + size_t" where
  "bucket_of m k = bnd (get_bucket m k) (\<lambda>(i, b). Inr (bucket_size b))"

definition bucket_size_at :: "('k, 'v, 'f) hash_map \<Rightarrow> nat \<Rightarrow> fault + size_t" where
  "bucket_size_at m i = bnd (bucket_at m i) (\<lambda>b. Inr (bucket_size b))"

section \<open>Modifiers\<close>

text \<open>
  \<open>store_result\<close> is the common tail of the insertions: the bucket is written back, a new node is
  counted, and the result iterator is made.
\<close>

definition store_result ::
  "fault + pos \<Rightarrow> ('k, 'v, 'f) hash_map \<Rightarrow> nat \<Rightarrow> ('k, 'v) bucket \<times> pos \<times> bool \<Rightarrow>
   fault + (('k, 'v, 'f) hash_map \<times> hm_iter \<times> bool)" where
  "store_result past m i res = (case res of (b, n, new) \<Rightarrow>
     let m1 = set_bucket m i b;
         m2 = (if new then m1\<lparr>hm_count := hm_count m1 + 1\<rparr> else m1) in
     bnd (node_iter past m2 i (bend m2) n) (\<lambda>it. Inr (m2, it, new)))"

definition hm_insert ::
  "fault + pos \<Rightarrow> ('k, 'v, 'f) hash_map \<Rightarrow> 'k \<times> 'v \<Rightarrow>
   fault + (('k, 'v, 'f) hash_map \<times> hm_iter \<times> bool)" where
  "hm_insert past m x = bnd (get_bucket m (fst x)) (\<lambda>(i, b).
     store_result past m i (insert_unique b x))"

definition hm_insert_or_assign ::
  "fault + pos \<Rightarrow> ('k, 'v, 'f) hash_map \<Rightarrow> 'k \<Rightarrow> 'v \<Rightarrow>
   fault + (('k, 'v, 'f) hash_map \<times> hm_iter \<times> bool)" where
  "hm_insert_or_assign past m k v = bnd (get_bucket m k) (\<lambda>(i, b).
     store_result past m i (insert_or_assign b k v))"

definition hm_try_emplace ::
  "fault + pos \<Rightarrow> ('k, 'v, 'f) hash_map \<Rightarrow> 'k \<Rightarrow> 'v \<Rightarrow>
   fault + (('k, 'v, 'f) hash_map \<times> hm_iter \<times> bool)" where
  "hm_try_emplace past m k v = bnd (get_bucket m k) (\<lambda>(i, b).
     store_result past m i (try_emplace b k v))"

definition hm_erase_at ::
  "fault + pos \<Rightarrow> ('k, 'v, 'f) hash_map \<Rightarrow> hm_iter \<Rightarrow> fault + (('k, 'v, 'f) hash_map \<times> hm_iter)" where
  "hm_erase_at past m pos = bnd (bucket_at m (it_bucket pos)) (\<lambda>b.
     bnd (bucket_erase_pos b (it_node pos)) (\<lambda>(b', n).
     let m1 = (set_bucket m (it_bucket pos) b')\<lparr>hm_count := hm_count m - 1\<rparr> in
     bnd (node_iter past m1 (it_bucket pos) (it_end pos) n) (\<lambda>it. Inr (m1, it))))"

text \<open>
  Erasing a range: after \<^verbatim>\<open>erase(first)\<close> the loop increments \<^verbatim>\<open>first\<close>, whose node is gone.
\<close>

definition hm_erase_range ::
  "fault + pos \<Rightarrow> ('k, 'v, 'f) hash_map \<Rightarrow> hm_iter \<Rightarrow> hm_iter \<Rightarrow>
   fault + (('k, 'v, 'f) hash_map \<times> hm_iter)" where
  "hm_erase_range past m first fin = (if iter_eq first fin then Inr (m, fin)
     else bnd (hm_erase_at past m first) (\<lambda>_. Inl Dangling))"

definition hm_erase :: "('k, 'v, 'f) hash_map \<Rightarrow> 'k \<Rightarrow> fault + (('k, 'v, 'f) hash_map \<times> size_t)" where
  "hm_erase m k = bnd (get_bucket m k) (\<lambda>(i, b).
     case bucket_erase b k of (b', n) \<Rightarrow>
       Inr ((set_bucket m i b')\<lparr>hm_count := hm_count m - n\<rparr>, n))"

section \<open>Lookup\<close>

definition hm_at :: "('k, 'v, 'f) hash_map \<Rightarrow> 'k \<Rightarrow> fault + ('k \<times> 'v)" where
  "hm_at m k = bnd (get_bucket m k) (\<lambda>(i, b). let it = bucket_find b k in
     if it \<noteq> bucket_end then node_data b it else Inl Out_Of_Range)"

text \<open>\<open>hm_subscript\<close> is \<^verbatim>\<open>operator[]\<close>; \<open>dflt\<close> is the value-initialised mapped type.\<close>

definition hm_subscript ::
  "'v \<Rightarrow> ('k, 'v, 'f) hash_map \<Rightarrow> 'k \<Rightarrow> fault + (('k, 'v, 'f) hash_map \<times> ('k \<times> 'v))" where
  "hm_subscript dflt m k = bnd (get_bucket m k) (\<lambda>(i, b). let it = bucket_find b k in
     if it \<noteq> bucket_end then bnd (node_data b it) (\<lambda>x. Inr (m, x))
     else let b' = bucket_push_front b (k, dflt) in
       bnd (node_data b' (bucket_begin b')) (\<lambda>x. Inr (set_bucket m i b', x)))"

definition hm_find :: "fault + pos \<Rightarrow> ('k, 'v, 'f) hash_map \<Rightarrow> 'k \<Rightarrow> fault + hm_iter" where
  "hm_find past m k = bnd (get_bucket m k) (\<lambda>(i, b). let it = bucket_find b k in
     if it \<noteq> bucket_end then node_iter past m i (bend m) it else hm_end past m)"

function range_end :: "('k, 'v) bucket \<Rightarrow> 'k \<Rightarrow> pos \<Rightarrow> fault + pos" where
  "range_end b k n = (if n = bucket_end then Inr n
     else bnd (node_data b n) (\<lambda>x. if fst x = k then bnd (node_next b n) (\<lambda>n'. range_end b k n')
       else Inr n))"
  by pat_completeness auto
termination
  by (relation "measure (\<lambda>(b, k, n). case n of None \<Rightarrow> 0 | Some p \<Rightarrow> Suc (length b) - p)")
    (auto simp: node_next_def node_after_def bucket_end_def split: option.splits if_splits)

declare range_end.simps [simp del]

definition hm_equal_range ::
  "fault + pos \<Rightarrow> ('k, 'v, 'f) hash_map \<Rightarrow> 'k \<Rightarrow> fault + (hm_iter \<times> hm_iter)" where
  "hm_equal_range past m k = bnd (get_bucket m k) (\<lambda>(i, b). let it = bucket_find b k in
     if it \<noteq> bucket_end then
       bnd (range_end b k it) (\<lambda>e.
       bnd (node_iter past m i (bend m) it) (\<lambda>l.
       bnd (node_iter past m i (bend m) e) (\<lambda>r. Inr (l, r))))
     else bnd (hm_end past m) (\<lambda>e. Inr (e, e)))"

section \<open>Hash policy\<close>

fun total_size :: "('k, 'v) bucket list \<Rightarrow> size_t \<Rightarrow> size_t" where
  "total_size [] t = t"
| "total_size (b # bs) t = total_size bs (t + bucket_size b)"

definition load_factor :: "(size_t \<Rightarrow> size_t \<Rightarrow> 'f) \<Rightarrow> ('k, 'v, 'f) hash_map \<Rightarrow> fault + 'f" where
  "load_factor fdiv m = (case hm_buckets m of
       Live bs \<Rightarrow> Inr (fdiv (total_size bs 0) (hm_size m))
     | Null_Array \<Rightarrow> if hm_size m = 0 then Inr (fdiv 0 0) else Inl Null_Deref
     | Freed \<Rightarrow> if hm_size m = 0 then Inr (fdiv 0 0) else Inl Dangling)"

definition max_load_factor :: "('k, 'v, 'f) hash_map \<Rightarrow> 'f" where
  "max_load_factor m = hm_max_load m"

definition set_max_load_factor :: "('k, 'v, 'f) hash_map \<Rightarrow> 'f \<Rightarrow> ('k, 'v, 'f) hash_map" where
  "set_max_load_factor m ml = m\<lparr>hm_max_load := ml\<rparr>"

text \<open>The loop of \<^verbatim>\<open>rehash\<close> asks for \<^verbatim>\<open>end()\<close> in every round.\<close>

function rehash_loop ::
  "(nat \<Rightarrow> fault + pos) \<Rightarrow> nat \<Rightarrow> ('k, 'v, 'f) hash_map \<Rightarrow> hm_iter \<Rightarrow> ('k, 'v, 'f) hash_map \<Rightarrow>
   fault + ('k, 'v, 'f) hash_map" where
  "rehash_loop past t m it new = bnd (hm_end (past t) m) (\<lambda>fin. if iter_eq it fin then Inr new
     else bnd (iter_data m it) (\<lambda>x. bnd (get_bucket new (fst x)) (\<lambda>(i, b).
       bnd (iter_next (past (Suc t)) m it) (\<lambda>it'.
       rehash_loop past (Suc t) m it' (set_bucket new i (bucket_push_front b x))))))"
  by pat_completeness auto
termination
proof (relation "measures [\<lambda>(past, t, m, it, new). array_length m - it_bucket it,
      \<lambda>(past, t, m, it, new). nodes_left m it]", goal_cases)
  case 1
  show ?case by simp
next
  case (2 past t m it new fin x z i b it')
  then show ?case using iter_next_progress [of "past (Suc t)" m it it'] by auto
qed

declare rehash_loop.simps [simp del]

definition hm_rehash ::
  "(nat \<Rightarrow> fault + pos) \<Rightarrow> ('k, 'v, 'f) hash_map \<Rightarrow> size_t \<Rightarrow> fault + ('k, 'v, 'f) hash_map" where
  "hm_rehash past m n = bnd (hm_begin (past 0) m) (\<lambda>it.
     bnd (rehash_loop past 0 m it (m\<lparr>hm_size := n, hm_buckets := make_buckets n\<rparr>)) (\<lambda>m1.
     bnd (free_buckets (hm_buckets m)) (\<lambda>_. Inr m1)))"

definition hm_reserve ::
  "(size_t \<Rightarrow> 'f \<Rightarrow> size_t) \<Rightarrow> (nat \<Rightarrow> fault + pos) \<Rightarrow> ('k, 'v, 'f) hash_map \<Rightarrow> size_t \<Rightarrow>
   fault + ('k, 'v, 'f) hash_map" where
  "hm_reserve ceil_quot past m n = hm_rehash past m (ceil_quot n (max_load_factor m))"

end
