(* ===== verification/Hash_Map_Laws.thy ===== *)
theory Hash_Map_Laws
  imports Hash_Map
begin

text \<open>
  The invariant of the hash map, the map it stands for, and what its operations do to both. The
  operations by key are an instance of \<^const>\<open>assoc\<close>.
\<close>

section \<open>Invariant and abstraction\<close>

definition key_index :: "('k, 'v, 'f) hash_map \<Rightarrow> 'k \<Rightarrow> nat" where
  "key_index m k = unat (hm_hash m k mod hm_size m)"

definition stored :: "('k, 'v, 'f) hash_map \<Rightarrow> ('k \<times> 'v) list" where
  "stored m = (case hm_buckets m of Live bs \<Rightarrow> concat bs | _ \<Rightarrow> [])"

text \<open>Every key is in the bucket of its hash, once.\<close>

definition placed_ok :: "('k, 'v, 'f) hash_map \<Rightarrow> bool" where
  "placed_ok m \<longleftrightarrow> (case hm_buckets m of
       Live bs \<Rightarrow> hm_size m \<noteq> 0 \<and> length bs = unat (hm_size m) \<and>
         (\<forall>i<length bs. keys_distinct (bs ! i) \<and> (\<forall>x\<in>set (bs ! i). key_index m (fst x) = i))
     | _ \<Rightarrow> False)"

definition map_ok :: "('k, 'v, 'f) hash_map \<Rightarrow> bool" where
  "map_ok m \<longleftrightarrow> placed_ok m \<and> hm_count m = of_nat (length (stored m))"

definition map_view :: "('k, 'v, 'f) hash_map \<Rightarrow> 'k \<rightharpoonup> 'v" where
  "map_view m = map_of (stored m)"

lemma placed_okE:
  assumes "placed_ok m"
  obtains bs where "hm_buckets m = Live bs" and "hm_size m \<noteq> 0" and "length bs = unat (hm_size m)"
    and "\<And>i. i < length bs \<Longrightarrow> keys_distinct (bs ! i)"
    and "\<And>i x. i < length bs \<Longrightarrow> x \<in> set (bs ! i) \<Longrightarrow> key_index m (fst x) = i"
  using assms by (auto simp: placed_ok_def split: barray.splits)

lemma placed_okD:
  assumes "placed_ok m" and "hm_buckets m = Live bs"
  shows "hm_size m \<noteq> 0" and "length bs = unat (hm_size m)"
    and "i < length bs \<Longrightarrow> keys_distinct (bs ! i)"
    and "i < length bs \<Longrightarrow> x \<in> set (bs ! i) \<Longrightarrow> key_index m (fst x) = i"
  using assms by (simp_all add: placed_ok_def)

lemma placed_okI:
  assumes "hm_buckets m = Live bs" and "hm_size m \<noteq> 0" and "length bs = unat (hm_size m)"
    and "\<And>i. i < length bs \<Longrightarrow> keys_distinct (bs ! i)"
    and "\<And>i x. i < length bs \<Longrightarrow> x \<in> set (bs ! i) \<Longrightarrow> key_index m (fst x) = i"
  shows "placed_ok m"
  using assms by (simp add: placed_ok_def)

lemma key_index_less: "hm_size m \<noteq> 0 \<Longrightarrow> key_index m k < unat (hm_size m)"
  unfolding key_index_def unat_mod_distrib by (metis mod_less_divisor unat_gt_0)

lemma get_bucket_ok:
  assumes "placed_ok m" and "hm_buckets m = Live bs"
  shows "get_bucket m k = Inr (key_index m k, bs ! key_index m k)"
    and "key_index m k < length bs"
proof -
  show "key_index m k < length bs"
    using placed_okD(1,2) [OF assms] key_index_less [of m k] by simp
  moreover have "bucket_index m k = Inr (key_index m k)"
    using placed_okD(1) [OF assms] unfolding bucket_index_def key_index_def by (simp only: if_False)
  ultimately show "get_bucket m k = Inr (key_index m k, bs ! key_index m k)"
    using assms(2) by (simp add: get_bucket_def bucket_at_def)
qed

lemma concat_split: "i < length bs \<Longrightarrow> concat bs = concat (take i bs) @ bs ! i @ concat (drop (Suc i) bs)"
  by (metis concat.simps(2) concat_append id_take_nth_drop)

lemma concat_update:
  "i < length bs \<Longrightarrow> concat (bs[i := b]) = concat (take i bs) @ b @ concat (drop (Suc i) bs)"
  by (simp add: upd_conv_take_nth_drop)

lemma other_bucket_keys:
  assumes "placed_ok m" and "hm_buckets m = Live bs"
  shows "map_of (concat (take (key_index m k) bs)) k = None"
    and "map_of (concat (drop (Suc (key_index m k)) bs)) k = None"
proof -
  have *: "map_of (concat cs) k = None"
    if "\<And>c. c \<in> set cs \<Longrightarrow> \<exists>j<length bs. j \<noteq> key_index m k \<and> c = bs ! j" for cs
  proof -
    have "(k, v) \<notin> set c" if "c \<in> set cs" for c v
      using \<open>\<And>c. c \<in> set cs \<Longrightarrow> _ c\<close> [OF that] placed_okD(4) [OF assms] by (metis fst_conv)
    then show ?thesis by (auto simp: map_of_eq_None_iff)
  qed
  show "map_of (concat (take (key_index m k) bs)) k = None"
    by (rule *) (force simp: in_set_conv_nth)
  show "map_of (concat (drop (Suc (key_index m k)) bs)) k = None"
  proof (rule *)
    fix c
    assume "c \<in> set (drop (Suc (key_index m k)) bs)"
    then obtain j where "j < length bs - Suc (key_index m k)" "c = bs ! (Suc (key_index m k) + j)"
      by (auto simp: in_set_conv_nth)
    then show "\<exists>j<length bs. j \<noteq> key_index m k \<and> c = bs ! j"
      by (intro exI [of _ "Suc (key_index m k) + j"]) simp
  qed
qed

lemma map_view_bucket:
  assumes "placed_ok m" and "hm_buckets m = Live bs"
  shows "map_view m k = map_of (bs ! key_index m k) k"
  using other_bucket_keys [OF assms, of k] concat_split [OF get_bucket_ok(2) [OF assms, of k]] assms(2)
  by (simp add: map_view_def stored_def map_add_def split: option.splits)

text \<open>The keys of all buckets together are distinct.\<close>

lemma placed_distinct:
  assumes "placed_ok m"
  shows "keys_distinct (stored m)"
proof -
  obtain bs where bs: "hm_buckets m = Live bs"
    "\<And>i. i < length bs \<Longrightarrow> keys_distinct (bs ! i)"
    "\<And>i x. i < length bs \<Longrightarrow> x \<in> set (bs ! i) \<Longrightarrow> key_index m (fst x) = i"
    using assms by (metis placed_okE)
  have "keys_distinct (concat (take n bs))" if "n \<le> length bs" for n
    using that
  proof (induction n)
    case (Suc n)
    have "fst x \<noteq> fst y" if "x \<in> set (concat (take n bs))" "y \<in> set (bs ! n)" for x y
    proof -
      from that(1) Suc.prems obtain i where "i < n" "x \<in> set (bs ! i)"
        by (auto simp: in_set_conv_nth [of _ "take n bs"])
      with that(2) Suc.prems bs(3) [of i x] bs(3) [of n y] show ?thesis
        by auto
    qed
    with Suc bs(2) [of n] show ?case
      by (force simp: take_Suc_conv_app_nth keys_distinct_def)
  qed (simp add: keys_distinct_def)
  from this [of "length bs"] bs(1) show ?thesis
    by (simp add: stored_def)
qed

text \<open>Replacing the bucket of a key by one that differs at that key only.\<close>

lemma replace_bucket:
  assumes m: "placed_ok m" "hm_buckets m = Live bs" and i: "i = key_index m k"
    and b: "keys_distinct b" "fst ` set b \<subseteq> insert k (fst ` set (bs ! i))"
      "map_of b = (map_of (bs ! i))(k := r)"
  shows "placed_ok (set_bucket m i b)" and "map_view (set_bucket m i b) = (map_view m)(k := r)"
    and "length (stored (set_bucket m i b)) + length (bs ! i) = length (stored m) + length b"
proof -
  have il: "i < length bs" using get_bucket_ok(2) [OF m] i by simp
  have eq: "set_bucket m i b = m\<lparr>hm_buckets := Live (bs[i := b])\<rparr>"
    using m by (simp add: set_bucket_def)
  have ki: "key_index (set_bucket m i b) = key_index m"
    by (simp add: eq key_index_def fun_eq_iff)
  have sz: "hm_size m \<noteq> 0" "length bs = unat (hm_size m)"
    and d: "\<And>j. j < length bs \<Longrightarrow> keys_distinct (bs ! j)"
    and x: "\<And>j x. j < length bs \<Longrightarrow> x \<in> set (bs ! j) \<Longrightarrow> key_index m (fst x) = j"
    using placed_okD [OF m] by simp_all
  show ok: "placed_ok (set_bucket m i b)"
  proof (rule placed_okI [of _ "bs[i := b]"])
    fix j y
    assume j: "j < length (bs[i := b])" "y \<in> set (bs[i := b] ! j)"
    show "key_index (set_bucket m i b) (fst y) = j"
    proof (cases "j = i")
      case True
      with j il have "fst y \<in> insert k (fst ` set (bs ! i))"
        using b(2) by auto
      then show ?thesis unfolding ki using True x [OF il] i by auto
    qed (use j x ki in auto)
  qed (use sz d b(1) il in \<open>auto simp: eq nth_list_update\<close>)
  have bk: "hm_buckets (set_bucket m i b) = Live (bs[i := b])"
    by (simp add: eq)
  have "map_view (set_bucket m i b) k' = ((map_view m)(k := r)) k'" for k'
    using map_view_bucket [OF ok bk, of k'] map_view_bucket [OF m, of k'] b(3) i il
    unfolding ki by (cases "key_index m k' = i") auto
  then show "map_view (set_bucket m i b) = (map_view m)(k := r)"
    by blast
  show "length (stored (set_bucket m i b)) + length (bs ! i) = length (stored m) + length b"
    using concat_split [OF il] concat_update [OF il, of b] m by (simp add: stored_def eq)
qed

lemma set_bucket_simps [simp]:
  "hm_hash (set_bucket m i b) = hm_hash m"
  "hm_size (set_bucket m i b) = hm_size m"
  "hm_count (set_bucket m i b) = hm_count m"
  "hm_max_load (set_bucket m i b) = hm_max_load m"
  by (simp_all add: set_bucket_def split: barray.splits)

lemma count_upd_simps [simp]:
  "placed_ok (m\<lparr>hm_count := c\<rparr>) = placed_ok m"
  "map_view (m\<lparr>hm_count := c\<rparr>) = map_view m"
  "stored (m\<lparr>hm_count := c\<rparr>) = stored m"
  by (simp_all add: placed_ok_def map_view_def stored_def key_index_def cong: barray.case_cong)

section \<open>Operations by key\<close>

lemma node_iter_some [simp]:
  "node_iter past m i e (Some n) = Inr \<lparr>it_bucket = i, it_end = e, it_node = Some n\<rparr>"
  by (simp add: node_iter_def next_node.simps bucket_end_def)

text \<open>The insertions: the result of the bucket operation carried over to the map.\<close>

lemma store_result_ok:
  assumes m: "map_ok m" "hm_buckets m = Live bs" and i: "i = key_index m k"
    and b: "keys_distinct b" "fst ` set b \<subseteq> insert k (fst ` set (bs ! i))"
      "map_of b = (map_of (bs ! i))(k := r)"
      "length b = length (bs ! i) + (if new then 1 else 0)" and n: "n = Some p"
  obtains m' where "store_result past m i (b, n, new) =
      Inr (m', \<lparr>it_bucket = i, it_end = bend m, it_node = n\<rparr>, new)"
    and "map_ok m'" and "map_view m' = (map_view m)(k := r)"
proof -
  from m have p: "placed_ok m" by (simp add: map_ok_def)
  note r = replace_bucket [OF p m(2) i b(1-3)]
  let ?m = "set_bucket m i b"
  have "map_ok (if new then ?m\<lparr>hm_count := hm_count ?m + 1\<rparr> else ?m)"
    using r m b(4) by (auto simp: map_ok_def split: if_splits)
  moreover have "map_view (if new then ?m\<lparr>hm_count := hm_count ?m + 1\<rparr> else ?m) =
    (map_view m)(k := r)"
    using r by simp
  ultimately show thesis
    using n by (intro that) (simp_all add: store_result_def Let_def bend_def)
qed

lemma hm_insert_ok:
  assumes "map_ok m"
  obtains m' it where "hm_insert past m (k, v) = Inr (m', it, map_view m k = None)" and "map_ok m'"
    and "map_view m' = (if map_view m k = None then (map_view m)(k \<mapsto> v) else map_view m)"
proof -
  from assms obtain bs where bs: "placed_ok m" "hm_buckets m = Live bs"
    by (auto simp: map_ok_def elim: placed_okE)
  let ?i = "key_index m k"
  have d: "keys_distinct (bs ! ?i)"
    using bs get_bucket_ok(2) [OF bs] by (auto elim!: placed_okE)
  have v: "map_view m k = map_of (bs ! ?i) k" by (rule map_view_bucket [OF bs])
  show thesis
  proof (cases "map_view m k")
    case None
    with v have "map_of (bs ! ?i) k = None" by simp
    then show thesis
      using store_result_ok [OF assms bs(2) refl, of "(k, v) # bs ! ?i" k "Some v" True "Some 1" 1 past]
        d None that
      by (auto simp: hm_insert_def get_bucket_ok(1) [OF bs] insert_unique_eq keys_distinct_def
          map_of_eq_None_iff)
  next
    case (Some w)
    with v have w: "map_of (bs ! ?i) k = Some w" by simp
    then obtain q where q: "bucket_find (bs ! ?i) k = Some q"
      using bucket_find_None [of "bs ! ?i" k] by (cases "bucket_find (bs ! ?i) k") auto
    have "map_of (bs ! ?i) = (map_of (bs ! ?i))(k := Some w)" "map_view m = (map_view m)(k := Some w)"
      using w Some by (simp_all add: fun_upd_idem)
    then show thesis
      using store_result_ok [OF assms bs(2) refl, of "bs ! ?i" k "Some w" False "Some q" q past]
        d Some that w q
      by (auto simp: hm_insert_def get_bucket_ok(1) [OF bs] insert_unique_eq)
  qed
qed

lemma hm_try_emplace_eq: "hm_try_emplace past m k v = hm_insert past m (k, v)"
  by (simp add: hm_try_emplace_def hm_insert_def try_emplace_eq)

lemma hm_assign_ok:
  assumes "map_ok m"
  obtains m' it where "hm_insert_or_assign past m k v = Inr (m', it, map_view m k = None)"
    and "map_ok m'" and "map_view m' = (map_view m)(k \<mapsto> v)"
proof -
  from assms obtain bs where bs: "placed_ok m" "hm_buckets m = Live bs"
    by (auto simp: map_ok_def elim: placed_okE)
  let ?i = "key_index m k"
  have d: "keys_distinct (bs ! ?i)"
    using bs get_bucket_ok(2) [OF bs] by (auto elim!: placed_okE)
  have v: "map_view m k = map_of (bs ! ?i) k" by (rule map_view_bucket [OF bs])
  from assign_facts [OF d, of k v] obtain b' n where b':
    "insert_or_assign (bs ! ?i) k v = (b', n, map_of (bs ! ?i) k = None)"
    "n \<noteq> None" "keys_distinct b'" "map_of b' = (map_of (bs ! ?i))(k \<mapsto> v)"
    "fst ` set b' = insert k (fst ` set (bs ! ?i))"
    "length b' = length (bs ! ?i) + (if map_of (bs ! ?i) k = None then 1 else 0)" .
  then obtain p where "n = Some p" by blast
  with b' obtain m' where "store_result past m ?i (b', n, map_of (bs ! ?i) k = None) =
      Inr (m', \<lparr>it_bucket = ?i, it_end = bend m, it_node = n\<rparr>, map_of (bs ! ?i) k = None)"
    "map_ok m'" "map_view m' = (map_view m)(k \<mapsto> v)"
    using store_result_ok [OF assms bs(2) refl, of b' k "Some v" "map_of (bs ! ?i) k = None" n p past]
    by auto
  with b' v that show thesis
    by (simp add: hm_insert_or_assign_def get_bucket_ok(1) [OF bs])
qed

lemma hm_erase_ok:
  assumes "map_ok m"
  obtains m' where "hm_erase m k = Inr (m', if map_view m k = None then 0 else 1)"
    and "map_ok m'" and "map_view m' = (map_view m)(k := None)"
proof -
  from assms obtain bs where bs: "placed_ok m" "hm_buckets m = Live bs"
    by (auto simp: map_ok_def elim: placed_okE)
  let ?i = "key_index m k" and ?b = "bs ! key_index m k"
  let ?b' = "filter (\<lambda>x. fst x \<noteq> k) ?b" and ?n = "if map_view m k = None then 0 else (1 :: size_t)"
  have d: "keys_distinct ?b"
    using bs get_bucket_ok(2) [OF bs] by (auto elim!: placed_okE)
  have v: "map_view m k = map_of ?b k" by (rule map_view_bucket [OF bs])
  have r: "placed_ok (set_bucket m ?i ?b')" "map_view (set_bucket m ?i ?b') = (map_view m)(k := None)"
    "length (stored (set_bucket m ?i ?b')) + length ?b = length (stored m) + length ?b'"
    using replace_bucket [OF bs refl keys_distinct_filter [OF d] _ map_of_filter_key] by auto
  have "length (stored m) = length (stored (set_bucket m ?i ?b')) + (if map_view m k = None then 0 else 1)"
    using r(3) length_filter_key [OF d, of k] v by (auto split: if_splits)
  then have "of_nat (length (stored m)) - ?n = of_nat (length (stored (set_bucket m ?i ?b')))"
    by (auto simp del: length_filter_less)
  then show thesis
    using assms r v bucket_erase_distinct [OF d, of k]
    by (intro that [of "(set_bucket m ?i ?b')\<lparr>hm_count := hm_count m - ?n\<rparr>"])
      (auto simp: hm_erase_def get_bucket_ok(1) [OF bs] map_ok_def)
qed

lemma hm_at_ok:
  assumes "map_ok m"
  shows "hm_at m k = (case map_view m k of None \<Rightarrow> Inl Out_Of_Range | Some v \<Rightarrow> Inr (k, v))"
proof -
  from assms obtain bs where bs: "placed_ok m" "hm_buckets m = Live bs"
    by (auto simp: map_ok_def elim: placed_okE)
  show ?thesis
  proof (cases "bucket_find (bs ! key_index m k) k")
    case None
    then show ?thesis
      using bucket_find_None [of "bs ! key_index m k" k] map_view_bucket [OF bs, of k]
      by (simp add: hm_at_def get_bucket_ok(1) [OF bs] bucket_end_def)
  next
    case (Some q)
    then obtain i where "q = Suc i" "i < length (bs ! key_index m k)"
      "fst (bs ! key_index m k ! i) = k"
      "map_of (bs ! key_index m k) k = Some (snd (bs ! key_index m k ! i))"
      by (rule bucket_find_Some)
    with Some show ?thesis
      using map_view_bucket [OF bs, of k] prod.collapse [of "bs ! key_index m k ! i"]
      by (simp add: hm_at_def get_bucket_ok(1) [OF bs] bucket_end_def)
  qed
qed

text \<open>The value behind an iterator, and nothing at \<^verbatim>\<open>end()\<close>: how a client looks a key up.\<close>

definition find_value ::
  "fault + pos \<Rightarrow> ('k, 'v, 'f) hash_map \<Rightarrow> 'k \<Rightarrow> fault + 'v option" where
  "find_value past m k = bnd (hm_find past m k) (\<lambda>it. bnd (hm_end past m) (\<lambda>e.
     if iter_eq it e then Inr None else bnd (iter_data m it) (\<lambda>x. Inr (Some (snd x)))))"

lemma hm_end_ok:
  assumes "placed_ok m"
  shows "hm_end past m = bnd past (\<lambda>n. Inr \<lparr>it_bucket = bend m, it_end = bend m, it_node = n\<rparr>)"
  using assms by (auto simp: hm_end_def end_iter_def first_of_def bend_def elim!: placed_okE)

lemma find_value_ok:
  assumes "map_ok m"
  shows "find_value (Inr w) m k = Inr (map_view m k)"
proof -
  from assms obtain bs where bs: "placed_ok m" "hm_buckets m = Live bs" "length bs = unat (hm_size m)"
    by (auto simp: map_ok_def elim: placed_okE)
  show ?thesis
  proof (cases "bucket_find (bs ! key_index m k) k")
    case None
    then show ?thesis
      using bucket_find_None [of "bs ! key_index m k" k] map_view_bucket [OF bs(1,2), of k]
      by (simp add: find_value_def hm_find_def get_bucket_ok(1) [OF bs(1,2)] bucket_end_def
          hm_end_ok [OF bs(1)] iter_eq_def)
  next
    case (Some q)
    then obtain i where i: "q = Suc i" "i < length (bs ! key_index m k)"
      "map_of (bs ! key_index m k) k = Some (snd (bs ! key_index m k ! i))"
      by (rule bucket_find_Some)
    have "key_index m k < bend m"
      using get_bucket_ok(2) [OF bs(1,2), of k] bs(3) by (simp add: bend_def)
    with Some i show ?thesis
      using map_view_bucket [OF bs(1,2), of k] get_bucket_ok(2) [OF bs(1,2), of k]
      by (simp add: find_value_def hm_find_def get_bucket_ok(1) [OF bs(1,2)] bucket_end_def
          hm_end_ok [OF bs(1)] iter_eq_def iter_data_def bucket_at_def bs(2))
  qed
qed

interpretation hm: assoc map_ok map_view "\<lambda>_. True" "find_value (Inr w)"
  "\<lambda>m k v. bnd (hm_insert (Inr w) m (k, v)) (\<lambda>(m', it, new). Inr (m', new))"
  "\<lambda>m k v. bnd (hm_insert_or_assign (Inr w) m k v) (\<lambda>(m', it, new). Inr (m', new))"
  hm_erase for w
proof (unfold_locales, goal_cases)
  case (1 m k)
  then show ?case by (rule find_value_ok)
next
  case (2 m k v)
  show ?case by (rule hm_insert_ok [OF 2(1), of "Inr w" k v]) auto
next
  case (3 m k v)
  show ?case by (rule hm_assign_ok [OF 3(1), of "Inr w" k v]) auto
next
  case (4 m k)
  then show ?case by (rule hm_erase_ok [of m k]) auto
qed

end
