(* ===== verification/Hash_Map_Iteration.thy ===== *)
theory Hash_Map_Iteration
  imports Hash_Map_Laws
begin

text \<open>
  Iteration over the hash map, and the operations built on it: filling, rehashing, copying.
\<close>

section \<open>Iteration\<close>

lemma first_of_bucket:
  assumes "hm_buckets m = Live bs"
  shows "i < length bs \<Longrightarrow> first_of past m i = Inr (bucket_begin (bs ! i))"
    and "first_of past m (length bs) = past"
  using assms by (simp_all add: first_of_def bucket_at_def)

lemma visit_end: "iter_eq it fin \<Longrightarrow> visit past m it fin = Inr []"
  by (simp add: visit.simps)

lemma visit_step:
  "\<not> iter_eq it fin \<Longrightarrow> iter_data m it = Inr x \<Longrightarrow> iter_next past m it = Inr it' \<Longrightarrow>
   visit past m it' fin = Inr xs \<Longrightarrow> visit past m it fin = Inr (x # xs)"
  by (subst visit.simps) simp

text \<open>From a node, the loop visits the rest of its bucket and then what follows.\<close>

lemma visit_bucket:
  assumes m: "hm_buckets m = Live bs" and i: "i < length bs" and fin: "it_bucket fin = length bs"
    and next_bucket: "next_node past m \<lparr>it_bucket = i, it_end = length bs, it_node = None\<rparr> = Inr it"
      "visit past m it fin = Inr ys"
    and p: "p < length (bs ! i)"
  shows "visit past m \<lparr>it_bucket = i, it_end = length bs, it_node = Some (Suc p)\<rparr> fin =
    Inr (drop p (bs ! i) @ ys)"
  using p
proof (induction "length (bs ! i) - Suc p" arbitrary: p)
  case 0
  then have len: "length (bs ! i) = Suc p" by simp
  then have nn: "node_next (bs ! i) (Some (Suc p)) = Inr None"
    using node_next_simps(3) [of "bs ! i"] by simp
  have "drop p (bs ! i) = [bs ! i ! p]"
    using len by (simp add: Cons_nth_drop_Suc [symmetric])
  then show ?case
    using m i fin next_bucket len nn
    by (auto intro!: visit_step simp: iter_eq_def iter_data_def iter_next_def bucket_at_def)
next
  case (Suc d)
  then have p: "Suc p < length (bs ! i)" by simp
  let ?it = "\<lambda>p. \<lparr>it_bucket = i, it_end = length bs, it_node = Some (Suc p)\<rparr>"
  have "visit past m (?it (Suc p)) fin = Inr (drop (Suc p) (bs ! i) @ ys)"
    using Suc.hyps(2) p by (intro Suc.hyps(1)) simp_all
  moreover have "iter_data m (?it p) = Inr (bs ! i ! p)"
    and "iter_next past m (?it p) = Inr (?it (Suc p))" and "\<not> iter_eq (?it p) fin"
    using m i fin p
    by (simp_all add: iter_eq_def iter_data_def iter_next_def bucket_at_def next_node.simps
        bucket_end_def)
  ultimately show ?case
    using p visit_step [of "?it p" fin m "bs ! i ! p" past "?it (Suc p)"]
    by (simp flip: Cons_nth_drop_Suc)
qed

lemma visit_from_bucket:
  assumes m: "hm_buckets m = Live bs" and past: "past = Inr w"
    and fin: "fin = \<lparr>it_bucket = length bs, it_end = length bs, it_node = w\<rparr>"
    and i: "i < length bs"
  shows "\<exists>it. next_node past m \<lparr>it_bucket = i, it_end = length bs, it_node = None\<rparr> = Inr it \<and>
    visit past m it fin = Inr (concat (drop (Suc i) bs))"
  using i
proof (induction "length bs - Suc i" arbitrary: i)
  case 0
  then have "length bs = Suc i" by simp
  then show ?case
    using m past fin first_of_bucket(2) [OF m, of past]
    by (auto simp: next_node.simps visit_end iter_eq_def bucket_end_def)
next
  case (Suc d)
  then have l: "Suc i < length bs" by simp
  have "d = length bs - Suc (Suc i)" using Suc.hyps(2) by simp
  with Suc.hyps(1) [of "Suc i"] l obtain it where it:
    "next_node past m \<lparr>it_bucket = Suc i, it_end = length bs, it_node = None\<rparr> = Inr it"
    "visit past m it fin = Inr (concat (drop (Suc (Suc i)) bs))"
    by auto
  have next_bucket: "next_node past m \<lparr>it_bucket = i, it_end = length bs, it_node = None\<rparr> =
      next_node past m \<lparr>it_bucket = Suc i, it_end = length bs, it_node = bucket_begin (bs ! Suc i)\<rparr>"
    using l first_of_bucket(1) [OF m l, of past]
    by (subst next_node.simps) (simp add: bucket_end_def)
  have drop: "drop (Suc i) bs = bs ! Suc i # drop (Suc (Suc i)) bs"
    using l by (simp add: Cons_nth_drop_Suc)
  show ?case
  proof (cases "bs ! Suc i")
    case Nil
    with it next_bucket drop show ?thesis by simp
  next
    case (Cons x b)
    with next_bucket have "next_node past m \<lparr>it_bucket = i, it_end = length bs, it_node = None\<rparr> =
        Inr \<lparr>it_bucket = Suc i, it_end = length bs, it_node = Some 1\<rparr>"
      by (simp add: next_node.simps bucket_end_def)
    moreover have "visit past m \<lparr>it_bucket = Suc i, it_end = length bs, it_node = Some (Suc 0)\<rparr> fin =
        Inr (drop 0 (bs ! Suc i) @ concat (drop (Suc (Suc i)) bs))"
      by (rule visit_bucket [OF m l _ it]) (simp_all add: fin Cons)
    ultimately show ?thesis
      using drop by simp
  qed
qed

text \<open>The loop from \<^verbatim>\<open>begin()\<close> to \<^verbatim>\<open>end()\<close> visits every element once, bucket by bucket.\<close>

lemma hm_elements_stored:
  assumes "placed_ok m"
  shows "hm_elements (Inr w) m = Inr (stored m)"
proof -
  obtain bs where bs: "hm_buckets m = Live bs" "hm_size m \<noteq> 0" "length bs = unat (hm_size m)"
    using assms by (rule placed_okE)
  then have l: "0 < length bs" by (simp add: unat_gt_0)
  define fin where "fin = \<lparr>it_bucket = length bs, it_end = length bs, it_node = w\<rparr>"
  obtain it where it: "next_node (Inr w) m \<lparr>it_bucket = 0, it_end = length bs, it_node = None\<rparr> = Inr it"
    "visit (Inr w) m it fin = Inr (concat (drop (Suc 0) bs))"
    using visit_from_bucket [OF bs(1) refl fin_def l] by metis
  have e: "hm_end (Inr w) m = Inr fin"
    using bs(3) by (simp add: hm_end_ok [OF assms] fin_def bend_def)
  obtain b cs where cs: "bs = b # cs" using l by (cases bs) auto
  have "\<exists>it. hm_begin (Inr w) m = Inr it \<and> visit (Inr w) m it fin = Inr (concat bs)"
  proof (cases b)
    case Nil
    with it cs first_of_bucket(1) [OF bs(1) l, of "Inr w"] bs(3) show ?thesis
      by (auto simp: hm_begin_def first_iter_def bend_def)
  next
    case (Cons x b')
    moreover have "visit (Inr w) m \<lparr>it_bucket = 0, it_end = length bs, it_node = Some (Suc 0)\<rparr> fin =
        Inr (drop 0 (bs ! 0) @ concat (drop (Suc 0) bs))"
      by (rule visit_bucket [OF bs(1) l _ it]) (simp_all add: fin_def Cons cs)
    ultimately show ?thesis
      using cs first_of_bucket(1) [OF bs(1) l, of "Inr w"] bs(3)
      by (auto simp: hm_begin_def first_iter_def bend_def next_node.simps bucket_end_def)
  qed
  with e bs(1) show ?thesis
    by (auto simp: hm_elements_def stored_def)
qed

section \<open>The way of an iterator\<close>

text \<open>
  \<open>walk m it xs\<close>: the iterator stands on the first of \<open>xs\<close>, and incrementing it leads over the others to the end. Only
  the last increment reads behind the table.
\<close>

definition at_end :: "('k, 'v, 'f) hash_map \<Rightarrow> pos \<Rightarrow> hm_iter" where
  "at_end m w = \<lparr>it_bucket = bend m, it_end = bend m, it_node = w\<rparr>"

inductive walk :: "('k, 'v, 'f) hash_map \<Rightarrow> hm_iter \<Rightarrow> ('k \<times> 'v) list \<Rightarrow> bool" for m where
  walk_last: "it_bucket it < bend m \<Longrightarrow> iter_data m it = Inr x
    \<Longrightarrow> (\<And>past. iter_next past m it = bnd past (\<lambda>w. Inr (at_end m w))) \<Longrightarrow> walk m it [x]"
| walk_more: "it_bucket it < bend m \<Longrightarrow> iter_data m it = Inr x \<Longrightarrow> (\<And>past. iter_next past m it = Inr it')
    \<Longrightarrow> walk m it' xs \<Longrightarrow> walk m it (x # xs)"

text \<open>What follows an iterator that has come to the end of a bucket.\<close>

definition walks_on :: "('k, 'v, 'f) hash_map \<Rightarrow> (fault + pos \<Rightarrow> fault + hm_iter) \<Rightarrow> ('k \<times> 'v) list \<Rightarrow> bool" where
  "walks_on m f xs \<longleftrightarrow> (if xs = [] then \<forall>past. f past = bnd past (\<lambda>w. Inr (at_end m w))
     else \<exists>it. (\<forall>past. f past = Inr it) \<and> walk m it xs)"

lemma walk_step:
  assumes "it_bucket it < bend m" "iter_data m it = Inr x" "walks_on m (\<lambda>past. iter_next past m it) xs"
  shows "walk m it (x # xs)"
  using assms by (auto simp: walks_on_def intro: walk_last walk_more split: if_splits)

lemma walk_bucket:
  assumes m: "hm_buckets m = Live bs" "length bs = bend m" and i: "i < length bs"
    and next_bucket: "walks_on m (\<lambda>past. next_node past m \<lparr>it_bucket = i, it_end = bend m, it_node = None\<rparr>) ys"
    and p: "p < length (bs ! i)"
  shows "walk m \<lparr>it_bucket = i, it_end = bend m, it_node = Some (Suc p)\<rparr> (drop p (bs ! i) @ ys)"
  using p
proof (induction "length (bs ! i) - Suc p" arbitrary: p)
  case 0
  then have len: "length (bs ! i) = Suc p" by simp
  then have nn: "node_next (bs ! i) (Some (Suc p)) = Inr None"
    using node_next_simps(3) [of "bs ! i"] by simp
  have "drop p (bs ! i) = [bs ! i ! p]"
    using len by (simp add: Cons_nth_drop_Suc [symmetric])
  then show ?case
    using m i next_bucket len nn by (auto intro!: walk_step simp: iter_data_def iter_next_def bucket_at_def)
next
  case (Suc d)
  then have p: "Suc p < length (bs ! i)" by simp
  let ?it = "\<lambda>p. \<lparr>it_bucket = i, it_end = bend m, it_node = Some (Suc p)\<rparr>"
  have "walk m (?it (Suc p)) (drop (Suc p) (bs ! i) @ ys)"
    using Suc.hyps(2) p by (intro Suc.hyps(1)) simp_all
  moreover have "iter_data m (?it p) = Inr (bs ! i ! p)"
    and "\<And>past. iter_next past m (?it p) = Inr (?it (Suc p))"
    using m i p by (simp_all add: iter_data_def iter_next_def bucket_at_def next_node.simps bucket_end_def)
  moreover have "drop p (bs ! i) @ ys = bs ! i ! p # drop (Suc p) (bs ! i) @ ys"
    using p by (simp flip: Cons_nth_drop_Suc)
  ultimately show ?case
    using walk_more [of "?it p" m "bs ! i ! p" "?it (Suc p)"] m i by simp
qed

lemma walks_from_bucket:
  assumes m: "hm_buckets m = Live bs" "length bs = bend m" and i: "i < length bs"
  shows "walks_on m (\<lambda>past. next_node past m \<lparr>it_bucket = i, it_end = bend m, it_node = None\<rparr>) (concat (drop (Suc i) bs))"
  using i
proof (induction "length bs - Suc i" arbitrary: i)
  case 0
  then have "length bs = Suc i" by simp
  then show ?case
    using m first_of_bucket(2) [OF m(1)]
    by (auto simp: walks_on_def next_node.simps at_end_def bucket_end_def bnd_def split: sum.splits)
next
  case (Suc d)
  then have l: "Suc i < length bs" by simp
  have "d = length bs - Suc (Suc i)" using Suc.hyps(2) by simp
  with Suc.hyps(1) [of "Suc i"] l
  have it: "walks_on m (\<lambda>past. next_node past m \<lparr>it_bucket = Suc i, it_end = bend m, it_node = None\<rparr>)
      (concat (drop (Suc (Suc i)) bs))"
    by simp
  have next_bucket: "next_node past m \<lparr>it_bucket = i, it_end = bend m, it_node = None\<rparr> =
      next_node past m \<lparr>it_bucket = Suc i, it_end = bend m, it_node = bucket_begin (bs ! Suc i)\<rparr>" for past
    using l m(2) first_of_bucket(1) [OF m(1) l, of past]
    by (subst next_node.simps) (simp add: bucket_end_def)
  have drop: "drop (Suc i) bs = bs ! Suc i # drop (Suc (Suc i)) bs"
    using l by (simp add: Cons_nth_drop_Suc)
  show ?case
  proof (cases "bs ! Suc i")
    case Nil
    with it next_bucket drop show ?thesis by simp
  next
    case (Cons x b)
    let ?it = "\<lparr>it_bucket = Suc i, it_end = bend m, it_node = Some (Suc 0)\<rparr>"
    have "next_node past m \<lparr>it_bucket = i, it_end = bend m, it_node = None\<rparr> = Inr ?it" for past
      using next_bucket [of past] Cons by (simp add: next_node.simps bucket_end_def)
    moreover have "walk m ?it (drop 0 (bs ! Suc i) @ concat (drop (Suc (Suc i)) bs))"
      by (rule walk_bucket [OF m l it]) (simp add: Cons)
    ultimately show ?thesis
      using drop Cons by (auto simp: walks_on_def)
  qed
qed

lemma hm_begin_walks:
  assumes "placed_ok m"
  shows "walks_on m (\<lambda>past. hm_begin past m) (stored m)"
proof -
  obtain bs where bs: "hm_buckets m = Live bs" "hm_size m \<noteq> 0" "length bs = unat (hm_size m)"
    using assms by (rule placed_okE)
  then have l: "0 < length bs" "length bs = bend m" by (simp_all add: unat_gt_0 bend_def)
  note rest = walks_from_bucket [OF bs(1) l(2) l(1)]
  obtain b cs where cs: "bs = b # cs" using l by (cases bs) auto
  have first: "hm_begin past m = next_node past m \<lparr>it_bucket = 0, it_end = bend m, it_node = bucket_begin b\<rparr>" for past
    using first_of_bucket(1) [OF bs(1) l(1), of past] cs by (simp add: hm_begin_def first_iter_def)
  have "stored m = concat bs" using bs(1) by (simp add: stored_def)
  then show ?thesis
  proof (cases b)
    case Nil
    then show ?thesis using rest first cs \<open>stored m = concat bs\<close> by simp
  next
    case (Cons x b')
    have "walk m \<lparr>it_bucket = 0, it_end = bend m, it_node = Some (Suc 0)\<rparr> (drop 0 (bs ! 0) @ concat (drop (Suc 0) bs))"
      by (rule walk_bucket [OF bs(1) l(2) l(1) rest]) (simp add: cs Cons)
    moreover have "hm_begin past m = Inr \<lparr>it_bucket = 0, it_end = bend m, it_node = Some (Suc 0)\<rparr>" for past
      using first [of past] Cons by (simp add: next_node.simps bucket_end_def)
    ultimately show ?thesis
      using cs Cons \<open>stored m = concat bs\<close> by (auto simp: walks_on_def)
  qed
qed

section \<open>Filling\<close>

text \<open>The elements of a list are put into the table.\<close>

fun fill_all ::
  "('k, 'v, 'f) hash_map \<Rightarrow> ('k \<times> 'v) list \<Rightarrow> size_t \<Rightarrow> fault + (('k, 'v, 'f) hash_map \<times> size_t)" where
  "fill_all m [] c = Inr (m, c)"
| "fill_all m (x # xs) c = bnd (get_bucket m (fst x)) (\<lambda>(i, b).
     fill_all (set_bucket m i (bucket_push_front b x)) xs (c + 1))"

text \<open>A map of empty buckets with the hash function, counter and load factor of \<open>m\<close>.\<close>

lemma fresh_placed:
  assumes "n \<noteq> 0" and "hm_buckets m = make_buckets n" and "hm_size m = n"
  shows "placed_ok m" and "stored m = []"
  using assms by (simp_all add: placed_ok_def make_buckets_def stored_def keys_distinct_def)

lemma push_front_ok:
  assumes m: "placed_ok m" and k: "map_view m k = None"
  obtains i b m' where "get_bucket m k = Inr (i, b)" and "m' = set_bucket m i (bucket_push_front b (k, v))"
    and "placed_ok m'" and "map_view m' = (map_view m)(k \<mapsto> v)"
    and "length (stored m') = Suc (length (stored m))"
proof -
  obtain bs where bs: "hm_buckets m = Live bs"
    using m by (rule placed_okE)
  let ?i = "key_index m k" and ?b = "bs ! key_index m k"
  have "map_of ?b k = None"
    using k map_view_bucket [OF m bs, of k] by simp
  moreover have "keys_distinct ?b"
    using placed_okD(3) [OF m bs] get_bucket_ok(2) [OF m bs] .
  ultimately have "keys_distinct ((k, v) # ?b)"
    by (simp add: keys_distinct_def map_of_eq_None_iff)
  with replace_bucket [OF m bs refl, of "(k, v) # ?b" k "Some v"] show thesis
    by (intro that [of ?i ?b]) (auto simp: get_bucket_ok(1) [OF m bs] bucket_push_front_def insert_front_def)
qed

lemma fill_all_ok:
  assumes "placed_ok m" and "keys_distinct xs" and "\<And>x. x \<in> set xs \<Longrightarrow> map_view m (fst x) = None"
  obtains m' where "fill_all m xs c = Inr (m', c + of_nat (length xs))" and "placed_ok m'"
    and "map_view m' = map_view m ++ map_of xs"
    and "length (stored m') = length (stored m) + length xs"
    and "hm_hash m' = hm_hash m" and "hm_size m' = hm_size m" and "hm_count m' = hm_count m"
    and "hm_max_load m' = hm_max_load m"
  using assms
proof (induction xs arbitrary: m c thesis)
  case Nil
  then show ?case by simp
next
  case (Cons x xs)
  obtain k v where x: "x = (k, v)" by force
  have "map_view m k = None" using Cons.prems(4) [of x] x by simp
  then obtain i b m1 where m1: "get_bucket m k = Inr (i, b)"
    "m1 = set_bucket m i (bucket_push_front b (k, v))" "placed_ok m1" "map_view m1 = (map_view m)(k \<mapsto> v)"
    "length (stored m1) = Suc (length (stored m))"
    by (rule push_front_ok [OF Cons.prems(2), of k v])
  have xs: "keys_distinct xs" "k \<notin> fst ` set xs"
    using Cons.prems(3) x by (auto simp: keys_distinct_def)
  have "map_view m1 (fst y) = None" if "y \<in> set xs" for y
    using Cons.prems(4) [of y] that xs(2) m1(4) by (auto simp: image_iff)
  from Cons.IH [OF _ m1(3) xs(1) this, of "c + 1"] obtain m' where m':
    "fill_all m1 xs (c + 1) = Inr (m', c + 1 + of_nat (length xs))" "placed_ok m'"
    "map_view m' = map_view m1 ++ map_of xs" "length (stored m') = length (stored m1) + length xs"
    "hm_hash m' = hm_hash m1" "hm_size m' = hm_size m1" "hm_count m' = hm_count m1"
    "hm_max_load m' = hm_max_load m1"
    by blast
  have "map_view m ++ map_of (x # xs) = (map_view m)(k \<mapsto> v) ++ map_of xs"
    using xs(2) x by (simp add: map_add_upd_left dom_map_of_conv_image_fst)
  with m' m1 x show ?case
    by (intro Cons.prems(1) [of m']) (simp_all add: algebra_simps del: map_of.simps)
qed

text \<open>Filling an empty table with what another map holds gives a table of the same map.\<close>

lemma refill:
  assumes m: "placed_ok m" and e: "hm_buckets e = make_buckets n" "hm_size e = n" "n \<noteq> 0"
  obtains m' where "fill_all e (stored m) 0 = Inr (m', of_nat (length (stored m)))"
    and "placed_ok m'" and "map_view m' = map_view m" and "length (stored m') = length (stored m)"
    and "hm_hash m' = hm_hash e" and "hm_size m' = n" and "hm_count m' = hm_count e"
    and "hm_max_load m' = hm_max_load e"
proof -
  note f = fresh_placed [OF e(3,1,2)]
  have "map_view e x = None" for x
    using f(2) by (simp add: map_view_def)
  then show thesis
    using fill_all_ok [OF f(1) placed_distinct [OF m], of 0] f(2) e that
    by (auto simp: map_view_def)
qed

text \<open>
  What the loops do is that, with the reads behind the table: \<open>fill_buckets\<close> comes to its end only if the read after the
  last node gives what it gave before the first one; otherwise it goes on from behind the table.
\<close>

lemma iter_data_end: "hm_buckets m = Live bs \<Longrightarrow> length bs = bend m \<Longrightarrow> iter_data m (at_end m w) = Inl Out_Of_Bounds"
  by (simp add: iter_data_def bucket_at_def at_end_def)

lemma fill_buckets_walk:
  assumes "walk m it xs" and m: "hm_buckets m = Live bs" "length bs = bend m"
  shows "fill_buckets past t m it (at_end m u) e c = bnd (fill_all e xs c) (\<lambda>r.
    bnd (past (t + length xs)) (\<lambda>w. if w = u then Inr r else Inl Out_Of_Bounds))"
  using assms(1)
proof (induction arbitrary: t e c)
  case (walk_last it x)
  have "fill_buckets past (Suc t) m (at_end m w) (at_end m u) e' (c + 1) =
      (if w = u then Inr (e', c + 1) else Inl Out_Of_Bounds)" for w e'
    using iter_data_end [OF m] by (subst fill_buckets.simps) (simp add: iter_eq_def at_end_def)
  with walk_last show ?case
    by (subst fill_buckets.simps)
      (auto simp: iter_eq_def at_end_def bnd_assoc split: prod.splits intro!: bnd_cong)
next
  case (walk_more it x it' xs)
  then show ?case
    by (subst fill_buckets.simps)
      (auto simp: iter_eq_def at_end_def bnd_assoc split: prod.splits intro!: bnd_cong)
qed

lemma hm_end_read: "placed_ok m \<Longrightarrow> hm_end past m = bnd past (\<lambda>w. Inr (at_end m w))"
  by (simp add: hm_end_ok at_end_def)

lemma placed_table:
  assumes "placed_ok m"
  obtains bs where "hm_buckets m = Live bs" "length bs = bend m"
  using assms by (rule placed_okE) (simp add: bend_def that)

lemma fill_from_eq:
  assumes "placed_ok m"
  shows "fill_from past m e = bnd (past 0) (\<lambda>u. bnd (fill_all e (stored m) 0) (\<lambda>r.
    bnd (past (length (stored m))) (\<lambda>w. if w = u then Inr r else Inl Out_Of_Bounds)))"
proof -
  obtain bs where bs: "hm_buckets m = Live bs" "length bs = bend m" by (rule placed_table [OF assms])
  show ?thesis
  proof (cases "stored m")
    case Nil
    then have "hm_begin (past 0) m = bnd (past 0) (\<lambda>w. Inr (at_end m w))"
      using hm_begin_walks [OF assms] by (simp add: walks_on_def)
    then show ?thesis
      using Nil by (cases "past 0") (simp_all add: fill_from_def hm_end_read [OF assms] fill_buckets.simps iter_eq_def at_end_def)
  next
    case (Cons x xs)
    then obtain it where "hm_begin (past 0) m = Inr it" "walk m it (stored m)"
      using hm_begin_walks [OF assms] by (auto simp: walks_on_def)
    then show ?thesis
      using fill_buckets_walk [OF _ bs, of it "stored m" past 0]
      by (simp add: fill_from_def hm_end_read [OF assms] bnd_assoc)
  qed
qed

lemma rehash_loop_walk:
  assumes "walk m it xs" and m: "placed_ok m"
  shows "rehash_loop (\<lambda>t. Inr (w t)) t m it e = bnd (fill_all e xs c) (\<lambda>(e', _). Inr e')"
  using assms(1)
proof (induction arbitrary: t e c)
  case (walk_last it x)
  have "rehash_loop (\<lambda>t. Inr (w t)) (Suc t) m (at_end m (w (Suc t))) e' = Inr e'" for e'
    by (subst rehash_loop.simps) (simp add: hm_end_read [OF m] iter_eq_def)
  with walk_last show ?case
    by (subst rehash_loop.simps)
      (auto simp: hm_end_read [OF m] iter_eq_def at_end_def bnd_assoc split: prod.splits intro!: bnd_cong)
next
  case (walk_more it x it' xs)
  show ?case
    using walk_more.hyps walk_more.IH [where c = "c + 1"]
    by (subst rehash_loop.simps)
      (auto simp: hm_end_read [OF m] iter_eq_def at_end_def bnd_assoc split: prod.splits intro!: bnd_cong)
qed

lemma hm_rehash_ok:
  assumes "map_ok m" and "n \<noteq> 0"
  obtains m' where "hm_rehash (\<lambda>t. Inr (w t)) m n = Inr m'" and "map_ok m'" and "map_view m' = map_view m"
    and "hm_size m' = n" and "hm_count m' = hm_count m"
proof -
  have p: "placed_ok m" using assms(1) by (simp add: map_ok_def)
  then obtain bs where bs: "hm_buckets m = Live bs" by (rule placed_okE)
  let ?e = "m\<lparr>hm_size := n, hm_buckets := make_buckets n\<rparr>"
  obtain m' where m': "fill_all ?e (stored m) 0 = Inr (m', of_nat (length (stored m)))" "placed_ok m'"
    "map_view m' = map_view m" "length (stored m') = length (stored m)" "hm_size m' = n" "hm_count m' = hm_count m"
    by (rule refill [OF p, of ?e n]) (use assms(2) in auto)
  have "hm_rehash (\<lambda>t. Inr (w t)) m n = Inr m'"
  proof (cases "stored m")
    case Nil
    then have "hm_begin (Inr (w 0)) m = Inr (at_end m (w 0))"
      using hm_begin_walks [OF p] by (simp add: walks_on_def)
    then show ?thesis
      using Nil m'(1) bs
      by (simp add: hm_rehash_def rehash_loop.simps hm_end_read [OF p] iter_eq_def free_buckets_def)
  next
    case (Cons x xs)
    then obtain it where "hm_begin (Inr (w 0)) m = Inr it" "walk m it (stored m)"
      using hm_begin_walks [OF p] by (auto simp: walks_on_def)
    then show ?thesis
      using rehash_loop_walk [OF _ p, of it "stored m" w 0 ?e 0] m'(1) bs
      by (simp add: hm_rehash_def free_buckets_def)
  qed
  with that m' assms(1) show thesis by (auto simp: map_ok_def)
qed

lemma rehash_fault:
  assumes "placed_ok m"
  shows "hm_rehash (\<lambda>t. Inl f) m n = Inl f"
  using hm_begin_walks [OF assms]
  by (auto simp: walks_on_def hm_rehash_def rehash_loop.simps hm_end_read [OF assms] split: if_splits)

lemma copy_map_eq:
  assumes "map_ok m"
  obtains m' where "\<forall>past. copy_map past one m = bnd (past 0) (\<lambda>u. bnd (past (length (stored m)))
      (\<lambda>w. if w = u then Inr m' else Inl Out_Of_Bounds))"
    and "map_ok m'" and "map_view m' = map_view m" and "hm_size m' = hm_size m" and "hm_max_load m' = one"
proof -
  have p: "placed_ok m" using assms(1) by (simp add: map_ok_def)
  then have "hm_size m \<noteq> 0" by (rule placed_okE)
  note nz = this
  obtain m' where m': "fill_all (new_map one (hm_hash m) (hm_size m)) (stored m) 0 =
      Inr (m', of_nat (length (stored m)))" "placed_ok m'" "map_view m' = map_view m"
    "length (stored m') = length (stored m)" "hm_size m' = hm_size m" "hm_max_load m' = one"
    by (rule refill [OF p, of "new_map one (hm_hash m) (hm_size m)" "hm_size m"])
      (use nz in \<open>auto simp: new_map_def\<close>)
  have "copy_map past one m = bnd (past 0) (\<lambda>u. bnd (past (length (stored m)))
      (\<lambda>w. if w = u then Inr (m'\<lparr>hm_count := of_nat (length (stored m))\<rparr>) else Inl Out_Of_Bounds))" for past
    using assms m'(1)
    by (auto simp: copy_map_def fill_from_eq [OF p] map_ok_def bnd_def split: sum.splits)
  then show thesis
    using m' assms by (intro that [of "m'\<lparr>hm_count := of_nat (length (stored m))\<rparr>"]) (auto simp: map_ok_def)
qed

lemma assign_map_eq:
  assumes "map_ok other" and "hm_buckets m \<noteq> Freed"
  obtains m' where "\<forall>past. assign_map past m other = bnd (past 0) (\<lambda>u. bnd (past (length (stored other)))
      (\<lambda>w. if w = u then Inr m' else Inl Out_Of_Bounds))"
    and "map_ok m'" and "map_view m' = map_view other" and "hm_max_load m' = hm_max_load m"
proof -
  have p: "placed_ok other" using assms(1) by (simp add: map_ok_def)
  then have nz: "hm_size other \<noteq> 0" by (rule placed_okE)
  let ?e = "m\<lparr>hm_hash := hm_hash other, hm_size := hm_size other,
    hm_buckets := make_buckets (hm_size other)\<rparr>"
  obtain m' where m': "fill_all ?e (stored other) 0 = Inr (m', of_nat (length (stored other)))"
    "placed_ok m'" "map_view m' = map_view other" "length (stored m') = length (stored other)"
    "hm_max_load m' = hm_max_load m"
    by (rule refill [OF p, of ?e "hm_size other"]) (use nz in auto)
  have "\<exists>z. free_buckets (hm_buckets m) = Inr z"
    using assms(2) by (cases "hm_buckets m") (simp_all add: free_buckets_def)
  then have "assign_map past m other = bnd (past 0) (\<lambda>u. bnd (past (length (stored other)))
      (\<lambda>w. if w = u then Inr (m'\<lparr>hm_count := of_nat (length (stored other))\<rparr>) else Inl Out_Of_Bounds))" for past
    using m'(1) by (auto simp: assign_map_def fill_from_eq [OF p] Let_def bnd_def split: sum.splits)
  then show thesis
    using m' by (intro that [of "m'\<lparr>hm_count := of_nat (length (stored other))\<rparr>"]) (auto simp: map_ok_def)
qed

text \<open>The checked filling keeps the first pair of a key but counts every pair.\<close>

lemma safe_fill_ok:
  assumes "placed_ok m"
  obtains m' where "safe_fill_buckets m xs c = Inr (m', c + of_nat (length xs))" and "placed_ok m'"
    and "map_view m' = map_of xs ++ map_view m" and "hm_size m' = hm_size m"
    and "length (stored m') = length (stored m) + card (fst ` set xs - dom (map_view m))"
  using assms
proof (induction xs arbitrary: m c thesis)
  case Nil
  then show ?case by simp
next
  case (Cons x xs)
  obtain k v where x: "x = (k, v)" by force
  obtain bs where bs: "hm_buckets m = Live bs"
    using Cons.prems(2) by (rule placed_okE)
  let ?b = "bs ! key_index m k"
  have v: "map_view m k = map_of ?b k"
    by (rule map_view_bucket [OF Cons.prems(2) bs])
  obtain m1 where m1: "safe_fill_buckets m (x # xs) c = safe_fill_buckets m1 xs (c + 1)" "placed_ok m1"
    "map_view m1 = (if map_view m k = None then (map_view m)(k \<mapsto> v) else map_view m)"
    "length (stored m1) = length (stored m) + (if map_view m k = None then 1 else 0)"
    "hm_size m1 = hm_size m"
  proof (cases "map_view m k")
    case None
    obtain i b m1 where "get_bucket m k = Inr (i, b)" "m1 = set_bucket m i (bucket_push_front b (k, v))"
      "placed_ok m1" "map_view m1 = (map_view m)(k \<mapsto> v)"
      "length (stored m1) = Suc (length (stored m))"
      by (rule push_front_ok [OF Cons.prems(2) None, of v])
    moreover from this(1) have "i = key_index m k \<and> b = ?b"
      by (auto simp: get_bucket_ok(1) [OF Cons.prems(2) bs])
    ultimately show thesis
      using None v x by (intro that [of m1]) (simp_all add: insert_unique_eq bucket_push_front_def insert_front_def)
  next
    case (Some w)
    have "set_bucket m (key_index m k) ?b = m"
      using bs by (simp add: set_bucket_def list_update_id)
    with Some v x show thesis
      by (intro that [of m]) (simp_all add: get_bucket_ok(1) [OF Cons.prems(2) bs] insert_unique_eq Cons.prems(2))
  qed
  from Cons.IH [OF _ m1(2), of "c + 1"] obtain m' where m':
    "safe_fill_buckets m1 xs (c + 1) = Inr (m', c + 1 + of_nat (length xs))" "placed_ok m'"
    "map_view m' = map_of xs ++ map_view m1" "hm_size m' = hm_size m1"
    "length (stored m') = length (stored m1) + card (fst ` set xs - dom (map_view m1))"
    by blast
  have "map_of xs ++ map_view m1 = map_of (x # xs) ++ map_view m"
    using m1(3) x by (auto simp: fun_eq_iff map_add_def split: option.splits)
  moreover have "length (stored m') = length (stored m) + card (fst ` set (x # xs) - dom (map_view m))"
  proof (cases "map_view m k")
    case None
    then have "fst ` set (x # xs) - dom (map_view m) = insert k (fst ` set xs - dom (map_view m1))"
      using m1(3) x by auto
    moreover have "k \<notin> fst ` set xs - dom (map_view m1)"
      using m1(3) None by simp
    ultimately show ?thesis
      using m'(5) m1(4) None by simp
  next
    case (Some w)
    then have "fst ` set (x # xs) - dom (map_view m) = fst ` set xs - dom (map_view m1)"
      using m1(3) x by auto
    with Some show ?thesis
      using m'(5) m1(4) by simp
  qed
  ultimately show ?case
    using m' m1 by (intro Cons.prems(1) [of m']) (simp_all add: algebra_simps del: map_of.simps)
qed

end
