(* ===== verification/Hash_Map_Properties.thy ===== *)
theory Hash_Map_Properties
  imports Hash_Map_Iteration
begin

text \<open>
  The properties of the hash map: it behaves as the finite map of its elements, what iteration,
  rehashing and copying do, and where the code leaves its invariant.
\<close>

section \<open>A client's calls\<close>

definition hash_calls where
  "hash_calls w = do_calls (find_value (Inr w))
     (\<lambda>m k v. bnd (hm_insert (Inr w) m (k, v)) (\<lambda>(m', it, new). Inr (m', new)))
     (\<lambda>m k v. bnd (hm_insert_or_assign (Inr w) m k v) (\<lambda>(m', it, new). Inr (m', new)))
     hm_erase"

lemma new_map_ok:
  fixes m :: "('k, 'v, 'f) hash_map"
  assumes "n \<noteq> 0" and "m = new_map one hash n"
  shows "map_ok m" and "map_view m = Map.empty" and "stored m = []"
  using fresh_placed [of n m] assms by (simp_all add: map_ok_def map_view_def new_map_def)

text \<open>The map of two buckets the witnesses run on: the pairs (1, 10), (2, 20) and (3, 30).\<close>

definition sample_map :: "(nat, nat, nat) hash_map" where
  "sample_map = \<lparr>hm_hash = of_nat, hm_size = 2,
     hm_buckets = Live [[(2, 20)], [(3, 30), (1, 10)]], hm_count = 3, hm_max_load = 1\<rparr>"

lemma sample_map_ok: "map_ok sample_map"
  by code_simp

text \<open>C1 (Hash map refines a finite map). From a new map of at least one bucket, every sequence of
  insertions, insert-or-assigns, erasures by key and lookups answers as the finite map does, and
  leaves a map in which every key is in the bucket of its hash once and the counter is the number
  of elements.\<close>

theorem hash_map_refines:
  assumes "n \<noteq> 0"
  shows "\<exists>m. hash_calls w (new_map one hash n) cs = Inr (m, snd (map_calls Map.empty cs)) \<and>
    map_ok m \<and> map_view m = fst (map_calls Map.empty cs)"
  using hm.calls_refine [OF new_map_ok(1) [OF assms refl] calls_allowed_always, of w one hash cs]
  by (simp add: hash_calls_def new_map_ok(2) [OF assms refl])

theorem hash_map_refines_witness:
  "\<exists>m. hash_calls (Some 5) (new_map (0 :: nat) (\<lambda>k :: nat. of_nat k * 7) 2)
      [Insert 1 (10 :: nat), Insert 3 30, Insert 1 11, Assign 3 31, Erase 1, Find 1, Find 3] =
    Inr (m, [Inserted True, Inserted True, Inserted False, Inserted False, Erased 1,
      Found None, Found (Some 31)]) \<and> map_ok m"
  using hash_map_refines [of 2 "Some 5" "0 :: nat" "\<lambda>k :: nat. of_nat k * 7"
      "[Insert 1 (10 :: nat), Insert 3 30, Insert 1 11, Assign 3 31, Erase 1, Find 1, Find 3]"]
  by auto

text \<open>C36 (Iteration visits every element once). Where the read behind the last bucket yields a
  pointer at all, the loop from begin to end visits the elements of the map, no key twice, and as
  many as the counter says.\<close>

theorem hash_map_iteration:
  assumes "map_ok m"
  shows "\<exists>xs. hm_elements (Inr w) m = Inr xs \<and> distinct (map fst xs) \<and> map_of xs = map_view m \<and>
    hm_count m = of_nat (length xs)"
  using hm_elements_stored [of m w] placed_distinct [of m] assms
  by (simp add: map_ok_def keys_distinct_def map_view_def)

theorem hash_map_iteration_witness:
  "\<exists>xs. hm_elements (Inr None) sample_map = Inr xs \<and> distinct (map fst xs) \<and>
    map_of xs = map_view sample_map \<and> length (stored sample_map) = 3"
  using hash_map_iteration [OF sample_map_ok, of None]
  by (auto simp: sample_map_def stored_def)

text \<open>C39 (Rehashing and copying keep the map). Suppose the read behind the last bucket yields some pointer, which may be
  another one after every node that is allocated. Then rehashing to a number of buckets other than 0 keeps the map,
  its counter and the invariant; copy construction meets its contract and gives a map of the same elements, as does
  copy assignment over a map that is alive or moved from (the maximal load factor is not copied), if the read after
  the last node yields what it yielded before the first; if it does not, the copies run on behind the table. If the
  read is the fault that it is in the language, all three end with it.\<close>

theorem rehash_and_copy:
  assumes "map_ok m" and "n \<noteq> 0" and "hm_buckets target \<noteq> Freed" and "l = length (stored m)"
  shows "(\<exists>r c a. hm_rehash (\<lambda>t. Inr (w t)) m n = Inr r \<and>
    copy_map (\<lambda>t. Inr (w t)) one m = (if w l = w 0 then Inr c else Inl Out_Of_Bounds) \<and>
    assign_map (\<lambda>t. Inr (w t)) target m = (if w l = w 0 then Inr a else Inl Out_Of_Bounds) \<and>
    map_ok r \<and> map_view r = map_view m \<and> hm_size r = n \<and> hm_count r = hm_count m \<and>
    map_ok c \<and> map_view c = map_view m \<and> hm_max_load c = one \<and>
    map_ok a \<and> map_view a = map_view m \<and> hm_max_load a = hm_max_load target) \<and>
   hm_rehash (\<lambda>t. Inl f) m n = Inl f \<and> copy_map (\<lambda>t. Inl f) one m = Inl f \<and> assign_map (\<lambda>t. Inl f) target m = Inl f"
proof -
  have p: "placed_ok m" using assms(1) by (simp add: map_ok_def)
  obtain r where r: "hm_rehash (\<lambda>t. Inr (w t)) m n = Inr r" "map_ok r" "map_view r = map_view m" "hm_size r = n"
    "hm_count r = hm_count m" by (rule hm_rehash_ok [OF assms(1,2)])
  obtain c where c: "\<forall>past. copy_map past one m = bnd (past 0) (\<lambda>u. bnd (past l)
      (\<lambda>w. if w = u then Inr c else Inl Out_Of_Bounds))" "map_ok c" "map_view c = map_view m" "hm_max_load c = one"
    unfolding assms(4) using copy_map_eq [OF assms(1), where one = one] by blast
  obtain a where a: "\<forall>past. assign_map past target m = bnd (past 0) (\<lambda>u. bnd (past l)
      (\<lambda>w. if w = u then Inr a else Inl Out_Of_Bounds))" "map_ok a" "map_view a = map_view m"
    "hm_max_load a = hm_max_load target"
    unfolding assms(4) using assign_map_eq [OF assms(1,3)] by blast
  show ?thesis using r c(2-) a(2-) by (simp add: c(1) a(1) rehash_fault [OF p]) blast
qed

theorem rehash_and_copy_witness:
  "\<exists>r c a. hm_rehash (\<lambda>t. Inr (if t = 3 then None else Some t)) sample_map 5 = Inr r \<and> map_ok r \<and> hm_count r = 3 \<and>
    copy_map (\<lambda>t. Inr None) 7 sample_map = Inr c \<and> map_ok c \<and>
    assign_map (\<lambda>t. Inr None) (new_map 9 of_nat 1) sample_map = Inr a \<and>
    map_view a = map_view sample_map \<and> hm_max_load a = 9 \<and>
    copy_map (\<lambda>t. Inr (if t = 3 then None else Some t)) 7 sample_map = Inl Out_Of_Bounds"
proof -
  have t: "hm_buckets (new_map 9 of_nat 1 :: (nat, nat, nat) hash_map) \<noteq> Freed"
    by (simp add: new_map_def make_buckets_def)
  have l: "3 = length (stored sample_map)" "hm_count sample_map = 3" by (simp_all add: stored_def sample_map_def)
  show ?thesis
    using rehash_and_copy [OF sample_map_ok _ t l(1), of 5 "\<lambda>t. if t = 3 then None else Some t" 7 Out_Of_Bounds]
      rehash_and_copy [OF sample_map_ok _ t l(1), of 5 "\<lambda>t. None" 7 Out_Of_Bounds] l(2)
    by (auto simp: new_map_def)
qed

text \<open>The range constructor counts every pair. Constructing a map from a range keeps the first
  pair of each key, but the counter is the length of the range, so the invariant holds only when
  the keys of the range are distinct (up to a multiple of 2 to the 64).\<close>

theorem range_counts_duplicates:
  assumes "n \<noteq> 0"
  shows "\<exists>m. range_map one hash n xs = Inr m \<and> placed_ok m \<and> map_view m = map_of xs \<and>
    length (stored m) = card (fst ` set xs) \<and> hm_count m = of_nat (length xs)"
proof -
  note new = new_map_ok [OF assms refl, of one hash]
  have p: "placed_ok (new_map one hash n)" using new(1) unfolding map_ok_def by (rule conjunct1)
  obtain m where "safe_fill_buckets (new_map one hash n) xs 0 = Inr (m, of_nat (length xs))"
    "placed_ok m" "map_view m = map_of xs" "length (stored m) = card (fst ` set xs)"
    using safe_fill_ok [OF p, of xs 0] by (auto simp: new(2,3))
  then show ?thesis by (simp add: range_map_def)
qed

theorem range_counts_duplicates_witness:
  "\<exists>m. range_map (0 :: nat) (of_nat :: nat \<Rightarrow> size_t) 3 [(1, 10), (1, 20 :: nat)] = Inr m \<and>
    length (stored m) = 1 \<and> hm_count m = 2 \<and> \<not> map_ok m"
  using range_counts_duplicates [of 3 "0 :: nat" "of_nat :: nat \<Rightarrow> size_t" "[(1, 10), (1, 20 :: nat)]"]
  by (auto simp: map_ok_def)

text \<open>Subscripting does not count. Subscripting with a key of the map gives its pair and changes
  nothing; with another key it adds the pair of that key and the default value, but not to the
  counter, which is then one too small.\<close>

theorem subscript_uncounted:
  assumes "map_ok m"
  shows "\<exists>m' v. hm_subscript dflt m k = Inr (m', (k, v)) \<and>
    (case map_view m k of
       Some u \<Rightarrow> v = u \<and> m' = m
     | None \<Rightarrow> v = dflt \<and> map_view m' = (map_view m)(k \<mapsto> dflt) \<and>
         hm_count m' = hm_count m \<and> placed_ok m' \<and> \<not> map_ok m')"
proof -
  have p: "placed_ok m" using assms by (simp add: map_ok_def)
  then obtain bs where bs: "hm_buckets m = Live bs" by (rule placed_okE)
  let ?b = "bs ! key_index m k"
  show ?thesis
  proof (cases "map_view m k")
    case None
    then have "bucket_find ?b k = None"
      using map_view_bucket [OF p bs, of k] by (simp add: bucket_find_None)
    moreover obtain i b m' where m': "get_bucket m k = Inr (i, b)"
      "m' = set_bucket m i (bucket_push_front b (k, dflt))" "placed_ok m'"
      "map_view m' = (map_view m)(k \<mapsto> dflt)" "length (stored m') = Suc (length (stored m))"
      by (rule push_front_ok [OF p None])
    moreover from m' have "\<not> map_ok m'"
      using assms by (auto simp: map_ok_def)
    ultimately show ?thesis
      using None get_bucket_ok(1) [OF p bs, of k]
      by (auto simp: hm_subscript_def Let_def bucket_end_def bucket_push_front_def insert_front_def)
  next
    case (Some u)
    then obtain q where q: "bucket_find ?b k = Some q"
      using map_view_bucket [OF p bs, of k] bucket_find_None [of ?b k] by fastforce
    then obtain i where "q = Suc i" "i < length ?b" "fst (?b ! i) = k" "map_of ?b k = Some (snd (?b ! i))"
      by (rule bucket_find_Some)
    with q Some show ?thesis
      using map_view_bucket [OF p bs, of k] get_bucket_ok(1) [OF p bs, of k] prod.collapse [of "?b ! i"]
      by (simp add: hm_subscript_def Let_def bucket_end_def)
  qed
qed

theorem subscript_uncounted_witness:
  "\<exists>m'. hm_subscript 0 sample_map 4 = Inr (m', (4, 0)) \<and> hm_count m' = 3 \<and> \<not> map_ok m'"
  using subscript_uncounted [OF sample_map_ok, of 0 4]
  by (auto simp: map_view_def stored_def sample_map_def)

text \<open>The end iterator reads out of bounds. When the read behind the last bucket is the fault it
  is in the language, end is that fault, as are looking up a key that is not in the map, rehashing and
  copying.\<close>

theorem end_out_of_bounds:
  assumes "map_ok m" and "map_view m k = None"
  shows "hm_end (Inl e) m = Inl e \<and> hm_find (Inl e) m k = Inl e \<and>
    hm_rehash (\<lambda>t. Inl e) m n = Inl e \<and> copy_map (\<lambda>t. Inl e) one m = Inl e"
proof -
  have p: "placed_ok m" using assms(1) by (simp add: map_ok_def)
  then obtain bs where bs: "hm_buckets m = Live bs" by (rule placed_okE)
  have "bucket_find (bs ! key_index m k) k = None"
    using assms(2) map_view_bucket [OF p bs, of k] by (simp add: bucket_find_None)
  then show ?thesis
    using get_bucket_ok(1) [OF p bs, of k]
    by (auto simp: hm_end_ok [OF p] hm_find_def Let_def bucket_end_def rehash_fault [OF p] copy_map_def
        fill_from_eq [OF p])
qed

theorem end_out_of_bounds_witness:
  "hm_find (Inl Out_Of_Bounds) sample_map 4 = Inl Out_Of_Bounds \<and>
    hm_rehash (\<lambda>t. Inl Out_Of_Bounds) sample_map 9 = Inl Out_Of_Bounds"
  using end_out_of_bounds [OF sample_map_ok, of 4 Out_Of_Bounds 9]
  by (simp add: map_view_def stored_def sample_map_def)

text \<open>Erasing from a bucket skips a node. Of a run of nodes of one key, erasing that key removes
  every other node and says so; with distinct keys it removes the one node of the key.\<close>

theorem bucket_erase_skips:
  "bucket_erase (replicate n (k, v)) k = (replicate (n div 2) (k, v), of_nat (n - n div 2)) \<and>
   (keys_distinct b \<longrightarrow> bucket_erase b k =
      (filter (\<lambda>x. fst x \<noteq> k) b, if map_of b k = None then 0 else 1))"
  by (simp add: bucket_erase_run bucket_erase_distinct)

theorem bucket_erase_skips_witness:
  "bucket_erase (replicate 3 (7, 1)) (7 :: nat) = ([(7, 1 :: nat)], 2) \<and>
   bucket_erase [(8, 1), (7, 2), (9, 3 :: nat)] (7 :: nat) = ([(8, 1), (9, 3)], 1)"
  using bucket_erase_skips [of 3 "7 :: nat" "1 :: nat" "[]"]
    bucket_erase_skips [of 3 "7 :: nat" "1 :: nat" "[(8, 1), (7, 2), (9, 3)]"]
  by (simp add: keys_distinct_def)

text \<open>What clear and a move leave behind. After clear the counter is unchanged and the array is
  gone: any insertion and the destructor's second release are faults. A move hands the map over;
  what is left is empty, and inserting into it dereferences null.\<close>

theorem cleared_or_moved:
  assumes "map_ok m"
  shows "\<exists>c l r. hm_clear m = Inr c \<and> hm_count c = hm_count m \<and>
      hm_insert past c x = Inl Dangling \<and> hm_clear c = Inl Dangling \<and>
    move_map one m = (l, r) \<and> map_ok l \<and> map_view l = map_view m \<and>
      hm_empty r \<and> hm_insert past r x = Inl Null_Deref \<and> hm_clear r = Inr r"
proof -
  obtain bs where bs: "hm_buckets m = Live bs" "hm_size m \<noteq> 0"
    using assms by (auto simp: map_ok_def elim: placed_okE)
  have "map_ok (fst (move_map one m))" "map_view (fst (move_map one m)) = map_view m"
    using assms bs by (simp_all add: move_map_def map_ok_def placed_ok_def stored_def map_view_def key_index_def)
  with bs show ?thesis
    by (simp add: hm_clear_def free_buckets_def move_map_def hm_insert_def get_bucket_def
        bucket_index_def bucket_at_def hm_empty_def)
qed

theorem cleared_or_moved_witness:
  "\<exists>c l r. hm_clear sample_map = Inr c \<and> hm_count c = 3 \<and>
      hm_insert (Inr None) c (8, 80) = Inl Dangling \<and>
    move_map 1 sample_map = (l, r) \<and> map_view l = map_view sample_map \<and>
      hm_insert (Inr None) r (8, 80) = Inl Null_Deref"
  using cleared_or_moved [OF sample_map_ok, of "Inr None" "(8, 80)" 1]
  by (auto simp: sample_map_def)

end
