(* ===== verification/Binary_Tree.thy ===== *)
theory Binary_Tree
  imports Map_Interface
begin

text \<open>
  \<^verbatim>\<open>BinaryTree\<close> (\<^verbatim>\<open>src/DataStructures/BinaryTree/include/binary_tree/binary_tree.hpp\<close>): an unbalanced
  search tree of key/value nodes, and its iterators, which keep a stack of nodes.

  Every node has one owner, the link that points to it, so a node pointer is the subtree hanging
  from it and \<^const>\<open>None\<close>-like \<open>Tip\<close> is the null pointer. Where the code writes through a link
  (\<^verbatim>\<open>Node**\<close>), the link is the path that leads to it from the root.
\<close>

section \<open>Nodes and trees\<close>

datatype ('k, 'v) bt =
    Tip
  | BT (bt_left: "('k, 'v) bt") (bt_data: "'k \<times> 'v") (bt_right: "('k, 'v) bt")
where
  "bt_left Tip = Tip"
| "bt_right Tip = Tip"

text \<open>The root pointer of a tree object; \<^verbatim>\<open>free\<close> deletes the nodes and leaves it as it is.\<close>

datatype ('k, 'v) root =
    Owned "('k, 'v) bt"
  | Stale

definition deref_root :: "('k, 'v) root \<Rightarrow> fault + ('k, 'v) bt" where
  "deref_root t = (case t of Owned r \<Rightarrow> Inr r | Stale \<Rightarrow> Inl Dangling)"

text \<open>The comparison of \<^verbatim>\<open>std::pair\<close>: by key, then by value.\<close>

definition pair_less :: "'k :: linorder \<times> 'v :: linorder \<Rightarrow> 'k \<times> 'v \<Rightarrow> bool" where
  "pair_less x y \<longleftrightarrow> fst x < fst y \<or> \<not> fst y < fst x \<and> snd x < snd y"

datatype dir = L | R

type_synonym link = "dir list"

fun subtree_at :: "('k, 'v) bt \<Rightarrow> link \<Rightarrow> ('k, 'v) bt" where
  "subtree_at t [] = t"
| "subtree_at t (L # p) = subtree_at (bt_left t) p"
| "subtree_at t (R # p) = subtree_at (bt_right t) p"

fun set_link :: "('k, 'v) bt \<Rightarrow> link \<Rightarrow> ('k, 'v) bt \<Rightarrow> ('k, 'v) bt" where
  "set_link t [] n = n"
| "set_link Tip (a # p) n = Tip"
| "set_link (BT l d r) (L # p) n = BT (set_link l p n) d r"
| "set_link (BT l d r) (R # p) n = BT l d (set_link r p n)"

section \<open>Search and insertion\<close>

text \<open>\<open>find_link\<close> is the loop of \<^verbatim>\<open>find_node_with_link\<close>: the link to the node and the node.\<close>

fun find_link :: "('k :: linorder, 'v) bt \<Rightarrow> link \<Rightarrow> 'k \<Rightarrow> link \<times> ('k, 'v) bt" where
  "find_link Tip link k = (link, Tip)"
| "find_link (BT l d r) link k =
     (if fst d < k then find_link r (link @ [R]) k
      else if k < fst d then find_link l (link @ [L]) k
      else (link, BT l d r))"

fun insert_at :: "('k :: linorder, 'v :: linorder) bt \<Rightarrow> 'k \<times> 'v \<Rightarrow> fault + (('k, 'v) bt \<times> bool)" where
  "insert_at Tip n = Inl Contract"
| "insert_at (BT l d r) n =
     (if pair_less n d then
        if l = Tip then Inr (BT (BT Tip n Tip) d r, True)
        else bnd (insert_at l n) (\<lambda>(l', b). Inr (BT l' d r, b))
      else if pair_less d n then
        if r = Tip then Inr (BT l d (BT Tip n Tip), True)
        else bnd (insert_at r n) (\<lambda>(r', b). Inr (BT l d r', b))
      else Inr (BT l d r, False))"

fun make_tree_loop ::
  "('k :: linorder, 'v :: linorder) bt \<Rightarrow> ('k \<times> 'v) list \<Rightarrow> fault + ('k, 'v) bt" where
  "make_tree_loop root [] = Inr root"
| "make_tree_loop root (x # xs) = bnd (insert_at root x) (\<lambda>(root', b). make_tree_loop root' xs)"

definition make_tree :: "('k :: linorder \<times> 'v :: linorder) list \<Rightarrow> fault + ('k, 'v) bt" where
  "make_tree xs = (case xs of [] \<Rightarrow> Inl Contract
     | x # ys \<Rightarrow> make_tree_loop (BT Tip x Tip) ys)"

text \<open>
  The overload of \<^verbatim>\<open>find_node_with_link\<close> used here takes the root pointer by value: when that
  pointer is null, the link is the address of the parameter, which is gone after the return. The
  pointer passed is the root, or the node of a hint (\<open>at\<close> is the link to it; a null hint is
  \<^const>\<open>None\<close>).
\<close>

definition start_of :: "('k, 'v) bt \<Rightarrow> link option \<Rightarrow> ('k, 'v) bt" where
  "start_of root at = (case at of None \<Rightarrow> Tip | Some p \<Rightarrow> subtree_at root p)"

definition assign_impl ::
  "('k :: linorder, 'v) bt \<Rightarrow> link option \<Rightarrow> 'k \<Rightarrow> 'v \<Rightarrow> fault + (('k, 'v) bt \<times> 'k \<times> bool)" where
  "assign_impl root at k v = (case find_link (start_of root at) [] k of (p, node) \<Rightarrow>
     case node of
       BT l d r \<Rightarrow> Inr (set_link root (the at @ p) (BT l (fst d, v) r), fst d, False)
     | Tip \<Rightarrow> if p = [] then Inl Dangling
         else Inr (set_link root (the at @ p) (BT Tip (k, v) Tip), k, True))"

definition emplace_impl ::
  "('k :: linorder, 'v) bt \<Rightarrow> link option \<Rightarrow> 'k \<Rightarrow> 'v \<Rightarrow> fault + (('k, 'v) bt \<times> 'k \<times> bool)" where
  "emplace_impl root at k v = (case find_link (start_of root at) [] k of (p, node) \<Rightarrow>
     case node of
       Tip \<Rightarrow> if p = [] then Inl Dangling
         else Inr (set_link root (the at @ p) (BT Tip (k, v) Tip), k, True)
     | BT l d r \<Rightarrow> Inr (root, fst d, False))"

section \<open>Iterators\<close>

record ('k, 'v) tree_iter =
  ti_stack :: "('k, 'v) bt list"
  ti_current :: "('k, 'v) bt"

definition end_iterator :: "('k, 'v) tree_iter" where
  "end_iterator = \<lparr>ti_stack = [], ti_current = Tip\<rparr>"

definition iterator_data :: "('k, 'v) tree_iter \<Rightarrow> fault + ('k \<times> 'v)" where
  "iterator_data it = (case ti_current it of Tip \<Rightarrow> Inl Null_Deref | BT l d r \<Rightarrow> Inr d)"

definition pop_stack :: "('k, 'v) tree_iter \<Rightarrow> ('k, 'v) tree_iter" where
  "pop_stack it = (case ti_stack it of [] \<Rightarrow> it
     | t # ts \<Rightarrow> \<lparr>ti_stack = ts, ti_current = t\<rparr>)"

definition preorder_next :: "('k, 'v) tree_iter \<Rightarrow> fault + ('k, 'v) tree_iter" where
  "preorder_next it = (case ti_current it of Tip \<Rightarrow> Inl Null_Deref
     | BT l d r \<Rightarrow>
         let it1 = (if r \<noteq> Tip then it\<lparr>ti_stack := r # ti_stack it\<rparr> else it);
             it2 = it1\<lparr>ti_current := l\<rparr> in
         Inr (if l = Tip then pop_stack it2 else it2))"

text \<open>\<open>traverse_minimum\<close> and \<open>traverse_maximum\<close>: the loops dereference the current node.\<close>

fun min_from :: "('k, 'v) bt list \<Rightarrow> ('k, 'v) bt \<Rightarrow> fault + ('k, 'v) tree_iter" where
  "min_from stack Tip = Inl Null_Deref"
| "min_from stack (BT l d r) = (if l \<noteq> Tip then min_from (BT l d r # stack) l
     else Inr \<lparr>ti_stack = stack, ti_current = BT l d r\<rparr>)"

definition traverse_minimum :: "('k, 'v) tree_iter \<Rightarrow> fault + ('k, 'v) tree_iter" where
  "traverse_minimum it = min_from (ti_stack it) (ti_current it)"

fun max_from :: "('k, 'v) bt list \<Rightarrow> ('k, 'v) bt \<Rightarrow> fault + ('k, 'v) tree_iter" where
  "max_from stack Tip = Inl Null_Deref"
| "max_from stack (BT l d r) = (if r \<noteq> Tip then max_from (BT l d r # stack) r
     else Inr \<lparr>ti_stack = stack, ti_current = BT l d r\<rparr>)"

definition traverse_maximum :: "('k, 'v) tree_iter \<Rightarrow> fault + ('k, 'v) tree_iter" where
  "traverse_maximum it = max_from (ti_stack it) (ti_current it)"

definition inorder_begin :: "('k, 'v) bt \<Rightarrow> fault + ('k, 'v) tree_iter" where
  "inorder_begin n = (let it = \<lparr>ti_stack = [], ti_current = n\<rparr> in
     if n = Tip then Inr it else traverse_minimum it)"

definition inorder_next :: "('k, 'v) tree_iter \<Rightarrow> fault + ('k, 'v) tree_iter" where
  "inorder_next it = (case ti_current it of Tip \<Rightarrow> Inl Null_Deref
     | BT l d r \<Rightarrow> let it1 = it\<lparr>ti_current := r\<rparr> in
         if r \<noteq> Tip then traverse_minimum it1 else Inr (pop_stack it1))"

definition reverse_begin :: "('k, 'v) bt \<Rightarrow> fault + ('k, 'v) tree_iter" where
  "reverse_begin n = (let it = \<lparr>ti_stack = [], ti_current = n\<rparr> in
     if n = Tip then Inr it else traverse_maximum it)"

definition reverse_next :: "('k, 'v) tree_iter \<Rightarrow> fault + ('k, 'v) tree_iter" where
  "reverse_next it = (case ti_current it of Tip \<Rightarrow> Inl Null_Deref
     | BT l d r \<Rightarrow> let it1 = it\<lparr>ti_current := l\<rparr> in
         if l \<noteq> Tip then traverse_maximum it1 else Inr (pop_stack it1))"

text \<open>
  The loops over an iterator: the search of the constructors with a key, and the values a loop to
  \<^verbatim>\<open>end()\<close> visits. They are written once for every increment \<open>nxt\<close>; a loop that never ends is
  \<^const>\<open>None\<close>, and \<open>returns\<close> makes it the fault \<^const>\<open>Diverges\<close>.
\<close>

partial_function (option) iter_search ::
  "(('k, 'v) tree_iter \<Rightarrow> fault + ('k, 'v) tree_iter) \<Rightarrow> 'k \<Rightarrow> ('k, 'v) tree_iter \<Rightarrow>
   (fault + ('k, 'v) tree_iter) option" where
  "iter_search nxt k it = (case ti_current it of Tip \<Rightarrow> Some (Inr it)
     | BT l d r \<Rightarrow> if fst d = k then Some (Inr it)
         else (case nxt it of Inl e \<Rightarrow> Some (Inl e) | Inr it' \<Rightarrow> iter_search nxt k it'))"

partial_function (option) iter_values ::
  "(('k, 'v) tree_iter \<Rightarrow> fault + ('k, 'v) tree_iter) \<Rightarrow> ('k, 'v) tree_iter \<Rightarrow> ('k \<times> 'v) list \<Rightarrow>
   (fault + ('k \<times> 'v) list) option" where
  "iter_values nxt it acc = (case ti_current it of Tip \<Rightarrow> Some (Inr acc)
     | BT l d r \<Rightarrow> (case nxt it of Inl e \<Rightarrow> Some (Inl e) | Inr it' \<Rightarrow> iter_values nxt it' (acc @ [d])))"

definition returns :: "(fault + 'a) option \<Rightarrow> fault + 'a" where
  "returns m = (case m of None \<Rightarrow> Inl Diverges | Some r \<Rightarrow> r)"

definition preorder_at :: "('k, 'v) bt \<Rightarrow> 'k \<Rightarrow> fault + ('k, 'v) tree_iter" where
  "preorder_at n k = returns (iter_search preorder_next k \<lparr>ti_stack = [], ti_current = n\<rparr>)"

definition inorder_at :: "('k, 'v) bt \<Rightarrow> 'k \<Rightarrow> fault + ('k, 'v) tree_iter" where
  "inorder_at n k = bnd (inorder_begin n) (\<lambda>it. returns (iter_search inorder_next k it))"

definition reverse_at :: "('k, 'v) bt \<Rightarrow> 'k \<Rightarrow> fault + ('k, 'v) tree_iter" where
  "reverse_at n k = bnd (reverse_begin n) (\<lambda>it0. bnd (traverse_maximum it0) (\<lambda>it.
     returns (iter_search reverse_next k it)))"

definition inorder_values :: "('k, 'v) bt \<Rightarrow> fault + ('k \<times> 'v) list" where
  "inorder_values n = bnd (inorder_begin n) (\<lambda>it. returns (iter_values inorder_next it []))"

definition reverse_values :: "('k, 'v) bt \<Rightarrow> fault + ('k \<times> 'v) list" where
  "reverse_values n = bnd (reverse_begin n) (\<lambda>it. returns (iter_values reverse_next it []))"

definition preorder_values :: "('k, 'v) bt \<Rightarrow> fault + ('k \<times> 'v) list" where
  "preorder_values n = returns (iter_values preorder_next \<lparr>ti_stack = [], ti_current = n\<rparr> [])"

section \<open>Erasure\<close>

text \<open>
  \<open>unlink_min\<close> is the loop of \<^verbatim>\<open>erase_branch\<close> that finds the smallest node on the right and
  takes it out of its place; it runs on the links and the data of the node it has reached.
\<close>

fun unlink_min :: "('k, 'v) bt \<Rightarrow> 'k \<times> 'v \<Rightarrow> ('k, 'v) bt \<Rightarrow> ('k \<times> 'v) \<times> ('k, 'v) bt" where
  "unlink_min Tip d r = (d, r)"
| "unlink_min (BT l' d' r') d r = (case unlink_min l' d' r' of (m, l) \<Rightarrow> (m, BT l d r))"

definition erase_leaf :: "('k, 'v) bt \<Rightarrow> link \<Rightarrow> fault + (('k, 'v) bt \<times> ('k, 'v) tree_iter)" where
  "erase_leaf root link = Inr (set_link root link Tip, end_iterator)"

definition erase_semibranch ::
  "('k, 'v) bt \<Rightarrow> link \<Rightarrow> ('k, 'v) bt \<Rightarrow> fault + (('k, 'v) bt \<times> ('k, 'v) tree_iter)" where
  "erase_semibranch root link node =
     (let new_child = (if bt_left node \<noteq> Tip then bt_left node else bt_right node);
          root' = set_link root link new_child in
      case new_child of
        Tip \<Rightarrow> Inl Null_Deref
      | BT l d r \<Rightarrow> bnd (inorder_at root' (fst d)) (\<lambda>it. Inr (root', it)))"

definition erase_branch ::
  "('k, 'v) bt \<Rightarrow> link \<Rightarrow> ('k, 'v) bt \<Rightarrow> fault + (('k, 'v) bt \<times> ('k, 'v) tree_iter)" where
  "erase_branch root link node = (case bt_right node of
       Tip \<Rightarrow> Inl Null_Deref
     | BT l d r \<Rightarrow> (case unlink_min l d r of (successor, right) \<Rightarrow>
         let root' = set_link root link (BT (bt_left node) successor right) in
         bnd (inorder_at root' (fst successor)) (\<lambda>it. Inr (root', it))))"

text \<open>\<open>erase_at_key\<close> is what \<^verbatim>\<open>erase(const_iterator)\<close> and \<^verbatim>\<open>erase(key_type const&)\<close> have in common.\<close>

definition erase_at_key ::
  "('k :: linorder, 'v) bt \<Rightarrow> 'k \<Rightarrow> fault + (('k, 'v) bt \<times> ('k, 'v) tree_iter \<times> size_t)" where
  "erase_at_key root k = (case find_link root [] k of (link, node) \<Rightarrow>
     if node \<noteq> Tip then
       if bt_left node \<noteq> Tip \<and> bt_right node \<noteq> Tip then
         bnd (erase_branch root link node) (\<lambda>(t, it). Inr (t, it, 1))
       else if bt_left node \<noteq> Tip \<or> bt_right node \<noteq> Tip then
         bnd (erase_semibranch root link node) (\<lambda>(t, it). Inr (t, it, 1))
       else bnd (erase_leaf root link) (\<lambda>(t, it). Inr (t, it, 1))
     else Inr (root, end_iterator, 0))"

section \<open>Traversals\<close>

text \<open>\<open>f\<close> is the function object called at every node; what it accumulates is the state.\<close>

fun traverse_preorder_recursive :: "('k \<times> 'v \<Rightarrow> 's \<Rightarrow> 's) \<Rightarrow> ('k, 'v) bt \<Rightarrow> 's \<Rightarrow> 's" where
  "traverse_preorder_recursive f Tip s = s"
| "traverse_preorder_recursive f (BT l d r) s =
     traverse_preorder_recursive f r (traverse_preorder_recursive f l (f d s))"

definition traverse_inorder_recursive :: "('k \<times> 'v \<Rightarrow> 's \<Rightarrow> 's) \<Rightarrow> ('k, 'v) bt \<Rightarrow> 's \<Rightarrow> 's" where
  "traverse_inorder_recursive f t s = (case t of Tip \<Rightarrow> s
     | BT l d r \<Rightarrow> traverse_preorder_recursive f r (f d (traverse_preorder_recursive f l s)))"

definition traverse_postorder_recursive :: "('k \<times> 'v \<Rightarrow> 's \<Rightarrow> 's) \<Rightarrow> ('k, 'v) bt \<Rightarrow> 's \<Rightarrow> 's" where
  "traverse_postorder_recursive f t s = (case t of Tip \<Rightarrow> s
     | BT l d r \<Rightarrow> f d (traverse_preorder_recursive f l (traverse_preorder_recursive f r s)))"

text \<open>The traversals with an explicit stack; the measure counts the nodes still to be seen.\<close>

fun nodes :: "('k, 'v) bt \<Rightarrow> nat" where
  "nodes Tip = 0"
| "nodes (BT l d r) = Suc (nodes l + nodes r)"

function preorder_loop ::
  "('k \<times> 'v \<Rightarrow> 's \<Rightarrow> 's) \<Rightarrow> ('k, 'v) bt \<Rightarrow> ('k, 'v) bt list \<Rightarrow> 's \<Rightarrow> 's" where
  "preorder_loop f Tip stack s = s"
| "preorder_loop f (BT l d r) stack s =
     (let s' = f d s; stack' = (if r \<noteq> Tip then r # stack else stack) in
      if l = Tip \<and> stack' \<noteq> [] then preorder_loop f (hd stack') (tl stack') s'
      else preorder_loop f l stack' s')"
  by pat_completeness auto
termination
  by (relation "measure (\<lambda>(f, t, stack, s). nodes t + sum_list (map nodes stack))")
    (auto simp: neq_Nil_conv split: if_splits)

definition traverse_preorder :: "('k \<times> 'v \<Rightarrow> 's \<Rightarrow> 's) \<Rightarrow> ('k, 'v) bt \<Rightarrow> 's \<Rightarrow> 's" where
  "traverse_preorder f root s = preorder_loop f root [] s"

text \<open>Only nodes are on the stack of the inorder traversal.\<close>

fun inorder_unwind ::
  "('k \<times> 'v \<Rightarrow> 's \<Rightarrow> 's) \<Rightarrow> ('k, 'v) bt \<Rightarrow> ('k, 'v) bt list \<Rightarrow> 's \<Rightarrow>
   ('k, 'v) bt \<times> ('k, 'v) bt list \<times> 's" where
  "inorder_unwind f node [] s = (node, [], s)"
| "inorder_unwind f node (tp # stack) s =
     (if node = Tip then inorder_unwind f (bt_right tp) stack (f (bt_data tp) s)
      else (node, tp # stack, s))"

definition stack_weight :: "('k, 'v) bt list \<Rightarrow> nat" where
  "stack_weight stack = sum_list (map (\<lambda>t. Suc (2 * nodes (bt_right t))) stack)"

lemma inorder_unwind_weight:
  "inorder_unwind f node stack s = (node', stack', s') \<Longrightarrow>
   2 * nodes node' + stack_weight stack' \<le> 2 * nodes node + stack_weight stack"
  by (induction f node stack s rule: inorder_unwind.induct)
    (auto simp: stack_weight_def split: if_splits)

function inorder_loop ::
  "('k \<times> 'v \<Rightarrow> 's \<Rightarrow> 's) \<Rightarrow> ('k, 'v) bt \<Rightarrow> ('k, 'v) bt list \<Rightarrow> 's \<Rightarrow> 's" where
  "inorder_loop f Tip stack s = s"
| "inorder_loop f (BT l d r) stack s =
     (case inorder_unwind f l (BT l d r # stack) s of (node, stack', s') \<Rightarrow>
        inorder_loop f node stack' s')"
  by pat_completeness auto
termination
proof (relation "measure (\<lambda>(f, t, stack, s). 2 * nodes t + stack_weight stack)", goal_cases)
  case (2 f l d r stack s)
  have w: "stack_weight (BT l d r # stack) = Suc (2 * nodes r) + stack_weight stack"
    by (simp add: stack_weight_def)
  show ?case
    using inorder_unwind_weight [of f l "BT l d r # stack" s, OF sym] 2
    unfolding w by (auto simp del: inorder_unwind.simps split: prod.splits)
qed simp

definition traverse_inorder :: "('k \<times> 'v \<Rightarrow> 's \<Rightarrow> 's) \<Rightarrow> ('k, 'v) bt \<Rightarrow> 's \<Rightarrow> 's" where
  "traverse_inorder f root s = inorder_loop f root [] s"

text \<open>
  In \<open>traverse_postorder\<close> the inner loop runs while the stack is empty (and would then read its
  top).
\<close>

fun postorder_loop ::
  "('k \<times> 'v \<Rightarrow> 's \<Rightarrow> 's) \<Rightarrow> ('k, 'v) bt \<Rightarrow> ('k, 'v) bt list \<Rightarrow> 's \<Rightarrow> fault + 's" where
  "postorder_loop f Tip stack s = Inr s"
| "postorder_loop f (BT l d r) stack s = (let stack' = BT l d r # stack in
     if r = Tip \<and> stack' = [] then Inl Null_Deref else postorder_loop f r stack' s)"

definition traverse_postorder :: "('k \<times> 'v \<Rightarrow> 's \<Rightarrow> 's) \<Rightarrow> ('k, 'v) bt \<Rightarrow> 's \<Rightarrow> fault + 's" where
  "traverse_postorder f root s = postorder_loop f root [] s"

section \<open>The container\<close>

definition empty_tree :: "('k, 'v) root" where
  "empty_tree = Owned Tip"

definition range_tree :: "('k :: linorder \<times> 'v :: linorder) list \<Rightarrow> fault + ('k, 'v) root" where
  "range_tree xs = (if xs \<noteq> [] then bnd (make_tree xs) (\<lambda>r. Inr (Owned r)) else Inr (Owned Tip))"

definition copy_tree :: "('k :: linorder, 'v :: linorder) root \<Rightarrow> fault + ('k, 'v) root" where
  "copy_tree other = bnd (deref_root other) (\<lambda>r.
     if r \<noteq> Tip then bnd (inorder_values r) (\<lambda>xs. bnd (make_tree xs) (\<lambda>r'. Inr (Owned r')))
     else Inr (Owned Tip))"

definition move_tree :: "('k, 'v) root \<Rightarrow> ('k, 'v) root \<times> ('k, 'v) root" where
  "move_tree other = (other, Owned Tip)"

definition tree_empty :: "('k, 'v) root \<Rightarrow> bool" where
  "tree_empty t \<longleftrightarrow> t = Owned Tip"

definition tree_size :: "('k, 'v) root \<Rightarrow> fault + size_t" where
  "tree_size t = bnd (deref_root t) (\<lambda>r. Inr (traverse_preorder (\<lambda>d c. c + 1) r 0))"

text \<open>\<open>free_traverse\<close> deletes every node, children first; the root pointer keeps its value.\<close>

definition free_tree :: "('k, 'v) root \<Rightarrow> fault + ('k, 'v) root" where
  "free_tree t = bnd (deref_root t) (\<lambda>r. case r of Tip \<Rightarrow> Inr (Owned Tip) | BT l d r' \<Rightarrow> Inr Stale)"

definition tree_clear :: "('k, 'v) root \<Rightarrow> fault + ('k, 'v) root" where
  "tree_clear t = free_tree t"

definition insert_node ::
  "('k :: linorder, 'v :: linorder) bt \<Rightarrow> 'k \<times> 'v \<Rightarrow>
   fault + (('k, 'v) root \<times> ('k, 'v) tree_iter \<times> bool)" where
  "insert_node root x = bnd (insert_at root x) (\<lambda>(root', new).
     if new then bnd (inorder_at root' (fst x)) (\<lambda>it. Inr (Owned root', it, new))
     else Inr (Owned root', end_iterator, new))"

definition tree_insert ::
  "('k :: linorder, 'v :: linorder) root \<Rightarrow> 'k \<times> 'v \<Rightarrow>
   fault + (('k, 'v) root \<times> ('k, 'v) tree_iter \<times> bool)" where
  "tree_insert t x = bnd (deref_root t) (\<lambda>r. insert_node r x)"

definition tree_emplace ::
  "('k :: linorder, 'v :: linorder) root \<Rightarrow> 'k \<Rightarrow> 'v \<Rightarrow>
   fault + (('k, 'v) root \<times> ('k, 'v) tree_iter \<times> bool)" where
  "tree_emplace t k v = bnd (deref_root t) (\<lambda>r. insert_node r (k, v))"

fun tree_insert_range ::
  "('k :: linorder, 'v :: linorder) root \<Rightarrow> ('k \<times> 'v) list \<Rightarrow> fault + ('k, 'v) root" where
  "tree_insert_range t [] = Inr t"
| "tree_insert_range t (x # xs) = bnd (deref_root t) (\<lambda>r.
     bnd (insert_node r x) (\<lambda>(t', it, new). tree_insert_range t' xs))"

definition tree_insert_or_assign ::
  "('k :: linorder, 'v) root \<Rightarrow> 'k \<Rightarrow> 'v \<Rightarrow> fault + (('k, 'v) root \<times> ('k, 'v) tree_iter \<times> bool)" where
  "tree_insert_or_assign t k v = bnd (deref_root t) (\<lambda>r.
     bnd (assign_impl r (Some []) k v) (\<lambda>(r', key, new).
     bnd (inorder_at r' key) (\<lambda>it. Inr (Owned r', it, new))))"

definition tree_try_emplace ::
  "('k :: linorder, 'v) root \<Rightarrow> 'k \<Rightarrow> 'v \<Rightarrow> fault + (('k, 'v) root \<times> ('k, 'v) tree_iter \<times> bool)" where
  "tree_try_emplace t k v = bnd (deref_root t) (\<lambda>r.
     bnd (emplace_impl r (Some []) k v) (\<lambda>(r', key, new).
     bnd (inorder_at r' key) (\<lambda>it. Inr (Owned r', it, new))))"

text \<open>The operations with a hint, which is the node the hint iterator points at (or null).\<close>

definition tree_assign_hint ::
  "('k :: linorder, 'v) root \<Rightarrow> link option \<Rightarrow> 'k \<Rightarrow> 'v \<Rightarrow>
   fault + (('k, 'v) root \<times> ('k, 'v) tree_iter)" where
  "tree_assign_hint t hint k v = bnd (deref_root t) (\<lambda>r.
     bnd (assign_impl r hint k v) (\<lambda>(r', key, new).
     bnd (inorder_at r' key) (\<lambda>it. Inr (Owned r', it))))"

definition tree_erase_pos ::
  "('k :: linorder, 'v) root \<Rightarrow> ('k, 'v) tree_iter \<Rightarrow> fault + (('k, 'v) root \<times> ('k, 'v) tree_iter)" where
  "tree_erase_pos t pos = bnd (iterator_data pos) (\<lambda>d. bnd (deref_root t) (\<lambda>r.
     bnd (erase_at_key r (fst d)) (\<lambda>(r', it, n). Inr (Owned r', it))))"

definition tree_erase ::
  "('k :: linorder, 'v) root \<Rightarrow> 'k \<Rightarrow> fault + (('k, 'v) root \<times> size_t)" where
  "tree_erase t k = bnd (deref_root t) (\<lambda>r.
     bnd (erase_at_key r k) (\<lambda>(r', it, n). Inr (Owned r', n)))"

text \<open>
  The range erasure never advances \<^verbatim>\<open>first\<close>: after one round its node is deleted and the loop
  reads the key of that node. (No two nodes hold the same pair, so the iterators differ exactly
  when the subtrees at them do.)
\<close>

definition tree_erase_range ::
  "('k :: linorder, 'v) root \<Rightarrow> ('k, 'v) tree_iter \<Rightarrow> ('k, 'v) tree_iter \<Rightarrow>
   fault + (('k, 'v) root \<times> ('k, 'v) tree_iter)" where
  "tree_erase_range t first fin = (if ti_current first = ti_current fin then Inr (t, end_iterator)
     else bnd (iterator_data first) (\<lambda>d. bnd (tree_erase t (fst d)) (\<lambda>_. Inl Dangling)))"

definition tree_count :: "('k, 'v) root \<Rightarrow> 'k \<Rightarrow> fault + size_t" where
  "tree_count t k = bnd (deref_root t) (\<lambda>r.
     Inr (traverse_preorder_recursive (\<lambda>d c. if fst d = k then c + 1 else c) r 0))"

definition tree_find :: "('k, 'v) root \<Rightarrow> 'k \<Rightarrow> fault + ('k, 'v) tree_iter" where
  "tree_find t k = bnd (deref_root t) (\<lambda>r. inorder_at r k)"

fun contains_loop :: "('k :: linorder, 'v) bt \<Rightarrow> 'k \<Rightarrow> ('k, 'v) bt" where
  "contains_loop Tip k = Tip"
| "contains_loop (BT l d r) k =
     (if fst d \<noteq> k then
        if fst d < k then contains_loop r k
        else contains_loop l k
      else BT l d r)"

definition tree_contains :: "('k :: linorder, 'v) root \<Rightarrow> 'k \<Rightarrow> fault + bool" where
  "tree_contains t k = bnd (deref_root t) (\<lambda>r. Inr (contains_loop r k \<noteq> Tip))"

definition tree_lower_bound :: "('k, 'v) root \<Rightarrow> 'k \<Rightarrow> fault + ('k, 'v) tree_iter" where
  "tree_lower_bound t k = bnd (deref_root t) (\<lambda>r. inorder_at r k)"

definition tree_upper_bound :: "('k, 'v) root \<Rightarrow> 'k \<Rightarrow> fault + ('k, 'v) tree_iter" where
  "tree_upper_bound t k = bnd (deref_root t) (\<lambda>r. bnd (inorder_at r k) inorder_next)"

definition tree_equal_range ::
  "('k, 'v) root \<Rightarrow> 'k \<Rightarrow> fault + (('k, 'v) tree_iter \<times> ('k, 'v) tree_iter)" where
  "tree_equal_range t k = bnd (deref_root t) (\<lambda>r. bnd (inorder_at r k) (\<lambda>first.
     bnd (inorder_at r k) (\<lambda>it. bnd (inorder_next it) (\<lambda>fin. Inr (first, fin)))))"

end
