(* ===== verification/Binary_Tree_Iterators.thy ===== *)
theory Binary_Tree_Iterators
  imports Binary_Tree
begin

text \<open>
  What the traversals and the three kinds of iterators of \<^verbatim>\<open>BinaryTree\<close> visit. The locale
  \<open>tree_walk\<close> is what the loops over an iterator need of its increment; the preorder, inorder
  and reverse iterators are its instances.
\<close>

section \<open>The sequences of a tree\<close>

fun inorder :: "('k, 'v) bt \<Rightarrow> ('k \<times> 'v) list" where
  "inorder Tip = []"
| "inorder (BT l d r) = inorder l @ d # inorder r"

fun preorder :: "('k, 'v) bt \<Rightarrow> ('k \<times> 'v) list" where
  "preorder Tip = []"
| "preorder (BT l d r) = d # preorder l @ preorder r"

lemma inorder_nodes: "length (inorder t) = nodes t"
  by (induction t) simp_all

lemma preorder_nodes: "length (preorder t) = nodes t"
  by (induction t) simp_all

lemma mset_preorder: "mset (preorder t) = mset (inorder t)"
  by (induction t) simp_all

lemma inorder_Nil_iff [simp]: "inorder t = [] \<longleftrightarrow> t = Tip"
  by (cases t) simp_all

section \<open>Walks\<close>

locale tree_walk =
  fixes ok :: "('k, 'v) tree_iter \<Rightarrow> bool"
    and rest :: "('k, 'v) tree_iter \<Rightarrow> ('k \<times> 'v) list"
    and nxt :: "('k, 'v) tree_iter \<Rightarrow> fault + ('k, 'v) tree_iter"
  assumes finished: "ok it \<Longrightarrow> ti_current it = Tip \<Longrightarrow> rest it = []"
    and step: "ok it \<Longrightarrow> ti_current it = BT l d r \<Longrightarrow>
      \<exists>it'. nxt it = Inr it' \<and> ok it' \<and> rest it = d # rest it'"
begin

lemma iter_values_rest: "ok it \<Longrightarrow> iter_values nxt it acc = Some (Inr (acc @ rest it))"
proof (induction "length (rest it)" arbitrary: it acc)
  case 0
  then have "ti_current it = Tip"
    using step [of it] by (cases "ti_current it") fastforce+
  with 0 show ?case
    by (subst iter_values.simps) simp
next
  case (Suc n)
  then obtain l d r where c: "ti_current it = BT l d r"
    using finished [of it] by (cases "ti_current it") auto
  with step [OF Suc.prems] obtain it' where it': "nxt it = Inr it'" "ok it'" "rest it = d # rest it'"
    by blast
  with Suc.hyps(1) [of it' "acc @ [d]"] Suc.hyps(2) c show ?case
    by (subst iter_values.simps) simp
qed

lemma iter_search_rest:
  "ok it \<Longrightarrow> \<exists>it'. iter_search nxt k it = Some (Inr it') \<and> ok it' \<and>
     rest it' = dropWhile (\<lambda>x. fst x \<noteq> k) (rest it)"
proof (induction "length (rest it)" arbitrary: it)
  case 0
  then have "ti_current it = Tip"
    using step [of it] by (cases "ti_current it") fastforce+
  with 0 show ?case
    by (subst iter_search.simps) simp
next
  case (Suc n)
  then obtain l d r where c: "ti_current it = BT l d r"
    using finished [of it] by (cases "ti_current it") auto
  with step [OF Suc.prems] obtain it' where it': "nxt it = Inr it'" "ok it'" "rest it = d # rest it'"
    by blast
  with Suc.hyps(1) [of it'] Suc.hyps(2) Suc.prems c show ?case
    by (subst iter_search.simps) auto
qed

lemma rest_current: "ok it \<Longrightarrow> rest it = x # xs \<Longrightarrow> iterator_data it = Inr x"
  using finished [of it] step [of it] by (cases "ti_current it") (fastforce simp: iterator_data_def)+

lemma rest_end: "ok it \<Longrightarrow> rest it = [] \<longleftrightarrow> ti_current it = Tip"
  using finished [of it] step [of it] by (cases "ti_current it") fastforce+

lemma next_rest: "ok it \<Longrightarrow> rest it = x # xs \<Longrightarrow> \<exists>it'. nxt it = Inr it' \<and> ok it' \<and> rest it' = xs"
  using finished [of it] step [of it] by (cases "ti_current it") fastforce+

end

text \<open>In every iterator the stack holds nodes only, and is empty at the end.\<close>

definition iter_ok :: "('k, 'v) tree_iter \<Rightarrow> bool" where
  "iter_ok it \<longleftrightarrow> Tip \<notin> set (ti_stack it) \<and> (ti_current it = Tip \<longrightarrow> ti_stack it = [])"

definition inorder_rest :: "('k, 'v) tree_iter \<Rightarrow> ('k \<times> 'v) list" where
  "inorder_rest it = (case ti_current it of Tip \<Rightarrow> [] | BT l d r \<Rightarrow> d # inorder r) @
     concat (map (\<lambda>t. bt_data t # inorder (bt_right t)) (ti_stack it))"

definition reverse_rest :: "('k, 'v) tree_iter \<Rightarrow> ('k \<times> 'v) list" where
  "reverse_rest it = (case ti_current it of Tip \<Rightarrow> [] | BT l d r \<Rightarrow> d # rev (inorder l)) @
     concat (map (\<lambda>t. bt_data t # rev (inorder (bt_left t))) (ti_stack it))"

definition preorder_rest :: "('k, 'v) tree_iter \<Rightarrow> ('k \<times> 'v) list" where
  "preorder_rest it = preorder (ti_current it) @ concat (map preorder (ti_stack it))"

lemma min_from_rest:
  "t \<noteq> Tip \<Longrightarrow> Tip \<notin> set stack \<Longrightarrow> \<exists>it. min_from stack t = Inr it \<and> iter_ok it \<and>
     inorder_rest it = inorder t @ concat (map (\<lambda>t. bt_data t # inorder (bt_right t)) stack)"
proof (induction stack t rule: min_from.induct)
  case (2 stack l d r)
  show ?case
  proof (cases "l = Tip")
    case True
    with 2 show ?thesis by (simp add: iter_ok_def inorder_rest_def)
  next
    case False
    with 2 show ?thesis by simp
  qed
qed simp

lemma max_from_rest:
  "t \<noteq> Tip \<Longrightarrow> Tip \<notin> set stack \<Longrightarrow> \<exists>it. max_from stack t = Inr it \<and> iter_ok it \<and>
     bt_right (ti_current it) = Tip \<and> ti_current it \<noteq> Tip \<and>
     reverse_rest it = rev (inorder t) @ concat (map (\<lambda>t. bt_data t # rev (inorder (bt_left t))) stack)"
proof (induction stack t rule: max_from.induct)
  case (2 stack l d r)
  show ?case
  proof (cases "r = Tip")
    case True
    with 2 show ?thesis by (simp add: iter_ok_def reverse_rest_def)
  next
    case False
    with 2 show ?thesis by simp
  qed
qed simp

lemma pop_stack_facts:
  assumes "Tip \<notin> set stack"
  shows "iter_ok (pop_stack \<lparr>ti_stack = stack, ti_current = Tip\<rparr>)"
    and "inorder_rest (pop_stack \<lparr>ti_stack = stack, ti_current = Tip\<rparr>) =
      concat (map (\<lambda>t. bt_data t # inorder (bt_right t)) stack)"
    and "reverse_rest (pop_stack \<lparr>ti_stack = stack, ti_current = Tip\<rparr>) =
      concat (map (\<lambda>t. bt_data t # rev (inorder (bt_left t))) stack)"
    and "preorder_rest (pop_stack \<lparr>ti_stack = stack, ti_current = Tip\<rparr>) = concat (map preorder stack)"
  using assms
  by (auto simp: pop_stack_def iter_ok_def inorder_rest_def reverse_rest_def preorder_rest_def
      split: list.splits bt.splits)

lemma iter_eta: "\<lparr>ti_stack = ti_stack it, ti_current = t\<rparr> = it\<lparr>ti_current := t\<rparr>"
  by simp

interpretation forwards: tree_walk iter_ok inorder_rest inorder_next
proof (unfold_locales, goal_cases)
  case (1 it)
  then show ?case by (simp add: iter_ok_def inorder_rest_def)
next
  case (2 it l d r)
  then have s: "Tip \<notin> set (ti_stack it)" by (simp add: iter_ok_def)
  show ?case
  proof (cases "r = Tip")
    case True
    with 2 pop_stack_facts [OF s] show ?thesis
      by (simp add: inorder_next_def inorder_rest_def Let_def iter_eta)
  next
    case False
    with 2 min_from_rest [OF False s] show ?thesis
      by (auto simp: inorder_next_def Let_def traverse_minimum_def inorder_rest_def)
  qed
qed

interpretation backwards: tree_walk iter_ok reverse_rest reverse_next
proof (unfold_locales, goal_cases)
  case (1 it)
  then show ?case by (simp add: iter_ok_def reverse_rest_def)
next
  case (2 it l d r)
  then have s: "Tip \<notin> set (ti_stack it)" by (simp add: iter_ok_def)
  show ?case
  proof (cases "l = Tip")
    case True
    with 2 pop_stack_facts [OF s] show ?thesis
      by (simp add: reverse_next_def reverse_rest_def Let_def iter_eta)
  next
    case False
    with 2 max_from_rest [OF False s] show ?thesis
      by (auto simp: reverse_next_def Let_def traverse_maximum_def reverse_rest_def)
  qed
qed

interpretation depth_first: tree_walk iter_ok preorder_rest preorder_next
proof (unfold_locales, goal_cases)
  case (1 it)
  then show ?case by (simp add: iter_ok_def preorder_rest_def)
next
  case (2 it l d r)
  let ?stack = "if r \<noteq> Tip then r # ti_stack it else ti_stack it"
  from 2 have s: "Tip \<notin> set ?stack" by (simp add: iter_ok_def)
  have rest: "preorder_rest it = d # preorder l @ concat (map preorder ?stack)"
    using 2 by (simp add: preorder_rest_def)
  have nxt: "preorder_next it = Inr (if l = Tip then pop_stack \<lparr>ti_stack = ?stack, ti_current = l\<rparr>
      else \<lparr>ti_stack = ?stack, ti_current = l\<rparr>)"
    using 2 by (cases it) (simp add: preorder_next_def Let_def)
  show ?case
  proof (cases "l = Tip")
    case True
    with rest nxt pop_stack_facts(1,4) [OF s] show ?thesis by simp
  next
    case False
    with rest nxt s show ?thesis
      by (simp add: preorder_rest_def iter_ok_def)
  qed
qed

section \<open>The iterators of a tree\<close>

lemma inorder_begin_ok:
  obtains it where "inorder_begin t = Inr it" and "iter_ok it" and "inorder_rest it = inorder t"
  using min_from_rest [of t "[]"]
  by (cases "t = Tip") (auto simp: inorder_begin_def traverse_minimum_def iter_ok_def inorder_rest_def)

lemma reverse_begin_ok:
  obtains it where "reverse_begin t = Inr it" and "iter_ok it" and "reverse_rest it = rev (inorder t)"
    and "t \<noteq> Tip \<Longrightarrow> bt_right (ti_current it) = Tip \<and> ti_current it \<noteq> Tip"
  using max_from_rest [of t "[]"]
  by (cases "t = Tip") (auto simp: reverse_begin_def traverse_maximum_def iter_ok_def reverse_rest_def)

lemma inorder_values: "inorder_values t = Inr (inorder t)"
  by (rule inorder_begin_ok [of t])
    (simp add: inorder_values_def forwards.iter_values_rest returns_def)

lemma reverse_values: "reverse_values t = Inr (rev (inorder t))"
  by (rule reverse_begin_ok [of t])
    (simp add: reverse_values_def backwards.iter_values_rest returns_def)

lemma preorder_values: "preorder_values t = Inr (preorder t)"
  by (simp add: preorder_values_def depth_first.iter_values_rest iter_ok_def returns_def preorder_rest_def)

lemma inorder_at_ok:
  obtains it where "inorder_at t k = Inr it" and "iter_ok it"
    and "inorder_rest it = dropWhile (\<lambda>x. fst x \<noteq> k) (inorder t)"
proof -
  obtain it where it: "inorder_begin t = Inr it" "iter_ok it" "inorder_rest it = inorder t"
    by (rule inorder_begin_ok)
  with forwards.iter_search_rest [OF it(2), of k] that show thesis
    by (auto simp: inorder_at_def returns_def)
qed

lemma reverse_at_ok:
  assumes "t \<noteq> Tip"
  obtains it where "reverse_at t k = Inr it" and "iter_ok it"
    and "reverse_rest it = dropWhile (\<lambda>x. fst x \<noteq> k) (rev (inorder t))"
proof -
  obtain it where it: "reverse_begin t = Inr it" "iter_ok it" "reverse_rest it = rev (inorder t)"
    "bt_right (ti_current it) = Tip" "ti_current it \<noteq> Tip"
    using assms by (metis reverse_begin_ok)
  then have "traverse_maximum it = Inr it"
    by (cases "ti_current it") (simp_all add: traverse_maximum_def iter_eta)
  with it backwards.iter_search_rest [OF it(2), of k] that show thesis
    by (auto simp: reverse_at_def returns_def)
qed

lemma reverse_at_Tip: "reverse_at Tip k = Inl Null_Deref"
  by (simp add: reverse_at_def reverse_begin_def traverse_maximum_def)

section \<open>Traversals\<close>

lemma traverse_preorder_recursive: "traverse_preorder_recursive f t s = fold f (preorder t) s"
  by (induction t arbitrary: s) simp_all

lemma preorder_loop:
  "Tip \<notin> set stack \<Longrightarrow> (t = Tip \<longrightarrow> stack = []) \<Longrightarrow>
   preorder_loop f t stack s = fold f (preorder t @ concat (map preorder stack)) s"
proof (induction f t stack s rule: preorder_loop.induct)
  case (2 f l d r stack s)
  let ?stack = "if r \<noteq> Tip then r # stack else stack"
  have s: "Tip \<notin> set ?stack" using "2.prems"(1) by simp
  show ?case
  proof (cases "l = Tip \<and> ?stack \<noteq> []")
    case True
    then obtain t ts where ts: "?stack = t # ts" by (meson neq_Nil_conv)
    with s have "Tip \<notin> set ts" "t \<noteq> Tip" by auto
    with "2.IH"(1) [OF refl refl True] ts have
      "preorder_loop f t ts (f d s) = fold f (preorder t @ concat (map preorder ts)) (f d s)"
      by simp
    moreover have "preorder l @ preorder r @ concat (map preorder stack) = preorder t @ concat (map preorder ts)"
      using True ts by (auto split: if_splits)
    ultimately show ?thesis
      using True ts by (simp add: Let_def del: fold_append)
  next
    case False
    with "2.IH"(2) [OF refl refl False s] show ?thesis
      by (auto simp: Let_def)
  qed
qed simp

lemma traverse_preorder: "traverse_preorder f t s = fold f (preorder t) s"
  by (simp add: traverse_preorder_def preorder_loop)

lemma inorder_unwind:
  assumes "inorder_unwind f node stack s = (node', stack', s')" and "Tip \<notin> set stack"
  shows "fold f (inorder node @ concat (map (\<lambda>t. bt_data t # inorder (bt_right t)) stack)) s =
      fold f (inorder node' @ concat (map (\<lambda>t. bt_data t # inorder (bt_right t)) stack')) s'"
    and "Tip \<notin> set stack'" and "node' = Tip \<longrightarrow> stack' = []"
  using assms
  by (induction f node stack s rule: inorder_unwind.induct) (auto split: if_splits)

lemma inorder_loop:
  "Tip \<notin> set stack \<Longrightarrow> (t = Tip \<longrightarrow> stack = []) \<Longrightarrow> inorder_loop f t stack s =
   fold f (inorder t @ concat (map (\<lambda>t. bt_data t # inorder (bt_right t)) stack)) s"
proof (induction f t stack s rule: inorder_loop.induct)
  case (2 f l d r stack s)
  obtain node stack' s' where u: "inorder_unwind f l (BT l d r # stack) s = (node, stack', s')"
    using prod_cases3 by blast
  have "Tip \<notin> set (BT l d r # stack)" using "2.prems" by simp
  note facts = inorder_unwind [OF u this]
  from "2.IH" [OF u [symmetric] refl facts(2,3)] facts(1) u show ?case
    by (simp del: inorder_unwind.simps)
qed simp

lemma traverse_inorder: "traverse_inorder f t s = fold f (inorder t) s"
  by (simp add: traverse_inorder_def inorder_loop)

lemma postorder_loop: "postorder_loop f t stack s = Inr s"
  by (induction f t stack s rule: postorder_loop.induct) simp_all

lemma traverse_postorder: "traverse_postorder f t s = Inr s"
  by (simp add: traverse_postorder_def postorder_loop)

end
