(* ===== verification/Binary_Tree_Laws.thy ===== *)
theory Binary_Tree_Laws
  imports Binary_Tree_Iterators "HOL-Library.Product_Lexorder"
begin

text \<open>
  Order: what the search and the modifiers of \<^verbatim>\<open>BinaryTree\<close> do to the inorder sequence. The
  operations by key work on a search tree as on the finite map of its pairs, as long as nothing
  is inserted into the empty tree; \<open>insert\<close> keeps the sequence sorted by pairs.
\<close>

section \<open>Sorted sequences of pairs\<close>

definition key_sorted :: "('k :: linorder \<times> 'v) list \<Rightarrow> bool" where
  "key_sorted xs \<longleftrightarrow> sorted_wrt (<) (map fst xs)"

definition search_tree :: "('k :: linorder, 'v) bt \<Rightarrow> bool" where
  "search_tree t \<longleftrightarrow> key_sorted (inorder t)"

definition tree_view :: "('k, 'v) bt \<Rightarrow> 'k \<rightharpoonup> 'v" where
  "tree_view t = map_of (inorder t)"

lemma key_sorted_simps [simp]:
  "key_sorted []"
  "key_sorted (x # xs) \<longleftrightarrow> (\<forall>y\<in>set xs. fst x < fst y) \<and> key_sorted xs"
  "key_sorted (xs @ ys) \<longleftrightarrow> key_sorted xs \<and> key_sorted ys \<and> (\<forall>x\<in>set xs. \<forall>y\<in>set ys. fst x < fst y)"
  by (auto simp: key_sorted_def sorted_wrt_append)

lemma key_sorted_distinct: "key_sorted xs \<Longrightarrow> distinct (map fst xs)"
  by (induction xs) auto

lemma map_of_key_split:
  fixes k :: "'k :: linorder"
  assumes "\<forall>x\<in>set xs. fst x < k" and "\<forall>y\<in>set ys. k < fst y"
  shows "map_of (xs @ (k, v) # ys) = (map_of (xs @ ys))(k \<mapsto> v)"
    and "map_of (xs @ ys) k = None"
proof -
  have "map_of xs k = None"
    using assms(1) by (metis fst_conv less_irrefl map_of_SomeD not_None_eq)
  moreover have "map_of ys k = None"
    using assms(2) by (metis fst_conv less_irrefl map_of_SomeD not_None_eq)
  ultimately show "map_of (xs @ (k, v) # ys) = (map_of (xs @ ys))(k \<mapsto> v)" and "map_of (xs @ ys) k = None"
    by (auto simp: fun_eq_iff map_add_def split: option.splits)
qed

lemma dropWhile_key:
  "key_sorted xs \<Longrightarrow> dropWhile (\<lambda>x. fst x \<noteq> k) xs =
     (case map_of xs k of None \<Rightarrow> [] | Some v \<Rightarrow> (k, v) # filter (\<lambda>x. k < fst x) xs)"
proof (induction xs)
  case (Cons x xs)
  have "filter (\<lambda>x. k < fst x) xs = xs" if "fst x = k"
    using that Cons.prems by (auto simp: filter_id_conv)
  moreover have "\<not> k < fst x" if "map_of xs k = Some v" for v
    using that Cons.prems by (auto dest!: map_of_SomeD)
  ultimately show ?case
    using Cons by (cases x) (auto split: option.splits)
qed simp

section \<open>Links\<close>

text \<open>
  The link \<open>find_link\<close> gives is a place in the inorder sequence: before it are the smaller keys,
  behind it the larger ones, and at it the node of the key, if there is one.
\<close>

lemma find_link_spec:
  assumes "search_tree t" and "find_link t link k = (q, n)"
  shows "\<exists>p xs ys. q = link @ p \<and> n = subtree_at t p \<and>
    (\<forall>m. inorder (set_link t p m) = xs @ inorder m @ ys) \<and> inorder t = xs @ inorder n @ ys \<and>
    (\<forall>x\<in>set xs. fst x < k) \<and> (\<forall>y\<in>set ys. k < fst y) \<and>
    (n = Tip \<or> fst (bt_data n) = k) \<and> (n = Tip \<longrightarrow> (p = [] \<longleftrightarrow> t = Tip))"
  using assms
proof (induction t arbitrary: link q n)
  case Tip
  then show ?case by (intro exI [of _ "[]"]) simp
next
  case (BT l d r)
  have st: "search_tree l" "search_tree r" and less: "\<forall>x\<in>set (inorder l). fst x < fst d"
    "\<forall>y\<in>set (inorder r). fst d < fst y"
    using BT.prems(1) by (auto simp: search_tree_def)
  consider "fst d < k" | "k < fst d" | "fst d = k" by fastforce
  then show ?case
  proof cases
    case 1
    then have "find_link r (link @ [R]) k = (q, n)" using BT.prems(2) by simp
    from BT.IH(2) [OF st(2) this] obtain p xs ys where p: "q = (link @ [R]) @ p" "n = subtree_at r p"
      "\<And>m. inorder (set_link r p m) = xs @ inorder m @ ys" "inorder r = xs @ inorder n @ ys"
      "\<forall>x\<in>set xs. fst x < k" "\<forall>y\<in>set ys. k < fst y" "n = Tip \<or> fst (bt_data n) = k"
      by blast
    have "\<forall>x\<in>set (inorder l @ d # xs). fst x < k"
      using p(5) 1 less(1) by auto
    with p show ?thesis
      by (intro exI [of _ "R # p"] exI [of _ "inorder l @ d # xs"] exI [of _ ys]) simp
  next
    case 2
    then have "find_link l (link @ [L]) k = (q, n)" using BT.prems(2) order_less_not_sym [OF 2] 2 by simp
    from BT.IH(1) [OF st(1) this] obtain p xs ys where p: "q = (link @ [L]) @ p" "n = subtree_at l p"
      "\<And>m. inorder (set_link l p m) = xs @ inorder m @ ys" "inorder l = xs @ inorder n @ ys"
      "\<forall>x\<in>set xs. fst x < k" "\<forall>y\<in>set ys. k < fst y" "n = Tip \<or> fst (bt_data n) = k"
      by blast
    have "\<forall>y\<in>set (ys @ d # inorder r). k < fst y"
      using p(6) 2 less(2) by auto
    with p show ?thesis
      by (intro exI [of _ "L # p"] exI [of _ xs] exI [of _ "ys @ d # inorder r"]) simp
  next
    case 3
    then have "q = link" "n = BT l d r" using BT.prems(2) by auto
    with 3 show ?thesis
      by (intro exI [of _ "[]"]) simp
  qed
qed

lemma find_link_cases:
  assumes "search_tree t"
  obtains p xs ys where "find_link t [] k = (p, Tip)" and "tree_view t k = None"
    and "\<And>m. inorder (set_link t p m) = xs @ inorder m @ ys" and "inorder t = xs @ ys"
    and "\<forall>x\<in>set xs. fst x < k" and "\<forall>y\<in>set ys. k < fst y" and "p = [] \<longleftrightarrow> t = Tip"
  | p l v r xs ys where "find_link t [] k = (p, BT l (k, v) r)" and "tree_view t k = Some v"
    and "\<And>m. inorder (set_link t p m) = xs @ inorder m @ ys"
    and "inorder t = xs @ (inorder l @ (k, v) # inorder r) @ ys"
    and "\<forall>x\<in>set (xs @ inorder l). fst x < k" and "\<forall>y\<in>set (inorder r @ ys). k < fst y"
proof -
  obtain q n where q: "find_link t [] k = (q, n)" by force
  from find_link_spec [OF assms q, simplified] obtain xs ys where s:
    "\<And>m. inorder (set_link t q m) = xs @ inorder m @ ys" "inorder t = xs @ inorder n @ ys"
    "\<forall>x\<in>set xs. fst x < k" "\<forall>y\<in>set ys. k < fst y" "n = Tip \<or> fst (bt_data n) = k"
    "n = Tip \<Longrightarrow> q = [] \<longleftrightarrow> t = Tip"
    by blast
  show thesis
  proof (cases n)
    case Tip
    with s q map_of_key_split(2) [OF s(3,4)] show thesis
      by (intro that(1) [of q xs ys]) (simp_all add: tree_view_def)
  next
    case (BT l d r)
    then obtain v where d: "d = (k, v)" using s(5) by (cases d) simp
    have lr: "\<forall>x\<in>set (inorder l). fst x < k" "\<forall>x\<in>set (inorder r). k < fst x"
      using assms BT d s(2) by (auto simp: search_tree_def)
    have "map_of ((xs @ inorder l) @ (k, v) # (inorder r @ ys)) k = Some v"
      by (subst map_of_key_split(1)) (use lr s in auto)
    with s q lr BT d show thesis
      by (intro that(2) [of q l v r xs ys]) (auto simp: tree_view_def)
  qed
qed

section \<open>Insertion by key and erasure\<close>

text \<open>A node linked in at the place of its key.\<close>

lemma link_new:
  assumes "search_tree t" and "\<And>m. inorder (set_link t p m) = xs @ inorder m @ ys"
    and "inorder t = xs @ ys" and "\<forall>x\<in>set xs. fst x < k" and "\<forall>y\<in>set ys. k < fst y"
  shows "search_tree (set_link t p (BT Tip (k, v) Tip))"
    and "tree_view (set_link t p (BT Tip (k, v) Tip)) = (tree_view t)(k \<mapsto> v)"
  using assms map_of_key_split(1) [OF assms(4,5), of v]
  by (auto simp: search_tree_def tree_view_def)

lemma emplace_impl_ok:
  assumes "search_tree t" and "t \<noteq> Tip"
  obtains t' where "emplace_impl t (Some []) k v = Inr (t', k, tree_view t k = None)" and "search_tree t'"
    and "tree_view t' = (if tree_view t k = None then (tree_view t)(k \<mapsto> v) else tree_view t)"
proof (rule find_link_cases [OF assms(1), of k])
  fix p xs ys
  assume c: "find_link t [] k = (p, Tip)" "tree_view t k = None"
    "\<And>m. inorder (set_link t p m) = xs @ inorder m @ ys" "inorder t = xs @ ys"
    "\<forall>x\<in>set xs. fst x < k" "\<forall>y\<in>set ys. k < fst y" "p = [] \<longleftrightarrow> t = Tip"
  with link_new [OF assms(1) c(3-6), of v] assms(2) show thesis
    by (intro that) (simp_all add: emplace_impl_def start_of_def)
next
  fix p l v' r xs ys
  assume "find_link t [] k = (p, BT l (k, v') r)" "tree_view t k = Some v'"
  with assms(1) show thesis
    by (intro that) (simp_all add: emplace_impl_def start_of_def)
qed

lemma assign_impl_ok:
  assumes "search_tree t" and "t \<noteq> Tip"
  obtains t' where "assign_impl t (Some []) k v = Inr (t', k, tree_view t k = None)" and "search_tree t'"
    and "tree_view t' = (tree_view t)(k \<mapsto> v)"
proof (rule find_link_cases [OF assms(1), of k])
  fix p xs ys
  assume c: "find_link t [] k = (p, Tip)" "tree_view t k = None"
    "\<And>m. inorder (set_link t p m) = xs @ inorder m @ ys" "inorder t = xs @ ys"
    "\<forall>x\<in>set xs. fst x < k" "\<forall>y\<in>set ys. k < fst y" "p = [] \<longleftrightarrow> t = Tip"
  with link_new [OF assms(1) c(3-6), of v] assms(2) show thesis
    by (intro that) (simp_all add: assign_impl_def start_of_def)
next
  fix p l v' r xs ys
  assume c: "find_link t [] k = (p, BT l (k, v') r)" "tree_view t k = Some v'"
    "\<And>m. inorder (set_link t p m) = xs @ inorder m @ ys"
    "inorder t = xs @ (inorder l @ (k, v') # inorder r) @ ys"
    "\<forall>x\<in>set (xs @ inorder l). fst x < k" "\<forall>y\<in>set (inorder r @ ys). k < fst y"
  let ?t = "set_link t p (BT l (k, v) r)"
  have "search_tree ?t"
    using assms(1) c(3,4) by (auto simp: search_tree_def)
  moreover have "tree_view ?t = (tree_view t)(k \<mapsto> v)"
    using map_of_key_split(1) [OF c(5,6), of v] map_of_key_split(1) [OF c(5,6), of v'] c(3,4)
    by (simp add: tree_view_def)
  ultimately show thesis
    using c(1,2) by (intro that [of ?t]) (simp_all add: assign_impl_def start_of_def)
qed

lemma unlink_min: "unlink_min l d r = (m, t) \<Longrightarrow> m # inorder t = inorder l @ d # inorder r"
  by (induction l d r arbitrary: m t rule: unlink_min.induct) (auto split: prod.splits)

lemma erase_at_key_ok:
  assumes "search_tree t"
  obtains t' it where "erase_at_key t k = Inr (t', it, if tree_view t k = None then 0 else 1)"
    and "search_tree t'" and "tree_view t' = (tree_view t)(k := None)"
    and "nodes t' + (if tree_view t k = None then 0 else 1) = nodes t"
proof (rule find_link_cases [OF assms(1), of k])
  fix p xs ys
  assume c: "find_link t [] k = (p, Tip)" "tree_view t k = None"
  with assms show thesis
    by (intro that) (simp_all add: erase_at_key_def fun_upd_idem)
next
  fix p l v r xs ys
  assume c: "find_link t [] k = (p, BT l (k, v) r)" "tree_view t k = Some v"
    "\<And>m. inorder (set_link t p m) = xs @ inorder m @ ys"
    "inorder t = xs @ (inorder l @ (k, v) # inorder r) @ ys"
    "\<forall>x\<in>set (xs @ inorder l). fst x < k" "\<forall>y\<in>set (inorder r @ ys). k < fst y"
  have goal: "search_tree t'" "tree_view t' = (tree_view t)(k := None)" "Suc (nodes t') = nodes t"
    if "inorder t' = xs @ (inorder l @ inorder r) @ ys" for t'
  proof -
    show "search_tree t'"
      using assms c(4) that by (auto simp: search_tree_def)
    show "tree_view t' = (tree_view t)(k := None)"
      using map_of_key_split [OF c(5,6)] that c(4) by (simp add: tree_view_def fun_upd_idem)
    show "Suc (nodes t') = nodes t"
      using that c(4) by (simp flip: inorder_nodes)
  qed
  consider "l \<noteq> Tip" "r \<noteq> Tip" | "l = Tip" "r = Tip" | "l \<noteq> Tip" "r = Tip" | "l = Tip" "r \<noteq> Tip"
    by auto
  then show thesis
  proof cases
    case 1
    then obtain rl rd rr where r: "r = BT rl rd rr" by (cases r) auto
    obtain m t' where m: "unlink_min rl rd rr = (m, t')"
      by (cases "unlink_min rl rd rr") auto
    let ?t = "set_link t p (BT l m t')"
    have "inorder ?t = xs @ (inorder l @ inorder r) @ ys"
      using unlink_min [OF m] r c(3) by simp
    moreover obtain it where "inorder_at ?t (fst m) = Inr it"
      by (rule inorder_at_ok)
    ultimately show thesis
      using goal [of ?t] 1 r m c(1,2)
      by (intro that [of ?t it]) (simp_all add: erase_at_key_def erase_branch_def Let_def)
  next
    case 2
    with goal [of "set_link t p Tip"] c(1-3) show thesis
      by (intro that [of "set_link t p Tip" end_iterator]) (simp_all add: erase_at_key_def erase_leaf_def)
  next
    case 3
    then obtain ll ld lr where l: "l = BT ll ld lr" by (cases l) auto
    obtain it where "inorder_at (set_link t p l) (fst ld) = Inr it"
      by (rule inorder_at_ok)
    with 3 l goal [of "set_link t p l"] c(1-3) show thesis
      by (intro that [of "set_link t p l" it])
        (simp_all add: erase_at_key_def erase_semibranch_def Let_def)
  next
    case 4
    then obtain rl rd rr where r: "r = BT rl rd rr" by (cases r) auto
    obtain it where "inorder_at (set_link t p r) (fst rd) = Inr it"
      by (rule inorder_at_ok)
    with 4 r goal [of "set_link t p r"] c(1-3) show thesis
      by (intro that [of "set_link t p r" it])
        (simp_all add: erase_at_key_def erase_semibranch_def Let_def)
  qed
qed

section \<open>The tree as a map\<close>

definition root_ok :: "('k :: linorder, 'v) root \<Rightarrow> bool" where
  "root_ok t \<longleftrightarrow> (case t of Owned r \<Rightarrow> search_tree r | Stale \<Rightarrow> False)"

definition root_view :: "('k, 'v) root \<Rightarrow> 'k \<rightharpoonup> 'v" where
  "root_view t = (case t of Owned r \<Rightarrow> tree_view r | Stale \<Rightarrow> Map.empty)"

text \<open>How a client looks a key up: the value at the iterator \<^verbatim>\<open>find\<close> gives, unless it is the end.\<close>

definition tree_value :: "('k, 'v) root \<Rightarrow> 'k \<Rightarrow> fault + 'v option" where
  "tree_value t k = bnd (tree_find t k) (\<lambda>it. if ti_current it = Tip then Inr None
     else bnd (iterator_data it) (\<lambda>d. Inr (Some (snd d))))"

lemma tree_view_empty: "tree_view t = Map.empty \<longleftrightarrow> t = Tip"
  by (simp add: tree_view_def)

lemma find_ok:
  assumes "search_tree r"
  obtains it where "tree_find (Owned r) k = Inr it" and "iter_ok it"
    and "inorder_rest it = (case tree_view r k of None \<Rightarrow> []
      | Some v \<Rightarrow> (k, v) # filter (\<lambda>x. k < fst x) (inorder r))"
proof -
  obtain it where it: "inorder_at r k = Inr it" "iter_ok it"
    "inorder_rest it = dropWhile (\<lambda>x. fst x \<noteq> k) (inorder r)"
    by (rule inorder_at_ok)
  with dropWhile_key [of "inorder r" k] assms that show thesis
    by (simp add: tree_find_def deref_root_def search_tree_def tree_view_def)
qed

lemma tree_value_ok:
  assumes "search_tree r"
  shows "tree_value (Owned r) k = Inr (tree_view r k)"
proof -
  obtain it where it: "tree_find (Owned r) k = Inr it" "iter_ok it"
    "inorder_rest it = (case tree_view r k of None \<Rightarrow> []
      | Some v \<Rightarrow> (k, v) # filter (\<lambda>x. k < fst x) (inorder r))"
    by (rule find_ok [OF assms])
  then show ?thesis
    using forwards.rest_end [OF it(2)] forwards.rest_current [OF it(2)]
    by (auto simp: tree_value_def split: option.splits)
qed

interpretation tree: assoc root_ok root_view "\<lambda>f. f \<noteq> Map.empty" tree_value
  "\<lambda>t k v. bnd (tree_try_emplace t k v) (\<lambda>(t', it, new). Inr (t', new))"
  "\<lambda>t k v. bnd (tree_insert_or_assign t k v) (\<lambda>(t', it, new). Inr (t', new))"
  tree_erase
proof (unfold_locales, goal_cases)
  case (1 t k)
  then show ?case
    by (cases t) (simp_all add: root_ok_def root_view_def tree_value_ok)
next
  case (2 t k v)
  then obtain r where r: "t = Owned r" "search_tree r" "r \<noteq> Tip"
    by (cases t) (auto simp: root_ok_def root_view_def tree_view_empty)
  obtain r' where r': "emplace_impl r (Some []) k v = Inr (r', k, tree_view r k = None)" "search_tree r'"
    "tree_view r' = (if tree_view r k = None then (tree_view r)(k \<mapsto> v) else tree_view r)"
    by (rule emplace_impl_ok [OF r(2,3)])
  obtain it where "inorder_at r' k = Inr it" by (rule inorder_at_ok)
  with r r' show ?case
    by (simp add: tree_try_emplace_def deref_root_def root_ok_def root_view_def)
next
  case (3 t k v)
  then obtain r where r: "t = Owned r" "search_tree r" "r \<noteq> Tip"
    by (cases t) (auto simp: root_ok_def root_view_def tree_view_empty)
  obtain r' where r': "assign_impl r (Some []) k v = Inr (r', k, tree_view r k = None)" "search_tree r'"
    "tree_view r' = (tree_view r)(k \<mapsto> v)"
    by (rule assign_impl_ok [OF r(2,3)])
  obtain it where "inorder_at r' k = Inr it" by (rule inorder_at_ok)
  with r r' show ?case
    by (simp add: tree_insert_or_assign_def deref_root_def root_ok_def root_view_def)
next
  case (4 t k)
  then obtain r where r: "t = Owned r" "search_tree r"
    by (cases t) (auto simp: root_ok_def)
  obtain r' it where "erase_at_key r k = Inr (r', it, if tree_view r k = None then 0 else 1)"
    "search_tree r'" "tree_view r' = (tree_view r)(k := None)"
    by (rule erase_at_key_ok [OF r(2)])
  with r show ?case
    by (simp add: tree_erase_def deref_root_def root_ok_def root_view_def)
qed

section \<open>Insertion by pairs\<close>

definition pair_sorted :: "('k :: linorder, 'v :: linorder) bt \<Rightarrow> bool" where
  "pair_sorted t \<longleftrightarrow> sorted_wrt (<) (inorder t)"

lemma pair_less_iff: "pair_less x y \<longleftrightarrow> x < y"
  by (cases x; cases y) (auto simp: pair_less_def)

lemma key_sorted_pairs: "key_sorted xs \<Longrightarrow> sorted_wrt (<) (xs :: ('k :: linorder \<times> 'v :: linorder) list)"
  by (induction xs) (auto simp: less_prod_def')

lemma insert_at_ok:
  assumes "pair_sorted t" and "t \<noteq> Tip"
  shows "\<exists>t'. insert_at t x = Inr (t', x \<notin> set (inorder t)) \<and> t' \<noteq> Tip \<and> pair_sorted t' \<and>
    set (inorder t') = insert x (set (inorder t))"
  using assms
proof (induction t)
  case (BT l d r)
  have lr: "pair_sorted l" "pair_sorted r" and less: "\<forall>y\<in>set (inorder l). y < d"
    "\<forall>y\<in>set (inorder r). d < y"
    using BT.prems by (auto simp: pair_sorted_def sorted_wrt_append)
  consider "x < d" | "d < x" | "x = d" by fastforce
  then show ?case
  proof cases
    case 1
    then have r: "x \<notin> set (inorder r)" "x \<noteq> d" using less(2) by auto
    show ?thesis
    proof (cases "l = Tip")
      case True
      with 1 BT.prems r show ?thesis
        by (auto simp: pair_less_iff pair_sorted_def)
    next
      case False
      with BT.IH(1) lr obtain l' where "insert_at l x = Inr (l', x \<notin> set (inorder l))" "pair_sorted l'"
        "set (inorder l') = insert x (set (inorder l))"
        by blast
      with 1 False BT.prems r show ?thesis
        by (auto simp: pair_less_iff pair_sorted_def sorted_wrt_append)
    qed
  next
    case 2
    then have l: "x \<notin> set (inorder l)" "\<not> x < d" "x \<noteq> d" using less(1) by auto
    show ?thesis
    proof (cases "r = Tip")
      case True
      with 2 BT.prems l less show ?thesis
        by (auto simp: pair_less_iff pair_sorted_def sorted_wrt_append)
    next
      case False
      with BT.IH(2) lr obtain r' where "insert_at r x = Inr (r', x \<notin> set (inorder r))" "pair_sorted r'"
        "set (inorder r') = insert x (set (inorder r))"
        by blast
      with 2 False BT.prems l less show ?thesis
        by (auto simp: pair_less_iff pair_sorted_def sorted_wrt_append)
    qed
  next
    case 3
    with BT.prems show ?thesis by (simp add: pair_less_iff)
  qed
qed simp

lemma make_tree_loop_ok:
  assumes "pair_sorted t" and "t \<noteq> Tip"
  shows "\<exists>t'. make_tree_loop t xs = Inr t' \<and> t' \<noteq> Tip \<and> pair_sorted t' \<and>
    set (inorder t') = set xs \<union> set (inorder t)"
  using assms
proof (induction xs arbitrary: t)
  case (Cons x xs)
  from insert_at_ok [OF Cons.prems, of x] obtain t1 where t1:
    "insert_at t x = Inr (t1, x \<notin> set (inorder t))" "t1 \<noteq> Tip" "pair_sorted t1"
    "set (inorder t1) = insert x (set (inorder t))"
    by blast
  from Cons.IH [OF t1(3,2)] t1 show ?case by auto
qed simp

lemma make_tree_ok:
  assumes "xs \<noteq> []"
  shows "\<exists>t. make_tree xs = Inr t \<and> t \<noteq> Tip \<and> pair_sorted t \<and> set (inorder t) = set xs"
proof -
  obtain x ys where "xs = x # ys" using assms by (cases xs) auto
  with make_tree_loop_ok [of "BT Tip x Tip" ys] show ?thesis
    by (auto simp: make_tree_def pair_sorted_def)
qed

text \<open>Strictly sorted sequences of the same pairs are equal.\<close>

lemma pair_sorted_unique:
  fixes xs ys :: "('k :: linorder \<times> 'v :: linorder) list"
  shows "sorted_wrt (<) xs \<Longrightarrow> sorted_wrt (<) ys \<Longrightarrow> set xs = set ys \<Longrightarrow> xs = ys"
  by (rule strict_sorted_equal)

end
