(* ===== verification/Binary_Tree_Properties.thy ===== *)
theory Binary_Tree_Properties
  imports Binary_Tree_Laws
begin

text \<open>
  The properties of \<^verbatim>\<open>BinaryTree\<close>: a finite map while it is not empty, what its iterators and
  traversals visit, insertion, copying and lookup, and the operations that go wrong.
\<close>

definition tree_calls where
  "tree_calls = do_calls tree_value
     (\<lambda>t k v. bnd (tree_try_emplace t k v) (\<lambda>(t', it, new). Inr (t', new)))
     (\<lambda>t k v. bnd (tree_insert_or_assign t k v) (\<lambda>(t', it, new). Inr (t', new)))
     tree_erase"

text \<open>The tree of the witnesses: keys 2, 4 and 6, the root 4.\<close>

definition sample_tree :: "(nat, nat) bt" where
  "sample_tree = BT (BT Tip (2, 20) Tip) (4, 40) (BT Tip (6, 60) Tip)"

lemma sample_tree_facts:
  "search_tree sample_tree" "sample_tree \<noteq> Tip" "inorder sample_tree = [(2, 20), (4, 40), (6, 60)]"
  by (simp_all add: sample_tree_def search_tree_def)

section \<open>The map\<close>

text \<open>C2 (Tree refines a finite map). On a search tree, every sequence of try-emplaces,
  insert-or-assigns, erasures by key and lookups that inserts only while the map is not empty
  answers as the finite map does and leaves a search tree of that map.\<close>

theorem tree_refines_map:
  assumes "root_ok t" and "calls_allowed (\<lambda>f. f \<noteq> Map.empty) (root_view t) cs"
  shows "\<exists>t'. tree_calls t cs = Inr (t', snd (map_calls (root_view t) cs)) \<and> root_ok t' \<and>
    root_view t' = fst (map_calls (root_view t) cs)"
  unfolding tree_calls_def by (rule tree.calls_refine [OF assms])

theorem tree_refines_map_witness:
  "\<exists>t'. tree_calls (Owned (BT Tip (4 :: nat, 40 :: nat) Tip))
      [Insert 2 20, Insert 6 60, Insert 5 50, Insert 2 21, Assign 6 61, Erase 4, Find 4,
       Find 6, Find 2] =
    Inr (t', [Inserted True, Inserted True, Inserted True, Inserted False, Inserted False, Erased 1,
      Found None, Found (Some 61), Found (Some 20)]) \<and> root_ok t'"
  using tree_refines_map [of "Owned (BT Tip (4 :: nat, 40 :: nat) Tip)"
      "[Insert 2 20, Insert 6 60, Insert 5 50, Insert 2 21, Assign 6 61, Erase 4, Find 4, Find 6, Find 2]"]
  by (auto simp: root_ok_def search_tree_def root_view_def tree_view_def)

text \<open>C8 (Erasure). Erasing a key from a search tree gives a search tree without the key and
  otherwise the same map, with one node less exactly when the key was there.\<close>

theorem tree_erase_correct:
  assumes "search_tree r"
  shows "\<exists>r'. tree_erase (Owned r) k = Inr (Owned r', if tree_view r k = None then 0 else 1) \<and>
    search_tree r' \<and> tree_view r' = (tree_view r)(k := None) \<and>
    nodes r' = nodes r - (if tree_view r k = None then 0 else 1)"
proof -
  obtain r' it where "erase_at_key r k = Inr (r', it, if tree_view r k = None then 0 else 1)"
    "search_tree r'" "tree_view r' = (tree_view r)(k := None)"
    "nodes r' + (if tree_view r k = None then 0 else 1) = nodes r"
    by (rule erase_at_key_ok [OF assms])
  then show ?thesis
    by (intro exI [of _ r']) (simp add: tree_erase_def deref_root_def)
qed

theorem tree_erase_correct_witness:
  "\<exists>r'. tree_erase (Owned sample_tree) 4 = Inr (Owned r', 1) \<and> search_tree r' \<and>
    tree_view r' 6 = Some 60 \<and> tree_view r' 4 = None \<and> nodes r' = 2"
  using tree_erase_correct [OF sample_tree_facts(1), of 4]
  by (auto simp: tree_view_def sample_tree_facts(3) simp flip: inorder_nodes)

section \<open>Iterators and traversals\<close>

text \<open>C38 (Iterators and traversals). The iterators visit every node once: the forward iterator in
  order, the reverse iterator in reverse order, the preorder iterator in preorder; the traversals
  with a stack call the function in preorder and in order; the size is the number of nodes.\<close>

theorem tree_iteration:
  fixes t :: "('k, 'v) bt"
  shows "inorder_values t = Inr (inorder t) \<and> reverse_values t = Inr (rev (inorder t)) \<and>
   preorder_values t = Inr (preorder t) \<and>
   traverse_preorder f t s = fold f (preorder t) s \<and>
   traverse_preorder_recursive f t s = fold f (preorder t) s \<and>
   traverse_inorder f t s = fold f (inorder t) s \<and>
   tree_size (Owned t) = Inr (of_nat (nodes t))"
proof -
  have "fold (\<lambda>d c. c + 1) xs c = c + of_nat (length xs)" for xs :: "('k \<times> 'v) list" and c :: size_t
    by (induction xs arbitrary: c) (simp_all add: algebra_simps)
  then show ?thesis
    by (simp add: inorder_values reverse_values preorder_values traverse_preorder traverse_inorder
        traverse_preorder_recursive tree_size_def deref_root_def preorder_nodes)
qed

text \<open>Traversals that go wrong. The postorder traversal never calls the function; the
  recursive inorder traversal visits the subtrees in preorder; the reverse iterator of the empty
  tree at a key dereferences null.\<close>

theorem traversals_wrong:
  "traverse_postorder f t s = Inr s \<and>
   traverse_inorder_recursive f (BT l d r) s = fold f (preorder l @ d # preorder r) s \<and>
   traverse_postorder_recursive f (BT l d r) s = fold f (preorder r @ preorder l @ [d]) s \<and>
   reverse_at Tip k = Inl Null_Deref"
  by (simp add: traverse_postorder traverse_inorder_recursive_def traverse_postorder_recursive_def
      traverse_preorder_recursive reverse_at_Tip)

section \<open>Insertion and copying\<close>

text \<open>Insertion goes by pairs. Inserting a pair into a search tree that is not empty keeps the
  sequence sorted by pairs and adds exactly that pair. The keys stay distinct only when the key
  was new or already had that value: insertion of a key with another value adds a second node.\<close>

theorem insertion_by_pairs:
  fixes k :: "'k :: linorder" and v :: "'v :: linorder"
  assumes "search_tree r" and "r \<noteq> Tip"
  shows "\<exists>r' it. tree_insert (Owned r) (k, v) = Inr (Owned r', it, (k, v) \<notin> set (inorder r)) \<and>
    sorted_wrt (<) (inorder r') \<and> set (inorder r') = insert (k, v) (set (inorder r)) \<and>
    (search_tree r' \<longleftrightarrow> tree_view r k = None \<or> tree_view r k = Some v)"
proof -
  have d: "distinct (map fst (inorder r))"
    using assms(1) by (simp add: search_tree_def key_sorted_distinct)
  have ps: "pair_sorted r"
    using assms(1) by (simp add: pair_sorted_def search_tree_def key_sorted_pairs)
  from insert_at_ok [OF this assms(2), of "(k, v)"] obtain r' where r':
    "insert_at r (k, v) = Inr (r', (k, v) \<notin> set (inorder r))" "sorted_wrt (<) (inorder r')"
    "set (inorder r') = insert (k, v) (set (inorder r))"
    by (auto simp: pair_sorted_def)
  obtain it where "inorder_at r' k = Inr it" by (rule inorder_at_ok)
  with r' have ins: "\<exists>it. tree_insert (Owned r) (k, v) = Inr (Owned r', it, (k, v) \<notin> set (inorder r))"
    by (simp add: tree_insert_def insert_node_def deref_root_def)
  have ks: "key_sorted xs \<longleftrightarrow> inj_on fst (set xs)" if "sorted_wrt (<) xs" for xs :: "('k \<times> 'v) list"
    using that
    by (induction xs) (auto simp: less_prod_def' inj_on_def image_iff)
  have "search_tree r' \<longleftrightarrow> inj_on fst (insert (k, v) (set (inorder r)))"
    using ks [OF r'(2)] r'(3) by (simp add: search_tree_def)
  also have "\<dots> \<longleftrightarrow> (\<forall>w. (k, w) \<in> set (inorder r) \<longrightarrow> w = v)"
    using d by (auto simp: inj_on_def distinct_map)
  also have "\<dots> \<longleftrightarrow> tree_view r k = None \<or> tree_view r k = Some v"
    using d by (cases "tree_view r k") (auto simp: tree_view_def map_of_eq_None_iff image_iff
        intro: eq_key_imp_eq_value dest: map_of_SomeD)
  finally show ?thesis
    using ins r' by blast
qed

theorem insertion_by_pairs_witness:
  "\<exists>r' it. tree_insert (Owned sample_tree) (4, 41) = Inr (Owned r', it, True) \<and> \<not> search_tree r' \<and>
    (4, 40) \<in> set (inorder r') \<and> (4, 41) \<in> set (inorder r')"
  using insertion_by_pairs [OF sample_tree_facts(1,2), of 4 41]
  by (auto simp: tree_view_def sample_tree_facts(3))

text \<open>Insertion into the empty tree. No insertion into the empty tree succeeds: insertion fails
  a contract, insert-or-assign and try-emplace write through a link to a parameter that is
  gone, and so does insert-or-assign with a hint that is the end iterator.\<close>

theorem empty_tree_rejects:
  "tree_insert empty_tree x = Inl Contract \<and> tree_emplace empty_tree k v = Inl Contract \<and>
   tree_insert_or_assign empty_tree k v = Inl Dangling \<and>
   tree_try_emplace empty_tree k v = Inl Dangling \<and>
   tree_assign_hint (Owned r) None k v = Inl Dangling"
  by (simp add: tree_insert_def tree_emplace_def insert_node_def empty_tree_def deref_root_def
      tree_insert_or_assign_def assign_impl_def start_of_def tree_try_emplace_def emplace_impl_def
      tree_assign_hint_def)

text \<open>Construction and copying. A tree made from a range holds exactly its pairs, in order; a
  copy of a search tree has the same sequence. A move hands the tree over and leaves the empty one.\<close>

theorem construction_and_copy:
  fixes r :: "('k :: linorder, 'v :: linorder) bt"
  assumes "search_tree r"
  shows "\<exists>t c. range_tree xs = Inr (Owned t) \<and> sorted_wrt (<) (inorder t) \<and> set (inorder t) = set xs \<and>
    copy_tree (Owned r) = Inr (Owned c) \<and> inorder c = inorder r \<and>
    move_tree (Owned r) = (Owned r, empty_tree)"
proof -
  have "\<exists>t. range_tree xs = Inr (Owned t) \<and> sorted_wrt (<) (inorder t) \<and> set (inorder t) = set xs"
    using make_tree_ok [of xs] by (cases "xs = []") (auto simp: range_tree_def pair_sorted_def)
  moreover have "\<exists>c. copy_tree (Owned r) = Inr (Owned c) \<and> inorder c = inorder r"
  proof (cases "r = Tip")
    case False
    then obtain c where c: "make_tree (inorder r) = Inr c" "sorted_wrt (<) (inorder c)"
      "set (inorder c) = set (inorder r)"
      using make_tree_ok [of "inorder r"] by (auto simp: pair_sorted_def)
    moreover have "sorted_wrt (<) (inorder r)"
      using assms by (simp add: search_tree_def key_sorted_pairs)
    ultimately have "inorder c = inorder r"
      using pair_sorted_unique by blast
    with c False show ?thesis
      by (simp add: copy_tree_def deref_root_def inorder_values)
  qed (simp add: copy_tree_def deref_root_def)
  ultimately show ?thesis
    by (auto simp: move_tree_def empty_tree_def)
qed

theorem construction_and_copy_witness:
  "\<exists>t c. range_tree [(3, 1), (1, 5), (3 :: nat, 1 :: nat)] = Inr (Owned t) \<and>
    set (inorder t) = {(1, 5), (3, 1)} \<and>
    copy_tree (Owned sample_tree) = Inr (Owned c) \<and> inorder c = [(2, 20), (4, 40), (6, 60)]"
  using construction_and_copy [OF sample_tree_facts(1), of "[(3 :: nat, 1 :: nat), (1, 5), (3, 1)]"]
  by (auto simp: sample_tree_facts(3))

section \<open>Lookup\<close>

text \<open>Lookup. In a search tree, contains and count say whether the key is there; find and
  lower-bound give the iterator at the key, from which the larger keys follow, or the end iterator;
  upper-bound gives the next larger key, and dereferences null when the key is not there.\<close>

theorem tree_lookup:
  assumes "search_tree r"
  shows "\<exists>it. tree_find (Owned r) k = Inr it \<and> tree_lower_bound (Owned r) k = Inr it \<and>
    tree_contains (Owned r) k = Inr (tree_view r k \<noteq> None) \<and>
    tree_count (Owned r) k = Inr (if tree_view r k = None then 0 else 1) \<and>
    (case tree_view r k of
       None \<Rightarrow> ti_current it = Tip \<and> tree_upper_bound (Owned r) k = Inl Null_Deref
     | Some v \<Rightarrow> inorder_rest it = (k, v) # filter (\<lambda>x. k < fst x) (inorder r) \<and>
         (\<exists>nx. tree_upper_bound (Owned r) k = Inr nx \<and>
            inorder_rest nx = filter (\<lambda>x. k < fst x) (inorder r)))"
proof -
  obtain it where it: "tree_find (Owned r) k = Inr it" "iter_ok it"
    "inorder_rest it = (case tree_view r k of None \<Rightarrow> []
      | Some v \<Rightarrow> (k, v) # filter (\<lambda>x. k < fst x) (inorder r))"
    by (rule find_ok [OF assms])
  have contains: "contains_loop r k \<noteq> Tip \<longleftrightarrow> k \<in> fst ` set (inorder r)"
    using assms by (induction r) (auto simp: search_tree_def)
  have "fold (\<lambda>d c. if fst d = k then c + 1 else c) xs c =
      c + of_nat (length (filter (\<lambda>d. fst d = k) xs))" for xs :: "('a \<times> 'b) list" and c :: size_t
    by (induction xs arbitrary: c) (simp_all add: algebra_simps)
  moreover have "length (filter (\<lambda>d. fst d = k) (preorder r)) = length (filter (\<lambda>d. fst d = k) (inorder r))"
    using mset_preorder [of r] by (metis mset_filter size_mset)
  moreover have "length (filter (\<lambda>d. fst d = k) xs) = (if map_of xs k = None then 0 else 1)"
    if "distinct (map fst xs)" for xs :: "('a \<times> 'b) list"
    using that
  proof (induction xs)
    case (Cons x xs)
    have "filter (\<lambda>d. fst d = k) xs = []" if "fst x = k"
      using that Cons.prems by (auto simp: filter_empty_conv image_iff)
    with Cons show ?case by (cases x) auto
  qed simp
  ultimately have count: "tree_count (Owned r) k = Inr (if tree_view r k = None then 0 else 1)"
    using assms
    by (auto simp: tree_count_def deref_root_def traverse_preorder_recursive tree_view_def
        search_tree_def key_sorted_distinct map_of_eq_None_iff image_iff)
  have upper: "tree_upper_bound (Owned r) k = inorder_next it"
    and lower: "tree_lower_bound (Owned r) k = Inr it"
    using it(1) by (simp_all add: tree_upper_bound_def tree_lower_bound_def tree_find_def deref_root_def)
  have in_view: "tree_contains (Owned r) k = Inr (tree_view r k \<noteq> None)"
    using contains by (simp add: tree_contains_def deref_root_def tree_view_def map_of_eq_None_iff)
  show ?thesis
  proof (cases "tree_view r k")
    case None
    with it have "ti_current it = Tip"
      using forwards.rest_end [OF it(2)] by simp
    with None it count upper lower in_view show ?thesis
      by (simp add: inorder_next_def)
  next
    case (Some v)
    with it obtain nx where "inorder_next it = Inr nx"
      "inorder_rest nx = filter (\<lambda>x. k < fst x) (inorder r)"
      using forwards.next_rest [OF it(2)] by fastforce
    with Some it count upper lower in_view show ?thesis
      by simp
  qed
qed

theorem tree_lookup_witness:
  "(\<exists>it. tree_find (Owned sample_tree) 4 = Inr it \<and> inorder_rest it = [(4, 40), (6, 60)]) \<and>
   tree_contains (Owned sample_tree) 3 = Inr False \<and>
   tree_upper_bound (Owned sample_tree) 3 = Inl Null_Deref"
  using tree_lookup [OF sample_tree_facts(1), of 4] tree_lookup [OF sample_tree_facts(1), of 3]
  by (auto simp: tree_view_def sample_tree_facts(3))

end
