(* ===== verification/Calc_Token.thy ===== *)
theory Calc_Token
  imports Input_Stream
begin

text \<open>
  The tokens of the calculator (\<^verbatim>\<open>src/Parsers/Calculator/Calculator.cpp\<close>): a kind and an unnamed union
  of a number and a string. The active member of the union is part of the model; reading the
  other one is a fault. The token stream and the calculator use a token by its \<open>content\<close>, which
  the copies and assignments here are shown to carry over.

  Numbers (\<^verbatim>\<open>double\<close>) are a type parameter \<open>'d\<close> with the operations of \<open>arith\<close>.
\<close>

datatype tkind =
    Number_Kind
  | Quit_Kind
  | Print_Kind
  | Name_Kind
  | Let_Kind
  | OpenParen
  | CloseParen
  | Plus
  | Minus
  | Multiply
  | Div
  | Modulus
  | Equals

text \<open>
  The operations of \<^verbatim>\<open>double\<close> the program uses: \<open>d_int\<close> is the conversion to \<^verbatim>\<open>int\<close>, undefined when
  the truncated value is out of range; \<open>d_parse\<close> is what the conversion of a text
  stores, and whether it fails: 0 for what is no literal, the largest value for one out of range.
\<close>

record 'd arith =
  d_zero :: 'd
  d_add :: "'d \<Rightarrow> 'd \<Rightarrow> 'd"
  d_sub :: "'d \<Rightarrow> 'd \<Rightarrow> 'd"
  d_mul :: "'d \<Rightarrow> 'd \<Rightarrow> 'd"
  d_div :: "'d \<Rightarrow> 'd \<Rightarrow> 'd"
  d_neg :: "'d \<Rightarrow> 'd"
  d_eq :: "'d \<Rightarrow> 'd \<Rightarrow> bool"
  d_int :: "'d \<Rightarrow> int option"
  d_of_int :: "int \<Rightarrow> 'd"
  d_parse :: "string \<Rightarrow> 'd \<times> bool"

text \<open>Whole numbers in place of \<^verbatim>\<open>double\<close>, for the examples.\<close>

definition int_arith :: "int arith" where
  "int_arith = \<lparr>d_zero = 0, d_add = (+), d_sub = (-), d_mul = (*), d_div = (div), d_neg = uminus,
     d_eq = (=), d_int = Some, d_of_int = id,
     d_parse = (\<lambda>s. (foldl (\<lambda>v c. 10 * v + (of_char c - 48)) 0 s, False))\<rparr>"

section \<open>The union\<close>

datatype 'd member =
    Value_Member 'd
  | Name_Member string
  | No_Member

record 'd raw_token =
  rt_kind :: tkind
  rt_union :: "'d member"

definition kind_raw :: "'d arith \<Rightarrow> tkind \<Rightarrow> 'd raw_token" where
  "kind_raw A k = \<lparr>rt_kind = k, rt_union = Value_Member (d_zero A)\<rparr>"

definition value_raw :: "'d \<Rightarrow> 'd raw_token" where
  "value_raw v = \<lparr>rt_kind = Number_Kind, rt_union = Value_Member v\<rparr>"

definition name_raw :: "string \<Rightarrow> 'd raw_token" where
  "name_raw n = \<lparr>rt_kind = Name_Kind, rt_union = Name_Member n\<rparr>"

definition raw_value :: "'d raw_token \<Rightarrow> fault + 'd" where
  "raw_value t = (case rt_union t of Value_Member v \<Rightarrow> Inr v | _ \<Rightarrow> Inl Uninitialised)"

definition raw_name :: "'d raw_token \<Rightarrow> fault + string" where
  "raw_name t = (case rt_union t of Name_Member n \<Rightarrow> Inr n | _ \<Rightarrow> Inl Uninitialised)"

text \<open>
  \<open>copyUnion\<close> (and \<open>moveUnion\<close>, which differs in what is left of the source) writes the member of
  the source's kind over \<open>dst\<close>. A live string may only be written by assignment, never by
  placement new.
\<close>

definition copy_union :: "'d raw_token \<Rightarrow> 'd member \<Rightarrow> fault + 'd member" where
  "copy_union t dst = (case rt_kind t of
       Number_Kind \<Rightarrow> bnd (raw_value t) (\<lambda>v. Inr (Value_Member v))
     | Name_Kind \<Rightarrow> bnd (raw_name t) (\<lambda>n. Inr (Name_Member n))
     | _ \<Rightarrow> Inr dst)"

definition copy_raw :: "'d raw_token \<Rightarrow> fault + 'd raw_token" where
  "copy_raw t = bnd (copy_union t No_Member) (\<lambda>u. Inr \<lparr>rt_kind = rt_kind t, rt_union = u\<rparr>)"

definition destroy_name :: "'d member \<Rightarrow> fault + 'd member" where
  "destroy_name u = (case u of Name_Member n \<Rightarrow> Inr No_Member | _ \<Rightarrow> Inl Uninitialised)"

definition assign_raw :: "'d raw_token \<Rightarrow> 'd raw_token \<Rightarrow> fault + 'd raw_token" where
  "assign_raw lhs rhs =
     bnd (if rt_kind lhs = Name_Kind \<and> rt_kind rhs \<noteq> Name_Kind
          then destroy_name (rt_union lhs) else Inr (rt_union lhs)) (\<lambda>u.
     bnd (if rt_kind lhs = Name_Kind \<and> rt_kind rhs = Name_Kind
          then bnd (raw_name lhs) (\<lambda>_. bnd (raw_name rhs) (\<lambda>n. Inr (Name_Member n)))
          else copy_union rhs u) (\<lambda>u'.
     Inr \<lparr>rt_kind = rt_kind rhs, rt_union = u'\<rparr>))"

definition destroy_raw :: "'d raw_token \<Rightarrow> fault + unit" where
  "destroy_raw t = (if rt_kind t = Name_Kind
     then bnd (destroy_name (rt_union t)) (\<lambda>_. Inr ()) else Inr ())"

definition raw_eq :: "'d arith \<Rightarrow> 'd raw_token \<Rightarrow> 'd raw_token \<Rightarrow> fault + bool" where
  "raw_eq A l r =
     (if rt_kind l = Number_Kind then
        if rt_kind l = rt_kind r then bnd (raw_value l) (\<lambda>v. bnd (raw_value r) (\<lambda>w. Inr (d_eq A v w)))
        else Inr False
      else if rt_kind l = Name_Kind then
        if rt_kind l = rt_kind r then bnd (raw_name l) (\<lambda>v. bnd (raw_name r) (\<lambda>w. Inr (v = w)))
        else Inr False
      else Inr (rt_kind l = rt_kind r))"

section \<open>Content\<close>

datatype 'd ctok =
    Num 'd
  | Nam string
  | Tok tkind

definition content :: "'d raw_token \<Rightarrow> 'd ctok option" where
  "content t = (case rt_kind t of
       Number_Kind \<Rightarrow> (case rt_union t of Value_Member v \<Rightarrow> Some (Num v) | _ \<Rightarrow> None)
     | Name_Kind \<Rightarrow> (case rt_union t of Name_Member n \<Rightarrow> Some (Nam n) | _ \<Rightarrow> None)
     | k \<Rightarrow> (case rt_union t of Name_Member n \<Rightarrow> None | _ \<Rightarrow> Some (Tok k)))"

fun ckind :: "'d ctok \<Rightarrow> tkind" where
  "ckind (Num v) = Number_Kind"
| "ckind (Nam n) = Name_Kind"
| "ckind (Tok k) = k"

fun ctok_eq :: "'d arith \<Rightarrow> 'd ctok \<Rightarrow> 'd ctok \<Rightarrow> bool" where
  "ctok_eq A (Num v) (Num w) = d_eq A v w"
| "ctok_eq A (Nam v) (Nam w) = (v = w)"
| "ctok_eq A s t = (ckind s = ckind t)"

text \<open>A token whose active member fits its kind has a content; \<open>Tok\<close> is only of the other kinds.\<close>

lemma content_cases:
  assumes "content t = Some c"
  obtains (num) v where "c = Num v" and "t = value_raw v"
  | (nam) n where "c = Nam n" and "t = name_raw n"
  | (tok) k u where "c = Tok k" and "k \<noteq> Number_Kind" and "k \<noteq> Name_Kind"
      and "t = \<lparr>rt_kind = k, rt_union = u\<rparr>" and "\<And>n. u \<noteq> Name_Member n"
  using assms
  by (cases t; cases "rt_kind t"; cases "rt_union t") (auto simp: content_def value_raw_def name_raw_def)

lemma raw_contents [simp]:
  "content (value_raw v) = Some (Num v)"
  "content (name_raw n) = Some (Nam n)"
  "k \<noteq> Number_Kind \<Longrightarrow> k \<noteq> Name_Kind \<Longrightarrow> content (kind_raw A k) = Some (Tok k)"
  by (simp_all add: content_def value_raw_def name_raw_def kind_raw_def split: tkind.split)

lemma copy_union_content:
  assumes "content t = Some c" and "\<And>n. u \<noteq> Name_Member n"
  obtains u' where "copy_union t u = Inr u'" and "content \<lparr>rt_kind = rt_kind t, rt_union = u'\<rparr> = Some c"
  using assms(1)
proof (cases rule: content_cases)
  case (tok k v)
  then show thesis
    using that [of u] assms(2)
    by (cases k; cases u) (auto simp: copy_union_def content_def)
qed (auto intro!: that simp: copy_union_def value_raw_def name_raw_def raw_value_def raw_name_def content_def)

text \<open>C34 (Union discipline of tokens). Where the active member of a token fits its kind, copying it,
  assigning it to any such token and destroying it never touch the wrong member, copy and
  assignment carry the content over, and comparison is comparison of contents.\<close>

theorem token_union_discipline:
  assumes "content l = Some c" and "content r = Some d"
  shows "\<exists>l' r'. copy_raw r = Inr r' \<and> content r' = Some d \<and>
    assign_raw l r = Inr l' \<and> content l' = Some d \<and>
    destroy_raw l' = Inr () \<and> raw_eq A l r = Inr (ctok_eq A c d)"
proof -
  obtain u where u: "copy_union r No_Member = Inr u" "content \<lparr>rt_kind = rt_kind r, rt_union = u\<rparr> = Some d"
    by (rule copy_union_content [OF assms(2)]) auto
  have assign: "\<exists>l'. assign_raw l r = Inr l' \<and> content l' = Some d"
    using assms(1)
  proof (cases rule: content_cases)
    case (num v)
    obtain u' where "copy_union r (Value_Member v) = Inr u'"
      "content \<lparr>rt_kind = rt_kind r, rt_union = u'\<rparr> = Some d"
      by (rule copy_union_content [OF assms(2), of "Value_Member v"]) auto
    with num show ?thesis by (simp add: assign_raw_def value_raw_def)
  next
    case (nam n)
    show ?thesis
    proof (cases "rt_kind r = Name_Kind")
      case True
      with assms(2) nam show ?thesis
        by (cases rule: content_cases)
          (auto simp: assign_raw_def name_raw_def value_raw_def raw_name_def content_def)
    next
      case False
      with nam u show ?thesis by (simp add: assign_raw_def name_raw_def destroy_name_def)
    qed
  next
    case (tok k v)
    obtain u' where "copy_union r v = Inr u'"
      "content \<lparr>rt_kind = rt_kind r, rt_union = u'\<rparr> = Some d"
      by (rule copy_union_content [OF assms(2) tok(5)])
    with tok show ?thesis by (simp add: assign_raw_def)
  qed
  then obtain l' where l': "assign_raw l r = Inr l'" "content l' = Some d" by blast
  then have "destroy_raw l' = Inr ()"
    by (cases rule: content_cases [OF l'(2)])
      (auto simp: destroy_raw_def value_raw_def name_raw_def destroy_name_def)
  moreover have "raw_eq A l r = Inr (ctok_eq A c d)"
    by (cases rule: content_cases [OF assms(1)]; cases rule: content_cases [OF assms(2)])
      (auto simp: raw_eq_def value_raw_def name_raw_def raw_value_def raw_name_def)
  ultimately show ?thesis
    using u l' by (auto simp: copy_raw_def)
qed

theorem token_union_discipline_witness:
  "\<exists>l'. assign_raw (name_raw ''x'') (kind_raw int_arith Plus) = Inr l' \<and>
    content l' = Some (Tok Plus) \<and> destroy_raw l' = Inr ()"
  using token_union_discipline [of "name_raw ''x''" "Nam ''x''"
      "kind_raw int_arith Plus" "Tok Plus" int_arith]
  by auto

end
