(* ===== verification/Calculator.thy ===== *)
theory Calculator
  imports Calc_Token "HOL-Library.Signed_Division"
begin

text \<open>
  The calculator (\<^verbatim>\<open>src/Parsers/Calculator/Calculator.cpp\<close>): its token stream, the variables, the
  recursive-descent evaluator and the loop of \<^verbatim>\<open>run\<close>. An exception keeps the state reached so far
  (\<^verbatim>\<open>run\<close> goes on from it), so a computation gives a result or an error together with the state.
  The mutual recursion of the evaluator is by fuel; running out of it is the fault \<^const>\<open>Diverges\<close>.
\<close>

datatype cerror =
    Bad_Token
  | Full_Buffer
  | Redefinition
  | Undefined_Set
  | Undefined_Get
  | Name_Expected
  | Equals_Missing
  | Divide_By_Zero
  | Modulus_By_Zero
  | Paren_Expected
  | Primary_Expected
  | CFault fault

fun sbnd :: "('e + 'a) \<times> 's \<Rightarrow> ('a \<Rightarrow> 's \<Rightarrow> ('e + 'b) \<times> 's) \<Rightarrow> ('e + 'b) \<times> 's" where
  "sbnd (Inl e, s) f = (Inl e, s)"
| "sbnd (Inr x, s) f = f x s"

lemma sbnd_cong [fundef_cong]:
  "m = m' \<Longrightarrow> (\<And>x s. m' = (Inr x, s) \<Longrightarrow> f x s = f' x s) \<Longrightarrow> sbnd m f = sbnd m' f'"
  by (cases m'; cases "fst m'") auto

lemma sbnd_Inr_iff: "sbnd m f = (Inr y, s') \<longleftrightarrow> (\<exists>x s. m = (Inr x, s) \<and> f x s = (Inr y, s'))"
  by (cases m; cases "fst m") auto

section \<open>Token stream\<close>

record 'd cstream =
  cs_source :: istream
  cs_full :: bool
  cs_buffer :: "'d ctok"

definition new_cstream :: "'d arith \<Rightarrow> istream \<Rightarrow> 'd cstream" where
  "new_cstream A src = \<lparr>cs_source = src, cs_full = False, cs_buffer = Num (d_zero A)\<rparr>"

definition cstream_good :: "'d cstream \<Rightarrow> bool" where
  "cstream_good ts \<longleftrightarrow> good (cs_source ts) \<and> \<not> failbit (cs_source ts)"

text \<open>
  \<^verbatim>\<open>source >> ch\<close> skips white space; where it fails, \<^verbatim>\<open>ch\<close> has no value.
\<close>

definition read_char :: "istream \<Rightarrow> char option \<times> istream" where
  "read_char s =
     (if good s then
        (case dropWhile is_space (rest s) of
           [] \<Rightarrow> (None, s\<lparr>rest := [], eofbit := True, failbit := True\<rparr>)
         | c # cs \<Rightarrow> (Some c, s\<lparr>rest := cs\<rparr>))
      else (None, s\<lparr>failbit := True\<rparr>))"

text \<open>
  \<^verbatim>\<open>source >> val\<close>: the characters of a floating-point literal (at most one point, before an exponent;
  an exponent only behind a digit, with an optional sign). Where their conversion fails, the stream
  has failed, and \<^verbatim>\<open>val\<close> has what the conversion stores.
\<close>

fun take_float :: "bool \<Rightarrow> bool \<Rightarrow> bool \<Rightarrow> string \<Rightarrow> string" where
  "take_float mant dec sci [] = []"
| "take_float mant dec sci (c # cs) =
     (if is_digit c then c # take_float True dec sci cs
      else if c = CHR ''.'' \<and> \<not> dec \<and> \<not> sci then c # take_float mant True sci cs
      else if (c = CHR ''e'' \<or> c = CHR ''E'') \<and> \<not> sci \<and> mant then
        (case cs of
           [] \<Rightarrow> [c]
         | sign # cs' \<Rightarrow>
             if sign = CHR ''+'' \<or> sign = CHR ''-'' then c # sign # take_float mant dec True cs'
             else c # take_float mant dec True (sign # cs'))
      else [])"

definition read_double :: "'d arith \<Rightarrow> istream \<Rightarrow> 'd \<times> istream" where
  "read_double A s =
     (let ds = take_float False False False (rest s); cs = drop (length ds) (rest s);
          s' = s\<lparr>rest := cs, eofbit := (cs = [])\<rparr> in
      case d_parse A ds of (v, failed) \<Rightarrow> (v, if failed then s'\<lparr>failbit := True\<rparr> else s'))"

definition is_symbol :: "char \<Rightarrow> tkind option" where
  "is_symbol c =
     (if c = CHR ''('' then Some OpenParen else if c = CHR '')'' then Some CloseParen
      else if c = CHR ''+'' then Some Plus else if c = CHR ''-'' then Some Minus
      else if c = CHR ''*'' then Some Multiply else if c = CHR ''/'' then Some Div
      else if c = CHR ''%'' then Some Modulus else if c = CHR ''='' then Some Equals else None)"

definition is_word_char :: "char \<Rightarrow> bool" where
  "is_word_char c \<longleftrightarrow> is_alpha c \<or> is_digit c \<or> c = CHR ''_''"

definition read_token :: "'d arith \<Rightarrow> istream \<Rightarrow> (cerror + 'd ctok) \<times> istream" where
  "read_token A s =
     (case read_char s of
        (None, s1) \<Rightarrow> (Inl (CFault Uninitialised), s1)
      | (Some c, s1) \<Rightarrow>
          if c = CHR '';'' then (Inr (Tok Print_Kind), s1)
          else (case is_symbol c of Some k \<Rightarrow> (Inr (Tok k), s1) | None \<Rightarrow>
            if c = CHR ''.'' \<or> is_digit c then
              (let (v, s2) = read_double A (putback_ch c s1) in (Inr (Num v), s2))
            else if is_alpha c then
              (case get_while is_word_char c s1 of (cs, ch, s2) \<Rightarrow>
                 let s3 = putback_ch ch s2; w = c # cs in
                 if w = ''let'' then (Inr (Tok Let_Kind), s3)
                 else if w = ''quit'' then (Inr (Tok Quit_Kind), s3)
                 else (Inr (Nam w), s3))
            else (Inl Bad_Token, s1)))"

definition get_token :: "'d arith \<Rightarrow> 'd cstream \<Rightarrow> (cerror + 'd ctok) \<times> 'd cstream" where
  "get_token A ts =
     (if cs_full ts then (Inr (cs_buffer ts), ts\<lparr>cs_full := False\<rparr>)
      else (case read_token A (cs_source ts) of (r, src) \<Rightarrow> (r, ts\<lparr>cs_source := src\<rparr>)))"

definition putback_token :: "'d ctok \<Rightarrow> 'd cstream \<Rightarrow> (cerror + unit) \<times> 'd cstream" where
  "putback_token t ts =
     (if cs_full ts then (Inl Full_Buffer, ts)
      else (Inr (), ts\<lparr>cs_buffer := t, cs_full := True\<rparr>))"

text \<open>The loops of \<open>ignore\<close>: they end at a token equal to \<open>t\<close>, or by an exception.\<close>

fun ignore_until :: "nat \<Rightarrow> 'd arith \<Rightarrow> 'd ctok \<Rightarrow> 'd cstream \<Rightarrow> (cerror + unit) \<times> 'd cstream" where
  "ignore_until 0 A t ts = (Inl (CFault Diverges), ts)"
| "ignore_until (Suc n) A t ts = sbnd (get_token A ts) (\<lambda>tok ts'.
     if ctok_eq A tok t then (Inr (), ts') else ignore_until n A t ts')"

definition ignore_tok :: "nat \<Rightarrow> 'd arith \<Rightarrow> 'd ctok \<Rightarrow> 'd cstream \<Rightarrow> (cerror + unit) \<times> 'd cstream" where
  "ignore_tok n A t ts =
     (if cs_full ts \<and> ctok_eq A t (cs_buffer ts) then (Inr (), ts\<lparr>cs_full := False\<rparr>)
      else ignore_until n A t (ts\<lparr>cs_full := False\<rparr>))"

definition ignore_ckind :: "nat \<Rightarrow> 'd arith \<Rightarrow> tkind \<Rightarrow> 'd cstream \<Rightarrow> (cerror + unit) \<times> 'd cstream" where
  "ignore_ckind n A k ts =
     (if cs_full ts \<and> ckind (cs_buffer ts) = k then (Inr (), ts\<lparr>cs_full := False\<rparr>)
      else ignore_until n A (if k = Number_Kind then Num (d_zero A) else Tok k) (ts\<lparr>cs_full := False\<rparr>))"

section \<open>Variables\<close>

type_synonym 'd varmap = "string \<rightharpoonup> 'd"

definition define_variable :: "string \<Rightarrow> 'd \<Rightarrow> 'd varmap \<Rightarrow> (cerror + 'd) \<times> 'd varmap" where
  "define_variable name v m = (case m name of
       None \<Rightarrow> (Inr v, m(name \<mapsto> v)) | Some _ \<Rightarrow> (Inl Redefinition, m))"

definition set_variable :: "string \<Rightarrow> 'd \<Rightarrow> 'd varmap \<Rightarrow> (cerror + 'd) \<times> 'd varmap" where
  "set_variable name v m = (case m name of
       Some _ \<Rightarrow> (Inr v, m(name \<mapsto> v)) | None \<Rightarrow> (Inl Undefined_Set, m))"

definition get_variable :: "string \<Rightarrow> 'd varmap \<Rightarrow> cerror + 'd" where
  "get_variable name m = (case m name of Some v \<Rightarrow> Inr v | None \<Rightarrow> Inl Undefined_Get)"

section \<open>The evaluator\<close>

text \<open>
  The evaluator reads the variables and changes the token stream only. \<open>modulus\<close> is the case of
  \<^verbatim>\<open>%\<close>: the left operand is converted first, the right one is a whole term.
\<close>

definition to_int :: "'d arith \<Rightarrow> 'd \<Rightarrow> cerror + int" where
  "to_int A v = (case d_int A v of Some i \<Rightarrow> Inr i | None \<Rightarrow> Inl (CFault Signed_Overflow))"

definition modulus :: "'d arith \<Rightarrow> int \<Rightarrow> int \<Rightarrow> cerror + 'd" where
  "modulus A i1 i2 =
     (if i2 = 0 then Inl Modulus_By_Zero
      else if i1 = int_min \<and> i2 = - 1 then Inl (CFault Signed_Overflow)
      else Inr (d_of_int A (i1 smod i2)))"

definition lift :: "'e + 'a \<Rightarrow> 's \<Rightarrow> ('e + 'a) \<times> 's" where
  "lift r s = (r, s)"

text \<open>
  Each function of the grammar is written over the functions it calls; \<open>parse\<close> ties them, one
  unit of fuel per call. The loops of \<^verbatim>\<open>expression\<close> and \<^verbatim>\<open>term\<close> carry the value so far.
\<close>

type_synonym 'd eval = "'d cstream \<Rightarrow> (cerror + 'd) \<times> 'd cstream"

definition expression_body :: "'d eval \<Rightarrow> ('d \<Rightarrow> 'd eval) \<Rightarrow> 'd eval" where
  "expression_body term loop ts = sbnd (term ts) loop"

definition expression_loop_body ::
  "'d arith \<Rightarrow> 'd eval \<Rightarrow> ('d \<Rightarrow> 'd eval) \<Rightarrow> 'd \<Rightarrow> 'd eval" where
  "expression_loop_body A term loop left ts = sbnd (get_token A ts) (\<lambda>t ts1.
     if ckind t = Plus then sbnd (term ts1) (\<lambda>r. loop (d_add A left r))
     else if ckind t = Minus then sbnd (term ts1) (\<lambda>r. loop (d_sub A left r))
     else sbnd (putback_token t ts1) (\<lambda>_ ts2. (Inr left, ts2)))"

definition term_body :: "'d eval \<Rightarrow> ('d \<Rightarrow> 'd eval) \<Rightarrow> 'd eval" where
  "term_body primary loop ts = sbnd (primary ts) loop"

definition term_loop_body ::
  "'d arith \<Rightarrow> 'd eval \<Rightarrow> 'd eval \<Rightarrow> ('d \<Rightarrow> 'd eval) \<Rightarrow> 'd \<Rightarrow> 'd eval" where
  "term_loop_body A primary term loop left ts = sbnd (get_token A ts) (\<lambda>t ts1.
     if ckind t = Multiply then sbnd (primary ts1) (\<lambda>r. loop (d_mul A left r))
     else if ckind t = Div then
       sbnd (primary ts1) (\<lambda>d ts2.
         if d_eq A d (d_zero A) then (Inl Divide_By_Zero, ts2) else loop (d_div A left d) ts2)
     else if ckind t = Modulus then
       sbnd (lift (to_int A left) ts1) (\<lambda>i1 ts2.
       sbnd (term ts2) (\<lambda>r ts3.
       sbnd (lift (to_int A r) ts3) (\<lambda>i2 ts4.
       sbnd (lift (modulus A i1 i2) ts4) loop)))
     else sbnd (putback_token t ts1) (\<lambda>_ ts2. (Inr left, ts2)))"

definition primary_body :: "'d arith \<Rightarrow> 'd varmap \<Rightarrow> 'd eval \<Rightarrow> 'd eval \<Rightarrow> 'd eval" where
  "primary_body A m expression primary ts = sbnd (get_token A ts) (\<lambda>t ts1.
     case t of
       Num v \<Rightarrow> (Inr v, ts1)
     | Nam x \<Rightarrow> lift (get_variable x m) ts1
     | Tok k \<Rightarrow>
         if k = OpenParen then
           sbnd (expression ts1) (\<lambda>d ts2.
           sbnd (get_token A ts2) (\<lambda>t2 ts3.
             if ckind t2 \<noteq> CloseParen then (Inl Paren_Expected, ts3) else (Inr d, ts3)))
         else if k = Minus then sbnd (primary ts1) (\<lambda>d ts2. (Inr (d_neg A d), ts2))
         else if k = Plus then primary ts1
         else (Inl Primary_Expected, ts1))"

datatype 'd grammar_symbol =
    Expression
  | Expression_Loop 'd
  | Term
  | Term_Loop 'd
  | Primary

primrec parse :: "nat \<Rightarrow> 'd arith \<Rightarrow> 'd varmap \<Rightarrow> 'd grammar_symbol \<Rightarrow> 'd eval" where
  "parse 0 A m nt = (\<lambda>ts. (Inl (CFault Diverges), ts))"
| "parse (Suc n) A m nt = (case nt of
     Expression \<Rightarrow>
       expression_body (parse n A m Term) (\<lambda>v. parse n A m (Expression_Loop v))
   | Expression_Loop left \<Rightarrow>
       expression_loop_body A (parse n A m Term) (\<lambda>v. parse n A m (Expression_Loop v)) left
   | Term \<Rightarrow>
       term_body (parse n A m Primary) (\<lambda>v. parse n A m (Term_Loop v))
   | Term_Loop left \<Rightarrow>
       term_loop_body A (parse n A m Primary) (parse n A m Term) (\<lambda>v. parse n A m (Term_Loop v)) left
   | Primary \<Rightarrow>
       primary_body A m (parse n A m Expression) (parse n A m Primary))"

definition calc_expression :: "nat \<Rightarrow> 'd arith \<Rightarrow> 'd varmap \<Rightarrow> 'd eval" where
  "calc_expression n A m = parse n A m Expression"

section \<open>Statements and the loop of \<open>run\<close>\<close>

record 'd calculator =
  c_vars :: "'d varmap"
  c_ts :: "'d cstream"

definition on_ts ::
  "('d cstream \<Rightarrow> (cerror + 'a) \<times> 'd cstream) \<Rightarrow> 'd calculator \<Rightarrow> (cerror + 'a) \<times> 'd calculator" where
  "on_ts f c = (case f (c_ts c) of (r, ts) \<Rightarrow> (r, c\<lparr>c_ts := ts\<rparr>))"

definition calc_declaration :: "nat \<Rightarrow> 'd arith \<Rightarrow> 'd calculator \<Rightarrow> (cerror + 'd) \<times> 'd calculator" where
  "calc_declaration n A c = sbnd (on_ts (get_token A) c) (\<lambda>t c1.
     case t of
       Nam name \<Rightarrow> sbnd (on_ts (get_token A) c1) (\<lambda>t2 c2.
         if ckind t2 \<noteq> Equals then (Inl Equals_Missing, c2)
         else sbnd (on_ts (calc_expression n A (c_vars c2)) c2) (\<lambda>d c3.
           case define_variable name d (c_vars c3) of (r, m) \<Rightarrow> (r, c3\<lparr>c_vars := m\<rparr>)))
     | _ \<Rightarrow> (Inl Name_Expected, c1))"

definition calc_statement :: "nat \<Rightarrow> 'd arith \<Rightarrow> 'd calculator \<Rightarrow> (cerror + 'd) \<times> 'd calculator" where
  "calc_statement n A c = sbnd (on_ts (get_token A) c) (\<lambda>t c1.
     if ckind t = Let_Kind then calc_declaration n A c1
     else sbnd (on_ts (putback_token t) c1) (\<lambda>_ c2. on_ts (calc_expression n A (c_vars c2)) c2))"

text \<open>What the calculator prints: the prompt, the result sign, a value, the text of an exception.\<close>

datatype 'd event =
    Prompt
  | Result_Sign
  | Value 'd
  | Message cerror

fun skip_prints :: "nat \<Rightarrow> 'd arith \<Rightarrow> 'd cstream \<Rightarrow> (cerror + 'd ctok) \<times> 'd cstream" where
  "skip_prints 0 A ts = (Inl (CFault Diverges), ts)"
| "skip_prints (Suc n) A ts = sbnd (get_token A ts) (\<lambda>t ts1.
     if ckind t = Print_Kind then skip_prints n A ts1 else (Inr t, ts1))"

text \<open>One round of the loop, the body of the \<^verbatim>\<open>try\<close> block: whether \<^verbatim>\<open>quit\<close> was read, or an error.\<close>

definition run_body ::
  "nat \<Rightarrow> 'd arith \<Rightarrow> 'd calculator \<Rightarrow> 'd event list \<times> (cerror + bool) \<times> 'd calculator" where
  "run_body n A c = (case on_ts (skip_prints n A) c of
       (Inl e, c1) \<Rightarrow> ([Prompt], Inl e, c1)
     | (Inr t, c1) \<Rightarrow>
         if ckind t = Quit_Kind then ([Prompt], Inr True, c1)
         else (case on_ts (putback_token t) c1 of
             (Inl e, c2) \<Rightarrow> ([Prompt], Inl e, c2)
           | (Inr _, c2) \<Rightarrow> (case calc_statement n A c2 of
                 (Inl e, c3) \<Rightarrow> ([Prompt, Result_Sign], Inl e, c3)
               | (Inr d, c3) \<Rightarrow> ([Prompt, Result_Sign, Value d], Inr False, c3))))"

text \<open>
  The handler skips to the next \<^verbatim>\<open>;\<close>; an exception in there leaves \<^verbatim>\<open>run\<close>. A fault is no exception.
\<close>

fun run :: "nat \<Rightarrow> 'd arith \<Rightarrow> 'd calculator \<Rightarrow> 'd event list \<times> (cerror + unit) \<times> 'd calculator" where
  "run 0 A c = ([], Inl (CFault Diverges), c)"
| "run (Suc n) A c =
     (if \<not> cstream_good (c_ts c) then ([], Inr (), c)
      else (case run_body n A c of
          (es, Inr True, c1) \<Rightarrow> (es, Inr (), c1)
        | (es, Inr False, c1) \<Rightarrow> (case run n A c1 of (es', r, c2) \<Rightarrow> (es @ es', r, c2))
        | (es, Inl (CFault f), c1) \<Rightarrow> (es, Inl (CFault f), c1)
        | (es, Inl e, c1) \<Rightarrow> (case on_ts (ignore_ckind n A Print_Kind) c1 of
              (Inl e', c2) \<Rightarrow> (es @ [Message e], Inl e', c2)
            | (Inr _, c2) \<Rightarrow> (case run n A c2 of (es', r, c3) \<Rightarrow> (es @ [Message e] @ es', r, c3)))))"

text \<open>The constructor defines two variables; their values are the literals of the source.\<close>

definition predefined_variables :: "'d arith \<Rightarrow> 'd varmap" where
  "predefined_variables A =
     snd (define_variable ''e'' (fst (read_double A (of_string ''2.7182818284'')))
       (snd (define_variable ''Pi'' (fst (read_double A (of_string ''3.1415926535''))) Map.empty)))"

definition new_calculator :: "'d arith \<Rightarrow> istream \<Rightarrow> 'd calculator" where
  "new_calculator A src = \<lparr>c_vars = predefined_variables A, c_ts = new_cstream A src\<rparr>"

end
