(* ===== verification/Calculator_Laws.thy ===== *)
theory Calculator_Laws
  imports Calculator
begin

text \<open>
  The calculator's token stream keeps one token of push-back, and the evaluator agrees with the
  value of the syntax tree whose tokens it reads.
\<close>

section \<open>The token stream\<close>

definition value_of :: "('e + 'a) \<times> 's \<Rightarrow> 'e + ('a \<times> 's)" where
  "value_of r = (case fst r of Inl e \<Rightarrow> Inl e | Inr x \<Rightarrow> Inr (x, snd r))"

definition cstream_view :: "'d cstream \<Rightarrow> 'd ctok option \<times> istream" where
  "cstream_view ts = (if cs_full ts then Some (cs_buffer ts) else None, cs_source ts)"

interpretation calc_ts: token_stream "\<lambda>ts. value_of (get_token A ts)"
  "\<lambda>t ts. bnd (value_of (putback_token t ts)) (\<lambda>(_, ts'). Inr ts')" cstream_view
  "\<lambda>src. value_of (read_token A src)" Full_Buffer for A
proof (unfold_locales, goal_cases)
  case (2 s v t v')
  then show ?case
    by (intro exI [of _ "s\<lparr>cs_source := v'\<rparr>"])
      (auto simp: value_of_def get_token_def cstream_view_def split: if_splits prod.splits sum.splits)
qed (auto simp: value_of_def get_token_def putback_token_def cstream_view_def
      split: if_splits prod.splits sum.splits)

section \<open>Syntax trees and their values\<close>

text \<open>
  The syntax the functions accept. A \<^verbatim>\<open>%\<close> takes the whole rest of the term as its right operand.
\<close>

datatype 'd cprim =
    PNum 'd
  | PVar string
  | PParen "'d cexpr"
  | PNeg "'d cprim"
  | PPos "'d cprim"
and 'd cterm = CTerm "'d cprim" "'d ttail"
and 'd ttail =
    TEnd
  | TMul "'d cprim" "'d ttail"
  | TDiv "'d cprim" "'d ttail"
  | TMod "'d cterm"
and 'd cexpr = CExpr "'d cterm" "'d etail"
and 'd etail =
    EEnd
  | EPlus "'d cterm" "'d etail"
  | EMinus "'d cterm" "'d etail"

primrec prim_toks :: "'d cprim \<Rightarrow> 'd ctok list"
  and term_toks :: "'d cterm \<Rightarrow> 'd ctok list"
  and ttail_toks :: "'d ttail \<Rightarrow> 'd ctok list"
  and expr_toks :: "'d cexpr \<Rightarrow> 'd ctok list"
  and etail_toks :: "'d etail \<Rightarrow> 'd ctok list" where
  "prim_toks (PNum v) = [Num v]"
| "prim_toks (PVar x) = [Nam x]"
| "prim_toks (PParen e) = Tok OpenParen # expr_toks e @ [Tok CloseParen]"
| "prim_toks (PNeg p) = Tok Minus # prim_toks p"
| "prim_toks (PPos p) = Tok Plus # prim_toks p"
| "term_toks (CTerm p r) = prim_toks p @ ttail_toks r"
| "ttail_toks TEnd = []"
| "ttail_toks (TMul p r) = Tok Multiply # prim_toks p @ ttail_toks r"
| "ttail_toks (TDiv p r) = Tok Div # prim_toks p @ ttail_toks r"
| "ttail_toks (TMod t) = Tok Modulus # term_toks t"
| "expr_toks (CExpr t r) = term_toks t @ etail_toks r"
| "etail_toks EEnd = []"
| "etail_toks (EPlus t r) = Tok Plus # term_toks t @ etail_toks r"
| "etail_toks (EMinus t r) = Tok Minus # term_toks t @ etail_toks r"

primrec prim_val :: "'d arith \<Rightarrow> 'd varmap \<Rightarrow> 'd cprim \<Rightarrow> cerror + 'd"
  and term_val :: "'d arith \<Rightarrow> 'd varmap \<Rightarrow> 'd cterm \<Rightarrow> cerror + 'd"
  and ttail_val :: "'d arith \<Rightarrow> 'd varmap \<Rightarrow> 'd ttail \<Rightarrow> 'd \<Rightarrow> cerror + 'd"
  and expr_val :: "'d arith \<Rightarrow> 'd varmap \<Rightarrow> 'd cexpr \<Rightarrow> cerror + 'd"
  and etail_val :: "'d arith \<Rightarrow> 'd varmap \<Rightarrow> 'd etail \<Rightarrow> 'd \<Rightarrow> cerror + 'd" where
  "prim_val A m (PNum v) = Inr v"
| "prim_val A m (PVar x) = get_variable x m"
| "prim_val A m (PParen e) = expr_val A m e"
| "prim_val A m (PNeg p) = bnd (prim_val A m p) (\<lambda>v. Inr (d_neg A v))"
| "prim_val A m (PPos p) = prim_val A m p"
| "term_val A m (CTerm p r) = bnd (prim_val A m p) (ttail_val A m r)"
| "ttail_val A m TEnd = (\<lambda>left. Inr left)"
| "ttail_val A m (TMul p r) = (\<lambda>left. bnd (prim_val A m p) (\<lambda>v. ttail_val A m r (d_mul A left v)))"
| "ttail_val A m (TDiv p r) = (\<lambda>left. bnd (prim_val A m p) (\<lambda>v.
     if d_eq A v (d_zero A) then Inl Divide_By_Zero else ttail_val A m r (d_div A left v)))"
| "ttail_val A m (TMod t) = (\<lambda>left. bnd (to_int A left) (\<lambda>i.
     bnd (term_val A m t) (\<lambda>v. bnd (to_int A v) (\<lambda>j. modulus A i j))))"
| "expr_val A m (CExpr t r) = bnd (term_val A m t) (etail_val A m r)"
| "etail_val A m EEnd = (\<lambda>left. Inr left)"
| "etail_val A m (EPlus t r) = (\<lambda>left. bnd (term_val A m t) (\<lambda>v. etail_val A m r (d_add A left v)))"
| "etail_val A m (EMinus t r) = (\<lambda>left. bnd (term_val A m t) (\<lambda>v. etail_val A m r (d_sub A left v)))"

section \<open>The evaluator computes the values\<close>

text \<open>\<open>reads A src toks\<close>: the source gives the tokens one after the other.\<close>

fun reads :: "'d arith \<Rightarrow> istream \<Rightarrow> 'd ctok list \<Rightarrow> bool" where
  "reads A src [] = True"
| "reads A src (t # toks) =
     (case read_token A src of (r, src') \<Rightarrow> r = Inr t \<and> reads A src' toks)"

definition shows_toks :: "'d arith \<Rightarrow> 'd cstream \<Rightarrow> 'd ctok list \<Rightarrow> bool" where
  "shows_toks A ts toks = (if cs_full ts
     then (case toks of [] \<Rightarrow> True | t # ts' \<Rightarrow> t = cs_buffer ts \<and> reads A (cs_source ts) ts')
     else reads A (cs_source ts) toks)"

lemma get_shown:
  assumes "shows_toks A ts (t # toks)"
  obtains ts' where "get_token A ts = (Inr t, ts')" and "\<not> cs_full ts'" and "shows_toks A ts' toks"
  using assms
  by (cases "cs_full ts"; cases "read_token A (cs_source ts)")
    (auto simp: shows_toks_def get_token_def)

lemma putback_shown:
  assumes "\<not> cs_full ts" and "shows_toks A ts toks"
  obtains ts' where "putback_token t ts = (Inr (), ts')" and "shows_toks A ts' (t # toks)"
  using assms by (auto simp: shows_toks_def putback_token_def)

definition agrees ::
  "'d arith \<Rightarrow> cerror + 'd \<Rightarrow> (cerror + 'd) \<times> 'd cstream \<Rightarrow> 'd ctok list \<Rightarrow> bool" where
  "agrees A r res toks = (case r of Inl e \<Rightarrow> fst res = Inl e
     | Inr v \<Rightarrow> fst res = Inr v \<and> shows_toks A (snd res) toks)"

lemma agrees_sbnd:
  assumes "agrees A r res toks"
    and "\<And>v ts. r = Inr v \<Longrightarrow> shows_toks A ts toks \<Longrightarrow> agrees A (f v) (g v ts) toks'"
  shows "agrees A (bnd r f) (sbnd res g) toks'"
  using assms by (cases r; cases res; cases "fst res") (auto simp: agrees_def)

lemma agrees_lift:
  "(\<And>v. r = Inr v \<Longrightarrow> agrees A (f v) (g v ts) toks) \<Longrightarrow> agrees A (bnd r f) (sbnd (lift r ts) g) toks"
  by (cases r) (auto simp: agrees_def lift_def)

lemma agrees_get:
  assumes "shows_toks A ts (t # toks)"
    and "\<And>ts'. \<not> cs_full ts' \<Longrightarrow> shows_toks A ts' toks \<Longrightarrow> agrees A r (f t ts') toks'"
  shows "agrees A r (sbnd (get_token A ts) f) toks'"
  by (rule get_shown [OF assms(1)]) (simp add: assms(2))

lemma agrees_stop:
  assumes "\<not> cs_full ts" and "shows_toks A ts toks"
  shows "agrees A (Inr left) (sbnd (putback_token t ts) (\<lambda>_ ts2. (Inr left, ts2))) (t # toks)"
  using assms by (rule putback_shown [of ts A toks t]) (simp add: agrees_def)

definition stops_term :: "'d ctok \<Rightarrow> bool" where
  "stops_term t \<longleftrightarrow> ckind t \<notin> {Multiply, Div, Modulus}"

definition stops_expr :: "'d ctok \<Rightarrow> bool" where
  "stops_expr t \<longleftrightarrow> stops_term t \<and> ckind t \<notin> {Plus, Minus}"

lemma prim_toks_pos: "Suc 0 \<le> length (prim_toks p)"
  by (cases p) simp_all

lemma term_toks_pos: "Suc 0 \<le> length (term_toks t)"
proof (cases t)
  case (CTerm p r)
  then show ?thesis using prim_toks_pos [of p] by simp
qed

text \<open>
  Four units of fuel per token are enough. A function stops in front of a token that cannot
  continue what it reads.
\<close>

lemma parse_agrees:
  "4 * length (prim_toks p) \<le> n \<Longrightarrow> shows_toks A ts (prim_toks p @ toks) \<Longrightarrow>
     agrees A (prim_val A m p) (parse n A m Primary ts) toks"
  "4 * length (term_toks t) < n \<Longrightarrow> stops_term u \<Longrightarrow> shows_toks A ts (term_toks t @ u # toks) \<Longrightarrow>
     agrees A (term_val A m t) (parse n A m Term ts) (u # toks)"
  "4 * length (ttail_toks r) < n \<Longrightarrow> stops_term u \<Longrightarrow> shows_toks A ts (ttail_toks r @ u # toks) \<Longrightarrow>
     agrees A (ttail_val A m r left) (parse n A m (Term_Loop left) ts) (u # toks)"
  "Suc (4 * length (expr_toks e)) < n \<Longrightarrow> stops_expr u \<Longrightarrow> shows_toks A ts (expr_toks e @ u # toks) \<Longrightarrow>
     agrees A (expr_val A m e) (parse n A m Expression ts) (u # toks)"
  "4 * length (etail_toks q) < n \<Longrightarrow> stops_expr u \<Longrightarrow> shows_toks A ts (etail_toks q @ u # toks) \<Longrightarrow>
     agrees A (etail_val A m q left) (parse n A m (Expression_Loop left) ts) (u # toks)"
proof (induction p and t and r and e and q
    arbitrary: n ts toks and n ts u toks and n ts u toks left and n ts u toks and n ts u toks left
    rule: cprim.induct cterm.induct ttail.induct cexpr.induct etail.induct)
  case (PNum v)
  then show ?case
    by (cases n) (auto simp: primary_body_def agrees_def elim!: get_shown)
next
  case (PVar x)
  then show ?case
    by (cases n) (auto simp: primary_body_def agrees_def lift_def elim!: get_shown split: sum.split)
next
  case (PParen e)
  then obtain n' where n: "n = Suc n'" by (cases n) auto
  have close: "agrees A (Inr d) (sbnd (get_token A ts2) (\<lambda>t2 ts3.
      if ckind t2 \<noteq> CloseParen then (Inl Paren_Expected, ts3) else (Inr d, ts3))) toks"
    if "shows_toks A ts2 (Tok CloseParen # toks)" for d ts2
    by (rule agrees_get [OF that]) (simp add: agrees_def)
  have bnd: "expr_val A m e = bnd (expr_val A m e) Inr"
    by (cases "expr_val A m e") simp_all
  show ?case
    unfolding n prim_val.simps parse.simps grammar_symbol.case primary_body_def
  proof (rule agrees_get)
    show "shows_toks A ts (Tok OpenParen # expr_toks e @ Tok CloseParen # toks)"
      using PParen.prems(2) by simp
  next
    fix ts'
    assume "shows_toks A ts' (expr_toks e @ Tok CloseParen # toks)"
    then have "agrees A (expr_val A m e) (parse n' A m Expression ts') (Tok CloseParen # toks)"
      using PParen.prems(1) n by (intro PParen.IH) (auto simp: stops_expr_def stops_term_def)
    from agrees_sbnd [OF this, of Inr] close bnd
    show "agrees A (expr_val A m e) (case Tok OpenParen of Num v \<Rightarrow> (Inr v, ts')
       | Nam x \<Rightarrow> lift (get_variable x m) ts'
       | Tok k \<Rightarrow> if k = OpenParen then
           sbnd (parse n' A m Expression ts') (\<lambda>d ts2. sbnd (get_token A ts2) (\<lambda>t2 ts3.
             if ckind t2 \<noteq> CloseParen then (Inl Paren_Expected, ts3) else (Inr d, ts3)))
         else if k = Minus then sbnd (parse n' A m Primary ts') (\<lambda>d ts2. (Inr (d_neg A d), ts2))
         else if k = Plus then parse n' A m Primary ts'
         else (Inl Primary_Expected, ts')) toks"
      by simp
  qed
next
  case (PNeg p)
  then obtain n' where n: "n = Suc n'" by (cases n) auto
  from PNeg.prems(2) obtain ts' where ts': "get_token A ts = (Inr (Tok Minus), ts')"
    "shows_toks A ts' (prim_toks p @ toks)"
    by (auto elim: get_shown)
  have "agrees A (prim_val A m p) (parse n' A m Primary ts') toks"
    using PNeg.prems(1) n ts'(2) by (intro PNeg.IH) auto
  then have "agrees A (bnd (prim_val A m p) (\<lambda>v. Inr (d_neg A v)))
      (sbnd (parse n' A m Primary ts') (\<lambda>d ts2. (Inr (d_neg A d), ts2))) toks"
    by (rule agrees_sbnd) (simp add: agrees_def)
  with n ts'(1) show ?case by (simp add: primary_body_def)
next
  case (PPos p)
  then obtain n' where n: "n = Suc n'" by (cases n) auto
  from PPos.prems(2) obtain ts' where ts': "get_token A ts = (Inr (Tok Plus), ts')"
    "shows_toks A ts' (prim_toks p @ toks)"
    by (auto elim: get_shown)
  have "agrees A (prim_val A m p) (parse n' A m Primary ts') toks"
    using PPos.prems(1) n ts'(2) by (intro PPos.IH) auto
  with n ts'(1) show ?case by (simp add: primary_body_def)
next
  case (CTerm p r)
  then obtain n' where n: "n = Suc n'" by (cases n) auto
  have "agrees A (prim_val A m p) (parse n' A m Primary ts) (ttail_toks r @ u # toks)"
    using CTerm.prems n by (intro CTerm.IH(1)) auto
  then show ?case
    using CTerm.prems(1,2) n prim_toks_pos [of p]
    by (auto simp: term_body_def intro!: agrees_sbnd CTerm.IH(2))
next
  case TEnd
  then obtain n' where n: "n = Suc n'" by (cases n) auto
  from TEnd.prems(3) obtain ts' where "get_token A ts = (Inr u, ts')" "\<not> cs_full ts'"
    "shows_toks A ts' toks"
    by (auto elim: get_shown)
  with agrees_stop [of ts' A toks left u] TEnd.prems(2) n show ?case
    by (simp add: term_loop_body_def stops_term_def)
next
  case (TMul p r)
  then obtain n' where n: "n = Suc n'" by (cases n) auto
  from TMul.prems(3) obtain ts' where ts': "get_token A ts = (Inr (Tok Multiply), ts')"
    "shows_toks A ts' (prim_toks p @ ttail_toks r @ u # toks)"
    by (auto elim: get_shown)
  have "agrees A (prim_val A m p) (parse n' A m Primary ts') (ttail_toks r @ u # toks)"
    using TMul.prems(1) n ts'(2) by (intro TMul.IH(1)) auto
  then have "agrees A (bnd (prim_val A m p) (\<lambda>v. ttail_val A m r (d_mul A left v)))
      (sbnd (parse n' A m Primary ts') (\<lambda>v. parse n' A m (Term_Loop (d_mul A left v)))) (u # toks)"
    using TMul.prems(1,2) n by (intro agrees_sbnd) (auto intro!: TMul.IH(2))
  with n ts'(1) show ?case by (simp add: term_loop_body_def)
next
  case (TDiv p r)
  then obtain n' where n: "n = Suc n'" by (cases n) auto
  from TDiv.prems(3) obtain ts' where ts': "get_token A ts = (Inr (Tok Div), ts')"
    "shows_toks A ts' (prim_toks p @ ttail_toks r @ u # toks)"
    by (auto elim: get_shown)
  have "agrees A (prim_val A m p) (parse n' A m Primary ts') (ttail_toks r @ u # toks)"
    using TDiv.prems(1) n ts'(2) by (intro TDiv.IH(1)) auto
  then have "agrees A (bnd (prim_val A m p) (\<lambda>v.
        if d_eq A v (d_zero A) then Inl Divide_By_Zero else ttail_val A m r (d_div A left v)))
      (sbnd (parse n' A m Primary ts') (\<lambda>d ts2. if d_eq A d (d_zero A) then (Inl Divide_By_Zero, ts2)
        else parse n' A m (Term_Loop (d_div A left d)) ts2)) (u # toks)"
  proof (rule agrees_sbnd)
    fix v ts2
    assume "shows_toks A ts2 (ttail_toks r @ u # toks)"
    then have "agrees A (ttail_val A m r (d_div A left v))
        (parse n' A m (Term_Loop (d_div A left v)) ts2) (u # toks)"
      using TDiv.prems(1,2) n by (intro TDiv.IH(2)) auto
    then show "agrees A (if d_eq A v (d_zero A) then Inl Divide_By_Zero else ttail_val A m r (d_div A left v))
        (if d_eq A v (d_zero A) then (Inl Divide_By_Zero, ts2)
         else parse n' A m (Term_Loop (d_div A left v)) ts2) (u # toks)"
      by (simp add: agrees_def)
  qed
  with n ts'(1) show ?case by (simp add: term_loop_body_def)
next
  case (TMod t)
  then obtain n' where n: "n = Suc (Suc n')"
    using term_toks_pos [of t] by (cases n; cases "n - 1") auto
  from TMod.prems(3) obtain ts' where ts': "get_token A ts = (Inr (Tok Modulus), ts')"
    "shows_toks A ts' (term_toks t @ u # toks)"
    by (auto elim: get_shown)
  have t: "agrees A (term_val A m t) (parse (Suc n') A m Term ts') (u # toks)"
    using TMod.prems(1,2) n ts'(2) by (intro TMod.IH) auto
  have stop: "agrees A (Inr v) (parse (Suc n') A m (Term_Loop v) ts2) (u # toks)"
    if "shows_toks A ts2 (u # toks)" for v ts2
  proof -
    from that obtain ts3 where "get_token A ts2 = (Inr u, ts3)" "\<not> cs_full ts3" "shows_toks A ts3 toks"
      by (auto elim: get_shown)
    with agrees_stop [of ts3 A toks v u] TMod.prems(2) show ?thesis
      by (simp add: term_loop_body_def stops_term_def)
  qed
  have eta: "modulus A i j = bnd (modulus A i j) Inr" for i j
    by (cases "modulus A i j") simp_all
  have "agrees A (bnd (to_int A left) (\<lambda>i. bnd (term_val A m t) (\<lambda>v. bnd (to_int A v) (\<lambda>j. modulus A i j))))
      (sbnd (lift (to_int A left) ts') (\<lambda>i ts2. sbnd (parse (Suc n') A m Term ts2) (\<lambda>v ts3.
         sbnd (lift (to_int A v) ts3) (\<lambda>j ts4. sbnd (lift (modulus A i j) ts4)
           (\<lambda>v. parse (Suc n') A m (Term_Loop v)))))) (u # toks)"
    by (intro agrees_lift agrees_sbnd [OF t], subst eta) (intro agrees_lift stop)
  with n ts'(1) show ?case by (simp add: term_loop_body_def)
next
  case (CExpr t r)
  then obtain n' where n: "n = Suc n'" by (cases n) auto
  obtain w ws where w: "etail_toks r @ u # toks = w # ws" "stops_term w"
    using CExpr.prems(2) by (cases r) (auto simp: stops_expr_def stops_term_def)
  have "agrees A (term_val A m t) (parse n' A m Term ts) (etail_toks r @ u # toks)"
    unfolding w(1) using CExpr.prems n w by (intro CExpr.IH(1)) auto
  then show ?case
    using CExpr.prems(1,2) n term_toks_pos [of t]
    by (auto simp: expression_body_def intro!: agrees_sbnd CExpr.IH(2))
next
  case EEnd
  then obtain n' where n: "n = Suc n'" by (cases n) auto
  from EEnd.prems(3) obtain ts' where "get_token A ts = (Inr u, ts')" "\<not> cs_full ts'"
    "shows_toks A ts' toks"
    by (auto elim: get_shown)
  with agrees_stop [of ts' A toks left u] EEnd.prems(2) n show ?case
    by (simp add: expression_loop_body_def stops_expr_def)
next
  case (EPlus t r)
  then obtain n' where n: "n = Suc n'" by (cases n) auto
  from EPlus.prems(3) obtain ts' where ts': "get_token A ts = (Inr (Tok Plus), ts')"
    "shows_toks A ts' (term_toks t @ etail_toks r @ u # toks)"
    by (auto elim: get_shown)
  obtain w ws where w: "etail_toks r @ u # toks = w # ws" "stops_term w"
    using EPlus.prems(2) by (cases r) (auto simp: stops_expr_def stops_term_def)
  have "agrees A (term_val A m t) (parse n' A m Term ts') (etail_toks r @ u # toks)"
    using EPlus.prems(1) n ts'(2) w by (simp add: EPlus.IH(1))
  then have "agrees A (bnd (term_val A m t) (\<lambda>v. etail_val A m r (d_add A left v)))
      (sbnd (parse n' A m Term ts') (\<lambda>v. parse n' A m (Expression_Loop (d_add A left v)))) (u # toks)"
    using EPlus.prems(1,2) n by (intro agrees_sbnd) (auto intro!: EPlus.IH(2))
  with n ts'(1) show ?case by (simp add: expression_loop_body_def)
next
  case (EMinus t r)
  then obtain n' where n: "n = Suc n'" by (cases n) auto
  from EMinus.prems(3) obtain ts' where ts': "get_token A ts = (Inr (Tok Minus), ts')"
    "shows_toks A ts' (term_toks t @ etail_toks r @ u # toks)"
    by (auto elim: get_shown)
  obtain w ws where w: "etail_toks r @ u # toks = w # ws" "stops_term w"
    using EMinus.prems(2) by (cases r) (auto simp: stops_expr_def stops_term_def)
  have "agrees A (term_val A m t) (parse n' A m Term ts') (etail_toks r @ u # toks)"
    using EMinus.prems(1) n ts'(2) w by (simp add: EMinus.IH(1))
  then have "agrees A (bnd (term_val A m t) (\<lambda>v. etail_val A m r (d_sub A left v)))
      (sbnd (parse n' A m Term ts') (\<lambda>v. parse n' A m (Expression_Loop (d_sub A left v)))) (u # toks)"
    using EMinus.prems(1,2) n by (intro agrees_sbnd) (auto intro!: EMinus.IH(2))
  with n ts'(1) show ?case by (simp add: expression_loop_body_def)
qed

end
