(* ===== verification/Calculator_Termination.thy ===== *)
theory Calculator_Termination
  imports Calculator
begin

text \<open>
  Every function of the grammar ends when it has fuel for the characters left, and so does the
  loop of \<open>run\<close>.
\<close>

section \<open>Termination\<close>

definition csize :: "'d cstream \<Rightarrow> nat" where
  "csize ts = length (rest (cs_source ts)) + (if cs_full ts then 1 else 0)"

lemma read_char_less:
  "read_char s = (r, s') \<Longrightarrow> length (rest s') \<le> length (rest s) \<and>
     (r = Some c \<longrightarrow> length (rest s') < length (rest s) \<and> good s')"
proof (cases "dropWhile is_space (rest s)")
  case (Cons d ds)
  assume r: "read_char s = (r, s')"
  have "length (dropWhile is_space (rest s)) \<le> length (rest s)" by (rule length_dropWhile_le)
  with r Cons show ?thesis by (auto simp: read_char_def split: if_splits)
qed (auto simp: read_char_def simp del: dropWhile_eq_Nil_conv split: if_splits)

lemma read_double_less:
  "length (rest (snd (read_double A s))) \<le> length (rest s) - length (take_float False False False (rest s))"
  by (simp add: read_double_def Let_def split: prod.split)

lemma take_float_head: "c = CHR ''.'' \<or> is_digit c \<Longrightarrow> take_float False False False (c # cs) \<noteq> []"
  by auto

lemma read_token_less:
  "read_token A s = (r, s') \<Longrightarrow> length (rest s') \<le> length (rest s) \<and>
     r \<noteq> Inl (CFault Diverges) \<and> (\<forall>t. r = Inr t \<longrightarrow> length (rest s') < length (rest s))"
proof -
  assume r: "read_token A s = (r, s')"
  obtain o1 s1 where g: "read_char s = (o1, s1)" by force
  show ?thesis
  proof (cases o1)
    case None
    with r g read_char_less [OF g] show ?thesis by (auto simp: read_token_def)
  next
    case (Some c)
    with read_char_less [OF g, of c] have l: "length (rest s1) < length (rest s)" and "good s1"
      by auto
    consider "c = CHR '';''" | k where "c \<noteq> CHR '';''" "is_symbol c = Some k"
      | "c \<noteq> CHR '';''" "is_symbol c = None" "c = CHR ''.'' \<or> is_digit c"
      | "c \<noteq> CHR '';''" "is_symbol c = None" "\<not> (c = CHR ''.'' \<or> is_digit c)"
      by fastforce
    then show ?thesis
    proof cases
      case 1
      with r g Some l show ?thesis by (auto simp: read_token_def)
    next
      case 2
      with r g Some l show ?thesis by (auto simp: read_token_def)
    next
      case 3
      have "putback_ch c s1 = s1\<lparr>rest := c # rest s1\<rparr>" using \<open>good s1\<close> by simp
      then have "length (rest (snd (read_double A (putback_ch c s1)))) \<le> length (rest s1)"
        using read_double_less [of A "putback_ch c s1"] take_float_head [OF 3(3), of "rest s1"]
        by (cases "take_float False False False (c # rest s1)") auto
      with 3 r g Some l show ?thesis by (auto simp: read_token_def split: prod.splits)
    next
      case 4
      obtain cs ch s2 where w: "get_while is_word_char c s1 = (cs, ch, s2)"
        using prod_cases3 by blast
      have "length (rest (putback_ch ch s2)) \<le> length (rest s1)"
        using get_while_rest [OF w] \<open>good s1\<close> by (auto simp: putback_ch_def good_def)
      with 4 r g Some l w show ?thesis
        by (auto simp: read_token_def Let_def split: if_splits)
    qed
  qed
qed

text \<open>\<open>ends s res\<close>: the computation did not run out of fuel and left at most \<open>s\<close> behind.\<close>

definition ends :: "nat \<Rightarrow> (cerror + 'a) \<times> 'd cstream \<Rightarrow> bool" where
  "ends s res \<longleftrightarrow> fst res \<noteq> Inl (CFault Diverges) \<and> csize (snd res) \<le> s"

definition ends_less :: "nat \<Rightarrow> (cerror + 'a) \<times> 'd cstream \<Rightarrow> bool" where
  "ends_less s res \<longleftrightarrow> ends s res \<and> (\<forall>x. fst res = Inr x \<longrightarrow> csize (snd res) < s)"

lemma ends_simps [simp]:
  "ends s (Inr x, ts) \<longleftrightarrow> csize ts \<le> s"
  "ends s (Inl e, ts) \<longleftrightarrow> e \<noteq> CFault Diverges \<and> csize ts \<le> s"
  "ends_less s (Inr x, ts) \<longleftrightarrow> csize ts < s"
  "ends_less s (Inl e, ts) \<longleftrightarrow> e \<noteq> CFault Diverges \<and> csize ts \<le> s"
  by (auto simp: ends_def ends_less_def)

lemma ends_sbnd:
  "ends_less s m \<Longrightarrow> (\<And>x ts. csize ts < s \<Longrightarrow> ends s (f x ts)) \<Longrightarrow> ends s (sbnd m f)"
  by (cases m; cases "fst m") auto

lemma ends_less_sbnd:
  "ends_less s m \<Longrightarrow> (\<And>x ts. csize ts < s \<Longrightarrow> ends (csize ts) (f x ts)) \<Longrightarrow> ends_less s (sbnd m f)"
  by (cases m; cases "fst m") (fastforce simp: ends_less_def ends_def)+

lemma ends_lift_sbnd:
  "r \<noteq> Inl (CFault Diverges) \<Longrightarrow> csize ts \<le> s \<Longrightarrow> (\<And>x. ends s (f x ts)) \<Longrightarrow> ends s (sbnd (lift r ts) f)"
  by (cases r) (auto simp: lift_def)

lemma ends_mono: "ends s res \<Longrightarrow> s \<le> s' \<Longrightarrow> ends s' res"
  by (auto simp: ends_def)

lemma ends_less_mono: "ends_less s res \<Longrightarrow> s \<le> s' \<Longrightarrow> ends_less s' res"
  by (auto simp: ends_less_def ends_def)

lemma ends_less_ends: "ends_less s res \<Longrightarrow> ends s res"
  by (simp add: ends_less_def)

lemma get_token_ends: "ends_less (csize ts) (get_token A ts)"
  using read_token_less [of A "cs_source ts"]
  by (cases "read_token A (cs_source ts)"; cases "fst (read_token A (cs_source ts))")
    (auto simp: get_token_def csize_def)

lemma putback_token_ends: "csize ts < s \<Longrightarrow> ends s (sbnd (putback_token t ts) (\<lambda>_ ts2. (Inr x, ts2)))"
  by (auto simp: putback_token_def csize_def)

lemma to_int_ends: "to_int A v \<noteq> Inl (CFault Diverges)" "modulus A i j \<noteq> Inl (CFault Diverges)"
  by (auto simp: to_int_def modulus_def split: option.splits)

fun rank :: "'d grammar_symbol \<Rightarrow> nat" where
  "rank Expression = 5"
| "rank (Expression_Loop v) = 4"
| "rank Term = 3"
| "rank (Term_Loop v) = 2"
| "rank Primary = 1"

fun consumes :: "'d grammar_symbol \<Rightarrow> bool" where
  "consumes (Expression_Loop v) = False"
| "consumes (Term_Loop v) = False"
| "consumes _ = True"

lemma parse_ends:
  "6 * csize ts + rank nt \<le> n \<Longrightarrow>
   (if consumes nt then ends_less (csize ts) (parse n A m nt ts) else ends (csize ts) (parse n A m nt ts))"
proof (induction n arbitrary: nt ts)
  case 0
  then show ?case by (cases nt) simp_all
next
  case (Suc n)
  have strict: "ends_less (csize ts') (parse n A m nt' ts')"
    if "consumes nt'" "6 * csize ts' + rank nt' \<le> n" for nt' ts'
    using Suc.IH [OF that(2)] that(1) by simp
  have weak: "ends (csize ts') (parse n A m nt' ts')"
    if "\<not> consumes nt'" "6 * csize ts' + rank nt' \<le> n" for nt' ts'
    using Suc.IH [OF that(2)] that(1) by simp
  have next_loop: "ends s (sbnd (parse n A m nt' ts') f)"
    if "consumes nt'" "csize ts' < csize ts" "csize ts' \<le> s" "rank nt' \<le> 5"
      "\<And>x t. csize t < csize ts' \<Longrightarrow> ends s (f x t)" for nt' ts' f s
  proof -
    have "ends_less (csize ts') (parse n A m nt' ts')"
      using that Suc.prems by (intro strict) auto
    with that(3,5) show ?thesis
      by (cases "parse n A m nt' ts'"; cases "fst (parse n A m nt' ts')") auto
  qed
  show ?case
  proof (cases nt)
    case Expression
    then show ?thesis
      using Suc.prems unfolding expression_body_def
      by (auto simp: expression_body_def intro!: ends_less_sbnd strict weak)
  next
    case Term
    then show ?thesis
      using Suc.prems by (auto simp: term_body_def intro!: ends_less_sbnd strict weak)
  next
    case (Expression_Loop v)
    then show ?thesis
      using Suc.prems
      by (auto simp: expression_loop_body_def intro!: ends_sbnd [OF get_token_ends] putback_token_ends
          next_loop weak [THEN ends_mono])
  next
    case (Term_Loop v)
    then show ?thesis
      using Suc.prems
      by (auto simp: term_loop_body_def intro!: ends_sbnd [OF get_token_ends] putback_token_ends
          ends_lift_sbnd to_int_ends next_loop weak [THEN ends_mono])
  next
    case Primary
    with Suc.prems show ?thesis
      by (simp add: primary_body_def, intro ends_less_sbnd [OF get_token_ends])
        (auto simp: lift_def get_variable_def
          intro!: next_loop ends_sbnd [OF get_token_ends, THEN ends_mono] strict [THEN ends_less_ends]
          split: ctok.split option.split)
  qed
qed

section \<open>The loop of \<open>run\<close>\<close>

text \<open>
  Every round of \<open>run\<close> that goes on has read a token: its statement, or the skipped ones.
\<close>

lemma skip_prints_ends: "csize ts < n \<Longrightarrow> ends_less (csize ts) (skip_prints n A ts)"
proof (induction n A ts rule: skip_prints.induct)
  case (2 n A ts)
  show ?case
    using get_token_ends [of ts A] "2.prems"
    by (cases "get_token A ts"; cases "fst (get_token A ts)")
      (auto intro: ends_less_mono [OF "2.IH"])
qed simp

lemma skip_prints_empty: "skip_prints n A ts = (Inr t, ts') \<Longrightarrow> \<not> cs_full ts'"
proof (induction n A ts rule: skip_prints.induct)
  case (2 n A ts)
  then show ?case
    by (auto simp: sbnd_Inr_iff get_token_def split: if_splits prod.splits)
qed simp

lemma ignore_until_ends: "csize ts < n \<Longrightarrow> ends_less (csize ts) (ignore_until n A t ts)"
proof (induction n A t ts rule: ignore_until.induct)
  case (2 n A t ts)
  show ?case
    using get_token_ends [of ts A] "2.prems"
    by (cases "get_token A ts"; cases "fst (get_token A ts)")
      (auto intro: ends_less_mono [OF "2.IH"])
qed simp

lemma ignore_ckind_ends: "csize ts < n \<Longrightarrow> ends_less (csize ts) (ignore_ckind n A k ts)"
proof -
  assume "csize ts < n"
  moreover have "csize (ts\<lparr>cs_full := False\<rparr>) \<le> csize ts" by (simp add: csize_def)
  ultimately have "ends_less (csize ts) (ignore_until n A t (ts\<lparr>cs_full := False\<rparr>))" for t
    by (auto intro: ends_less_mono [OF ignore_until_ends])
  then show ?thesis by (simp add: ignore_ckind_def csize_def)
qed

lemma expression_ends: "6 * csize ts + 5 \<le> n \<Longrightarrow> ends_less (csize ts) (calc_expression n A m ts)"
  using parse_ends [of ts Expression n A m] by (simp add: calc_expression_def)

text \<open>The statements run on the calculator; \<open>shed\<close> keeps its token stream.\<close>

definition shed :: "'x \<times> 'd calculator \<Rightarrow> 'x \<times> 'd cstream" where
  "shed res = (fst res, c_ts (snd res))"

lemma shed_on_ts: "shed (on_ts f c) = f (c_ts c)"
  by (simp add: shed_def on_ts_def split: prod.split)

lemma shed_pair [simp]: "shed (r, c) = (r, c_ts c)"
  by (simp add: shed_def)

lemma ends_less_shed_sbnd:
  "ends_less s (shed m) \<Longrightarrow> (\<And>x c. csize (c_ts c) < s \<Longrightarrow> ends (csize (c_ts c)) (shed (f x c))) \<Longrightarrow>
   ends_less s (shed (sbnd m f))"
  by (cases m; cases "fst m") (fastforce simp: ends_less_def ends_def shed_def)+

lemma ends_shed_sbnd:
  "ends_less s (shed m) \<Longrightarrow> (\<And>x c. csize (c_ts c) < s \<Longrightarrow> ends s (shed (f x c))) \<Longrightarrow>
   ends s (shed (sbnd m f))"
  by (cases m; cases "fst m") (auto simp: ends_less_def ends_def shed_def)

lemma calc_declaration_ends:
  "6 * csize (c_ts c) + 5 \<le> n \<Longrightarrow> ends_less (csize (c_ts c)) (shed (calc_declaration n A c))"
  unfolding calc_declaration_def
  by (intro ends_less_shed_sbnd)
    (auto simp: shed_on_ts get_token_ends define_variable_def
      intro!: ends_shed_sbnd expression_ends [THEN ends_less_mono] get_token_ends
      split: ctok.split option.split)

lemma putback_then:
  assumes "csize ts < s" and "\<And>ts2. csize ts2 \<le> s \<Longrightarrow> ends_less (csize ts2) (f ts2)"
  shows "ends_less s (sbnd (putback_token t ts) (\<lambda>_. f))"
proof (cases "cs_full ts")
  case False
  then have "csize (ts\<lparr>cs_buffer := t, cs_full := True\<rparr>) \<le> s"
    using assms(1) by (simp add: csize_def)
  with False assms(2) [OF this] show ?thesis
    by (auto simp: putback_token_def intro: ends_less_mono)
qed (use assms(1) in \<open>simp add: putback_token_def\<close>)

lemma shed_sbnd_on_ts:
  "(\<And>x c'. c_vars c' = c_vars c \<Longrightarrow> shed (g x c') = f x (c_ts c')) \<Longrightarrow>
   shed (sbnd (on_ts m c) g) = sbnd (m (c_ts c)) f"
  by (cases "m (c_ts c)"; cases "fst (m (c_ts c))") (auto simp: on_ts_def)

lemma calc_statement_ends:
  assumes "6 * csize (c_ts c) + 5 \<le> n"
  shows "ends_less (csize (c_ts c)) (shed (calc_statement n A c))"
proof -
  have "ends_less (csize (c_ts c)) (shed (if ckind t = Let_Kind then calc_declaration n A c1
      else sbnd (on_ts (putback_token t) c1) (\<lambda>_ c2. on_ts (calc_expression n A (c_vars c2)) c2)))"
    if "csize (c_ts c1) < csize (c_ts c)" for t c1
  proof (cases "ckind t = Let_Kind")
    case True
    with that assms show ?thesis by (auto intro: ends_less_mono [OF calc_declaration_ends])
  next
    case False
    have "shed (sbnd (on_ts (putback_token t) c1) (\<lambda>_ c2. on_ts (calc_expression n A (c_vars c2)) c2)) =
        sbnd (putback_token t (c_ts c1)) (\<lambda>_. calc_expression n A (c_vars c1))"
      by (rule shed_sbnd_on_ts) (simp add: shed_on_ts)
    with False that assms show ?thesis by (auto intro!: putback_then expression_ends)
  qed
  then show ?thesis
    unfolding calc_statement_def
    using get_token_ends [of "c_ts c" A]
    by (cases "get_token A (c_ts c)"; cases "fst (get_token A (c_ts c))") (auto simp: on_ts_def)
qed

lemma run_body_ends:
  assumes "6 * csize (c_ts c) + 5 \<le> n" and "run_body n A c = (es, r, c')"
  shows "r \<noteq> Inl (CFault Diverges) \<and> csize (c_ts c') \<le> csize (c_ts c) \<and>
    (\<forall>b. r = Inr b \<longrightarrow> csize (c_ts c') < csize (c_ts c))"
proof -
  obtain q ts1 where skip: "skip_prints n A (c_ts c) = (q, ts1)" by force
  with skip_prints_ends [of "c_ts c" n A] assms(1) have
    s: "ends_less (csize (c_ts c)) (q, ts1)" by simp
  show ?thesis
  proof (cases q)
    case (Inl e)
    with skip s assms(2) show ?thesis by (auto simp: run_body_def on_ts_def)
  next
    case (Inr t)
    let ?c2 = "c\<lparr>c_ts := ts1\<lparr>cs_buffer := t, cs_full := True\<rparr>\<rparr>"
    have "\<not> cs_full ts1" using skip Inr by (auto dest: skip_prints_empty)
    with s Inr have le: "csize (c_ts ?c2) \<le> csize (c_ts c)" by (simp add: csize_def)
    obtain d c3 where d: "calc_statement n A ?c2 = (d, c3)" by force
    with calc_statement_ends [of ?c2 n A] le assms(1)
    have "ends_less (csize (c_ts ?c2)) (d, c_ts c3)" by simp
    with skip Inr s le d \<open>\<not> cs_full ts1\<close> assms(2) show ?thesis
      by (cases d) (auto simp: run_body_def on_ts_def putback_token_def split: if_splits)
  qed
qed

lemma run_ends: "6 * csize (c_ts c) + 6 \<le> n \<Longrightarrow> fst (snd (run n A c)) \<noteq> Inl (CFault Diverges)"
proof (induction n arbitrary: c)
  case (Suc n)
  obtain es r c1 where body: "run_body n A c = (es, r, c1)" using prod_cases3 by blast
  with run_body_ends [OF _ body] Suc.prems have
    r: "r \<noteq> Inl (CFault Diverges)" "csize (c_ts c1) \<le> csize (c_ts c)"
      "r = Inr b \<Longrightarrow> csize (c_ts c1) < csize (c_ts c)" for b by auto
  show ?case
  proof (cases r)
    case (Inr b)
    with r(3) [OF Inr] Suc.prems Suc.IH [of c1] body show ?thesis
      by (cases b) (auto split: prod.splits)
  next
    case (Inl e)
    obtain q ts2 where ig: "ignore_ckind n A Print_Kind (c_ts c1) = (q, ts2)" by force
    have "ends_less (csize (c_ts c1)) (q, ts2)"
      using ignore_ckind_ends [of "c_ts c1" n A Print_Kind] ig r(2) Suc.prems by simp
    with Suc.IH [of "c1\<lparr>c_ts := ts2\<rparr>"] Suc.prems r(1,2) ig body Inl show ?thesis
      by (cases q) (auto simp: on_ts_def split: prod.splits cerror.splits)
  qed
qed simp

end
