(* ===== verification/Calculator_Properties.thy ===== *)
theory Calculator_Properties
  imports Calculator_Laws Calculator_Termination
begin

text \<open>
  What the calculator computes: the value of a statement, and that it comes to an end.
\<close>

section \<open>Statements\<close>

text \<open>A statement is an expression or, with a name, a declaration.\<close>

definition stmt_toks :: "string option \<Rightarrow> 'd cexpr \<Rightarrow> 'd ctok list" where
  "stmt_toks d e = (case d of None \<Rightarrow> expr_toks e
     | Some x \<Rightarrow> Tok Let_Kind # Nam x # Tok Equals # expr_toks e)"

definition stmt_val ::
  "'d arith \<Rightarrow> 'd varmap \<Rightarrow> string option \<Rightarrow> 'd cexpr \<Rightarrow> (cerror + 'd) \<times> 'd varmap" where
  "stmt_val A m d e = (case expr_val A m e of
       Inl err \<Rightarrow> (Inl err, m)
     | Inr v \<Rightarrow> (case d of None \<Rightarrow> (Inr v, m) | Some x \<Rightarrow> define_variable x v m))"

lemma expr_toks_head: "\<exists>t ts. expr_toks e = t # ts \<and> ckind t \<noteq> Let_Kind"
proof -
  have "\<exists>t ts. prim_toks p = t # ts \<and> ckind t \<noteq> Let_Kind" for p :: "'a cprim"
    by (cases p) simp_all
  then show ?thesis by (metis append_Cons cexpr.exhaust cterm.exhaust expr_toks.simps term_toks.simps)
qed

lemma on_ts_get:
  assumes "shows_toks A (c_ts c) (t # toks)"
  obtains ts' where "on_ts (get_token A) c = (Inr t, c\<lparr>c_ts := ts'\<rparr>)" and "\<not> cs_full ts'"
    and "shows_toks A ts' toks"
  by (rule get_shown [OF assms]) (simp add: that on_ts_def)

lemma on_ts_expression:
  assumes "shows_toks A (c_ts c) (expr_toks e @ t # toks)" and "stops_expr t"
    and "4 * length (expr_toks e) + 1 < n"
  obtains ts' where "on_ts (calc_expression n A m) c = (expr_val A m e, c\<lparr>c_ts := ts'\<rparr>)"
    and "\<And>v. expr_val A m e = Inr v \<Longrightarrow> shows_toks A ts' (t # toks)"
proof -
  have "agrees A (expr_val A m e) (calc_expression n A m (c_ts c)) (t # toks)"
    using parse_agrees(4) [of e n t A "c_ts c" toks m] assms by (simp add: calc_expression_def)
  then show thesis
    using that [of "snd (calc_expression n A m (c_ts c))"]
    by (cases "calc_expression n A m (c_ts c)"; cases "expr_val A m e") (auto simp: agrees_def on_ts_def)
qed

lemma calc_declaration_agrees:
  assumes "shows_toks A (c_ts c) (Nam x # Tok Equals # expr_toks e @ t # toks)" and "stops_expr t"
    and "4 * length (expr_toks e) + 1 < n"
  obtains ts' where "calc_declaration n A c =
      (fst (stmt_val A (c_vars c) (Some x) e),
       \<lparr>c_vars = snd (stmt_val A (c_vars c) (Some x) e), c_ts = ts'\<rparr>)"
    and "\<And>v. expr_val A (c_vars c) e = Inr v \<Longrightarrow> shows_toks A ts' (t # toks)"
proof -
  obtain ts1 where 1: "on_ts (get_token A) c = (Inr (Nam x), c\<lparr>c_ts := ts1\<rparr>)"
    "shows_toks A ts1 (Tok Equals # expr_toks e @ t # toks)"
    by (rule on_ts_get [OF assms(1)])
  then obtain ts2 where 2: "on_ts (get_token A) (c\<lparr>c_ts := ts1\<rparr>) = (Inr (Tok Equals), c\<lparr>c_ts := ts2\<rparr>)"
    "shows_toks A ts2 (expr_toks e @ t # toks)"
    by (auto elim!: on_ts_get [of A "c\<lparr>c_ts := ts1\<rparr>", simplified])
  obtain ts3 where 3: "on_ts (calc_expression n A (c_vars c)) (c\<lparr>c_ts := ts2\<rparr>) =
      (expr_val A (c_vars c) e, c\<lparr>c_ts := ts3\<rparr>)"
    "\<And>v. expr_val A (c_vars c) e = Inr v \<Longrightarrow> shows_toks A ts3 (t # toks)"
    using 2(2) assms(2,3) by (auto elim!: on_ts_expression [of A "c\<lparr>c_ts := ts2\<rparr>", simplified])
  show thesis
  proof (rule that [of ts3])
    show "calc_declaration n A c = (fst (stmt_val A (c_vars c) (Some x) e),
       \<lparr>c_vars = snd (stmt_val A (c_vars c) (Some x) e), c_ts = ts3\<rparr>)"
      using 1(1) 2(1) 3(1)
      by (cases "expr_val A (c_vars c) e")
        (auto simp: calc_declaration_def stmt_val_def split: prod.split)
  qed (rule 3(2))
qed

text \<open>
  When the input gives the tokens of a statement, followed by a token that ends the expression, \<open>statement\<close>
  returns the value of the tree, or the error its evaluation meets first.
\<close>

lemma statement_value:
  assumes "\<not> cs_full (c_ts c)" and "reads A (cs_source (c_ts c)) (stmt_toks d e @ t # toks)"
    and "stops_expr t" and "4 * length (expr_toks e) + 1 < n"
  shows "\<exists>c'. calc_statement n A c = (fst (stmt_val A (c_vars c) d e), c') \<and>
    c_vars c' = snd (stmt_val A (c_vars c) d e) \<and>
    ((\<exists>err. expr_val A (c_vars c) e = Inl err) \<or> fst (get_token A (c_ts c')) = Inr t)"
proof (cases d)
  case (Some x)
  then have "shows_toks A (c_ts c) (Tok Let_Kind # Nam x # Tok Equals # expr_toks e @ t # toks)"
    using assms(1,2) by (simp add: shows_toks_def stmt_toks_def)
  then obtain ts1 where 1: "on_ts (get_token A) c = (Inr (Tok Let_Kind), c\<lparr>c_ts := ts1\<rparr>)"
    "shows_toks A ts1 (Nam x # Tok Equals # expr_toks e @ t # toks)"
    by (rule on_ts_get)
  then obtain ts2 where "calc_declaration n A (c\<lparr>c_ts := ts1\<rparr>) =
      (fst (stmt_val A (c_vars c) (Some x) e),
       \<lparr>c_vars = snd (stmt_val A (c_vars c) (Some x) e), c_ts = ts2\<rparr>)"
    "\<And>v. expr_val A (c_vars c) e = Inr v \<Longrightarrow> shows_toks A ts2 (t # toks)"
    using assms(3,4) by (auto elim!: calc_declaration_agrees [of A "c\<lparr>c_ts := ts1\<rparr>", simplified])
  with 1 Some show ?thesis
    by (cases "expr_val A (c_vars c) e") (auto simp: calc_statement_def elim!: get_shown)
next
  case None
  then have s: "shows_toks A (c_ts c) (expr_toks e @ t # toks)"
    using assms(1,2) by (simp add: shows_toks_def stmt_toks_def)
  obtain u us where u: "expr_toks e = u # us" "ckind u \<noteq> Let_Kind" using expr_toks_head by blast
  with s obtain ts1 where 1: "on_ts (get_token A) c = (Inr u, c\<lparr>c_ts := ts1\<rparr>)" "\<not> cs_full ts1"
    "shows_toks A ts1 (us @ t # toks)"
    by (auto elim: on_ts_get)
  obtain ts2 where 2: "putback_token u ts1 = (Inr (), ts2)" "shows_toks A ts2 (expr_toks e @ t # toks)"
    using putback_shown [OF 1(2,3), of u thesis] u(1) by auto
  obtain ts3 where "on_ts (calc_expression n A (c_vars c)) (c\<lparr>c_ts := ts2\<rparr>) =
      (expr_val A (c_vars c) e, c\<lparr>c_ts := ts3\<rparr>)"
    "\<And>v. expr_val A (c_vars c) e = Inr v \<Longrightarrow> shows_toks A ts3 (t # toks)"
    using 2(2) assms(3,4) by (auto elim!: on_ts_expression [of A "c\<lparr>c_ts := ts2\<rparr>", simplified])
  with 1(1) 2(1) u(2) None show ?thesis
    by (cases "expr_val A (c_vars c) e")
      (auto simp: calc_statement_def on_ts_def stmt_val_def elim!: get_shown)
qed

section \<open>The grammar of the header comment\<close>

text \<open>
  The syntax trees of the grammar in the header comment of the file, with the tokens and the values it gives them:
  \<^verbatim>\<open>Term\<close> and \<^verbatim>\<open>Expression\<close> are left-recursive, and the right operand of \<^verbatim>\<open>*\<close>, \<^verbatim>\<open>/\<close> and \<^verbatim>\<open>%\<close> is a \<^verbatim>\<open>Primary\<close>.
\<close>

datatype 'd dprim =
    DNum 'd
  | DVar string
  | DParen "'d dexpr"
  | DNeg "'d dprim"
  | DPos "'d dprim"
and 'd dterm =
    DPrim "'d dprim"
  | DTimes "'d dterm" "'d dprim"
  | DOver "'d dterm" "'d dprim"
  | DMod "'d dterm" "'d dprim"
and 'd dexpr =
    DTerm "'d dterm"
  | DPlus "'d dexpr" "'d dterm"
  | DMinus "'d dexpr" "'d dterm"

primrec doc_prim_toks :: "'d dprim \<Rightarrow> 'd ctok list"
  and doc_term_toks :: "'d dterm \<Rightarrow> 'd ctok list"
  and doc_toks :: "'d dexpr \<Rightarrow> 'd ctok list" where
  "doc_prim_toks (DNum v) = [Num v]"
| "doc_prim_toks (DVar x) = [Nam x]"
| "doc_prim_toks (DParen e) = Tok OpenParen # doc_toks e @ [Tok CloseParen]"
| "doc_prim_toks (DNeg p) = Tok Minus # doc_prim_toks p"
| "doc_prim_toks (DPos p) = Tok Plus # doc_prim_toks p"
| "doc_term_toks (DPrim p) = doc_prim_toks p"
| "doc_term_toks (DTimes t p) = doc_term_toks t @ Tok Multiply # doc_prim_toks p"
| "doc_term_toks (DOver t p) = doc_term_toks t @ Tok Div # doc_prim_toks p"
| "doc_term_toks (DMod t p) = doc_term_toks t @ Tok Modulus # doc_prim_toks p"
| "doc_toks (DTerm t) = doc_term_toks t"
| "doc_toks (DPlus e t) = doc_toks e @ Tok Plus # doc_term_toks t"
| "doc_toks (DMinus e t) = doc_toks e @ Tok Minus # doc_term_toks t"

text \<open>Operands are evaluated from left to right; the left operand of \<^verbatim>\<open>%\<close> is converted before the right one is evaluated.\<close>

primrec doc_prim_val :: "'d arith \<Rightarrow> 'd varmap \<Rightarrow> 'd dprim \<Rightarrow> cerror + 'd"
  and doc_term_val :: "'d arith \<Rightarrow> 'd varmap \<Rightarrow> 'd dterm \<Rightarrow> cerror + 'd"
  and doc_val :: "'d arith \<Rightarrow> 'd varmap \<Rightarrow> 'd dexpr \<Rightarrow> cerror + 'd" where
  "doc_prim_val A m (DNum v) = Inr v"
| "doc_prim_val A m (DVar x) = get_variable x m"
| "doc_prim_val A m (DParen e) = doc_val A m e"
| "doc_prim_val A m (DNeg p) = bnd (doc_prim_val A m p) (\<lambda>v. Inr (d_neg A v))"
| "doc_prim_val A m (DPos p) = doc_prim_val A m p"
| "doc_term_val A m (DPrim p) = doc_prim_val A m p"
| "doc_term_val A m (DTimes t p) = bnd (doc_term_val A m t) (\<lambda>l. bnd (doc_prim_val A m p) (\<lambda>v. Inr (d_mul A l v)))"
| "doc_term_val A m (DOver t p) = bnd (doc_term_val A m t) (\<lambda>l. bnd (doc_prim_val A m p) (\<lambda>v.
     if d_eq A v (d_zero A) then Inl Divide_By_Zero else Inr (d_div A l v)))"
| "doc_term_val A m (DMod t p) = bnd (doc_term_val A m t) (\<lambda>l. bnd (to_int A l) (\<lambda>i.
     bnd (doc_prim_val A m p) (\<lambda>v. bnd (to_int A v) (modulus A i))))"
| "doc_val A m (DTerm t) = doc_term_val A m t"
| "doc_val A m (DPlus e t) = bnd (doc_val A m e) (\<lambda>l. bnd (doc_term_val A m t) (\<lambda>v. Inr (d_add A l v)))"
| "doc_val A m (DMinus e t) = bnd (doc_val A m e) (\<lambda>l. bnd (doc_term_val A m t) (\<lambda>v. Inr (d_sub A l v)))"

text \<open>No operator \<^verbatim>\<open>*\<close>, \<^verbatim>\<open>/\<close> or \<^verbatim>\<open>%\<close> follows the right operand of a \<^verbatim>\<open>%\<close> in its term.\<close>

primrec has_mod :: "'d dterm \<Rightarrow> bool" where
  "has_mod (DPrim p) = False"
| "has_mod (DTimes t p) = has_mod t"
| "has_mod (DOver t p) = has_mod t"
| "has_mod (DMod t p) = True"

primrec mods_last_prim :: "'d dprim \<Rightarrow> bool"
  and mods_last_term :: "'d dterm \<Rightarrow> bool"
  and mods_last :: "'d dexpr \<Rightarrow> bool" where
  "mods_last_prim (DNum v) = True"
| "mods_last_prim (DVar x) = True"
| "mods_last_prim (DParen e) = mods_last e"
| "mods_last_prim (DNeg p) = mods_last_prim p"
| "mods_last_prim (DPos p) = mods_last_prim p"
| "mods_last_term (DPrim p) = mods_last_prim p"
| "mods_last_term (DTimes t p) = (\<not> has_mod t \<and> mods_last_term t \<and> mods_last_prim p)"
| "mods_last_term (DOver t p) = (\<not> has_mod t \<and> mods_last_term t \<and> mods_last_prim p)"
| "mods_last_term (DMod t p) = (\<not> has_mod t \<and> mods_last_term t \<and> mods_last_prim p)"
| "mods_last (DTerm t) = mods_last_term t"
| "mods_last (DPlus e t) = (mods_last e \<and> mods_last_term t)"
| "mods_last (DMinus e t) = (mods_last e \<and> mods_last_term t)"

text \<open>The tree the functions build for the same tokens.\<close>

primrec prim_tree :: "'d dprim \<Rightarrow> 'd cprim"
  and term_tree :: "'d dterm \<Rightarrow> 'd ttail \<Rightarrow> 'd cterm"
  and expr_tree :: "'d dexpr \<Rightarrow> 'd etail \<Rightarrow> 'd cexpr" where
  "prim_tree (DNum v) = PNum v"
| "prim_tree (DVar x) = PVar x"
| "prim_tree (DParen e) = PParen (expr_tree e EEnd)"
| "prim_tree (DNeg p) = PNeg (prim_tree p)"
| "prim_tree (DPos p) = PPos (prim_tree p)"
| "term_tree (DPrim p) = CTerm (prim_tree p)"
| "term_tree (DTimes t p) = (\<lambda>r. term_tree t (TMul (prim_tree p) r))"
| "term_tree (DOver t p) = (\<lambda>r. term_tree t (TDiv (prim_tree p) r))"
| "term_tree (DMod t p) = (\<lambda>r. term_tree t (TMod (CTerm (prim_tree p) r)))"
| "expr_tree (DTerm t) = CExpr (term_tree t TEnd)"
| "expr_tree (DPlus e t) = (\<lambda>r. expr_tree e (EPlus (term_tree t TEnd) r))"
| "expr_tree (DMinus e t) = (\<lambda>r. expr_tree e (EMinus (term_tree t TEnd) r))"

lemma tree_toks:
  fixes p :: "'d dprim" and t :: "'d dterm" and e :: "'d dexpr"
  shows "prim_toks (prim_tree p) = doc_prim_toks p"
  "term_toks (term_tree t r) = doc_term_toks t @ ttail_toks r"
  "expr_toks (expr_tree e q) = doc_toks e @ etail_toks q"
  by (induction p and t and e arbitrary: and r and q rule: dprim.induct dterm.induct dexpr.induct) simp_all

lemma tree_val:
  "mods_last_prim p \<Longrightarrow> prim_val A m (prim_tree p) = doc_prim_val A m p"
  "mods_last_term t \<Longrightarrow> \<not> has_mod t \<or> r = TEnd
     \<Longrightarrow> term_val A m (term_tree t r) = bnd (doc_term_val A m t) (ttail_val A m r)"
  "mods_last e \<Longrightarrow> expr_val A m (expr_tree e q) = bnd (doc_val A m e) (etail_val A m q)"
proof (induction p and t and e arbitrary: and r and q rule: dprim.induct dterm.induct dexpr.induct)
  case (DOver t p)
  then show ?case by (auto simp: bnd_assoc if_distrib [of "\<lambda>m. bnd m f" for f] cong: if_cong)
next
  case (DMod t p)
  then have "r = TEnd" by simp
  then show ?case using DMod by (auto simp: bnd_assoc eta_contract_eq bnd_def split: sum.splits)
qed (auto simp: bnd_assoc bnd_def split: sum.splits)

definition doc_stmt_toks :: "string option \<Rightarrow> 'd dexpr \<Rightarrow> 'd ctok list" where
  "doc_stmt_toks d e = (case d of None \<Rightarrow> doc_toks e
     | Some x \<Rightarrow> Tok Let_Kind # Nam x # Tok Equals # doc_toks e)"

definition doc_stmt_val ::
  "'d arith \<Rightarrow> 'd varmap \<Rightarrow> string option \<Rightarrow> 'd dexpr \<Rightarrow> (cerror + 'd) \<times> 'd varmap" where
  "doc_stmt_val A m d e = (case doc_val A m e of
       Inl err \<Rightarrow> (Inl err, m)
     | Inr v \<Rightarrow> (case d of None \<Rightarrow> (Inr v, m) | Some x \<Rightarrow> define_variable x v m))"

text \<open>C9 (A statement has the value of the documented grammar). When the input gives the tokens of an expression of
  the grammar in the header comment, or of a declaration of a name, followed by a token that ends the expression,
  and no factor follows the right operand of a \<^verbatim>\<open>%\<close> in its term, \<open>statement\<close> returns the value the grammar gives it,
  or the error its evaluation meets first; a declaration adds the variable or reports a redefinition, and nothing
  else changes the variables; the token behind the expression is the next one read. Where a factor does follow,
  the code and the comment differ: \<open>modulus_takes_the_rest\<close> below.\<close>

theorem calc_evaluates:
  assumes "\<not> cs_full (c_ts c)" and "reads A (cs_source (c_ts c)) (doc_stmt_toks d e @ t # toks)"
    and "stops_expr t" and "mods_last e" and "4 * length (doc_toks e) + 1 < n"
  shows "\<exists>c'. calc_statement n A c = (fst (doc_stmt_val A (c_vars c) d e), c') \<and>
    c_vars c' = snd (doc_stmt_val A (c_vars c) d e) \<and>
    ((\<exists>err. doc_val A (c_vars c) e = Inl err) \<or> fst (get_token A (c_ts c')) = Inr t)"
proof -
  let ?e = "expr_tree e EEnd"
  have toks: "expr_toks ?e = doc_toks e" "stmt_toks d ?e = doc_stmt_toks d e"
    by (simp_all add: tree_toks stmt_toks_def doc_stmt_toks_def split: option.split)
  have val: "expr_val A (c_vars c) ?e = doc_val A (c_vars c) e"
    using tree_val(3) [OF assms(4), of A "c_vars c" EEnd] by (simp add: bnd_def split: sum.splits)
  then have "stmt_val A (c_vars c) d ?e = doc_stmt_val A (c_vars c) d e"
    by (simp add: stmt_val_def doc_stmt_val_def)
  then show ?thesis using statement_value [of c A d ?e t toks n] assms toks val by simp
qed

theorem calc_evaluates_witness:
  "\<exists>c'. calc_statement 60 int_arith \<lparr>c_vars = Map.empty,
      c_ts = new_cstream int_arith (of_string ''let x = 7 * 2 % 4 + 1;'')\<rparr> = (Inr 3, c') \<and>
    c_vars c' ''x'' = Some 3"
proof -
  let ?src = "of_string ''let x = 7 * 2 % 4 + 1;''"
  let ?e = "DPlus (DTerm (DMod (DTimes (DPrim (DNum 7)) (DNum 2)) (DNum 4))) (DPrim (DNum 1))"
  have "reads int_arith ?src (doc_stmt_toks (Some ''x'') ?e @ Tok Print_Kind # [])"
    by code_simp
  moreover have "doc_stmt_val int_arith Map.empty (Some ''x'') ?e = (Inr 3, [''x'' \<mapsto> 3])"
    by (simp add: doc_stmt_val_def int_arith_def to_int_def modulus_def define_variable_def signed_modulo_int_def
        signed_divide_int_def)
  ultimately show ?thesis
    using calc_evaluates [of "\<lparr>c_vars = Map.empty, c_ts = new_cstream int_arith ?src\<rparr>" int_arith "Some ''x''"
      ?e "Tok Print_Kind" "[]" 60]
    by (auto simp: new_cstream_def stops_expr_def stops_term_def)
qed

text \<open>
  The code gives the whole rest of the term to the right operand of a \<^verbatim>\<open>%\<close>: \<^verbatim>\<open>7 % 4 * 2\<close> is 7, where the grammar of the
  header comment says \<^verbatim>\<open>(7 % 4) * 2\<close>, which is 6.
\<close>

lemma modulus_takes_the_rest:
  "fst (calc_statement 60 int_arith \<lparr>c_vars = Map.empty,
     c_ts = new_cstream int_arith (of_string ''7 % 4 * 2;'')\<rparr>) = Inr 7"
  "reads int_arith (of_string ''7 % 4 * 2;'')
     (doc_stmt_toks None (DTerm (DTimes (DMod (DPrim (DNum 7)) (DNum 4)) (DNum 2))) @ [Tok Print_Kind])"
  "doc_val int_arith Map.empty (DTerm (DTimes (DMod (DPrim (DNum 7)) (DNum 4)) (DNum 2))) = Inr 6"
proof -
  let ?src = "of_string ''7 % 4 * 2;''"
  let ?e = "CExpr (CTerm (PNum 7) (TMod (CTerm (PNum 4) (TMul (PNum 2) TEnd)))) EEnd"
  have r: "reads int_arith ?src (stmt_toks None ?e @ [Tok Print_Kind])" by code_simp
  have "stmt_val int_arith Map.empty None ?e = (Inr 7, Map.empty)"
    by (simp add: stmt_val_def int_arith_def to_int_def modulus_def signed_modulo_int_def signed_divide_int_def)
  then show "fst (calc_statement 60 int_arith \<lparr>c_vars = Map.empty, c_ts = new_cstream int_arith ?src\<rparr>) = Inr 7"
    using statement_value [of "\<lparr>c_vars = Map.empty, c_ts = new_cstream int_arith ?src\<rparr>" int_arith None
      ?e "Tok Print_Kind" "[]" 60] r
    by (auto simp: new_cstream_def stops_expr_def stops_term_def)
  show "reads int_arith ?src
     (doc_stmt_toks None (DTerm (DTimes (DMod (DPrim (DNum 7)) (DNum 4)) (DNum 2))) @ [Tok Print_Kind])"
    using r by (simp add: stmt_toks_def doc_stmt_toks_def)
  show "doc_val int_arith Map.empty (DTerm (DTimes (DMod (DPrim (DNum 7)) (DNum 4)) (DNum 2))) = Inr 6"
    by (simp add: int_arith_def to_int_def modulus_def signed_modulo_int_def signed_divide_int_def)
qed

text \<open>C33 (The calculator comes to an end). With six units of fuel for every character of the input, no
  function of the grammar runs out of it, and neither does \<open>run\<close>: it returns, leaves by an exception
  or reaches undefined behaviour.\<close>

theorem calc_total:
  assumes "6 * length (rest src) + 6 \<le> n"
  shows "fst (calc_expression n A m (new_cstream A src)) \<noteq> Inl (CFault Diverges) \<and>
    fst (snd (run n A (new_calculator A src))) \<noteq> Inl (CFault Diverges)"
  using expression_ends [of "new_cstream A src" n A m] run_ends [of "new_calculator A src" n A] assms
  by (simp add: new_calculator_def csize_def new_cstream_def ends_less_def ends_def)

theorem calc_total_witness:
  "fst (snd (run 36 int_arith (new_calculator int_arith (of_string ''1+2;q'')))) \<noteq> Inl (CFault Diverges)"
  using calc_total [where src = "of_string ''1+2;q''" and n = 36 and A = int_arith] by (simp add: of_string_def)

end
