(* ===== verification/Punypy2_Scanner.thy ===== *)
theory Punypy2_Scanner
  imports Input_Stream
begin

text \<open>
  The second scanner (\<^verbatim>\<open>src/Parsers/Punypy2\<close>): tokens are the alternatives of a \<^verbatim>\<open>std::variant\<close>, the value
  of each is part of its type. A line that is not indented gives no token for its start.
\<close>

section \<open>Tokens\<close>

datatype p2token =
    P_Lparen
  | P_Rparen
  | P_Plus
  | P_Minus
  | P_Colon
  | P_Comma
  | P_Equals
  | P_Def
  | P_Name string
  | P_Integer int
  | P_Indent "32 word"
  | P_Eof

datatype p2error =
    P_Invalid_Token
  | P_Contract
  | P_Fault fault

definition p2_symbol :: "char \<Rightarrow> p2token option" where
  "p2_symbol c =
     (if c = CHR ''('' then Some P_Lparen else if c = CHR '')'' then Some P_Rparen
      else if c = CHR ''+'' then Some P_Plus else if c = CHR ''-'' then Some P_Minus
      else if c = CHR '':'' then Some P_Colon else if c = CHR '','' then Some P_Comma
      else if c = CHR ''='' then Some P_Equals else None)"

definition p2_name_char :: "char \<Rightarrow> bool" where
  "p2_name_char c \<longleftrightarrow> is_alpha c \<or> is_digit c \<or> c = CHR ''_''"

definition p2_blank :: "char \<Rightarrow> bool" where
  "p2_blank c \<longleftrightarrow> c \<noteq> newline \<and> is_space c"

text \<open>The result of a name: \<open>def\<close> is the one keyword.\<close>

definition p2_word :: "string \<Rightarrow> p2token" where
  "p2_word w = (if w = ''def'' then P_Def else P_Name w)"

section \<open>Reading a token\<close>

text \<open>A digit that is put back is the next character read: at most one call more for every character.\<close>

definition p2_rank :: "istream + (char \<times> istream) \<Rightarrow> nat" where
  "p2_rank x = (case x of
       Inl s \<Rightarrow> (if rest s \<noteq> [] \<and> is_digit (hd (rest s)) \<and> good s then 0 else 3)
     | Inr (c, s) \<Rightarrow> if is_digit c then 1 else 2)"

definition p2_size :: "istream + (char \<times> istream) \<Rightarrow> nat" where
  "p2_size x = (case x of Inl s \<Rightarrow> length (rest s) | Inr (c, s) \<Rightarrow> Suc (length (rest s)))"

lemma p2_symbol_digit: "p2_symbol c = None \<or> \<not> is_digit c"
  by (auto simp: p2_symbol_def is_digit_def)

lemma p2_putback_cases: "failbit s \<or> rest (putback_ch c s) = c # rest s \<and> good (putback_ch c s)"
  by (simp add: putback_ch_def good_def)

text \<open>
  \<open>p2_scan\<close> is \<^verbatim>\<open>get\<close> on an empty buffer, \<open>p2_default\<close> the \<^verbatim>\<open>default\<close> label of its \<^verbatim>\<open>switch\<close>, which the case of
  the line end falls through to with the first character of the line.
\<close>

function p2_scan :: "istream \<Rightarrow> p2error + (p2token \<times> istream)"
  and p2_default :: "char \<Rightarrow> istream \<Rightarrow> p2error + (p2token \<times> istream)" where
  "p2_scan s =
     (case get_ch s of
        (None, s1) \<Rightarrow> Inr (P_Eof, s1)
      | (Some c, s1) \<Rightarrow>
          if p2_symbol c \<noteq> None then Inr (the (p2_symbol c), s1)
          else if is_digit c then (let (v, s2) = read_int (putback_ch c s1) in Inr (P_Integer v, s2))
          else if c = newline then
            (case get_while (\<lambda>c. c = newline) c s1 of (_, ch, s2) \<Rightarrow>
               if failbit s2 then Inr (P_Eof, s2)
               else if is_space ch then
                 (case get_while p2_blank ch s2 of (cs, ch', s3) \<Rightarrow>
                    Inr (P_Indent (1 + word_of_nat (length cs)), putback_ch ch' s3))
               else p2_default ch s2)
          else p2_default c s1)"
| "p2_default c s =
     (if is_digit c then p2_scan (putback_ch c s)
      else if is_alpha c then
        (case get_while p2_name_char c s of (cs, ch, s1) \<Rightarrow> Inr (p2_word (c # cs), putback_ch ch s1))
      else if is_space c then
        (case get_while p2_blank c s of (_, ch, s1) \<Rightarrow>
           if failbit s1 then Inr (P_Eof, s1) else p2_scan (putback_ch ch s1))
      else Inl P_Invalid_Token)"
  by pat_completeness auto

termination
proof (relation "measures [p2_size, p2_rank]", goal_cases)
  case (2 s x y c xa ya ch s2)
  then show ?case
    using get_while_rest [of "\<lambda>c. c = newline" c y xa ch s2]
    by (auto simp: p2_size_def dest: sym elim!: get_ch_cases)
next
  case (3 s x y c)
  then have "get_ch s = (Some c, y)" by simp
  with 3 show ?case by (auto simp: p2_size_def p2_rank_def elim!: get_ch_cases)
next
  case (4 c s)
  then show ?case
    using p2_putback_cases [of s c] by (auto simp: p2_size_def p2_rank_def putback_ch_def good_def)
next
  case (5 c s x y ch s1)
  then show ?case
    using get_while_rest [of p2_blank c s x ch s1] putback_ch_rest(1) [of ch s1]
    by (auto simp: p2_size_def)
qed simp

declare p2_scan.simps [simp del] p2_default.simps [simp del]

section \<open>The scanner\<close>

record p2scanner =
  p2_source :: istream
  p2_full :: bool
  p2_buffer :: p2token

definition p2_new :: "istream \<Rightarrow> p2scanner" where
  "p2_new src = \<lparr>p2_source = src, p2_full = False, p2_buffer = P_Lparen\<rparr>"

definition p2_get :: "p2scanner \<Rightarrow> p2error + (p2token \<times> p2scanner)" where
  "p2_get sc =
     (if p2_full sc then Inr (p2_buffer sc, sc\<lparr>p2_full := False\<rparr>)
      else bnd (p2_scan (p2_source sc)) (\<lambda>(t, src). Inr (t, sc\<lparr>p2_source := src\<rparr>)))"

definition p2_peek :: "p2scanner \<Rightarrow> p2error + (p2token \<times> p2scanner)" where
  "p2_peek sc =
     (if p2_full sc then Inr (p2_buffer sc, sc)
      else bnd (p2_get sc) (\<lambda>(t, sc1). Inr (t, sc1\<lparr>p2_buffer := t, p2_full := True\<rparr>)))"

text \<open>Built without \<^verbatim>\<open>NDEBUG\<close>, \<^verbatim>\<open>Expects\<close> throws; with it, the buffer is overwritten.\<close>

definition p2_putback :: "bool \<Rightarrow> p2token \<Rightarrow> p2scanner \<Rightarrow> p2error + p2scanner" where
  "p2_putback ndebug t sc =
     (if p2_full sc \<and> \<not> ndebug then Inl P_Contract
      else Inr (sc\<lparr>p2_buffer := t, p2_full := True\<rparr>))"

fun p2_ignore_loop :: "nat \<Rightarrow> p2token \<Rightarrow> p2scanner \<Rightarrow> p2error + p2scanner" where
  "p2_ignore_loop 0 t sc = Inl (P_Fault Diverges)"
| "p2_ignore_loop (Suc n) t sc =
     bnd (p2_get sc) (\<lambda>(tok, sc1). if tok = t then Inr sc1 else p2_ignore_loop n t sc1)"

definition p2_ignore :: "nat \<Rightarrow> p2token \<Rightarrow> p2scanner \<Rightarrow> p2error + p2scanner" where
  "p2_ignore n t sc =
     (if p2_full sc \<and> p2_buffer sc = t then Inr (sc\<lparr>p2_full := False\<rparr>)
      else p2_ignore_loop n t (sc\<lparr>p2_full := False\<rparr>))"

definition p2_view :: "p2scanner \<Rightarrow> p2token option \<times> istream" where
  "p2_view sc = (if p2_full sc then Some (p2_buffer sc) else None, p2_source sc)"

interpretation p2: token_stream p2_get "p2_putback False" p2_view p2_scan P_Contract
  by unfold_locales (auto simp: p2_view_def p2_get_def p2_putback_def split: if_splits)

section \<open>Texts\<close>

text \<open>
  A text for every token: a blank ends the ones whose text has no end of its own, an indentation is
  a line end and its blanks.
\<close>

fun p2_text :: "p2token \<Rightarrow> string" where
  "p2_text P_Lparen = ''( ''"
| "p2_text P_Rparen = '') ''"
| "p2_text P_Plus = ''+ ''"
| "p2_text P_Minus = ''- ''"
| "p2_text P_Colon = '': ''"
| "p2_text P_Comma = '', ''"
| "p2_text P_Equals = ''= ''"
| "p2_text P_Def = ''def ''"
| "p2_text (P_Name w) = w @ '' ''"
| "p2_text (P_Integer i) = show_nat (nat i) @ '' ''"
| "p2_text (P_Indent w) = newline # replicate (unat w) CHR '' ''"
| "p2_text P_Eof = []"

fun p2_ok :: "p2token \<Rightarrow> bool" where
  "p2_ok (P_Name w) \<longleftrightarrow> w \<noteq> [] \<and> is_alpha (hd w) \<and> (\<forall>c \<in> set w. p2_name_char c) \<and> w \<noteq> ''def''"
| "p2_ok (P_Integer i) \<longleftrightarrow> 0 \<le> i \<and> in_int i"
| "p2_ok (P_Indent w) \<longleftrightarrow> w \<noteq> 0"
| "p2_ok P_Eof \<longleftrightarrow> False"
| "p2_ok t \<longleftrightarrow> True"

lemma p2_classes [simp]:
  "p2_symbol c = Some t \<Longrightarrow> \<not> is_space c" "is_alpha c \<Longrightarrow> p2_symbol c = None" "is_digit c \<Longrightarrow> p2_symbol c = None"
  "is_alpha c \<Longrightarrow> c \<noteq> newline" "is_digit c \<Longrightarrow> c \<noteq> newline" "\<not> p2_blank newline" "is_space CHR '' ''"
  "\<not> p2_name_char CHR '' ''" "p2_symbol CHR '' '' = None" "p2_symbol newline = None" "\<not> is_digit newline"
  "is_space newline" "CHR '' '' \<noteq> newline" "\<not> is_digit CHR '' ''" "\<not> is_alpha CHR '' ''"
  by (auto simp: p2_symbol_def is_space_def is_alpha_def is_digit_def newline_def p2_blank_def p2_name_char_def
      split: if_splits)

lemma get_ch_of_string [simp]:
  "get_ch (of_string (c # cs)) = (Some c, of_string cs)"
  "get_ch (of_string []) = (None, \<lparr>rest = [], eofbit = True, failbit = True\<rparr>)"
  "putback_ch c (of_string cs) = of_string (c # cs)"
  by (simp_all add: get_ch_def putback_ch_def good_def of_string_def)

lemma get_while_of_string:
  "get_while p ch (of_string cs) = (case dropWhile p cs of
     [] \<Rightarrow> (cs, last (ch # cs), \<lparr>rest = [], eofbit = True, failbit = True\<rparr>)
   | c # ds \<Rightarrow> (takeWhile p cs, c, of_string ds))"
  unfolding get_while_good [OF good_simps(2)]
  by (cases "dropWhile p cs") (simp_all add: of_string_def del: dropWhile_eq_Nil_conv)

lemma p2_scan_symbol: "p2_symbol c = Some t \<Longrightarrow> p2_scan (of_string (c # cs)) = Inr (t, of_string cs)"
  by (subst p2_scan.simps) simp

lemma p2_scan_end: "failbit s \<Longrightarrow> p2_scan s = Inr (P_Eof, s)"
  by (subst p2_scan.simps) (simp add: good_def)

lemma p2_scan_default:
  "p2_symbol c = None \<Longrightarrow> \<not> is_digit c \<Longrightarrow> c \<noteq> newline \<Longrightarrow>
   p2_scan (of_string (c # cs)) = p2_default c (of_string cs)"
  by (subst p2_scan.simps) simp

lemma p2_scan_blank:
  assumes "cs = [] \<or> \<not> p2_blank (hd cs)"
  shows "p2_scan (of_string (CHR '' '' # cs)) =
    (if cs = [] then Inr (P_Eof, \<lparr>rest = [], eofbit = True, failbit = True\<rparr>) else p2_scan (of_string cs))"
  using assms
  by (cases cs) (simp_all add: p2_scan_default p2_default.simps [of "CHR '' ''"] get_while_of_string)

lemma p2_scan_int:
  assumes "0 \<le> i" "in_int i"
  shows "p2_scan (of_string (show_nat (nat i) @ CHR '' '' # cs)) = Inr (P_Integer i, of_string (CHR '' '' # cs))"
proof -
  obtain d ds where d: "show_nat (nat i) = d # ds" "is_digit d" "\<forall>c \<in> set ds. is_digit c"
    "number (d # ds) = i"
    using show_nat_digits [of "nat i"] assms(1) by (cases "show_nat (nat i)") auto
  then have "takeWhile is_digit (d # ds @ CHR '' '' # cs) = d # ds"
    "dropWhile is_digit (d # ds @ CHR '' '' # cs) = CHR '' '' # cs"
    by (simp_all add: takeWhile_append2 dropWhile_append2)
  with d have "read_int (of_string (d # ds @ CHR '' '' # cs)) = (i, of_string (CHR '' '' # cs))"
    using assms(2) by (simp add: read_int_def Let_def of_string_def)
  with d show ?thesis
    by (subst p2_scan.simps) simp
qed

lemma p2_scan_word:
  assumes "is_alpha c" "\<forall>c \<in> set w. p2_name_char c"
  shows "p2_scan (of_string (c # w @ CHR '' '' # cs)) = Inr (p2_word (c # w), of_string (CHR '' '' # cs))"
proof -
  have "\<not> is_digit c" using assms(1) by (auto simp: is_digit_def is_alpha_def)
  with assms show ?thesis
    by (simp add: p2_scan_default p2_default.simps [of c] get_while_of_string takeWhile_append2 dropWhile_append2)
qed

lemma p2_scan_indent:
  assumes "0 < i" "cs = [] \<or> \<not> p2_blank (hd cs)"
  shows "\<exists>s. p2_scan (of_string (newline # replicate i CHR '' '' @ cs)) = Inr (P_Indent (of_nat i), s) \<and>
    (if cs = [] then failbit s else s = of_string cs)"
proof (cases i)
  case (Suc j)
  have "p2_blank CHR '' ''" by (simp add: p2_blank_def)
  then have "takeWhile p2_blank (replicate j CHR '' '' @ cs) = replicate j CHR '' '' @ takeWhile p2_blank cs"
    "dropWhile p2_blank (replicate j CHR '' '' @ cs) = dropWhile p2_blank cs"
    by (induction j) simp_all
  moreover have "takeWhile p2_blank cs = [] \<and> dropWhile p2_blank cs = cs"
    using assms(2) by (cases cs) simp_all
  ultimately have "get_while p2_blank CHR '' '' (of_string (replicate j CHR '' '' @ cs)) = (case cs of
      [] \<Rightarrow> (replicate j CHR '' '', CHR '' '', \<lparr>rest = [], eofbit = True, failbit = True\<rparr>)
    | c # ds \<Rightarrow> (replicate j CHR '' '', c, of_string ds))"
    unfolding get_while_of_string by (cases cs) simp_all
  with Suc show ?thesis
    by (subst p2_scan.simps) (cases cs, simp_all add: get_while_of_string [of "\<lambda>c. c = newline"] putback_ch_def)
qed (use assms(1) in simp)

text \<open>\<open>p2_at ts s\<close>: the stream is at the text of \<open>ts\<close>, perhaps in front of the blank of the token before.\<close>

definition p2_texts :: "p2token list \<Rightarrow> string" where
  "p2_texts ts = concat (map p2_text ts)"

definition p2_at :: "p2token list \<Rightarrow> istream \<Rightarrow> bool" where
  "p2_at ts s \<longleftrightarrow> s = of_string (p2_texts ts) \<or> s = of_string (CHR '' '' # p2_texts ts) \<or> ts = [] \<and> failbit s"

lemma p2_text_head: "p2_ok t \<Longrightarrow> p2_text t \<noteq> [] \<and> \<not> p2_blank (hd (p2_text t))"
proof (cases t)
  case (P_Name w)
  then show "p2_ok t \<Longrightarrow> ?thesis" by (cases w) (auto simp: p2_blank_def)
next
  case (P_Integer i)
  then show ?thesis
    using show_nat_digits [of "nat i"] by (cases "show_nat (nat i)") (auto simp: p2_blank_def)
qed (simp_all add: p2_blank_def is_space_def)

lemma p2_texts_head: "\<forall>t \<in> set ts. p2_ok t \<Longrightarrow> p2_texts ts = [] \<or> \<not> p2_blank (hd (p2_texts ts))"
  using p2_text_head by (cases ts) (auto simp: p2_texts_def)

lemma p2_texts_empty: "\<forall>t \<in> set ts. p2_ok t \<Longrightarrow> p2_texts ts = [] \<Longrightarrow> ts = []"
  using p2_text_head by (cases ts) (auto simp: p2_texts_def)

lemma p2_scan_text:
  assumes "p2_ok t" "\<forall>t \<in> set ts. p2_ok t"
  shows "\<exists>s. p2_scan (of_string (p2_text t @ p2_texts ts)) = Inr (t, s) \<and> p2_at ts s"
proof (cases t)
  case (P_Name w)
  then obtain c v where "w = c # v" "is_alpha c" "\<forall>c \<in> set v. p2_name_char c" "w \<noteq> ''def''"
    using assms(1) by (cases w) auto
  with P_Name show ?thesis
    by (simp add: p2_scan_word p2_word_def p2_at_def)
next
  case P_Def
  show ?thesis
    using p2_scan_word [of "CHR ''d''" "''ef''" "p2_texts ts"] P_Def
    by (simp add: p2_word_def p2_at_def is_alpha_def p2_name_char_def)
next
  case (P_Integer i)
  then show ?thesis using assms(1) by (simp add: p2_scan_int p2_at_def)
next
  case (P_Indent w)
  then have "0 < unat w" using assms(1) by (simp add: unat_gt_0)
  from p2_scan_indent [OF this p2_texts_head [OF assms(2)]] P_Indent p2_texts_empty [OF assms(2)]
  show ?thesis
    by (auto simp: p2_at_def split: if_splits)
qed (use assms(1) in \<open>simp_all add: p2_scan_symbol p2_symbol_def p2_at_def\<close>)

lemma p2_at_nil: "p2_at [] s \<Longrightarrow> \<exists>s'. p2_scan s = Inr (P_Eof, s') \<and> failbit s'"
proof -
  have "p2_scan (of_string []) = Inr (P_Eof, \<lparr>rest = [], eofbit = True, failbit = True\<rparr>)"
    by (subst p2_scan.simps) simp
  then show "p2_at [] s \<Longrightarrow> ?thesis"
    by (auto simp: p2_at_def p2_texts_def p2_scan_end p2_scan_blank)
qed

lemma p2_at_cons:
  assumes "p2_at (t # ts) s" "p2_ok t" "\<forall>t \<in> set ts. p2_ok t"
  shows "\<exists>s'. p2_scan s = Inr (t, s') \<and> p2_at ts s'"
proof -
  have "p2_scan s = p2_scan (of_string (p2_text t @ p2_texts ts))"
    using assms(1) p2_text_head [OF assms(2)] p2_scan_blank [of "p2_text t @ p2_texts ts"]
    by (auto simp: p2_at_def p2_texts_def)
  with p2_scan_text [OF assms(2,3)] show ?thesis by simp
qed

text \<open>\<open>p2_reads sc ts\<close>: \<open>get\<close> returns the tokens one after the other.\<close>

fun p2_reads :: "p2scanner \<Rightarrow> p2token list \<Rightarrow> bool" where
  "p2_reads sc [] = True"
| "p2_reads sc (t # ts) = (case p2_get sc of Inl e \<Rightarrow> False | Inr (t', sc') \<Rightarrow> t' = t \<and> p2_reads sc' ts)"

lemma p2_reads_at:
  "\<forall>t \<in> set ts. p2_ok t \<Longrightarrow> \<not> p2_full sc \<Longrightarrow> p2_at ts (p2_source sc) \<Longrightarrow> p2_reads sc (ts @ [P_Eof, P_Eof])"
proof (induction ts arbitrary: sc)
  case Nil
  then obtain s where "p2_scan (p2_source sc) = Inr (P_Eof, s)" "failbit s" using p2_at_nil by blast
  with Nil show ?case by (simp add: p2_get_def p2_scan_end)
next
  case (Cons t ts)
  then obtain s where "p2_scan (p2_source sc) = Inr (t, s)" "p2_at ts s"
    using p2_at_cons [of t ts "p2_source sc"] by auto
  with Cons show ?case by (simp add: p2_get_def)
qed

text \<open>C32 (The scanner reads back what its tokens print). The text of any sequence of tokens, names and
  keywords, numbers and punctuation followed by a blank, and an indentation as a line end and its
  blanks, is scanned to exactly these tokens and then to the end of the input, again and again.\<close>

theorem p2_roundtrip:
  assumes "\<forall>t \<in> set ts. p2_ok t"
  shows "p2_reads (p2_new (of_string (p2_texts ts))) (ts @ [P_Eof, P_Eof])"
  using assms by (simp add: p2_reads_at p2_new_def p2_at_def)

theorem p2_roundtrip_witness:
  "p2_reads (p2_new (of_string ''def f ( x ) : '')) [P_Def, P_Name ''f'', P_Lparen, P_Name ''x'', P_Rparen, P_Colon, P_Eof, P_Eof]"
  using p2_roundtrip [of "[P_Def, P_Name ''f'', P_Lparen, P_Name ''x'', P_Rparen, P_Colon]"]
  by (simp add: p2_texts_def is_alpha_def p2_name_char_def)

section \<open>Where it fails\<close>

text \<open>A punctuation character at the start of a line is no token: the \<^verbatim>\<open>switch\<close> is not entered again.\<close>

lemma p2_symbol_after_newline:
  "p2_symbol c = Some t \<Longrightarrow> p2_scan (of_string (newline # c # cs)) = Inl P_Invalid_Token"
  by (subst p2_scan.simps, auto simp: get_while_of_string p2_default.simps)

text \<open>\<open>ignore\<close> never returns when the token does not come.\<close>

lemma p2_ignore_diverges:
  "\<not> p2_full sc \<Longrightarrow> failbit (p2_source sc) \<Longrightarrow> t \<noteq> P_Eof \<Longrightarrow> p2_ignore n t sc = Inl (P_Fault Diverges)"
  unfolding p2_ignore_def
  by (induction n) (simp_all add: p2_get_def p2_scan_end)

end
