(* ===== verification/Animation_Spec.thy ===== *)
theory Animation_Spec
  imports Prelude "HOL-Library.Word"
begin

text \<open>
  The animation that the programs of \<^verbatim>\<open>src/State_machines\<close> implement in different ways: it plays,
  is paused or idle, and counts the updates it gets while it plays. The contract has two parameters:
  the count that ends the animation, if there is one, and whether stopping a paused animation keeps
  the count.
\<close>

datatype a_mode = Animating | Paused | Idle

datatype a_event = Play_Event | Pause_Event | Stop_Event | Update_Event

definition over :: "32 word option \<Rightarrow> 32 word \<Rightarrow> bool" where
  "over limit n = (case limit of None \<Rightarrow> False | Some l \<Rightarrow> l \<le> n)"

fun anim_step :: "bool \<Rightarrow> 32 word option \<Rightarrow> a_event \<Rightarrow> a_mode \<times> 32 word \<Rightarrow> a_mode \<times> 32 word" where
  "anim_step keep limit Update_Event (Animating, n) =
     (if over limit (n + 1) then (Idle, 0) else (Animating, n + 1))"
| "anim_step keep limit Pause_Event (Animating, n) = (Paused, n)"
| "anim_step keep limit Stop_Event (Animating, n) = (Idle, 0)"
| "anim_step keep limit Play_Event (Paused, n) = (Animating, n)"
| "anim_step keep limit Stop_Event (Paused, n) = (Idle, if keep then n else 0)"
| "anim_step keep limit Play_Event (Idle, n) = (Animating, n)"
| "anim_step keep limit e (mode, n) = (mode, n)"

primrec run_events :: "('e \<Rightarrow> 'm \<Rightarrow> 'x + 'm) \<Rightarrow> 'e list \<Rightarrow> 'm \<Rightarrow> 'x + 'm" where
  "run_events step [] m = Inr m"
| "run_events step (e # es) m = bnd (step e m) (run_events step es)"

locale animation =
  fixes step :: "a_event \<Rightarrow> 'm \<Rightarrow> 'x + 'm"
    and inv :: "'m \<Rightarrow> bool"
    and view :: "'m \<Rightarrow> a_mode \<times> 32 word"
    and keep :: bool
    and limit :: "32 word option"
  assumes step_ok: "inv m \<Longrightarrow> \<exists>m'. step e m = Inr m' \<and> inv m' \<and> view m' = anim_step keep limit e (view m)"
begin

text \<open>No event fails, and the machine does what the contract says.\<close>

lemma run_refines:
  "inv m \<Longrightarrow> \<exists>m'. run_events step es m = Inr m' \<and> inv m' \<and>
     view m' = fold (anim_step keep limit) es (view m)"
proof (induction es arbitrary: m)
  case (Cons e es)
  then obtain m' where "step e m = Inr m'" "inv m'" "view m' = anim_step keep limit e (view m)"
    using step_ok by blast
  with Cons.IH [of m'] show ?case by simp
qed simp

end

text \<open>An animation with a limit stays below it; a stopped one has no count.\<close>

locale limited_animation = animation step inv view False "Some l"
  for step :: "a_event \<Rightarrow> 'm \<Rightarrow> 'x + 'm" and inv :: "'m \<Rightarrow> bool" and view :: "'m \<Rightarrow> a_mode \<times> 32 word"
    and l :: "32 word" +
  assumes pos: "0 < l"
begin

definition bounded :: "'m \<Rightarrow> bool" where
  "bounded m \<longleftrightarrow> snd (view m) < l \<and> (fst (view m) = Idle \<longrightarrow> snd (view m) = 0)"

lemma step_bounded:
  assumes "inv m" "bounded m" "step e m = Inr m'"
  shows "inv m'" and "bounded m'"
proof -
  from step_ok [OF assms(1), of e] assms(3) have
    v: "inv m'" "view m' = anim_step False (Some l) e (view m)" by auto
  from v(1) show "inv m'" .
  show "bounded m'"
    using assms(2) v(2) pos
    by (cases "view m"; cases "fst (view m)"; cases e) (auto simp: bounded_def over_def)
qed

text \<open>
  As long as nobody pauses or stops it, a playing animation becomes idle when it has been updated
  often enough.
\<close>

lemma becomes_idle:
  assumes "inv m" "bounded m" "fst (view m) = Animating" "set es \<subseteq> {Update_Event, Play_Event}"
    and "unat l - unat (snd (view m)) \<le> length (filter (\<lambda>e. e = Update_Event) es)"
  shows "\<exists>us vs m'. es = us @ vs \<and> run_events step us m = Inr m' \<and> view m' = (Idle, 0)"
  using assms
proof (induction es arbitrary: m)
  case Nil
  then show ?case by (simp add: bounded_def word_less_nat_alt)
next
  case (Cons e es)
  obtain n where n: "view m = (Animating, n)" "n < l"
    using Cons.prems(2,3) by (cases "view m") (auto simp: bounded_def)
  from step_ok [OF Cons.prems(1), of e] obtain m' where
    m': "step e m = Inr m'" "inv m'" "view m' = anim_step False (Some l) e (view m)" by auto
  from step_bounded(2) [OF Cons.prems(1,2) m'(1)] have "bounded m'" .
  have suc: "unat (n + 1) = Suc (unat n)"
    using n(2) unsigned_less [of l, where ?'a = nat] unat_add_lem [of n 1] by (simp add: word_less_nat_alt)
  show ?case
  proof (cases "fst (view m') = Animating")
    case True
    have "unat l - unat (snd (view m')) \<le> length (filter (\<lambda>e. e = Update_Event) es)"
      using Cons.prems(4,5) m'(3) n suc True by (auto split: if_splits)
    with Cons.IH [OF m'(2) \<open>bounded m'\<close> True] Cons.prems(4) obtain us vs m'' where
      "es = us @ vs" "run_events step us m' = Inr m''" "view m'' = (Idle, 0)" by auto
    with m'(1) have "e # es = (e # us) @ vs \<and> run_events step (e # us) m = Inr m'' \<and> view m'' = (Idle, 0)"
      by simp
    then show ?thesis by blast
  next
    case False
    with Cons.prems(4) m'(3) n have "view m' = (Idle, 0)" by (auto split: if_splits)
    with m'(1) have "e # es = [e] @ es \<and> run_events step [e] m = Inr m' \<and> view m' = (Idle, 0)" by simp
    then show ?thesis by blast
  qed
qed

end

end
