(* ===== verification/Tiny_Fsm.thy ===== *)
theory Tiny_Fsm
  imports Animation_Spec
begin

text \<open>
  The machine of \<^verbatim>\<open>src/State_machines/tiny_fsm/first.cpp\<close>: a state is an object, an event a virtual
  function of it, the next state comes from a table of types. \<^verbatim>\<open>entry\<close> and \<^verbatim>\<open>exit\<close> are empty.
\<close>

section \<open>States, events, the table\<close>

datatype t_state = StateAnimating | StatePaused | StateIdle

text \<open>The pointer to the current state is null before \<open>start\<close>; one object of every state exists.\<close>

record t_fsm =
  t_current :: "t_state option"
  t_counter :: "32 word"

definition t_initial :: t_fsm where
  "t_initial = \<lparr>t_current = None, t_counter = 0\<rparr>"

fun fsm_state_map :: "t_state \<Rightarrow> a_event \<Rightarrow> t_state" where
  "fsm_state_map StateAnimating Update_Event = StateIdle"
| "fsm_state_map StateAnimating Play_Event = StateAnimating"
| "fsm_state_map StateAnimating Pause_Event = StatePaused"
| "fsm_state_map StateAnimating Stop_Event = StateIdle"
| "fsm_state_map StatePaused Update_Event = StatePaused"
| "fsm_state_map StatePaused Play_Event = StateAnimating"
| "fsm_state_map StatePaused Pause_Event = StatePaused"
| "fsm_state_map StatePaused Stop_Event = StateIdle"
| "fsm_state_map StateIdle Update_Event = StateIdle"
| "fsm_state_map StateIdle Play_Event = StateAnimating"
| "fsm_state_map StateIdle Pause_Event = StateIdle"
| "fsm_state_map StateIdle Stop_Event = StateIdle"

section \<open>Transitions\<close>

definition t_exit :: "t_fsm \<Rightarrow> t_fsm" where
  "t_exit m = m"

definition t_entry :: "t_fsm \<Rightarrow> t_fsm" where
  "t_entry m = m"

definition t_transit :: "t_state \<Rightarrow> a_event \<Rightarrow> t_fsm \<Rightarrow> t_fsm" where
  "t_transit s e m = t_entry ((t_exit m)\<lparr>t_current := Some (fsm_state_map s e)\<rparr>)"

text \<open>With an action, the entry function of the new state is not called.\<close>

definition t_transit_action :: "t_state \<Rightarrow> a_event \<Rightarrow> (t_fsm \<Rightarrow> t_fsm) \<Rightarrow> t_fsm \<Rightarrow> t_fsm" where
  "t_transit_action s e action m = (action (t_exit m))\<lparr>t_current := Some (fsm_state_map s e)\<rparr>"

definition t_transit_if ::
  "t_state \<Rightarrow> a_event \<Rightarrow> (t_fsm \<Rightarrow> t_fsm) \<Rightarrow> bool \<Rightarrow> t_fsm \<Rightarrow> t_fsm" where
  "t_transit_if s e action condition m = (if condition then t_transit_action s e action m else m)"

definition counter_limit :: "32 word" where
  "counter_limit = 42"

definition reset_counter :: "t_fsm \<Rightarrow> t_fsm" where
  "reset_counter m = m\<lparr>t_counter := 0\<rparr>"

fun t_react :: "t_state \<Rightarrow> a_event \<Rightarrow> t_fsm \<Rightarrow> t_fsm" where
  "t_react StateAnimating Update_Event m =
     (let m1 = m\<lparr>t_counter := t_counter m + 1\<rparr> in
      t_transit_if StateAnimating Update_Event reset_counter (counter_limit \<le> t_counter m1) m1)"
| "t_react StateAnimating Play_Event m = m"
| "t_react StateAnimating Pause_Event m = t_transit StateAnimating Pause_Event m"
| "t_react StateAnimating Stop_Event m = t_transit_action StateAnimating Stop_Event reset_counter m"
| "t_react StatePaused Update_Event m = m"
| "t_react StatePaused Play_Event m = t_transit StatePaused Play_Event m"
| "t_react StatePaused Pause_Event m = m"
| "t_react StatePaused Stop_Event m = t_transit_action StatePaused Stop_Event reset_counter m"
| "t_react StateIdle Update_Event m = m"
| "t_react StateIdle Play_Event m = t_transit StateIdle Play_Event m"
| "t_react StateIdle Pause_Event m = m"
| "t_react StateIdle Stop_Event m = m"

section \<open>The machine\<close>

definition t_set_initial_state :: "t_fsm \<Rightarrow> t_fsm" where
  "t_set_initial_state m = m\<lparr>t_current := Some StateIdle\<rparr>"

definition t_enter :: "t_fsm \<Rightarrow> fault + t_fsm" where
  "t_enter m = (case t_current m of None \<Rightarrow> Inl Null_Deref | Some s \<Rightarrow> Inr (t_entry m))"

definition t_start :: "t_fsm \<Rightarrow> fault + t_fsm" where
  "t_start m = t_enter (t_set_initial_state m)"

definition t_dispatch :: "a_event \<Rightarrow> t_fsm \<Rightarrow> fault + t_fsm" where
  "t_dispatch e m = (case t_current m of None \<Rightarrow> Inl Null_Deref | Some s \<Rightarrow> Inr (t_react s e m))"

definition is_in_state :: "t_state \<Rightarrow> t_fsm \<Rightarrow> bool" where
  "is_in_state s m \<longleftrightarrow> t_current m = Some s"

text \<open>\<open>t_event_list\<close> is \<^verbatim>\<open>EventList::dispatch\<close>; \<open>t_main\<close> the laps of \<^verbatim>\<open>main\<close>.\<close>

definition t_event_list :: "a_event list \<Rightarrow> t_fsm \<Rightarrow> fault + t_fsm" where
  "t_event_list = run_events t_dispatch"

definition benchmark_events :: "a_event list" where
  "benchmark_events = [Play_Event, Update_Event, Pause_Event, Update_Event, Play_Event, Update_Event,
     Stop_Event, Play_Event, Update_Event, Stop_Event]"

fun t_laps :: "nat \<Rightarrow> t_fsm \<Rightarrow> fault + t_fsm" where
  "t_laps 0 m = Inr m"
| "t_laps (Suc n) m = bnd (t_event_list benchmark_events m) (t_laps n)"

definition t_main :: "nat \<Rightarrow> fault + t_fsm" where
  "t_main laps = bnd (t_start t_initial) (t_laps laps)"

section \<open>The machine is an animation with a limit\<close>

definition t_view :: "t_fsm \<Rightarrow> a_mode \<times> 32 word" where
  "t_view m = (case t_current m of
       Some StateAnimating \<Rightarrow> Animating | Some StatePaused \<Rightarrow> Paused | _ \<Rightarrow> Idle, t_counter m)"

definition t_started :: "t_fsm \<Rightarrow> bool" where
  "t_started m \<longleftrightarrow> t_current m \<noteq> None"

interpretation tiny: limited_animation t_dispatch t_started t_view 42
proof
  fix m e
  assume "t_started m"
  then obtain s where "t_current m = Some s" by (auto simp: t_started_def)
  then show "\<exists>m'. t_dispatch e m = Inr m' \<and> t_started m' \<and>
      t_view m' = anim_step False (Some 42) e (t_view m)"
    by (cases s; cases e) (auto simp: t_dispatch_def t_started_def t_view_def t_transit_def t_entry_def
        t_exit_def t_transit_action_def t_transit_if_def reset_counter_def counter_limit_def over_def Let_def)
qed simp

inductive t_reach :: "t_fsm \<Rightarrow> bool" where
  start: "t_start t_initial = Inr m \<Longrightarrow> t_reach m"
| dispatch: "t_reach m \<Longrightarrow> t_dispatch e m = Inr m' \<Longrightarrow> t_reach m'"

lemma reach_start: "t_start t_initial = Inr m \<longleftrightarrow> m = \<lparr>t_current = Some StateIdle, t_counter = 0\<rparr>"
  by (auto simp: t_start_def t_initial_def t_set_initial_state_def t_enter_def t_entry_def)

lemma reach_inv: "t_reach m \<Longrightarrow> t_started m \<and> tiny.bounded m"
proof (induction rule: t_reach.induct)
  case (start m)
  then have m: "m = \<lparr>t_current = Some StateIdle, t_counter = 0\<rparr>" by (simp add: reach_start)
  show ?case unfolding tiny.bounded_def m by (simp add: t_started_def t_view_def)
next
  case (dispatch m e m')
  then show ?case using tiny.step_bounded [of m e m'] by simp
qed

lemma reach_view:
  "t_reach m \<Longrightarrow> is_in_state StateAnimating m \<longleftrightarrow> fst (t_view m) = Animating"
  "t_reach m \<Longrightarrow> is_in_state StateIdle m \<longleftrightarrow> fst (t_view m) = Idle"
  using reach_inv [of m]
  by (auto simp: is_in_state_def t_view_def t_started_def split: option.splits t_state.splits)

lemma reach_run: "t_reach m \<Longrightarrow> t_event_list es m = Inr m' \<Longrightarrow> t_reach m'"
  by (induction es arbitrary: m) (auto simp: t_event_list_def intro: t_reach.dispatch)

lemma reach_playing: "t_reach \<lparr>t_current = Some StateAnimating, t_counter = 0\<rparr>"
proof -
  have "t_reach \<lparr>t_current = Some StateIdle, t_counter = 0\<rparr>" by (rule t_reach.start) (simp add: reach_start)
  then show ?thesis
    by (rule t_reach.dispatch [where e = Play_Event]) (simp add: t_dispatch_def t_transit_def t_exit_def t_entry_def)
qed

section \<open>Properties\<close>

text \<open>The counter stays below its limit. In every state the started machine can reach, the counter is
  below 42, it is 0 when the machine is idle, and every event is handled.\<close>

theorem tiny_bounded:
  assumes "t_reach m"
  shows "t_counter m < counter_limit \<and> (is_in_state StateIdle m \<longrightarrow> t_counter m = 0) \<and>
    (\<exists>m'. t_dispatch e m = Inr m')"
  using reach_inv [OF assms] reach_view(2) [OF assms] tiny.step_ok [of m e]
  by (auto simp: tiny.bounded_def t_view_def counter_limit_def)

theorem tiny_bounded_witness:
  "t_counter \<lparr>t_current = Some StateAnimating, t_counter = 0\<rparr> < counter_limit"
  using tiny_bounded [OF reach_playing] by simp

text \<open>A playing animation comes to its end. From every reachable state in which the machine plays, any
  sequence of events with neither a pause nor a stop that updates it 42 times takes it, at some
  point, to the idle state with the counter at 0.\<close>

theorem tiny_returns_to_idle:
  assumes "t_reach m" and "is_in_state StateAnimating m"
    and "set es \<subseteq> {Update_Event, Play_Event}" and "42 \<le> length (filter (\<lambda>e. e = Update_Event) es)"
  shows "\<exists>us vs. es = us @ vs \<and> t_event_list us m = Inr \<lparr>t_current = Some StateIdle, t_counter = 0\<rparr>"
proof -
  have "unat (42 :: 32 word) - unat (snd (t_view m)) \<le> length (filter (\<lambda>e. e = Update_Event) es)"
    using assms(4) by simp
  then obtain us vs m' where m': "es = us @ vs" "run_events t_dispatch us m = Inr m'" "t_view m' = (Idle, 0)"
    using tiny.becomes_idle [of m es] assms(1-3) reach_inv [OF assms(1)] reach_view(1) [OF assms(1)] by auto
  have "t_reach m'" using reach_run [OF assms(1)] m'(2) by (simp add: t_event_list_def)
  with m'(3) have "m' = \<lparr>t_current = Some StateIdle, t_counter = 0\<rparr>"
    using reach_view(2) [of m'] by (simp add: is_in_state_def t_view_def)
  with m'(1,2) show ?thesis by (auto simp: t_event_list_def)
qed

theorem tiny_returns_to_idle_witness:
  "\<exists>us vs. replicate 42 Update_Event = us @ vs \<and> t_event_list us \<lparr>t_current = Some StateAnimating, t_counter = 0\<rparr> =
     Inr \<lparr>t_current = Some StateIdle, t_counter = 0\<rparr>"
proof (rule tiny_returns_to_idle [OF reach_playing])
  show "is_in_state StateAnimating \<lparr>t_current = Some StateAnimating, t_counter = 0\<rparr>"
    by (simp add: is_in_state_def)
  show "set (replicate 42 Update_Event) \<subseteq> {Update_Event, Play_Event}"
    by (simp only: set_replicate_conv_if) simp
  show "42 \<le> length (filter (\<lambda>e. e = Update_Event) (replicate 42 Update_Event))"
    by (simp only: filter_replicate length_replicate if_True simp_thms order_refl)
qed

text \<open>The benchmark returns to the idle state after every lap.\<close>

lemma t_main_idle: "t_main laps = Inr \<lparr>t_current = Some StateIdle, t_counter = 0\<rparr>"
proof -
  let ?idle = "\<lparr>t_current = Some StateIdle, t_counter = 0\<rparr>"
  have "fold (anim_step False (Some 42)) benchmark_events (Idle, 0) = (Idle, 0)"
    by (simp add: benchmark_events_def over_def)
  then obtain m where m: "t_event_list benchmark_events ?idle = Inr m" "t_view m = (Idle, 0)"
    using tiny.run_refines [of ?idle benchmark_events] by (auto simp: t_event_list_def t_started_def t_view_def)
  have "t_reach m"
    using reach_run [OF t_reach.start m(1)] reach_start by simp
  with m have lap: "t_event_list benchmark_events ?idle = Inr ?idle"
    using reach_view(2) [of m] by (simp add: is_in_state_def t_view_def)
  have "t_laps laps \<lparr>t_current = Some StateIdle, t_counter = 0\<rparr> = Inr \<lparr>t_current = Some StateIdle, t_counter = 0\<rparr>"
    by (induction laps) (simp_all add: lap)
  moreover have "t_start t_initial = Inr ?idle"
    by (simp add: t_start_def t_initial_def t_set_initial_state_def t_enter_def t_entry_def)
  ultimately show ?thesis by (simp add: t_main_def)
qed

end
