(* ===== verification/Naive_Fsm.thy ===== *)
theory Naive_Fsm
  imports Animation_Spec
begin

text \<open>
  The machine of \<^verbatim>\<open>src/State_machines/naive_fsm/second.cpp\<close>: a table of handlers, each with a counter,
  and a table of transitions. Indices outside of the tables are undefined behaviour.
\<close>

section \<open>Events and states\<close>

datatype n_event = Play | Pause | Stop | Update | Show | NumEvents

datatype n_state = N_Animating | N_Paused | N_Idle | NumStates

fun n_event_index :: "n_event \<Rightarrow> nat" where
  "n_event_index Play = 0"
| "n_event_index Pause = 1"
| "n_event_index Stop = 2"
| "n_event_index Update = 3"
| "n_event_index Show = 4"
| "n_event_index NumEvents = 5"

fun n_state_index :: "n_state \<Rightarrow> nat" where
  "n_state_index N_Animating = 0"
| "n_state_index N_Paused = 1"
| "n_state_index N_Idle = 2"
| "n_state_index NumStates = 3"

section \<open>The handlers\<close>

text \<open>What a handler prints: the count in a state, or the message of its \<^verbatim>\<open>default\<close> label.\<close>

datatype n_output =
    Count n_state "32 word"
  | Default_Reached n_state

datatype n_handler = Handle_Animating | Handle_Paused | Handle_Idle

record n_state_type =
  n_handler :: n_handler
  n_counter :: "32 word"

type_synonym n_table = "n_state_type list"

definition animation_state_handlers :: n_table where
  "animation_state_handlers =
     [\<lparr>n_handler = Handle_Animating, n_counter = 0\<rparr>, \<lparr>n_handler = Handle_Paused, n_counter = 0\<rparr>,
      \<lparr>n_handler = Handle_Idle, n_counter = 0\<rparr>]"

definition n_get :: "n_state \<Rightarrow> n_table \<Rightarrow> 32 word" where
  "n_get s tbl = n_counter (tbl ! n_state_index s)"

definition n_set :: "n_state \<Rightarrow> 32 word \<Rightarrow> n_table \<Rightarrow> n_table" where
  "n_set s n tbl = tbl[n_state_index s := (tbl ! n_state_index s)\<lparr>n_counter := n\<rparr>]"

fun handle_animating :: "n_event \<Rightarrow> n_table \<Rightarrow> n_output list \<times> n_table" where
  "handle_animating Play tbl = ([], tbl)"
| "handle_animating Pause tbl = ([], n_set N_Paused (n_get N_Animating tbl) tbl)"
| "handle_animating Stop tbl = ([], n_set N_Animating 0 tbl)"
| "handle_animating Update tbl = ([], n_set N_Animating (n_get N_Animating tbl + 1) tbl)"
| "handle_animating Show tbl = ([Count N_Animating (n_get N_Animating tbl)], tbl)"
| "handle_animating NumEvents tbl = ([Default_Reached N_Animating], tbl)"

fun handle_paused :: "n_event \<Rightarrow> n_table \<Rightarrow> n_output list \<times> n_table" where
  "handle_paused Play tbl = ([], n_set N_Animating (n_get N_Paused tbl) tbl)"
| "handle_paused Stop tbl = ([], n_set N_Paused 0 tbl)"
| "handle_paused Pause tbl = ([], tbl)"
| "handle_paused Update tbl = ([], tbl)"
| "handle_paused Show tbl = ([Count N_Paused (n_get N_Paused tbl)], tbl)"
| "handle_paused NumEvents tbl = ([Default_Reached N_Paused], tbl)"

fun handle_idle :: "n_event \<Rightarrow> n_table \<Rightarrow> n_output list \<times> n_table" where
  "handle_idle Show tbl = ([Count N_Idle (n_get N_Idle tbl)], tbl)"
| "handle_idle NumEvents tbl = ([Default_Reached N_Idle], tbl)"
| "handle_idle e tbl = ([], tbl)"

fun n_invoke :: "n_handler \<Rightarrow> n_event \<Rightarrow> n_table \<Rightarrow> n_output list \<times> n_table" where
  "n_invoke Handle_Animating = handle_animating"
| "n_invoke Handle_Paused = handle_paused"
| "n_invoke Handle_Idle = handle_idle"

section \<open>The machine\<close>

definition animation_transitions :: "n_state list list" where
  "animation_transitions =
     [[N_Animating, N_Paused, N_Idle, N_Animating, N_Animating],
      [N_Animating, N_Paused, N_Idle, N_Paused, N_Paused],
      [N_Animating, N_Idle, N_Idle, N_Idle, N_Idle]]"

record n_fsm =
  current_state :: n_state
  state_table :: n_table
  transition_table :: "n_state list list"

definition n_fsm_new :: "n_table \<Rightarrow> n_state list list \<Rightarrow> n_state \<Rightarrow> n_fsm" where
  "n_fsm_new tbl trs s = \<lparr>current_state = s, state_table = tbl, transition_table = trs\<rparr>"

definition n_initial_state :: "n_state \<Rightarrow> n_fsm \<Rightarrow> n_fsm" where
  "n_initial_state s m = m\<lparr>current_state := s\<rparr>"

definition n_transition :: "n_event \<Rightarrow> n_fsm \<Rightarrow> fault + n_fsm" where
  "n_transition e m =
     (let i = n_state_index (current_state m); j = n_event_index e in
      if i < length (transition_table m) \<and> j < length (transition_table m ! i)
      then Inr (m\<lparr>current_state := transition_table m ! i ! j\<rparr>) else Inl Out_Of_Bounds)"

definition n_handle :: "n_event \<Rightarrow> n_fsm \<Rightarrow> fault + n_output list \<times> n_fsm" where
  "n_handle e m =
     (let i = n_state_index (current_state m) in
      if i < length (state_table m) then
        (let (out, tbl) = n_invoke (n_handler (state_table m ! i)) e (state_table m) in
         bnd (n_transition e (m\<lparr>state_table := tbl\<rparr>)) (\<lambda>m'. Inr (out, m')))
      else Inl Out_Of_Bounds)"

primrec n_run :: "n_event list \<Rightarrow> n_fsm \<Rightarrow> fault + n_output list \<times> n_fsm" where
  "n_run [] m = Inr ([], m)"
| "n_run (e # es) m = bnd (n_handle e m) (\<lambda>(out, m1).
     bnd (n_run es m1) (\<lambda>(outs, m2). Inr (out @ outs, m2)))"

definition n_animation :: n_fsm where
  "n_animation = n_fsm_new animation_state_handlers animation_transitions N_Idle"

definition run_animation :: "n_fsm \<Rightarrow> fault + n_output list \<times> n_fsm" where
  "run_animation = n_run [Play, Update, Pause, Update, Play, Update, Stop, Play, Update, Stop]"

section \<open>The machine is an animation\<close>

fun n_mode :: "n_state \<Rightarrow> a_mode" where
  "n_mode N_Animating = Animating"
| "n_mode N_Paused = Paused"
| "n_mode s = Idle"

fun n_of :: "a_event \<Rightarrow> n_event" where
  "n_of Play_Event = Play"
| "n_of Pause_Event = Pause"
| "n_of Stop_Event = Stop"
| "n_of Update_Event = Update"

text \<open>
  The count is in the handler of the playing state; the one of the paused state agrees with it
  while the machine is paused, the one of the idle state is always 0.
\<close>

definition n_ok :: "n_fsm \<Rightarrow> bool" where
  "n_ok m \<longleftrightarrow> transition_table m = animation_transitions \<and> current_state m \<noteq> NumStates \<and>
     (\<exists>a p. state_table m = [\<lparr>n_handler = Handle_Animating, n_counter = a\<rparr>,
        \<lparr>n_handler = Handle_Paused, n_counter = p\<rparr>, \<lparr>n_handler = Handle_Idle, n_counter = 0\<rparr>] \<and>
        (current_state m = N_Paused \<longrightarrow> p = a))"

definition n_view :: "n_fsm \<Rightarrow> a_mode \<times> 32 word" where
  "n_view m = (n_mode (current_state m), n_get N_Animating (state_table m))"

text \<open>What the contract shows of a count: nothing but 0 in the idle state.\<close>

definition shown :: "n_state \<Rightarrow> 32 word \<Rightarrow> n_output" where
  "shown s n = Count s (if s = N_Idle then 0 else n)"

lemma n_handle_ok:
  assumes "n_ok m"
  shows "\<exists>m'. n_handle (n_of e) m = Inr ([], m') \<and> n_ok m' \<and> n_view m' = anim_step True None e (n_view m)"
    and "n_handle Show m = Inr ([shown (current_state m) (snd (n_view m))], m)"
proof -
  obtain a p where m: "transition_table m = animation_transitions" "current_state m \<noteq> NumStates"
    "state_table m = [\<lparr>n_handler = Handle_Animating, n_counter = a\<rparr>,
        \<lparr>n_handler = Handle_Paused, n_counter = p\<rparr>, \<lparr>n_handler = Handle_Idle, n_counter = 0\<rparr>]"
    "current_state m = N_Paused \<Longrightarrow> p = a"
    using assms by (auto simp: n_ok_def)
  show "\<exists>m'. n_handle (n_of e) m = Inr ([], m') \<and> n_ok m' \<and> n_view m' = anim_step True None e (n_view m)"
    using m by (cases "current_state m"; cases e)
      (auto simp: n_handle_def n_transition_def n_ok_def n_view_def n_get_def n_set_def animation_transitions_def over_def Let_def)
  show "n_handle Show m = Inr ([shown (current_state m) (snd (n_view m))], m)"
    using m by (cases "current_state m")
      (auto simp: n_handle_def n_transition_def n_view_def n_get_def shown_def animation_transitions_def Let_def)
qed

interpretation naive: animation "\<lambda>e m. bnd (n_handle (n_of e) m) (\<lambda>(_, m'). Inr m')" n_ok n_view True None
proof
  fix m e
  assume "n_ok m"
  then show "\<exists>m'. bnd (n_handle (n_of e) m) (\<lambda>(_, m'). Inr m') = Inr m' \<and> n_ok m' \<and>
      n_view m' = anim_step True None e (n_view m)"
    using n_handle_ok(1) [of m e] by auto
qed

lemma n_animation_ok: "n_ok n_animation" "n_view n_animation = (Idle, 0)"
  by (simp_all add: n_animation_def n_fsm_new_def n_ok_def n_view_def n_get_def animation_state_handlers_def)

text \<open>The reference for a run: the contract, and what \<open>Show\<close> prints.\<close>

fun n_shown :: "n_event list \<Rightarrow> a_mode \<times> 32 word \<Rightarrow> n_output list" where
  "n_shown [] v = []"
| "n_shown (Show # es) v =
     (case fst v of Animating \<Rightarrow> Count N_Animating (snd v) | Paused \<Rightarrow> Count N_Paused (snd v) | Idle \<Rightarrow> Count N_Idle 0)
     # n_shown es v"
| "n_shown (Play # es) v = n_shown es (anim_step True None Play_Event v)"
| "n_shown (Pause # es) v = n_shown es (anim_step True None Pause_Event v)"
| "n_shown (Stop # es) v = n_shown es (anim_step True None Stop_Event v)"
| "n_shown (Update # es) v = n_shown es (anim_step True None Update_Event v)"
| "n_shown (NumEvents # es) v = n_shown es v"

lemma n_run_ok:
  "n_ok m \<Longrightarrow> NumEvents \<notin> set es \<Longrightarrow> \<exists>m'. n_run es m = Inr (n_shown es (n_view m), m') \<and> n_ok m'"
proof (induction es arbitrary: m)
  case (Cons e es)
  show ?case
  proof (cases "e = Show")
    case True
    obtain m' where m': "n_run es m = Inr (n_shown es (n_view m), m')" "n_ok m'"
      using Cons.IH [OF Cons.prems(1)] Cons.prems(2) by auto
    have "n_shown (Show # es) (n_view m) = shown (current_state m) (snd (n_view m)) # n_shown es (n_view m)"
      using Cons.prems(1) by (cases "current_state m") (auto simp: n_view_def shown_def n_ok_def)
    with m' n_handle_ok(2) [OF Cons.prems(1)] True show ?thesis by simp
  next
    case False
    with Cons.prems(2) obtain a where a: "e = n_of a"
      by (cases e) (auto intro: that [of Play_Event] that [of Pause_Event] that [of Stop_Event] that [of Update_Event])
    obtain m1 where m1: "n_handle e m = Inr ([], m1)" "n_ok m1" "n_view m1 = anim_step True None a (n_view m)"
      using n_handle_ok(1) [OF Cons.prems(1), of a] a by auto
    obtain m' where "n_run es m1 = Inr (n_shown es (n_view m1), m')" "n_ok m'"
      using Cons.IH [OF m1(2)] Cons.prems(2) by auto
    with m1 a show ?thesis by (cases a) auto
  qed
qed simp

text \<open>The table-driven animation. From its initial state, the machine handles every sequence of proper
  events: it prints what the reference does, the number of updates while playing, 0 when idle,
  where stopping a paused animation keeps the count for the next time it plays.\<close>

theorem naive_animation:
  assumes "NumEvents \<notin> set es"
  shows "\<exists>m. n_run es n_animation = Inr (n_shown es (Idle, 0), m)"
  using n_run_ok [OF n_animation_ok(1) assms] n_animation_ok(2) by auto

theorem naive_animation_witness:
  "\<exists>m. n_run [Play, Update, Pause, Stop, Play, Show] n_animation = Inr ([Count N_Animating 1], m)"
  using naive_animation [of "[Play, Update, Pause, Stop, Play, Show]"] by (simp add: over_def)

text \<open>The enumerator that counts the events is one itself, and lies behind the table.\<close>

lemma num_events_out_of_bounds: "n_ok m \<Longrightarrow> n_handle NumEvents m = Inl Out_Of_Bounds"
  by (cases "current_state m")
    (auto simp: n_ok_def n_handle_def n_transition_def animation_transitions_def Let_def)

end
