(* ===== verification/Tuple_Fsm.thy ===== *)
theory Tuple_Fsm
  imports Animation_Spec
begin

text \<open>
  The machine generator of \<^verbatim>\<open>src/State_machines/tuple_fsm/transition_table\<close> and its animation. What the
  templates find out about the classes of a program (whether a state has a handler for an event, an
  entry or an exit, whether the table has a row and what it consists of) are options here; \<open>'f\<close> is the
  part of the derived class, \<open>'e\<close> the events. The output is the log of a build with \<^verbatim>\<open>FSM_DEBUG_LOG\<close>.

  \<^verbatim>\<open>transition_table\<close> of a program returns its table by value. \<open>state_transition\<close> binds a reference to a row of it, and the
  table is gone at the end of that declaration: a guard or an action that reads what its object holds (a captured
  value, say) reads a dead object (\<open>Dangling\<close>). One that holds nothing, or does not read it, reads nothing there.
\<close>

section \<open>Machines\<close>

record ('f, 'e) state_class =
  handle_event :: "'e \<Rightarrow> ('f \<Rightarrow> 'f) option"
  exit_of :: "('f \<Rightarrow> 'f) option"
  entry_of :: "('f \<Rightarrow> 'f) option"

record 'f traits =
  tt_guard :: "('f \<Rightarrow> bool) option"
  tt_action :: "('f \<Rightarrow> 'f) option"
  tt_next :: "nat option"

text \<open>A row of a table: its parts, and whether the calls of its guard and action read the objects in the row.\<close>

record 'f row =
  row_traits :: "'f traits"
  guard_reads :: bool
  action_reads :: bool

definition stateless :: "'f traits \<Rightarrow> 'f row" where
  "stateless tt = \<lparr>row_traits = tt, guard_reads = False, action_reads = False\<rparr>"

text \<open>The table is made when it is used, and may hold values of the machine at that time.\<close>

record ('f, 'e) fsm_class =
  fsm_states :: "('f, 'e) state_class list"
  fsm_table :: "'f \<Rightarrow> nat \<Rightarrow> 'e \<Rightarrow> 'f row option"

record 'f fsm =
  fsm_state :: nat
  derived :: 'f

datatype ('f, 'e) fsm_log =
    Log_Event 'f nat 'e
  | Log_Guard bool
  | Log_Exit nat
  | Log_Action
  | Log_Change nat nat
  | Log_Entry nat

type_synonym ('f, 'e) logged = "('f, 'e) fsm_log list \<times> 'f fsm"

definition then_log :: "('f, 'e) logged \<Rightarrow> ('f fsm \<Rightarrow> ('f, 'e) logged) \<Rightarrow> ('f, 'e) logged" where
  "then_log r f = (case r of (l, m) \<Rightarrow> case f m of (l', m') \<Rightarrow> (l @ l', m'))"

lemma then_log_pair [simp]: "then_log (l, m) f = (l @ fst (f m), snd (f m))"
  by (simp add: then_log_def split: prod.split)

text \<open>The same where the parts can be faults.\<close>

definition then_run :: "fault + ('f, 'e) logged \<Rightarrow> ('f fsm \<Rightarrow> fault + ('f, 'e) logged) \<Rightarrow> fault + ('f, 'e) logged" where
  "then_run r f = bnd r (\<lambda>(l, m). bnd (f m) (\<lambda>(l', m'). Inr (l @ l', m')))"

lemma then_run_simps [simp]:
  "then_run (Inl e) f = Inl e"
  "then_run (Inr (l, m)) f = bnd (f m) (\<lambda>(l', m'). Inr (l @ l', m'))"
  by (simp_all add: then_run_def)

section \<open>Dispatching an event\<close>

definition set_initial_state :: "nat \<Rightarrow> 'f fsm \<Rightarrow> 'f fsm" where
  "set_initial_state i m = m\<lparr>fsm_state := i\<rparr>"

definition fsm_action :: "'f row \<Rightarrow> 'f fsm \<Rightarrow> fault + ('f, 'e) logged" where
  "fsm_action r m = (case tt_action (row_traits r) of
       None \<Rightarrow> Inr ([], m)
     | Some f \<Rightarrow> if action_reads r then Inl Dangling else Inr ([Log_Action], m\<lparr>derived := f (derived m)\<rparr>))"

definition call_guard :: "'f row \<Rightarrow> ('f \<Rightarrow> bool) \<Rightarrow> 'f fsm \<Rightarrow> fault + bool" where
  "call_guard r g m = (if guard_reads r then Inl Dangling else Inr (g (derived m)))"

definition fsm_exit :: "('f, 'e) fsm_class \<Rightarrow> nat \<Rightarrow> 'f fsm \<Rightarrow> ('f, 'e) logged" where
  "fsm_exit C i m = (case exit_of (fsm_states C ! i) of
       None \<Rightarrow> ([], m)
     | Some f \<Rightarrow> ([Log_Exit i], m\<lparr>derived := f (derived m)\<rparr>))"

definition fsm_entry :: "('f, 'e) fsm_class \<Rightarrow> nat \<Rightarrow> 'f fsm \<Rightarrow> ('f, 'e) logged" where
  "fsm_entry C i m = (case entry_of (fsm_states C ! i) of
       None \<Rightarrow> ([], m)
     | Some f \<Rightarrow> ([Log_Entry i], m\<lparr>derived := f (derived m)\<rparr>))"

definition change_state :: "('f, 'e) fsm_class \<Rightarrow> 'f row \<Rightarrow> nat \<Rightarrow> nat \<Rightarrow> 'f fsm \<Rightarrow> fault + ('f, 'e) logged" where
  "change_state C r i j m =
     then_run (Inr (fsm_exit C i m)) (\<lambda>m1.
     then_run (fsm_action r m1) (\<lambda>m2.
     then_run (Inr ([Log_Change i j], m2\<lparr>fsm_state := j\<rparr>)) (\<lambda>m3. Inr (fsm_entry C j m3))))"

text \<open>The four overloads of \<^verbatim>\<open>transition\<close>.\<close>

definition transition :: "('f, 'e) fsm_class \<Rightarrow> 'f row \<Rightarrow> nat \<Rightarrow> 'f fsm \<Rightarrow> fault + ('f, 'e) logged" where
  "transition C r i m = (case (tt_guard (row_traits r), tt_next (row_traits r)) of
       (None, None) \<Rightarrow> fsm_action r m
     | (Some grd, None) \<Rightarrow> bnd (call_guard r grd m) (\<lambda>result.
          then_run (Inr ([Log_Guard result], m)) (\<lambda>m. if result then fsm_action r m else Inr ([], m)))
     | (None, Some j) \<Rightarrow> change_state C r i j m
     | (Some grd, Some j) \<Rightarrow> bnd (call_guard r grd m) (\<lambda>result.
          then_run (Inr ([Log_Guard result], m)) (\<lambda>m. if result then change_state C r i j m else Inr ([], m))))"

definition state_transition :: "('f, 'e) fsm_class \<Rightarrow> nat \<Rightarrow> 'e \<Rightarrow> 'f fsm \<Rightarrow> fault + ('f, 'e) logged" where
  "state_transition C i e m = (case fsm_table C (derived m) i e of
       None \<Rightarrow> Inr ([], m)
     | Some r \<Rightarrow> transition C r i m)"

definition handle_in_state :: "('f, 'e) fsm_class \<Rightarrow> nat \<Rightarrow> 'e \<Rightarrow> 'f fsm \<Rightarrow> 'f fsm" where
  "handle_in_state C i e m = (case handle_event (fsm_states C ! i) e of
       None \<Rightarrow> m
     | Some f \<Rightarrow> m\<lparr>derived := f (derived m)\<rparr>)"

text \<open>The dispatch over the indices of the states; with none left, nothing happens.\<close>

fun dispatch_indices :: "('f, 'e) fsm_class \<Rightarrow> 'e \<Rightarrow> nat list \<Rightarrow> 'f fsm \<Rightarrow> fault + ('f, 'e) logged" where
  "dispatch_indices C e [] m = Inr ([], m)"
| "dispatch_indices C e (i # is) m =
     (if i = fsm_state m then
        then_run (Inr ([Log_Event (derived m) i e], m)) (\<lambda>m.
        then_run (Inr ([], handle_in_state C i e m)) (state_transition C i e))
      else dispatch_indices C e is m)"

definition dispatch_event :: "('f, 'e) fsm_class \<Rightarrow> 'e \<Rightarrow> 'f fsm \<Rightarrow> fault + ('f, 'e) logged" where
  "dispatch_event C e m = dispatch_indices C e [0..<length (fsm_states C)] m"

primrec send_events :: "('f, 'e) fsm_class \<Rightarrow> 'e list \<Rightarrow> 'f fsm \<Rightarrow> fault + ('f, 'e) logged" where
  "send_events C [] m = Inr ([], m)"
| "send_events C (e # es) m = then_run (dispatch_event C e m) (send_events C es)"

lemma dispatch_indices_at:
  "fsm_state m \<in> set is \<Longrightarrow> dispatch_indices C e is m =
     then_run (Inr ([Log_Event (derived m) (fsm_state m) e], m)) (\<lambda>m.
     then_run (Inr ([], handle_in_state C (fsm_state m) e m)) (state_transition C (fsm_state m) e))"
  by (induction "is") auto

text \<open>What an event does to the derived class, and what it logs, by the description in the source: the guard
  is evaluated, and only if it holds the source state is left, the action executed and the target
  state entered.\<close>

definition opt_app :: "('f \<Rightarrow> 'f) option \<Rightarrow> 'f \<Rightarrow> 'f" where
  "opt_app f x = (case f of None \<Rightarrow> x | Some g \<Rightarrow> g x)"

definition opt_log :: "'x option \<Rightarrow> ('f, 'e) fsm_log \<Rightarrow> ('f, 'e) fsm_log list" where
  "opt_log f l = (case f of None \<Rightarrow> [] | Some g \<Rightarrow> [l])"

lemma action_opt: "fsm_action r m = (if tt_action (row_traits r) \<noteq> None \<and> action_reads r then Inl Dangling
    else Inr (opt_log (tt_action (row_traits r)) Log_Action,
      m\<lparr>derived := opt_app (tt_action (row_traits r)) (derived m)\<rparr>))"
  and exit_opt: "fsm_exit C i m = (opt_log (exit_of (fsm_states C ! i)) (Log_Exit i),
    m\<lparr>derived := opt_app (exit_of (fsm_states C ! i)) (derived m)\<rparr>)"
  and entry_opt: "fsm_entry C i m = (opt_log (entry_of (fsm_states C ! i)) (Log_Entry i),
    m\<lparr>derived := opt_app (entry_of (fsm_states C ! i)) (derived m)\<rparr>)"
  and handle_opt: "handle_in_state C i e m = m\<lparr>derived := opt_app (handle_event (fsm_states C ! i) e) (derived m)\<rparr>"
  by (simp_all add: fsm_action_def fsm_exit_def fsm_entry_def handle_in_state_def opt_app_def opt_log_def
      split: option.split)

text \<open>C22 (An event takes effect in the documented order). In state \<open>i\<close>, with a row that leads to state \<open>j\<close>, the
  handler of \<open>i\<close> runs first; if the guard then fails nothing else happens; otherwise the exit of
  \<open>i\<close>, the action and the entry of \<open>j\<close> follow each other, the state changes between the last two,
  and the log shows just these steps. That is so unless the call of the guard, or of the action when it comes to
  it, reads the object it is called on: this lives in a table that is destroyed before the call, and the program
  has undefined behaviour.\<close>

theorem tuple_dispatch_order:
  assumes "i < length (fsm_states C)" and "fsm_state m = i"
    and "f = opt_app (handle_event (fsm_states C ! i) e) (derived m)"
    and "fsm_table C f i e = Some r" and "tt = row_traits r" and "tt_next tt = Some j"
    and "g = (case tt_guard tt of None \<Rightarrow> True | Some p \<Rightarrow> p f)"
  shows "dispatch_event C e m =
    (if tt_guard tt \<noteq> None \<and> guard_reads r \<or> g \<and> tt_action tt \<noteq> None \<and> action_reads r then Inl Dangling
     else Inr (Log_Event (derived m) i e # opt_log (tt_guard tt) (Log_Guard g) @
       (if g then opt_log (exit_of (fsm_states C ! i)) (Log_Exit i) @ opt_log (tt_action tt) Log_Action @
          Log_Change i j # opt_log (entry_of (fsm_states C ! j)) (Log_Entry j) else []),
       if g then m\<lparr>fsm_state := j, derived := opt_app (entry_of (fsm_states C ! j))
            (opt_app (tt_action tt) (opt_app (exit_of (fsm_states C ! i)) f))\<rparr>
       else m\<lparr>derived := f\<rparr>))"
  using assms
  by (cases "tt_guard tt")
    (auto simp: dispatch_event_def dispatch_indices_at state_transition_def handle_opt transition_def call_guard_def
      change_state_def action_opt exit_opt entry_opt opt_log_def [of "Some _"] opt_log_def [of None])

definition example_row :: "int row" where
  "example_row = stateless \<lparr>tt_guard = Some (\<lambda>x. 3 < x), tt_action = None, tt_next = Some 0\<rparr>"

definition example_class :: "int row \<Rightarrow> (int, unit) fsm_class" where
  "example_class r = \<lparr>fsm_states = [\<lparr>handle_event = \<lambda>_. Some (\<lambda>x. x + 1), exit_of = None, entry_of = Some (\<lambda>x. 2 * x)\<rparr>],
     fsm_table = \<lambda>_ _ _. Some r\<rparr>"

theorem tuple_dispatch_order_witness:
  "dispatch_event (example_class example_row) () \<lparr>fsm_state = 0, derived = 3\<rparr> =
    Inr ([Log_Event 3 0 (), Log_Guard True, Log_Change 0 0, Log_Entry 0], \<lparr>fsm_state = 0, derived = 8\<rparr>) \<and>
   dispatch_event (example_class (example_row\<lparr>guard_reads := True\<rparr>)) () \<lparr>fsm_state = 0, derived = 3\<rparr> = Inl Dangling"
  using tuple_dispatch_order [of 0 "example_class example_row" "\<lparr>fsm_state = 0, derived = 3\<rparr>" 4 "()" example_row]
    tuple_dispatch_order [of 0 "example_class (example_row\<lparr>guard_reads := True\<rparr>)" "\<lparr>fsm_state = 0, derived = 3\<rparr>" 4 "()"
      "example_row\<lparr>guard_reads := True\<rparr>"]
  by (simp add: opt_app_def opt_log_def example_class_def example_row_def stateless_def)

section \<open>The animation\<close>

text \<open>The states are numbered as the type list has them: playing, paused, idle. \<open>'f\<close> is the counter.\<close>

type_synonym counter = "32 word"

definition s_animating :: "(counter, a_event) state_class" where
  "s_animating = \<lparr>handle_event = (\<lambda>e. if e = Update_Event then Some (\<lambda>n. n + 1) else None),
     exit_of = None, entry_of = Some (\<lambda>n. n)\<rparr>"

definition s_paused :: "(counter, a_event) state_class" where
  "s_paused = \<lparr>handle_event = (\<lambda>e. None), exit_of = None, entry_of = Some (\<lambda>n. n)\<rparr>"

definition s_idle :: "(counter, a_event) state_class" where
  "s_idle = \<lparr>handle_event = (\<lambda>e. None), exit_of = None, entry_of = Some (\<lambda>n. 0)\<rparr>"

definition make_entry :: "nat \<Rightarrow> 'f traits" where
  "make_entry j = \<lparr>tt_guard = None, tt_action = None, tt_next = Some j\<rparr>"

definition add_guard :: "('f \<Rightarrow> bool) \<Rightarrow> 'f traits \<Rightarrow> 'f traits" where
  "add_guard g tt = tt\<lparr>tt_guard := Some g\<rparr>"

text \<open>The guard of the update row holds a copy of the counter, and does not read it.\<close>

fun animation_table :: "counter \<Rightarrow> nat \<Rightarrow> a_event \<Rightarrow> counter row option" where
  "animation_table ctr i Play_Event =
     (if i = 2 then Some (stateless \<lparr>tt_guard = Some (\<lambda>_. True), tt_action = Some (\<lambda>n. n), tt_next = Some 0\<rparr>)
      else if i = 1 then Some (stateless (make_entry 0)) else None)"
| "animation_table ctr i Update_Event =
     (if i = 0 then Some (stateless (add_guard (\<lambda>_. False) (make_entry 2))) else None)"
| "animation_table ctr i Pause_Event = (if i = 0 then Some (stateless (make_entry 1)) else None)"
| "animation_table ctr i Stop_Event = (if i = 0 \<or> i = 1 then Some (stateless (make_entry 2)) else None)"

definition tuple_animation :: "(counter, a_event) fsm_class" where
  "tuple_animation = \<lparr>fsm_states = [s_animating, s_paused, s_idle], fsm_table = animation_table\<rparr>"

definition tuple_start :: "counter fsm" where
  "tuple_start = set_initial_state 2 \<lparr>fsm_state = 0, derived = 0\<rparr>"

definition tuple_view :: "counter fsm \<Rightarrow> a_mode \<times> counter" where
  "tuple_view m = (if fsm_state m = 0 then Animating else if fsm_state m = 1 then Paused else Idle, derived m)"

definition tuple_step :: "a_event \<Rightarrow> counter fsm \<Rightarrow> fault + counter fsm" where
  "tuple_step e m = bnd (dispatch_event tuple_animation e m) (\<lambda>(l, m'). Inr m')"

interpretation tuple: animation tuple_step "\<lambda>m. fsm_state m < 3" tuple_view False None
proof
  fix m :: "counter fsm" and e
  assume "fsm_state m < 3"
  then consider "fsm_state m = 0" | "fsm_state m = 1" | "fsm_state m = 2" by linarith
  then show "\<exists>m'. tuple_step e m = Inr m' \<and> fsm_state m' < 3 \<and>
      tuple_view m' = anim_step False None e (tuple_view m)"
    by cases (cases e; simp add: tuple_step_def tuple_view_def dispatch_event_def tuple_animation_def
        dispatch_indices_at handle_in_state_def state_transition_def transition_def call_guard_def stateless_def
        change_state_def fsm_action_def
        fsm_exit_def fsm_entry_def s_animating_def s_paused_def s_idle_def make_entry_def add_guard_def
        over_def numeral_2_eq_2 numeral_3_eq_3)+
qed

lemma send_events_run: "run_events tuple_step es m = bnd (send_events tuple_animation es m) (\<lambda>(l, m'). Inr m')"
proof (induction es arbitrary: m)
  case (Cons e es)
  then show ?case
    by (cases "dispatch_event tuple_animation e m")
      (auto simp: tuple_step_def then_run_def bnd_assoc split: prod.splits intro!: bnd_cong)
qed simp

text \<open>The animation made from a transition table. After any sequence of events, the generated machine is in
  the state of the animation's contract and has its counter: playing updates it, pausing keeps it,
  stopping resets it, and no count ends it, because the guard of the update row never holds.\<close>

theorem tuple_animation_contract:
  "\<exists>l m. send_events tuple_animation es tuple_start = Inr (l, m)
    \<and> tuple_view m = fold (anim_step False None) es (Idle, 0)"
proof -
  have "fsm_state tuple_start < 3" "tuple_view tuple_start = (Idle, 0)"
    by (simp_all add: tuple_start_def set_initial_state_def tuple_view_def)
  with tuple.run_refines [of tuple_start es] show ?thesis
    by (auto simp: send_events_run bnd_Inr_iff split: prod.splits)
qed

end
