(* ===== verification/Typelist.thy ===== *)
theory Typelist
  imports Prelude "HOL-Library.Monad_Syntax"
begin

text \<open>
  The type lists of \<^verbatim>\<open>src/Metaprogramming/typelist\<close>: programs the compiler runs. A type is an element
  of \<open>'a\<close>, a list of types a list; a metafunction with no member \<^verbatim>\<open>type\<close> is \<^const>\<open>None\<close>, the program does not
  compile. Most algorithms are there twice: by matching a parameter pack, and by the operations
  \<^verbatim>\<open>is_empty\<close>, \<^verbatim>\<open>front\<close>, \<^verbatim>\<open>pop_front\<close> and \<^verbatim>\<open>push_front\<close>, which serve every list that specialises them.
\<close>

section \<open>Lists and their operations\<close>

definition tl_is_empty :: "'a list \<Rightarrow> bool" where
  "tl_is_empty l \<longleftrightarrow> l = []"

fun tl_front :: "'a list \<Rightarrow> 'a option" where
  "tl_front [] = None"
| "tl_front (t # ts) = Some t"

fun tl_pop_front :: "'a list \<Rightarrow> 'a list" where
  "tl_pop_front [] = []"
| "tl_pop_front (t # ts) = ts"

definition tl_push_front :: "'a list \<Rightarrow> 'a list \<Rightarrow> 'a list" where
  "tl_push_front ts us = us @ ts"

definition tl_push_back :: "'a list \<Rightarrow> 'a list \<Rightarrow> 'a list" where
  "tl_push_back ts us = ts @ us"

definition tl_count :: "'a list \<Rightarrow> nat" where
  "tl_count ts = length ts"

fun tl_contains :: "'a list \<Rightarrow> 'a \<Rightarrow> bool" where
  "tl_contains [] t = False"
| "tl_contains (u # us) t = (t = u \<or> tl_contains us t)"

text \<open>What the second implementation of the algorithms is written over.\<close>

record ('l, 'e) list_ops =
  op_empty :: "'l \<Rightarrow> bool"
  op_front :: "'l \<Rightarrow> 'e option"
  op_pop :: "'l \<Rightarrow> 'l option"
  op_push :: "'l \<Rightarrow> 'e \<Rightarrow> 'l"
  op_push_back :: "'l \<Rightarrow> 'e \<Rightarrow> 'l"

definition typelist_ops :: "('a list, 'a) list_ops" where
  "typelist_ops = \<lparr>op_empty = tl_is_empty, op_front = tl_front, op_pop = (\<lambda>l. Some (tl_pop_front l)),
     op_push = (\<lambda>l e. tl_push_front l [e]), op_push_back = (\<lambda>l e. tl_push_back l [e])\<rparr>"

text \<open>Lists of values: \<^verbatim>\<open>front\<close> wraps a value into a type, \<^verbatim>\<open>pop_front\<close> is not there for the empty list.\<close>

datatype 'v ct_value = Ct_Value (value_of_ct: 'v)

datatype 'v valuelist = Valuelist "'v list"

fun vl_is_empty :: "'v valuelist \<Rightarrow> bool" where
  "vl_is_empty (Valuelist vs) \<longleftrightarrow> length vs = 0"

fun vl_front :: "'v valuelist \<Rightarrow> 'v ct_value option" where
  "vl_front (Valuelist []) = None"
| "vl_front (Valuelist (v # vs)) = Some (Ct_Value v)"

fun vl_pop_front :: "'v valuelist \<Rightarrow> 'v valuelist option" where
  "vl_pop_front (Valuelist []) = None"
| "vl_pop_front (Valuelist (v # vs)) = Some (Valuelist vs)"

fun vl_push_front :: "'v valuelist \<Rightarrow> 'v ct_value \<Rightarrow> 'v valuelist" where
  "vl_push_front (Valuelist vs) (Ct_Value v) = Valuelist (v # vs)"

fun vl_push_front_list :: "'v valuelist \<Rightarrow> 'v valuelist \<Rightarrow> 'v valuelist" where
  "vl_push_front_list (Valuelist vs) (Valuelist ws) = Valuelist (ws @ vs)"

fun vl_push_back :: "'v valuelist \<Rightarrow> 'v ct_value \<Rightarrow> 'v valuelist" where
  "vl_push_back (Valuelist vs) (Ct_Value v) = Valuelist (vs @ [v])"

definition valuelist_ops :: "('v valuelist, 'v ct_value) list_ops" where
  "valuelist_ops = \<lparr>op_empty = vl_is_empty, op_front = vl_front, op_pop = vl_pop_front,
     op_push = vl_push_front, op_push_back = vl_push_back\<rparr>"

fun greater_than :: "('v :: linorder) ct_value \<Rightarrow> 'v ct_value \<Rightarrow> bool" where
  "greater_than (Ct_Value v) (Ct_Value w) \<longleftrightarrow> v > w"

section \<open>Algorithms by parameter packs\<close>

fun tl_reverse :: "'a list \<Rightarrow> 'a list" where
  "tl_reverse [] = []"
| "tl_reverse (t # ts) = tl_push_back (tl_reverse ts) [t]"

fun tl_accumulate :: "'a list \<Rightarrow> ('b \<Rightarrow> 'a \<Rightarrow> 'b option) \<Rightarrow> 'b \<Rightarrow> 'b option" where
  "tl_accumulate [] f init = Some init"
| "tl_accumulate [t] f init = f init t"
| "tl_accumulate (t # ts) f init = f init t \<bind> tl_accumulate ts f"

fun tl_pop_back :: "'a list \<Rightarrow> 'a list" where
  "tl_pop_back [] = []"
| "tl_pop_back [t] = []"
| "tl_pop_back (t # ts) = tl_push_front (tl_pop_back ts) [t]"

fun tl_transform :: "'a list \<Rightarrow> ('a \<Rightarrow> 'b option) \<Rightarrow> 'b list option" where
  "tl_transform [] f = Some []"
| "tl_transform (t # ts) f = f t \<bind> (\<lambda>u. tl_transform ts f \<bind> (\<lambda>us. Some (u # us)))"

definition tl_replace :: "'a list \<Rightarrow> 'a \<Rightarrow> 'a \<Rightarrow> 'a list" where
  "tl_replace ts s r = map (\<lambda>t. if t = s then r else t) ts"

fun tl_replace_alt :: "'a list \<Rightarrow> 'a \<Rightarrow> 'a \<Rightarrow> 'a list option" where
  "tl_replace_alt [] s r = None"
| "tl_replace_alt [t] s r = Some [if t = s then r else t]"
| "tl_replace_alt (t # ts) s r =
     tl_replace_alt ts s r \<bind> (\<lambda>us. Some (tl_push_front us [if t = s then r else t]))"

definition replace_cmp :: "'a \<Rightarrow> 'a \<Rightarrow> 'a \<Rightarrow> 'a option" where
  "replace_cmp s r t = Some (if t = s then r else t)"

definition tl_replace_transform :: "'a list \<Rightarrow> 'a \<Rightarrow> 'a \<Rightarrow> 'a list option" where
  "tl_replace_transform ts s r = tl_transform ts (replace_cmp s r)"

text \<open>\<^verbatim>\<open>erase\<close> looks at the whole list, also behind the type it found; there is none for the empty list.\<close>

fun tl_erase :: "'a list \<Rightarrow> 'a \<Rightarrow> 'a list option" where
  "tl_erase [] t = None"
| "tl_erase [u] t = Some (if t = u then [] else [u])"
| "tl_erase (u # us) t =
     tl_erase us t \<bind> (\<lambda>r. Some (if t = u then us else tl_push_front r [u]))"

fun tl_erase_all :: "'a list \<Rightarrow> 'a \<Rightarrow> 'a list option" where
  "tl_erase_all [] t = None"
| "tl_erase_all [u] t = Some (if t = u then [] else [u])"
| "tl_erase_all (u # us) t =
     tl_erase_all us t \<bind> (\<lambda>r. Some (if t = u then r else tl_push_front r [u]))"

fun tl_remove_duplicates :: "'a list \<Rightarrow> 'a list option" where
  "tl_remove_duplicates [] = Some []"
| "tl_remove_duplicates [t] = Some [t]"
| "tl_remove_duplicates (t # ts) =
     tl_remove_duplicates ts \<bind> (\<lambda>pruned. tl_erase pruned t \<bind> (\<lambda>r. Some (tl_push_front r [t])))"

fun tl_nth_element :: "'a list \<Rightarrow> nat \<Rightarrow> 'a option" where
  "tl_nth_element [] n = None"
| "tl_nth_element (t # ts) 0 = Some t"
| "tl_nth_element (t # ts) (Suc n) = tl_nth_element ts n"

fun tl_find_index_of :: "'a list \<Rightarrow> 'a \<Rightarrow> 32 word \<Rightarrow> 32 word option" where
  "tl_find_index_of [] t n = None"
| "tl_find_index_of (u # us) t n = (if t = u then Some n else tl_find_index_of us t (n + 1))"

text \<open>\<open>size_of\<close> is \<^verbatim>\<open>sizeof\<close>, \<open>ch\<close> is \<^verbatim>\<open>char\<close>.\<close>

fun tl_largest_type :: "('a \<Rightarrow> nat) \<Rightarrow> 'a \<Rightarrow> 'a list \<Rightarrow> 'a" where
  "tl_largest_type size_of ch [] = ch"
| "tl_largest_type size_of ch [t] = t"
| "tl_largest_type size_of ch (t # ts) =
     (let tail = tl_largest_type size_of ch ts in if size_of tail \<le> size_of t then t else tail)"

fun tl_insert_sorted :: "('a \<Rightarrow> 'a \<Rightarrow> bool) \<Rightarrow> 'a list \<Rightarrow> 'a \<Rightarrow> 'a list" where
  "tl_insert_sorted cmp [] e = tl_push_front [] [e]"
| "tl_insert_sorted cmp (t # ts) e =
     (let new_tail = (if cmp e t then t # ts else tl_insert_sorted cmp ts e);
          new_head = (if cmp e t then e else t)
      in tl_push_front new_tail [new_head])"

fun tl_insertion_sort :: "('a \<Rightarrow> 'a \<Rightarrow> bool) \<Rightarrow> 'a list \<Rightarrow> 'a list" where
  "tl_insertion_sort cmp [] = []"
| "tl_insertion_sort cmp (t # ts) = tl_insert_sorted cmp (tl_insertion_sort cmp ts) t"

text \<open>\<open>derived_from t u\<close> is \<^verbatim>\<open>is_derived_from\<close>. There is no most derived type of the empty list.\<close>

fun tl_most_derived :: "('a \<Rightarrow> 'a \<Rightarrow> bool) \<Rightarrow> 'a list \<Rightarrow> 'a \<Rightarrow> 'a option" where
  "tl_most_derived derived_from [] base = None"
| "tl_most_derived derived_from [t] base = Some (if derived_from t base then t else base)"
| "tl_most_derived derived_from (t # ts) base =
     tl_most_derived derived_from ts base \<bind> (\<lambda>c. Some (if derived_from c t then c else t))"

fun tl_most_derived_first :: "('a \<Rightarrow> 'a \<Rightarrow> bool) \<Rightarrow> 'a list \<Rightarrow> 'a list option" where
  "tl_most_derived_first derived_from [] = None"
| "tl_most_derived_first derived_from (t # ts) =
     tl_most_derived derived_from ts t \<bind> (\<lambda>d. Some (tl_push_front (tl_replace ts d t) [d]))"

section \<open>Algorithms by the operations of a list\<close>

partial_function (option) ops_insert_sorted ::
  "('l, 'e) list_ops \<Rightarrow> ('e \<Rightarrow> 'e \<Rightarrow> bool) \<Rightarrow> 'l \<Rightarrow> 'e \<Rightarrow> 'l option" where
  "ops_insert_sorted ops cmp l e =
     (if op_empty ops l then Some (op_push ops l e)
      else op_front ops l \<bind> (\<lambda>h.
        if cmp e h then Some (op_push ops l e)
        else op_pop ops l \<bind> (\<lambda>l'. ops_insert_sorted ops cmp l' e \<bind> (\<lambda>t. Some (op_push ops t h)))))"

partial_function (option) ops_insertion_sort ::
  "('l, 'e) list_ops \<Rightarrow> ('e \<Rightarrow> 'e \<Rightarrow> bool) \<Rightarrow> 'l \<Rightarrow> 'l option" where
  "ops_insertion_sort ops cmp l =
     (if op_empty ops l then Some l
      else op_pop ops l \<bind> (\<lambda>l'. ops_insertion_sort ops cmp l' \<bind> (\<lambda>sorted.
        op_front ops l \<bind> ops_insert_sorted ops cmp sorted)))"

partial_function (option) ops_accumulate ::
  "('l, 'e) list_ops \<Rightarrow> ('b \<Rightarrow> 'e \<Rightarrow> 'b option) \<Rightarrow> 'l \<Rightarrow> 'b \<Rightarrow> 'b option" where
  "ops_accumulate ops f l init =
     (if op_empty ops l then Some init
      else op_pop ops l \<bind> (\<lambda>l'. op_front ops l \<bind> (\<lambda>h. f init h \<bind> (\<lambda>i. ops_accumulate ops f l' i))))"

partial_function (option) ops_reverse :: "('l, 'e) list_ops \<Rightarrow> 'l \<Rightarrow> 'l option" where
  "ops_reverse ops l =
     (if op_empty ops l then Some l
      else op_pop ops l \<bind> (\<lambda>l'. ops_reverse ops l' \<bind> (\<lambda>r.
        op_front ops l \<bind> (\<lambda>h. Some (op_push_back ops r h)))))"

partial_function (option) ops_transform :: "('l, 'e) list_ops \<Rightarrow> ('e \<Rightarrow> 'e option) \<Rightarrow> 'l \<Rightarrow> 'l option" where
  "ops_transform ops f l =
     (if op_empty ops l then Some l
      else op_pop ops l \<bind> (\<lambda>l'. ops_transform ops f l' \<bind> (\<lambda>r.
        op_front ops l \<bind> (\<lambda>h. f h \<bind> (\<lambda>u. Some (op_push ops r u))))))"

partial_function (option) ops_find_index_of ::
  "('l, 'e) list_ops \<Rightarrow> 'l \<Rightarrow> 'e \<Rightarrow> 32 word \<Rightarrow> 32 word option" where
  "ops_find_index_of ops l t n =
     (if op_empty ops l then None
      else op_front ops l \<bind> (\<lambda>h. if h = t then Some n
        else op_pop ops l \<bind> (\<lambda>l'. ops_find_index_of ops l' t (n + 1))))"

partial_function (option) ops_largest_type :: "('l, 'e) list_ops \<Rightarrow> ('e \<Rightarrow> nat) \<Rightarrow> 'e \<Rightarrow> 'l \<Rightarrow> 'e option" where
  "ops_largest_type ops size_of ch l =
     (if op_empty ops l then Some ch
      else op_front ops l \<bind> (\<lambda>h. op_pop ops l \<bind> (\<lambda>l'. ops_largest_type ops size_of ch l' \<bind> (\<lambda>tail.
        Some (if size_of tail \<le> size_of h then h else tail)))))"

fun ops_nth_element :: "('l, 'e) list_ops \<Rightarrow> 'l \<Rightarrow> nat \<Rightarrow> 'e option" where
  "ops_nth_element ops l 0 = op_front ops l"
| "ops_nth_element ops l (Suc n) = op_pop ops l \<bind> (\<lambda>l'. ops_nth_element ops l' n)"

definition tl_pop_back_alt :: "'a list \<Rightarrow> 'a list" where
  "tl_pop_back_alt l = tl_reverse (tl_pop_front (tl_reverse l))"

end
