(* ===== verification/Typelist_Properties.thy ===== *)
theory Typelist_Properties
  imports Typelist "HOL-Library.Multiset"
begin

text \<open>
  What the metafunctions compute. The locale \<open>sequence_ops\<close> is what the second implementations need
  of the operations of a list; type lists and value lists are its instances.
\<close>

section \<open>The two implementations\<close>

lemma push_simps [simp]: "tl_push_front ts us = us @ ts" "tl_push_back ts us = ts @ us"
  by (simp_all add: tl_push_front_def tl_push_back_def)

locale sequence_ops =
  fixes ops :: "('l, 'e) list_ops" and to_list :: "'l \<Rightarrow> 'e list"
  assumes empty: "op_empty ops l \<longleftrightarrow> to_list l = []"
    and front: "to_list l = x # xs \<Longrightarrow> op_front ops l = Some x"
    and pop: "to_list l = x # xs \<Longrightarrow> \<exists>l'. op_pop ops l = Some l' \<and> to_list l' = xs"
    and push: "to_list (op_push ops l e) = e # to_list l"
    and push_back: "to_list (op_push_back ops l e) = to_list l @ [e]"
begin

text \<open>\<open>gives m xs\<close>: the metafunction has a result, and it is a list of \<open>xs\<close>.\<close>

definition gives :: "'l option \<Rightarrow> 'e list \<Rightarrow> bool" where
  "gives m xs \<longleftrightarrow> (\<exists>l. m = Some l \<and> to_list l = xs)"

lemma gives_Some [simp]: "gives (Some l) xs \<longleftrightarrow> to_list l = xs"
  by (auto simp: gives_def)

lemma givesE: "gives m xs \<Longrightarrow> (\<And>l. m = Some l \<Longrightarrow> to_list l = xs \<Longrightarrow> P) \<Longrightarrow> P"
  by (auto simp: gives_def)

lemma ops_insert_sorted_pack: "gives (ops_insert_sorted ops cmp l e) (tl_insert_sorted cmp (to_list l) e)"
proof (induction "to_list l" arbitrary: l)
  case Nil
  then show ?case by (subst ops_insert_sorted.simps) (simp add: empty push flip: Nil)
next
  case (Cons x xs)
  obtain l' where "op_pop ops l = Some l'" "to_list l' = xs" using pop [OF Cons.hyps(2) [symmetric]] by blast
  moreover from this obtain t where "ops_insert_sorted ops cmp l' e = Some t"
    "to_list t = tl_insert_sorted cmp xs e"
    using Cons.hyps(1) [of l'] by (auto elim: givesE)
  ultimately show ?case
    using front [OF Cons.hyps(2) [symmetric]]
    by (subst ops_insert_sorted.simps) (simp add: empty push flip: Cons.hyps(2))
qed

lemma ops_insertion_sort_pack: "gives (ops_insertion_sort ops cmp l) (tl_insertion_sort cmp (to_list l))"
proof (induction "to_list l" arbitrary: l)
  case Nil
  then show ?case by (subst ops_insertion_sort.simps) (simp add: empty flip: Nil)
next
  case (Cons x xs)
  obtain l' where "op_pop ops l = Some l'" "to_list l' = xs" using pop [OF Cons.hyps(2) [symmetric]] by blast
  moreover from this obtain t where "ops_insertion_sort ops cmp l' = Some t"
    "to_list t = tl_insertion_sort cmp xs"
    using Cons.hyps(1) [of l'] by (auto elim: givesE)
  ultimately show ?case
    using front [OF Cons.hyps(2) [symmetric]] ops_insert_sorted_pack [of cmp t x]
    by (subst ops_insertion_sort.simps) (simp add: empty flip: Cons.hyps(2))
qed

lemma ops_reverse_pack: "gives (ops_reverse ops l) (tl_reverse (to_list l))"
proof (induction "to_list l" arbitrary: l)
  case Nil
  then show ?case by (subst ops_reverse.simps) (simp add: empty flip: Nil)
next
  case (Cons x xs)
  obtain l' where "op_pop ops l = Some l'" "to_list l' = xs" using pop [OF Cons.hyps(2) [symmetric]] by blast
  moreover from this obtain r where "ops_reverse ops l' = Some r" "to_list r = tl_reverse xs"
    using Cons.hyps(1) [of l'] by (auto elim: givesE)
  ultimately show ?case
    using front [OF Cons.hyps(2) [symmetric]]
    by (subst ops_reverse.simps) (simp add: empty push_back flip: Cons.hyps(2))
qed

lemma ops_accumulate_pack: "ops_accumulate ops f l init = tl_accumulate (to_list l) f init"
proof (induction "to_list l" arbitrary: l init)
  case Nil
  then show ?case by (subst ops_accumulate.simps) (simp add: empty flip: Nil)
next
  case (Cons x xs)
  obtain l' where l': "op_pop ops l = Some l'" "to_list l' = xs" using pop [OF Cons.hyps(2) [symmetric]] by blast
  have "tl_accumulate (x # xs) f init = f init x \<bind> tl_accumulate xs f"
    by (cases xs; cases "f init x") simp_all
  with l' Cons.hyps(1) [of l'] show ?case
    using front [OF Cons.hyps(2) [symmetric]]
    by (subst ops_accumulate.simps) (cases "f init x"; simp add: empty flip: Cons.hyps(2))
qed

lemma ops_transform_pack:
  "(case tl_transform (to_list l) f of None \<Rightarrow> ops_transform ops f l = None
    | Some us \<Rightarrow> gives (ops_transform ops f l) us)"
proof (induction "to_list l" arbitrary: l)
  case Nil
  then show ?case by (subst ops_transform.simps) (simp add: empty flip: Nil)
next
  case (Cons x xs)
  obtain l' where l': "op_pop ops l = Some l'" "to_list l' = xs" using pop [OF Cons.hyps(2) [symmetric]] by blast
  show ?case
    using Cons.hyps(1) [of l'] l' front [OF Cons.hyps(2) [symmetric]]
    by (cases "f x"; cases "tl_transform xs f")
      (auto simp: ops_transform.simps [of ops f l] empty push elim!: givesE simp flip: Cons.hyps(2))
qed

lemma ops_find_index_of_pack: "ops_find_index_of ops l t n = tl_find_index_of (to_list l) t n"
proof (induction "to_list l" arbitrary: l n)
  case Nil
  then show ?case by (subst ops_find_index_of.simps) (simp add: empty flip: Nil)
next
  case (Cons x xs)
  obtain l' where l': "op_pop ops l = Some l'" "to_list l' = xs" using pop [OF Cons.hyps(2) [symmetric]] by blast
  with Cons.hyps(1) [of l' "n + 1"] front [OF Cons.hyps(2) [symmetric]] show ?case
    by (subst ops_find_index_of.simps) (auto simp: empty simp flip: Cons.hyps(2))
qed

lemma ops_largest_type_pack:
  assumes "\<forall>t \<in> set (to_list l). size_of ch \<le> size_of t"
  shows "ops_largest_type ops size_of ch l = Some (tl_largest_type size_of ch (to_list l))"
  using assms
proof (induction "to_list l" arbitrary: l)
  case Nil
  then show ?case by (subst ops_largest_type.simps) (simp add: empty flip: Nil)
next
  case (Cons x xs)
  obtain l' where l': "op_pop ops l = Some l'" "to_list l' = xs" using pop [OF Cons.hyps(2) [symmetric]] by blast
  have ih: "ops_largest_type ops size_of ch l' = Some (tl_largest_type size_of ch xs)"
    using Cons.hyps(1) [of l'] Cons.prems l' by (simp flip: Cons.hyps(2))
  show ?case
    using ih l' front [OF Cons.hyps(2) [symmetric]] Cons.prems
    by (subst ops_largest_type.simps) (cases xs, auto simp: empty Let_def simp flip: Cons.hyps(2))
qed

end

interpretation tl: sequence_ops typelist_ops "\<lambda>l. l"
  by unfold_locales (simp_all add: typelist_ops_def tl_is_empty_def)

fun vl_list :: "'v valuelist \<Rightarrow> 'v ct_value list" where
  "vl_list (Valuelist vs) = map Ct_Value vs"

interpretation vl: sequence_ops valuelist_ops vl_list
proof
  fix l :: "'v valuelist" and x e :: "'v ct_value" and xs
  obtain vs where l: "l = Valuelist vs" by (cases l)
  obtain v where e: "e = Ct_Value v" by (cases e)
  show "op_empty valuelist_ops l \<longleftrightarrow> vl_list l = []" by (simp add: l valuelist_ops_def)
  show "vl_list l = x # xs \<Longrightarrow> op_front valuelist_ops l = Some x"
    by (cases vs) (simp_all add: l valuelist_ops_def)
  show "vl_list l = x # xs \<Longrightarrow> \<exists>l'. op_pop valuelist_ops l = Some l' \<and> vl_list l' = xs"
    by (cases vs) (auto simp: l valuelist_ops_def)
  show "vl_list (op_push valuelist_ops l e) = e # vl_list l" by (simp add: l e valuelist_ops_def)
  show "vl_list (op_push_back valuelist_ops l e) = vl_list l @ [e]" by (simp add: l e valuelist_ops_def)
qed

lemma tl_gives [simp]: "tl.gives m xs \<longleftrightarrow> m = Some xs"
  by (auto simp: tl.gives_def)

section \<open>What the metafunctions compute\<close>

lemma reverse_rev: "tl_reverse ts = rev ts"
  by (induction ts) simp_all

lemma accumulate_Cons: "tl_accumulate (t # ts) f init = f init t \<bind> tl_accumulate ts f"
  by (cases ts; cases "f init t") simp_all

lemma accumulate_foldl: "tl_accumulate ts (\<lambda>i t. Some (g i t)) init = Some (foldl g init ts)"
  by (induction ts arbitrary: init) (simp_all add: accumulate_Cons)

lemma pop_back_butlast: "tl_pop_back ts = butlast ts" "tl_pop_back_alt ts = butlast ts"
proof -
  show "tl_pop_back ts = butlast ts" by (induction ts rule: tl_pop_back.induct) simp_all
  have "tl_pop_front us = tl us" for us :: "'a list" by (cases us) simp_all
  then show "tl_pop_back_alt ts = butlast ts"
    by (cases ts rule: rev_cases) (simp_all add: tl_pop_back_alt_def reverse_rev)
qed

lemma replace_alt: "ts \<noteq> [] \<Longrightarrow> tl_replace_alt ts s r = Some (tl_replace ts s r)"
  by (induction ts s r rule: tl_replace_alt.induct) (simp_all add: tl_replace_def)

lemma replace_transform: "tl_replace_transform ts s r = Some (tl_replace ts s r)"
  unfolding tl_replace_transform_def
  by (induction ts) (simp_all add: replace_cmp_def tl_replace_def)

lemma nth_element_nth: "tl_nth_element ts n = (if n < length ts then Some (ts ! n) else None)"
  by (induction ts n rule: tl_nth_element.induct) simp_all

lemma ops_nth_element_nth: "ops_nth_element typelist_ops ts n = tl_nth_element ts n"
proof (induction n arbitrary: ts)
  case 0
  then show ?case by (cases ts) (simp_all add: typelist_ops_def)
next
  case (Suc n)
  have "tl_nth_element [] n = None" for n by simp
  with Suc show ?case by (cases ts) (simp_all add: typelist_ops_def)
qed

section \<open>Sorting\<close>

text \<open>A type is inserted behind the ones it does not precede, so equal ones end up in reverse order.\<close>

lemma insert_sorted_mset: "mset (tl_insert_sorted cmp ts e) = add_mset e (mset ts)"
  by (induction cmp ts e rule: tl_insert_sorted.induct) (auto simp: Let_def)

lemma insertion_sort_mset: "mset (tl_insertion_sort cmp ts) = mset ts"
  by (induction ts) (simp_all add: insert_sorted_mset)

lemma insert_sorted_set: "set (tl_insert_sorted cmp ts e) = insert e (set ts)"
  using insert_sorted_mset [of cmp ts e] by (metis set_mset_add_mset_insert set_mset_mset)

lemma insert_sorted_sorted:
  assumes "\<And>x y. cmp x y \<longleftrightarrow> f x < f y"
  shows "sorted (map (f :: 'a \<Rightarrow> 'b :: linorder) ts) \<Longrightarrow> sorted (map f (tl_insert_sorted cmp ts e))"
  by (induction ts) (auto simp: assms insert_sorted_set Let_def)

lemma insert_sorted_filter:
  assumes "\<And>x y. cmp x y \<longleftrightarrow> f x < f y" and "sorted (map (f :: 'a \<Rightarrow> 'b :: linorder) ts)"
  shows "filter (\<lambda>x. f k = f x) (tl_insert_sorted cmp ts e) =
    filter (\<lambda>x. f k = f x) ts @ (if f k = f e then [e] else [])"
  using assms(2)
proof (induction ts)
  case (Cons t ts)
  have "filter (\<lambda>x. f k = f x) (t # ts) = []" if "f e < f t" "f k = f e"
    using Cons.prems that by (fastforce simp: filter_empty_conv)
  with Cons show ?case by (auto simp: assms(1) Let_def)
qed simp

lemma insertion_sort_sort_key:
  assumes "\<And>x y. cmp x y \<longleftrightarrow> f x < f y"
  shows "tl_insertion_sort cmp ts = sort_key (f :: 'a \<Rightarrow> 'b :: linorder) (rev ts)"
proof -
  have sorted: "sorted (map f (tl_insertion_sort cmp ts))" for ts
    by (induction ts) (simp_all add: insert_sorted_sorted [OF assms])
  have "filter (\<lambda>x. f k = f x) (tl_insertion_sort cmp ts) = filter (\<lambda>x. f k = f x) (rev ts)" for k
    by (induction ts) (simp_all add: insert_sorted_filter [OF assms sorted])
  then show ?thesis
    using sorted by (intro properties_for_sort_key [symmetric]) (simp_all add: insertion_sort_mset)
qed

section \<open>The two implementations on type lists\<close>

lemma transform_map:
  "tl_transform ts h = (if \<forall>t \<in> set ts. h t \<noteq> None then Some (map (\<lambda>t. the (h t)) ts) else None)"
  by (induction ts) auto

lemma find_index_of_first:
  "tl_find_index_of ts t n = (if t \<in> set ts then Some (n + of_nat (length (takeWhile (\<lambda>u. u \<noteq> t) ts))) else None)"
  by (induction ts t n rule: tl_find_index_of.induct) (auto simp: algebra_simps)

text \<open>The first of the largest types of a list.\<close>

definition first_largest :: "('a \<Rightarrow> nat) \<Rightarrow> 'a list \<Rightarrow> 'a" where
  "first_largest size_of ts = hd (filter (\<lambda>t. \<forall>u \<in> set ts. size_of u \<le> size_of t) ts)"

lemma ex_largest: "ts \<noteq> [] \<Longrightarrow> \<exists>t \<in> set ts. \<forall>u \<in> set ts. size_of u \<le> (size_of t :: nat)"
proof (induction ts)
  case (Cons t ts)
  show ?case
  proof (cases "ts = []")
    case False
    then obtain v where v: "v \<in> set ts" "\<forall>u \<in> set ts. size_of u \<le> size_of v" using Cons.IH by blast
    show ?thesis
    proof (cases "size_of v \<le> size_of t")
      case True
      then show ?thesis using v(2) by (intro bexI [of _ t]) (auto intro: le_trans)
    qed (use v in \<open>auto intro!: bexI [of _ v]\<close>)
  qed simp
qed simp

lemma first_largest_Cons:
  assumes "ts \<noteq> []"
  shows "first_largest size_of (t # ts) =
    (if size_of (first_largest size_of ts) \<le> size_of t then t else first_largest size_of ts)"
proof -
  let ?l = "filter (\<lambda>t. \<forall>u \<in> set ts. size_of u \<le> size_of t) ts"
  have "?l \<noteq> []" using ex_largest [OF assms, of size_of] by (auto simp: filter_empty_conv)
  then have l: "first_largest size_of ts \<in> set ?l" unfolding first_largest_def by (rule hd_in_set)
  show ?thesis
  proof (cases "size_of (first_largest size_of ts) \<le> size_of t")
    case True
    then have "\<forall>u \<in> set ts. size_of u \<le> size_of t" using l by auto
    then show ?thesis using True by (simp add: first_largest_def)
  next
    case False
    then have "filter (\<lambda>v. \<forall>u \<in> set (t # ts). size_of u \<le> size_of v) ts = ?l"
      using l by (intro filter_cong) auto
    moreover have "\<not> (\<forall>u \<in> set (t # ts). size_of u \<le> size_of t)" using False l by auto
    ultimately have "filter (\<lambda>v. \<forall>u \<in> set (t # ts). size_of u \<le> size_of v) (t # ts) = ?l"
      by (simp only: filter.simps if_False)
    then show ?thesis using False by (simp only: first_largest_def if_False)
  qed
qed

lemma largest_type_first: "ts \<noteq> [] \<Longrightarrow> tl_largest_type size_of ch ts = first_largest size_of ts"
proof (induction ts)
  case (Cons t ts)
  show ?case
  proof (cases ts)
    case Nil
    then show ?thesis by (simp add: first_largest_def)
  next
    case (Cons u us)
    then show ?thesis using Cons.IH first_largest_Cons [of ts size_of t] by (simp add: Let_def)
  qed
qed simp

text \<open>C35 (The alternative implementations). Nine metafunctions on type lists are implemented twice, replacement three
  times: reversal, accumulation, removal of the last type, replacement, transformation, the index of a type, the type
  at an index, the largest type and insertion sort. On every type list the implementations have the same result,
  with one exception: of the empty list, the second replacement does not compile, and the others give the empty
  list. The results are the functions one expects on lists: the first index of a type as a word of 32 bits, the first
  of the largest types (\<^verbatim>\<open>char\<close>, of which no size is below, for the empty list), and for a comparison by a key the stable
  sort of the reversed list, which has the types with equal keys in reverse.\<close>

theorem typelist_implementations:
  fixes key :: "'a \<Rightarrow> 'k :: linorder"
  assumes "\<forall>t \<in> set ts. size_of ch \<le> size_of t"
  shows "ops_reverse typelist_ops ts = Some (tl_reverse ts) \<and> tl_reverse ts = rev ts \<and>
   ops_accumulate typelist_ops f ts init = tl_accumulate ts f init \<and>
   tl_accumulate ts (\<lambda>i t. Some (g i t)) init = Some (foldl g init ts) \<and>
   tl_pop_back ts = butlast ts \<and> tl_pop_back_alt ts = butlast ts \<and>
   tl_replace ts s r = map (\<lambda>t. if t = s then r else t) ts \<and>
   tl_replace_transform ts s r = Some (tl_replace ts s r) \<and>
   tl_replace_alt ts s r = (if ts = [] then None else Some (tl_replace ts s r)) \<and>
   ops_transform typelist_ops h ts = tl_transform ts h \<and>
   tl_transform ts h = (if \<forall>t \<in> set ts. h t \<noteq> None then Some (map (\<lambda>t. the (h t)) ts) else None) \<and>
   ops_find_index_of typelist_ops ts t 0 = tl_find_index_of ts t 0 \<and>
   tl_find_index_of ts t 0 = (if t \<in> set ts then Some (of_nat (length (takeWhile (\<lambda>u. u \<noteq> t) ts))) else None) \<and>
   ops_nth_element typelist_ops ts k = tl_nth_element ts k \<and>
   tl_nth_element ts k = (if k < length ts then Some (ts ! k) else None) \<and>
   ops_largest_type typelist_ops size_of ch ts = Some (tl_largest_type size_of ch ts) \<and>
   tl_largest_type size_of ch ts = (if ts = [] then ch else first_largest size_of ts) \<and>
   ops_insertion_sort typelist_ops cmp ts = Some (tl_insertion_sort cmp ts) \<and>
   tl_insertion_sort (\<lambda>t u. key t < key u) ts = sort_key key (rev ts)"
proof -
  have t: "ops_transform typelist_ops h ts = tl_transform ts h"
    using tl.ops_transform_pack [where l = ts and f = h] by (cases "tl_transform ts h") simp_all
  have s: "tl_insertion_sort (\<lambda>t u. key t < key u) ts = sort_key key (rev ts)"
    by (rule insertion_sort_sort_key) simp
  show ?thesis
    using tl.ops_reverse_pack [of ts] tl.ops_accumulate_pack [of f ts init] tl.ops_find_index_of_pack [of ts t 0]
      tl.ops_largest_type_pack [OF assms] tl.ops_insertion_sort_pack [of cmp ts]
    by (simp add: reverse_rev accumulate_foldl pop_back_butlast replace_alt replace_transform tl_replace_def
        ops_nth_element_nth nth_element_nth find_index_of_first largest_type_first t s transform_map)
qed

theorem typelist_implementations_witness:
  "ops_largest_type typelist_ops fst (1 :: nat, ''char'') [(2, ''short''), (8, ''long''), (8, ''double'')] = Some (8, ''long'')"
proof -
  let ?ts = "[(2, ''short''), (8, ''long''), (8, ''double'')]" and ?ch = "(1 :: nat, ''char'')"
  have "\<forall>t \<in> set ?ts. fst ?ch \<le> fst t" by simp
  from typelist_implementations [OF this, where f = "\<lambda>i t. Some i" and init = "()" and g = "\<lambda>i t. i" and s = ?ch and r = ?ch
      and h = Some and t = ?ch and k = 0 and cmp = "\<lambda>t u. True" and key = fst]
  have "ops_largest_type typelist_ops fst ?ch ?ts = Some (tl_largest_type fst ?ch ?ts)"
    by (elim conjE)
  then show ?thesis by simp
qed

text \<open>Insertion sort of types. For a comparison by a key, both implementations give the stable sort of
  the reversed list: the types in the order of their keys, those with equal keys in reverse.\<close>

theorem typelist_sort:
  assumes "\<forall>t u. cmp t u \<longleftrightarrow> f t < (f u :: 'b :: linorder)"
  shows "tl_insertion_sort cmp ts = sort_key f (rev ts) \<and>
    ops_insertion_sort typelist_ops cmp ts = Some (sort_key f (rev ts))"
  using tl.ops_insertion_sort_pack [of cmp ts] insertion_sort_sort_key [of cmp f ts] assms by simp

theorem typelist_sort_witness:
  "ops_insertion_sort typelist_ops (\<lambda>t u. fst t < (fst u :: nat)) [(4, ''int''), (2, ''short''), (1, ''char''), (4, ''float'')] =
     Some [(1, ''char''), (2, ''short''), (4, ''float''), (4, ''int'')]"
  using typelist_sort [of "\<lambda>t u. fst t < (fst u :: nat)" fst "[(4, ''int''), (2, ''short''), (1, ''char''), (4, ''float'')]"]
  by simp

text \<open>Insertion sort of values. Sorting a list of values by \<open>greater_than\<close> compiles and gives the values
  in descending order.\<close>

theorem valuelist_sort:
  "ops_insertion_sort valuelist_ops greater_than (Valuelist vs) = Some (Valuelist (rev (sort vs)))"
proof -
  let ?ws = "tl_insertion_sort greater_than (map Ct_Value vs)"
  have ins: "sorted (rev (map value_of_ct ts)) \<Longrightarrow>
      sorted (rev (map value_of_ct (tl_insert_sorted greater_than ts e)))" for ts and e :: "'a ct_value"
    by (induction ts; cases e) (auto simp: sorted_append Let_def insert_sorted_set elim!: greater_than.elims)
  have "sorted (rev (map value_of_ct (tl_insertion_sort greater_than ts)))" for ts :: "'a ct_value list"
    by (induction ts) (simp_all add: ins)
  moreover have "mset (map value_of_ct ?ws) = mset vs"
    by (simp add: insertion_sort_mset multiset.map_comp comp_def)
  ultimately have "rev (map value_of_ct ?ws) = sort vs"
    by (metis mset_rev properties_for_sort)
  then have "?ws = map Ct_Value (rev (sort vs))"
    by (metis (no_types, lifting) ct_value.collapse map_idI map_map comp_apply rev_rev_ident)
  then obtain l where l: "ops_insertion_sort valuelist_ops greater_than (Valuelist vs) = Some l"
    "vl_list l = map Ct_Value (rev (sort vs))"
    using vl.ops_insertion_sort_pack [of greater_than "Valuelist vs"] by (auto elim: vl.givesE)
  moreover have "l = Valuelist (rev (sort vs))"
    using l(2) by (cases l) (auto simp: inj_map_eq_map inj_def)
  ultimately show ?thesis by simp
qed

section \<open>Erasing types\<close>

lemma erase_remove1: "ts \<noteq> [] \<Longrightarrow> tl_erase ts t = Some (remove1 t ts)"
  by (induction ts t rule: tl_erase.induct) auto

lemma erase_all_removeAll: "ts \<noteq> [] \<Longrightarrow> tl_erase_all ts t = Some (removeAll t ts)"
  by (induction ts t rule: tl_erase_all.induct) auto

lemma remdups_snoc: "remdups (ts @ [t]) = removeAll t (remdups ts) @ [t]"
  by (induction ts) (auto simp: removeAll_filter_not_eq)

lemma first_occurrences_Cons:
  "rev (remdups (rev (t # ts))) = t # removeAll t (rev (remdups (rev ts)))"
  by (simp add: remdups_snoc removeAll_filter_not_eq rev_filter)

text \<open>Duplicates are removed. \<^verbatim>\<open>remove_duplicates\<close> compiles for every list and keeps the first occurrence
  of each type, in their order; \<^verbatim>\<open>erase\<close> drops the first occurrence of a type and \<^verbatim>\<open>erase_all\<close> every one,
  but neither compiles for the empty list.\<close>

theorem typelist_remove_duplicates:
  "tl_remove_duplicates ts = Some (rev (remdups (rev ts))) \<and>
   tl_erase ts t = (if ts = [] then None else Some (remove1 t ts)) \<and>
   tl_erase_all ts t = (if ts = [] then None else Some (removeAll t ts))"
proof -
  have "tl_remove_duplicates ts = Some (rev (remdups (rev ts)))"
  proof (induction ts rule: tl_remove_duplicates.induct)
    case (3 t u us)
    let ?pruned = "rev (remdups (rev (u # us)))"
    have "?pruned \<noteq> []" "distinct ?pruned" by simp_all
    then have "tl_erase ?pruned t = Some (removeAll t ?pruned)"
      using erase_remove1 [of ?pruned t] distinct_remove1_removeAll [of ?pruned t] by argo
    with 3 show ?case
      by (simp only: tl_remove_duplicates.simps bind.bind_lunit push_simps append.simps
          first_occurrences_Cons [of t "u # us"])
  qed simp_all
  then show ?thesis by (simp add: erase_remove1 erase_all_removeAll)
qed

section \<open>Choosing a type\<close>

lemma largest_type_cases:
  "ts \<noteq> [] \<Longrightarrow> tl_largest_type size_of ch ts \<in> set ts \<and>
     (\<forall>t \<in> set ts. size_of t \<le> size_of (tl_largest_type size_of ch ts)) \<and>
     find (\<lambda>t. size_of t = size_of (tl_largest_type size_of ch ts)) ts = Some (tl_largest_type size_of ch ts)"
proof (induction ts)
  case (Cons t ts)
  let ?m = "tl_largest_type size_of ch ts"
  show ?case
  proof (cases "ts = []")
    case False
    then have r: "tl_largest_type size_of ch (t # ts) = (if size_of ?m \<le> size_of t then t else ?m)"
      by (cases ts) (simp_all add: Let_def)
    from Cons.IH [OF False] show ?thesis
      unfolding r by (cases "size_of ?m \<le> size_of t") (auto intro: order_trans)
  qed simp
qed simp

lemma most_derived_Cons:
  "ts \<noteq> [] \<Longrightarrow> tl_most_derived d (t # ts) base =
     tl_most_derived d ts base \<bind> (\<lambda>c. Some (if d c t then c else t))"
  by (cases ts) simp_all

text \<open>On a chain of classes, the result is derived from every type of the list and from the base.\<close>

lemma most_derived_chain:
  assumes refl: "\<And>x. d x x" and trans: "\<And>x y z. d x y \<Longrightarrow> d y z \<Longrightarrow> d x z"
  shows "ts \<noteq> [] \<Longrightarrow> (\<And>x y. x \<in> insert base (set ts) \<Longrightarrow> y \<in> insert base (set ts) \<Longrightarrow> d x y \<or> d y x) \<Longrightarrow>
    \<exists>c. tl_most_derived d ts base = Some c \<and> c \<in> insert base (set ts) \<and> (\<forall>t \<in> insert base (set ts). d c t)"
proof (induction ts)
  case (Cons t ts)
  show ?case
  proof (cases "ts = []")
    case True
    then show ?thesis using Cons.prems(2) [of t base] refl by auto
  next
    case False
    then obtain c where c: "tl_most_derived d ts base = Some c" "c \<in> insert base (set ts)"
      "\<forall>t \<in> insert base (set ts). d c t"
      using Cons by auto
    have r: "tl_most_derived d (t # ts) base = Some (if d c t then c else t)"
      using most_derived_Cons [OF False, of d t base] c(1) by simp
    show ?thesis
    proof (cases "d c t")
      case True
      with c r show ?thesis by auto
    next
      case nd: False
      then have "d t c" using Cons.prems(2) [of c t] c(2) by auto
      then have "d t x" if "x \<in> insert base (set ts)" for x
        using c(3) that by (blast intro: trans)
      with nd r refl show ?thesis by auto
    qed
  qed
qed simp

lemma replace_mset:
  "d \<in># mset ts \<Longrightarrow> count (mset ts) d = 1 \<Longrightarrow> add_mset d (mset (tl_replace ts d t)) = add_mset t (mset ts)"
proof (induction ts)
  case (Cons u us)
  have "tl_replace us d t = us" if "d \<notin> set us"
    using that by (induction us) (auto simp: tl_replace_def)
  with Cons show ?case
    by (cases "u = d") (auto simp: tl_replace_def not_in_iff count_mset_0_iff)
qed simp

text \<open>The most derived class first. On a list of at least two types that are a chain of classes,
  \<^verbatim>\<open>most_derived_first\<close> compiles and starts with a class derived from all of them; if the list has no
  type twice, the result is a rearrangement of it.\<close>

theorem typelist_most_derived_first:
  assumes "\<forall>x. d x x" and "\<forall>x y z. d x y \<longrightarrow> d y z \<longrightarrow> d x z"
    and "\<forall>x \<in> set ts. \<forall>y \<in> set ts. d x y \<or> d y x" and "2 \<le> length ts"
  shows "\<exists>c us. tl_most_derived_first d ts = Some (c # us) \<and> (\<forall>t \<in> set ts. d c t) \<and>
    (distinct ts \<longrightarrow> mset (c # us) = mset ts)"
proof -
  obtain t us where ts: "ts = t # us" "us \<noteq> []" using assms(4) by (cases ts; cases "tl ts") auto
  obtain c where c: "tl_most_derived d us t = Some c" "c \<in> insert t (set us)" "\<forall>x \<in> insert t (set us). d c x"
    using most_derived_chain [of d us t] assms ts by auto
  have "mset (c # tl_replace us c t) = mset ts" if "distinct ts"
  proof (cases "c = t")
    case True
    then show ?thesis using ts by (simp add: tl_replace_def)
  next
    case False
    with c(2) that ts have "c \<in># mset us" "count (mset us) c = 1"
      by (simp_all add: distinct_count_atmost_1 [of us])
    from replace_mset [OF this, of t] ts show ?thesis by simp
  qed
  with c ts show ?thesis by auto
qed

theorem typelist_most_derived_first_witness:
  "\<exists>c us. tl_most_derived_first (\<lambda>x y. x \<ge> y) [1, 2, 3 :: nat] = Some (c # us) \<and> (\<forall>t \<in> {1, 2, 3}. c \<ge> t)"
  using typelist_most_derived_first [of "\<lambda>x y. x \<ge> y" "[1, 2, 3 :: nat]"] by auto

text \<open>A type that occurs twice is lost, and a single type does not compile.\<close>

lemma most_derived_first_drops: "tl_most_derived_first (\<lambda>x y. x \<ge> y) [1, 2, 2 :: nat] = Some [2, 1, 1]"
  by (simp add: tl_replace_def)

lemma most_derived_first_single: "tl_most_derived_first d [t] = None"
  by simp

end
