(* ===== verification/Fsm_Dispatch.thy ===== *)
theory Fsm_Dispatch
  imports Tuple_Fsm
begin

text \<open>
  The other dispatchers of \<^verbatim>\<open>src/State_machines/tuple_fsm\<close> and the one of \<^verbatim>\<open>static_fsm/first\<close>. They
  find the row of the table by the types of the state and the event, so a program has a row for every
  pair, maybe an empty one. The classes of a program and its machines are those of \<open>Tuple_Fsm\<close>; \<open>'f\<close> is
  what the handlers, guards and actions of a program can read and change.

  Five ways to write the same dispatch: a specialisation of \<open>transition\<close> for every combination of
  parts (\<^verbatim>\<open>animation\<close>, \<^verbatim>\<open>specialization_dispatch\<close>), one function of nested conditions
  (\<^verbatim>\<open>ifconstexpr_dispatch\<close>), four overloads over empty or calling parts (\<^verbatim>\<open>animation2\<close>), the same with
  a log (\<^verbatim>\<open>logging\<close>), and with static members (\<^verbatim>\<open>static_fsm\<close>).
\<close>

section \<open>Programs\<close>

record ('f, 'e) program =
  p_states :: "('f, 'e) state_class list"
  p_table :: "nat \<Rightarrow> 'e \<Rightarrow> 'f traits"

definition does :: "('f \<Rightarrow> 'f) \<Rightarrow> 'f fsm \<Rightarrow> 'f fsm" where
  "does f m = m\<lparr>derived := f (derived m)\<rparr>"

definition goes_to :: "nat \<Rightarrow> 'f fsm \<Rightarrow> 'f fsm" where
  "goes_to j m = m\<lparr>fsm_state := j\<rparr>"

lemma does_simps [simp]:
  "derived (does f m) = f (derived m)" "fsm_state (does f m) = fsm_state m"
  "derived (goes_to j m) = derived m" "fsm_state (goes_to j m) = j"
  by (simp_all add: does_def goes_to_def)

text \<open>The entry that a row leads to: there is one if the row has a next state with an entry.\<close>

definition next_entry :: "('f, 'e) program \<Rightarrow> 'f traits \<Rightarrow> ('f \<Rightarrow> 'f) option" where
  "next_entry P tt = (case tt_next tt of None \<Rightarrow> None | Some j \<Rightarrow> entry_of (p_states P ! j))"

section \<open>A specialisation for every combination\<close>

text \<open>The arguments are the guard, the action, the next state, the exit and the entry; the last equations are
  the primary template.\<close>

fun guarded_special ::
  "('f \<Rightarrow> bool) \<Rightarrow> ('f \<Rightarrow> 'f) option \<Rightarrow> nat option \<Rightarrow> ('f \<Rightarrow> 'f) option \<Rightarrow> ('f \<Rightarrow> 'f) option \<Rightarrow>
   'f fsm \<Rightarrow> 'f fsm" where
  "guarded_special g None (Some j) None None m =
     (if g (derived m) then goes_to j m else m)"
| "guarded_special g None (Some j) (Some x) None m =
     (if g (derived m) then goes_to j (does x m) else m)"
| "guarded_special g None (Some j) None (Some n) m =
     (if g (derived m) then does n (goes_to j m) else m)"
| "guarded_special g None (Some j) (Some x) (Some n) m =
     (if g (derived m) then does n (goes_to j (does x m)) else m)"
| "guarded_special g (Some a) None x n m =
     (if g (derived m) then does a m else m)"
| "guarded_special g (Some a) (Some j) None None m =
     (if g (derived m) then goes_to j (does a m) else m)"
| "guarded_special g (Some a) (Some j) (Some x) None m =
     (if g (derived m) then goes_to j (does a (does x m)) else m)"
| "guarded_special g (Some a) (Some j) None (Some n) m =
     (if g (derived m) then does n (goes_to j (does a m)) else m)"
| "guarded_special g (Some a) (Some j) (Some x) (Some n) m =
     (if g (derived m) then does n (goes_to j (does a (does x m))) else m)"
| "guarded_special g None None x n m = m"

fun unguarded_special ::
  "('f \<Rightarrow> 'f) option \<Rightarrow> nat option \<Rightarrow> ('f \<Rightarrow> 'f) option \<Rightarrow> ('f \<Rightarrow> 'f) option \<Rightarrow>
   'f fsm \<Rightarrow> 'f fsm" where
  "unguarded_special (Some a) None x n m = does a m"
| "unguarded_special (Some a) (Some j) None None m = goes_to j (does a m)"
| "unguarded_special (Some a) (Some j) (Some x) None m = goes_to j (does a (does x m))"
| "unguarded_special (Some a) (Some j) None (Some n) m = does n (goes_to j (does a m))"
| "unguarded_special (Some a) (Some j) (Some x) (Some n) m =
     does n (goes_to j (does a (does x m)))"
| "unguarded_special None (Some j) None None m = goes_to j m"
| "unguarded_special None (Some j) (Some x) None m = goes_to j (does x m)"
| "unguarded_special None (Some j) None (Some n) m = does n (goes_to j m)"
| "unguarded_special None (Some j) (Some x) (Some n) m = does n (goes_to j (does x m))"
| "unguarded_special None None x n m = m"

fun transition_special ::
  "('f \<Rightarrow> bool) option \<Rightarrow> ('f \<Rightarrow> 'f) option \<Rightarrow> nat option \<Rightarrow> ('f \<Rightarrow> 'f) option \<Rightarrow> ('f \<Rightarrow> 'f) option \<Rightarrow>
   'f fsm \<Rightarrow> 'f fsm" where
  "transition_special (Some g) a j x n m = guarded_special g a j x n m"
| "transition_special None a j x n m = unguarded_special a j x n m"

text \<open>
  The specialisations of \<^verbatim>\<open>specialization_dispatch\<close>. The result is \<open>None\<close> where the
  instantiation is ill-formed: one body names a member \<^verbatim>\<open>gaurd\<close>. There is no specialisation for a guard
  and a next state with an entry, but without an action and an exit.
\<close>

fun guarded_dispatched ::
  "('f \<Rightarrow> bool) \<Rightarrow> ('f \<Rightarrow> 'f) option \<Rightarrow> nat option \<Rightarrow> ('f \<Rightarrow> 'f) option \<Rightarrow> ('f \<Rightarrow> 'f) option \<Rightarrow>
   'f fsm \<Rightarrow> 'f fsm option" where
  "guarded_dispatched g None (Some j) None None m =
     Some (if g (derived m) then goes_to j m else m)"
| "guarded_dispatched g None (Some j) (Some x) None m =
     Some (if g (derived m) then goes_to j (does x m) else m)"
| "guarded_dispatched g None (Some j) (Some x) (Some n) m = None"
| "guarded_dispatched g (Some a) None x n m =
     Some (if g (derived m) then does a m else m)"
| "guarded_dispatched g (Some a) (Some j) None None m =
     Some (if g (derived m) then goes_to j (does a m) else m)"
| "guarded_dispatched g (Some a) (Some j) (Some x) None m =
     Some (if g (derived m) then goes_to j (does a (does x m)) else m)"
| "guarded_dispatched g (Some a) (Some j) None (Some n) m =
     Some (if g (derived m) then does n (goes_to j (does a m)) else m)"
| "guarded_dispatched g (Some a) (Some j) (Some x) (Some n) m =
     Some (if g (derived m) then does n (goes_to j (does a (does x m))) else m)"
| "guarded_dispatched g _ _ _ _ m = Some m"

fun unguarded_dispatched ::
  "('f \<Rightarrow> 'f) option \<Rightarrow> nat option \<Rightarrow> ('f \<Rightarrow> 'f) option \<Rightarrow> ('f \<Rightarrow> 'f) option \<Rightarrow>
   'f fsm \<Rightarrow> 'f fsm option" where
  "unguarded_dispatched (Some a) None x n m = Some (does a m)"
| "unguarded_dispatched (Some a) (Some j) None None m = Some (goes_to j (does a m))"
| "unguarded_dispatched (Some a) (Some j) (Some x) None m = Some (goes_to j (does a (does x m)))"
| "unguarded_dispatched (Some a) (Some j) None (Some n) m = Some (does n (goes_to j (does a m)))"
| "unguarded_dispatched (Some a) (Some j) (Some x) (Some n) m =
     Some (does n (goes_to j (does a (does x m))))"
| "unguarded_dispatched None (Some j) None None m = Some (goes_to j m)"
| "unguarded_dispatched None (Some j) (Some x) None m = Some (goes_to j (does x m))"
| "unguarded_dispatched None (Some j) None (Some n) m = Some (does n (goes_to j m))"
| "unguarded_dispatched None (Some j) (Some x) (Some n) m = Some (does n (goes_to j (does x m)))"
| "unguarded_dispatched None None x n m = Some m"

fun transition_dispatched ::
  "('f \<Rightarrow> bool) option \<Rightarrow> ('f \<Rightarrow> 'f) option \<Rightarrow> nat option \<Rightarrow> ('f \<Rightarrow> 'f) option \<Rightarrow> ('f \<Rightarrow> 'f) option \<Rightarrow>
   'f fsm \<Rightarrow> 'f fsm option" where
  "transition_dispatched (Some g) a j x n m = guarded_dispatched g a j x n m"
| "transition_dispatched None a j x n m = unguarded_dispatched a j x n m"

section \<open>Nested conditions\<close>

definition transition_nested ::
  "('f \<Rightarrow> bool) option \<Rightarrow> ('f \<Rightarrow> 'f) option \<Rightarrow> nat option \<Rightarrow> ('f \<Rightarrow> 'f) option \<Rightarrow> ('f \<Rightarrow> 'f) option \<Rightarrow>
   'f fsm \<Rightarrow> 'f fsm" where
  "transition_nested grd act nxt ext ent m = (
     let
       leave = (\<lambda>m. case (ext, nxt) of (Some x, Some j) \<Rightarrow> does x m | _ \<Rightarrow> m);
       arrive = (\<lambda>m. case nxt of
           None \<Rightarrow> m
         | Some j \<Rightarrow> (let m1 = goes_to j m in case ent of None \<Rightarrow> m1 | Some n \<Rightarrow> does n m1))
     in case (grd, act) of
       (Some g, _) \<Rightarrow>
         if g (derived m) then
           (let m1 = leave m; m2 = (case act of None \<Rightarrow> m1 | Some a \<Rightarrow> does a m1) in arrive m2)
         else m
     | (None, Some a) \<Rightarrow> arrive (does a (leave m))
     | (None, None) \<Rightarrow> arrive m)"

section \<open>Parts that are empty or call\<close>

definition fsm_action_part :: "'f traits \<Rightarrow> 'f fsm \<Rightarrow> 'f fsm" where
  "fsm_action_part tt m = (case tt_action tt of None \<Rightarrow> m | Some a \<Rightarrow> does a m)"

definition fsm_exit_part :: "('f \<Rightarrow> 'f) option \<Rightarrow> 'f fsm \<Rightarrow> 'f fsm" where
  "fsm_exit_part ext m = (case ext of None \<Rightarrow> m | Some x \<Rightarrow> does x m)"

definition fsm_entry_part :: "('f \<Rightarrow> 'f) option \<Rightarrow> 'f fsm \<Rightarrow> 'f fsm" where
  "fsm_entry_part ent m = (case ent of None \<Rightarrow> m | Some n \<Rightarrow> does n m)"

definition transition_parts :: "('f, 'e) program \<Rightarrow> 'f traits \<Rightarrow> nat \<Rightarrow> 'f fsm \<Rightarrow> 'f fsm" where
  "transition_parts P tt i m = (case (tt_guard tt, tt_next tt) of
       (None, None) \<Rightarrow> fsm_action_part tt m
     | (Some g, None) \<Rightarrow> if g (derived m) then fsm_action_part tt m else m
     | (None, Some j) \<Rightarrow>
         fsm_entry_part (next_entry P tt) (goes_to j (fsm_action_part tt
           (fsm_exit_part (exit_of (p_states P ! i)) m)))
     | (Some g, Some j) \<Rightarrow>
         if g (derived m) then
           fsm_entry_part (next_entry P tt) (goes_to j (fsm_action_part tt
             (fsm_exit_part (exit_of (p_states P ! i)) m)))
         else m)"

section \<open>Static members\<close>

text \<open>In \<^verbatim>\<open>static_fsm\<close> a machine has no state objects: the exit is that of the row's own state, the entry is
  looked up in the row of the next state for the same event.\<close>

definition static_exit :: "('f, 'e) program \<Rightarrow> nat \<Rightarrow> 'f fsm \<Rightarrow> 'f fsm" where
  "static_exit P i m = (case exit_of (p_states P ! i) of None \<Rightarrow> m | Some x \<Rightarrow> does x m)"

definition static_entry :: "('f, 'e) program \<Rightarrow> nat \<Rightarrow> 'f fsm \<Rightarrow> 'f fsm" where
  "static_entry P i m = (case entry_of (p_states P ! i) of None \<Rightarrow> m | Some n \<Rightarrow> does n m)"

definition static_action :: "'f traits \<Rightarrow> 'f fsm \<Rightarrow> 'f fsm" where
  "static_action tt m = (case tt_action tt of None \<Rightarrow> m | Some a \<Rightarrow> does a m)"

definition transition_static :: "('f, 'e) program \<Rightarrow> 'f traits \<Rightarrow> nat \<Rightarrow> 'f fsm \<Rightarrow> 'f fsm" where
  "transition_static P tt i m = (case (tt_guard tt, tt_next tt) of
       (None, None) \<Rightarrow> static_action tt m
     | (Some g, None) \<Rightarrow> if g (derived m) then static_action tt m else m
     | (None, Some j) \<Rightarrow> static_entry P j (goes_to j (static_action tt (static_exit P i m)))
     | (Some g, Some j) \<Rightarrow>
         if g (derived m) then static_entry P j (goes_to j (static_action tt (static_exit P i m))) else m)"

section \<open>Logging\<close>

text \<open>Each kind of message is written if the build has \<^verbatim>\<open>FSM_DEBUG_LOG\<close> and the program's logger has the
  member for it.\<close>

record loggers =
  has_log_event :: bool
  has_log_guard :: bool
  has_log_action :: bool
  has_log_state_change :: bool
  has_log_exit :: bool
  has_log_entry :: bool

definition log_if :: "bool \<Rightarrow> ('f, 'e) fsm_log \<Rightarrow> ('f, 'e) fsm_log list" where
  "log_if b l = (if b then [l] else [])"

fun logs :: "loggers \<Rightarrow> ('f, 'e) fsm_log \<Rightarrow> bool" where
  "logs L (Log_Event f i e) = has_log_event L"
| "logs L (Log_Guard b) = has_log_guard L"
| "logs L (Log_Exit i) = has_log_exit L"
| "logs L Log_Action = has_log_action L"
| "logs L (Log_Change i j) = has_log_state_change L"
| "logs L (Log_Entry j) = has_log_entry L"

definition action_logged :: "loggers \<Rightarrow> 'f traits \<Rightarrow> 'f fsm \<Rightarrow> ('f, 'e) logged" where
  "action_logged L tt m = (case tt_action tt of
       None \<Rightarrow> ([], m)
     | Some a \<Rightarrow> (log_if (has_log_action L) Log_Action, does a m))"

definition exit_logged :: "loggers \<Rightarrow> ('f, 'e) program \<Rightarrow> nat \<Rightarrow> 'f fsm \<Rightarrow> ('f, 'e) logged" where
  "exit_logged L P i m = (case exit_of (p_states P ! i) of
       None \<Rightarrow> ([], m)
     | Some x \<Rightarrow> (log_if (has_log_exit L) (Log_Exit i), does x m))"

definition entry_logged :: "loggers \<Rightarrow> ('f, 'e) program \<Rightarrow> 'f traits \<Rightarrow> nat \<Rightarrow> 'f fsm \<Rightarrow> ('f, 'e) logged" where
  "entry_logged L P tt j m = (case next_entry P tt of
       None \<Rightarrow> ([], m)
     | Some n \<Rightarrow> (log_if (has_log_entry L) (Log_Entry j), does n m))"

definition change_logged :: "loggers \<Rightarrow> ('f, 'e) program \<Rightarrow> 'f traits \<Rightarrow> nat \<Rightarrow> nat \<Rightarrow> 'f fsm \<Rightarrow> ('f, 'e) logged" where
  "change_logged L P tt i j m =
     then_log (exit_logged L P i m) (\<lambda>m1.
     then_log (action_logged L tt m1) (\<lambda>m2.
     then_log (log_if (has_log_state_change L) (Log_Change i j), goes_to j m2) (entry_logged L P tt j)))"

definition transition_logged :: "loggers \<Rightarrow> ('f, 'e) program \<Rightarrow> 'f traits \<Rightarrow> nat \<Rightarrow> 'f fsm \<Rightarrow> ('f, 'e) logged" where
  "transition_logged L P tt i m = (case (tt_guard tt, tt_next tt) of
       (None, None) \<Rightarrow> action_logged L tt m
     | (Some g, None) \<Rightarrow>
         (let result = g (derived m) in
          then_log (log_if (has_log_guard L) (Log_Guard result), m)
            (\<lambda>m. if result then action_logged L tt m else ([], m)))
     | (None, Some j) \<Rightarrow> change_logged L P tt i j m
     | (Some g, Some j) \<Rightarrow>
         (let result = g (derived m) in
          then_log (log_if (has_log_guard L) (Log_Guard result), m)
            (\<lambda>m. if result then change_logged L P tt i j m else ([], m))))"

section \<open>The dispatch over the states\<close>

definition handles :: "('f, 'e) program \<Rightarrow> nat \<Rightarrow> 'e \<Rightarrow> 'f fsm \<Rightarrow> 'f fsm" where
  "handles P i e m = (case handle_event (p_states P ! i) e of None \<Rightarrow> m | Some f \<Rightarrow> does f m)"

fun dispatch_special :: "('f, 'e) program \<Rightarrow> 'e \<Rightarrow> nat list \<Rightarrow> 'f fsm \<Rightarrow> 'f fsm" where
  "dispatch_special P e [] m = m"
| "dispatch_special P e (i # is) m =
     (if i = fsm_state m then
        (let tt = p_table P i e in
         transition_special (tt_guard tt) (tt_action tt) (tt_next tt) (exit_of (p_states P ! i)) (next_entry P tt)
           (handles P i e m))
      else dispatch_special P e is m)"

fun dispatch_dispatched :: "('f, 'e) program \<Rightarrow> 'e \<Rightarrow> nat list \<Rightarrow> 'f fsm \<Rightarrow> 'f fsm option" where
  "dispatch_dispatched P e [] m = Some m"
| "dispatch_dispatched P e (i # is) m =
     (if i = fsm_state m then
        (let tt = p_table P i e in
         transition_dispatched (tt_guard tt) (tt_action tt) (tt_next tt) (exit_of (p_states P ! i)) (next_entry P tt)
           (handles P i e m))
      else dispatch_dispatched P e is m)"

fun dispatch_nested :: "('f, 'e) program \<Rightarrow> 'e \<Rightarrow> nat list \<Rightarrow> 'f fsm \<Rightarrow> 'f fsm" where
  "dispatch_nested P e [] m = m"
| "dispatch_nested P e (i # is) m =
     (if i = fsm_state m then
        (let tt = p_table P i e in
         transition_nested (tt_guard tt) (tt_action tt) (tt_next tt) (exit_of (p_states P ! i)) (next_entry P tt)
           (handles P i e m))
      else dispatch_nested P e is m)"

fun dispatch_parts :: "('f, 'e) program \<Rightarrow> 'e \<Rightarrow> nat list \<Rightarrow> 'f fsm \<Rightarrow> 'f fsm" where
  "dispatch_parts P e [] m = m"
| "dispatch_parts P e (i # is) m =
     (if i = fsm_state m then transition_parts P (p_table P i e) i (handles P i e m)
      else dispatch_parts P e is m)"

fun dispatch_static :: "('f, 'e) program \<Rightarrow> 'e \<Rightarrow> nat list \<Rightarrow> 'f fsm \<Rightarrow> 'f fsm" where
  "dispatch_static P e [] m = m"
| "dispatch_static P e (i # is) m =
     (if i = fsm_state m then transition_static P (p_table P i e) i (handles P i e m)
      else dispatch_static P e is m)"

fun dispatch_logged :: "loggers \<Rightarrow> ('f, 'e) program \<Rightarrow> 'e \<Rightarrow> nat list \<Rightarrow> 'f fsm \<Rightarrow> ('f, 'e) logged" where
  "dispatch_logged L P e [] m = ([], m)"
| "dispatch_logged L P e (i # is) m =
     (if i = fsm_state m then
        then_log (log_if (has_log_event L) (Log_Event (derived m) i e), m) (\<lambda>m.
          transition_logged L P (p_table P i e) i (handles P i e m))
      else dispatch_logged L P e is m)"

text \<open>The member \<^verbatim>\<open>Fsm::dispatch_event\<close> starts the search with the indices of all states.\<close>

abbreviation all_states :: "('f, 'e) program \<Rightarrow> nat list" where
  "all_states P \<equiv> [0..<length (p_states P)]"

definition special_dispatch :: "('f, 'e) program \<Rightarrow> 'e \<Rightarrow> 'f fsm \<Rightarrow> 'f fsm" where
  "special_dispatch P e m = dispatch_special P e (all_states P) m"

definition dispatched_dispatch :: "('f, 'e) program \<Rightarrow> 'e \<Rightarrow> 'f fsm \<Rightarrow> 'f fsm option" where
  "dispatched_dispatch P e m = dispatch_dispatched P e (all_states P) m"

definition nested_dispatch :: "('f, 'e) program \<Rightarrow> 'e \<Rightarrow> 'f fsm \<Rightarrow> 'f fsm" where
  "nested_dispatch P e m = dispatch_nested P e (all_states P) m"

definition parts_dispatch :: "('f, 'e) program \<Rightarrow> 'e \<Rightarrow> 'f fsm \<Rightarrow> 'f fsm" where
  "parts_dispatch P e m = dispatch_parts P e (all_states P) m"

definition static_dispatch :: "('f, 'e) program \<Rightarrow> 'e \<Rightarrow> 'f fsm \<Rightarrow> 'f fsm" where
  "static_dispatch P e m = dispatch_static P e (all_states P) m"

definition logged_dispatch :: "loggers \<Rightarrow> ('f, 'e) program \<Rightarrow> 'e \<Rightarrow> 'f fsm \<Rightarrow> ('f, 'e) logged" where
  "logged_dispatch L P e m = dispatch_logged L P e (all_states P) m"

section \<open>The dispatchers agree\<close>

text \<open>A program as an argument of the dispatcher of \<^verbatim>\<open>transition_table\<close>: its guards and actions are members of types,
  which hold nothing.\<close>

definition as_class :: "('f, 'e) program \<Rightarrow> ('f, 'e) fsm_class" where
  "as_class P = \<lparr>fsm_states = p_states P, fsm_table = \<lambda>_ i e. Some (stateless (p_table P i e))\<rparr>"

definition row_parts :: "('f, 'e) program \<Rightarrow> nat \<Rightarrow> 'f traits \<Rightarrow> 'f fsm \<Rightarrow> 'f fsm" where
  "row_parts P i tt m = transition_special (tt_guard tt) (tt_action tt) (tt_next tt) (exit_of (p_states P ! i))
     (next_entry P tt) m"

lemma parts_special: "transition_parts P tt i m = row_parts P i tt m"
  by (cases "tt_guard tt"; cases "tt_action tt"; cases "tt_next tt"; cases "exit_of (p_states P ! i)";
      cases "next_entry P tt")
    (simp_all add: transition_parts_def row_parts_def fsm_action_part_def fsm_exit_part_def fsm_entry_part_def)

lemma static_special: "transition_static P tt i m = row_parts P i tt m"
  by (cases "tt_guard tt"; cases "tt_action tt"; cases "tt_next tt"; cases "exit_of (p_states P ! i)";
      cases "entry_of (p_states P ! the (tt_next tt))")
    (simp_all add: transition_static_def row_parts_def static_action_def static_exit_def static_entry_def next_entry_def)

lemma logged_special: "snd (transition_logged L P tt i m) = row_parts P i tt m"
  by (cases "tt_guard tt"; cases "tt_action tt"; cases "tt_next tt"; cases "exit_of (p_states P ! i)";
      cases "next_entry P tt")
    (simp_all add: transition_logged_def row_parts_def change_logged_def action_logged_def exit_logged_def
      entry_logged_def Let_def)

definition all_loggers :: loggers where
  "all_loggers = \<lparr>has_log_event = True, has_log_guard = True, has_log_action = True,
     has_log_state_change = True, has_log_exit = True, has_log_entry = True\<rparr>"

lemma log_if_logs:
  "log_if (has_log_event L) (Log_Event f i e) = filter (logs L) [Log_Event f i e]"
  "log_if (has_log_guard L) (Log_Guard b) = filter (logs L) [Log_Guard b]"
  "log_if (has_log_action L) Log_Action = filter (logs L) [Log_Action]"
  "log_if (has_log_state_change L) (Log_Change i j) = filter (logs L) [Log_Change i j]"
  "log_if (has_log_exit L) (Log_Exit i) = filter (logs L) [Log_Exit i]"
  "log_if (has_log_entry L) (Log_Entry j) = filter (logs L) [Log_Entry j]"
  by (simp_all add: log_if_def)

lemma transition_as_class:
  "case transition (as_class P) (stateless tt) i m of Inl _ \<Rightarrow> False
   | Inr (l, m') \<Rightarrow> transition_logged L P tt i m = (filter (logs L) l, m')"
  by (cases "tt_guard tt"; cases "tt_action tt"; cases "tt_next tt"; cases "exit_of (p_states P ! i)";
      cases "entry_of (p_states P ! the (tt_next tt))")
    (simp_all add: transition_logged_def transition_def change_logged_def change_state_def action_logged_def
      fsm_action_def exit_logged_def fsm_exit_def entry_logged_def fsm_entry_def next_entry_def as_class_def
      log_if_logs Let_def does_def goes_to_def stateless_def call_guard_def)

lemma handles_as_class: "handle_in_state (as_class P) i e m = handles P i e m"
  by (simp add: handle_in_state_def handles_def as_class_def does_def split: option.split)

lemma table_as_class: "fsm_table (as_class P) f i e = Some (stateless (p_table P i e))"
  by (simp add: as_class_def)

lemma dispatch_parts_special: "dispatch_parts P e is m = dispatch_special P e is m"
  by (induction "is") (simp_all add: parts_special row_parts_def Let_def)

lemma dispatch_static_special: "dispatch_static P e is m = dispatch_special P e is m"
  by (induction "is") (simp_all add: static_special row_parts_def Let_def)

lemma dispatch_logged_as_class:
  "case dispatch_indices (as_class P) e js m of Inl _ \<Rightarrow> False
   | Inr (l, m') \<Rightarrow> dispatch_logged L P e js m = (filter (logs L) l, m')"
proof (induction js)
  case (Cons i js)
  have "case transition (as_class P) (stateless (p_table P i e)) i (handles P i e m) of Inl _ \<Rightarrow> False
   | Inr (l, m') \<Rightarrow> transition_logged L P (p_table P i e) i (handles P i e m) = (filter (logs L) l, m')"
    by (rule transition_as_class)
  with Cons show ?case
    by (auto simp: handles_as_class state_transition_def table_as_class log_if_logs split: sum.splits prod.splits)
qed simp

lemma dispatch_logged_special: "snd (dispatch_logged L P e is m) = dispatch_special P e is m"
  by (induction "is") (simp_all add: logged_special row_parts_def Let_def)

lemma parts_dispatch_special: "parts_dispatch P e m = special_dispatch P e m"
  by (simp add: special_dispatch_def parts_dispatch_def dispatch_parts_special)

lemma static_dispatch_special: "static_dispatch P e m = special_dispatch P e m"
  by (simp add: special_dispatch_def static_dispatch_def dispatch_static_special)

lemma logged_dispatch_special: "snd (logged_dispatch L P e m) = special_dispatch P e m"
  by (simp add: special_dispatch_def logged_dispatch_def dispatch_logged_special)

lemma logged_dispatch_as_class:
  "case dispatch_event (as_class P) e m of Inl _ \<Rightarrow> False
   | Inr (l, m') \<Rightarrow> logged_dispatch L P e m = (filter (logs L) l, m')"
proof -
  have "length (fsm_states (as_class P)) = length (p_states P)" by (simp add: as_class_def)
  then show ?thesis
    using dispatch_logged_as_class [where P = P and L = L and e = e and m = m and js = "all_states P"]
    by (auto simp: logged_dispatch_def dispatch_event_def split: sum.splits prod.splits)
qed

text \<open>C17 (The dispatchers agree). For every program, the specialisations of \<^verbatim>\<open>animation\<close>, the overloads of
  \<^verbatim>\<open>animation2\<close> and of \<^verbatim>\<open>static_fsm\<close>, the logging machine and the machine of \<^verbatim>\<open>transition_table\<close> take an
  event to the same state with the same effects in the same order; the log of the logging machine is the
  part of the whole log that the build and the program's logger ask for, and logging changes nothing
  else.\<close>

theorem dispatchers_agree:
  "\<exists>l. dispatch_event (as_class P) e m = Inr (l, special_dispatch P e m) \<and>
     parts_dispatch P e m = special_dispatch P e m \<and>
     static_dispatch P e m = special_dispatch P e m \<and>
     logged_dispatch L P e m = (filter (logs L) l, special_dispatch P e m)"
  using logged_dispatch_special [of L P e m] logged_dispatch_as_class [where P = P and L = L and e = e and m = m]
  by (auto simp: parts_dispatch_special static_dispatch_special split: sum.splits)

lemma at_state:
  assumes "i \<in> set is" "fsm_state m = i"
  shows "dispatch_special P e is m = row_parts P i (p_table P i e) (handles P i e m)"
    and "dispatch_nested P e is m = transition_nested (tt_guard (p_table P i e)) (tt_action (p_table P i e))
       (tt_next (p_table P i e)) (exit_of (p_states P ! i)) (next_entry P (p_table P i e)) (handles P i e m)"
    and "dispatch_dispatched P e is m = transition_dispatched (tt_guard (p_table P i e)) (tt_action (p_table P i e))
       (tt_next (p_table P i e)) (exit_of (p_states P ! i)) (next_entry P (p_table P i e)) (handles P i e m)"
  using assms by (induction "is") (auto simp: row_parts_def Let_def)

text \<open>What the nested conditions leave out. The machine of \<^verbatim>\<open>ifconstexpr_dispatch\<close> is the documented one,
  except that a row without a guard and an action changes the state without leaving the old one: the
  exit of the source state is not called.\<close>

theorem nested_skips_exit:
  assumes "i < length (p_states P)" and "fsm_state m = i" and "tt = p_table P i e"
  shows "nested_dispatch P e m =
    (if tt_guard tt = None \<and> tt_action tt = None
     then special_dispatch (P\<lparr>p_states := (p_states P)[i := (p_states P ! i)\<lparr>exit_of := None\<rparr>]\<rparr>) e m
     else special_dispatch P e m)"
proof -
  let ?S = "(p_states P ! i)\<lparr>exit_of := None\<rparr>"
  let ?Q = "P\<lparr>p_states := (p_states P)[i := ?S]\<rparr>"
  have Q: "exit_of (p_states ?Q ! i) = None" "p_table ?Q = p_table P" "next_entry ?Q tt = next_entry P tt"
    "handles ?Q i e m = handles P i e m" "length (p_states ?Q) = length (p_states P)"
    using assms(1) by (auto simp: next_entry_def handles_def nth_list_update split: option.split)
  have i: "i \<in> set (all_states P)" using assms(1) by simp
  show ?thesis
    using at_state [OF i assms(2), of P e] at_state(1) [OF i assms(2), of ?Q e] assms(3) Q
    by (cases "tt_guard tt"; cases "tt_action tt"; cases "tt_next tt"; cases "exit_of (p_states P ! i)";
        cases "next_entry P tt")
      (simp_all add: nested_dispatch_def special_dispatch_def row_parts_def transition_nested_def Let_def)
qed

definition leaving_program :: "(nat, unit) program" where
  "leaving_program = \<lparr>p_states = [\<lparr>handle_event = \<lambda>_. None, exit_of = Some Suc, entry_of = None\<rparr>,
       \<lparr>handle_event = \<lambda>_. None, exit_of = None, entry_of = None\<rparr>],
     p_table = \<lambda>_ _. \<lparr>tt_guard = None, tt_action = None, tt_next = Some 1\<rparr>\<rparr>"

theorem nested_skips_exit_witness:
  "derived (nested_dispatch leaving_program () \<lparr>fsm_state = 0, derived = 0\<rparr>) = 0 \<and>
   derived (special_dispatch leaving_program () \<lparr>fsm_state = 0, derived = 0\<rparr>) = 1"
proof -
  have "nested_dispatch leaving_program () \<lparr>fsm_state = 0, derived = 0\<rparr> = \<lparr>fsm_state = 1, derived = 0\<rparr>"
    using nested_skips_exit [of 0 leaving_program "\<lparr>fsm_state = 0, derived = 0\<rparr>" "p_table leaving_program 0 ()" "()"]
    by (simp add: leaving_program_def special_dispatch_def next_entry_def handles_def goes_to_def upt_rec)
  moreover have "derived (special_dispatch leaving_program () \<lparr>fsm_state = 0, derived = 0\<rparr>) = 1"
    by (simp add: leaving_program_def special_dispatch_def next_entry_def handles_def upt_rec)
  ultimately show ?thesis by simp
qed

text \<open>What the first specialisations leave out. The machine of \<^verbatim>\<open>specialization_dispatch\<close> is the
  documented one, except for a row with a guard, a next state with an entry and no action: if the source
  state has an exit the program is ill-formed, and if it has none the row is ignored.\<close>

theorem specialisation_missing:
  assumes "i < length (p_states P)" and "fsm_state m = i" and "tt = p_table P i e"
  shows "dispatched_dispatch P e m =
    (if tt_guard tt \<noteq> None \<and> tt_action tt = None \<and> next_entry P tt \<noteq> None
     then if exit_of (p_states P ! i) = None then Some (handles P i e m) else None
     else Some (special_dispatch P e m))"
proof -
  have i: "i \<in> set (all_states P)" using assms(1) by simp
  show ?thesis
    using at_state [OF i assms(2), of P e] assms(3)
    by (cases "tt_guard tt"; cases "tt_action tt"; cases "tt_next tt"; cases "exit_of (p_states P ! i)";
        cases "next_entry P tt")
      (simp_all add: dispatched_dispatch_def special_dispatch_def row_parts_def next_entry_def)
qed

definition entering_program :: "(nat, unit) program" where
  "entering_program = \<lparr>p_states = [\<lparr>handle_event = \<lambda>_. None, exit_of = None, entry_of = None\<rparr>,
       \<lparr>handle_event = \<lambda>_. None, exit_of = None, entry_of = Some Suc\<rparr>],
     p_table = \<lambda>_ _. \<lparr>tt_guard = Some (\<lambda>_. True), tt_action = None, tt_next = Some 1\<rparr>\<rparr>"

theorem specialisation_missing_witness:
  "dispatched_dispatch entering_program () \<lparr>fsm_state = 0, derived = 0\<rparr> = Some \<lparr>fsm_state = 0, derived = 0\<rparr> \<and>
   fsm_state (special_dispatch entering_program () \<lparr>fsm_state = 0, derived = 0\<rparr>) = 1"
proof -
  have "dispatched_dispatch entering_program () \<lparr>fsm_state = 0, derived = 0\<rparr> = Some \<lparr>fsm_state = 0, derived = 0\<rparr>"
    using specialisation_missing [of 0 entering_program "\<lparr>fsm_state = 0, derived = 0\<rparr>"
        "p_table entering_program 0 ()" "()"]
    by (simp add: entering_program_def next_entry_def handles_def)
  moreover have "fsm_state (special_dispatch entering_program () \<lparr>fsm_state = 0, derived = 0\<rparr>) = 1"
    by (simp add: entering_program_def special_dispatch_def next_entry_def handles_def upt_rec)
  ultimately show ?thesis by simp
qed

end
