(* ===== verification/Animation_Programs.thy ===== *)
theory Animation_Programs
  imports Fsm_Dispatch
begin

text \<open>
  The animation as the dispatchers of \<open>Fsm_Dispatch\<close> run it (\<^verbatim>\<open>tuple_fsm/animation\<close>, \<^verbatim>\<open>animation2\<close>,
  \<^verbatim>\<open>logging\<close> and \<^verbatim>\<open>static_fsm/first\<close>), as a \<^verbatim>\<open>std::variant\<close> (\<^verbatim>\<open>variant_fsm\<close>: \<^verbatim>\<open>first_hack\<close>, \<^verbatim>\<open>second\<close>,
  \<^verbatim>\<open>third\<close>, \<^verbatim>\<open>fourth\<close>), and with an enumeration (\<^verbatim>\<open>naive_fsm/fist.cpp\<close>). All are interpretations of the
  contract of \<open>Animation_Spec\<close> with a limit.
\<close>

section \<open>Programs of a dispatcher\<close>

text \<open>The states in the order of the type list: playing, paused, idle; \<open>'f\<close> is the counter. A state without
  a handler for an event and a handler that does nothing are different programs.\<close>

definition quiet :: "bool \<Rightarrow> ('f \<Rightarrow> 'f) option" where
  "quiet b = (if b then Some (\<lambda>n. n) else None)"

definition state_animating :: "bool \<Rightarrow> (counter, a_event) state_class" where
  "state_animating h = \<lparr>handle_event = (\<lambda>e. if e = Update_Event then Some (\<lambda>n. n + 1) else quiet h),
     exit_of = None, entry_of = Some (\<lambda>n. n)\<rparr>"

definition state_paused :: "bool \<Rightarrow> (counter, a_event) state_class" where
  "state_paused h = \<lparr>handle_event = (\<lambda>e. quiet h), exit_of = None, entry_of = Some (\<lambda>n. n)\<rparr>"

definition state_idle :: "bool \<Rightarrow> (counter, a_event) state_class" where
  "state_idle h = \<lparr>handle_event = (\<lambda>e. quiet h), exit_of = None, entry_of = Some (\<lambda>n. 0)\<rparr>"

definition empty_row :: "'f traits" where
  "empty_row = \<lparr>tt_guard = None, tt_action = None, tt_next = None\<rparr>"

definition anim_counter_limit :: "32 word" where
  "anim_counter_limit = 42"

text \<open>The rows; \<open>b\<close> says whether the rows to the playing state have a guard and actions.\<close>

fun transition_rows :: "bool \<Rightarrow> nat \<Rightarrow> a_event \<Rightarrow> counter traits" where
  "transition_rows b i Play_Event =
     (if i = 2 then \<lparr>tt_guard = if b then Some (\<lambda>_. True) else None, tt_action = quiet b, tt_next = Some 0\<rparr>
      else if i = 1 then \<lparr>tt_guard = None, tt_action = quiet b, tt_next = Some 0\<rparr>
      else empty_row)"
| "transition_rows b i Update_Event =
     (if i = 0 then \<lparr>tt_guard = Some (\<lambda>n. anim_counter_limit \<le> n), tt_action = None, tt_next = Some 2\<rparr>
      else empty_row)"
| "transition_rows b i Pause_Event = (if i = 0 then make_entry 1 else empty_row)"
| "transition_rows b i Stop_Event = (if i = 0 \<or> i = 1 then make_entry 2 else empty_row)"

definition animation_program :: "(counter, a_event) program" where
  "animation_program = \<lparr>p_states = [state_animating False, state_paused False, state_idle False],
     p_table = transition_rows False\<rparr>"

definition animation2_program :: "(counter, a_event) program" where
  "animation2_program = \<lparr>p_states = [state_animating False, state_paused False, state_idle False],
     p_table = transition_rows True\<rparr>"

definition logging_program :: "(counter, a_event) program" where
  "logging_program = \<lparr>p_states = [state_animating False, state_paused False, state_idle False],
     p_table = transition_rows True\<rparr>"

definition static_program :: "(counter, a_event) program" where
  "static_program = \<lparr>p_states = [state_animating True, state_paused True, state_idle True],
     p_table = transition_rows True\<rparr>"

definition program_start :: "counter fsm" where
  "program_start = set_initial_state 2 \<lparr>fsm_state = 0, derived = 0\<rparr>"

text \<open>The events of one lap of the benchmarks.\<close>

definition lap_events :: "a_event list" where
  "lap_events = [Play_Event, Update_Event, Pause_Event, Update_Event, Play_Event, Update_Event, Stop_Event,
     Play_Event, Update_Event, Stop_Event]"

definition step_of :: "('e \<Rightarrow> 'm \<Rightarrow> 'm) \<Rightarrow> 'e \<Rightarrow> 'm \<Rightarrow> fault + 'm" where
  "step_of f e m = Inr (f e m)"

lemma run_step_of: "run_events (step_of f) es m = Inr (fold f es m)"
  by (induction es arbitrary: m) (simp_all add: step_of_def)

lemma program_step:
  assumes P: "p_states P = [state_animating h, state_paused h, state_idle h]" "p_table P = transition_rows b"
    and m: "fsm_state m < 3"
  shows "fsm_state (special_dispatch P e m) < 3 \<and>
    tuple_view (special_dispatch P e m) = anim_step False (Some anim_counter_limit) e (tuple_view m)"
proof -
  from m consider "fsm_state m = 0" | "fsm_state m = 1" | "fsm_state m = 2" by linarith
  then show ?thesis
  proof cases
  qed (cases e; cases h; cases b; simp add: special_dispatch_def P at_state(1) row_parts_def handles_def
      next_entry_def tuple_view_def state_animating_def state_paused_def state_idle_def quiet_def empty_row_def
      make_entry_def over_def does_def goes_to_def numeral_2_eq_2 numeral_3_eq_3)+
qed

lemma program_animation:
  assumes "p_states P = [state_animating h, state_paused h, state_idle h]" "p_table P = transition_rows b"
  shows "limited_animation (step_of (special_dispatch P)) (\<lambda>m. fsm_state m < 3) tuple_view anim_counter_limit"
proof
  fix m :: "counter fsm" and e assume "fsm_state m < 3"
  from program_step [OF assms this, of e]
  show "\<exists>m'. step_of (special_dispatch P) e m = Inr m' \<and> fsm_state m' < 3 \<and>
      tuple_view m' = anim_step False (Some anim_counter_limit) e (tuple_view m)"
    by (simp add: step_of_def)
qed (simp add: anim_counter_limit_def)

interpretation special_animation: limited_animation "step_of (special_dispatch animation_program)"
  "\<lambda>m. fsm_state m < 3" tuple_view anim_counter_limit
  by (rule program_animation) (simp_all add: animation_program_def)

interpretation parts_animation: limited_animation "step_of (parts_dispatch animation2_program)"
  "\<lambda>m. fsm_state m < 3" tuple_view anim_counter_limit
  unfolding parts_dispatch_special [abs_def]
  by (rule program_animation) (simp_all add: animation2_program_def)

interpretation static_animation: limited_animation "step_of (static_dispatch static_program)"
  "\<lambda>m. fsm_state m < 3" tuple_view anim_counter_limit
  unfolding static_dispatch_special [abs_def]
  by (rule program_animation) (simp_all add: static_program_def)

definition logging_step :: "loggers \<Rightarrow> a_event \<Rightarrow> counter fsm \<Rightarrow> counter fsm" where
  "logging_step L e m = snd (logged_dispatch L logging_program e m)"

interpretation logging_animation: limited_animation "step_of (logging_step L)"
  "\<lambda>m. fsm_state m < 3" tuple_view anim_counter_limit for L
  unfolding logging_step_def [abs_def] logged_dispatch_special
  by (rule program_animation) (simp_all add: logging_program_def)

section \<open>The animation as a variant\<close>

datatype v_state =
    StateIdle
  | StatePaused "32 word"
  | StateAnimating "32 word"

record v_animation = v_state :: v_state

definition v_start :: v_animation where
  "v_start = \<lparr>v_state = StateIdle\<rparr>"

definition v_view :: "v_animation \<Rightarrow> a_mode \<times> 32 word" where
  "v_view m = (case v_state m of
       StateIdle \<Rightarrow> (Idle, 0)
     | StatePaused n \<Rightarrow> (Paused, n)
     | StateAnimating n \<Rightarrow> (Animating, n))"

text \<open>\<^verbatim>\<open>first_hack\<close> and \<^verbatim>\<open>second\<close>: the members visit the state and assign it.\<close>

definition v_counter_limit :: "32 word" where
  "v_counter_limit = 144"

definition v_current_count :: "v_animation \<Rightarrow> 32 word" where
  "v_current_count m = (case v_state m of
       StateIdle \<Rightarrow> 0
     | StatePaused n \<Rightarrow> n
     | StateAnimating n \<Rightarrow> n)"

definition v_update :: "v_animation \<Rightarrow> v_animation" where
  "v_update m = (case v_state m of
       StateAnimating n \<Rightarrow>
         (let m1 = m\<lparr>v_state := StateAnimating (n + 1)\<rparr> in
          if v_counter_limit \<le> n + 1 then m1\<lparr>v_state := StateIdle\<rparr> else m1)
     | _ \<Rightarrow> m)"

definition v_play :: "v_animation \<Rightarrow> v_animation" where
  "v_play m = (case v_state m of
       StateIdle \<Rightarrow> m\<lparr>v_state := StateAnimating 0\<rparr>
     | StatePaused n \<Rightarrow> m\<lparr>v_state := StateAnimating n\<rparr>
     | _ \<Rightarrow> m)"

definition v_stop :: "v_animation \<Rightarrow> v_animation" where
  "v_stop m = (case v_state m of
       StateAnimating n \<Rightarrow> m\<lparr>v_state := StateIdle\<rparr>
     | StatePaused n \<Rightarrow> m\<lparr>v_state := StateIdle\<rparr>
     | _ \<Rightarrow> m)"

definition v_pause :: "v_animation \<Rightarrow> v_animation" where
  "v_pause m = (case v_state m of
       StateAnimating n \<Rightarrow> m\<lparr>v_state := StatePaused n\<rparr>
     | _ \<Rightarrow> m)"

fun v_dispatch :: "a_event \<Rightarrow> v_animation \<Rightarrow> v_animation" where
  "v_dispatch Play_Event m = v_play m"
| "v_dispatch Update_Event m = v_update m"
| "v_dispatch Pause_Event m = v_pause m"
| "v_dispatch Stop_Event m = v_stop m"

text \<open>
  \<^verbatim>\<open>third\<close>: a handler returns the new state, if there is one. The base class takes a copy of the machine, lets the copy handle
  the event, and assigns what it returns; the results of \<^verbatim>\<open>on_exit\<close> and \<^verbatim>\<open>on_entry\<close> are empty.
\<close>

definition fsm_counter_limit :: "32 word" where
  "fsm_counter_limit = 42"

type_synonym handled = "v_state option \<times> v_animation"

definition h_update :: "v_animation \<Rightarrow> handled" where
  "h_update m = (case v_state m of
       StateAnimating n \<Rightarrow>
         (let m1 = m\<lparr>v_state := StateAnimating (n + 1)\<rparr> in
          if fsm_counter_limit \<le> n + 1 then (Some StateIdle, m1) else (Some (v_state m1), m1))
     | _ \<Rightarrow> (None, m))"

definition h_play :: "v_animation \<Rightarrow> handled" where
  "h_play m = (case v_state m of
       StateIdle \<Rightarrow> (Some (StateAnimating 0), m)
     | StatePaused n \<Rightarrow> (Some (StateAnimating n), m)
     | _ \<Rightarrow> (None, m))"

definition h_stop :: "v_animation \<Rightarrow> handled" where
  "h_stop m = (case v_state m of
       StateAnimating n \<Rightarrow> (Some StateIdle, m)
     | StatePaused n \<Rightarrow> (Some StateIdle, m)
     | _ \<Rightarrow> (None, m))"

definition h_pause :: "v_animation \<Rightarrow> handled" where
  "h_pause m = (case v_state m of
       StateAnimating n \<Rightarrow> (Some (StatePaused n), m)
     | _ \<Rightarrow> (None, m))"

fun h_dispatch_event :: "a_event \<Rightarrow> v_animation \<Rightarrow> handled" where
  "h_dispatch_event Update_Event m = h_update m"
| "h_dispatch_event Play_Event m = h_play m"
| "h_dispatch_event Pause_Event m = h_pause m"
| "h_dispatch_event Stop_Event m = h_stop m"

definition h_dispatch :: "a_event \<Rightarrow> v_animation \<Rightarrow> v_animation" where
  "h_dispatch e m = (
     let fsm_copy = m in
     case h_dispatch_event e fsm_copy of
       (None, copy) \<Rightarrow> m
     | (Some new_state, copy) \<Rightarrow> m\<lparr>v_state := new_state\<rparr>)"

interpretation variant: limited_animation "step_of v_dispatch" "\<lambda>_. True" v_view v_counter_limit
proof
  fix m e
  show "\<exists>m'. step_of v_dispatch e m = Inr m' \<and> True \<and> v_view m' = anim_step False (Some v_counter_limit) e (v_view m)"
    by (cases e; cases "v_state m")
      (simp_all add: step_of_def v_play_def v_update_def v_pause_def v_stop_def over_def v_view_def Let_def)
qed (simp add: v_counter_limit_def)

interpretation variant_fsm: limited_animation "step_of h_dispatch" "\<lambda>_. True" v_view fsm_counter_limit
proof
  fix m e
  show "\<exists>m'. step_of h_dispatch e m = Inr m' \<and> True \<and> v_view m' = anim_step False (Some fsm_counter_limit) e (v_view m)"
    by (cases e; cases "v_state m")
      (simp_all add: step_of_def h_dispatch_def h_play_def h_update_def h_pause_def h_stop_def over_def v_view_def Let_def)
qed (simp add: fsm_counter_limit_def)

text \<open>\<^verbatim>\<open>fourth\<close>: the first alternative of the state is \<^verbatim>\<open>std::monostate\<close>; a handler returns it where there
  is no new state, and the machine ignores it.\<close>

datatype m_state =
    Monostate
  | MAnimating "32 word"
  | MPaused "32 word"
  | MIdle

record m_animation = m_state :: m_state

definition m_start :: m_animation where
  "m_start = \<lparr>m_state = MIdle\<rparr>"

definition m_current_count :: "m_animation \<Rightarrow> 32 word" where
  "m_current_count m = (case m_state m of MIdle \<Rightarrow> 0 | MAnimating n \<Rightarrow> n | MPaused n \<Rightarrow> n | Monostate \<Rightarrow> 144)"

definition m_counter_limit :: "32 word" where
  "m_counter_limit = 42"

type_synonym m_handled = "m_state \<times> m_animation"

definition m_update :: "m_animation \<Rightarrow> m_handled" where
  "m_update m = (case m_state m of
       MAnimating n \<Rightarrow>
         (let m1 = m\<lparr>m_state := MAnimating (n + 1)\<rparr> in
          if m_counter_limit \<le> n + 1 then (MIdle, m1) else (m_state m1, m1))
     | _ \<Rightarrow> (Monostate, m))"

definition m_play :: "m_animation \<Rightarrow> m_handled" where
  "m_play m = (case m_state m of
       MIdle \<Rightarrow> (MAnimating 0, m)
     | MPaused n \<Rightarrow> (MAnimating n, m)
     | _ \<Rightarrow> (Monostate, m))"

definition m_stop :: "m_animation \<Rightarrow> m_handled" where
  "m_stop m = (case m_state m of
       MAnimating n \<Rightarrow> (MIdle, m)
     | MPaused n \<Rightarrow> (MIdle, m)
     | _ \<Rightarrow> (Monostate, m))"

definition m_pause :: "m_animation \<Rightarrow> m_handled" where
  "m_pause m = (case m_state m of
       MAnimating n \<Rightarrow> (MPaused n, m)
     | _ \<Rightarrow> (Monostate, m))"

fun m_dispatch_event :: "a_event \<Rightarrow> m_animation \<Rightarrow> m_handled" where
  "m_dispatch_event Update_Event m = m_update m"
| "m_dispatch_event Play_Event m = m_play m"
| "m_dispatch_event Pause_Event m = m_pause m"
| "m_dispatch_event Stop_Event m = m_stop m"

definition m_dispatch :: "a_event \<Rightarrow> m_animation \<Rightarrow> m_animation" where
  "m_dispatch e m = (
     let fsm_copy = m in
     case m_dispatch_event e fsm_copy of (new_state, copy) \<Rightarrow>
       if new_state \<noteq> Monostate then m\<lparr>m_state := new_state\<rparr> else m)"

definition m_view :: "m_animation \<Rightarrow> a_mode \<times> 32 word" where
  "m_view m = (case m_state m of
       MAnimating n \<Rightarrow> (Animating, n)
     | MPaused n \<Rightarrow> (Paused, n)
     | _ \<Rightarrow> (Idle, 0))"

interpretation monostate_fsm: limited_animation "step_of m_dispatch" "\<lambda>m. m_state m \<noteq> Monostate" m_view m_counter_limit
proof
  fix m :: m_animation and e assume "m_state m \<noteq> Monostate"
  then show "\<exists>m'. step_of m_dispatch e m = Inr m' \<and> m_state m' \<noteq> Monostate \<and>
      m_view m' = anim_step False (Some m_counter_limit) e (m_view m)"
    by (cases e; cases "m_state m")
      (simp_all add: step_of_def m_dispatch_def m_play_def m_update_def m_pause_def m_stop_def over_def m_view_def Let_def)
qed (simp add: m_counter_limit_def)

section \<open>The animation with an enumeration\<close>

record e_animation =
  e_mode :: a_mode
  e_counter :: "32 word"

definition e_start :: e_animation where
  "e_start = \<lparr>e_mode = Idle, e_counter = 0\<rparr>"

definition e_counter_limit :: "32 word" where
  "e_counter_limit = 144"

definition e_current_count :: "e_animation \<Rightarrow> 32 word" where
  "e_current_count m = (case e_mode m of Animating \<Rightarrow> e_counter m | Paused \<Rightarrow> e_counter m | Idle \<Rightarrow> 0)"

definition e_play :: "e_animation \<Rightarrow> e_animation" where
  "e_play m = m\<lparr>e_mode := Animating\<rparr>"

definition e_stop :: "e_animation \<Rightarrow> e_animation" where
  "e_stop m = m\<lparr>e_counter := 0, e_mode := Idle\<rparr>"

definition e_pause :: "e_animation \<Rightarrow> e_animation" where
  "e_pause m = (if e_mode m = Animating then m\<lparr>e_mode := Paused\<rparr> else m)"

definition e_animate :: "e_animation \<Rightarrow> e_animation" where
  "e_animate m = (let m1 = m\<lparr>e_counter := e_counter m + 1\<rparr> in
     if e_counter_limit \<le> e_counter m1 then e_stop m1 else m1)"

definition e_update :: "e_animation \<Rightarrow> e_animation" where
  "e_update m = (case e_mode m of Animating \<Rightarrow> e_animate m | Paused \<Rightarrow> m | Idle \<Rightarrow> m)"

fun e_call :: "a_event \<Rightarrow> e_animation \<Rightarrow> e_animation" where
  "e_call Play_Event m = e_play m"
| "e_call Update_Event m = e_update m"
| "e_call Pause_Event m = e_pause m"
| "e_call Stop_Event m = e_stop m"

definition e_view :: "e_animation \<Rightarrow> a_mode \<times> 32 word" where
  "e_view m = (e_mode m, e_counter m)"

interpretation enumerated: limited_animation "step_of e_call" "\<lambda>m. e_mode m = Idle \<longrightarrow> e_counter m = 0" e_view
  e_counter_limit
proof
  fix m :: e_animation and e assume "e_mode m = Idle \<longrightarrow> e_counter m = 0"
  then show "\<exists>m'. step_of e_call e m = Inr m' \<and> (e_mode m' = Idle \<longrightarrow> e_counter m' = 0) \<and>
      e_view m' = anim_step False (Some e_counter_limit) e (e_view m)"
    by (cases e; cases "e_mode m")
      (auto simp: step_of_def e_play_def e_update_def e_pause_def e_stop_def e_animate_def e_view_def over_def Let_def)
qed (simp add: e_counter_limit_def)

section \<open>All programs do the same\<close>

lemma current_counts:
  "v_current_count m = snd (v_view m)"
  "e_mode a = Idle \<longrightarrow> e_counter a = 0 \<Longrightarrow> e_current_count a = snd (e_view a)"
  "m_state b \<noteq> Monostate \<Longrightarrow> m_current_count b = snd (m_view b)"
  by (simp_all add: v_current_count_def v_view_def e_current_count_def e_view_def m_current_count_def m_view_def
      split: v_state.split a_mode.split m_state.split)

lemma laps_idle:
  assumes "over l 2 = False"
  shows "fold (anim_step keep l) (concat (replicate n lap_events)) (Idle, 0) = (Idle, 0)"
  using assms by (induction n) (auto simp: lap_events_def over_def split: option.splits)

lemma starts:
  "fsm_state program_start < 3" "tuple_view program_start = (Idle, 0)" "v_view v_start = (Idle, 0)"
  "e_view e_start = (Idle, 0)" "e_mode e_start = Idle \<longrightarrow> e_counter e_start = 0"
  "m_view m_start = (Idle, 0)" "m_state m_start \<noteq> Monostate"
  by (simp_all add: program_start_def set_initial_state_def tuple_view_def v_start_def v_view_def e_start_def e_view_def m_view_def m_start_def)

lemma program_runs:
  "tuple_view (fold (special_dispatch animation_program) es program_start) = fold (anim_step False (Some 42)) es (Idle, 0)"
  "tuple_view (fold (parts_dispatch animation2_program) es program_start) = fold (anim_step False (Some 42)) es (Idle, 0)"
  "tuple_view (fold (static_dispatch static_program) es program_start) = fold (anim_step False (Some 42)) es (Idle, 0)"
  "tuple_view (fold (logging_step L) es program_start) = fold (anim_step False (Some 42)) es (Idle, 0)"
  "v_view (fold h_dispatch es v_start) = fold (anim_step False (Some 42)) es (Idle, 0)"
  "m_view (fold m_dispatch es m_start) = fold (anim_step False (Some 42)) es (Idle, 0)"
  "v_view (fold v_dispatch es v_start) = fold (anim_step False (Some 144)) es (Idle, 0)"
  "e_view (fold e_call es e_start) = fold (anim_step False (Some 144)) es (Idle, 0)"
  using special_animation.run_refines [OF starts(1), of es] parts_animation.run_refines [OF starts(1), of es]
    static_animation.run_refines [OF starts(1), of es] logging_animation.run_refines [OF starts(1), of L es]
    variant_fsm.run_refines [where m = v_start and es = es] variant.run_refines [where m = v_start and es = es]
    enumerated.run_refines [OF starts(5), of es] monostate_fsm.run_refines [OF starts(7), of es]
  by (simp_all add: run_step_of starts(2-4,6) anim_counter_limit_def fsm_counter_limit_def v_counter_limit_def
      e_counter_limit_def m_counter_limit_def)

text \<open>C23 (All programs are the same animation). Fed with any events, the machines of the four dispatchers,
  the two variants that assign and the two that return a state, and the enumeration are in the state of
  the animation's contract, with its counter; the limit is 42 for the dispatchers and the variants that
  return a state, and 144 for the others.\<close>

theorem animation_programs_agree:
  "tuple_view (fold (special_dispatch animation_program) es program_start) = fold (anim_step False (Some 42)) es (Idle, 0) \<and>
   tuple_view (fold (parts_dispatch animation2_program) es program_start) = fold (anim_step False (Some 42)) es (Idle, 0) \<and>
   tuple_view (fold (static_dispatch static_program) es program_start) = fold (anim_step False (Some 42)) es (Idle, 0) \<and>
   tuple_view (fold (logging_step L) es program_start) = fold (anim_step False (Some 42)) es (Idle, 0) \<and>
   v_view (fold h_dispatch es v_start) = fold (anim_step False (Some 42)) es (Idle, 0) \<and>
   m_view (fold m_dispatch es m_start) = fold (anim_step False (Some 42)) es (Idle, 0) \<and>
   v_view (fold v_dispatch es v_start) = fold (anim_step False (Some 144)) es (Idle, 0) \<and>
   e_view (fold e_call es e_start) = fold (anim_step False (Some 144)) es (Idle, 0)"
  by (intro conjI program_runs)

text \<open>A lap ends where it began. Any number of laps of the benchmarks leaves every program idle with the
  count 0.\<close>

theorem laps_end_idle:
  "tuple_view (fold (special_dispatch animation_program) (concat (replicate n lap_events)) program_start) = (Idle, 0) \<and>
   tuple_view (fold (static_dispatch static_program) (concat (replicate n lap_events)) program_start) = (Idle, 0) \<and>
   v_view (fold h_dispatch (concat (replicate n lap_events)) v_start) = (Idle, 0) \<and>
   m_view (fold m_dispatch (concat (replicate n lap_events)) m_start) = (Idle, 0) \<and>
   v_view (fold v_dispatch (concat (replicate n lap_events)) v_start) = (Idle, 0) \<and>
   e_view (fold e_call (concat (replicate n lap_events)) e_start) = (Idle, 0)"
  by (simp add: program_runs laps_idle over_def)

section \<open>A playing animation ends by itself\<close>

lemma updates_when_idle:
  "fst s \<noteq> Animating \<Longrightarrow> fst (fold (anim_step keep l) (replicate n Update_Event) s) \<noteq> Animating"
proof (induction n arbitrary: s)
  case (Suc n)
  from Suc.prems have "fst (anim_step keep l Update_Event s) \<noteq> Animating"
    by (cases s; cases "fst s") auto
  with Suc.IH show ?case by (simp del: fold_replicate)
qed simp

context limited_animation
begin

lemma run_bounded:
  assumes "inv m" "bounded m" "run_events step es m = Inr m'"
  shows "inv m' \<and> bounded m'"
  using assms
proof (induction es arbitrary: m)
  case (Cons e es)
  from Cons.prems(3) obtain m1 where m1: "step e m = Inr m1" "run_events step es m1 = Inr m'" by auto
  from step_bounded [OF Cons.prems(1,2) m1(1)] Cons.IH m1(2) show ?case by blast
qed simp

lemma updates_end:
  assumes "inv m" "bounded m" "view m = s" and "unat l \<le> n"
  shows "fst (fold (anim_step False (Some l)) (replicate n Update_Event) s) \<noteq> Animating"
proof (cases "fst s = Animating")
  case False
  then show ?thesis by (rule updates_when_idle)
next
  case True
  let ?es = "replicate n Update_Event"
  have "set ?es \<subseteq> {Update_Event, Play_Event}" by auto
  moreover have "unat l - unat (snd (view m)) \<le> length (filter (\<lambda>e. e = Update_Event) ?es)"
    using assms(4) by (simp add: filter_replicate)
  ultimately obtain us vs m' where u: "?es = us @ vs" "run_events step us m = Inr m'" "view m' = (Idle, 0)"
    using becomes_idle [OF assms(1,2)] True assms(3) by blast
  from run_refines [OF assms(1), of us] u(2,3) assms(3)
  have "fold (anim_step False (Some l)) us s = (Idle, 0)" by simp
  moreover from u(1) have "vs = replicate (length vs) Update_Event"
    by (metis append_eq_append_conv_if drop_replicate append_eq_conv_conj length_drop length_replicate)
  ultimately show ?thesis
    using updates_when_idle [of "(Idle, 0)" False "Some l" "length vs"] u(1) by (simp del: fold_replicate)
qed

lemma ends_by_itself:
  assumes "inv m0" "view m0 = (Idle, 0)" "unat l \<le> n"
  shows "fst (fold (anim_step False (Some l)) (es @ replicate n Update_Event) (Idle, 0)) \<noteq> Animating"
proof -
  from run_refines [OF assms(1), of es] obtain m where
    m: "run_events step es m0 = Inr m" "inv m" "view m = fold (anim_step False (Some l)) es (view m0)" by blast
  have "bounded m0" using assms(2) pos by (simp add: bounded_def)
  with run_bounded [OF assms(1) _ m(1)] have "bounded m" by blast
  from updates_end [OF m(2) this m(3) assms(3)] assms(2) show ?thesis by (simp del: fold_replicate)
qed

end

text \<open>A playing animation ends by itself. Whatever happened before, the updates up to the limit leave no
  program playing: 42 for the dispatchers and the variants that return a state, 144 for the others.\<close>

theorem animation_programs_end:
  "fst (tuple_view (fold (special_dispatch animation_program) (es @ replicate 42 Update_Event) program_start)) \<noteq> Animating \<and>
   fst (tuple_view (fold (static_dispatch static_program) (es @ replicate 42 Update_Event) program_start)) \<noteq> Animating \<and>
   fst (v_view (fold h_dispatch (es @ replicate 42 Update_Event) v_start)) \<noteq> Animating \<and>
   fst (m_view (fold m_dispatch (es @ replicate 42 Update_Event) m_start)) \<noteq> Animating \<and>
   fst (v_view (fold v_dispatch (es @ replicate 144 Update_Event) v_start)) \<noteq> Animating \<and>
   fst (e_view (fold e_call (es @ replicate 144 Update_Event) e_start)) \<noteq> Animating"
  using special_animation.ends_by_itself [OF starts(1,2), of 42 es]
    static_animation.ends_by_itself [OF starts(1,2), of 42 es]
    variant_fsm.ends_by_itself [where ?m0.0 = v_start and n = 42 and es = es]
    variant.ends_by_itself [where ?m0.0 = v_start and n = 144 and es = es]
    enumerated.ends_by_itself [OF starts(5,4), of 144 es]
    monostate_fsm.ends_by_itself [OF starts(7,6), of 42 es]
  by (simp add: program_runs starts(3) anim_counter_limit_def fsm_counter_limit_def v_counter_limit_def
      e_counter_limit_def m_counter_limit_def del: fold_append fold_replicate)

end
