(* ===== verification/Undo_Interface.thy ===== *)
theory Undo_Interface
  imports Prelude
begin

text \<open>
  Operations that can be taken back, the contract of the command and memento examples of
  \<^verbatim>\<open>src/DesignPatterns/Behavioral\<close>: a call returns the command with what it has to remember and the new
  state; the undo of the command it returns restores the state before. What holds for one command holds
  for a sequence of them, if it is undone from its end.
\<close>

primrec call_list :: "('c \<Rightarrow> 's \<Rightarrow> 'x + 'c \<times> 's) \<Rightarrow> 'c list \<Rightarrow> 's \<Rightarrow> 'x + 'c list \<times> 's" where
  "call_list call [] s = Inr ([], s)"
| "call_list call (c # cs) s = bnd (call c s) (\<lambda>(c', s1).
     bnd (call_list call cs s1) (\<lambda>(cs', s2). Inr (c' # cs', s2)))"

primrec undo_list :: "('c \<Rightarrow> 's \<Rightarrow> 'x + 's) \<Rightarrow> 'c list \<Rightarrow> 's \<Rightarrow> 'x + 's" where
  "undo_list undo [] s = Inr s"
| "undo_list undo (c # cs) s = bnd (undo_list undo cs s) (undo c)"

locale undoable =
  fixes call :: "'c \<Rightarrow> 's \<Rightarrow> 'x + 'c \<times> 's"
    and undo :: "'c \<Rightarrow> 's \<Rightarrow> 'x + 's"
    and inv :: "'s \<Rightarrow> bool"
    and ok :: "'c \<Rightarrow> bool"
  assumes call_inv: "inv s \<Longrightarrow> ok c \<Longrightarrow> call c s = Inr (c', s') \<Longrightarrow> inv s'"
    and undo_call: "inv s \<Longrightarrow> ok c \<Longrightarrow> call c s = Inr (c', s') \<Longrightarrow> undo c' s' = Inr s"
begin

lemma list_undoable:
  assumes "inv s" "list_all ok cs" "call_list call cs s = Inr (cs', s')"
  shows "inv s' \<and> undo_list undo cs' s' = Inr s"
  using assms
proof (induction cs arbitrary: s cs')
  case (Cons c cs)
  from Cons.prems(3) obtain c' s1 cs1 where
    c: "call c s = Inr (c', s1)" "call_list call cs s1 = Inr (cs1, s')" "cs' = c' # cs1"
    by (auto split: prod.splits)
  with Cons.prems(1,2) have "inv s1" "undo c' s1 = Inr s"
    using call_inv [of s c] undo_call [of s c] by auto
  with Cons.IH [OF this(1) _ c(2)] Cons.prems(2) c(3) show ?case by auto
qed simp

end

end
