(* ===== verification/Bank_Commands.thy ===== *)
theory Bank_Commands
  imports Undo_Interface
begin

text \<open>
  The command examples over bank accounts: \<^verbatim>\<open>command_composite.cpp\<close>, where a command knows whether it
  succeeded and a composite is undone from its end, and \<^verbatim>\<open>command_3.cpp\<close>, where neither is the case.
  Commands refer to their account; a bank maps these references to the accounts.
\<close>

section \<open>Accounts\<close>

record account =
  balance :: int
  overdraft_limit :: int

definition new_account :: account where
  "new_account = \<lparr>balance = 0, overdraft_limit = - 500\<rparr>"

type_synonym bank = "nat \<Rightarrow> account option"

definition account_at :: "nat \<Rightarrow> bank \<Rightarrow> fault + account" where
  "account_at r b = (case b r of None \<Rightarrow> Inl Dangling | Some a \<Rightarrow> Inr a)"

definition deposit :: "int \<Rightarrow> account \<Rightarrow> fault + account" where
  "deposit amount a = bnd (checked_int (balance a + amount)) (\<lambda>n. Inr (a\<lparr>balance := n\<rparr>))"

definition withdraw :: "int \<Rightarrow> account \<Rightarrow> fault + bool \<times> account" where
  "withdraw amount a = bnd (checked_int (balance a - amount)) (\<lambda>n.
     if overdraft_limit a \<le> n then Inr (True, a\<lparr>balance := n\<rparr>) else Inr (False, a))"

section \<open>Commands that remember their success\<close>

datatype action = Deposit | Withdraw

record command =
  on_account :: nat
  action_of :: action
  amount_of :: int
  succeeded :: bool

definition new_command :: "nat \<Rightarrow> action \<Rightarrow> int \<Rightarrow> command" where
  "new_command r act n = \<lparr>on_account = r, action_of = act, amount_of = n, succeeded = False\<rparr>"

definition cmd_call :: "command \<Rightarrow> bank \<Rightarrow> fault + command \<times> bank" where
  "cmd_call c b = bnd (account_at (on_account c) b) (\<lambda>a.
     case action_of c of
       Deposit \<Rightarrow> bnd (deposit (amount_of c) a) (\<lambda>a'.
         Inr (c\<lparr>succeeded := True\<rparr>, b(on_account c \<mapsto> a')))
     | Withdraw \<Rightarrow> bnd (withdraw (amount_of c) a) (\<lambda>(ok, a').
         Inr (c\<lparr>succeeded := ok\<rparr>, b(on_account c \<mapsto> a'))))"

definition cmd_undo :: "command \<Rightarrow> bank \<Rightarrow> fault + bank" where
  "cmd_undo c b = (if \<not> succeeded c then Inr b
     else bnd (account_at (on_account c) b) (\<lambda>a.
       case action_of c of
         Withdraw \<Rightarrow> bnd (deposit (amount_of c) a) (\<lambda>a'. Inr (b(on_account c \<mapsto> a')))
       | Deposit \<Rightarrow> bnd (withdraw (amount_of c) a) (\<lambda>(ok, a'). Inr (b(on_account c \<mapsto> a')))))"

definition composite_call :: "command list \<Rightarrow> bank \<Rightarrow> fault + command list \<times> bank" where
  "composite_call = call_list cmd_call"

definition composite_undo :: "command list \<Rightarrow> bank \<Rightarrow> fault + bank" where
  "composite_undo = undo_list cmd_undo"

text \<open>The dependent composite stops at the first command that fails, and marks the rest as failed.\<close>

primrec dependent_from :: "bool \<Rightarrow> command list \<Rightarrow> bank \<Rightarrow> fault + command list \<times> bank" where
  "dependent_from ok [] b = Inr ([], b)"
| "dependent_from ok (c # cs) b =
     (if ok then bnd (cmd_call c b) (\<lambda>(c', b1).
        bnd (dependent_from (succeeded c') cs b1) (\<lambda>(cs', b2). Inr (c' # cs', b2)))
      else bnd (dependent_from ok cs b) (\<lambda>(cs', b2). Inr (c\<lparr>succeeded := False\<rparr> # cs', b2)))"

definition dependent_call :: "command list \<Rightarrow> bank \<Rightarrow> fault + command list \<times> bank" where
  "dependent_call = dependent_from True"

definition money_transfer :: "nat \<Rightarrow> nat \<Rightarrow> int \<Rightarrow> command list" where
  "money_transfer src dst n = [new_command src Withdraw n, new_command dst Deposit n]"

section \<open>Commands are undoable\<close>

text \<open>No account is below its limit, and no balance is out of range.\<close>

definition sound_account :: "account \<Rightarrow> bool" where
  "sound_account a \<longleftrightarrow> overdraft_limit a \<le> balance a \<and> in_int (balance a)"

definition sound_bank :: "bank \<Rightarrow> bool" where
  "sound_bank b \<longleftrightarrow> (\<forall>a \<in> ran b. sound_account a)"

definition plain_amount :: "command \<Rightarrow> bool" where
  "plain_amount c \<longleftrightarrow> (action_of c = Deposit \<longrightarrow> 0 \<le> amount_of c)"

lemma account_at_iff [simp]: "account_at r b = Inr a \<longleftrightarrow> b r = Some a"
  by (simp add: account_at_def split: option.split)

lemma sound_at: "sound_bank b \<Longrightarrow> b r = Some a \<Longrightarrow> sound_account a"
  by (auto simp: sound_bank_def ran_def)

lemma sound_update: "sound_bank b \<Longrightarrow> sound_account a \<Longrightarrow> sound_bank (b(r \<mapsto> a))"
  by (auto simp: sound_bank_def ran_def split: if_splits)

lemma deposit_Inr: "deposit n a = Inr a' \<longleftrightarrow> in_int (balance a + n) \<and> a' = a\<lparr>balance := balance a + n\<rparr>"
  by (auto simp: deposit_def)

lemma withdraw_Inr:
  "withdraw n a = Inr (ok, a') \<longleftrightarrow> in_int (balance a - n) \<and> ok = (overdraft_limit a \<le> balance a - n) \<and>
     a' = (if ok then a\<lparr>balance := balance a - n\<rparr> else a)"
  by (auto simp: withdraw_def split: if_splits)

lemma cmd_call_Inr:
  "cmd_call c b = Inr (c', b') \<longleftrightarrow> (\<exists>a. b (on_account c) = Some a \<and>
     (case action_of c of
        Deposit \<Rightarrow> in_int (balance a + amount_of c) \<and> c' = c\<lparr>succeeded := True\<rparr> \<and>
          b' = b(on_account c \<mapsto> a\<lparr>balance := balance a + amount_of c\<rparr>)
      | Withdraw \<Rightarrow> in_int (balance a - amount_of c) \<and>
          (if overdraft_limit a \<le> balance a - amount_of c
           then c' = c\<lparr>succeeded := True\<rparr> \<and> b' = b(on_account c \<mapsto> a\<lparr>balance := balance a - amount_of c\<rparr>)
           else c' = c\<lparr>succeeded := False\<rparr> \<and> b' = b)))"
proof (cases "b (on_account c)")
  case None
  then show ?thesis by (simp add: cmd_call_def account_at_def)
next
  case (Some a)
  then have "b(on_account c \<mapsto> a) = b" by (rule map_upd_triv)
  with Some show ?thesis
    by (cases "action_of c")
      (auto simp: cmd_call_def account_at_def deposit_def withdraw_def checked_int_def split: if_splits)
qed

interpretation cmd: undoable cmd_call cmd_undo sound_bank plain_amount
proof
  fix b c c' b' assume b: "sound_bank b" and c: "plain_amount c" and r: "cmd_call c b = Inr (c', b')"
  from r obtain a where a: "b (on_account c) = Some a" by (auto simp: cmd_call_Inr)
  from sound_at [OF b a] have s: "sound_account a" .
  show "sound_bank b'"
    using r a b s c
    by (cases "action_of c")
      (auto simp: cmd_call_Inr sound_account_def plain_amount_def intro!: sound_update split: if_splits)
  show "cmd_undo c' b' = Inr b"
    using r a s
    by (cases "action_of c")
      (auto simp: cmd_call_Inr cmd_undo_def bnd_Inr_iff deposit_def withdraw_def sound_account_def account_at_def
        fun_upd_idem split: if_splits)
qed


lemma undo_failed [simp]: "\<not> succeeded c \<Longrightarrow> cmd_undo c b = Inr b"
  by (simp add: cmd_undo_def)

lemma dependent_skips: "dependent_from False cs b = Inr (map (\<lambda>c. c\<lparr>succeeded := False\<rparr>) cs, b)"
  by (induction cs) simp_all

lemma undo_skipped: "undo_list cmd_undo (map (\<lambda>c. c\<lparr>succeeded := False\<rparr>) cs) b = Inr b"
  by (induction cs) simp_all

lemma dependent_undoable:
  assumes "sound_bank b" "list_all plain_amount cs" "dependent_from ok cs b = Inr (cs', b')"
  shows "sound_bank b' \<and> undo_list cmd_undo cs' b' = Inr b"
  using assms
proof (induction cs arbitrary: ok b cs')
  case (Cons c cs)
  show ?case
  proof (cases ok)
    case True
    with Cons.prems(3) obtain c' b1 cs1 where
      c: "cmd_call c b = Inr (c', b1)" "dependent_from (succeeded c') cs b1 = Inr (cs1, b')" "cs' = c' # cs1"
      by (auto split: prod.splits)
    with Cons.prems(1,2) have "sound_bank b1" "cmd_undo c' b1 = Inr b"
      using cmd.call_inv [of b c] cmd.undo_call [of b c] by auto
    with Cons.IH [OF this(1) _ c(2)] Cons.prems(2) c(3) show ?thesis by auto
  next
    case False
    with Cons.prems(1,3) show ?thesis
      by (auto simp: dependent_skips undo_skipped)
  qed
qed simp

interpretation composite: undoable composite_call composite_undo sound_bank "list_all plain_amount"
  unfolding composite_call_def composite_undo_def
  by unfold_locales (use cmd.list_undoable in blast)+

interpretation dependent: undoable dependent_call composite_undo sound_bank "list_all plain_amount"
  unfolding dependent_call_def composite_undo_def
  by unfold_locales (use dependent_undoable in blast)+

section \<open>Properties\<close>

text \<open>C18 (A composite command can be undone). With every account within its limit and no deposit of a negative
  amount, composites are called one after the other, plain ones or dependent ones, which stop at their
  first failure; undoing them in the reverse order, each from its end and without the commands that
  failed, restores every account.\<close>

theorem composite_undo_restores:
  assumes "sound_bank b" and "list_all (list_all plain_amount) css"
    and "call \<in> {composite_call, dependent_call}" and "call_list call css b = Inr (css', b')"
  shows "undo_list composite_undo css' b' = Inr b \<and> sound_bank b'"
  using assms composite.list_undoable dependent.list_undoable by blast

theorem composite_undo_restores_witness:
  "undo_list composite_undo
     [[(new_command 1 Withdraw 300)\<lparr>succeeded := True\<rparr>, (new_command 2 Deposit 300)\<lparr>succeeded := True\<rparr>],
      [(new_command 1 Withdraw 201)\<lparr>succeeded := False\<rparr>, (new_command 2 Deposit 201)\<lparr>succeeded := False\<rparr>]]
     [1 \<mapsto> \<lparr>balance = - 300, overdraft_limit = - 500\<rparr>, 2 \<mapsto> \<lparr>balance = 300, overdraft_limit = - 500\<rparr>] =
   Inr [1 \<mapsto> new_account, 2 \<mapsto> new_account]"
proof -
  let ?b = "[1 \<mapsto> new_account, 2 \<mapsto> new_account] :: bank"
  have "sound_bank ?b"
    by (auto simp: sound_bank_def sound_account_def new_account_def ran_def split: if_splits)
  moreover have "call_list dependent_call [money_transfer 1 2 300, money_transfer 1 2 201] ?b = Inr
     ([[(new_command 1 Withdraw 300)\<lparr>succeeded := True\<rparr>, (new_command 2 Deposit 300)\<lparr>succeeded := True\<rparr>],
      [(new_command 1 Withdraw 201)\<lparr>succeeded := False\<rparr>, (new_command 2 Deposit 201)\<lparr>succeeded := False\<rparr>]],
     [1 \<mapsto> \<lparr>balance = - 300, overdraft_limit = - 500\<rparr>, 2 \<mapsto> \<lparr>balance = 300, overdraft_limit = - 500\<rparr>])"
    by (simp add: dependent_call_def money_transfer_def new_command_def new_account_def cmd_call_def account_at_def
        deposit_def withdraw_def checked_int_def in_int_def int_min_def int_max_def fun_upd_twist)
  ultimately show ?thesis
    using composite_undo_restores [of ?b "[money_transfer 1 2 300, money_transfer 1 2 201]" dependent_call]
    by (simp add: plain_amount_def money_transfer_def new_command_def)
qed

text \<open>A transfer is all or nothing. If the amount can be withdrawn, it moves from the one account to the
  other; if not, no account changes and both commands are marked as failed. The sum of the two balances
  is the same after as before.\<close>

theorem money_transfer_atomic:
  assumes "b src = Some a" "b dst = Some d" "src \<noteq> dst"
    and "in_int (balance a - n)" "in_int (balance d + n)"
    and "ok = (overdraft_limit a \<le> balance a - n)"
    and "b' = (if ok then b(src \<mapsto> a\<lparr>balance := balance a - n\<rparr>, dst \<mapsto> d\<lparr>balance := balance d + n\<rparr>) else b)"
  shows "dependent_call (money_transfer src dst n) b =
      Inr (map (\<lambda>c. c\<lparr>succeeded := ok\<rparr>) (money_transfer src dst n), b') \<and>
    balance (the (b' src)) + balance (the (b' dst)) = balance a + balance d"
proof (cases ok)
  case True
  let ?b1 = "b(src \<mapsto> a\<lparr>balance := balance a - n\<rparr>)"
  have "cmd_call (new_command src Withdraw n) b = Inr ((new_command src Withdraw n)\<lparr>succeeded := True\<rparr>, ?b1)"
    using True assms by (simp add: cmd_call_Inr new_command_def)
  moreover have "cmd_call (new_command dst Deposit n) ?b1 =
      Inr ((new_command dst Deposit n)\<lparr>succeeded := True\<rparr>, ?b1(dst \<mapsto> d\<lparr>balance := balance d + n\<rparr>))"
    using assms by (simp add: cmd_call_Inr new_command_def)
  ultimately show ?thesis
    using True assms by (simp add: dependent_call_def money_transfer_def)
next
  case False
  have "cmd_call (new_command src Withdraw n) b = Inr ((new_command src Withdraw n)\<lparr>succeeded := False\<rparr>, b)"
    using False assms by (simp add: cmd_call_Inr new_command_def)
  then show ?thesis
    using False assms by (simp add: dependent_call_def money_transfer_def)
qed

theorem money_transfer_atomic_witness:
  "dependent_call (money_transfer 1 2 501) [1 \<mapsto> new_account, 2 \<mapsto> new_account] =
    Inr ([(new_command 1 Withdraw 501)\<lparr>succeeded := False\<rparr>, (new_command 2 Deposit 501)\<lparr>succeeded := False\<rparr>],
      [1 \<mapsto> new_account, 2 \<mapsto> new_account])"
  using money_transfer_atomic [of "[1 \<mapsto> new_account, 2 \<mapsto> new_account]" 1 new_account 2 new_account 501 False]
  by (simp add: new_account_def money_transfer_def in_int_def int_min_def int_max_def)

section \<open>Commands that do not remember\<close>

text \<open>The account of \<^verbatim>\<open>command_3.cpp\<close> withdraws without a result.\<close>

definition quiet_withdraw :: "int \<Rightarrow> account \<Rightarrow> fault + account" where
  "quiet_withdraw amount a = bnd (checked_int (balance a - amount)) (\<lambda>n.
     if overdraft_limit a \<le> n then Inr (a\<lparr>balance := n\<rparr>) else Inr a)"

definition quiet_call :: "command \<Rightarrow> bank \<Rightarrow> fault + bank" where
  "quiet_call c b = bnd (account_at (on_account c) b) (\<lambda>a.
     bnd (case action_of c of Deposit \<Rightarrow> deposit (amount_of c) a | Withdraw \<Rightarrow> quiet_withdraw (amount_of c) a)
       (\<lambda>a'. Inr (b(on_account c \<mapsto> a'))))"

definition quiet_undo :: "command \<Rightarrow> bank \<Rightarrow> fault + bank" where
  "quiet_undo c b = bnd (account_at (on_account c) b) (\<lambda>a.
     bnd (case action_of c of Withdraw \<Rightarrow> deposit (amount_of c) a | Deposit \<Rightarrow> quiet_withdraw (amount_of c) a)
       (\<lambda>a'. Inr (b(on_account c \<mapsto> a'))))"

primrec quiet_composite_call :: "command list \<Rightarrow> bank \<Rightarrow> fault + bank" where
  "quiet_composite_call [] b = Inr b"
| "quiet_composite_call (c # cs) b = bnd (quiet_call c b) (quiet_composite_call cs)"

primrec quiet_composite_undo :: "command list \<Rightarrow> bank \<Rightarrow> fault + bank" where
  "quiet_composite_undo [] b = Inr b"
| "quiet_composite_undo (c # cs) b = bnd (quiet_undo c b) (quiet_composite_undo cs)"

text \<open>The undo that does not remember. In \<^verbatim>\<open>command_3.cpp\<close> the undo of a withdrawal that was refused
  pays the amount in. And since the composite undoes its commands in the order of the calls, a deposit
  and a withdrawal, both successful, are not undone if the withdrawal used the deposit: taking the
  deposit back first is refused, and the account ends with the deposit on top.\<close>

theorem quiet_undo_gains:
  assumes "b r = Some a" "sound_account a" "in_int (balance a - m)" "in_int (balance a + m)"
    and "in_int (balance a + n)" "in_int (balance a + n - m)" "in_int (balance a - m - n)" "0 \<le> n"
    and "balance a - m < overdraft_limit a" "overdraft_limit a \<le> balance a + n - m"
  shows "bnd (quiet_composite_call [new_command r Withdraw m] b) (quiet_composite_undo [new_command r Withdraw m]) =
      Inr (b(r \<mapsto> a\<lparr>balance := balance a + m\<rparr>)) \<and>
    bnd (quiet_composite_call [new_command r Deposit n, new_command r Withdraw m] b)
        (quiet_composite_undo [new_command r Deposit n, new_command r Withdraw m]) =
      Inr (b(r \<mapsto> a\<lparr>balance := balance a + n\<rparr>))"
  using assms
  by (simp add: quiet_call_def quiet_undo_def quiet_withdraw_def deposit_def new_command_def account_at_def
      algebra_simps)

theorem quiet_undo_gains_witness:
  "bnd (quiet_composite_call [new_command 0 Deposit 600, new_command 0 Withdraw 1000] [0 \<mapsto> new_account])
      (quiet_composite_undo [new_command 0 Deposit 600, new_command 0 Withdraw 1000]) =
    Inr [0 \<mapsto> \<lparr>balance = 600, overdraft_limit = - 500\<rparr>]"
  using quiet_undo_gains [of "[0 \<mapsto> new_account]" 0 new_account 1000 600]
  by (simp add: new_account_def sound_account_def in_int_def int_min_def int_max_def)

end
