(* ===== verification/Memento.thy ===== *)
theory Memento
  imports Undo_Interface
begin

text \<open>
  The memento example \<^verbatim>\<open>src/DesignPatterns/Behavioral/memento.cpp\<close>: an account that hands out mementos,
  and one that keeps them, with undo and redo. A memento is the balance it was made for.
\<close>

section \<open>Mementos handed out\<close>

type_synonym memento = int

definition ba_deposit :: "int \<Rightarrow> int \<Rightarrow> fault + memento \<times> int" where
  "ba_deposit amount bal = bnd (checked_int (bal + amount)) (\<lambda>n. Inr (n, n))"

definition ba_restore :: "memento \<Rightarrow> int \<Rightarrow> int" where
  "ba_restore m bal = m"

section \<open>Undo and redo\<close>

record account2 =
  ac_balance :: int
  ac_current :: nat
  ac_changes :: "memento list"

definition new_account2 :: "int \<Rightarrow> account2" where
  "new_account2 bal = \<lparr>ac_balance = bal, ac_current = 0, ac_changes = [bal]\<rparr>"

definition ac_deposit :: "int \<Rightarrow> account2 \<Rightarrow> fault + memento \<times> account2" where
  "ac_deposit amount a = bnd (checked_int (ac_balance a + amount)) (\<lambda>n.
     Inr (n, a\<lparr>ac_balance := n, ac_changes := ac_changes a @ [n], ac_current := ac_current a + 1\<rparr>))"

definition ac_restore :: "memento option \<Rightarrow> account2 \<Rightarrow> account2" where
  "ac_restore m a = (case m of None \<Rightarrow> a
     | Some n \<Rightarrow> (let changes = ac_changes a @ [n] in
         a\<lparr>ac_balance := n, ac_changes := changes, ac_current := length changes - 1\<rparr>))"

text \<open>Reading \<^verbatim>\<open>changes_[current_]\<close>; behind the end it is undefined behaviour.\<close>

definition change_at :: "nat \<Rightarrow> account2 \<Rightarrow> fault + memento" where
  "change_at i a = (if i < length (ac_changes a) then Inr (ac_changes a ! i) else Inl Out_Of_Bounds)"

definition ac_undo :: "account2 \<Rightarrow> fault + memento option \<times> account2" where
  "ac_undo a = (if 0 < ac_current a then
       (let i = ac_current a - 1 in
        bnd (change_at i a) (\<lambda>m. Inr (Some m, a\<lparr>ac_current := i, ac_balance := m\<rparr>)))
     else Inr (None, a))"

definition ac_redo :: "account2 \<Rightarrow> fault + memento option \<times> account2" where
  "ac_redo a = (if ac_current a + 1 < length (ac_changes a) then
       (let i = ac_current a + 1 in
        bnd (change_at i a) (\<lambda>m. Inr (Some m, a\<lparr>ac_current := i, ac_balance := m\<rparr>)))
     else Inr (None, a))"

text \<open>The calls of a client.\<close>

datatype ac_op = Dep int | Rest "memento option" | Undo | Redo

fun ac_do :: "ac_op \<Rightarrow> account2 \<Rightarrow> fault + account2" where
  "ac_do (Dep n) a = bnd (ac_deposit n a) (\<lambda>(m, a'). Inr a')"
| "ac_do (Rest m) a = Inr (ac_restore m a)"
| "ac_do Undo a = bnd (ac_undo a) (\<lambda>(m, a'). Inr a')"
| "ac_do Redo a = bnd (ac_redo a) (\<lambda>(m, a'). Inr a')"

primrec ac_run :: "ac_op list \<Rightarrow> account2 \<Rightarrow> fault + account2" where
  "ac_run [] a = Inr a"
| "ac_run (x # xs) a = bnd (ac_do x a) (ac_run xs)"

lemma ac_run_append: "ac_run (xs @ ys) a = bnd (ac_run xs a) (ac_run ys)"
proof (induction xs arbitrary: a)
  case (Cons x xs)
  then show ?case by (cases "ac_do x a") simp_all
qed simp

section \<open>The history\<close>

definition ac_inv :: "account2 \<Rightarrow> bool" where
  "ac_inv a \<longleftrightarrow> ac_current a < length (ac_changes a)"

text \<open>The balance is the one that the history has at its cursor; \<open>at_end\<close> says that there is nothing to
  redo.\<close>

definition in_history :: "account2 \<Rightarrow> bool" where
  "in_history a \<longleftrightarrow> ac_inv a \<and> ac_balance a = ac_changes a ! ac_current a"

definition at_end :: "account2 \<Rightarrow> bool" where
  "at_end a \<longleftrightarrow> ac_current a + 1 = length (ac_changes a)"

lemma ac_do_inv:
  assumes "ac_inv a" "ac_do x a = Inr a'"
  shows "ac_inv a'"
  using assms
  by (cases x)
    (auto simp: ac_inv_def ac_deposit_def ac_restore_def ac_undo_def ac_redo_def change_at_def Let_def
      split: option.splits if_splits)

lemma ac_do_faults:
  assumes "ac_inv a" "ac_do x a = Inl f"
  shows "f = Signed_Overflow \<and> (\<exists>n. x = Dep n \<and> \<not> in_int (ac_balance a + n))"
  using assms
  by (cases x)
    (auto simp: ac_inv_def ac_deposit_def ac_undo_def ac_redo_def change_at_def checked_int_def Let_def
      split: option.splits if_splits)

text \<open>The history is never left. Whatever a client calls, the cursor stays in the history, so that no
  call reads behind it; only a deposit that overflows fails.\<close>

theorem history_never_left:
  "case ac_run xs (new_account2 n) of Inl f \<Rightarrow> f = Signed_Overflow | Inr a \<Rightarrow> ac_inv a"
proof -
  have "ac_inv a \<Longrightarrow> case ac_run xs a of Inl f \<Rightarrow> f = Signed_Overflow | Inr a \<Rightarrow> ac_inv a" for a
  proof (induction xs arbitrary: a)
    case (Cons x xs)
    show ?case
    proof (cases "ac_do x a")
      case (Inl f)
      with ac_do_faults [OF Cons.prems] show ?thesis by simp
    next
      case (Inr a')
      with ac_do_inv [OF Cons.prems] Cons.IH [of a'] show ?thesis by simp
    qed
  qed simp
  then show ?thesis by (simp add: ac_inv_def new_account2_def)
qed

lemma in_history_do:
  assumes "in_history a" "ac_do x a = Inr a'" "(\<exists>n. x = Dep n) \<longrightarrow> at_end a"
  shows "in_history a'"
  using assms
  by (cases x)
    (auto simp: in_history_def ac_inv_def at_end_def ac_deposit_def ac_restore_def ac_undo_def ac_redo_def
      change_at_def nth_append Let_def split: option.splits if_splits)

text \<open>Undo and redo around a deposit. After a deposit, undo gives back the balance before it. If the
  account was at the end of its history, redo then gives the balance of the deposit again. If it was not,
  because something was undone before, the deposit is appended behind what could be redone, but the
  cursor advances by one only: redo gives the balance that was undone earlier.\<close>

theorem undo_redo_deposit:
  assumes "in_history a" and "in_int (ac_balance a + n)"
    and "a1 = a\<lparr>ac_balance := ac_balance a + n, ac_changes := ac_changes a @ [ac_balance a + n],
        ac_current := ac_current a + 1\<rparr>"
  shows "ac_deposit n a = Inr (ac_balance a + n, a1) \<and>
    (\<exists>a2 a3. ac_undo a1 = Inr (Some (ac_balance a), a2) \<and> ac_balance a2 = ac_balance a \<and>
       ac_redo a2 = Inr (Some (ac_balance a3), a3) \<and>
       ac_balance a3 = (if at_end a then ac_balance a + n else ac_changes a ! (ac_current a + 1)))"
  using assms
  by (auto simp: ac_deposit_def ac_undo_def ac_redo_def change_at_def in_history_def ac_inv_def at_end_def nth_append
      Let_def)

theorem undo_redo_deposit_witness:
  "ac_run [Dep 50, Dep 25, Undo, Undo, Dep 10, Undo, Redo] (new_account2 100) =
    Inr \<lparr>ac_balance = 150, ac_current = 1, ac_changes = [100, 150, 175, 110]\<rparr>"
proof -
  let ?a = "\<lparr>ac_balance = 100, ac_current = 0, ac_changes = [100, 150, 175]\<rparr>"
  let ?b = "\<lparr>ac_balance = 110, ac_current = 1, ac_changes = [100, 150, 175, 110]\<rparr>"
  have "ac_run [Dep 50, Dep 25, Undo, Undo] (new_account2 100) = Inr ?a"
    by (simp add: new_account2_def ac_deposit_def ac_undo_def change_at_def checked_int_def in_int_def int_min_def
        int_max_def Let_def numeral_2_eq_2)
  moreover have "ac_deposit 10 ?a = Inr (110, ?b)"
    using undo_redo_deposit [of ?a 10 ?b] by (simp add: in_history_def ac_inv_def in_int_def int_min_def int_max_def)
  moreover have "ac_run [Dep 50, Dep 25, Undo, Undo, Dep 10, Undo, Redo] (new_account2 100) =
      bnd (ac_run [Dep 50, Dep 25, Undo, Undo] (new_account2 100)) (ac_run [Dep 10, Undo, Redo])"
    using ac_run_append [of "[Dep 50, Dep 25, Undo, Undo]" "[Dep 10, Undo, Redo]"] by simp
  ultimately show ?thesis
    by (simp add: ac_undo_def ac_redo_def change_at_def Let_def del: ac_run.simps(2)) (simp add: ac_undo_def ac_redo_def change_at_def Let_def)
qed

lemma undos:
  assumes "in_history a" "k \<le> ac_current a"
  shows "ac_run (replicate k Undo) a = Inr (a\<lparr>ac_balance := ac_changes a ! (ac_current a - k),
    ac_current := ac_current a - k\<rparr>)"
  using assms
proof (induction k arbitrary: a)
  case (Suc k)
  let ?a = "a\<lparr>ac_balance := ac_changes a ! (ac_current a - 1), ac_current := ac_current a - 1\<rparr>"
  have "ac_do Undo a = Inr ?a" "in_history ?a"
    using Suc.prems by (auto simp: ac_undo_def change_at_def in_history_def ac_inv_def Let_def)
  with Suc.IH [of ?a] Suc.prems(2) show ?case by simp
qed (simp add: in_history_def)

lemma redos:
  assumes "in_history a" "ac_current a + k < length (ac_changes a)"
  shows "ac_run (replicate k Redo) a = Inr (a\<lparr>ac_balance := ac_changes a ! (ac_current a + k),
    ac_current := ac_current a + k\<rparr>)"
  using assms
proof (induction k arbitrary: a)
  case (Suc k)
  let ?a = "a\<lparr>ac_balance := ac_changes a ! (ac_current a + 1), ac_current := ac_current a + 1\<rparr>"
  have "ac_do Redo a = Inr ?a" "in_history ?a"
    using Suc.prems by (auto simp: ac_redo_def change_at_def in_history_def ac_inv_def Let_def)
  with Suc.IH [of ?a] Suc.prems(2) show ?case by simp
qed (simp add: in_history_def)

lemma deposits:
  assumes "in_history a" "at_end a" "ac_run (map Dep ns) a = Inr a'"
  shows "in_history a' \<and> at_end a' \<and> ac_current a' = ac_current a + length ns \<and>
    ac_balance a' = ac_balance a + sum_list ns \<and> take (length (ac_changes a)) (ac_changes a') = ac_changes a"
  using assms
proof (induction ns arbitrary: a)
  case (Cons n ns)
  let ?a = "a\<lparr>ac_balance := ac_balance a + n, ac_changes := ac_changes a @ [ac_balance a + n],
    ac_current := ac_current a + 1\<rparr>"
  from Cons.prems(3) have d: "ac_do (Dep n) a = Inr ?a" "ac_run (map Dep ns) ?a = Inr a'"
    by (auto simp: ac_deposit_def)
  have "in_history ?a" "at_end ?a"
    using Cons.prems(1,2) by (auto simp: in_history_def ac_inv_def at_end_def nth_append)
  from Cons.IH [OF this d(2)] have IH: "in_history a' \<and> at_end a' \<and> ac_current a' = ac_current a + 1 + length ns \<and>
    ac_balance a' = ac_balance a + n + sum_list ns \<and>
    take (Suc (length (ac_changes a))) (ac_changes a') = ac_changes a @ [ac_balance a + n]" by simp
  have "take (length (ac_changes a)) (ac_changes a') =
      take (length (ac_changes a)) (take (Suc (length (ac_changes a))) (ac_changes a'))" by simp
  also have "\<dots> = ac_changes a" using IH by (simp del: take_take)
  finally show ?case using IH by simp
qed simp

text \<open>Undo all the way. A client that only deposits can undo every deposit: after as many undos as
  deposits the account has its first balance, and as many redos bring the last one back.\<close>

theorem undo_all_deposits:
  assumes "ac_run (map Dep ns) (new_account2 n) = Inr a"
  shows "\<exists>b. ac_run (replicate (length ns) Undo) a = Inr b \<and> ac_balance b = n \<and>
    (\<exists>c. ac_run (replicate (length ns) Redo) b = Inr c \<and> ac_balance c = n + sum_list ns)"
proof -
  have h: "in_history (new_account2 n)" "at_end (new_account2 n)"
    by (simp_all add: in_history_def ac_inv_def at_end_def new_account2_def)
  from deposits [OF h assms] have a: "in_history a" "at_end a" "ac_current a = length ns"
    "ac_balance a = n + sum_list ns" "take 1 (ac_changes a) = [n]" by (simp_all add: new_account2_def)
  from a(5) have first: "ac_changes a ! 0 = n" by (cases "ac_changes a") simp_all
  let ?b = "a\<lparr>ac_balance := ac_changes a ! 0, ac_current := 0\<rparr>"
  have b: "ac_run (replicate (length ns) Undo) a = Inr ?b" using undos [OF a(1), of "length ns"] a(3) by simp
  have "in_history ?b" using a(1) by (auto simp: in_history_def ac_inv_def)
  moreover have "length (ac_changes a) = Suc (length ns)" using a(2,3) by (simp add: at_end_def)
  ultimately have "ac_run (replicate (length ns) Redo) ?b =
      Inr (?b\<lparr>ac_balance := ac_changes a ! length ns, ac_current := length ns\<rparr>)"
    using redos [of ?b "length ns"] by simp
  moreover have "ac_changes a ! length ns = n + sum_list ns" using a(1,3,4) by (simp add: in_history_def)
  ultimately show ?thesis using b first by auto
qed

end
