(* ===== verification/Expression_Interpreter.thy ===== *)
theory Expression_Interpreter
  imports Input_Stream
begin

text \<open>
  The interpreter example \<^verbatim>\<open>src/DesignPatterns/Behavioral/interpreter_1.cpp\<close>: a lexer, a parser that
  builds elements, and their evaluation. \<^verbatim>\<open>boost::lexical_cast\<close> is not under \<^verbatim>\<open>src\<close>; it is the argument
  \<open>cast\<close>, which gives the value of a text or fails with \<^verbatim>\<open>bad_lexical_cast\<close>.
\<close>

section \<open>Tokens\<close>

datatype i_kind = Integer_Tok | Plus_Tok | Minus_Tok | Lparen_Tok | Rparen_Tok

record i_token =
  i_type :: i_kind
  i_text :: string

definition tok :: "i_kind \<Rightarrow> string \<Rightarrow> i_token" where
  "tok k s = \<lparr>i_type = k, i_text = s\<rparr>"

text \<open>
  The default case starts a number with any character and reads digits behind it. The token is made
  when another character follows; if the input ends first, it is not.
\<close>

function lex :: "string \<Rightarrow> i_token list" where
  "lex [] = []"
| "lex (c # cs) =
     (if c = CHR ''+'' then tok Plus_Tok ''+'' # lex cs
      else if c = CHR ''-'' then tok Minus_Tok ''-'' # lex cs
      else if c = CHR ''('' then tok Lparen_Tok ''('' # lex cs
      else if c = CHR '')'' then tok Rparen_Tok '')'' # lex cs
      else
        (let digits = takeWhile is_digit cs; more_text = dropWhile is_digit cs in
         if more_text = [] then []
         else tok Integer_Tok (c # digits) # lex more_text))"
  by pat_completeness auto
termination
  by (relation "measure length") (auto simp: less_Suc_eq_le length_dropWhile_le)

section \<open>Elements\<close>

datatype i_error = Bad_Lexical_Cast | I_Fault fault

datatype operation = Addition | Substraction

text \<open>A pointer to an element is \<open>None\<close> when it is null. An operation is made with null operands and the
  first enumerator as its type.\<close>

datatype element =
    Integer_Elem int
  | Binary_Operation operation "element option" "element option"

text \<open>
  The body of the loop of \<^verbatim>\<open>parse\<close> returns at its end, so the loop has one iteration at most; a parse of
  no tokens runs off the end of the function. \<open>parse\<close> of a subexpression without a closing parenthesis
  takes the address of the element behind the vector.
\<close>

datatype parse_state =
    PS (ps_type: operation) (ps_lhs: "element option") (ps_rhs: "element option") (ps_have: bool)

definition ps_new :: parse_state where
  "ps_new = PS Addition None None False"

definition put_operand :: "element \<Rightarrow> parse_state \<Rightarrow> parse_state" where
  "put_operand e p = (if \<not> ps_have p then PS (ps_type p) (Some e) (ps_rhs p) True
     else PS (ps_type p) (ps_lhs p) (Some e) True)"

definition ps_result :: "parse_state \<Rightarrow> element" where
  "ps_result p = Binary_Operation (ps_type p) (ps_lhs p) (ps_rhs p)"

fun inside :: "i_token list \<Rightarrow> i_token list option" where
  "inside [] = None"
| "inside (t # ts) = (if i_type t = Rparen_Tok then Some []
     else (case inside ts of None \<Rightarrow> None | Some us \<Rightarrow> Some (t # us)))"

lemma inside_length: "inside ts = Some us \<Longrightarrow> length us < length ts"
  by (induction ts arbitrary: us) (auto split: if_splits option.splits)

function parse_elem :: "(string \<Rightarrow> int option) \<Rightarrow> i_token list \<Rightarrow> i_error + element" where
  "parse_elem cast [] = Inl (I_Fault Uninitialised)"
| "parse_elem cast (t # ts) = (case i_type t of
       Integer_Tok \<Rightarrow> (case cast (i_text t) of
           None \<Rightarrow> Inl Bad_Lexical_Cast
         | Some v \<Rightarrow> Inr (ps_result (put_operand (Integer_Elem v) ps_new)))
     | Plus_Tok \<Rightarrow> Inr (ps_result (PS Addition None None False))
     | Minus_Tok \<Rightarrow> Inr (ps_result (PS Substraction None None False))
     | Lparen_Tok \<Rightarrow> (case inside ts of
           None \<Rightarrow> Inl (I_Fault Out_Of_Bounds)
         | Some us \<Rightarrow> bnd (parse_elem cast us) (\<lambda>e. Inr (ps_result (put_operand e ps_new))))
     | Rparen_Tok \<Rightarrow> Inr (ps_result ps_new))"
  by pat_completeness auto
termination
  by (relation "measure (\<lambda>(cast, ts). length ts)") (auto dest: inside_length)

section \<open>Evaluation\<close>

definition operate :: "operation \<Rightarrow> int \<Rightarrow> int \<Rightarrow> i_error + int" where
  "operate oper a b = (let r = (case oper of Addition \<Rightarrow> a + b | Substraction \<Rightarrow> a - b) in
     if in_int r then Inr r else Inl (I_Fault Signed_Overflow))"

fun eval_elem :: "element \<Rightarrow> i_error + int" where
  "eval_elem (Integer_Elem v) = Inr v"
| "eval_elem (Binary_Operation oper (Some l) (Some r)) =
     bnd (eval_elem l) (\<lambda>a. bnd (eval_elem r) (\<lambda>b. operate oper a b))"
| "eval_elem (Binary_Operation oper (Some l) None) = bnd (eval_elem l) (\<lambda>a. Inl (I_Fault Null_Deref))"
| "eval_elem (Binary_Operation oper None r) = Inl (I_Fault Null_Deref)"

definition interpret_text :: "(string \<Rightarrow> int option) \<Rightarrow> string \<Rightarrow> i_error + int" where
  "interpret_text cast s = bnd (parse_elem cast (lex s)) eval_elem"

section \<open>Properties\<close>

lemma parse_no_rhs: "parse_elem cast ts = Inr e \<Longrightarrow> eval_elem e = Inl (I_Fault Null_Deref)"
proof (induction cast ts arbitrary: e rule: parse_elem.induct)
  case (2 cast t ts)
  show ?case
  proof (cases "i_type t")
    case Lparen_Tok
    with "2.prems" obtain us e1 where
      us: "inside ts = Some us" "parse_elem cast us = Inr e1" "e = ps_result (put_operand e1 ps_new)"
      by (auto split: option.splits)
    from "2.IH" [OF Lparen_Tok us(1,2)] us(3) show ?thesis
      by (simp add: ps_result_def put_operand_def ps_new_def)
  qed (use "2.prems" in \<open>auto simp: ps_result_def put_operand_def ps_new_def split: option.splits\<close>)
qed simp

text \<open>C25 (Nothing is ever evaluated). Because the parser returns after the first token, the element it makes
  never has a right operand: whatever the input, and whatever the conversion of numbers does, the
  program has no result. Either the conversion throws, or undefined behaviour is reached: the parse of
  no tokens, a missing parenthesis, or the null operand.\<close>

theorem never_evaluated:
  "\<exists>e. interpret_text cast s = Inl e \<and>
    e \<in> {Bad_Lexical_Cast, I_Fault Uninitialised, I_Fault Out_Of_Bounds, I_Fault Null_Deref}"
proof (cases "parse_elem cast (lex s)")
  case (Inl e)
  have "parse_elem cast ts = Inl e \<Longrightarrow> e \<in> {Bad_Lexical_Cast, I_Fault Uninitialised, I_Fault Out_Of_Bounds}" for ts e
    by (induction cast ts rule: parse_elem.induct)
      (auto simp: bnd_Inl_iff split: i_kind.splits option.splits)
  with Inl show ?thesis by (auto simp: interpret_text_def)
next
  case (Inr e)
  with parse_no_rhs [OF this] show ?thesis by (simp add: interpret_text_def)
qed

section \<open>The lexer\<close>

definition token_text_ok :: "i_token \<Rightarrow> bool" where
  "token_text_ok t = (case i_type t of
       Integer_Tok \<Rightarrow> i_text t \<noteq> [] \<and> list_all is_digit (i_text t)
     | Plus_Tok \<Rightarrow> i_text t = ''+''
     | Minus_Tok \<Rightarrow> i_text t = ''-''
     | Lparen_Tok \<Rightarrow> i_text t = ''(''
     | Rparen_Tok \<Rightarrow> i_text t = '')'')"

fun separated :: "i_token list \<Rightarrow> bool" where
  "separated (t # u # ts) \<longleftrightarrow> token_text_ok t \<and> \<not> (i_type t = Integer_Tok \<and> i_type u = Integer_Tok) \<and>
     separated (u # ts)"
| "separated ts \<longleftrightarrow> list_all token_text_ok ts"

lemma digit_not_symbol:
  "is_digit c \<Longrightarrow> c \<noteq> CHR ''+'' \<and> c \<noteq> CHR ''-'' \<and> c \<noteq> CHR ''('' \<and> c \<noteq> CHR '')''"
  by (auto simp: is_digit_def)

lemma lex_number:
  assumes "d \<noteq> []" "list_all is_digit d" "more_text = [] \<or> \<not> is_digit (hd more_text)"
  shows "lex (d @ more_text) = (if more_text = [] then [] else tok Integer_Tok d # lex more_text)"
proof -
  obtain c cs where d: "d = c # cs" using assms(1) by (cases d) auto
  have *: "takeWhile is_digit (cs @ more_text) = cs" "dropWhile is_digit (cs @ more_text) = more_text"
    using assms(2,3) d by (cases more_text; auto simp: list_all_iff takeWhile_append dropWhile_append)+
  show ?thesis using digit_not_symbol [of c] assms(2) * d by (auto simp: Let_def)
qed

lemma separated_hd: "separated (t # ts) \<Longrightarrow> token_text_ok t"
  by (cases ts) simp_all

lemma hd_text:
  assumes "separated (u # ts)" "i_type u \<noteq> Integer_Tok"
  shows "concat (map i_text (u # ts)) \<noteq> [] \<and> \<not> is_digit (hd (concat (map i_text (u # ts))))"
  using separated_hd [OF assms(1)] assms(2)
  by (auto simp: token_text_ok_def is_digit_def split: i_kind.splits)

text \<open>The lexer reads tokens back, but for a number at the end. The texts of tokens, written one after
  the other with no two numbers side by side, are lexed to these tokens, except that a number at the end
  of the input is lost.\<close>

theorem lex_of_texts:
  assumes "separated ts"
  shows "lex (concat (map i_text ts)) =
    (if ts \<noteq> [] \<and> i_type (last ts) = Integer_Tok then butlast ts else ts)"
  using assms
proof (induction ts rule: separated.induct)
  case (1 t u ts)
  let ?more_text = "concat (map i_text (u # ts))"
  have ok: "token_text_ok t" "separated (u # ts)" using "1.prems" by simp_all
  have t: "t = tok (i_type t) (i_text t)" by (simp add: tok_def)
  have "lex (i_text t @ ?more_text) = t # lex ?more_text"
  proof (cases "i_type t = Integer_Tok")
    case True
    with "1.prems" hd_text [OF ok(2)] have "?more_text \<noteq> []" "\<not> is_digit (hd ?more_text)" by auto
    with lex_number [of "i_text t" ?more_text] ok(1) True t show ?thesis by (simp add: token_text_ok_def)
  next
    case False
    with ok(1) t show ?thesis by (cases "i_type t") (simp_all add: token_text_ok_def)
  qed
  with "1.IH" ok(2) show ?case by simp
next
  fix t
  assume "separated [t]"
  moreover have "t = tok (i_type t) (i_text t)" by (simp add: tok_def)
  ultimately show "lex (concat (map i_text [t])) =
      (if [t] \<noteq> [] \<and> i_type (last [t]) = Integer_Tok then butlast [t] else [t])"
    using lex_number [of "i_text t" "[]"] by (cases "i_type t") (simp_all add: token_text_ok_def)
qed simp

theorem lex_of_texts_witness:
  "lex ''(13-4'' = [tok Lparen_Tok ''('', tok Integer_Tok ''13'', tok Minus_Tok ''-'']"
  using lex_of_texts [of "[tok Lparen_Tok ''('', tok Integer_Tok ''13'', tok Minus_Tok ''-'', tok Integer_Tok ''4'']"]
  by (simp add: token_text_ok_def tok_def is_digit_def)

text \<open>The input of \<^verbatim>\<open>main\<close>.\<close>

lemma main_input:
  assumes "cast ''13'' = Some 13"
  shows "interpret_text cast ''(13-4)-(12+1)'' = Inl (I_Fault Null_Deref)"
proof -
  have "lex ''(13-4)-(12+1)'' = [tok Lparen_Tok ''('', tok Integer_Tok ''13'', tok Minus_Tok ''-'', tok Integer_Tok ''4'',
      tok Rparen_Tok '')'', tok Minus_Tok ''-'', tok Lparen_Tok ''('', tok Integer_Tok ''12'', tok Plus_Tok ''+'',
      tok Integer_Tok ''1'', tok Rparen_Tok '')'']"
    by (simp add: is_digit_def Let_def)
  then show ?thesis
    using assms by (simp add: interpret_text_def tok_def ps_result_def put_operand_def ps_new_def)
qed

end
