(* ===== verification/Formatted_Text.thy ===== *)
theory Formatted_Text
  imports Prelude
begin

text \<open>
  The flyweight example \<^verbatim>\<open>src/DesignPatterns/Structural/flyweight_1.cpp\<close>: a text with one flag for every
  character, and a text with a list of ranges that share the formatting. The indices are \<^verbatim>\<open>int\<close>s.
\<close>

definition toupper :: "char \<Rightarrow> char" where
  "toupper c = (let n = of_char c :: nat in if 97 \<le> n \<and> n \<le> 122 then char_of (n - 32) else c)"

lemma toupper_idem [simp]: "toupper (toupper c) = toupper c"
  by (auto simp: toupper_def Let_def)

section \<open>A flag for every character\<close>

record formatted_text =
  plain_text :: string
  caps :: "bool list"

definition formatted_new :: "string \<Rightarrow> formatted_text" where
  "formatted_new s = \<lparr>plain_text = s, caps = replicate (length s) False\<rparr>"

text \<open>\<^verbatim>\<open>std::fill\<close> from \<open>start\<close> up to, and without, \<open>end\<close>; a range that is not inside the array, or ends
  before it starts, is undefined behaviour.\<close>

definition fill_flags :: "nat \<Rightarrow> nat \<Rightarrow> bool list \<Rightarrow> bool list" where
  "fill_flags a b fs = take a fs @ replicate (b - a) True @ drop b fs"

definition capitalize :: "int \<Rightarrow> int \<Rightarrow> formatted_text \<Rightarrow> fault + formatted_text" where
  "capitalize start stop t =
     (if 0 \<le> start \<and> start \<le> stop \<and> stop \<le> int (length (caps t))
      then Inr (t\<lparr>caps := fill_flags (nat start) (nat stop) (caps t)\<rparr>)
      else Inl Out_Of_Bounds)"

fun print_flags :: "string \<Rightarrow> bool list \<Rightarrow> string" where
  "print_flags (c # cs) (f # fs) = (if f then toupper c else c) # print_flags cs fs"
| "print_flags cs fs = []"

definition print_formatted :: "formatted_text \<Rightarrow> string" where
  "print_formatted t = print_flags (plain_text t) (caps t)"

section \<open>Ranges\<close>

record text_range =
  range_start :: int
  range_end :: int
  range_capitalize :: bool

record better_text =
  better_plain :: string
  formatting :: "text_range list"

definition covers :: "text_range \<Rightarrow> int \<Rightarrow> bool" where
  "covers r p \<longleftrightarrow> range_start r \<le> p \<and> p \<le> range_end r"

definition better_new :: "string \<Rightarrow> better_text" where
  "better_new s = \<lparr>better_plain = s, formatting = []\<rparr>"

text \<open>\<^verbatim>\<open>get_range\<close> appends a range and returns a reference to it; \<open>set_last\<close> is the assignment of the
  program to its member \<^verbatim>\<open>capitalize\<close>.\<close>

definition get_range :: "int \<Rightarrow> int \<Rightarrow> better_text \<Rightarrow> better_text" where
  "get_range a b t = t\<lparr>formatting := formatting t @ [\<lparr>range_start = a, range_end = b, range_capitalize = False\<rparr>]\<rparr>"

definition set_last :: "bool \<Rightarrow> better_text \<Rightarrow> better_text" where
  "set_last b t = t\<lparr>formatting := butlast (formatting t) @ [(last (formatting t))\<lparr>range_capitalize := b\<rparr>]\<rparr>"

primrec format_char :: "text_range list \<Rightarrow> int \<Rightarrow> char \<Rightarrow> char" where
  "format_char [] i c = c"
| "format_char (r # rs) i c = format_char rs i (if covers r i \<and> range_capitalize r then toupper c else c)"

fun print_better_from :: "text_range list \<Rightarrow> int \<Rightarrow> string \<Rightarrow> string" where
  "print_better_from rs i [] = []"
| "print_better_from rs i (c # cs) = format_char rs i c # print_better_from rs (i + 1) cs"

definition print_better :: "better_text \<Rightarrow> string" where
  "print_better t = print_better_from (formatting t) 0 (better_plain t)"

section \<open>The two texts print the same\<close>

text \<open>What a text does to the character at a position.\<close>

definition shown_flags :: "(nat \<Rightarrow> bool) \<Rightarrow> string \<Rightarrow> string" where
  "shown_flags up s = map (\<lambda>i. if up i then toupper (s ! i) else s ! i) [0..<length s]"

lemma print_flags_shown:
  "length fs = length cs \<Longrightarrow> print_flags cs fs = shown_flags (\<lambda>i. fs ! i) cs"
  by (induction cs fs rule: print_flags.induct)
    (simp_all add: shown_flags_def map_upt_Suc del: upt_Suc)

definition in_some_range :: "text_range list \<Rightarrow> int \<Rightarrow> bool" where
  "in_some_range rs i \<longleftrightarrow> (\<exists>r \<in> set rs. covers r i \<and> range_capitalize r)"

lemma format_char_shown: "format_char rs i c = (if in_some_range rs i then toupper c else c)"
  by (induction rs arbitrary: c) (auto simp: in_some_range_def)

lemma print_better_shown:
  "print_better_from rs i cs = shown_flags (\<lambda>k. in_some_range rs (i + int k)) cs"
proof (induction cs arbitrary: i)
  case (Cons c cs)
  have "i + 1 + int k = i + int (Suc k)" for k by simp
  with Cons.IH [of "i + 1"] show ?case
    by (simp add: shown_flags_def map_upt_Suc format_char_shown del: upt_Suc)
qed (simp add: shown_flags_def)

primrec capitalize_all :: "(int \<times> int) list \<Rightarrow> formatted_text \<Rightarrow> fault + formatted_text" where
  "capitalize_all [] t = Inr t"
| "capitalize_all (r # rs) t = bnd (capitalize (fst r) (snd r) t) (capitalize_all rs)"

primrec range_all :: "(int \<times> int) list \<Rightarrow> better_text \<Rightarrow> better_text" where
  "range_all [] t = t"
| "range_all (r # rs) t = range_all rs (set_last True (get_range (fst r) (snd r) t))"

lemma fill_flags_nth:
  assumes "a \<le> b" "b \<le> length fs"
  shows "length (fill_flags a b fs) = length fs"
    and "i < length fs \<Longrightarrow> fill_flags a b fs ! i = (fs ! i \<or> a \<le> i \<and> i < b)"
  using assms by (auto simp: fill_flags_def nth_append)

lemma capitalize_all_flags:
  assumes "length (caps t) = length (plain_text t)"
    and "\<forall>(a, b) \<in> set rs. 0 \<le> a \<and> a \<le> b \<and> b \<le> int (length (plain_text t))"
  shows "\<exists>t'. capitalize_all rs t = Inr t' \<and> plain_text t' = plain_text t \<and>
    length (caps t') = length (plain_text t) \<and>
    (\<forall>i < length (plain_text t). caps t' ! i = (caps t ! i \<or> (\<exists>(a, b) \<in> set rs. a \<le> int i \<and> int i < b)))"
  using assms
proof (induction rs arbitrary: t)
  case (Cons r rs)
  obtain a b where r: "r = (a, b)" by (cases r)
  let ?t = "t\<lparr>caps := fill_flags (nat a) (nat b) (caps t)\<rparr>"
  have ab: "0 \<le> a" "a \<le> b" "b \<le> int (length (plain_text t))" using Cons.prems(2) r by auto
  then have le: "nat a \<le> nat b" "nat b \<le> length (caps t)" using Cons.prems(1) by auto
  have c: "capitalize a b t = Inr ?t" using ab Cons.prems(1) by (simp add: capitalize_def)
  have "length (caps ?t) = length (plain_text ?t)"
    "\<forall>(a, b) \<in> set rs. 0 \<le> a \<and> a \<le> b \<and> b \<le> int (length (plain_text ?t))"
    using Cons.prems fill_flags_nth(1) [OF le] by auto
  from Cons.IH [OF this] obtain t' where t': "capitalize_all rs ?t = Inr t'" "plain_text t' = plain_text t"
    "length (caps t') = length (plain_text t)"
    "\<forall>i < length (plain_text t). caps t' ! i =
      (fill_flags (nat a) (nat b) (caps t) ! i \<or> (\<exists>(a, b) \<in> set rs. a \<le> int i \<and> int i < b))" by auto
  have "fill_flags (nat a) (nat b) (caps t) ! i = (caps t ! i \<or> a \<le> int i \<and> int i < b)"
    if "i < length (plain_text t)" for i
    using fill_flags_nth(2) [OF le, of i] that Cons.prems(1) ab by auto
  with t'(4) have "\<forall>i < length (plain_text t). caps t' ! i =
      (caps t ! i \<or> (\<exists>(a, b) \<in> set (r # rs). a \<le> int i \<and> int i < b))" by (auto simp: r)
  with t' c show ?case by (simp add: r)
qed simp

lemma range_all_formatting:
  "better_plain (range_all rs t) = better_plain t \<and>
   formatting (range_all rs t) = formatting t @ map (\<lambda>(a, b). \<lparr>range_start = a, range_end = b, range_capitalize = True\<rparr>) rs"
  by (induction rs arbitrary: t) (auto simp: set_last_def get_range_def)

text \<open>The flyweight is the same text. For any ranges inside the text, capitalising them in the text with
  flags and asking for them in the text with ranges prints the same characters; but an end belongs to
  the range of the flyweight and not to that of the flags, so it is one less there.\<close>

theorem flyweight_prints_same:
  assumes "\<forall>(a, b) \<in> set rs. 0 \<le> a \<and> a \<le> b \<and> b \<le> int (length s)"
  shows "\<exists>t. capitalize_all rs (formatted_new s) = Inr t \<and>
    print_formatted t = print_better (range_all (map (\<lambda>(a, b). (a, b - 1)) rs) (better_new s))"
proof -
  let ?qs = "map (\<lambda>(a, b). (a, b - 1)) rs"
  from capitalize_all_flags [of "formatted_new s" rs] assms obtain t where t:
    "capitalize_all rs (formatted_new s) = Inr t" "plain_text t = s" "length (caps t) = length s"
    "\<forall>i < length s. caps t ! i = (\<exists>(a, b) \<in> set rs. a \<le> int i \<and> int i < b)"
    by (auto simp: formatted_new_def)
  have "in_some_range (map (\<lambda>(a, b). \<lparr>range_start = a, range_end = b, range_capitalize = True\<rparr>) ?qs) (int i) =
      (\<exists>(a, b) \<in> set rs. a \<le> int i \<and> int i < b)" for i
    by (force simp: in_some_range_def covers_def)
  then have "print_better (range_all ?qs (better_new s)) = shown_flags (\<lambda>i. \<exists>(a, b) \<in> set rs. a \<le> int i \<and> int i < b) s"
    using range_all_formatting [of ?qs "better_new s"]
    by (simp add: print_better_def print_better_shown better_new_def)
  moreover have "print_formatted t = shown_flags (\<lambda>i. \<exists>(a, b) \<in> set rs. a \<le> int i \<and> int i < b) s"
    using print_flags_shown [of "caps t" s] t by (auto simp: print_formatted_def shown_flags_def)
  ultimately show ?thesis using t(1) by simp
qed

theorem flyweight_prints_same_witness:
  "\<exists>t. capitalize_all [(10, 15)] (formatted_new ''This is a brave new world'') = Inr t \<and>
    print_formatted t = print_better (range_all [(10, 14)] (better_new ''This is a brave new world''))"
  using flyweight_prints_same [of "[(10, 15)]" "''This is a brave new world''"] by simp

end
