(* ===== verification/Short_Alloc.thy ===== *)
theory Short_Alloc
  imports Prelude
begin

unbundle bit_operations_syntax

text \<open>
  The arena of \<^verbatim>\<open>src/Allocators/short_alloc/short_alloc.h\<close> and the allocator over it. Addresses are
  natural numbers, sizes 64-bit words. \<^verbatim>\<open>::operator new\<close> is not under \<^verbatim>\<open>src\<close>: the address that it would
  return, if it is called, is an argument (\<open>None\<close>: it throws), and its documented behaviour, a block
  that overlaps nothing, is a hypothesis of the properties.
\<close>

section \<open>The arena\<close>

record arena =
  arena_buf :: nat
  arena_size :: size_t
  arena_alignment :: size_t
  arena_ptr :: nat

definition arena_new :: "nat \<Rightarrow> size_t \<Rightarrow> size_t \<Rightarrow> arena" where
  "arena_new buf n al = \<lparr>arena_buf = buf, arena_size = n, arena_alignment = al, arena_ptr = buf\<rparr>"

definition arena_used :: "arena \<Rightarrow> nat" where
  "arena_used a = arena_ptr a - arena_buf a"

definition arena_reset :: "arena \<Rightarrow> arena" where
  "arena_reset a = a\<lparr>arena_ptr := arena_buf a\<rparr>"

definition align_up :: "size_t \<Rightarrow> size_t \<Rightarrow> size_t" where
  "align_up al n = (n + (al - 1)) AND NOT (al - 1)"

definition pointer_in_buffer :: "arena \<Rightarrow> nat \<Rightarrow> bool" where
  "pointer_in_buffer a p \<longleftrightarrow> arena_buf a \<le> p \<and> p \<le> arena_buf a + unat (arena_size a)"

datatype alloc_error = Bad_Alloc | Assertion

definition arena_allocate :: "size_t \<Rightarrow> nat option \<Rightarrow> arena \<Rightarrow> alloc_error + nat \<times> arena" where
  "arena_allocate n new a =
     (if \<not> pointer_in_buffer a (arena_ptr a) then Inl Assertion
      else
        (let aligned_n = align_up (arena_alignment a) n in
         if aligned_n \<le> of_nat (arena_buf a + unat (arena_size a) - arena_ptr a)
         then Inr (arena_ptr a, a\<lparr>arena_ptr := arena_ptr a + unat aligned_n\<rparr>)
         else (case new of None \<Rightarrow> Inl Bad_Alloc | Some q \<Rightarrow> Inr (q, a))))"

text \<open>The result says whether \<^verbatim>\<open>::operator delete\<close> is called.\<close>

definition arena_deallocate :: "nat \<Rightarrow> size_t \<Rightarrow> arena \<Rightarrow> alloc_error + bool \<times> arena" where
  "arena_deallocate p n a =
     (if \<not> pointer_in_buffer a (arena_ptr a) then Inl Assertion
      else if pointer_in_buffer a p then
        (let n' = align_up (arena_alignment a) n in
         Inr (False, if p + unat n' = arena_ptr a then a\<lparr>arena_ptr := p\<rparr> else a))
      else Inr (True, a))"

text \<open>The allocator for elements of a size.\<close>

definition short_allocate :: "size_t \<Rightarrow> size_t \<Rightarrow> nat option \<Rightarrow> arena \<Rightarrow> alloc_error + nat \<times> arena" where
  "short_allocate sizeof n = arena_allocate (n * sizeof)"

definition short_deallocate :: "size_t \<Rightarrow> nat \<Rightarrow> size_t \<Rightarrow> arena \<Rightarrow> alloc_error + bool \<times> arena" where
  "short_deallocate sizeof p n = arena_deallocate p (n * sizeof)"

section \<open>Alignment\<close>

lemma and_not_mask: "(x :: size_t) AND NOT (mask k) = push_bit k (drop_bit k x)"
  by (rule bit_eqI) (auto simp: bit_simps)

lemma unat_take_bit_mod: "unat (take_bit k (x :: size_t)) = unat x mod 2 ^ k"
  by (metis unsigned_take_bit_eq take_bit_eq_mod)

lemma unat_and_not_mask:
  "unat ((x :: size_t) AND NOT (mask k)) = unat x - unat x mod 2 ^ k"
proof -
  have "x AND NOT (mask k) = x - take_bit k x"
    using bits_ident [of k x] by (simp add: and_not_mask algebra_simps)
  moreover have "take_bit k x \<le> x" by (simp add: word_le_nat_alt unat_take_bit_mod del: take_bit_eq_mod)
  ultimately show ?thesis by (simp add: unat_sub unat_take_bit_mod)
qed

lemma unat_mask_size: "k < 64 \<Longrightarrow> unat (mask k :: size_t) = 2 ^ k - 1"
proof -
  assume k: "k < 64"
  have "unat (mask k :: size_t) = unat (of_nat (2 ^ k - 1) :: size_t)"
    by (metis of_nat_mask_eq mask_eq_exp_minus_1)
  also have "\<dots> = (2 ^ k - 1) mod 2 ^ 64"
    using unat_of_nat [of "2 ^ k - 1", where ?'a = 64] by (simp only: len_num1 len_bit0 len_bit1) simp
  also have "\<dots> = 2 ^ k - 1"
    using power_strict_increasing [OF k, of "2 :: nat"] by (intro mod_less) simp
  finally show ?thesis .
qed

lemma aligned_bounds:
  fixes m k :: nat
  shows "m \<le> (m + 2 ^ k - 1) div 2 ^ k * 2 ^ k" "(m + 2 ^ k - 1) div 2 ^ k * 2 ^ k < m + 2 ^ k"
    "2 ^ k dvd (m + 2 ^ k - 1) div 2 ^ k * 2 ^ k"
proof -
  have "(m + 2 ^ k - 1) div 2 ^ k * 2 ^ k + (m + 2 ^ k - 1) mod 2 ^ k = m + 2 ^ k - 1"
    by (rule div_mult_mod_eq)
  moreover have "(m + 2 ^ k - 1) mod 2 ^ k < 2 ^ k" by simp
  moreover have "0 < (2 :: nat) ^ k" by simp
  ultimately show "m \<le> (m + 2 ^ k - 1) div 2 ^ k * 2 ^ k" "(m + 2 ^ k - 1) div 2 ^ k * 2 ^ k < m + 2 ^ k" by linarith+
qed simp


lemma unat_add_mask: "k < 64 \<Longrightarrow> unat (n + mask k :: size_t) = (unat n + 2 ^ k - 1) mod 2 ^ 64"
  by (simp add: unat_word_ariths unat_mask_size del: mask_eq_exp_minus_1)

lemma align_up_nat:
  assumes "k < 64"
  shows "unat (align_up (2 ^ k) n) = (unat n + 2 ^ k - 1) mod 2 ^ 64 div 2 ^ k * 2 ^ k"
proof -
  have "(2 :: size_t) ^ k - 1 = mask k" by (simp add: mask_eq_exp_minus_1)
  then show ?thesis
    by (simp add: align_up_def unat_and_not_mask unat_add_mask [OF assms] minus_mod_eq_div_mult)
qed

lemma align_up_fits:
  assumes "unat n + 2 ^ k \<le> 2 ^ 64" "k < 64"
  shows "unat (align_up (2 ^ k) n) = (unat n + 2 ^ k - 1) div 2 ^ k * 2 ^ k"
proof -
  have "unat n + 2 ^ k - 1 < 2 ^ 64" using assms(1) by simp
  then show ?thesis by (simp add: align_up_nat assms(2))
qed

section \<open>The steps of a client\<close>

text \<open>
  A client holds blocks: the address, the bytes asked for, and whether \<^verbatim>\<open>::operator new\<close> gave it. What
  \<^verbatim>\<open>::operator new\<close> gives is storage of its own: no byte of it is a byte of the arena's buffer, or of a block that it
  gave and that is not deleted. It may begin right behind the buffer.
\<close>

type_synonym block = "nat \<times> size_t \<times> bool"

definition bytes_apart :: "block \<Rightarrow> block \<Rightarrow> bool" where
  "bytes_apart b c \<longleftrightarrow> (case (b, c) of ((p, n, _), (q, m, _)) \<Rightarrow>
     unat n = 0 \<or> unat m = 0 \<or> p + unat n \<le> q \<or> q + unat m \<le> p)"

definition fresh_block :: "arena \<Rightarrow> block list \<Rightarrow> nat \<Rightarrow> size_t \<Rightarrow> bool" where
  "fresh_block a live q n \<longleftrightarrow>
     (q + unat n \<le> arena_buf a \<or> arena_buf a + unat (arena_size a) \<le> q)
     \<and> (\<forall>b \<in> set live. snd (snd b) \<longrightarrow> bytes_apart (q, n, True) b)"

text \<open>A step has the sizes it requests, one or none.\<close>

inductive arena_step :: "size_t list \<Rightarrow> arena \<times> block list \<Rightarrow> arena \<times> block list \<Rightarrow> bool" where
  from_arena: "arena_allocate n None a = Inr (p, a')
    \<Longrightarrow> arena_step [n] (a, live) (a', (p, n, False) # live)"
| from_new: "arena_allocate n None a = Inl Bad_Alloc \<Longrightarrow> arena_allocate n (Some q) a = Inr (p, a')
    \<Longrightarrow> fresh_block a live q n
    \<Longrightarrow> arena_step [n] (a, live) (a', (p, n, True) # live)"
| free: "(p, n, h) \<in> set live \<Longrightarrow> arena_deallocate p n a = Inr (d, a')
    \<Longrightarrow> arena_step [] (a, live) (a', remove1 (p, n, h) live)"

text \<open>An arena in use: the sizes requested so far, the arena, and the blocks the client holds.\<close>

inductive arena_reach :: "nat \<Rightarrow> nat \<Rightarrow> size_t \<Rightarrow> size_t list \<Rightarrow> arena \<Rightarrow> block list \<Rightarrow> bool" for k buf N where
  start: "arena_reach k buf N [] (arena_new buf N (2 ^ k)) []"
| step: "arena_reach k buf N ns a live \<Longrightarrow> arena_step rs (a, live) (a', live')
    \<Longrightarrow> arena_reach k buf N (rs @ ns) a' live'"

text \<open>Rounding a request up does not wrap.\<close>

definition request_fits :: "nat \<Rightarrow> size_t \<Rightarrow> bool" where
  "request_fits k n \<longleftrightarrow> unat n + 2 ^ k \<le> 2 ^ 64"

section \<open>The invariant\<close>

definition arena_inv :: "nat \<Rightarrow> nat \<Rightarrow> size_t \<Rightarrow> arena \<Rightarrow> bool" where
  "arena_inv k buf N a \<longleftrightarrow> arena_buf a = buf \<and> arena_size a = N \<and> arena_alignment a = 2 ^ k
     \<and> buf \<le> arena_ptr a \<and> arena_ptr a \<le> buf + unat N \<and> 2 ^ k dvd arena_ptr a - buf"

definition block_extent :: "nat \<Rightarrow> block \<Rightarrow> nat" where
  "block_extent k b = (case b of (p, n, h) \<Rightarrow> if h then unat n else unat (align_up (2 ^ k) n))"

definition block_inv :: "nat \<Rightarrow> arena \<Rightarrow> block \<Rightarrow> bool" where
  "block_inv k a b \<longleftrightarrow> (case b of (p, n, h) \<Rightarrow> unat n + 2 ^ k \<le> 2 ^ 64 \<and>
     (if h then unat n \<noteq> 0 \<and> (p + unat n \<le> arena_buf a \<or> arena_buf a + unat (arena_size a) \<le> p)
      else arena_buf a \<le> p \<and> p + block_extent k b \<le> arena_buf a + unat (arena_size a)
        \<and> 2 ^ k dvd p - arena_buf a \<and> (unat n = 0 \<or> p + block_extent k b \<le> arena_ptr a)))"

text \<open>What holds of the blocks whatever the requests are.\<close>

definition placed :: "nat \<Rightarrow> arena \<Rightarrow> block \<Rightarrow> bool" where
  "placed k a b \<longleftrightarrow> (case b of (p, n, h) \<Rightarrow>
     if h then unat n \<noteq> 0 \<and> (p + unat n \<le> arena_buf a \<or> arena_buf a + unat (arena_size a) \<le> p)
     else arena_buf a \<le> p \<and> p \<le> arena_buf a + unat (arena_size a) \<and> 2 ^ k dvd p - arena_buf a)"

definition placed_inv :: "nat \<Rightarrow> nat \<Rightarrow> size_t \<Rightarrow> arena \<Rightarrow> block list \<Rightarrow> bool" where
  "placed_inv k buf N a live \<longleftrightarrow> arena_inv k buf N a \<and> (\<forall>b \<in> set live. placed k a b)"

definition extents_apart :: "nat \<Rightarrow> block \<Rightarrow> block \<Rightarrow> bool" where
  "extents_apart k b c \<longleftrightarrow> block_extent k b = 0 \<or> block_extent k c = 0
     \<or> fst b + block_extent k b \<le> fst c \<or> fst c + block_extent k c \<le> fst b"

definition client_inv :: "nat \<Rightarrow> nat \<Rightarrow> size_t \<Rightarrow> arena \<Rightarrow> block list \<Rightarrow> bool" where
  "client_inv k buf N a live \<longleftrightarrow> arena_inv k buf N a \<and> (\<forall>b \<in> set live. block_inv k a b)
     \<and> sorted_wrt (extents_apart k) live"

lemma sorted_wrt_remove1: "sorted_wrt R xs \<Longrightarrow> sorted_wrt R (remove1 x xs)"
proof (induction xs)
  case (Cons y ys)
  then show ?case using set_remove1_subset [of x ys] by (auto simp del: set_remove1_eq)
qed simp

lemma extents_apart_sym: "extents_apart k b c \<Longrightarrow> extents_apart k c b"
  by (auto simp: extents_apart_def)

lemma extents_apart_others:
  "sorted_wrt (extents_apart k) live \<Longrightarrow> b \<in> set live \<Longrightarrow> c \<in> set (remove1 b live)
    \<Longrightarrow> extents_apart k b c"
  by (induction live) (auto split: if_splits intro: extents_apart_sym dest: notin_set_remove1)

lemma extent_bounds:
  assumes "unat n + 2 ^ k \<le> 2 ^ 64" "k < 64"
  shows "unat n \<le> unat (align_up (2 ^ k) n)" "2 ^ k dvd unat (align_up (2 ^ k) n)"
    "unat n = 0 \<longleftrightarrow> unat (align_up (2 ^ k) n) = 0"
proof -
  note a = aligned_bounds [of "unat n" k]
  show "unat n \<le> unat (align_up (2 ^ k) n)" "2 ^ k dvd unat (align_up (2 ^ k) n)"
    using a(1,3) by (simp_all add: align_up_fits [OF assms])
  then show "unat n = 0 \<longleftrightarrow> unat (align_up (2 ^ k) n) = 0"
    by (auto simp: align_up_fits [OF assms])
qed


lemma unat_of_nat_small: "x \<le> unat (N :: size_t) \<Longrightarrow> unat (of_nat x :: size_t) = x"
  using unsigned_less [of N, where ?'a = nat] by (metis unat_of_nat mod_less le_less_trans)

lemma fits_arena:
  fixes m :: size_t
  assumes "arena_inv k buf N a"
  shows "m \<le> of_nat (arena_buf a + unat (arena_size a) - arena_ptr a)
    \<longleftrightarrow> arena_ptr a + unat m \<le> buf + unat N"
proof -
  define r where "r = arena_buf a + unat (arena_size a) - arena_ptr a"
  have r: "r \<le> unat N" "unat m \<le> r \<longleftrightarrow> arena_ptr a + unat m \<le> buf + unat N"
    using assms by (auto simp: arena_inv_def r_def)
  then show ?thesis
    unfolding r_def [symmetric] word_le_nat_alt using unat_of_nat_small [OF r(1)] by simp
qed

lemma inv_ptr_in_buffer: "arena_inv k buf N a \<Longrightarrow> pointer_in_buffer a (arena_ptr a)"
  by (simp add: arena_inv_def pointer_in_buffer_def)

lemma allocate_cases:
  assumes "arena_inv k buf N a"
  shows "arena_allocate n new a =
    (if arena_ptr a + unat (align_up (2 ^ k) n) \<le> buf + unat N
     then Inr (arena_ptr a, a\<lparr>arena_ptr := arena_ptr a + unat (align_up (2 ^ k) n)\<rparr>)
     else case new of None \<Rightarrow> Inl Bad_Alloc | Some q \<Rightarrow> Inr (q, a))"
proof -
  have "arena_alignment a = 2 ^ k" using assms by (simp add: arena_inv_def)
  then show ?thesis
    unfolding arena_allocate_def Let_def fits_arena [OF assms] by (simp add: inv_ptr_in_buffer [OF assms])
qed

lemma deallocate_cases:
  assumes "arena_inv k buf N a"
  shows "arena_deallocate p n a =
    (if buf \<le> p \<and> p \<le> buf + unat N
     then Inr (False, if p + unat (align_up (2 ^ k) n) = arena_ptr a then a\<lparr>arena_ptr := p\<rparr> else a)
     else Inr (True, a))"
  using inv_ptr_in_buffer [OF assms] assms
  by (simp add: arena_deallocate_def pointer_in_buffer_def arena_inv_def)

lemma align_up_zero: "k < 64 \<Longrightarrow> align_up (2 ^ k) 0 = 0"
proof -
  assume k: "k < 64"
  then have "(2 :: nat) ^ k \<le> 2 ^ 63" by (intro power_increasing) auto
  then show ?thesis by (simp add: align_up_nat [OF k] flip: unat_eq_zero)
qed

lemma new_called:
  assumes "arena_inv k buf N a" "k < 64" "arena_allocate n None a = Inl Bad_Alloc"
  shows "unat n \<noteq> 0"
  using assms align_up_zero [OF assms(2)]
  by (auto simp: allocate_cases arena_inv_def unat_eq_zero split: if_splits)

lemma align_dvd: "k < 64 \<Longrightarrow> 2 ^ k dvd unat (align_up (2 ^ k) n)"
  by (simp add: align_up_nat)

lemma placed_moved: "placed k (a\<lparr>arena_ptr := q\<rparr>) b = placed k a b"
  by (simp add: placed_def)

lemma from_arena_placed:
  assumes i: "placed_inv k buf N a live" and k: "k < 64" and al: "arena_allocate n None a = Inr (p, a')"
  shows "placed_inv k buf N a' ((p, n, False) # live)"
proof -
  let ?m = "unat (align_up (2 ^ k) n)"
  have ai: "arena_inv k buf N a" using i by (simp add: placed_inv_def)
  then have p: "p = arena_ptr a" "a' = a\<lparr>arena_ptr := p + ?m\<rparr>" "p + ?m \<le> buf + unat N"
    using al by (auto simp: allocate_cases split: if_splits)
  have "buf \<le> arena_ptr a" "2 ^ k dvd arena_ptr a - buf" using ai by (simp_all add: arena_inv_def)
  then have "2 ^ k dvd arena_ptr a + ?m - buf" using dvd_add [OF _ align_dvd [OF k, of n]] by fastforce
  then have "arena_inv k buf N a'" using ai p(3) by (auto simp: p(1,2) arena_inv_def)
  moreover have "placed k a' (p, n, False)" using ai by (simp add: p(1,2) arena_inv_def placed_def)
  ultimately show ?thesis using i by (simp add: placed_inv_def p(2) placed_moved)
qed

lemma free_placed:
  assumes i: "placed_inv k buf N a live" and b: "(p, n, h) \<in> set live"
  shows "\<exists>a'. arena_deallocate p n a = Inr (h \<and> p \<noteq> buf + unat N, a')
    \<and> a' = (if \<not> h \<and> p + unat (align_up (2 ^ k) n) = arena_ptr a then a\<lparr>arena_ptr := p\<rparr> else a)"
proof -
  have ai: "arena_inv k buf N a" and bp: "placed k a (p, n, h)" using i b by (auto simp: placed_inv_def)
  have e: "arena_buf a = buf" "arena_size a = N" "arena_ptr a \<le> buf + unat N" using ai by (simp_all add: arena_inv_def)
  have same: "a\<lparr>arena_ptr := arena_ptr a\<rparr> = a" by simp
  show ?thesis
  proof (cases h)
    case True
    then have "p < buf \<or> buf + unat N < p \<or> p = buf + unat N" using bp by (auto simp: placed_def e)
    then consider "p < buf" | "buf + unat N < p" | "p = buf + unat N" by blast
    then show ?thesis
    proof cases
      case 3
      then have "arena_ptr a = p" if "p + unat (align_up (2 ^ k) n) = arena_ptr a" using that e(3) by simp
      then show ?thesis using True 3 same by (auto simp: deallocate_cases [OF ai])
    qed (use True in \<open>auto simp: deallocate_cases [OF ai]\<close>)
  next
    case False
    then show ?thesis using bp by (auto simp: deallocate_cases [OF ai] placed_def e)
  qed
qed

inductive_cases arena_stepE: "arena_step rs (a, live) (a', live')"

lemma arena_step_placed:
  assumes "arena_step rs (a, live) (a', live')" "placed_inv k buf N a live" "k < 64"
  shows "placed_inv k buf N a' live'"
  using assms(1)
proof (rule arena_stepE)
  fix n p
  assume "live' = (p, n, False) # live" "arena_allocate n None a = Inr (p, a')"
  then show ?thesis using from_arena_placed [OF assms(2,3)] by simp
next
  fix n q p
  assume s: "live' = (p, n, True) # live" "arena_allocate n None a = Inl Bad_Alloc"
    "arena_allocate n (Some q) a = Inr (p, a')" "fresh_block a live q n"
  have ai: "arena_inv k buf N a" using assms(2) by (simp add: placed_inv_def)
  then have "p = q" "a' = a" using s(2,3) by (auto simp: allocate_cases split: if_splits)
  then show ?thesis
    using s(1,4) assms(2) new_called [OF ai assms(3) s(2)] by (simp add: placed_inv_def placed_def fresh_block_def)
next
  fix p n h d
  assume s: "live' = remove1 (p, n, h) live" "(p, n, h) \<in> set live" "arena_deallocate p n a = Inr (d, a')"
  have sub: "set live' \<subseteq> set live" unfolding s(1) by (rule set_remove1_subset)
  have a': "a' = (if \<not> h \<and> p + unat (align_up (2 ^ k) n) = arena_ptr a then a\<lparr>arena_ptr := p\<rparr> else a)"
    using free_placed [OF assms(2) s(2)] s(3) by auto
  have "placed k a (p, n, h)" using assms(2) s(2) by (simp add: placed_inv_def)
  then have "arena_inv k buf N a'"
    using assms(2) unfolding a' by (auto simp: placed_inv_def arena_inv_def placed_def)
  moreover have "placed k a' b" if "b \<in> set live'" for b
    using assms(2) sub that unfolding a' by (auto simp: placed_inv_def placed_moved)
  ultimately show ?thesis by (simp add: placed_inv_def)
qed

lemma arena_reach_placed:
  assumes "arena_reach k buf N ns a live" "k < 64"
  shows "placed_inv k buf N a live"
  using assms(1)
proof induction
  case start
  then show ?case by (simp add: placed_inv_def arena_inv_def arena_new_def)
qed (auto intro: arena_step_placed assms(2))

lemma block_inv_move:
  "block_inv k a b \<Longrightarrow> arena_ptr a \<le> p \<Longrightarrow> block_inv k (a\<lparr>arena_ptr := p\<rparr>) b"
  by (auto simp: block_inv_def split: if_splits)

lemma from_arena_inv:
  assumes i: "client_inv k buf N a live" and k: "k < 64" and n: "unat n + 2 ^ k \<le> 2 ^ 64"
    and al: "arena_allocate n None a = Inr (p, a')"
  shows "client_inv k buf N a' ((p, n, False) # live)"
proof -
  let ?m = "unat (align_up (2 ^ k) n)"
  have ai: "arena_inv k buf N a" using i by (simp add: client_inv_def)
  then have p: "p = arena_ptr a" "a' = a\<lparr>arena_ptr := p + ?m\<rparr>" "p + ?m \<le> buf + unat N"
    using al by (auto simp: allocate_cases split: if_splits)
  note e = extent_bounds [OF n k]
  have "buf \<le> arena_ptr a" using ai by (simp add: arena_inv_def)
  moreover from this have "arena_ptr a + ?m - buf = (arena_ptr a - buf) + ?m" by simp
  moreover have "2 ^ k dvd (arena_ptr a - buf) + ?m"
    using ai e(2) by (intro dvd_add) (auto simp: arena_inv_def)
  ultimately have "arena_inv k buf N a'"
    using ai p(3) by (simp add: p(1,2) arena_inv_def)
  moreover have "block_inv k a' (p, n, False)"
    using ai p(3) n by (auto simp: block_inv_def block_extent_def arena_inv_def p(1,2))
  moreover have "block_inv k a' b" if "b \<in> set live" for b
    using i that by (auto simp: client_inv_def p(1,2) intro!: block_inv_move)
  moreover have "extents_apart k (p, n, False) b" if "b \<in> set live" for b
  proof -
    obtain q m h where b: "b = (q, m, h)" by (cases b) auto
    then show ?thesis
      using i that p(3) ai extent_bounds(3) [of m k] k
      by (fastforce simp: client_inv_def extents_apart_def block_extent_def block_inv_def arena_inv_def p(1)
          split: if_splits)
  qed
  ultimately show ?thesis using i by (simp add: client_inv_def)
qed


lemma from_new_inv:
  assumes i: "client_inv k buf N a live" and k: "k < 64" and n: "unat n + 2 ^ k \<le> 2 ^ 64"
    and al: "arena_allocate n None a = Inl Bad_Alloc" "arena_allocate n (Some q) a = Inr (p, a')"
    and f: "fresh_block a live q n"
  shows "client_inv k buf N a' ((p, n, True) # live)"
proof -
  have ai: "arena_inv k buf N a" using i by (simp add: client_inv_def)
  then have p: "p = q" "a' = a" using al by (auto simp: allocate_cases split: if_splits)
  have "block_inv k a' (p, n, True)"
    using f n new_called [OF ai k al(1)] by (simp add: block_inv_def fresh_block_def p)
  moreover have "extents_apart k (p, n, True) b" if b: "b \<in> set live" for b
  proof (cases "snd (snd b)")
    case True
    then have "bytes_apart (q, n, True) b" using f b by (simp add: fresh_block_def)
    then show ?thesis using True
      by (auto simp: bytes_apart_def extents_apart_def block_extent_def p split: prod.splits)
  next
    case False
    moreover have "block_inv k a b" using i b by (simp add: client_inv_def)
    ultimately show ?thesis using f
      by (cases b) (auto simp: extents_apart_def block_inv_def block_extent_def fresh_block_def p)
  qed
  ultimately show ?thesis using i p by (simp add: client_inv_def)
qed

lemma block_inv_back:
  assumes "block_inv k a b" "extents_apart k (p, n, False) b" "block_inv k a (p, n, False)" "k < 64"
    and "p + unat (align_up (2 ^ k) n) = arena_ptr a"
  shows "block_inv k (a\<lparr>arena_ptr := p\<rparr>) b"
proof -
  obtain q m h where b: "b = (q, m, h)" by (cases b) auto
  show ?thesis
    using assms extent_bounds(3) [of m k] unfolding b
    by (auto simp: block_inv_def extents_apart_def block_extent_def split: if_splits)
qed

lemma client_placed: "client_inv k buf N a live \<Longrightarrow> k < 64 \<Longrightarrow> placed_inv k buf N a live"
  by (fastforce simp: client_inv_def placed_inv_def block_inv_def placed_def split: if_splits)

lemma free_inv:
  assumes i: "client_inv k buf N a live" and k: "k < 64" and b: "(p, n, h) \<in> set live"
    and d: "arena_deallocate p n a = Inr (d, a')"
  shows "client_inv k buf N a' (remove1 (p, n, h) live)"
proof -
  let ?m = "unat (align_up (2 ^ k) n)"
  have ai: "arena_inv k buf N a" and bi: "block_inv k a (p, n, h)"
    using i b by (simp_all add: client_inv_def)
  have sub: "set (remove1 (p, n, h) live) \<subseteq> set live" by (rule set_remove1_subset)
  have a': "a' = (if \<not> h \<and> p + ?m = arena_ptr a then a\<lparr>arena_ptr := p\<rparr> else a)"
    using free_placed [OF client_placed [OF i k] b] d by auto
  have s: "sorted_wrt (extents_apart k) (remove1 (p, n, h) live)"
    using i by (simp add: client_inv_def sorted_wrt_remove1)
  show ?thesis
  proof (cases "\<not> h \<and> p + ?m = arena_ptr a")
    case False
    then have "a' = a" using a' by auto
    then show ?thesis using i s sub by (auto simp: client_inv_def)
  next
    case True
    then have a': "a' = a\<lparr>arena_ptr := p\<rparr>" using a' by simp
    have "arena_inv k buf N a'"
      using ai bi True by (auto simp: a' arena_inv_def block_inv_def block_extent_def)
    moreover have "block_inv k a' c" if c: "c \<in> set (remove1 (p, n, h) live)" for c
    proof -
      have "extents_apart k (p, n, h) c"
        using i b c by (auto simp: client_inv_def intro: extents_apart_others)
      moreover have "block_inv k a c" using i c sub by (auto simp: client_inv_def)
      ultimately show ?thesis using True bi k by (auto simp: a' intro!: block_inv_back)
    qed
    ultimately show ?thesis using s a' by (simp add: client_inv_def)
  qed
qed

lemma arena_step_inv:
  assumes "arena_step rs (a, live) (a', live')" "client_inv k buf N a live" "k < 64" "list_all (request_fits k) rs"
  shows "client_inv k buf N a' live'"
  using assms(1)
  by (rule arena_stepE)
    (use assms(2-4) in \<open>auto simp: request_fits_def dest: from_arena_inv from_new_inv free_inv\<close>)

lemma arena_reach_inv:
  assumes "arena_reach k buf N ns a live" "k < 64" "list_all (request_fits k) ns"
  shows "client_inv k buf N a live"
  using assms(1,3)
proof induction
  case start
  then show ?case by (simp add: client_inv_def arena_inv_def arena_new_def)
next
  case (step ns a live rs a' live')
  then show ?case using arena_step_inv assms(2) by auto
qed

section \<open>What a client can rely on\<close>

text \<open>Each allocation may fall back on \<^verbatim>\<open>::operator new\<close>, which here fails.\<close>

fun allocate_all :: "size_t list \<Rightarrow> arena \<Rightarrow> alloc_error + (nat \<times> size_t) list \<times> arena" where
  "allocate_all [] a = Inr ([], a)"
| "allocate_all (n # ns) a = (case arena_allocate n None a of Inl e \<Rightarrow> Inl e
     | Inr (p, a') \<Rightarrow> (case allocate_all ns a' of Inl e \<Rightarrow> Inl e
        | Inr (bs, a'') \<Rightarrow> Inr ((p, n) # bs, a'')))"

fun deallocate_all :: "(nat \<times> size_t) list \<Rightarrow> arena \<Rightarrow> alloc_error + arena" where
  "deallocate_all [] a = Inr a"
| "deallocate_all ((p, n) # bs) a = (case arena_deallocate p n a of Inl e \<Rightarrow> Inl e
     | Inr (d, a') \<Rightarrow> deallocate_all bs a')"

lemma deallocate_all_append:
  "deallocate_all (bs @ cs) a = (case deallocate_all bs a of Inl e \<Rightarrow> Inl e | Inr a' \<Rightarrow> deallocate_all cs a')"
  by (induction bs arbitrary: a) (auto split: sum.splits prod.splits)

lemma allocate_deallocate:
  assumes "arena_allocate n None a = Inr (p, a')"
  shows "arena_deallocate p n a' = Inr (False, a)"
proof -
  define r where "r = arena_buf a + unat (arena_size a) - arena_ptr a"
  have in_buf: "pointer_in_buffer a (arena_ptr a)"
    using assms by (auto simp: arena_allocate_def split: if_splits)
  have r: "align_up (arena_alignment a) n \<le> of_nat r" "p = arena_ptr a"
    "a' = a\<lparr>arena_ptr := arena_ptr a + unat (align_up (arena_alignment a) n)\<rparr>"
    using assms in_buf unfolding r_def
    by (auto simp: arena_allocate_def Let_def simp del: of_nat_diff of_nat_add split: if_splits)
  have "r \<le> unat (arena_size a)" using in_buf by (auto simp: r_def pointer_in_buffer_def)
  then have "unat (align_up (arena_alignment a) n) \<le> r"
    using r(1) by (simp add: word_le_nat_alt unat_of_nat_small)
  then show ?thesis
    using in_buf r(2,3) by (auto simp: arena_deallocate_def pointer_in_buffer_def r_def)
qed

text \<open>Two blocks, of which the second does not fit.\<close>

definition example_arena :: arena where
  "example_arena = \<lparr>arena_buf = 64, arena_size = 32, arena_alignment = 2 ^ 4, arena_ptr = 80\<rparr>"

lemma example_reach_from:
  assumes "200 \<le> q \<or> q = 96"
  shows "arena_reach 4 64 32 [20, 10] example_arena [(q, 20, True), (64, 10, False)]"
proof -
  have 1: "arena_reach 4 64 32 ([10] @ []) example_arena [(64, 10, False)]"
    by (rule step [OF start], rule from_arena)
      (simp_all add: arena_new_def arena_allocate_def pointer_in_buffer_def align_up_def example_arena_def)
  have "arena_reach 4 64 32 ([20] @ [10]) example_arena [(q, 20, True), (64, 10, False)]"
    by (rule step [OF 1 [unfolded append.simps]], rule from_new [where q = q])
      (use assms in \<open>auto simp: arena_allocate_def pointer_in_buffer_def align_up_def fresh_block_def example_arena_def\<close>)
  then show ?thesis by simp
qed

text \<open>C10 (Blocks share nothing). Whatever a client allocates and frees, in whatever order, as long as no request is for more
  than \<open>2 ^ 64 - 2 ^ k\<close> bytes (rounding such a request up wraps: \<open>arena_huge_request\<close>), the blocks that it holds at any
  time share no byte, and each block from the arena begins at a multiple of the alignment and lies inside the arena's
  buffer; the arena never counts more bytes used than it has.\<close>

theorem arena_blocks_apart:
  assumes "arena_reach k buf N ns a live" "k < 64" "list_all (request_fits k) ns"
  shows "sorted_wrt bytes_apart live \<and> arena_used a \<le> unat N
    \<and> (\<forall>(p, n, h) \<in> set live. h \<or> 2 ^ k dvd p - buf \<and> buf \<le> p \<and> p + unat n \<le> buf + unat N)"
proof -
  have i: "client_inv k buf N a live" by (rule arena_reach_inv [OF assms])
  have "bytes_apart b c" if "extents_apart k b c" "block_inv k a b" "block_inv k a c" for b c
  proof -
    obtain p n h q m g where [simp]: "b = (p, n, h)" "c = (q, m, g)" by (cases b, cases c) auto
    have n: "unat n + 2 ^ k \<le> 2 ^ 64" "unat m + 2 ^ k \<le> 2 ^ 64"
      using that(2,3) by (simp_all add: block_inv_def)
    show ?thesis
      using that(1) extent_bounds(1,3) [OF n(1) assms(2)] extent_bounds(1,3) [OF n(2) assms(2)]
      by (auto simp: extents_apart_def block_extent_def bytes_apart_def split: if_splits)
  qed
  then have "sorted_wrt bytes_apart live"
    using i by (auto simp: client_inv_def intro!: sorted_wrt_mono_rel [of live "extents_apart k"])
  moreover have "2 ^ k dvd p - buf \<and> buf \<le> p \<and> p + unat n \<le> buf + unat N"
    if "(p, n, False) \<in> set live" for p n
  proof -
    have b: "block_inv k a (p, n, False)" using i that by (simp add: client_inv_def)
    then have "unat n \<le> unat (align_up (2 ^ k) n)"
      using extent_bounds(1) [OF _ assms(2)] by (simp add: block_inv_def)
    then show ?thesis
      using i b by (auto simp: client_inv_def arena_inv_def block_inv_def block_extent_def)
  qed
  moreover have "arena_used a \<le> unat N"
    using i by (auto simp: client_inv_def arena_inv_def arena_used_def)
  ultimately show ?thesis using i by auto
qed

theorem arena_blocks_apart_witness:
  "sorted_wrt bytes_apart [(200, 20, True), (64, 10, False)] \<and> arena_used example_arena \<le> 32"
  using arena_blocks_apart [OF example_reach_from [of 200]] by (simp add: request_fits_def)

text \<open>C30 (What is deleted). Whatever a client allocates and frees, a client that frees a block it holds never meets the
  assertion, and \<^verbatim>\<open>::operator delete\<close> is called for the block exactly if it came from \<^verbatim>\<open>::operator new\<close> and does not begin
  right behind the arena's buffer: such a block passes for memory of the arena, and is never deleted. The arena gets
  its bytes back exactly if the block is its own and was the last one.\<close>

theorem arena_deletes_what_new_gave:
  assumes "arena_reach k buf N ns a live" "k < 64" "(p, n, h) \<in> set live"
  shows "arena_deallocate p n a = Inr (h \<and> p \<noteq> buf + unat N,
    if \<not> h \<and> p + unat (align_up (2 ^ k) n) = arena_ptr a then a\<lparr>arena_ptr := p\<rparr> else a)"
  using free_placed [OF arena_reach_placed [OF assms(1,2)] assms(3)] by auto

theorem arena_deletes_witness:
  "arena_deallocate 200 20 example_arena = Inr (True, example_arena) \<and>
   arena_deallocate 96 20 example_arena = Inr (False, example_arena)"
  using arena_deletes_what_new_gave [OF example_reach_from [of 200], of 200 20 True]
    arena_deletes_what_new_gave [OF example_reach_from [of 96], of 96 20 True] by simp

text \<open>C27 (Last in, first out). Blocks freed in the reverse order of their allocation give the arena back the state it had,
  whatever their sizes: all its bytes can be allocated again.
\<close>

theorem arena_lifo:
  assumes "allocate_all ns a = Inr (bs, a')"
  shows "deallocate_all (rev bs) a' = Inr a"
  using assms
proof (induction ns arbitrary: a bs)
  case (Cons n ns)
  then obtain p a1 bs1 where al: "arena_allocate n None a = Inr (p, a1)"
    "allocate_all ns a1 = Inr (bs1, a')" "bs = (p, n) # bs1"
    by (auto split: sum.splits prod.splits)
  then show ?case using Cons.IH [OF al(2)] allocate_deallocate [OF al(1)]
    by (simp add: deallocate_all_append)
qed simp

theorem arena_lifo_witness:
  "deallocate_all [(80, 3), (64, 10)] (arena_new 64 32 16 \<lparr>arena_ptr := 96\<rparr>) = Inr (arena_new 64 32 16)"
proof -
  have "allocate_all [10, 3] (arena_new 64 32 16) = Inr ([(64, 10), (80, 3)], arena_new 64 32 16 \<lparr>arena_ptr := 96\<rparr>)"
    by (simp add: arena_new_def arena_allocate_def pointer_in_buffer_def align_up_def)
  from arena_lifo [OF this] show ?thesis by simp
qed

text \<open>Huge requests. A request of more than \<open>2 ^ 64 - 2 ^ k\<close> bytes wraps to no byte at all: the arena answers with
  its current position and reserves nothing, so that the next block begins at the same address; a count of
  elements whose bytes wrap does the same.
\<close>

theorem arena_huge_request:
  assumes "arena_reach k buf N ns a live" "k < 64" "2 ^ 64 < unat n + 2 ^ k"
  shows "arena_allocate n new a = Inr (arena_ptr a, a) \<and> short_allocate 8 (2 ^ 61) new a = Inr (arena_ptr a, a)"
proof -
  have i: "arena_inv k buf N a" using arena_reach_placed [OF assms(1,2)] by (simp add: placed_inv_def)
  then have b: "arena_ptr a \<le> buf + unat N" by (simp add: arena_inv_def)
  have k: "(2 :: nat) ^ k \<le> 2 ^ 63" using assms(2) by (intro power_increasing) auto
  have n: "unat n < 2 ^ 64" using unsigned_less [of n, where ?'a = nat] by simp
  have "(unat n + 2 ^ k - 1) mod 2 ^ 64 = unat n + 2 ^ k - 1 - 2 ^ 64"
    using assms(3) n k by (simp add: mod_if)
  also have "\<dots> < 2 ^ k" using n zero_less_power [of "2 :: nat" k] by linarith
  finally have "align_up (2 ^ k) n = 0"
    by (simp add: align_up_nat [OF assms(2)] flip: unat_eq_zero)
  moreover have "align_up (2 ^ k) 0 = 0" by (rule align_up_zero [OF assms(2)])
  moreover have w: "(2 ^ 61 :: size_t) * 8 = 0" by simp
  have "short_allocate 8 (2 ^ 61) new a = arena_allocate 0 new a"
    unfolding short_allocate_def by (simp only: w)
  ultimately show ?thesis using b by (simp only: allocate_cases [OF i]) simp
qed

theorem arena_huge_request_witness: "arena_allocate (- 3) None example_arena = Inr (80, example_arena)"
  using arena_huge_request [OF example_reach_from [of 200], of "- 3" None] by (simp add: example_arena_def)

end
