(* ===== verification/Active_Object.thy ===== *)
theory Active_Object
  imports Prelude
begin

text \<open>
  The active object of \<^verbatim>\<open>src/Patterns/Active_object\<close>: the calls of \<^verbatim>\<open>save_data\<close> and the destructor of a
  client, and the thread that runs the tasks, over the queue of \<^verbatim>\<open>threadsafe_queue.h\<close>. A step is what a
  thread does between two points where the other one can interfere: it takes the mutex, changes the queue,
  notifies, releases the mutex, waits, or runs a task. \<^verbatim>\<open>create\<close> is modelled as it is meant: the object that
  it returns is the one that its thread refers to (the copy is elided). A task of the client stores a value;
  the task of the destructor stops the loop.
\<close>

section \<open>The two threads\<close>

datatype 'v task = Store_Data 'v | Stop

text \<open>
  Where the client is: about to send the first of the tasks it has left, in \<^verbatim>\<open>push\<close> with the mutex, before
  \<^verbatim>\<open>notify_one\<close>, before the mutex is released, or behind \<^verbatim>\<open>join\<close>.
\<close>

datatype 'v client_pc =
    Sending "'v task list"
  | Pushing "'v task" "'v task list"
  | Notifying "'v task list"
  | Unlocking "'v task list"
  | Joined

text \<open>
  Where the loop of \<^verbatim>\<open>run\<close> is: at its condition, before the mutex, at the condition of \<^verbatim>\<open>wait\<close> with the mutex,
  blocked in \<^verbatim>\<open>wait\<close>, woken up and before the mutex, behind \<^verbatim>\<open>pop\<close> with the mutex, at the call of the
  task, or behind the loop.
\<close>

datatype 'v worker_pc =
    Testing | Locking | Checking | Blocked | Woken
  | Popped "'v task"
  | Running "'v task"
  | Finished

datatype holder = Client | Worker

record 'v active =
  mutex :: "holder option"
  tasks :: "'v task list"
  is_done :: bool
  received :: "'v list"
  client :: "'v client_pc"
  worker :: "'v worker_pc"

text \<open>A client that saves the values and then destroys the object.\<close>

definition active_create :: "'v list \<Rightarrow> 'v active" where
  "active_create vs = \<lparr>mutex = None, tasks = [], is_done = False, received = [],
     client = Sending (map Store_Data vs @ [Stop]), worker = Testing\<rparr>"

definition notify_one :: "'v worker_pc \<Rightarrow> 'v worker_pc" where
  "notify_one w = (case w of Blocked \<Rightarrow> Woken | _ \<Rightarrow> w)"

definition client_step :: "'v active \<Rightarrow> 'v active option" where
  "client_step a = (case client a of
     Sending [] \<Rightarrow> (case worker a of Finished \<Rightarrow> Some (a\<lparr>client := Joined\<rparr>) | _ \<Rightarrow> None)
   | Sending (t # ts) \<Rightarrow> (case mutex a of
       None \<Rightarrow> Some (a\<lparr>mutex := Some Client, client := Pushing t ts\<rparr>) | Some _ \<Rightarrow> None)
   | Pushing t ts \<Rightarrow> Some (a\<lparr>tasks := tasks a @ [t], client := Notifying ts\<rparr>)
   | Notifying ts \<Rightarrow> Some (a\<lparr>worker := notify_one (worker a), client := Unlocking ts\<rparr>)
   | Unlocking ts \<Rightarrow> Some (a\<lparr>mutex := None, client := Sending ts\<rparr>)
   | Joined \<Rightarrow> None)"

definition run_task :: "'v task \<Rightarrow> 'v active \<Rightarrow> 'v active" where
  "run_task t a = (case t of Store_Data v \<Rightarrow> a\<lparr>received := received a @ [v]\<rparr> | Stop \<Rightarrow> a\<lparr>is_done := True\<rparr>)"

definition relock :: "'v active \<Rightarrow> 'v active option" where
  "relock a = (case mutex a of None \<Rightarrow> Some (a\<lparr>mutex := Some Worker, worker := Checking\<rparr>) | Some _ \<Rightarrow> None)"

definition worker_step :: "'v active \<Rightarrow> 'v active option" where
  "worker_step a = (case worker a of
     Testing \<Rightarrow> Some (a\<lparr>worker := if is_done a then Finished else Locking\<rparr>)
   | Locking \<Rightarrow> relock a
   | Checking \<Rightarrow> (case tasks a of
       [] \<Rightarrow> Some (a\<lparr>mutex := None, worker := Blocked\<rparr>)
     | t # ts \<Rightarrow> Some (a\<lparr>tasks := ts, worker := Popped t\<rparr>))
   | Blocked \<Rightarrow> None
   | Woken \<Rightarrow> relock a
   | Popped t \<Rightarrow> Some (a\<lparr>mutex := None, worker := Running t\<rparr>)
   | Running t \<Rightarrow> Some (run_task t a\<lparr>worker := Testing\<rparr>)
   | Finished \<Rightarrow> None)"

text \<open>A condition variable may also wake up without a notification.\<close>

definition spurious_step :: "'v active \<Rightarrow> 'v active option" where
  "spurious_step a = (case worker a of Blocked \<Rightarrow> Some (a\<lparr>worker := Woken\<rparr>) | _ \<Rightarrow> None)"

text \<open>A schedule says which thread takes the next step; \<open>None\<close> means that it is blocked there.\<close>

datatype turn = Client_Turn | Worker_Turn | Spurious

definition take_turn :: "turn \<Rightarrow> 'v active \<Rightarrow> 'v active option" where
  "take_turn e = (case e of Client_Turn \<Rightarrow> client_step | Worker_Turn \<Rightarrow> worker_step | Spurious \<Rightarrow> spurious_step)"

fun schedule :: "turn list \<Rightarrow> 'v active \<Rightarrow> 'v active option" where
  "schedule [] a = Some a"
| "schedule (e # es) a = Option.bind (take_turn e a) (schedule es)"

lemma schedule_append: "schedule (es @ fs) a = Option.bind (schedule es a) (schedule fs)"
  by (induction es arbitrary: a) (auto split: Option.bind_split)

section \<open>The invariant\<close>

fun worker_task :: "'v worker_pc \<Rightarrow> 'v task list" where
  "worker_task (Popped t) = [t]"
| "worker_task (Running t) = [t]"
| "worker_task _ = []"

fun client_tasks :: "'v client_pc \<Rightarrow> 'v task list" where
  "client_tasks (Sending ts) = ts"
| "client_tasks (Pushing t ts) = t # ts"
| "client_tasks (Notifying ts) = ts"
| "client_tasks (Unlocking ts) = ts"
| "client_tasks Joined = []"

fun client_holds :: "'v client_pc \<Rightarrow> bool" where
  "client_holds (Sending ts) = False"
| "client_holds Joined = False"
| "client_holds _ = True"

fun worker_holds :: "'v worker_pc \<Rightarrow> bool" where
  "worker_holds Checking = True"
| "worker_holds (Popped t) = True"
| "worker_holds _ = False"

text \<open>
  Every task is in one place, in the order of the calls; the mutex belongs to the thread that is between
  its locking and unlocking; a blocked worker has nothing to do, or is about to be notified.
\<close>

definition task_history :: "'v active \<Rightarrow> 'v task list" where
  "task_history a = map Store_Data (received a) @ (if is_done a then [Stop] else [])
     @ worker_task (worker a) @ tasks a @ client_tasks (client a)"

definition active_inv :: "'v list \<Rightarrow> 'v active \<Rightarrow> bool" where
  "active_inv vs a \<longleftrightarrow> task_history a = map Store_Data vs @ [Stop]
     \<and> (mutex a = Some Client \<longleftrightarrow> client_holds (client a))
     \<and> (mutex a = Some Worker \<longleftrightarrow> worker_holds (worker a))
     \<and> (worker a = Blocked \<longrightarrow> tasks a = [] \<or> (\<exists>ts. client a = Notifying ts))
     \<and> (is_done a \<longrightarrow> worker a = Testing \<or> worker a = Finished)
     \<and> (worker a = Finished \<longrightarrow> is_done a)
     \<and> (client a = Joined \<longrightarrow> worker a = Finished)"

lemma history_end:
  assumes "map Store_Data xs @ Stop # ts = map Store_Data vs @ [Stop]"
  shows "xs = vs \<and> ts = []"
  using assms by (induction xs arbitrary: vs) (case_tac [!] vs, auto)

lemma holder_exhaust: "m = None \<or> m = Some Client \<or> m = Some Worker"
  by (metis holder.exhaust option.exhaust)

lemma inv_create: "active_inv vs (active_create vs)"
  by (simp add: active_inv_def active_create_def task_history_def)

lemma inv_client:
  assumes i: "active_inv vs a" and s: "client_step a = Some a'"
  shows "active_inv vs a'"
proof (cases "client a")
  case (Sending ts)
  show ?thesis
  proof (cases ts)
    case Nil
    then have "worker a = Finished" "a' = a\<lparr>client := Joined\<rparr>"
      using s Sending by (simp_all add: client_step_def split: worker_pc.splits)
    then show ?thesis using i Sending Nil by (auto simp: active_inv_def task_history_def)
  next
    case (Cons t us)
    then have "mutex a = None" "a' = a\<lparr>mutex := Some Client, client := Pushing t us\<rparr>"
      using s Sending by (simp_all add: client_step_def split: option.splits)
    then show ?thesis using i Sending Cons by (simp add: active_inv_def task_history_def)
  qed
next
  case (Pushing t ts)
  then have "a' = a\<lparr>tasks := tasks a @ [t], client := Notifying ts\<rparr>" using s by (simp add: client_step_def)
  then show ?thesis using i Pushing by (auto simp: active_inv_def task_history_def)
next
  case (Notifying ts)
  then have "a' = a\<lparr>worker := notify_one (worker a), client := Unlocking ts\<rparr>"
    using s by (simp add: client_step_def)
  then show ?thesis using i Notifying
    by (cases "worker a") (auto simp: active_inv_def task_history_def notify_one_def)
next
  case (Unlocking ts)
  then have "a' = a\<lparr>mutex := None, client := Sending ts\<rparr>" using s by (simp add: client_step_def)
  then show ?thesis using i Unlocking by (auto simp: active_inv_def task_history_def)
qed (use s in \<open>simp add: client_step_def\<close>)

lemma inv_worker:
  assumes i: "active_inv vs a" and s: "worker_step a = Some a'"
  shows "active_inv vs a'"
proof (cases "worker a")
  case Checking
  then show ?thesis using i s
    by (auto simp: worker_step_def active_inv_def task_history_def split: list.splits)
next
  case (Running t)
  then show ?thesis using i s
    by (cases t) (auto simp: worker_step_def active_inv_def task_history_def run_task_def)
qed (use i s in \<open>auto simp: worker_step_def active_inv_def task_history_def relock_def
    split: option.splits if_splits\<close>)

lemma inv_spurious: "active_inv vs a \<Longrightarrow> spurious_step a = Some a' \<Longrightarrow> active_inv vs a'"
  by (auto simp: spurious_step_def active_inv_def task_history_def split: worker_pc.splits)

lemma inv_turn: "active_inv vs a \<Longrightarrow> take_turn e a = Some a' \<Longrightarrow> active_inv vs a'"
  by (cases e) (auto simp: take_turn_def intro: inv_client inv_worker inv_spurious)

lemma inv_schedule: "active_inv vs a \<Longrightarrow> schedule es a = Some a' \<Longrightarrow> active_inv vs a'"
  by (induction es arbitrary: a) (auto simp: bind_eq_Some_conv intro: inv_turn)

section \<open>Order, progress and termination\<close>

text \<open>How many turns the threads can still take, if no one is woken up without a notification.\<close>

fun worker_weight :: "'v worker_pc \<Rightarrow> nat" where
  "worker_weight Finished = 0"
| "worker_weight Blocked = 0"
| "worker_weight Checking = 1"
| "worker_weight Locking = 2"
| "worker_weight Woken = 2"
| "worker_weight Testing = 3"
| "worker_weight (Running t) = 4"
| "worker_weight (Popped t) = 5"

fun client_weight :: "'v client_pc \<Rightarrow> nat" where
  "client_weight (Sending ts) = 11 * length ts + 1"
| "client_weight (Unlocking ts) = 11 * length ts + 2"
| "client_weight (Notifying ts) = 11 * length ts + 5"
| "client_weight (Pushing t ts) = 11 * length ts + 11"
| "client_weight Joined = 0"

definition turns_left :: "'v active \<Rightarrow> nat" where
  "turns_left a = client_weight (client a) + 5 * length (tasks a) + worker_weight (worker a)"

lemma client_turn_less: "client_step a = Some a' \<Longrightarrow> turns_left a' < turns_left a"
  by (cases "worker a")
    (auto simp: client_step_def turns_left_def notify_one_def split: client_pc.splits list.splits option.splits)

lemma worker_turn_less: "worker_step a = Some a' \<Longrightarrow> turns_left a' < turns_left a"
  by (cases "worker a")
    (auto simp: worker_step_def turns_left_def relock_def run_task_def split: list.splits option.splits task.splits)

lemma spurious_turn: "spurious_step a = Some a' \<Longrightarrow> turns_left a' = turns_left a + 2"
  by (auto simp: spurious_step_def turns_left_def split: worker_pc.splits)

lemma schedule_bound:
  assumes "schedule es a = Some a'"
  shows "length es + turns_left a' \<le> turns_left a + 3 * count_list es Spurious"
  using assms
proof (induction es arbitrary: a)
  case (Cons e es)
  then obtain b where b: "take_turn e a = Some b" "schedule es b = Some a'"
    by (auto simp: bind_eq_Some_conv)
  show ?case using Cons.IH [OF b(2)] b(1)
    by (cases e) (auto simp: take_turn_def dest: client_turn_less worker_turn_less spurious_turn)
qed simp

lemma worker_enabled:
  assumes "active_inv vs a" "worker a \<noteq> Blocked" "worker a \<noteq> Finished" "mutex a \<noteq> Some Client"
  shows "worker_step a \<noteq> None"
proof -
  have "mutex a = None" if "worker a = Locking \<or> worker a = Woken"
    using that assms(1,4) holder_exhaust [of "mutex a"] by (auto simp: active_inv_def)
  then show ?thesis using assms(2,3)
    by (cases "worker a") (auto simp: worker_step_def relock_def split: list.splits)
qed

lemma progress:
  assumes "active_inv vs a" "client a \<noteq> Joined"
  shows "client_step a \<noteq> None \<or> worker_step a \<noteq> None"
proof (rule ccontr)
  assume stuck: "\<not> ?thesis"
  then obtain ts where c: "client a = Sending ts" using assms(2)
    by (cases "client a") (auto simp: client_step_def)
  then have m: "mutex a \<noteq> Some Client" using assms(1) by (simp add: active_inv_def)
  have "worker a = Blocked \<or> worker a = Finished" using worker_enabled [OF assms(1) _ _ m] stuck by blast
  then have m': "mutex a = None" using m assms(1) holder_exhaust [of "mutex a"]
    by (auto simp: active_inv_def)
  then have ts: "ts = []" using stuck c by (cases ts) (auto simp: client_step_def)
  then have w: "worker a = Blocked"
    using stuck c \<open>worker a = Blocked \<or> worker a = Finished\<close> by (auto simp: client_step_def)
  then have "tasks a = []" "\<not> is_done a" using assms(1) c by (auto simp: active_inv_def)
  then have "map Store_Data (received a) = map Store_Data vs @ [Stop]"
    using assms(1) c ts w by (simp add: active_inv_def task_history_def)
  then have "Stop \<in> Store_Data ` set (received a)"
    by (metis in_set_conv_decomp list.set_map)
  then show False by auto
qed

lemma finish:
  assumes "active_inv vs a"
  shows "\<exists>es b. schedule es a = Some b \<and> client b = Joined \<and> Spurious \<notin> set es"
  using assms
proof (induction "turns_left a" arbitrary: a rule: less_induct)
  case less
  show ?case
  proof (cases "client a = Joined")
    case True
    then show ?thesis by (intro exI [of _ "[]"]) simp
  next
    case False
    then obtain e b where e: "e \<noteq> Spurious" "take_turn e a = Some b" "turns_left b < turns_left a"
      using progress [OF less.prems] client_turn_less worker_turn_less
      by (metis not_None_eq take_turn_def turn.distinct(3,5) turn.simps(7,8))
    then obtain es c where "schedule es b = Some c" "client c = Joined" "Spurious \<notin> set es"
      using less.hyps [OF e(3)] inv_turn [OF less.prems e(2)] by blast
    then show ?thesis using e(1,2) by (intro exI [of _ "e # es"] exI [of _ c]) auto
  qed
qed

text \<open>One value: the worker is first, is woken up for nothing, and the client sends both tasks.\<close>

definition example_turns :: "turn list" where
  "example_turns = [Worker_Turn, Worker_Turn, Worker_Turn, Spurious]
     @ replicate 8 Client_Turn @ replicate 10 Worker_Turn @ [Client_Turn]"

lemma example_schedule:
  "schedule example_turns (active_create [7 :: int]) = Some \<lparr>mutex = None, tasks = [], is_done = True,
     received = [7], client = Joined, worker = Finished\<rparr>"
  by (simp add: example_turns_def active_create_def take_turn_def client_step_def worker_step_def
      spurious_step_def relock_def run_task_def notify_one_def eval_nat_numeral)

text \<open>C6 (What is received). In whatever order the threads take their turns, and however often the worker is woken
  up without a reason, what the worker has received is at any time a prefix of what the client saves, in the order
  of the calls; when the destructor has returned it is all of it, the queue is empty, the mutex free and
  the thread at its end.\<close>

theorem active_fifo:
  assumes "schedule es (active_create vs) = Some a"
  shows "(\<exists>ws. vs = received a @ ws) \<and>
    (client a = Joined \<longrightarrow> received a = vs \<and> tasks a = [] \<and> mutex a = None \<and> worker a = Finished)"
proof -
  have i: "active_inv vs a" by (rule inv_schedule [OF inv_create assms])
  then have h: "task_history a = map Store_Data vs @ [Stop]" by (simp add: active_inv_def)
  have "\<exists>ws. vs = xs @ ws" if "map Store_Data xs @ ts = map Store_Data vs @ [Stop]" for xs ts
    using that by (induction xs arbitrary: vs) (case_tac vs, auto)+
  then have prefix: "\<exists>ws. vs = received a @ ws"
    using h by (simp add: task_history_def)
  have "received a = vs \<and> tasks a = [] \<and> mutex a = None \<and> worker a = Finished" if j: "client a = Joined"
  proof -
    have w: "worker a = Finished" "is_done a" using i j by (auto simp: active_inv_def)
    then have "received a = vs \<and> tasks a = []"
      using history_end [of "received a" "tasks a" vs] h j by (simp add: task_history_def)
    then show ?thesis using w i j holder_exhaust [of "mutex a"] by (auto simp: active_inv_def)
  qed
  then show ?thesis using prefix by blast
qed

theorem active_fifo_witness:
  "\<exists>a. schedule example_turns (active_create [7 :: int]) = Some a \<and> client a = Joined \<and> received a = [7]"
  using active_fifo [OF example_schedule] example_schedule by simp

text \<open>C14 (The destructor returns). However the threads were scheduled, one of them can take a turn until the destructor
  has returned, and it can always come to that; and there are at most \<open>11 n + 15\<close> turns for \<open>n\<close> values, and three
  more for every time that the worker is woken up without a reason.\<close>

theorem active_terminates:
  assumes "schedule es (active_create vs) = Some a"
  shows "length es \<le> 11 * length vs + 15 + 3 * count_list es Spurious
    \<and> (client a = Joined \<or> (\<exists>e. e \<noteq> Spurious \<and> take_turn e a \<noteq> None))
    \<and> (\<exists>fs b. schedule (es @ fs) (active_create vs) = Some b \<and> client b = Joined \<and> Spurious \<notin> set fs)"
proof -
  have i: "active_inv vs a" by (rule inv_schedule [OF inv_create assms])
  have "turns_left (active_create vs) = 11 * length vs + 15"
    by (simp add: turns_left_def active_create_def)
  then have "length es \<le> 11 * length vs + 15 + 3 * count_list es Spurious"
    using schedule_bound [OF assms] by simp
  moreover have "client a = Joined \<or> (\<exists>e. e \<noteq> Spurious \<and> take_turn e a \<noteq> None)"
    using progress [OF i] by (metis take_turn_def turn.distinct(3,5) turn.simps(7,8))
  ultimately show ?thesis using finish [OF i] assms by (auto simp: schedule_append)
qed

theorem active_terminates_witness: "length example_turns \<le> 29"
  using active_terminates [OF example_schedule] by (simp add: example_turns_def)

end
