(* ===== verification/Chat_Message.thy ===== *)
theory Chat_Message
  imports Input_Stream
begin

text \<open>
  The message of the chat programs, \<^verbatim>\<open>src/Libraries/asio/chat/chat_message.hpp\<close>, the message that the
  client makes of a line, and the handlers with which client and server read one. \<^verbatim>\<open>asio\<close> is not under
  \<^verbatim>\<open>src\<close>: that a read of \<open>n\<close> bytes ends with \<open>n\<close> bytes or an error, and a write puts the bytes of its buffer on
  the connection, is its documented behaviour; what it delivers is an argument.
\<close>

section \<open>Messages\<close>

definition header_length :: nat where
  "header_length = 4"

definition max_body_length :: nat where
  "max_body_length = 512"

record chat_message =
  msg_data :: string
  body_length :: size_t

definition new_message :: chat_message where
  "new_message = \<lparr>msg_data = replicate (header_length + max_body_length) (CHR 0x00), body_length = 0\<rparr>"

definition message_length :: "chat_message \<Rightarrow> nat" where
  "message_length m = header_length + unat (body_length m)"

text \<open>\<^verbatim>\<open>std::from_chars\<close> for a \<^verbatim>\<open>size_t\<close>: the longest run of digits; without a digit, or if the value is too large,
  the variable keeps its value.\<close>

datatype errc = No_Error | Invalid_Argument | Result_Out_Of_Range

definition from_chars :: "string \<Rightarrow> size_t \<Rightarrow> errc \<times> size_t" where
  "from_chars cs v = (let ds = takeWhile is_digit cs in
     if ds = [] then (Invalid_Argument, v)
     else if number ds \<le> int size_max then (No_Error, of_int (number ds))
     else (Result_Out_Of_Range, v))"

definition decode_header :: "chat_message \<Rightarrow> errc \<times> chat_message" where
  "decode_header m = (case from_chars (take header_length (msg_data m)) (body_length m) of
     (ec, v) \<Rightarrow> (ec, m\<lparr>body_length := if ec \<noteq> No_Error then 0 else v\<rparr>))"

text \<open>The conversion of a \<^verbatim>\<open>size_t\<close> to \<^verbatim>\<open>int\<close>, and \<^verbatim>\<open>sprintf\<close> with \<^verbatim>\<open>%04d\<close>.\<close>

definition size_to_int :: "size_t \<Rightarrow> int" where
  "size_to_int n = sint (ucast n :: 32 word)"

definition print_04d :: "int \<Rightarrow> string" where
  "print_04d i = (let ds = show_nat (nat \<bar>i\<bar>) in
     if i < 0 then CHR ''-'' # replicate (3 - length ds) (CHR ''0'') @ ds
     else replicate (4 - length ds) (CHR ''0'') @ ds)"

text \<open>The text and its final null go to an array of five characters.\<close>

definition encode_header :: "chat_message \<Rightarrow> fault + chat_message" where
  "encode_header m = (let h = print_04d (size_to_int (body_length m)) in
     if length h + 1 \<le> header_length + 1
     then Inr (m\<lparr>msg_data := take header_length h @ drop header_length (msg_data m)\<rparr>)
     else Inl Out_Of_Bounds)"

text \<open>Characters copied to the body, and the bytes of the buffer that is written.\<close>

definition store_at :: "nat \<Rightarrow> string \<Rightarrow> chat_message \<Rightarrow> fault + chat_message" where
  "store_at k cs m = (if k + length cs \<le> length (msg_data m)
     then Inr (m\<lparr>msg_data := take k (msg_data m) @ cs @ drop (k + length cs) (msg_data m)\<rparr>)
     else Inl Out_Of_Bounds)"

definition wire :: "chat_message \<Rightarrow> string" where
  "wire m = take (message_length m) (msg_data m)"

definition body_text :: "chat_message \<Rightarrow> string" where
  "body_text m = take (unat (body_length m)) (drop header_length (msg_data m))"

section \<open>The client's messages\<close>

text \<open>A line of the input, up to a null character in it.\<close>

definition line_message :: "string \<Rightarrow> fault + chat_message" where
  "line_message line = (let text = takeWhile (\<lambda>c. c \<noteq> CHR 0x00) line in
     bnd (store_at header_length (text @ [CHR 0x00]) (new_message\<lparr>body_length := of_nat (length text)\<rparr>))
       encode_header)"

text \<open>\<^verbatim>\<open>getline\<close> into 512 characters, one of them for the final null, fails at a longer line and at the end.\<close>

function input_lines :: "string \<Rightarrow> string list" where
  "input_lines cs = (if cs = [] then []
     else (let line = takeWhile (\<lambda>c. c \<noteq> newline) cs; others = dropWhile (\<lambda>c. c \<noteq> newline) cs in
       if max_body_length - 1 < length line then []
       else line # (if others = [] then [] else input_lines (tl others))))"
  by pat_completeness auto
termination
proof (relation "measure length")
  fix cs line others :: string
  assume others: "others = dropWhile (\<lambda>c. c \<noteq> newline) cs" "others \<noteq> []"
  have "length others \<le> length cs" unfolding others(1) by (rule length_dropWhile_le)
  then have "length (tl others) < length cs" using others(2) by (cases others) simp_all
  then show "(tl others, cs) \<in> measure length" by simp
qed simp

declare input_lines.simps [simp del]

section \<open>Reading a message\<close>

text \<open>The handlers behind a read of the header and of the body; the second read is for as many characters
  as the header says, into the part of the array behind the header.\<close>

definition got_header :: "string \<Rightarrow> chat_message \<Rightarrow> fault + errc \<times> chat_message" where
  "got_header cs m = bnd (store_at 0 cs m) (\<lambda>m'. Inr (decode_header m'))"

definition got_body :: "string \<Rightarrow> chat_message \<Rightarrow> fault + chat_message" where
  "got_body cs m = store_at header_length cs m"

definition body_fits :: "chat_message \<Rightarrow> bool" where
  "body_fits m \<longleftrightarrow> unat (body_length m) \<le> max_body_length"

text \<open>The reading of the client, from the characters that arrive: the messages it prints, and how it ends.\<close>

datatype read_end = Read_Error | Bad_Header errc | Overrun

function read_messages :: "chat_message \<Rightarrow> string \<Rightarrow> chat_message list \<times> read_end" where
  "read_messages m cs =
     (if length cs < header_length then ([], Read_Error)
      else case got_header (take header_length cs) m of
        Inl f \<Rightarrow> ([], Overrun)
      | Inr (ec, m1) \<Rightarrow>
          (if ec \<noteq> No_Error then ([], Bad_Header ec)
           else if \<not> body_fits m1 then ([], Overrun)
           else let n = unat (body_length m1); bs = drop header_length cs in
             if length bs < n then ([], Read_Error)
             else case got_body (take n bs) m1 of
               Inl f \<Rightarrow> ([], Overrun)
             | Inr m2 \<Rightarrow> (case read_messages m2 (drop n bs) of (ms, e) \<Rightarrow> (m2 # ms, e))))"
  by pat_completeness auto
termination
  by (relation "measure (\<lambda>(m, cs). length cs)") (auto simp: header_length_def)

declare read_messages.simps [simp del]

section \<open>Headers\<close>

lemma number_append: "number (cs @ [c]) = 10 * number cs + digit_val c"
  by (simp add: number_def)

lemma number_zeros: "number (replicate k (CHR ''0'') @ cs) = number cs"
  by (induction k) (simp_all add: number_def digit_val_def)

lemma show_nat_length: "n < 10 ^ Suc k \<Longrightarrow> length (show_nat n) \<le> Suc k"
proof (induction k arbitrary: n)
  case (Suc k)
  then have "n div 10 < 10 ^ Suc k" by (simp add: less_mult_imp_div_less)
  from Suc.IH [OF this] show ?case by (simp add: show_nat.simps [of n])
qed (simp add: show_nat.simps)

lemma print_04d_nat:
  assumes "n \<le> 9999"
  shows "length (print_04d (int n)) = 4" "list_all is_digit (print_04d (int n))" "number (print_04d (int n)) = int n"
proof -
  have "length (show_nat n) \<le> 4" using show_nat_length [of n 3] assms by simp
  then show "length (print_04d (int n)) = 4" by (simp add: print_04d_def Let_def)
  show "list_all is_digit (print_04d (int n))"
    using show_nat_digits [of n] by (auto simp: print_04d_def Let_def list_all_iff is_digit_def)
  show "number (print_04d (int n)) = int n"
    using show_nat_digits [of n] by (simp add: print_04d_def Let_def number_zeros)
qed

lemma from_chars_digits:
  assumes "list_all is_digit ds" "ds \<noteq> []" "number ds = int n" "n \<le> size_max"
  shows "from_chars ds v = (No_Error, of_nat n)"
proof -
  have t: "takeWhile is_digit ds = ds" using assms(1) by (simp add: takeWhile_eq_all_conv list_all_iff)
  show ?thesis using assms(2-4) unfolding from_chars_def Let_def t by simp
qed

lemma size_to_int_small: "n \<le> 9999 \<Longrightarrow> size_to_int (of_nat n) = int n"
proof -
  assume "n \<le> 9999"
  then have "uint (ucast (of_nat n :: size_t) :: 32 word) = int n"
    by (simp add: uint_nat unat_of_nat unsigned_ucast_eq take_bit_nat_eq_self)
  then show ?thesis
    using \<open>n \<le> 9999\<close> by (simp add: size_to_int_def sint_uint signed_take_bit_int_eq_self)
qed

section \<open>Framing\<close>

text \<open>A message whose header says its length.\<close>

definition framed :: "chat_message \<Rightarrow> bool" where
  "framed m \<longleftrightarrow> length (msg_data m) = header_length + max_body_length \<and> body_fits m
     \<and> from_chars (take header_length (msg_data m)) 0 = (No_Error, body_length m)"

lemma from_chars_value: "from_chars cs 0 = (No_Error, n) \<Longrightarrow> from_chars cs v = (No_Error, n)"
  by (auto simp: from_chars_def Let_def split: if_splits)

lemma from_chars_cases: "from_chars cs v = (ec, n) \<Longrightarrow> ec \<noteq> No_Error \<Longrightarrow> fst (from_chars cs w) = ec"
  by (auto simp: from_chars_def Let_def split: if_splits)

definition received_as :: "chat_message \<Rightarrow> chat_message \<Rightarrow> chat_message" where
  "received_as r m = \<lparr>msg_data = wire m @ drop (message_length m) (msg_data r), body_length = body_length m\<rparr>"

lemma wire_length: "framed m \<Longrightarrow> length (wire m) = message_length m"
  by (simp add: framed_def wire_def body_fits_def message_length_def)

lemma wire_header: "framed m \<Longrightarrow> take header_length (wire m) = take header_length (msg_data m)"
  by (simp add: wire_def message_length_def min_def)

lemma wire_body: "framed m \<Longrightarrow> drop header_length (wire m) = body_text m"
  by (simp add: wire_def message_length_def body_text_def drop_take)

lemma received_as_wire:
  assumes "framed m"
  shows "wire (received_as r m) = wire m"
proof -
  have "wire (received_as r m) = take (message_length m) (wire m @ drop (message_length m) (msg_data r))"
    by (simp add: wire_def [of "received_as r m"]) (simp add: received_as_def message_length_def)
  then show ?thesis using wire_length [OF assms] by simp
qed

lemma received_as_framed:
  assumes "framed m" "length (msg_data r) = header_length + max_body_length"
  shows "framed (received_as r m)"
proof -
  have "take header_length (msg_data (received_as r m)) = take header_length (msg_data m)"
    using wire_header [OF assms(1)] wire_length [OF assms(1)]
    by (simp add: received_as_def message_length_def)
  then show ?thesis using assms wire_length [OF assms(1)]
    by (auto simp: framed_def received_as_def message_length_def body_fits_def)
qed

lemma read_framed:
  assumes m: "framed m" and r: "length (msg_data r) = header_length + max_body_length"
  shows "read_messages r (wire m @ cs) =
    (case read_messages (received_as r m) cs of (ms, e) \<Rightarrow> (received_as r m # ms, e))"
proof -
  let ?h = "take header_length (wire m)" and ?n = "unat (body_length m)"
  have len: "length (wire m) = header_length + ?n" "?n \<le> max_body_length"
    using m wire_length [OF m] by (simp_all add: message_length_def framed_def body_fits_def)
  let ?r1 = "\<lparr>msg_data = ?h @ drop header_length (msg_data r), body_length = body_length m\<rparr>"
  have f: "from_chars ?h v = (No_Error, body_length m)" for v
    using m wire_header [OF m] by (auto simp: framed_def intro: from_chars_value)
  have h: "got_header ?h r = Inr (No_Error, ?r1)"
    using len r f by (simp add: got_header_def store_at_def decode_header_def chat_message.defs min_def)
  have b: "got_body (drop header_length (wire m)) ?r1 = Inr (received_as r m)"
    using len r by (simp add: got_body_def store_at_def received_as_def message_length_def
        add.commute flip: append_assoc)
  have "take header_length (wire m @ cs) = ?h" "drop header_length (wire m @ cs) = drop header_length (wire m) @ cs"
    using len by simp_all
  then show ?thesis
    using len h b by (simp add: read_messages.simps [of r] body_fits_def)
qed

lemma read_framed_all:
  assumes "list_all framed ms" "length (msg_data r) = header_length + max_body_length"
  shows "\<exists>rs r'. read_messages r (concat (map wire ms) @ cs) =
      (case read_messages r' cs of (ms', e) \<Rightarrow> (rs @ ms', e))
    \<and> map wire rs = map wire ms \<and> list_all framed rs
    \<and> length (msg_data r') = header_length + max_body_length"
  using assms
proof (induction ms arbitrary: r)
  case Nil
  then show ?case by (intro exI [of _ "[]"] exI [of _ r]) (simp split: prod.split)
next
  case (Cons m ms)
  let ?r = "received_as r m"
  have f: "framed ?r" using Cons.prems by (simp add: received_as_framed)
  have "list_all framed ms" using Cons.prems by simp
  moreover have "length (msg_data ?r) = header_length + max_body_length" using f by (simp add: framed_def)
  ultimately obtain rs r' where "read_messages ?r (concat (map wire ms) @ cs) =
      (case read_messages r' cs of (ms', e) \<Rightarrow> (rs @ ms', e))"
    "map wire rs = map wire ms" "list_all framed rs" "length (msg_data r') = header_length + max_body_length"
    using Cons.IH [of ?r] by blast
  then show ?case
    using Cons.prems f read_framed [of m r "concat (map wire ms) @ cs"] received_as_wire [of m r]
    by (intro exI [of _ "?r # rs"] exI [of _ r']) (auto split: prod.split)
qed

lemma read_framed_end:
  assumes "list_all framed ms"
  shows "\<exists>rs. read_messages new_message (concat (map wire ms)) = (rs, Read_Error) \<and> map wire rs = map wire ms
    \<and> map body_text rs = map body_text ms"
proof -
  have "length (msg_data new_message) = header_length + max_body_length" by (simp add: new_message_def)
  from read_framed_all [OF assms this, of "[]"] obtain rs r' where
    rs: "read_messages new_message (concat (map wire ms)) = (case read_messages r' [] of (ms', e) \<Rightarrow> (rs @ ms', e))"
    "map wire rs = map wire ms" "list_all framed rs" by auto
  have "map body_text xs = map (drop header_length) (map wire xs)" if "list_all framed xs" for xs
    using that by (induction xs) (simp_all add: wire_body)
  then have "map body_text rs = map body_text ms" using rs(2,3) assms by metis
  then show ?thesis using rs by (simp add: read_messages.simps [of r'] header_length_def)
qed

lemma encode_header_nat:
  assumes "n \<le> 9999" "header_length \<le> length (msg_data m)"
  shows "\<exists>m'. encode_header (m\<lparr>body_length := of_nat n\<rparr>) = Inr m' \<and> body_length m' = of_nat n
    \<and> drop header_length (msg_data m') = drop header_length (msg_data m)
    \<and> length (msg_data m') = length (msg_data m)
    \<and> from_chars (take header_length (msg_data m')) v = (No_Error, of_nat n)"
proof -
  note p = print_04d_nat [OF assms(1)]
  have "print_04d (int n) \<noteq> []" using p(1) by (metis list.size(3) zero_neq_numeral)
  moreover have "n \<le> size_max" using assms(1) by (simp add: size_max_def)
  ultimately have "from_chars (print_04d (int n)) v = (No_Error, of_nat n)"
    using p by (intro from_chars_digits) auto
  then show ?thesis
    using p(1) assms by (simp add: encode_header_def size_to_int_small header_length_def Let_def)
qed

lemma line_message_framed:
  assumes "length line \<le> max_body_length - 1"
  shows "\<exists>m. line_message line = Inr m \<and> framed m \<and> body_text m = takeWhile (\<lambda>c. c \<noteq> CHR 0x00) line"
proof -
  define body where "body = takeWhile (\<lambda>c. c \<noteq> CHR 0x00) line"
  have t: "length body \<le> 511"
    using assms length_takeWhile_le [of "\<lambda>c. c \<noteq> CHR 0x00" line] by (simp add: body_def max_body_length_def)
  let ?m = "new_message\<lparr>msg_data := take 4 (msg_data new_message) @ (body @ [CHR 0x00])
    @ drop (4 + (length body + 1)) (msg_data new_message)\<rparr>"
  have len: "length (msg_data ?m) = 516"
    using t by (simp add: new_message_def header_length_def max_body_length_def)
  have "store_at header_length (body @ [CHR 0x00]) (new_message\<lparr>body_length := of_nat (length body)\<rparr>)
      = Inr (?m\<lparr>body_length := of_nat (length body)\<rparr>)"
    using t by (simp add: store_at_def new_message_def header_length_def max_body_length_def)
  then have l: "line_message line = encode_header (?m\<lparr>body_length := of_nat (length body)\<rparr>)"
    by (simp add: line_message_def body_def Let_def)
  obtain m where m: "encode_header (?m\<lparr>body_length := of_nat (length body)\<rparr>) = Inr m"
    "body_length m = of_nat (length body)" "drop header_length (msg_data m) = drop header_length (msg_data ?m)"
    "length (msg_data m) = 516" "from_chars (take header_length (msg_data m)) 0 = (No_Error, of_nat (length body))"
    using encode_header_nat [of "length body" ?m 0] t len by (auto simp: header_length_def)
  have n: "unat (of_nat (length body) :: size_t) = length body"
    using t by (simp add: unat_of_nat)
  have "body_text m = body"
    using m(2,3) n by (simp add: body_text_def header_length_def new_message_def max_body_length_def)
  moreover have "framed m"
    using m t n by (simp add: framed_def body_fits_def header_length_def max_body_length_def)
  ultimately show ?thesis using l m(1) by (simp add: body_def)
qed

lemma input_lines_short: "line \<in> set (input_lines cs) \<Longrightarrow> length line \<le> max_body_length - 1"
proof (induction cs rule: input_lines.induct)
  case (1 cs)
  show ?case
  proof (cases "cs = [] \<or> max_body_length - 1 < length (takeWhile (\<lambda>c. c \<noteq> newline) cs)")
    case True
    then show ?thesis using "1.prems" unfolding input_lines.simps [of cs] Let_def by (auto split: if_splits)
  next
    case False
    then have "line = takeWhile (\<lambda>c. c \<noteq> newline) cs
      \<or> dropWhile (\<lambda>c. c \<noteq> newline) cs \<noteq> [] \<and> line \<in> set (input_lines (tl (dropWhile (\<lambda>c. c \<noteq> newline) cs)))"
      using "1.prems" unfolding input_lines.simps [of cs] Let_def by (auto split: if_splits)
    then show ?thesis using False "1.IH" by auto
  qed
qed

text \<open>C26 (Lines arrive). Whatever is typed, the client makes a message of every line it reads without a fault, and the
  other end, which reads the bytes of these messages from the connection, gets the same texts in the same
  order (a line counts up to the first null character), and then meets the end of the connection.\<close>

theorem chat_lines_arrive:
  "\<exists>ms rs. map line_message (input_lines typed) = map Inr ms
    \<and> read_messages new_message (concat (map wire ms)) = (rs, Read_Error)
    \<and> map body_text rs = map (takeWhile (\<lambda>c. c \<noteq> CHR 0x00)) (input_lines typed)"
proof -
  have "\<exists>ms. map line_message ls = map Inr ms \<and> list_all framed ms
      \<and> map body_text ms = map (takeWhile (\<lambda>c. c \<noteq> CHR 0x00)) ls"
    if "\<forall>l \<in> set ls. length l \<le> max_body_length - 1" for ls
    using that
  proof (induction ls)
    case (Cons l ls)
    obtain m where m: "line_message l = Inr m" "framed m" "body_text m = takeWhile (\<lambda>c. c \<noteq> CHR 0x00) l"
      using line_message_framed [of l] Cons.prems by auto
    obtain ms where "map line_message ls = map Inr ms" "list_all framed ms"
      "map body_text ms = map (takeWhile (\<lambda>c. c \<noteq> CHR 0x00)) ls" using Cons by auto
    then show ?case using m by (intro exI [of _ "m # ms"]) simp
  qed simp
  then obtain ms where "map line_message (input_lines typed) = map Inr ms" "list_all framed ms"
    "map body_text ms = map (takeWhile (\<lambda>c. c \<noteq> CHR 0x00)) (input_lines typed)"
    using input_lines_short by blast
  then show ?thesis using read_framed_end [of ms] by metis
qed

text \<open>A header may promise too much. A header may say any number up to 9999. For one above 512 the program reads the
  body over the end of the message, whatever was read before and whatever follows.\<close>

theorem header_overruns:
  assumes "512 < n" "n \<le> 9999" "length (msg_data r) = header_length + max_body_length"
  shows "read_messages r (print_04d (int n) @ cs) = ([], Overrun)"
proof -
  note p = print_04d_nat [OF assms(2)]
  have "print_04d (int n) \<noteq> []" using p(1) by (metis list.size(3) zero_neq_numeral)
  moreover have "n \<le> size_max" using assms(2) by (simp add: size_max_def)
  ultimately have f: "from_chars (print_04d (int n)) v = (No_Error, of_nat n)" for v
    using p by (intro from_chars_digits) auto
  have "unat (of_nat n :: size_t) = n" using assms(2) by (simp add: unat_of_nat)
  then show ?thesis
    using p(1) f assms by (simp add: read_messages.simps got_header_def store_at_def decode_header_def
        body_fits_def header_length_def max_body_length_def)
qed

theorem header_overruns_witness: "read_messages new_message (''0513'' @ ''hello'') = ([], Overrun)"
proof -
  have "print_04d (int 513) = ''0513''" by (simp add: print_04d_def Let_def show_nat.simps digit_def)
  then show ?thesis using header_overruns [of 513 new_message "''hello''"] by (simp add: new_message_def)
qed

end
