(* ===== verification/Chat_Server.thy ===== *)
theory Chat_Server
  imports Chat_Message
begin

text \<open>
  The chat room, the sessions and the server of \<^verbatim>\<open>src/Libraries/asio/chat/chat_server.cpp\<close>, and the writing
  half of \<^verbatim>\<open>chat_client.cpp\<close>. All handlers run on the one thread of the context, one at a time. An event is the
  end of an operation that was started, with what it delivered or with an error; the event chooses the
  handler.
\<close>

section \<open>Writers\<close>

text \<open>
  What is posted is queued; the front of the queue is written, and leaves it when the write has ended. There
  is one write at a time: \<open>asio\<close> forbids a second one on the same connection before the first has ended, and
  the handler of the first takes the front off the queue, with the bytes the second is sending. Such a start is
  the fault \<open>Overlapping_Write\<close> of the operations below. \<open>writing\<close> is the message of the write that was started and has not
  ended.
\<close>

definition front :: "'a list \<Rightarrow> 'a option" where
  "front xs = (case xs of [] \<Rightarrow> None | x # _ \<Rightarrow> Some x)"

lemma front_simps [simp]: "front [] = None" "front (x # xs) = Some x"
  by (simp_all add: front_def)

lemma front_Some_iff: "front xs = Some x \<longleftrightarrow> (\<exists>ys. xs = x # ys)"
  by (cases xs) auto

lemma front_None_iff [simp]: "front xs = None \<longleftrightarrow> xs = []" "None = front xs \<longleftrightarrow> xs = []"
  by (cases xs; simp)+

lemma front_append: "front (xs @ ys) = (if xs = [] then front ys else front xs)"
  by (cases xs) simp_all

locale outbox =
  fixes post :: "'m \<Rightarrow> 's \<Rightarrow> 'e + 's"
    and written :: "'s \<Rightarrow> 'e + 's"
    and queue :: "'s \<Rightarrow> 'm list"
    and writing :: "'s \<Rightarrow> 'm option"
    and fits :: "'m \<Rightarrow> bool"
  assumes post_law: "writing s = front (queue s) \<Longrightarrow> list_all fits (m # queue s)
      \<Longrightarrow> \<exists>s'. post m s = Inr s' \<and> queue s' = queue s @ [m] \<and> writing s' = front (queue s')"
    and written_law: "writing s = Some m \<Longrightarrow> queue s = m # ms \<Longrightarrow> list_all fits ms
      \<Longrightarrow> \<exists>s'. written s = Inr s' \<and> queue s' = ms \<and> writing s' = front ms"
begin

text \<open>Posts of messages (\<open>Some m\<close>) and ends of writes (\<open>None\<close>), with what was written. A write ends only if one was
  started, and what it has sent is what it was started with.\<close>

fun run_outbox :: "'m option list \<Rightarrow> 's \<Rightarrow> 'e + 'm list \<times> 's" where
  "run_outbox [] s = Inr ([], s)"
| "run_outbox (Some m # es) s = bnd (post m s) (run_outbox es)"
| "run_outbox (None # es) s = (case writing s of None \<Rightarrow> run_outbox es s
     | Some m \<Rightarrow> bnd (written s) (\<lambda>s'. bnd (run_outbox es s') (\<lambda>(ms, t). Inr (m # ms, t))))"

lemma outbox_order:
  assumes "writing s = front (queue s)" "list_all fits (queue s @ List.map_filter (\<lambda>e. e) es)"
  shows "\<exists>ms t. run_outbox es s = Inr (ms, t) \<and> ms @ queue t = queue s @ List.map_filter (\<lambda>e. e) es
    \<and> writing t = front (queue t)"
  using assms
proof (induction es s rule: run_outbox.induct)
  case (2 m es s)
  then obtain s' where "post m s = Inr s'" "queue s' = queue s @ [m]" "writing s' = front (queue s')"
    using post_law [of s m] by (auto simp: List.map_filter_simps)
  with 2 show ?case by (auto simp: List.map_filter_simps)
next
  case (3 es s)
  show ?case
  proof (cases "queue s")
    case Nil
    with 3 show ?thesis by (auto simp: List.map_filter_simps)
  next
    case (Cons m ms)
    then have w: "writing s = Some m" using "3.prems" by simp
    with Cons "3.prems" obtain s' where "written s = Inr s'" "queue s' = ms" "writing s' = front ms"
      using written_law [of s m ms] by (auto simp: List.map_filter_simps)
    moreover from this have "\<exists>ks t. run_outbox es s' = Inr (ks, t) \<and> ks @ queue t = ms @ List.map_filter (\<lambda>e. e) es
        \<and> writing t = front (queue t)"
      using "3.IH"(2) [OF w] "3.prems" Cons by (simp add: List.map_filter_simps)
    ultimately show ?thesis using Cons w by (auto simp: List.map_filter_simps)
  qed
qed (simp add: List.map_filter_simps)

text \<open>Ends of writes empty the queue.\<close>

lemma outbox_flush:
  assumes "writing s = front (queue s)" "list_all fits (queue s)" "length (queue s) \<le> n"
  shows "\<exists>t. run_outbox (replicate n None) s = Inr (queue s, t) \<and> queue t = [] \<and> writing t = None"
  using assms
proof (induction n arbitrary: s)
  case (Suc n)
  show ?case
  proof (cases "queue s")
    case Nil
    then show ?thesis using Suc.IH [of s] Suc.prems by simp
  next
    case (Cons m ms)
    then obtain s' where "written s = Inr s'" "queue s' = ms" "writing s' = front ms"
      using written_law [of s m ms] Suc.prems by auto
    then show ?thesis using Suc.IH [of s'] Suc.prems Cons by auto
  qed
qed simp

lemma run_outbox_append:
  "run_outbox (es @ fs) s = bnd (run_outbox es s) (\<lambda>(ms, t). bnd (run_outbox fs t) (\<lambda>(ns, u). Inr (ms @ ns, u)))"
proof (induction es s rule: run_outbox.induct)
  case (1 s)
  then show ?case by (cases "run_outbox fs s") auto
next
  case (2 m es s)
  then show ?case by (cases "post m s") simp_all
next
  case (3 es s)
  show ?case
  proof (cases "writing s")
    case (Some m)
    then show ?thesis using 3 by (auto simp: bnd_def split: sum.splits prod.splits)
  qed (use 3 in simp)
qed

lemma outbox_empties:
  assumes "writing s = front (queue s)" "list_all fits (queue s @ List.map_filter (\<lambda>e. e) es)"
    "length (queue s @ List.map_filter (\<lambda>e. e) es) \<le> n"
  shows "\<exists>t. run_outbox (es @ replicate n None) s = Inr (queue s @ List.map_filter (\<lambda>e. e) es, t)
    \<and> queue t = [] \<and> writing t = None"
proof -
  let ?ms = "queue s @ List.map_filter (\<lambda>e. e) es"
  obtain ms t where t: "run_outbox es s = Inr (ms, t)" "ms @ queue t = ?ms" "writing t = front (queue t)"
    using outbox_order [OF assms(1,2)] by blast
  have "list_all fits (ms @ queue t)" "length (ms @ queue t) \<le> n" unfolding t(2) by (rule assms)+
  then obtain u where "run_outbox (replicate n None) t = Inr (queue t, u)" "queue u = []" "writing u = None"
    using outbox_flush [OF t(3), of n] by auto
  then show ?thesis using t(1,2) by (simp add: run_outbox_append)
qed

end

section \<open>Sessions\<close>

datatype reading = Reading_Header | Reading_Body | Not_Reading

text \<open>
  \<open>in_flight\<close> is the message of the write that was started and has not ended; the operation keeps a reference to
  the front of the queue. The last two fields are history: the messages that were written to the connection, and how many the room
  had delivered when the session joined it. No operation reads them.
\<close>

record session =
  read_msg :: chat_message
  reading :: reading
  write_msgs :: "chat_message list"
  in_flight :: "chat_message option"
  s_written :: "chat_message list"
  joined_at :: nat

text \<open>The precondition of \<^verbatim>\<open>async_write\<close>, no other write under way, is checked before its buffer is made.\<close>

definition do_write :: "session \<Rightarrow> fault + session" where
  "do_write p = (case write_msgs p of
       [] \<Rightarrow> Inl Out_Of_Bounds
     | m # _ \<Rightarrow> if in_flight p \<noteq> None then Inl Overlapping_Write
         else if message_length m \<le> length (msg_data m) then Inr (p\<lparr>in_flight := Some m\<rparr>) else Inl Out_Of_Bounds)"

definition deliver_session :: "chat_message \<Rightarrow> session \<Rightarrow> fault + session" where
  "deliver_session m p = (let write_in_progress = (write_msgs p \<noteq> []); p' = p\<lparr>write_msgs := write_msgs p @ [m]\<rparr> in
     if \<not> write_in_progress then do_write p' else Inr p')"

text \<open>The handler of a write that has ended, which takes the front off the queue: \<open>pop_front\<close> of an empty one is
  undefined. What was sent is the message the write was started with; without a write there is no call.\<close>

definition session_written :: "session \<Rightarrow> fault + session" where
  "session_written p = (case in_flight p of None \<Rightarrow> Inr p
     | Some m \<Rightarrow> (case write_msgs p of [] \<Rightarrow> Inl Out_Of_Bounds
         | _ # ms \<Rightarrow> (let p' = p\<lparr>write_msgs := ms, in_flight := None, s_written := s_written p @ [m]\<rparr> in
             if ms \<noteq> [] then do_write p' else Inr p')))"

definition do_read_body :: "session \<Rightarrow> fault + session" where
  "do_read_body p = (if body_fits (read_msg p) then Inr (p\<lparr>reading := Reading_Body\<rparr>) else Inl Out_Of_Bounds)"

definition session_got_header :: "string \<Rightarrow> session \<Rightarrow> fault + session" where
  "session_got_header cs p = bnd (got_header cs (read_msg p)) (\<lambda>(ec, m).
     let p' = p\<lparr>read_msg := m\<rparr> in
     if ec = No_Error then do_read_body p' else Inr (p'\<lparr>reading := Not_Reading\<rparr>))"

section \<open>The room and the server\<close>

text \<open>
  Sessions are known by a number in place of their address. The set of participants is visited in the order
  of the addresses, which is not known; the sessions do not depend on it. \<open>room_log\<close> is history, all that
  was delivered in the room.
\<close>

definition max_recent_msgs :: nat where
  "max_recent_msgs = 100"

record chat_server =
  sessions :: "nat \<Rightarrow> session option"
  participants :: "nat list"
  recent_msgs :: "chat_message list"
  next_session :: nat
  room_log :: "chat_message list"

definition new_server :: chat_server where
  "new_server = \<lparr>sessions = Map.empty, participants = [], recent_msgs = [], next_session = 0, room_log = []\<rparr>"

definition on_session :: "nat \<Rightarrow> (session \<Rightarrow> fault + session) \<Rightarrow> chat_server \<Rightarrow> fault + chat_server" where
  "on_session i f s = (case sessions s i of None \<Rightarrow> Inl Dangling
     | Some p \<Rightarrow> bnd (f p) (\<lambda>p'. Inr (s\<lparr>sessions := (sessions s)(i \<mapsto> p')\<rparr>)))"

primrec deliver_all :: "chat_message list \<Rightarrow> session \<Rightarrow> fault + session" where
  "deliver_all [] p = Inr p"
| "deliver_all (m # ms) p = bnd (deliver_session m p) (deliver_all ms)"

definition room_join :: "nat \<Rightarrow> chat_server \<Rightarrow> fault + chat_server" where
  "room_join i s = on_session i (deliver_all (recent_msgs s)) (s\<lparr>participants := List.insert i (participants s)\<rparr>)"

definition room_leave :: "nat \<Rightarrow> chat_server \<Rightarrow> chat_server" where
  "room_leave i s = s\<lparr>participants := remove1 i (participants s)\<rparr>"

function drop_old :: "chat_message list \<Rightarrow> chat_message list" where
  "drop_old ms = (if max_recent_msgs < length ms then drop_old (tl ms) else ms)"
  by pat_completeness auto
termination
  by (relation "measure length") auto

declare drop_old.simps [simp del]

primrec deliver_to :: "nat list \<Rightarrow> chat_message \<Rightarrow> chat_server \<Rightarrow> fault + chat_server" where
  "deliver_to [] m s = Inr s"
| "deliver_to (i # is) m s = bnd (on_session i (deliver_session m) s) (deliver_to is m)"

definition room_deliver :: "chat_message \<Rightarrow> chat_server \<Rightarrow> fault + chat_server" where
  "room_deliver m s = deliver_to (participants s) m
     (s\<lparr>recent_msgs := drop_old (recent_msgs s @ [m]), room_log := room_log s @ [m]\<rparr>)"

definition accept_session :: "chat_server \<Rightarrow> fault + chat_server" where
  "accept_session s = (let i = next_session s;
       p = \<lparr>read_msg = new_message, reading = Not_Reading, write_msgs = [], in_flight = None,
         s_written = [], joined_at = length (room_log s)\<rparr> in
     bnd (room_join i (s\<lparr>sessions := (sessions s)(i \<mapsto> p), next_session := i + 1\<rparr>))
       (on_session i (\<lambda>p. Inr (p\<lparr>reading := Reading_Header\<rparr>))))"

definition session_got_body :: "nat \<Rightarrow> string \<Rightarrow> chat_server \<Rightarrow> fault + chat_server" where
  "session_got_body i cs s = (case sessions s i of None \<Rightarrow> Inl Dangling
     | Some p \<Rightarrow> bnd (got_body cs (read_msg p)) (\<lambda>m.
         bnd (room_deliver m (s\<lparr>sessions := (sessions s)(i \<mapsto> p\<lparr>read_msg := m\<rparr>)\<rparr>))
           (on_session i (\<lambda>p. Inr (p\<lparr>reading := Reading_Header\<rparr>)))))"

datatype chat_event =
    Accepted
  | Accept_Failed
  | Got_Header nat string
  | Got_Body nat string
  | Read_Failed nat
  | Written nat
  | Write_Failed nat

text \<open>The operation behind the event was started and has not ended, and it delivers what was asked for.\<close>

definition possible :: "chat_event \<Rightarrow> chat_server \<Rightarrow> bool" where
  "possible e s = (case e of
       Accepted \<Rightarrow> True
     | Accept_Failed \<Rightarrow> True
     | Got_Header i cs \<Rightarrow> (case sessions s i of None \<Rightarrow> False
         | Some p \<Rightarrow> reading p = Reading_Header \<and> length cs = header_length)
     | Got_Body i cs \<Rightarrow> (case sessions s i of None \<Rightarrow> False
         | Some p \<Rightarrow> reading p = Reading_Body \<and> length cs = unat (body_length (read_msg p)))
     | Read_Failed i \<Rightarrow> (case sessions s i of None \<Rightarrow> False | Some p \<Rightarrow> reading p \<noteq> Not_Reading)
     | Written i \<Rightarrow> (case sessions s i of None \<Rightarrow> False | Some p \<Rightarrow> in_flight p \<noteq> None)
     | Write_Failed i \<Rightarrow> (case sessions s i of None \<Rightarrow> False | Some p \<Rightarrow> in_flight p \<noteq> None))"

definition handle :: "chat_event \<Rightarrow> chat_server \<Rightarrow> fault + chat_server" where
  "handle e s = (case e of
       Accepted \<Rightarrow> accept_session s
     | Accept_Failed \<Rightarrow> Inr s
     | Got_Header i cs \<Rightarrow> on_session i (session_got_header cs) s
     | Got_Body i cs \<Rightarrow> session_got_body i cs s
     | Read_Failed i \<Rightarrow> on_session i (\<lambda>p. Inr (p\<lparr>reading := Not_Reading\<rparr>)) (room_leave i s)
     | Written i \<Rightarrow> on_session i session_written s
     | Write_Failed i \<Rightarrow> on_session i (\<lambda>p. Inr (p\<lparr>in_flight := None\<rparr>)) (room_leave i s))"

text \<open>A run of the server over a sequence of events, and that every event of it is possible when it comes and is no
  header that asks for more than a message holds.\<close>

definition asks_too_much :: "chat_event \<Rightarrow> bool" where
  "asks_too_much e = (case e of Got_Header i cs \<Rightarrow> (case from_chars cs 0 of (ec, n) \<Rightarrow>
     ec = No_Error \<and> max_body_length < unat n) | _ \<Rightarrow> False)"

primrec server_run :: "chat_event list \<Rightarrow> chat_server \<Rightarrow> fault + chat_server" where
  "server_run [] s = Inr s"
| "server_run (e # es) s = bnd (handle e s) (server_run es)"

primrec all_possible :: "chat_event list \<Rightarrow> chat_server \<Rightarrow> bool" where
  "all_possible [] s = True"
| "all_possible (e # es) s = (possible e s \<and> \<not> asks_too_much e
     \<and> (case handle e s of Inl _ \<Rightarrow> True | Inr s' \<Rightarrow> all_possible es s'))"

inductive chat_reach :: "chat_server \<Rightarrow> bool" where
  chat_start: "chat_reach new_server"
| chat_step: "chat_reach s \<Longrightarrow> possible e s \<Longrightarrow> handle e s = Inr s' \<Longrightarrow> chat_reach s'"

section \<open>A session is a writer\<close>

definition fits_msg :: "chat_message \<Rightarrow> bool" where
  "fits_msg m \<longleftrightarrow> message_length m \<le> length (msg_data m)"

lemma framed_fits: "framed m \<Longrightarrow> fits_msg m"
  by (simp add: framed_def fits_msg_def body_fits_def message_length_def)

definition queued :: "chat_message list \<Rightarrow> session \<Rightarrow> session" where
  "queued ms p = p\<lparr>write_msgs := write_msgs p @ ms, in_flight := front (write_msgs p @ ms)\<rparr>"

lemma deliver_session_ok:
  assumes "in_flight p = front (write_msgs p)" "fits_msg m"
  shows "deliver_session m p = Inr (queued [m] p)"
  using assms
  by (cases p) (auto simp: deliver_session_def do_write_def queued_def fits_msg_def Let_def front_append)

lemma queued_writing: "in_flight (queued ms p) = front (write_msgs (queued ms p))"
  by (simp add: queued_def)

lemma deliver_all_ok:
  assumes "in_flight p = front (write_msgs p)" "list_all fits_msg ms"
  shows "deliver_all ms p = Inr (queued ms p)"
  using assms
proof (induction ms arbitrary: p)
  case (Cons m ms)
  have "queued ms (queued [m] p) = queued (m # ms) p" by (simp add: queued_def)
  then show ?case
    using Cons.IH [of "queued [m] p"] Cons.prems queued_writing [of "[m]" p] deliver_session_ok [of p m] by simp
qed (simp add: queued_def)

lemma session_written_ok:
  assumes "in_flight p = Some m" "write_msgs p = m # ms" "list_all fits_msg ms"
  shows "session_written p = Inr (p\<lparr>write_msgs := ms, in_flight := front ms, s_written := s_written p @ [m]\<rparr>)"
  using assms by (cases ms) (auto simp: session_written_def do_write_def fits_msg_def Let_def)

interpretation session_outbox: outbox deliver_session session_written write_msgs in_flight fits_msg
proof
  show "\<exists>s'. deliver_session m s = Inr s' \<and> write_msgs s' = write_msgs s @ [m] \<and> in_flight s' = front (write_msgs s')"
    if "in_flight s = front (write_msgs s)" "list_all fits_msg (m # write_msgs s)" for s m
    using deliver_session_ok [OF that(1), of m] that(2) by (simp add: queued_def)
  show "\<exists>s'. session_written s = Inr s' \<and> write_msgs s' = ms \<and> in_flight s' = front ms"
    if "in_flight s = Some m" "write_msgs s = m # ms" "list_all fits_msg ms" for s m ms
    using session_written_ok [OF that] by simp
qed

section \<open>The invariant of the server\<close>

definition session_inv :: "chat_message list \<Rightarrow> bool \<Rightarrow> session \<Rightarrow> bool" where
  "session_inv log member p \<longleftrightarrow>
     length (msg_data (read_msg p)) = header_length + max_body_length
     \<and> (reading p = Reading_Body \<longrightarrow> framed (read_msg p))
     \<and> list_all fits_msg (write_msgs p)
     \<and> (in_flight p \<noteq> None \<longrightarrow> in_flight p = front (write_msgs p)) \<and> (member \<longrightarrow> in_flight p = front (write_msgs p))
     \<and> joined_at p \<le> length log
     \<and> (\<exists>zs. drop (joined_at p - max_recent_msgs) log = s_written p @ write_msgs p @ zs \<and> (member \<longrightarrow> zs = []))"

definition server_inv :: "chat_server \<Rightarrow> bool" where
  "server_inv s \<longleftrightarrow>
     (\<forall>i p. sessions s i = Some p \<longrightarrow> i < next_session s \<and> session_inv (room_log s) (i \<in> set (participants s)) p)
     \<and> distinct (participants s) \<and> (\<forall>i \<in> set (participants s). sessions s i \<noteq> None)
     \<and> recent_msgs s = drop (length (room_log s) - max_recent_msgs) (room_log s)
     \<and> list_all framed (room_log s)"

lemma new_server_inv: "server_inv new_server"
  by (simp add: server_inv_def new_server_def)

lemma drop_old_drop: "drop_old ms = drop (length ms - max_recent_msgs) ms"
proof (induction ms rule: drop_old.induct)
  case (1 ms)
  show ?case
  proof (cases "max_recent_msgs < length ms")
    case True
    then have "length ms - max_recent_msgs = Suc (length (tl ms) - max_recent_msgs)" by simp
    then show ?thesis using 1 [OF True] True by (simp add: drop_old.simps [of ms] drop_Suc)
  qed (simp add: drop_old.simps [of ms])
qed

lemma drop_old_append:
  "drop_old (drop (length log - max_recent_msgs) log @ [m]) = drop (length (log @ [m]) - max_recent_msgs) (log @ [m])"
proof -
  have "length log - (length log - 100 + 99) + (length log - 100) = length log - 99" by arith
  then show ?thesis by (auto simp: drop_old_drop max_recent_msgs_def)
qed

lemma server_session:
  "server_inv s \<Longrightarrow> sessions s i = Some p \<Longrightarrow> session_inv (room_log s) (i \<in> set (participants s)) p"
  by (simp add: server_inv_def)

lemma on_session_inv:
  assumes "server_inv s" "sessions s i = Some p"
    and "f p = Inr p'" "session_inv (room_log s) (i \<in> set (participants s)) p'"
  shows "\<exists>s'. on_session i f s = Inr s' \<and> server_inv s'"
  using assms by (auto simp: on_session_def server_inv_def)

lemma room_leave_inv:
  assumes "server_inv s"
  shows "server_inv (room_leave i s)"
proof -
  have "session_inv log (b \<and> c) p" if "session_inv log b p" for log b c p
    using that by (auto simp: session_inv_def)
  then show ?thesis using assms by (auto simp: server_inv_def room_leave_def)
qed

lemma member_queued:
  assumes "session_inv log True p" "framed m"
  shows "session_inv (log @ [m]) True (queued [m] p)"
  using assms framed_fits [OF assms(2)] by (auto simp: session_inv_def queued_def)

lemma other_logged: "session_inv log False p \<Longrightarrow> session_inv (log @ [m]) False p"
  by (auto simp: session_inv_def)

lemma deliver_to_sessions:
  assumes "distinct is" "\<forall>i \<in> set is. \<exists>p. sessions s i = Some p \<and> in_flight p = front (write_msgs p)" "fits_msg m"
  shows "deliver_to is m s =
    Inr (s\<lparr>sessions := (\<lambda>i. if i \<in> set is then map_option (queued [m]) (sessions s i) else sessions s i)\<rparr>)"
  using assms
proof (induction "is" arbitrary: s)
  case (Cons i "is")
  then obtain p where p: "sessions s i = Some p" "in_flight p = front (write_msgs p)" by auto
  let ?s = "s\<lparr>sessions := (sessions s)(i \<mapsto> queued [m] p)\<rparr>"
  have "on_session i (deliver_session m) s = Inr ?s"
    using p Cons.prems(3) by (simp add: on_session_def deliver_session_ok)
  moreover have "deliver_to is m ?s = Inr (?s\<lparr>sessions :=
      (\<lambda>j. if j \<in> set is then map_option (queued [m]) (sessions ?s j) else sessions ?s j)\<rparr>)"
    using Cons.prems by (intro Cons.IH) auto
  ultimately show ?case using Cons.prems(1) p(1) by (auto simp: fun_eq_iff)
qed simp

lemma room_deliver_inv:
  assumes s: "server_inv s" and m: "framed m"
  shows "\<exists>s'. room_deliver m s = Inr s' \<and> server_inv s' \<and> dom (sessions s') = dom (sessions s)
    \<and> (\<forall>i p'. sessions s' i = Some p' \<longrightarrow> (\<exists>p. sessions s i = Some p \<and> read_msg p' = read_msg p))"
proof -
  let ?P = "participants s"
  have part: "\<forall>i \<in> set ?P. \<exists>p. sessions s i = Some p \<and> in_flight p = front (write_msgs p)"
  proof
    fix i assume i: "i \<in> set ?P"
    then obtain p where p: "sessions s i = Some p" using s by (auto simp: server_inv_def)
    then show "\<exists>p. sessions s i = Some p \<and> in_flight p = front (write_msgs p)"
      using server_session [OF s p] i by (auto simp: session_inv_def)
  qed
  let ?f = "\<lambda>i. if i \<in> set ?P then map_option (queued [m]) (sessions s i) else sessions s i"
  let ?s = "s\<lparr>recent_msgs := drop_old (recent_msgs s @ [m]), room_log := room_log s @ [m], sessions := ?f\<rparr>"
  have "room_deliver m s = Inr ?s"
    unfolding room_deliver_def
    using deliver_to_sessions [of ?P "s\<lparr>recent_msgs := drop_old (recent_msgs s @ [m]), room_log := room_log s @ [m]\<rparr>" m]
      part framed_fits [OF m] s by (simp add: server_inv_def cong: if_cong)
  moreover have "server_inv ?s"
  proof -
    have "i < next_session s \<and> session_inv (room_log s @ [m]) (i \<in> set ?P) p" if f: "?f i = Some p" for i p
    proof -
      obtain q where q: "sessions s i = Some q" using f by (auto split: if_splits)
      have "i < next_session s" using s q by (simp add: server_inv_def)
      then show ?thesis
        using server_session [OF s q] f q m member_queued other_logged by (cases "i \<in> set ?P") auto
    qed
    moreover have "recent_msgs s = drop (length (room_log s) - max_recent_msgs) (room_log s)"
      using s by (simp add: server_inv_def)
    ultimately show ?thesis using s m drop_old_append [of "room_log s" m]
      by (auto simp: server_inv_def)
  qed
  ultimately show ?thesis by (intro exI [of _ ?s]) (auto simp: queued_def split: if_splits)
qed

lemma session_got_header_ok:
  assumes "session_inv log b p" "length cs = header_length"
  shows "session_got_header cs p =
    (case from_chars cs 0 of (ec, n) \<Rightarrow>
       let m = \<lparr>msg_data = cs @ drop header_length (msg_data (read_msg p)), body_length = if ec = No_Error then n else 0\<rparr> in
       if ec = No_Error \<and> max_body_length < unat n then Inl Out_Of_Bounds
       else Inr (p\<lparr>read_msg := m, reading := if ec = No_Error then Reading_Body else Not_Reading\<rparr>))"
proof -
  obtain ec n where f: "from_chars cs 0 = (ec, n)" by (cases "from_chars cs 0")
  obtain v where v: "from_chars cs (body_length (read_msg p)) = (ec, v)" "ec = No_Error \<longrightarrow> v = n"
  proof (cases "ec = No_Error")
    case True
    then show ?thesis using that f by (auto intro: from_chars_value)
  next
    case False
    then show ?thesis using that f from_chars_cases [OF f, of "body_length (read_msg p)"]
      by (cases "from_chars cs (body_length (read_msg p))") auto
  qed
  have "length cs \<le> length (msg_data (read_msg p))" using assms by (simp add: session_inv_def)
  then show ?thesis using f v assms(2)
    by (cases p) (auto simp: session_got_header_def got_header_def store_at_def decode_header_def do_read_body_def
        body_fits_def Let_def)
qed

lemma accept_inv:
  assumes s: "server_inv s"
  shows "\<exists>s'. accept_session s = Inr s' \<and> server_inv s'"
proof -
  let ?i = "next_session s"
  let ?p = "\<lparr>read_msg = new_message, reading = Not_Reading, write_msgs = [], in_flight = None,
         s_written = [], joined_at = length (room_log s)\<rparr>"
  have new: "sessions s ?i = None"
    using s by (cases "sessions s ?i") (auto simp: server_inv_def)
  then have new': "?i \<notin> set (participants s)" using s by (auto simp: server_inv_def)
  have fit: "list_all fits_msg (recent_msgs s)"
    using s framed_fits by (auto simp: server_inv_def list_all_iff dest: in_set_dropD)
  let ?q = "queued (recent_msgs s) ?p\<lparr>reading := Reading_Header\<rparr>"
  let ?s = "s\<lparr>sessions := (sessions s)(?i \<mapsto> ?q), next_session := ?i + 1, participants := List.insert ?i (participants s)\<rparr>"
  have "accept_session s = Inr ?s"
    using deliver_all_ok [of ?p "recent_msgs s"] fit
    by (simp add: accept_session_def room_join_def on_session_def Let_def)
  moreover have "session_inv (room_log s) True ?q"
    using s fit by (simp add: session_inv_def queued_def new_message_def server_inv_def)
  then have "server_inv ?s" using s new new' by (auto simp: server_inv_def less_SucI)
  ultimately show ?thesis by blast
qed

lemma got_body_framed:
  assumes "framed m" "length cs = unat (body_length m)"
  shows "\<exists>m'. got_body cs m = Inr m' \<and> framed m' \<and> body_length m' = body_length m
    \<and> wire m' = take header_length (msg_data m) @ cs"
  using assms
  by (auto simp: got_body_def store_at_def framed_def body_fits_def wire_def message_length_def min_def)

lemma session_got_body_ok:
  assumes s: "server_inv s" and p: "sessions s i = Some p" "reading p = Reading_Body"
    and cs: "length cs = unat (body_length (read_msg p))"
  shows "\<exists>s'. session_got_body i cs s = Inr s' \<and> server_inv s'"
proof -
  have si: "session_inv (room_log s) (i \<in> set (participants s)) p" by (rule server_session [OF s p(1)])
  then have "framed (read_msg p)" using p(2) by (simp add: session_inv_def)
  from got_body_framed [OF this cs] obtain m where m: "got_body cs (read_msg p) = Inr m" "framed m" by blast
  let ?s = "s\<lparr>sessions := (sessions s)(i \<mapsto> p\<lparr>read_msg := m\<rparr>)\<rparr>"
  have "session_inv (room_log s) (i \<in> set (participants s)) (p\<lparr>read_msg := m\<rparr>)"
    using si m(2) by (auto simp: session_inv_def framed_def)
  then have "server_inv ?s" using s p(1) by (auto simp: server_inv_def)
  from room_deliver_inv [OF this m(2)] obtain s1 where
    s1: "room_deliver m ?s = Inr s1" "server_inv s1" "dom (sessions s1) = dom (sessions ?s)" by blast
  then obtain p1 where p1: "sessions s1 i = Some p1" by auto
  have "session_inv (room_log s1) (i \<in> set (participants s1)) (p1\<lparr>reading := Reading_Header\<rparr>)"
    using server_session [OF s1(2) p1] by (auto simp: session_inv_def)
  from on_session_inv [OF s1(2) p1 _ this, of "\<lambda>p. Inr (p\<lparr>reading := Reading_Header\<rparr>)"] show ?thesis
    using m(1) s1(1) p(1) by (simp add: session_got_body_def)
qed

lemma handle_inv:
  assumes s: "server_inv s" and e: "possible e s"
  shows "if asks_too_much e then handle e s = Inl Out_Of_Bounds else \<exists>s'. handle e s = Inr s' \<and> server_inv s'"
proof (cases e)
  case (Got_Header i cs)
  then obtain p where p: "sessions s i = Some p" "reading p = Reading_Header" "length cs = header_length"
    using e by (auto simp: possible_def split: option.splits)
  note si = server_session [OF s p(1)]
  obtain ec n where f: "from_chars cs 0 = (ec, n)" by (cases "from_chars cs 0")
  show ?thesis
  proof (cases "ec = No_Error \<and> max_body_length < unat n")
    case True
    then show ?thesis using Got_Header p session_got_header_ok [OF si p(3)] f
      by (simp add: handle_def asks_too_much_def on_session_def)
  next
    case False
    let ?p = "p\<lparr>read_msg := \<lparr>msg_data = cs @ drop header_length (msg_data (read_msg p)),
      body_length = if ec = No_Error then n else 0\<rparr>, reading := if ec = No_Error then Reading_Body else Not_Reading\<rparr>"
    have "session_got_header cs p = Inr ?p" using session_got_header_ok [OF si p(3)] f False by (auto simp: Let_def)
    moreover have "session_inv (room_log s) (i \<in> set (participants s)) ?p"
      using si p(3) f False by (auto simp: session_inv_def framed_def body_fits_def)
    ultimately show ?thesis
      using on_session_inv [OF s p(1)] Got_Header f False by (auto simp: handle_def asks_too_much_def)
  qed
next
  case (Got_Body i cs)
  then show ?thesis using e session_got_body_ok [OF s]
    by (auto simp: possible_def handle_def asks_too_much_def split: option.splits)
next
  case (Read_Failed i)
  then obtain p where p: "sessions (room_leave i s) i = Some p"
    using e by (auto simp: possible_def room_leave_def split: option.splits)
  have "session_inv (room_log (room_leave i s)) (i \<in> set (participants (room_leave i s))) (p\<lparr>reading := Not_Reading\<rparr>)"
    using server_session [OF room_leave_inv [OF s] p] by (auto simp: session_inv_def)
  from on_session_inv [OF room_leave_inv [OF s] p _ this] show ?thesis
    using Read_Failed by (simp add: handle_def asks_too_much_def)
next
  case (Write_Failed i)
  then obtain p where p: "sessions (room_leave i s) i = Some p"
    using e by (auto simp: possible_def room_leave_def split: option.splits)
  have "distinct (participants s)" using s by (simp add: server_inv_def)
  then have "i \<notin> set (participants (room_leave i s))" by (simp add: room_leave_def)
  then have "session_inv (room_log (room_leave i s)) (i \<in> set (participants (room_leave i s))) (p\<lparr>in_flight := None\<rparr>)"
    using server_session [OF room_leave_inv [OF s] p] by (auto simp: session_inv_def)
  from on_session_inv [OF room_leave_inv [OF s] p _ this] show ?thesis
    using Write_Failed by (simp add: handle_def asks_too_much_def)
next
  case (Written i)
  then obtain p where p: "sessions s i = Some p" "in_flight p \<noteq> None"
    using e by (auto simp: possible_def split: option.splits)
  note si = server_session [OF s p(1)]
  then obtain m ms where m: "in_flight p = Some m" "write_msgs p = m # ms" "list_all fits_msg ms"
    using p(2) by (cases "write_msgs p") (auto simp: session_inv_def)
  let ?p = "p\<lparr>write_msgs := ms, in_flight := front ms, s_written := s_written p @ [m]\<rparr>"
  have "session_inv (room_log s) (i \<in> set (participants s)) ?p"
    using si m by (auto simp: session_inv_def)
  from on_session_inv [where f = session_written, OF s p(1) session_written_ok [OF m] this] show ?thesis
    using Written by (simp add: handle_def asks_too_much_def)
qed (use accept_inv [OF s] s in \<open>simp_all add: handle_def asks_too_much_def\<close>)

lemma chat_reach_inv: "chat_reach s \<Longrightarrow> server_inv s"
proof (induction rule: chat_reach.induct)
  case (chat_step s e s')
  then show ?case using handle_inv [of s e] by (auto split: if_splits)
qed (rule new_server_inv)

lemma server_run_inv:
  assumes "all_possible es s" "server_inv s"
  shows "\<exists>t. server_run es s = Inr t \<and> server_inv t"
  using assms
proof (induction es arbitrary: s)
  case (Cons e es)
  then obtain s' where "handle e s = Inr s'" "server_inv s'" using handle_inv [of s e] by auto
  then show ?case using Cons by auto
qed simp

section \<open>Properties\<close>

text \<open>A server with one session.\<close>

definition example_joined :: chat_server where
  "example_joined = new_server\<lparr>sessions := [0 \<mapsto> \<lparr>read_msg = new_message, reading = Reading_Header,
     write_msgs = [], in_flight = None, s_written = [], joined_at = 0\<rparr>], participants := [0], next_session := 1\<rparr>"

lemma example_joined_reach: "chat_reach example_joined"
  by (rule chat_step [OF chat_start, of Accepted])
    (simp_all add: possible_def handle_def accept_session_def room_join_def on_session_def new_server_def Let_def
      example_joined_def)

text \<open>One session, whose message comes back to it.\<close>

definition example_events :: "chat_event list" where
  "example_events = [Accepted, Got_Header 0 ''0002'', Got_Body 0 ''hi'', Written 0]"

definition example_session :: session where
  "example_session = \<lparr>read_msg = \<lparr>msg_data = ''0002hi'' @ replicate 510 (CHR 0x00), body_length = 2\<rparr>,
     reading = Reading_Header, write_msgs = [], in_flight = None,
     s_written = [\<lparr>msg_data = ''0002hi'' @ replicate 510 (CHR 0x00), body_length = 2\<rparr>], joined_at = 0\<rparr>"

definition example_server :: chat_server where
  "example_server = new_server\<lparr>sessions := [0 \<mapsto> example_session], participants := [0], next_session := 1,
     recent_msgs := s_written example_session, room_log := s_written example_session\<rparr>"

lemma example_run: "server_run example_events new_server = Inr example_server" "all_possible example_events new_server"
proof -
  let ?p0 = "\<lparr>read_msg = new_message, reading = Reading_Header, write_msgs = [], in_flight = None,
    s_written = [], joined_at = 0\<rparr>"
  let ?m1 = "\<lparr>msg_data = ''0002'' @ replicate 512 (CHR 0x00), body_length = 2\<rparr>"
  let ?m2 = "\<lparr>msg_data = ''0002hi'' @ replicate 510 (CHR 0x00), body_length = 2\<rparr>"
  let ?s1 = "new_server\<lparr>sessions := [0 \<mapsto> ?p0], participants := [0], next_session := 1\<rparr>"
  let ?s2 = "?s1\<lparr>sessions := [0 \<mapsto> ?p0\<lparr>read_msg := ?m1, reading := Reading_Body\<rparr>]\<rparr>"
  let ?s3 = "?s1\<lparr>sessions := [0 \<mapsto> ?p0\<lparr>read_msg := ?m2, write_msgs := [?m2], in_flight := Some ?m2\<rparr>],
    recent_msgs := [?m2], room_log := [?m2]\<rparr>"
  have 1: "handle Accepted new_server = Inr ?s1"
    by (simp add: handle_def accept_session_def room_join_def on_session_def new_server_def Let_def)
  have 2: "handle (Got_Header 0 ''0002'') ?s1 = Inr ?s2"
    by (simp add: handle_def on_session_def session_got_header_def got_header_def store_at_def decode_header_def
      from_chars_def number_def digit_val_def is_digit_def do_read_body_def body_fits_def new_message_def
      header_length_def max_body_length_def size_max_def Let_def new_server_def)
  have 3: "handle (Got_Body 0 ''hi'') ?s2 = Inr ?s3"
    by (simp add: handle_def session_got_body_def got_body_def store_at_def room_deliver_def on_session_def
      deliver_session_def do_write_def message_length_def drop_old.simps max_recent_msgs_def header_length_def
      Let_def new_server_def)
  have 4: "handle (Written 0) ?s3 = Inr example_server"
    by (simp add: handle_def on_session_def session_written_def Let_def new_server_def example_server_def
      example_session_def)
  show "server_run example_events new_server = Inr example_server" using 1 2 3 4 by (simp add: example_events_def)
  have "\<not> asks_too_much (Got_Header 0 ''0002'')"
    by (simp add: asks_too_much_def from_chars_def number_def digit_val_def is_digit_def size_max_def
      header_length_def max_body_length_def)
  then show "all_possible example_events new_server"
    using 1 2 3 4 by (simp add: example_events_def possible_def asks_too_much_def header_length_def)
qed

lemma server_run_reach: "all_possible es s \<Longrightarrow> server_run es s = Inr t \<Longrightarrow> chat_reach s \<Longrightarrow> chat_reach t"
  by (induction es arbitrary: s) (auto split: sum.splits simp: bnd_def intro: chat_step)

lemma example_reach: "chat_reach example_server"
  using server_run_reach [OF example_run(2,1) chat_start] .

lemma example_facts: "sessions example_server 0 = Some example_session" "participants example_server = [0]"
  "map body_text (s_written example_session) = [''hi'']" "room_log example_server = s_written example_session"
  "joined_at example_session = 0" "length (s_written example_session) = 1"
  by (simp_all add: example_server_def example_session_def body_text_def header_length_def)

text \<open>C7 (Every participant gets every message in order). Whatever happens on the connections, in whatever order, the
  server goes on (but for a header that asks for too much, which is a claim of its own), and never starts a write
  on a connection where another is under way. What it has written to a participant and still has to write is what
  was delivered in the room, in this order, since the participant joined and up to a hundred messages before that,
  and the message being written is the first it still has to write: none is kept waiting without a write under
  way. A session that has left has a prefix of that.\<close>

theorem chat_in_order:
  assumes "all_possible es new_server"
  shows "\<exists>s. server_run es new_server = Inr s \<and> (\<forall>i p. sessions s i = Some p \<longrightarrow>
    (\<exists>zs. drop (joined_at p - max_recent_msgs) (room_log s) = s_written p @ write_msgs p @ zs
      \<and> (i \<in> set (participants s) \<longrightarrow> zs = [] \<and> in_flight p = front (write_msgs p))))"
proof -
  obtain s where s: "server_run es new_server = Inr s" "server_inv s"
    using server_run_inv [OF assms new_server_inv] by blast
  show ?thesis using s(1) server_session [OF s(2)] by (auto simp: session_inv_def)
qed

theorem chat_in_order_witness:
  "\<exists>s p. server_run [Accepted, Got_Header 0 ''0002'', Got_Body 0 ''hi'', Written 0] new_server = Inr s
    \<and> sessions s 0 = Some p \<and> room_log s = s_written p @ write_msgs p \<and> map body_text (room_log s) = [''hi'']
    \<and> in_flight p = front (write_msgs p)"
  using chat_in_order [OF example_run(2)] example_run(1) example_facts
  by (fastforce simp: example_events_def)


text \<open>C15 (What breaks the server). Every event is handled without undefined behaviour, except for one: a header
  that says more than 512. A client can send it at any time.\<close>

theorem server_safe_but_header:
  assumes "chat_reach s" "possible e s"
  shows "if asks_too_much e then handle e s = Inl Out_Of_Bounds else \<exists>s'. handle e s = Inr s'"
  using handle_inv [OF chat_reach_inv [OF assms(1)] assms(2)] by (auto split: if_splits)

theorem server_safe_but_header_witness:
  "handle (Got_Header 0 ''0513'') example_joined = Inl Out_Of_Bounds"
  using server_safe_but_header [OF example_joined_reach, of "Got_Header 0 ''0513''"]
  by (simp add: possible_def example_joined_def asks_too_much_def from_chars_def number_def digit_val_def
      is_digit_def size_max_def header_length_def max_body_length_def)


text \<open>The bytes a participant gets are messages. Reading what was written to the connection of a session gives the
  texts of the messages delivered in the room, from the one it joined at, or up to a hundred earlier.\<close>

theorem chat_stream_readable:
  assumes "chat_reach s" "sessions s i = Some p"
  shows "\<exists>rs. read_messages new_message (concat (map wire (s_written p))) = (rs, Read_Error)
    \<and> map body_text rs = map body_text (take (length (s_written p)) (drop (joined_at p - max_recent_msgs) (room_log s)))"
proof -
  have i: "server_inv s" by (rule chat_reach_inv [OF assms(1)])
  obtain zs where z: "drop (joined_at p - max_recent_msgs) (room_log s) = s_written p @ write_msgs p @ zs"
    using server_session [OF i assms(2)] by (auto simp: session_inv_def)
  have "list_all framed (drop (joined_at p - max_recent_msgs) (room_log s))"
    using i by (auto simp: server_inv_def list_all_iff dest: in_set_dropD)
  then have "list_all framed (s_written p)" using z by simp
  from read_framed_end [OF this] show ?thesis using z by auto
qed

theorem chat_stream_readable_witness:
  "\<exists>s p rs. chat_reach s \<and> sessions s 0 = Some p
    \<and> read_messages new_message (concat (map wire (s_written p))) = (rs, Read_Error) \<and> map body_text rs = [''hi'']"
  using chat_stream_readable [OF example_reach example_facts(1)] example_facts example_reach
  by (intro exI [of _ example_server] exI [of _ example_session]) auto


text \<open>A session that cannot read stays. A header that is no number ends the reading of a session and nothing else:
  it stays in the room, and its messages go on being written.\<close>

theorem bad_header_stays:
  assumes "chat_reach s" "possible (Got_Header i cs) s" "cs = c # ds" "\<not> is_digit c"
  shows "\<exists>p p' s'. sessions s i = Some p \<and> handle (Got_Header i cs) s = Inr s' \<and> sessions s' i = Some p'
    \<and> reading p' = Not_Reading \<and> participants s' = participants s \<and> write_msgs p' = write_msgs p
    \<and> (\<forall>e. possible e s' \<longrightarrow> e \<noteq> Read_Failed i)"
proof -
  obtain p where p: "sessions s i = Some p" "length cs = header_length"
    using assms(2) by (auto simp: possible_def split: option.splits)
  have "from_chars cs 0 = (Invalid_Argument, 0)" using assms(3,4) by (simp add: from_chars_def)
  then show ?thesis
    using session_got_header_ok [OF server_session [OF chat_reach_inv [OF assms(1)] p(1)] p(2)] p
    by (auto simp: handle_def on_session_def Let_def possible_def)
qed

theorem bad_header_stays_witness:
  "\<exists>s'. handle (Got_Header 0 ''abcd'') example_joined = Inr s' \<and> participants s' = [0]
    \<and> \<not> possible (Read_Failed 0) s'"
  using bad_header_stays [OF example_joined_reach, of 0 "''abcd''" "CHR ''a''" "''bcd''"]
  by (auto simp: possible_def example_joined_def is_digit_def header_length_def)

end
