(* ===== verification/Chat_Client.thy ===== *)
theory Chat_Client
  imports Chat_Server
begin

text \<open>
  The writing of the client, \<^verbatim>\<open>src/Libraries/asio/chat/chat_client.cpp\<close>, the second writer with the contract
  \<open>outbox\<close>; its reading is \<open>read_messages\<close>. \<^verbatim>\<open>main\<close> posts a message for every line, and the context runs the
  handlers between the ends of the writes. An error closes the socket, and ends what is modelled here.
  \<open>c_in_flight\<close> is the message of the write that was started and has not ended.
\<close>

record chat_client =
  c_write_msgs :: "chat_message list"
  c_in_flight :: "chat_message option"

definition new_client :: chat_client where
  "new_client = \<lparr>c_write_msgs = [], c_in_flight = None\<rparr>"

definition client_do_write :: "chat_client \<Rightarrow> fault + chat_client" where
  "client_do_write c = (case c_write_msgs c of
       [] \<Rightarrow> Inl Out_Of_Bounds
     | m # _ \<Rightarrow> if c_in_flight c \<noteq> None then Inl Overlapping_Write
         else if message_length m \<le> length (msg_data m) then Inr (c\<lparr>c_in_flight := Some m\<rparr>) else Inl Out_Of_Bounds)"

definition client_write :: "chat_message \<Rightarrow> chat_client \<Rightarrow> fault + chat_client" where
  "client_write m c = (let write_in_progress = (c_write_msgs c \<noteq> []); c' = c\<lparr>c_write_msgs := c_write_msgs c @ [m]\<rparr> in
     if \<not> write_in_progress then client_do_write c' else Inr c')"

definition client_written :: "chat_client \<Rightarrow> fault + chat_client" where
  "client_written c = (case c_in_flight c of None \<Rightarrow> Inr c
     | Some _ \<Rightarrow> (case c_write_msgs c of [] \<Rightarrow> Inl Out_Of_Bounds
         | _ # ms \<Rightarrow> (let c' = c\<lparr>c_write_msgs := ms, c_in_flight := None\<rparr> in
             if ms \<noteq> [] then client_do_write c' else Inr c')))"

text \<open>Handlers of posted messages (\<open>Some m\<close>) and ends of writes (\<open>None\<close>), with the messages written. A write ends only
  if one was started, with the message it was started with; without a write the end of one is no event.\<close>

fun client_run :: "chat_message option list \<Rightarrow> chat_client \<Rightarrow> fault + chat_message list \<times> chat_client" where
  "client_run [] c = Inr ([], c)"
| "client_run (Some m # es) c = bnd (client_write m c) (client_run es)"
| "client_run (None # es) c = (case c_in_flight c of None \<Rightarrow> client_run es c
     | Some m \<Rightarrow> bnd (client_written c) (\<lambda>c'. bnd (client_run es c') (\<lambda>(ms, d). Inr (m # ms, d))))"

interpretation client_outbox: outbox client_write client_written c_write_msgs c_in_flight fits_msg
proof
  show "\<exists>s'. client_write m s = Inr s' \<and> c_write_msgs s' = c_write_msgs s @ [m]
      \<and> c_in_flight s' = front (c_write_msgs s')"
    if "c_in_flight s = front (c_write_msgs s)" "list_all fits_msg (m # c_write_msgs s)" for s m
    using that by (simp add: client_write_def client_do_write_def fits_msg_def front_append Let_def)
  show "\<exists>s'. client_written s = Inr s' \<and> c_write_msgs s' = ms \<and> c_in_flight s' = front ms"
    if "c_in_flight s = Some m" "c_write_msgs s = m # ms" "list_all fits_msg ms" for s m ms
    using that by (cases ms) (auto simp: client_written_def client_do_write_def fits_msg_def Let_def)
qed

lemma client_run_outbox: "client_run es c = client_outbox.run_outbox es c"
proof (induction es c rule: client_run.induct)
  case (2 m es c)
  then show ?case by (cases "client_write m c") simp_all
next
  case (3 es c)
  then show ?case by (cases "client_written c") (auto split: option.split)
qed simp

lemma lines_framed:
  assumes "map line_message ls = map Inr ms" "\<forall>l \<in> set ls. length l \<le> max_body_length - 1"
  shows "list_all framed ms \<and> map body_text ms = map (takeWhile (\<lambda>c. c \<noteq> CHR 0x00)) ls"
  using assms
proof (induction ls arbitrary: ms)
  case (Cons l ls)
  then obtain m ms' where "ms = m # ms'" "line_message l = Inr m" "map line_message ls = map Inr ms'" by auto
  then show ?case using Cons line_message_framed [of l] by auto
qed simp

text \<open>C19 (From the keyboard to the other end). In whatever order the lines are posted and the writes end, the client never
  fails and never starts a write while another is under way; what it has written and has in its queue are the
  messages of the lines, in order, and the message being written is the front of the queue. When as many writes
  have ended as there are lines, at the latest, everything is written, and the other end reads exactly the lines.\<close>

theorem client_sends_lines:
  assumes "List.map_filter (\<lambda>e. e) es = ms" "map line_message (input_lines typed) = map Inr ms"
  shows "(\<exists>ws c. client_run es new_client = Inr (ws, c) \<and> ws @ c_write_msgs c = ms
      \<and> c_in_flight c = front (c_write_msgs c))
    \<and> (\<exists>c rs. client_run (es @ replicate (length ms) None) new_client = Inr (ms, c) \<and> c_write_msgs c = []
      \<and> read_messages new_message (concat (map wire ms)) = (rs, Read_Error)
      \<and> map body_text rs = map (takeWhile (\<lambda>c. c \<noteq> CHR 0x00)) (input_lines typed))"
proof -
  have f: "list_all framed ms" "map body_text ms = map (takeWhile (\<lambda>c. c \<noteq> CHR 0x00)) (input_lines typed)"
    using lines_framed [OF assms(2)] input_lines_short by blast+
  then have "list_all fits_msg ms" using framed_fits by (auto simp: list_all_iff)
  moreover have "c_in_flight new_client = front (c_write_msgs new_client)" "c_write_msgs new_client = []"
    by (simp_all add: new_client_def)
  ultimately show ?thesis
    using client_outbox.outbox_order [of new_client es] client_outbox.outbox_empties [of new_client es "length ms"]
      assms(1) read_framed_end [OF f(1)] f(2) by (auto simp: client_run_outbox)
qed

theorem client_sends_lines_witness:
  "\<exists>m c. line_message ''hi'' = Inr m \<and> client_run [Some m, None] new_client = Inr ([m], c) \<and> c_write_msgs c = []"
proof -
  obtain m where m: "line_message ''hi'' = Inr m"
    using line_message_framed [of "''hi''"] by (auto simp: max_body_length_def)
  have "input_lines ''hi'' = [''hi'']"
    by (simp add: input_lines.simps newline_def max_body_length_def)
  then show ?thesis
    using client_sends_lines [of "[Some m]" "[m]" "''hi''"] m by (auto simp: List.map_filter_simps)
qed

end
