(* ===== verification/Olc_Net.thy ===== *)
theory Olc_Net
  imports Prelude
begin

unbundle bit_operations_syntax

text \<open>
  The networking library of \<^verbatim>\<open>src/Libraries/asio/olc/networking\<close>: the queue of \<^verbatim>\<open>net_tsqueue.h\<close>, the message
  of \<^verbatim>\<open>net_message.h\<close>, the connection of \<^verbatim>\<open>net_connection.h\<close>, the server of \<^verbatim>\<open>net_server.h\<close> and the program
  \<^verbatim>\<open>net_server.cpp\<close>. As with the chat programs, a handler runs when an operation of \<^verbatim>\<open>asio\<close> has ended; reads
  deliver as many bytes as were asked for, or fail.
\<close>

section \<open>The queue\<close>

text \<open>Every member holds the mutex from its beginning to its end. \<open>front\<close> and \<open>back\<close> of an empty deque are undefined.\<close>

definition tq_pop_front :: "'a list \<Rightarrow> fault + 'a \<times> 'a list" where
  "tq_pop_front q = (case q of [] \<Rightarrow> Inl Out_Of_Bounds | x # xs \<Rightarrow> Inr (x, xs))"

definition tq_pop_back :: "'a list \<Rightarrow> fault + 'a \<times> 'a list" where
  "tq_pop_back q = (if q = [] then Inl Out_Of_Bounds else Inr (last q, butlast q))"

definition tq_push_front :: "'a \<Rightarrow> 'a list \<Rightarrow> 'a list" where
  "tq_push_front x q = x # q"

definition tq_push_back :: "'a \<Rightarrow> 'a list \<Rightarrow> 'a list" where
  "tq_push_back x q = q @ [x]"

definition tq_empty :: "'a list \<Rightarrow> bool" where
  "tq_empty q \<longleftrightarrow> q = []"

section \<open>Messages\<close>

type_synonym byte = "8 word"

record olc_header =
  header_id :: "32 word"
  header_size :: "32 word"

record olc_message =
  header :: olc_header
  body :: "byte list"

definition olc_new :: "32 word \<Rightarrow> olc_message" where
  "olc_new i = \<lparr>header = \<lparr>header_id = i, header_size = 0\<rparr>, body = []\<rparr>"

text \<open>\<^verbatim>\<open>operator<<\<close> and \<^verbatim>\<open>operator>>\<close>; a value is its bytes. The difference of the sizes wraps around if the message is
  too short, and the copy starts outside the body.\<close>

definition push_data :: "byte list \<Rightarrow> olc_message \<Rightarrow> olc_message" where
  "push_data d m = (let b = body m @ d in
     m\<lparr>body := b, header := (header m)\<lparr>header_size := of_nat (length b)\<rparr>\<rparr>)"

definition pull_data :: "nat \<Rightarrow> olc_message \<Rightarrow> fault + byte list \<times> olc_message" where
  "pull_data n m = (if n \<le> length (body m) then Inr (drop (length (body m) - n) (body m), m) else Inl Out_Of_Bounds)"

text \<open>The bytes of a 32-bit value in memory, lowest first.\<close>

definition le_bytes :: "32 word \<Rightarrow> byte list" where
  "le_bytes w = [ucast w, ucast (drop_bit 8 w), ucast (drop_bit 16 w), ucast (drop_bit 24 w)]"

fun le_word :: "byte list \<Rightarrow> 32 word" where
  "le_word [a, b, c, d] = ucast a OR push_bit 8 (ucast b) OR push_bit 16 (ucast c) OR push_bit 24 (ucast d)"
| "le_word _ = 0"

definition header_bytes :: "olc_header \<Rightarrow> byte list" where
  "header_bytes h = le_bytes (header_id h) @ le_bytes (header_size h)"

definition header_of :: "byte list \<Rightarrow> olc_header" where
  "header_of bs = \<lparr>header_id = le_word (take 4 bs), header_size = le_word (take 4 (drop 4 bs))\<rparr>"

lemma le_bytes_length [simp]: "length (le_bytes w) = 4"
  by (simp add: le_bytes_def)

lemma le_word_bytes [simp]: "le_word (le_bytes w) = w"
proof (rule bit_word_eqI)
  fix n assume "n < LENGTH(32)"
  then consider "n < 8" | "8 \<le> n" "n < 16" | "16 \<le> n" "n < 24" | "24 \<le> n" "n < 32" by fastforce
  then show "bit (le_word (le_bytes w)) n = bit w n"
    by cases (auto simp: le_bytes_def bit_simps)
qed

lemma header_bytes_length [simp]: "length (header_bytes h) = 8"
  by (simp add: header_bytes_def)

lemma header_of_bytes [simp]: "header_of (header_bytes h) = h"
  by (simp add: header_of_def header_bytes_def)

section \<open>The connection\<close>

text \<open>
  The writing half: the queue, the message being written, and the writes under way, whose buffers are the
  header and the body of that message. \<open>wire_out\<close> has the bytes written so far.
\<close>

datatype write_op = Header_Write | Body_Write

record connection =
  queue_out :: "olc_message list"
  msg_temp_out :: olc_message
  under_way :: "write_op list"
  wire_out :: "byte list"

definition new_connection :: connection where
  "new_connection = \<lparr>queue_out = [], msg_temp_out = olc_new 0, under_way = [], wire_out = []\<rparr>"

definition write_header :: "connection \<Rightarrow> fault + connection" where
  "write_header c = bnd (tq_pop_front (queue_out c)) (\<lambda>(m, q).
     Inr (c\<lparr>queue_out := q, msg_temp_out := m, under_way := under_way c @ [Header_Write]\<rparr>))"

definition write_body :: "connection \<Rightarrow> connection" where
  "write_body c = c\<lparr>under_way := under_way c @ [Body_Write]\<rparr>"

text \<open>The handler that \<^verbatim>\<open>send\<close> posts.\<close>

definition send_handler :: "olc_message \<Rightarrow> connection \<Rightarrow> fault + connection" where
  "send_handler m c = (let writing_messages = \<not> tq_empty (queue_out c);
       c' = c\<lparr>queue_out := tq_push_back m (queue_out c)\<rparr> in
     if \<not> writing_messages then write_header c' else Inr c')"

text \<open>The first write under way ends: the bytes that its buffer holds are written, then its handler runs.\<close>

definition header_written :: "connection \<Rightarrow> fault + connection" where
  "header_written c = (if body (msg_temp_out c) \<noteq> [] then Inr (write_body c)
     else if \<not> tq_empty (queue_out c) then write_header c else Inr c)"

definition body_written :: "connection \<Rightarrow> fault + connection" where
  "body_written c = (if \<not> tq_empty (queue_out c) then write_header c else Inr c)"

definition write_done :: "connection \<Rightarrow> fault + connection" where
  "write_done c = (case under_way c of
       [] \<Rightarrow> Inr c
     | Header_Write # ws \<Rightarrow> header_written (c\<lparr>under_way := ws, wire_out := wire_out c @ header_bytes (header (msg_temp_out c))\<rparr>)
     | Body_Write # ws \<Rightarrow> body_written (c\<lparr>under_way := ws, wire_out := wire_out c @ body (msg_temp_out c)\<rparr>))"

text \<open>
  The reading half, from the bytes that arrive: the header is read into the message of the connection; if it
  promises a body, the body gets this size and is read, otherwise it stays as it is.
\<close>

function read_conn :: "olc_message \<Rightarrow> byte list \<Rightarrow> olc_message list" where
  "read_conn tmp bs =
     (if length bs < 8 then []
      else let h = header_of (take 8 bs); n = unat (header_size h); rs = drop 8 bs in
        if 0 < n
        then (if length rs < n then []
              else (let m = tmp\<lparr>header := h, body := take n rs\<rparr> in m # read_conn m (drop n rs)))
        else (let m = tmp\<lparr>header := h\<rparr> in m # read_conn m rs))"
  by pat_completeness auto
termination
  by (relation "measure (\<lambda>(m, bs). length bs)") auto

declare read_conn.simps [simp del]

text \<open>\<^verbatim>\<open>scramble\<close>, and the two ends of the validation.\<close>

definition scramble :: "64 word \<Rightarrow> 64 word" where
  "scramble input = (let out = input XOR 0xDEADBEEFC0DECAFE;
       out = drop_bit 4 (out AND 0xF0F0F0F0F0F0F0) OR push_bit 4 (out AND 0x0F0F0F0F0F0F0F) in
     out XOR 0xC0DEFACE12345678)"

definition client_answer :: "64 word \<Rightarrow> 64 word" where
  "client_answer handshake_in = scramble handshake_in"

datatype validation = Validated | Refused

definition server_validates :: "64 word \<Rightarrow> 64 word \<Rightarrow> validation" where
  "server_validates handshake_out handshake_in =
     (let handshake_check = scramble handshake_out in if handshake_in = handshake_check then Validated else Refused)"

section \<open>Writing one message at a time\<close>

definition message_ok :: "olc_message \<Rightarrow> bool" where
  "message_ok m \<longleftrightarrow> length (body m) < 2 ^ 32 \<and> header_size (header m) = of_nat (length (body m))"

definition message_bytes :: "olc_message \<Rightarrow> byte list" where
  "message_bytes m = header_bytes (header m) @ body m"

lemma push_data_ok: "length (body m) + length d < 2 ^ 32 \<Longrightarrow> message_ok (push_data d m)"
  by (simp add: message_ok_def push_data_def Let_def)

text \<open>Events on a connection: a message is posted (\<open>Some m\<close>), or the first write under way ends (\<open>None\<close>).\<close>

fun conn_run :: "olc_message option list \<Rightarrow> connection \<Rightarrow> fault + connection" where
  "conn_run [] c = Inr c"
| "conn_run (Some m # es) c = bnd (send_handler m c) (conn_run es)"
| "conn_run (None # es) c = bnd (write_done c) (conn_run es)"

lemma conn_run_append: "conn_run (es @ fs) c = bnd (conn_run es c) (conn_run fs)"
proof (induction es c rule: conn_run.induct)
  case (2 m es c)
  then show ?case by (cases "send_handler m c") simp_all
next
  case (3 es c)
  then show ?case by (cases "write_done c") simp_all
qed simp

definition idle :: "connection \<Rightarrow> bool" where
  "idle c \<longleftrightarrow> queue_out c = [] \<and> under_way c = []"

lemma one_message:
  assumes "idle c"
  shows "\<exists>c'. conn_run [Some m, None, None] c = Inr c' \<and> idle c' \<and> wire_out c' = wire_out c @ message_bytes m"
  using assms
  by (auto simp: idle_def send_handler_def tq_empty_def tq_push_back_def write_header_def tq_pop_front_def
      write_done_def header_written_def write_body_def body_written_def message_bytes_def Let_def)

text \<open>What the reader makes of the messages: one without a body gets the body of the last one that had one.\<close>

fun with_old_body :: "byte list \<Rightarrow> olc_message list \<Rightarrow> olc_message list" where
  "with_old_body b [] = []"
| "with_old_body b (m # ms) = (if body m = [] then m\<lparr>body := b\<rparr> # with_old_body b ms
     else m # with_old_body (body m) ms)"

lemma read_message_bytes:
  assumes "message_ok m"
  shows "read_conn tmp (message_bytes m @ bs) =
    (let m' = tmp\<lparr>header := header m, body := if body m = [] then body tmp else body m\<rparr> in m' # read_conn m' bs)"
proof -
  have "unat (header_size (header m)) = length (body m)"
    using assms by (simp add: message_ok_def unat_of_nat)
  then show ?thesis
    by (cases "body m") (simp_all add: read_conn.simps [of tmp] message_bytes_def Let_def)
qed

lemma read_messages_bytes:
  assumes "list_all message_ok ms"
  shows "read_conn tmp (concat (map message_bytes ms)) = with_old_body (body tmp) ms"
  using assms
proof (induction ms arbitrary: tmp)
  case (Cons m ms)
  then show ?case using read_message_bytes [of m tmp "concat (map message_bytes ms)"]
    by (auto simp: Let_def)
qed (simp add: read_conn.simps)

section \<open>The server\<close>

text \<open>
  What the server asks its connections to do; \<open>up\<close> says which sockets are open, \<open>None\<close> is a null pointer.
  \<^verbatim>\<open>message_client\<close> resets its copy of the pointer before it looks for it in the connections.
\<close>

datatype 'c server_action = Send 'c olc_message | Disconnected "'c option"

definition message_client ::
    "('c \<Rightarrow> bool) \<Rightarrow> 'c option \<Rightarrow> olc_message \<Rightarrow> 'c option list \<Rightarrow> 'c server_action list \<times> 'c option list" where
  "message_client up client m cs = (case client of
       Some c \<Rightarrow> if up c then ([Send c m], cs) else ([Disconnected client], filter (\<lambda>x. x \<noteq> None) cs)
     | None \<Rightarrow> ([Disconnected client], filter (\<lambda>x. x \<noteq> None) cs))"

fun message_loop ::
    "('c \<Rightarrow> bool) \<Rightarrow> olc_message \<Rightarrow> 'c option \<Rightarrow> 'c option list \<Rightarrow> 'c server_action list \<times> 'c option list \<times> bool" where
  "message_loop up m ignored [] = ([], [], False)"
| "message_loop up m ignored (x # xs) = (case message_loop up m ignored xs of (as, ys, invalid) \<Rightarrow>
     (case x of
        Some c \<Rightarrow> if up c then ((if x \<noteq> ignored then Send c m # as else as), x # ys, invalid)
          else (Disconnected x # as, None # ys, True)
      | None \<Rightarrow> (Disconnected x # as, None # ys, True)))"

definition message_all_clients ::
    "('c \<Rightarrow> bool) \<Rightarrow> olc_message \<Rightarrow> 'c option \<Rightarrow> 'c option list \<Rightarrow> 'c server_action list \<times> 'c option list" where
  "message_all_clients up m ignored cs = (case message_loop up m ignored cs of (as, ys, invalid) \<Rightarrow>
     (as, if invalid then filter (\<lambda>x. x \<noteq> None) ys else ys))"

text \<open>The server of \<^verbatim>\<open>net_server.cpp\<close>; \<open>client_id\<close> gives the identifier of a connection.\<close>

definition on_message :: "('c \<Rightarrow> 32 word) \<Rightarrow> ('c \<Rightarrow> bool) \<Rightarrow> 'c \<Rightarrow> olc_message \<Rightarrow> 'c option list
    \<Rightarrow> 'c server_action list \<times> 'c option list" where
  "on_message client_id up client m cs =
     (if header_id (header m) = 2 then ([Send client m], cs)
      else if header_id (header m) = 3
      then message_all_clients up (push_data (le_bytes (client_id client)) (olc_new 4)) (Some client) cs
      else ([], cs))"

text \<open>\<^verbatim>\<open>update\<close> handles at most as many messages as it is told.\<close>

primrec server_update :: "('c \<Rightarrow> 32 word) \<Rightarrow> ('c \<Rightarrow> bool) \<Rightarrow> nat \<Rightarrow> ('c \<times> olc_message) list \<Rightarrow> 'c option list
    \<Rightarrow> 'c server_action list \<times> ('c \<times> olc_message) list \<times> 'c option list" where
  "server_update client_id up 0 q cs = ([], q, cs)"
| "server_update client_id up (Suc k) q cs = (case tq_pop_front q of
       Inl _ \<Rightarrow> ([], q, cs)
     | Inr ((client, m), q') \<Rightarrow> (case on_message client_id up client m cs of (as, cs') \<Rightarrow>
         (case server_update client_id up k q' cs' of (bs, q'', cs'') \<Rightarrow> (as @ bs, q'', cs''))))"

lemma message_loop_some:
  "message_loop up m ignored (map Some cs) =
    (concat (map (\<lambda>c. if up c then (if Some c \<noteq> ignored then [Send c m] else []) else [Disconnected (Some c)]) cs),
     map (\<lambda>c. if up c then Some c else None) cs, \<not> list_all up cs)"
  by (induction cs) auto

lemma message_all_some:
  "message_all_clients up m ignored (map Some cs) =
    (concat (map (\<lambda>c. if up c then (if Some c \<noteq> ignored then [Send c m] else []) else [Disconnected (Some c)]) cs),
     map Some (filter up cs))"
proof -
  have "filter (\<lambda>x. x \<noteq> None) (map (\<lambda>c. if up c then Some c else None) cs) = map Some (filter up cs)" for cs
    by (induction cs) auto
  moreover have "list_all up cs \<Longrightarrow> map (\<lambda>c. if up c then Some c else None) cs = map Some (filter up cs)" for cs
    by (induction cs) auto
  ultimately show ?thesis by (simp add: message_all_clients_def message_loop_some)
qed

section \<open>Properties\<close>

text \<open>C37 (One message at a time arrives). If every message is sent after the last one was written, the connection carries
  their headers and bodies in order, and the other end reads these messages; but one without a body arrives
  with the body of the last message before it that had one.\<close>

theorem serial_messages_arrive:
  assumes "list_all message_ok ms"
  shows "\<exists>c. conn_run (concat (map (\<lambda>m. [Some m, None, None]) ms)) new_connection = Inr c
    \<and> wire_out c = concat (map message_bytes ms)
    \<and> read_conn (olc_new i) (wire_out c) = with_old_body [] ms"
proof -
  have "\<exists>c'. conn_run (concat (map (\<lambda>m. [Some m, None, None]) ms)) c = Inr c' \<and> idle c'
      \<and> wire_out c' = wire_out c @ concat (map message_bytes ms)" if "idle c" for c
    using that
  proof (induction ms arbitrary: c)
    case (Cons m ms)
    obtain c1 where c1: "conn_run [Some m, None, None] c = Inr c1" "idle c1" "wire_out c1 = wire_out c @ message_bytes m"
      using one_message [OF Cons.prems] by blast
    obtain c2 where "conn_run (concat (map (\<lambda>m. [Some m, None, None]) ms)) c1 = Inr c2" "idle c2"
      "wire_out c2 = wire_out c1 @ concat (map message_bytes ms)" using Cons.IH [OF c1(2)] by blast
    then show ?case using c1 conn_run_append [of "[Some m, None, None]" _ c] by simp
  qed simp
  from this [of new_connection] obtain c where
    "conn_run (concat (map (\<lambda>m. [Some m, None, None]) ms)) new_connection = Inr c"
    "wire_out c = concat (map message_bytes ms)"
    by (auto simp: idle_def new_connection_def)
  then show ?thesis using read_messages_bytes [OF assms, of "olc_new i"] by (simp add: olc_new_def)
qed

theorem serial_messages_arrive_witness:
  "\<exists>c. conn_run [Some (push_data [7] (olc_new 2)), None, None, Some (olc_new 3), None, None] new_connection = Inr c
    \<and> read_conn (olc_new 0) (wire_out c) = [push_data [7] (olc_new 2), (olc_new 3)\<lparr>body := [7]\<rparr>]"
  using serial_messages_arrive [of "[push_data [7] (olc_new 2), olc_new 3]" 0]
  by (auto simp: message_ok_def push_data_def olc_new_def Let_def)

text \<open>A message overtakes another. The queue is empty while its last message is being written, so that a message
  sent meanwhile starts a second write, and takes the place of the first one in the buffer: both writes write
  its header, and the first message is lost.\<close>

theorem second_message_overwrites:
  assumes "idle c" "body m2 \<noteq> []"
  shows "\<exists>c1 c2. conn_run [Some m1, Some m2] c = Inr c1 \<and> under_way c1 = [Header_Write, Header_Write]
    \<and> msg_temp_out c1 = m2 \<and> conn_run [None, None, None, None] c1 = Inr c2 \<and> under_way c2 = []
    \<and> wire_out c2 = wire_out c @ header_bytes (header m2) @ header_bytes (header m2) @ body m2 @ body m2"
  using assms
  by (simp add: idle_def send_handler_def tq_empty_def tq_push_back_def write_header_def tq_pop_front_def
      write_done_def header_written_def write_body_def body_written_def Let_def)

theorem second_message_overwrites_witness:
  "\<exists>c. conn_run ([Some (push_data [1] (olc_new 2)), Some (push_data [5] (olc_new 9))] @ [None, None, None, None])
      new_connection = Inr c
    \<and> wire_out c = [9, 0, 0, 0, 1, 0, 0, 0, 9, 0, 0, 0, 1, 0, 0, 0, 5, 5]"
  using second_message_overwrites [of new_connection "push_data [5] (olc_new 9)" "push_data [1] (olc_new 2)"]
    conn_run_append [of "[Some (push_data [1] (olc_new 2)), Some (push_data [5] (olc_new 9))]" "[None, None, None, None]"
      new_connection]
  by (auto simp: idle_def new_connection_def push_data_def olc_new_def header_bytes_def le_bytes_def Let_def)

text \<open>Broadcast. A message to all clients is sent once to every connected client but the one that is left out; the
  others are reported and removed. A message to one client that is not connected removes nothing, as the pointer that is
  looked for is the one that was reset.\<close>

theorem broadcast_exact:
  "message_all_clients up m ignored (map Some cs) = (as, cs') \<Longrightarrow>
    (\<forall>c. count_list as (Send c m) = (if up c \<and> Some c \<noteq> ignored then count_list cs c else 0))
    \<and> cs' = map Some (filter up cs)
    \<and> (\<not> up c \<longrightarrow> message_client up (Some c) m (map Some cs) = ([Disconnected (Some c)], map Some cs))"
proof -
  assume r: "message_all_clients up m ignored (map Some cs) = (as, cs')"
  have "count_list (concat (map (\<lambda>c. if up c then (if Some c \<noteq> ignored then [Send c m] else [])
        else [Disconnected (Some c)]) cs)) (Send d m)
      = (if up d \<and> Some d \<noteq> ignored then count_list cs d else 0)" for d
    by (induction cs) auto
  moreover have "filter (\<lambda>x. x \<noteq> None) (map Some cs) = map Some cs" by (induction cs) auto
  ultimately show ?thesis using r by (auto simp: message_all_some message_client_def)
qed

theorem broadcast_exact_witness:
  "\<exists>as. message_all_clients (\<lambda>c. c \<noteq> 2) (olc_new 4) (Some 3) (map Some [1, 2, 3 :: nat]) = (as, map Some [1, 3])
    \<and> count_list as (Send 1 (olc_new 4)) = 1 \<and> count_list as (Send 3 (olc_new 4)) = 0"
  using broadcast_exact [of "\<lambda>c. c \<noteq> 2" "olc_new 4" "Some 3" "[1, 2, 3 :: nat]"]
  by (cases "message_all_clients (\<lambda>c. c \<noteq> 2) (olc_new 4) (Some 3) (map Some [1, 2, 3 :: nat])") force

text \<open>Values go in and come out. The value put into a message last is the one taken out first; but taking it out leaves
  it there, so that the next value of that size is the same one again, whatever was put in before.\<close>

theorem pull_repeats:
  "\<exists>m'. pull_data (length d) (push_data d m) = Inr (d, m') \<and> pull_data (length d) m' = Inr (d, m')"
  by (simp add: pull_data_def push_data_def Let_def)

text \<open>The bits of the two masks.\<close>

lemma mask_bits:
  assumes "n < 64"
  shows "bit (0xF0F0F0F0F0F0F0 :: 64 word) n \<longleftrightarrow> 4 \<le> n mod 8 \<and> n < 56"
    and "bit (0x0F0F0F0F0F0F0F :: 64 word) n \<longleftrightarrow> n mod 8 < 4 \<and> n < 56"
proof -
  have n: "n \<in> set (0 # 1 # [2..<64])" using assms by (auto simp del: upt_rec_numeral)
  have "\<forall>n \<in> set (0 # 1 # [2..<64]). bit (0xF0F0F0F0F0F0F0 :: 64 word) n \<longleftrightarrow> 4 \<le> n mod 8 \<and> n < 56"
    by (simp del: set_upt)
  then show "bit (0xF0F0F0F0F0F0F0 :: 64 word) n \<longleftrightarrow> 4 \<le> n mod 8 \<and> n < 56" using n by blast
  have "\<forall>n \<in> set (0 # 1 # [2..<64]). bit (0x0F0F0F0F0F0F0F :: 64 word) n \<longleftrightarrow> n mod 8 < 4 \<and> n < 56"
    by (simp del: set_upt)
  then show "bit (0x0F0F0F0F0F0F0F :: 64 word) n \<longleftrightarrow> n mod 8 < 4 \<and> n < 56" using n by blast
qed

definition swap_nibbles :: "64 word \<Rightarrow> 64 word" where
  "swap_nibbles x = drop_bit 4 (x AND 0xF0F0F0F0F0F0F0) OR push_bit 4 (x AND 0x0F0F0F0F0F0F0F)"

text \<open>The nibbles of a byte change places.\<close>

lemma flip_up: "(n + 4) mod 8 = (if n mod 8 < 4 then n mod 8 + 4 else n mod 8 - 4)" for n :: nat
proof -
  have r: "(r + 4) mod 8 = (if r < 4 then r + 4 else r - 4)" if "r < 8" for r :: nat
  proof (cases "r < 4")
    case False
    then have "r + 4 = (r - 4) + 8" by simp
    then have "(r + 4) mod 8 = (r - 4) mod 8" by (simp only: mod_add_self2)
    then show ?thesis using that False by simp
  qed simp
  have "(n + 4) mod 8 = (n mod 8 + 4) mod 8" by (simp only: mod_add_left_eq)
  then show ?thesis using r [of "n mod 8"] by simp
qed

lemma flip_down: "4 \<le> n \<Longrightarrow> (n - 4) mod 8 = (n + 4) mod 8" for n :: nat
proof -
  assume "4 \<le> n"
  then have "n + 4 = (n - 4) + 8" by simp
  then show ?thesis by (simp only: mod_add_self2)
qed

lemma flip_le: "4 \<le> n mod 8 \<Longrightarrow> 4 \<le> n" for n :: nat
  using mod_less_eq_dividend [of n 8] by linarith

lemma flip_less: "n mod 8 < 4 \<Longrightarrow> n < 56 \<Longrightarrow> n + 4 < 56" for n :: nat
proof -
  assume n: "n mod 8 < 4" "n < 56"
  have "n = 8 * (n div 8) + n mod 8" by simp
  moreover have "n div 8 < 7" using n(2) by simp
  ultimately show "n + 4 < 56" using n(1) by linarith
qed

definition flip :: "nat \<Rightarrow> nat" where
  "flip n = (if n mod 8 < 4 then n + 4 else n - 4)"

lemma flip_flip: "flip (flip n) = n"
  using flip_up [of n] flip_down [of n] flip_le [of n] by (auto simp: flip_def)

lemma flip_range: "n < 56 \<Longrightarrow> flip n < 56"
  using flip_less [of n] by (auto simp: flip_def)

lemma swap_nibbles_bit:
  assumes "n < 64"
  shows "bit (swap_nibbles x) n \<longleftrightarrow> n < 56 \<and> (if n mod 8 < 4 then bit x (n + 4) else bit x (n - 4))"
proof -
  note up = flip_up [of n] and down = flip_down [of n] and b = flip_le [of n] and c = flip_less [of n]
  have d: "n = 8 * (n div 8) + n mod 8" by simp
  define A :: "64 word" where "A = 0xF0F0F0F0F0F0F0"
  define B :: "64 word" where "B = 0x0F0F0F0F0F0F0F"
  have m: "i < 64 \<Longrightarrow> bit A i \<longleftrightarrow> 4 \<le> i mod 8 \<and> i < 56" "i < 64 \<Longrightarrow> bit B i \<longleftrightarrow> i mod 8 < 4 \<and> i < 56" for i
    using mask_bits [of i] by (simp_all add: A_def B_def)
  have s: "bit (swap_nibbles x) n \<longleftrightarrow> bit x (n + 4) \<and> bit A (n + 4) \<or> 4 \<le> n \<and> bit x (n - 4) \<and> bit B (n - 4)"
    using assms by (simp add: swap_nibbles_def bit_simps ac_simps flip: A_def B_def)
  have far: "\<not> bit x (n + 4)" if "60 \<le> n" using that bit_imp_le_length [of x "n + 4"] by auto
  show ?thesis
  proof (cases "n mod 8 < 4")
    case True
    have "\<not> (4 \<le> n \<and> bit B (n - 4))" using m(2) [of "n - 4"] down up True assms by auto
    moreover have "n + 4 < 64 \<Longrightarrow> bit A (n + 4) \<longleftrightarrow> n < 56" using m(1) [of "n + 4"] up c True by auto
    ultimately show ?thesis using s far True by fastforce
  next
    case False
    have "n + 4 < 64 \<Longrightarrow> \<not> bit A (n + 4)" using m(1) [of "n + 4"] up False by auto
    moreover have "n mod 8 - 4 < 4" "n - 4 < 56 \<longleftrightarrow> n < 60" using mod_less_divisor [of 8 n] b False by linarith+
    then have "bit B (n - 4) \<longleftrightarrow> n < 60"
      using m(2) [OF less_imp_diff_less [OF assms]] down up b False by simp
    moreover have "n < 60 \<longleftrightarrow> n < 56" 
    proof -
      have "n < 60 \<Longrightarrow> n < 56"
        using d False by (cases "n div 8 = 7") auto
      then show ?thesis by auto
    qed
    ultimately show ?thesis using s far b False by fastforce
  qed
qed

lemma xor_same: "x XOR c = y XOR c \<longleftrightarrow> x = y" for x y c :: "64 word"
  by (auto simp: bit_eq_iff bit_simps)

lemma low_bits: "(\<forall>n<64. (n < 56 \<and> P n) = (n < 56 \<and> Q n)) \<longleftrightarrow> (\<forall>n<56. P n = Q n)" for P Q :: "nat \<Rightarrow> bool"
proof
  assume l: "\<forall>n<64. (n < 56 \<and> P n) = (n < 56 \<and> Q n)"
  show "\<forall>n<56. P n = Q n"
  proof (intro allI impI)
    fix n :: nat assume "n < 56"
    moreover from this have "n < 64" by simp
    ultimately show "P n = Q n" using l by blast
  qed
qed auto

lemma swap_nibbles_eq: "swap_nibbles x = swap_nibbles y \<longleftrightarrow> (\<forall>n < 56. bit x n = bit y n)"
proof -
  have b: "bit (swap_nibbles z) n \<longleftrightarrow> n < 56 \<and> bit z (flip n)" if "n < 64" for z n
    using swap_nibbles_bit [OF that, of z] by (simp add: flip_def)
  have "swap_nibbles x = swap_nibbles y \<longleftrightarrow> (\<forall>n < 64. bit (swap_nibbles x) n = bit (swap_nibbles y) n)"
    by (auto intro!: bit_word_eqI)
  also have "\<dots> \<longleftrightarrow> (\<forall>n < 56. bit x (flip n) = bit y (flip n))"
    by (simp add: b low_bits)
  also have "\<dots> \<longleftrightarrow> (\<forall>n < 56. bit x n = bit y n)" by (metis flip_flip flip_range)
  finally show ?thesis .
qed

lemma scramble_eq: "scramble x = scramble y \<longleftrightarrow> take_bit 56 x = take_bit 56 y"
proof -
  have "scramble z = swap_nibbles (z XOR 0xDEADBEEFC0DECAFE) XOR 0xC0DEFACE12345678" for z
    by (simp only: scramble_def swap_nibbles_def Let_def)
  then have "scramble x = scramble y \<longleftrightarrow> swap_nibbles (x XOR 0xDEADBEEFC0DECAFE) = swap_nibbles (y XOR 0xDEADBEEFC0DECAFE)"
    by (simp only: xor_same)
  also have "\<dots> \<longleftrightarrow> (\<forall>n < 56. bit x n = bit y n)"
    unfolding swap_nibbles_eq by (simp only: bit_xor_iff) blast
  also have "\<dots> \<longleftrightarrow> take_bit 56 x = take_bit 56 y"
    by (simp add: bit_eq_iff bit_simps low_bits)
  finally show ?thesis .
qed

text \<open>Validation. A client that answers with the scrambled number of the server is accepted, and any other answer is
  refused. The two masks leave out the highest byte: numbers that differ only there have the same answer, all
  others have different ones.\<close>

theorem validation_answers:
  "(server_validates n x = Validated \<longleftrightarrow> x = client_answer n)
    \<and> (client_answer n = client_answer k \<longleftrightarrow> take_bit 56 n = take_bit 56 k)"
  by (simp add: server_validates_def client_answer_def scramble_eq Let_def)

end
