(* ===== verification/Socket_Servers.thy ===== *)
theory Socket_Servers
  imports Prelude
begin

text \<open>
  The two chat servers over plain sockets, \<^verbatim>\<open>src/Libraries/sockets/low_level\<close>: one round of \<^verbatim>\<open>poll_server.cpp\<close>
  and of \<^verbatim>\<open>selectserver.cpp\<close>, from the return of \<^verbatim>\<open>poll\<close> or \<^verbatim>\<open>select\<close> to the next call. What the system calls
  return in the round is an argument.
\<close>

section \<open>The system\<close>

text \<open>
  The descriptor that \<^verbatim>\<open>accept\<close> returns, or \<open>None\<close>; what \<^verbatim>\<open>recv\<close> reads from a descriptor, or \<open>None\<close> if it returns
  0 or an error; what the calls of \<^verbatim>\<open>send\<close> return one after the other when a message of some length goes to a
  descriptor, and an error when there is no more.
\<close>

record sockets =
  accepts :: "int option"
  receives :: "int \<Rightarrow> string option"
  send_results :: "int \<Rightarrow> nat \<Rightarrow> int list"

text \<open>The loop of \<^verbatim>\<open>sendall\<close>: whether it returns 0, and the length it stores.\<close>

fun sendall :: "int list \<Rightarrow> nat \<Rightarrow> nat \<Rightarrow> bool \<times> nat" where
  "sendall ns tot len = (if tot < len
     then (case ns of [] \<Rightarrow> (False, tot)
       | n # ns' \<Rightarrow> if n = -1 then (False, tot) else sendall ns' (tot + nat n) len)
     else (True, tot))"

declare sendall.simps [simp del]

section \<open>The server with poll\<close>

text \<open>An entry has its descriptor, and whether \<^verbatim>\<open>poll\<close> found it ready. \<open>sent\<close> and \<open>closed\<close> are what the server did.\<close>

type_synonym pollfd = "int \<times> bool"

record poll_server =
  pfds :: "pollfd list"
  sent :: "(int \<times> string) list"
  closed :: "int list"

definition make_pollfd :: "int \<Rightarrow> pollfd" where
  "make_pollfd fd = (fd, False)"

definition del_from_pfds :: "nat \<Rightarrow> pollfd list \<Rightarrow> pollfd list" where
  "del_from_pfds i ps = butlast (ps[i := last ps])"

text \<open>The loop that sends to everyone; the length is an in-out parameter of \<^verbatim>\<open>sendall\<close>.\<close>

fun send_to_others :: "sockets \<Rightarrow> int \<Rightarrow> int \<Rightarrow> string \<Rightarrow> nat \<Rightarrow> int list \<Rightarrow> (int \<times> string) list" where
  "send_to_others sys listener sender buf nbytes [] = []"
| "send_to_others sys listener sender buf nbytes (dest # ds) =
     (if dest \<noteq> listener \<and> dest \<noteq> sender
      then (case sendall (send_results sys dest nbytes) 0 nbytes of (ok, tot) \<Rightarrow>
        (dest, take tot buf) # send_to_others sys listener sender buf tot ds)
      else send_to_others sys listener sender buf nbytes ds)"

definition poll_body :: "sockets \<Rightarrow> int \<Rightarrow> nat \<Rightarrow> poll_server \<Rightarrow> poll_server" where
  "poll_body sys listener i s = (let (fd, ready) = pfds s ! i in
     if ready then
       if fd = listener then
         (case accepts sys of None \<Rightarrow> s | Some newfd \<Rightarrow> s\<lparr>pfds := pfds s @ [make_pollfd newfd]\<rparr>)
       else
         (case receives sys fd of
            None \<Rightarrow> s\<lparr>pfds := del_from_pfds i (pfds s), closed := closed s @ [fd]\<rparr>
          | Some buf \<Rightarrow> s\<lparr>sent := sent s @ send_to_others sys listener fd buf (length buf) (map fst (pfds s))\<rparr>)
     else s)"

text \<open>The loop ends when the index is the size; behind it, the element is outside the vector.\<close>

definition ready_from :: "nat \<Rightarrow> poll_server \<Rightarrow> nat" where
  "ready_from i s = length (filter snd (drop i (pfds s)))"

lemma drop_del: "i < length ps \<Longrightarrow> drop (Suc i) (del_from_pfds i ps) = butlast (drop (Suc i) ps)"
  by (simp add: del_from_pfds_def drop_butlast)

lemma filter_butlast: "length (filter P (butlast xs)) \<le> length (filter P xs)"
  by (induction xs) auto

lemma ready_step:
  assumes "i < length (pfds s)"
  shows "ready_from (Suc i) (poll_body sys listener i s) < ready_from i s
    \<or> ready_from (Suc i) (poll_body sys listener i s) = ready_from i s
      \<and> length (pfds (poll_body sys listener i s)) = length (pfds s)"
proof (cases "snd (pfds s ! i)")
  case True
  have d: "drop i (pfds s) = pfds s ! i # drop (Suc i) (pfds s)" using assms by (simp add: Cons_nth_drop_Suc)
  then have r: "ready_from i s = Suc (length (filter snd (drop (Suc i) (pfds s))))" using True by (simp add: ready_from_def)
  have "ready_from (Suc i) (poll_body sys listener i s) \<le> length (filter snd (drop (Suc i) (pfds s)))"
    using True assms filter_butlast [of snd "drop (Suc i) (pfds s)"]
    by (auto simp: poll_body_def ready_from_def drop_del make_pollfd_def split: prod.splits option.splits)
  then show ?thesis using r by simp
next
  case False
  have d: "drop i (pfds s) = pfds s ! i # drop (Suc i) (pfds s)" using assms by (simp add: Cons_nth_drop_Suc)
  then show ?thesis using False by (auto simp: poll_body_def ready_from_def split: prod.splits)
qed

function poll_round :: "sockets \<Rightarrow> int \<Rightarrow> nat \<Rightarrow> poll_server \<Rightarrow> fault + poll_server" where
  "poll_round sys listener i s =
     (if i = length (pfds s) then Inr s
      else if length (pfds s) < i then Inl Out_Of_Bounds
      else poll_round sys listener (Suc i) (poll_body sys listener i s))"
  by pat_completeness auto
termination
proof (relation "measures [\<lambda>(sys, l, i, s). ready_from i s, \<lambda>(sys, l, i, s). length (pfds s) - i]")
  fix sys listener i and s :: poll_server
  assume "i \<noteq> length (pfds s)" "\<not> length (pfds s) < i"
  then have i: "i < length (pfds s)" by simp
  show "((sys, listener, Suc i, poll_body sys listener i s), (sys, listener, i, s))
      \<in> measures [\<lambda>(sys, l, i, s). ready_from i s, \<lambda>(sys, l, i, s). length (pfds s) - i]"
    using ready_step [OF i, of sys listener] i by auto
qed simp

declare poll_round.simps [simp del]

section \<open>The server with select\<close>

text \<open>The descriptors in the set \<^verbatim>\<open>master\<close>, the largest one seen, and what was sent and closed.\<close>

record select_server =
  master :: "int list"
  maxfd :: int
  s_sent :: "(int \<times> string) list"
  s_closed :: "int list"

text \<open>The loop \<^verbatim>\<open>for (int j{0}; j != maxfd; ++j)\<close>; one \<^verbatim>\<open>send\<close> for each, of which the result is only reported.\<close>

definition select_targets :: "int \<Rightarrow> int \<Rightarrow> select_server \<Rightarrow> int list" where
  "select_targets listener i s = filter (\<lambda>j. j \<in> set (master s) \<and> j \<noteq> listener \<and> j \<noteq> i) [0..maxfd s - 1]"

definition select_body :: "sockets \<Rightarrow> int \<Rightarrow> int \<Rightarrow> select_server \<Rightarrow> select_server" where
  "select_body sys listener i s =
     (if i = listener then
        (case accepts sys of None \<Rightarrow> s
         | Some newfd \<Rightarrow> s\<lparr>master := List.insert newfd (master s), maxfd := max (maxfd s) newfd\<rparr>)
      else
        (case receives sys i of
           None \<Rightarrow> s\<lparr>master := removeAll i (master s), s_closed := s_closed s @ [i]\<rparr>
         | Some buf \<Rightarrow> s\<lparr>s_sent := s_sent s @ map (\<lambda>j. (j, buf)) (select_targets listener i s)\<rparr>))"

text \<open>The descriptors up to \<^verbatim>\<open>maxfd\<close> that are set in \<^verbatim>\<open>read_fds\<close>, in order; the new one is not among them.\<close>

definition select_round :: "sockets \<Rightarrow> int \<Rightarrow> int list \<Rightarrow> select_server \<Rightarrow> select_server" where
  "select_round sys listener read_fds s =
     fold (\<lambda>i s. select_body sys listener i s) (filter (\<lambda>i. i \<in> set read_fds) [0..maxfd s]) s"

section \<open>Rounds of the server with poll\<close>

lemma poll_end: "poll_round sys listener (length (pfds s)) s = Inr s"
  by (simp add: poll_round.simps)

lemma poll_next: "i < length (pfds s) \<Longrightarrow> poll_round sys listener i s = poll_round sys listener (Suc i) (poll_body sys listener i s)"
  by (simp add: poll_round.simps [of sys listener i s])

lemma poll_skip:
  assumes "i \<le> j" "j \<le> length (pfds s)" "\<forall>k. i \<le> k \<and> k < j \<longrightarrow> \<not> snd (pfds s ! k)"
  shows "poll_round sys listener i s = poll_round sys listener j s"
  using assms
proof (induction "j - i" arbitrary: i)
  case (Suc n)
  then have "poll_body sys listener i s = s" by (auto simp: poll_body_def split: prod.splits)
  then have "poll_round sys listener i s = poll_round sys listener (Suc i) s"
    using Suc by (simp add: poll_next)
  then show ?case using Suc.hyps(1) [of "Suc i"] Suc.hyps(2) Suc.prems by simp
qed simp

definition sends_ok :: "sockets \<Rightarrow> bool" where
  "sends_ok sys \<longleftrightarrow> (\<forall>d n. sendall (send_results sys d n) 0 n = (True, n))"

lemma send_to_others_ok:
  assumes "sends_ok sys"
  shows "send_to_others sys listener sender buf n ds =
    map (\<lambda>d. (d, take n buf)) (filter (\<lambda>d. d \<noteq> listener \<and> d \<noteq> sender) ds)"
  using assms by (induction ds) (auto simp: sends_ok_def)

text \<open>What a ready client makes the server send.\<close>

definition client_sends :: "sockets \<Rightarrow> int \<Rightarrow> int list \<Rightarrow> pollfd \<Rightarrow> (int \<times> string) list" where
  "client_sends sys listener ds p = (if snd p
     then map (\<lambda>d. (d, the (receives sys (fst p)))) (filter (\<lambda>d. d \<noteq> listener \<and> d \<noteq> fst p) ds) else [])"

lemma poll_clients:
  assumes "sends_ok sys" "i \<le> length (pfds s)"
    and "\<forall>p \<in> set (drop i (pfds s)). snd p \<longrightarrow> fst p \<noteq> listener \<and> receives sys (fst p) \<noteq> None"
  shows "poll_round sys listener i s =
    Inr (s\<lparr>sent := sent s @ concat (map (client_sends sys listener (map fst (pfds s))) (drop i (pfds s)))\<rparr>)"
  using assms(2,3)
proof (induction "length (pfds s) - i" arbitrary: i s)
  case 0
  then have "i = length (pfds s)" by simp
  then show ?case using poll_end [of sys listener s] by simp
next
  case (Suc n)
  let ?p = "pfds s ! i"
  have i: "i < length (pfds s)" using Suc by simp
  have d: "drop i (pfds s) = ?p # drop (Suc i) (pfds s)" using i by (simp add: Cons_nth_drop_Suc)
  let ?s = "s\<lparr>sent := sent s @ client_sends sys listener (map fst (pfds s)) ?p\<rparr>"
  have "poll_body sys listener i s = ?s"
    using Suc.prems(2) d
    by (cases ?p) (auto simp: poll_body_def client_sends_def send_to_others_ok [OF assms(1)] split: option.splits)
  moreover have "poll_round sys listener (Suc i) ?s =
      Inr (?s\<lparr>sent := sent ?s @ concat (map (client_sends sys listener (map fst (pfds ?s))) (drop (Suc i) (pfds ?s)))\<rparr>)"
    using Suc.prems Suc.hyps(2) d i by (intro Suc.hyps(1)) auto
  ultimately show ?case using i d by (simp add: poll_next)
qed

text \<open>A client that hangs up. When a client hangs up, its entry gets the last one, which is not looked at in this
  round. If its entry was the last one itself, the index steps over the end of the vector, and the loop goes
  on outside of it.\<close>

theorem poll_hang_up:
  assumes "pfds s = xs @ (fd, True) # ys" "\<forall>p \<in> set (xs @ ys). \<not> snd p"
    and "fd \<noteq> listener" "receives sys fd = None"
  shows "poll_round sys listener 0 s = (if ys = [] then Inl Out_Of_Bounds
    else Inr (s\<lparr>pfds := xs @ last ys # butlast ys, closed := closed s @ [fd]\<rparr>))"
proof -
  let ?n = "length xs"
  let ?s = "s\<lparr>pfds := xs @ (if ys = [] then [] else last ys # butlast ys), closed := closed s @ [fd]\<rparr>"
  have "poll_round sys listener 0 s = poll_round sys listener ?n s"
    using assms(1,2) by (intro poll_skip) (auto simp: nth_append)
  also have "\<dots> = poll_round sys listener (Suc ?n) (poll_body sys listener ?n s)"
    using assms(1) by (simp add: poll_next)
  also have "poll_body sys listener ?n s = ?s"
    using assms by (simp add: poll_body_def del_from_pfds_def butlast_append)
  also have "poll_round sys listener (Suc ?n) ?s = (if ys = [] then Inl Out_Of_Bounds else Inr ?s)"
  proof (cases "ys = []")
    case True
    then show ?thesis by (simp add: poll_round.simps)
  next
    case False
    then have "\<forall>p \<in> set (last ys # butlast ys). \<not> snd p" using assms(2) by (auto dest: in_set_butlastD)
    then have "\<not> snd (pfds ?s ! k)" if "Suc ?n \<le> k" "k < length (pfds ?s)" for k
      using that False by (auto simp: nth_append simp del: nth_Cons_Suc intro: nth_mem)
    then have "poll_round sys listener (Suc ?n) ?s = poll_round sys listener (length (pfds ?s)) ?s"
      using False by (intro poll_skip) (auto simp: Suc_le_eq)
    then show ?thesis using False poll_end [of sys listener ?s] by simp
  qed
  finally show ?thesis by simp
qed

theorem poll_hang_up_witness:
  "poll_round \<lparr>accepts = None, receives = (\<lambda>_. None), send_results = (\<lambda>_ _. [])\<rparr> 3 0
    \<lparr>pfds = [(3, False), (4, False), (5, True)], sent = [], closed = []\<rparr> = Inl Out_Of_Bounds"
  using poll_hang_up [of "\<lparr>pfds = [(3, False), (4, False), (5, True)], sent = [], closed = []\<rparr>"
      "[(3, False), (4, False)]" 5 "[]" 3 "\<lparr>accepts = None, receives = (\<lambda>_. None), send_results = (\<lambda>_ _. [])\<rparr>"]
  by simp

text \<open>Everyone hears everyone. In a round in which no client hangs up and every send succeeds, a new
  connection is added first, and then what each ready client sent goes once to every other client, the new one
  included.\<close>

theorem poll_broadcast:
  assumes "pfds s = (listener, r) # cs" "sends_ok sys"
    and "\<forall>p \<in> set cs. fst p \<noteq> listener \<and> (snd p \<longrightarrow> receives sys (fst p) \<noteq> None)"
    and "new = (case accepts sys of Some fd \<Rightarrow> if r then [make_pollfd fd] else [] | None \<Rightarrow> [])"
  shows "poll_round sys listener 0 s = Inr (s\<lparr>pfds := pfds s @ new,
    sent := sent s @ concat (map (client_sends sys listener (map fst (pfds s @ new))) cs)\<rparr>)"
proof -
  let ?s = "s\<lparr>pfds := pfds s @ new\<rparr>"
  have "poll_body sys listener 0 s = ?s"
    using assms(1,4) by (auto simp: poll_body_def split: option.splits)
  then have "poll_round sys listener 0 s = poll_round sys listener 1 ?s"
    using assms(1) by (simp add: poll_next)
  also have "\<dots> = Inr (?s\<lparr>sent := sent ?s @ concat (map (client_sends sys listener (map fst (pfds ?s))) (drop 1 (pfds ?s)))\<rparr>)"
    using assms by (intro poll_clients) (auto simp: make_pollfd_def split: option.splits if_splits)
  also have "concat (map (client_sends sys listener ds) (drop 1 (pfds ?s))) = concat (map (client_sends sys listener ds) cs)" for ds
    using assms(1,4) by (auto simp: client_sends_def make_pollfd_def split: option.splits)
  finally show ?thesis by simp
qed

text \<open>A system on which every send succeeds at once.\<close>

definition example_sockets :: "int option \<Rightarrow> (int \<Rightarrow> string option) \<Rightarrow> sockets" where
  "example_sockets a r = \<lparr>accepts = a, receives = r, send_results = (\<lambda>_ n. [int n])\<rparr>"

lemma example_sends: "sends_ok (example_sockets a r)"
proof -
  have "sendall [int n] 0 n = (True, n)" for n
    by (simp add: sendall.simps [of "[int n]"] sendall.simps [of "[]"] )
  then show ?thesis by (simp add: sends_ok_def example_sockets_def)
qed

theorem poll_broadcast_witness:
  "poll_round (example_sockets (Some 7) (\<lambda>fd. Some ''hi'')) 3 0
    \<lparr>pfds = [(3, True), (4, True), (5, False)], sent = [], closed = []\<rparr> =
   Inr \<lparr>pfds = [(3, True), (4, True), (5, False), (7, False)], sent = [(5, ''hi''), (7, ''hi'')], closed = []\<rparr>"
  using poll_broadcast [of "\<lparr>pfds = [(3, True), (4, True), (5, False)], sent = [], closed = []\<rparr>" 3 True
      "[(4, True), (5, False)]" "example_sockets (Some 7) (\<lambda>fd. Some ''hi'')" "[(7, False)]"] example_sends
  by (simp add: example_sockets_def make_pollfd_def client_sends_def)


text \<open>A failed send shortens the message. When the send to a client fails after some characters, everyone behind it
  in the list gets only as many, as the length is overwritten.\<close>

theorem send_failure_shortens:
  assumes "d \<noteq> listener" "d \<noteq> sender" "sendall (send_results sys d (length buf)) 0 (length buf) = (False, k)"
    and "\<forall>e \<in> set ds. \<forall>n. sendall (send_results sys e n) 0 n = (True, n)"
  shows "send_to_others sys listener sender buf (length buf) (d # ds) =
    (d, take k buf) # map (\<lambda>e. (e, take k buf)) (filter (\<lambda>e. e \<noteq> listener \<and> e \<noteq> sender) ds)"
proof -
  have "send_to_others sys listener sender buf n ds =
      map (\<lambda>e. (e, take n buf)) (filter (\<lambda>e. e \<noteq> listener \<and> e \<noteq> sender) ds)" for n
    using assms(4) by (induction ds) auto
  then show ?thesis using assms(1-3) by simp
qed

theorem send_failure_shortens_witness:
  "send_to_others \<lparr>accepts = None, receives = (\<lambda>_. None), send_results = (\<lambda>d n. if d = 4 then [2, -1] else [int n])\<rparr>
    3 9 ''hello'' 5 [4, 5] = [(4, ''he''), (5, ''he'')]"
proof -
  have 1: "sendall [2, -1] 0 5 = (False, 2)"
    by (simp add: sendall.simps [of "[2, -1]"] sendall.simps [of "[-1]"])
  have 2: "sendall [int n] 0 n = (True, n)" for n
    by (simp add: sendall.simps [of "[int n]"] sendall.simps [of "[]"])
  show ?thesis
    using send_failure_shortens [of 4 3 9 "\<lparr>accepts = None, receives = (\<lambda>_. None),
        send_results = (\<lambda>d n. if d = 4 then [2, -1] else [int n])\<rparr>" "''hello''" 2 "[5]"] 1 2 by simp
qed


section \<open>Rounds of the server with select\<close>

text \<open>The last client hears nothing. In a round without new connections and hang-ups, what each ready client sent goes to
  the other clients whose descriptor is below the largest one. The client with the largest descriptor gets
  nothing; and of two clients, none gets anything from the one with the smaller descriptor.\<close>

theorem select_last_starves:
  assumes "listener \<notin> set read_fds" "\<forall>i \<in> set read_fds. receives sys i \<noteq> None"
  shows "select_round sys listener read_fds s = s\<lparr>s_sent := s_sent s @ concat (map (\<lambda>i.
      map (\<lambda>j. (j, the (receives sys i))) (filter (\<lambda>j. j \<noteq> i) (filter (\<lambda>j. j \<in> set (master s) \<and> j \<noteq> listener) [0..maxfd s - 1])))
      (filter (\<lambda>i. i \<in> set read_fds) [0..maxfd s]))\<rparr>"
proof -
  let ?out = "\<lambda>i. map (\<lambda>j. (j, the (receives sys i))) (select_targets listener i s)"
  have "fold (\<lambda>i s. select_body sys listener i s) is t = t\<lparr>s_sent := s_sent t @ concat (map ?out is)\<rparr>"
    if "set is \<subseteq> set read_fds" "master t = master s" "maxfd t = maxfd s" for "is" t
    using that
  proof (induction "is" arbitrary: t)
    case (Cons i "is")
    have "receives sys i \<noteq> None" "i \<noteq> listener" using Cons.prems(1) assms by auto
    then have "select_body sys listener i t = t\<lparr>s_sent := s_sent t @ ?out i\<rparr>"
      using Cons.prems(2,3) by (auto simp: select_body_def select_targets_def)
    then show ?case using Cons by simp
  qed simp
  from this [of "filter (\<lambda>i. i \<in> set read_fds) [0..maxfd s]" s] have "select_round sys listener read_fds s =
      s\<lparr>s_sent := s_sent s @ concat (map ?out (filter (\<lambda>i. i \<in> set read_fds) [0..maxfd s]))\<rparr>"
    by (auto simp: select_round_def)
  then show ?thesis by (simp add: select_targets_def conj_assoc)
qed

theorem select_last_starves_witness:
  "select_round (example_sockets None (\<lambda>fd. Some ''hi'')) 3 [4, 5]
    \<lparr>master = [3, 4, 5], maxfd = 5, s_sent = [], s_closed = []\<rparr> =
   \<lparr>master = [3, 4, 5], maxfd = 5, s_sent = [(4, ''hi'')], s_closed = []\<rparr>"
  using select_last_starves [of 3 "[4, 5]" "example_sockets None (\<lambda>fd. Some ''hi'')"
      "\<lparr>master = [3, 4, 5], maxfd = 5, s_sent = [], s_closed = []\<rparr>"]
  by (simp add: example_sockets_def upto_rec1)


end
