(* ===== verification/Snake_Game.thy ===== *)
theory Snake_Game
  imports Prelude
begin

text \<open>
  The game of \<^verbatim>\<open>src/Libraries/qt5/zetcode/Ch13_Snake/snake.cpp\<close>: the handlers of the keys and of the timer, without
  the drawing. A place of the arrays is \<open>None\<close> until it is written; its value is indeterminate, and a read of it is
  undefined behaviour (\<open>Uninitialised\<close>). What the arrays hold at the beginning is an argument of \<open>new_snake\<close>: all \<open>None\<close> is what
  the language says of the program, and \<open>Some\<close> a value that happens to be in the memory. The places of the apple, which
  the generator of \<^verbatim>\<open>Qt\<close> chooses, come with the events.
\<close>

section \<open>The state\<close>

definition board_size :: int where
  "board_size = 300"

definition dot_size :: int where
  "dot_size = 10"

definition all_dots :: nat where
  "all_dots = 900"

definition rand_pos :: int where
  "rand_pos = 29"

record snake =
  dots :: nat
  apple_x :: int
  apple_y :: int
  xs :: "int option list"
  ys :: "int option list"
  left_dir :: bool
  right_dir :: bool
  up_dir :: bool
  down_dir :: bool
  in_game :: bool

definition locate_apple :: "int \<Rightarrow> int \<Rightarrow> snake \<Rightarrow> snake" where
  "locate_apple rx ry s = s\<lparr>apple_x := rx * dot_size, apple_y := ry * dot_size\<rparr>"

definition new_snake :: "int option list \<Rightarrow> int option list \<Rightarrow> int \<Rightarrow> int \<Rightarrow> snake" where
  "new_snake jx jy rx ry = locate_apple rx ry
     \<lparr>dots = 3, apple_x = 0, apple_y = 0,
      xs = foldl (\<lambda>a z. a[z := Some (50 - int z * 10)]) jx [0, 1, 2], ys = foldl (\<lambda>a z. a[z := Some 50]) jy [0, 1, 2],
      left_dir = False, right_dir = True, up_dir = False, down_dir = False, in_game = True\<rparr>"

text \<open>An access to a place of an array.\<close>

definition read_place :: "nat \<Rightarrow> int option list \<Rightarrow> fault + int" where
  "read_place z a = (if z < length a then (case a ! z of None \<Rightarrow> Inl Uninitialised | Some v \<Rightarrow> Inr v)
     else Inl Out_Of_Bounds)"

definition write_place :: "nat \<Rightarrow> int \<Rightarrow> int option list \<Rightarrow> fault + int option list" where
  "write_place z v a = (if z < length a then Inr (a[z := Some v]) else Inl Out_Of_Bounds)"

section \<open>Keys\<close>

datatype key = Key_Left | Key_Right | Key_Up | Key_Down | Other_Key

definition key_press :: "key \<Rightarrow> snake \<Rightarrow> snake" where
  "key_press k s = (case k of
       Key_Left \<Rightarrow> if \<not> right_dir s then s\<lparr>left_dir := True, up_dir := False, down_dir := False\<rparr> else s
     | Key_Right \<Rightarrow> if \<not> left_dir s then s\<lparr>right_dir := True, up_dir := False, down_dir := False\<rparr> else s
     | Key_Up \<Rightarrow> if \<not> down_dir s then s\<lparr>up_dir := True, right_dir := False, left_dir := False\<rparr> else s
     | Key_Down \<Rightarrow> if \<not> up_dir s then s\<lparr>down_dir := True, right_dir := False, left_dir := False\<rparr> else s
     | Other_Key \<Rightarrow> s)"

section \<open>The timer\<close>

text \<open>\<open>x_[0] == a && y_[0] == b\<close>: the second half is evaluated only where the first is true.\<close>

definition head_at :: "(snake \<Rightarrow> fault + int) \<Rightarrow> (snake \<Rightarrow> fault + int) \<Rightarrow> snake \<Rightarrow> fault + bool" where
  "head_at a b s = bnd (read_place 0 (xs s)) (\<lambda>x. bnd (a s) (\<lambda>x'.
     if x = x' then bnd (read_place 0 (ys s)) (\<lambda>y. bnd (b s) (\<lambda>y'. Inr (y = y'))) else Inr False))"

definition check_apple :: "int \<Rightarrow> int \<Rightarrow> snake \<Rightarrow> fault + snake" where
  "check_apple rx ry s = bnd (head_at (\<lambda>s. Inr (apple_x s)) (\<lambda>s. Inr (apple_y s)) s) (\<lambda>eaten.
     Inr (if eaten then locate_apple rx ry (s\<lparr>dots := dots s + 1\<rparr>) else s))"

fun bite_loop :: "nat \<Rightarrow> snake \<Rightarrow> fault + snake" where
  "bite_loop 0 s = Inr s"
| "bite_loop (Suc n) s = (let z = Suc n in
     if 4 < z then bnd (head_at (\<lambda>s. read_place z (xs s)) (\<lambda>s. read_place z (ys s)) s) (\<lambda>bitten.
       bite_loop n (if bitten then s\<lparr>in_game := False\<rparr> else s))
     else bite_loop n s)"

definition outside :: "int \<Rightarrow> int \<Rightarrow> bool" where
  "outside x y \<longleftrightarrow> board_size \<le> y \<or> y < 0 \<or> board_size \<le> x \<or> x < 0"

definition check_collision :: "snake \<Rightarrow> fault + snake" where
  "check_collision s = bnd (bite_loop (dots s) s) (\<lambda>s'.
     bnd (read_place 0 (ys s')) (\<lambda>y. bnd (read_place 0 (xs s')) (\<lambda>x.
       Inr (if outside x y then s'\<lparr>in_game := False\<rparr> else s'))))"

fun follow_loop :: "nat \<Rightarrow> snake \<Rightarrow> fault + snake" where
  "follow_loop 0 s = Inr s"
| "follow_loop (Suc n) s = (let z = Suc n in
     bnd (read_place (z - 1) (xs s)) (\<lambda>x. bnd (write_place z x (xs s)) (\<lambda>X.
     bnd (read_place (z - 1) (ys s)) (\<lambda>y. bnd (write_place z y (ys s)) (\<lambda>Y.
       follow_loop n (s\<lparr>xs := X, ys := Y\<rparr>))))))"

definition change_place :: "bool \<Rightarrow> int \<Rightarrow> int option list \<Rightarrow> fault + int option list" where
  "change_place b d a = (if b then bnd (read_place 0 a) (\<lambda>v. write_place 0 (v + d) a) else Inr a)"

definition step_head :: "snake \<Rightarrow> fault + snake" where
  "step_head s =
     bnd (change_place (left_dir s) (- dot_size) (xs s)) (\<lambda>X. bnd (change_place (right_dir s) dot_size X) (\<lambda>X.
     bnd (change_place (up_dir s) (- dot_size) (ys s)) (\<lambda>Y. bnd (change_place (down_dir s) dot_size Y) (\<lambda>Y.
       Inr (s\<lparr>xs := X, ys := Y\<rparr>)))))"

definition move :: "snake \<Rightarrow> fault + snake" where
  "move s = bnd (follow_loop (dots s) s) step_head"

definition timer_event :: "int \<Rightarrow> int \<Rightarrow> snake \<Rightarrow> fault + snake" where
  "timer_event rx ry s = (if in_game s then bnd (check_apple rx ry s) (\<lambda>s. bnd (check_collision s) move) else Inr s)"

datatype snake_event = Key_Press key | Timer int int

fun play :: "snake_event list \<Rightarrow> snake \<Rightarrow> fault + snake" where
  "play [] s = Inr s"
| "play (Key_Press k # es) s = play es (key_press k s)"
| "play (Timer rx ry # es) s = bnd (timer_event rx ry s) (play es)"

section \<open>The loops\<close>

definition is_set :: "nat \<Rightarrow> snake \<Rightarrow> bool" where
  "is_set z s \<longleftrightarrow> xs s ! z \<noteq> None \<and> ys s ! z \<noteq> None"

definition sized :: "snake \<Rightarrow> bool" where
  "sized s \<longleftrightarrow> length (xs s) = all_dots \<and> length (ys s) = all_dots"

lemma read_place_set:
  "sized s \<Longrightarrow> z < all_dots \<Longrightarrow> is_set z s
    \<Longrightarrow> read_place z (xs s) = Inr (the (xs s ! z)) \<and> read_place z (ys s) = Inr (the (ys s ! z))"
  by (auto simp: read_place_def is_set_def sized_def)

definition same_place :: "nat \<Rightarrow> snake \<Rightarrow> bool" where
  "same_place z s \<longleftrightarrow> xs s ! 0 = xs s ! z \<and> ys s ! 0 = ys s ! z"

lemma head_at_place:
  assumes "sized s" "is_set 0 s" "z < all_dots"
  shows "case head_at (\<lambda>s. read_place z (xs s)) (\<lambda>s. read_place z (ys s)) s of
     Inr b \<Rightarrow> b = same_place z s | Inl e \<Rightarrow> e = Uninitialised \<and> \<not> is_set z s"
  using assms read_place_set [OF assms(1) _ assms(2)]
  by (auto simp: head_at_def read_place_def same_place_def sized_def is_set_def all_dots_def split: option.splits)

lemma head_at_set:
  assumes "sized s" "is_set 0 s" "z < all_dots" "is_set z s"
  shows "head_at (\<lambda>s. read_place z (xs s)) (\<lambda>s. read_place z (ys s)) s = Inr (same_place z s)"
  using head_at_place [OF assms(1-3)] assms(4) by (auto split: sum.splits)

definition bites :: "snake \<Rightarrow> nat \<Rightarrow> bool" where
  "bites s n \<longleftrightarrow> (\<exists>z. 4 < z \<and> z \<le> n \<and> same_place z s)"

lemma bites_Suc: "bites s (Suc n) \<longleftrightarrow> bites s n \<or> 4 < Suc n \<and> same_place (Suc n) s"
  unfolding bites_def le_Suc_eq by blast

lemma in_game_same [simp]:
  "sized (s\<lparr>in_game := b\<rparr>) = sized s" "is_set z (s\<lparr>in_game := b\<rparr>) = is_set z s"
  "same_place z (s\<lparr>in_game := b\<rparr>) = same_place z s" "bites (s\<lparr>in_game := b\<rparr>) n = bites s n"
  by (simp_all add: sized_def is_set_def same_place_def bites_def)

lemma bite_loop_eq:
  assumes "n < all_dots" "sized s" "\<forall>z \<le> n. 4 < z \<longrightarrow> is_set z s" "is_set 0 s"
  shows "bite_loop n s = Inr (if bites s n then s\<lparr>in_game := False\<rparr> else s)"
  using assms
proof (induction n arbitrary: s)
  case (Suc n)
  then show ?case by (simp add: Let_def head_at_set bites_Suc)
qed (simp add: bites_def)

text \<open>Where only the last place may be unset, nothing but its read can fail.\<close>

lemma bite_loop_last:
  assumes "Suc n < all_dots" "sized s" "\<forall>z \<le> n. is_set z s"
  shows "case bite_loop (Suc n) s of
     Inr t \<Rightarrow> t = (if bites s (Suc n) then s\<lparr>in_game := False\<rparr> else s)
   | Inl e \<Rightarrow> e = Uninitialised \<and> 4 < Suc n \<and> \<not> is_set (Suc n) s"
proof (cases "4 < Suc n")
  case True
  have 0: "is_set 0 s" using assms(3) by simp
  let ?h = "head_at (\<lambda>s. read_place (Suc n) (xs s)) (\<lambda>s. read_place (Suc n) (ys s)) s"
  have "bite_loop n t = Inr (if bites t n then t\<lparr>in_game := False\<rparr> else t)"
    if "t = s \<or> t = s\<lparr>in_game := False\<rparr>" for t
    using bite_loop_eq [of n t] assms 0 that by auto
  then show ?thesis
    using True head_at_place [OF assms(2) 0 assms(1)] by (cases ?h) (auto simp: Let_def bites_Suc)
qed (use bite_loop_eq [of n s] assms in \<open>auto simp: Let_def bites_Suc\<close>)

definition pushed :: "nat \<Rightarrow> 'a list \<Rightarrow> 'a list" where
  "pushed n a = take 1 a @ take n a @ drop (Suc n) a"

lemma pushed_length: "n < length a \<Longrightarrow> length (pushed n a) = length a"
  by (simp add: pushed_def)

lemma pushed_nth:
  assumes "n < length a" "i < length a"
  shows "pushed n a ! i = (if i = 0 then a ! 0 else if i \<le> n then a ! (i - 1) else a ! i)"
proof (cases i)
  case (Suc j)
  have "pushed n a ! i = (take n a @ drop (Suc n) a) ! j"
    using assms Suc by (cases a) (simp_all add: pushed_def)
  also have "\<dots> = (if j < n then a ! j else a ! i)"
    using assms Suc by (simp add: nth_append)
  finally show ?thesis using Suc by auto
qed (use assms in \<open>cases a; simp add: pushed_def\<close>)

lemma pushed_step:
  assumes "Suc n < length a"
  shows "pushed n (a[Suc n := a ! n]) = pushed (Suc n) a"
proof (rule nth_equalityI)
  fix i assume "i < length (pushed n (a[Suc n := a ! n]))"
  then have "i < length a" using assms by (simp add: pushed_length)
  then show "pushed n (a[Suc n := a ! n]) ! i = pushed (Suc n) a ! i"
    using assms by (auto simp: pushed_nth nth_list_update le_Suc_eq)
qed (use assms in \<open>simp add: pushed_length\<close>)

lemma follow_loop_eq:
  assumes "n < all_dots" "sized s" "\<forall>z < n. is_set z s"
  shows "follow_loop n s = Inr (s\<lparr>xs := pushed n (xs s), ys := pushed n (ys s)\<rparr>)"
  using assms
proof (induction n arbitrary: s)
  case 0
  then show ?case by (cases "xs s"; cases "ys s") (auto simp: pushed_def sized_def all_dots_def)
next
  case (Suc n)
  let ?s = "s\<lparr>xs := (xs s)[Suc n := xs s ! n], ys := (ys s)[Suc n := ys s ! n]\<rparr>"
  have r: "read_place n (xs s) = Inr (the (xs s ! n))" "read_place n (ys s) = Inr (the (ys s ! n))"
    "Some (the (xs s ! n)) = xs s ! n" "Some (the (ys s ! n)) = ys s ! n"
    using Suc.prems read_place_set [of s n] by (auto simp: is_set_def)
  have "sized ?s" "\<forall>z < n. is_set z ?s"
    using Suc.prems by (auto simp: sized_def is_set_def nth_list_update)
  then have "follow_loop n ?s = Inr (?s\<lparr>xs := pushed n (xs ?s), ys := pushed n (ys ?s)\<rparr>)"
    using Suc.prems by (intro Suc.IH) simp_all
  then show ?case using Suc.prems r by (simp add: Let_def pushed_step write_place_def sized_def)
qed

text \<open>The copy of an unset place.\<close>

lemma follow_loop_unset:
  assumes "Suc n < all_dots" "sized s" "\<not> is_set n s"
  shows "follow_loop (Suc n) s = Inl Uninitialised"
  using assms
  by (cases "xs s ! n"; cases "ys s ! n") (auto simp: read_place_def write_place_def is_set_def sized_def Let_def)

section \<open>The invariant\<close>

definition one_direction :: "snake \<Rightarrow> bool" where
  "one_direction s \<longleftrightarrow> filter (\<lambda>b. b) [left_dir s, right_dir s, up_dir s, down_dir s] = [True]"

definition px :: "snake \<Rightarrow> nat \<Rightarrow> int" where
  "px s z = the (xs s ! z)"

definition py :: "snake \<Rightarrow> nat \<Rightarrow> int" where
  "py s z = the (ys s ! z)"

definition in_range :: "int \<Rightarrow> snake \<Rightarrow> bool" where
  "in_range k s \<longleftrightarrow> - k \<le> px s 0 \<and> px s 0 < board_size + k \<and> - k \<le> py s 0 \<and> py s 0 < board_size + k"

text \<open>
  The snake on the board is the first \<open>dots\<close> places: each was written, is one dot away from the one before, and on the
  grid.
\<close>

definition chain :: "nat \<Rightarrow> snake \<Rightarrow> bool" where
  "chain n s \<longleftrightarrow> (\<forall>z < n. is_set z s \<and> dot_size dvd px s z \<and> dot_size dvd py s z)
    \<and> (\<forall>z. Suc z < n \<longrightarrow> \<bar>px s z - px s (Suc z)\<bar> + \<bar>py s z - py s (Suc z)\<bar> = dot_size)"

text \<open>
  From the first move on the place behind the tail was written too; what lies behind it never was, and has what the arrays
  had at the beginning.
\<close>

definition snake_inv :: "int option list \<Rightarrow> int option list \<Rightarrow> snake \<Rightarrow> bool" where
  "snake_inv jx jy s \<longleftrightarrow> sized s \<and> 3 \<le> dots s \<and> dots s < all_dots
     \<and> one_direction s \<and> chain (dots s) s \<and> in_range 20 s \<and> (in_game s \<longrightarrow> in_range 10 s)
     \<and> (dots s = 3 \<or> is_set (dots s) s)
     \<and> (\<forall>z. dots s < z \<and> z < all_dots \<longrightarrow> xs s ! z = jx ! z \<and> ys s ! z = jy ! z)"

lemma new_snake_inv:
  assumes "length jx = all_dots" "length jy = all_dots"
  shows "snake_inv jx jy (new_snake jx jy rx ry)"
proof -
  have c: "chain 3 (new_snake jx jy rx ry)"
    using assms by (auto simp: chain_def is_set_def px_def py_def new_snake_def locate_apple_def all_dots_def
        dot_size_def nth_list_update numeral_3_eq_3 less_Suc_eq)
  then show ?thesis
    using assms by (auto simp: snake_inv_def sized_def new_snake_def locate_apple_def one_direction_def in_range_def
        px_def py_def all_dots_def board_size_def)
qed

lemma key_press_inv: "snake_inv jx jy s \<Longrightarrow> snake_inv jx jy (key_press k s)"
  by (cases k) (auto simp: snake_inv_def sized_def key_press_def one_direction_def chain_def is_set_def in_range_def
      px_def py_def split: if_splits)

lemma one_direction_move:
  assumes "one_direction s"
  shows "\<exists>dx dy. (- (if left_dir s then dot_size else 0) + (if right_dir s then dot_size else 0)) = dx
    \<and> (- (if up_dir s then dot_size else 0) + (if down_dir s then dot_size else 0)) = dy
    \<and> \<bar>dx\<bar> + \<bar>dy\<bar> = dot_size \<and> dot_size dvd dx \<and> dot_size dvd dy"
  using assms by (auto simp: one_direction_def dot_size_def split: if_splits)

definition go_x :: "snake \<Rightarrow> int" where
  "go_x s = - (if left_dir s then dot_size else 0) + (if right_dir s then dot_size else 0)"

definition go_y :: "snake \<Rightarrow> int" where
  "go_y s = - (if up_dir s then dot_size else 0) + (if down_dir s then dot_size else 0)"

lemma change_place_eq:
  assumes "a \<noteq> []" "a ! 0 = Some v"
  shows "change_place b d a = Inr (a[0 := Some (v + (if b then d else 0))])"
  using assms list_update_id [of a 0] by (auto simp: change_place_def read_place_def write_place_def)

lemma step_head_eq:
  assumes "sized s" "is_set 0 s"
  shows "step_head s = Inr (s\<lparr>xs := (xs s)[0 := Some (px s 0 + go_x s)], ys := (ys s)[0 := Some (py s 0 + go_y s)]\<rparr>)"
proof -
  have n: "xs s \<noteq> []" "ys s \<noteq> []" using assms(1) by (auto simp: sized_def all_dots_def)
  obtain x y where "xs s ! 0 = Some x" "ys s ! 0 = Some y" using assms(2) by (auto simp: is_set_def)
  then show ?thesis
    using n by (simp add: step_head_def change_place_eq px_def py_def go_x_def go_y_def)
qed

section \<open>A tick\<close>

text \<open>The apple is eaten: the head is on it.\<close>

definition eats :: "snake \<Rightarrow> bool" where
  "eats s \<longleftrightarrow> xs s ! 0 = Some (apple_x s) \<and> ys s ! 0 = Some (apple_y s)"

definition after_apple :: "int \<Rightarrow> int \<Rightarrow> snake \<Rightarrow> snake" where
  "after_apple rx ry s = (if eats s then locate_apple rx ry (s\<lparr>dots := dots s + 1\<rparr>) else s)"

lemma check_apple_eq: "sized s \<Longrightarrow> is_set 0 s \<Longrightarrow> check_apple rx ry s = Inr (after_apple rx ry s)"
  by (auto simp: check_apple_def head_at_def read_place_def sized_def is_set_def all_dots_def eats_def after_apple_def)

lemma after_apple_same:
  "xs (after_apple rx ry s) = xs s" "ys (after_apple rx ry s) = ys s" "in_game (after_apple rx ry s) = in_game s"
  "left_dir (after_apple rx ry s) = left_dir s" "right_dir (after_apple rx ry s) = right_dir s"
  "up_dir (after_apple rx ry s) = up_dir s" "down_dir (after_apple rx ry s) = down_dir s"
  "dots (after_apple rx ry s) = (if eats s then Suc (dots s) else dots s)"
  by (simp_all add: after_apple_def locate_apple_def)

lemma after_apple_facts:
  "sized (after_apple rx ry s) = sized s" "is_set z (after_apple rx ry s) = is_set z s"
  "px (after_apple rx ry s) = px s" "py (after_apple rx ry s) = py s"
  "go_x (after_apple rx ry s) = go_x s" "go_y (after_apple rx ry s) = go_y s"
  "same_place z (after_apple rx ry s) = same_place z s"
  by (simp_all add: sized_def is_set_def px_def py_def go_x_def go_y_def same_place_def after_apple_same fun_eq_iff)

text \<open>The state after a tick without a fault.\<close>

definition ticked :: "int \<Rightarrow> int \<Rightarrow> snake \<Rightarrow> snake" where
  "ticked rx ry s = (let t = after_apple rx ry s in
     t\<lparr>xs := (pushed (dots t) (xs s))[0 := Some (px s 0 + go_x s)], ys := (pushed (dots t) (ys s))[0 := Some (py s 0 + go_y s)],
       in_game := \<not> bites s (dots t) \<and> \<not> outside (px s 0) (py s 0)\<rparr>)"

lemma updates_swap: "s\<lparr>in_game := b, xs := X, ys := Y\<rparr> = s\<lparr>xs := X, ys := Y, in_game := b\<rparr>"
  by (cases s) simp

lemma collision_eq:
  assumes "sized t" "is_set 0 t" "in_game t" "bite_loop (dots t) t = Inr (if bites t (dots t) then t\<lparr>in_game := False\<rparr> else t)"
  shows "check_collision t = Inr (t\<lparr>in_game := \<not> bites t (dots t) \<and> \<not> outside (px t 0) (py t 0)\<rparr>)"
proof -
  have "t\<lparr>in_game := True\<rparr> = t" using assms(3) by (cases t) simp
  moreover have "read_place 0 (xs t) = Inr (px t 0)" "read_place 0 (ys t) = Inr (py t 0)"
    using read_place_set [OF assms(1) _ assms(2)] by (simp_all add: px_def py_def all_dots_def)
  ultimately show ?thesis using assms(4) by (simp add: check_collision_def)
qed

lemma move_eq:
  assumes "sized t" "0 < dots t" "dots t < all_dots" "\<forall>z < dots t. is_set z t"
  shows "move t = Inr (t\<lparr>xs := (pushed (dots t) (xs t))[0 := Some (px t 0 + go_x t)],
    ys := (pushed (dots t) (ys t))[0 := Some (py t 0 + go_y t)]\<rparr>)"
proof -
  let ?t = "t\<lparr>xs := pushed (dots t) (xs t), ys := pushed (dots t) (ys t)\<rparr>"
  have p0: "xs ?t ! 0 = xs t ! 0" "ys ?t ! 0 = ys t ! 0" "sized ?t"
    using assms by (simp_all add: sized_def pushed_nth pushed_length)
  then have "is_set 0 ?t" "px ?t 0 = px t 0" "py ?t 0 = py t 0" "go_x ?t = go_x t" "go_y ?t = go_y t"
    using assms(2,4) by (simp_all add: is_set_def px_def py_def go_x_def go_y_def)
  then show ?thesis
    using follow_loop_eq [OF assms(3,1,4)] step_head_eq [OF p0(3)] by (simp add: move_def)
qed

lemma timer_event_eq:
  assumes s: "snake_inv jx jy s" "in_game s" and d: "dots (after_apple rx ry s) < all_dots"
    and f: "\<forall>z < dots (after_apple rx ry s). is_set z s"
    and b: "bite_loop (dots (after_apple rx ry s)) (after_apple rx ry s) =
      Inr (if bites s (dots (after_apple rx ry s)) then (after_apple rx ry s)\<lparr>in_game := False\<rparr> else after_apple rx ry s)"
  shows "timer_event rx ry s = Inr (ticked rx ry s)"
proof -
  define t where "t = after_apple rx ry s"
  have z: "sized s" "is_set 0 s" "3 \<le> dots s" using s(1) by (auto simp: snake_inv_def chain_def)
  have bt: "bites t n = bites s n" for n by (simp add: bites_def t_def after_apple_facts)
  have t: "sized t" "is_set 0 t" "in_game t" "px t = px s" "py t = py s" "go_x t = go_x s" "go_y t = go_y s"
    "xs t = xs s" "ys t = ys s" "3 \<le> dots t" "dots t < all_dots" "\<forall>z < dots t. is_set z t"
    using z s(2) d f by (simp_all add: t_def after_apple_facts after_apple_same)
  let ?u = "t\<lparr>in_game := \<not> bites s (dots t) \<and> \<not> outside (px s 0) (py s 0)\<rparr>"
  have c: "check_collision t = Inr ?u"
    using collision_eq [OF t(1-3)] b bt t(4,5) by (simp add: t_def [symmetric])
  have u: "px ?u = px t" "py ?u = py t" "go_x ?u = go_x t" "go_y ?u = go_y t"
    by (simp_all add: px_def py_def go_x_def go_y_def fun_eq_iff)
  have "move ?u = Inr (ticked rx ry s)"
    using move_eq [of ?u] t u by (simp add: ticked_def t_def [symmetric] Let_def updates_swap)
  then show ?thesis using c s(2) check_apple_eq [OF z(1,2)] by (simp add: timer_event_def t_def)
qed

lemma ticked_inv:
  assumes i: "snake_inv jx jy s" "in_game s" and d: "dots (after_apple rx ry s) < all_dots"
    and f: "\<forall>z < dots (after_apple rx ry s). is_set z s"
  shows "snake_inv jx jy (ticked rx ry s)"
proof -
  define t where "t = after_apple rx ry s"
  let ?r = "ticked rx ry s"
  have dt: "dots s \<le> dots t" "dots t \<le> Suc (dots s)" "dots t < all_dots" "3 \<le> dots t"
    using d i(1) by (simp_all add: t_def after_apple_same snake_inv_def)
  have ch: "chain (dots s) s" and len: "length (xs s) = all_dots" "length (ys s) = all_dots"
    using i by (simp_all add: snake_inv_def sized_def)
  have m: "\<bar>go_x s\<bar> + \<bar>go_y s\<bar> = dot_size" "dot_size dvd go_x s" "dot_size dvd go_y s"
    using i one_direction_move [of s] by (auto simp: snake_inv_def go_x_def go_y_def)
  have r: "dots ?r = dots t" "in_game ?r \<Longrightarrow> \<not> outside (px s 0) (py s 0)" "one_direction ?r = one_direction s"
    by (simp_all add: ticked_def Let_def t_def one_direction_def after_apple_same)
  have X: "xs ?r ! z = (if z = 0 then Some (px s 0 + go_x s) else if z \<le> dots t then xs s ! (z - 1) else xs s ! z)"
    "ys ?r ! z = (if z = 0 then Some (py s 0 + go_y s) else if z \<le> dots t then ys s ! (z - 1) else ys s ! z)"
    if "z < all_dots" for z
    using that len dt by (simp_all add: ticked_def Let_def t_def [symmetric] pushed_nth pushed_length nth_list_update)
  have P: "px ?r z = (if z = 0 then px s 0 + go_x s else px s (z - 1))"
    "py ?r z = (if z = 0 then py s 0 + go_y s else py s (z - 1))" if "z \<le> dots t" for z
    using X [of z] that dt by (simp_all add: px_def py_def)
  have set: "is_set z ?r" if "z \<le> dots t" for z
    using X [of z] that dt f by (cases z) (simp_all add: is_set_def t_def)
  have "chain (dots t) ?r"
    unfolding chain_def
  proof (intro conjI allI impI)
    fix z assume z: "Suc z < dots t"
    then show "\<bar>px ?r z - px ?r (Suc z)\<bar> + \<bar>py ?r z - py ?r (Suc z)\<bar> = dot_size"
      using P [of z] P [of "Suc z"] dt m(1) ch by (cases z) (auto simp: chain_def)
  next
    fix z assume z: "z < dots t"
    have "dot_size dvd px s 0 \<and> dot_size dvd py s 0" using ch i by (auto simp: chain_def snake_inv_def)
    then show "dot_size dvd px ?r z" "dot_size dvd py ?r z"
      using P [of z] z dt m(2,3) ch by (cases z; auto simp: chain_def)+
  qed (simp add: set)
  moreover have "xs ?r ! z = jx ! z \<and> ys ?r ! z = jy ! z" if "dots t < z" "z < all_dots" for z
    using X [OF that(2)] i dt that by (simp add: snake_inv_def)
  moreover have "in_range 10 s" using i by (simp add: snake_inv_def)
  then have "in_range 20 ?r" "in_game ?r \<Longrightarrow> in_range 10 ?r"
    using P [of 0] m(1) r(2) by (auto simp: in_range_def outside_def dot_size_def board_size_def)
  moreover have "sized ?r" using len dt by (simp add: sized_def ticked_def Let_def t_def pushed_length)
  ultimately show ?thesis using i dt r set [of "dots t"] by (auto simp: snake_inv_def)
qed

text \<open>
  A tick goes wrong only where an apple is eaten: at the end of the arrays, or because the new place behind the tail
  was never written (at the first tick, with three dots, that is the place of the tail's copy).
\<close>

definition apple_fault :: "fault \<Rightarrow> snake \<Rightarrow> bool" where
  "apple_fault e s \<longleftrightarrow> in_game s \<and> eats s \<and> (if Suc (dots s) = all_dots then e = Out_Of_Bounds
     else e = Uninitialised \<and> \<not> is_set (if dots s = 3 then 3 else Suc (dots s)) s)"

lemma places_set:
  assumes "snake_inv jx jy s" "z < dots s \<or> z = dots s \<and> dots s \<noteq> 3"
  shows "is_set z s"
  using assms by (auto simp: snake_inv_def chain_def)

lemma timer_ok:
  assumes "snake_inv jx jy s" "in_game s" "dots (after_apple rx ry s) < all_dots"
    "\<forall>z < dots (after_apple rx ry s). is_set z s"
    "bite_loop (dots (after_apple rx ry s)) (after_apple rx ry s) =
      Inr (if bites s (dots (after_apple rx ry s)) then (after_apple rx ry s)\<lparr>in_game := False\<rparr> else after_apple rx ry s)"
  shows "\<exists>t. timer_event rx ry s = Inr t \<and> snake_inv jx jy t"
  using timer_event_eq [OF assms] ticked_inv [OF assms(1-4)] by blast

lemma tick_without_apple:
  assumes i: "snake_inv jx jy s" "in_game s" and "\<not> eats s"
  shows "\<exists>t. timer_event rx ry s = Inr t \<and> snake_inv jx jy t"
proof -
  have t: "after_apple rx ry s = s" using assms(3) by (simp add: after_apple_def)
  have "bite_loop (dots s) s = Inr (if bites s (dots s) then s\<lparr>in_game := False\<rparr> else s)"
    using i places_set [OF i(1)] by (intro bite_loop_eq) (auto simp: snake_inv_def le_less)
  then show ?thesis
    using i places_set [OF i(1)] t by (intro timer_ok) (auto simp: snake_inv_def)
qed

lemma apple_at_the_end:
  assumes i: "snake_inv jx jy s" "in_game s" and e: "eats s" and d: "Suc (dots s) = all_dots"
  shows "timer_event rx ry s = Inl Out_Of_Bounds"
proof -
  let ?t = "after_apple rx ry s"
  have z: "sized s" "is_set 0 s" using i(1) places_set [OF i(1), of 0] by (auto simp: snake_inv_def)
  then have "read_place (Suc (dots s)) (xs ?t) = Inl Out_Of_Bounds" "read_place 0 (xs ?t) = Inr (px s 0)"
    using read_place_set [of s 0] d by (simp_all add: after_apple_same sized_def read_place_def px_def all_dots_def)
  moreover have "3 < dots s" using d by (simp add: all_dots_def)
  ultimately have "bite_loop (Suc (dots s)) ?t = Inl Out_Of_Bounds" by (simp add: Let_def head_at_def)
  then have "check_collision ?t = Inl Out_Of_Bounds" using e by (simp add: check_collision_def after_apple_same)
  then show ?thesis using check_apple_eq [OF z] i(2) by (simp add: timer_event_def)
qed

lemma tick_with_apple:
  assumes i: "snake_inv jx jy s" "in_game s" and e: "eats s" and d: "Suc (dots s) < all_dots"
  shows "case timer_event rx ry s of Inr t \<Rightarrow> snake_inv jx jy t | Inl f \<Rightarrow> apple_fault f s"
proof -
  define t where "t = after_apple rx ry s"
  have z: "sized s" "is_set 0 s" "3 \<le> dots s" using i(1) places_set [OF i(1), of 0] by (auto simp: snake_inv_def)
  have t: "dots t = Suc (dots s)" "sized t" "\<And>z. is_set z t = is_set z s" "\<And>n. bites t n = bites s n" "is_set 0 t"
    "in_game t" "xs t = xs s" "ys t = ys s"
    using e z i(2) by (simp_all add: t_def after_apple_same after_apple_facts bites_def)
  have c: "check_apple rx ry s = Inr t" using check_apple_eq [OF z(1,2)] by (simp add: t_def)
  have b: "case bite_loop (Suc (dots s)) t of
      Inr u \<Rightarrow> u = (if bites s (Suc (dots s)) then t\<lparr>in_game := False\<rparr> else t)
    | Inl f \<Rightarrow> f = Uninitialised \<and> 4 < Suc (dots s) \<and> \<not> is_set (Suc (dots s)) s"
  proof (cases "dots s = 3")
    case True
    then show ?thesis
      using bite_loop_eq [of "Suc (dots s)" t] t d by simp
  next
    case False
    then show ?thesis
      using bite_loop_last [of "dots s" t] t d places_set [OF i(1)]
      by (simp add: le_less del: bite_loop.simps split: sum.splits)
  qed
  show ?thesis
  proof (cases "bite_loop (Suc (dots s)) t")
    case (Inl f)
    then have "timer_event rx ry s = Inl f"
      using c i(2) t(1) by (simp add: timer_event_def check_collision_def)
    then show ?thesis using Inl b i(2) e d by (auto simp: apple_fault_def)
  next
    case (Inr u)
    then have bl: "bite_loop (dots t) t = Inr (if bites s (dots t) then t\<lparr>in_game := False\<rparr> else t)"
      using b t(1) by simp
    show ?thesis
    proof (cases "is_set (dots s) s")
      case True
      then have "\<forall>z < dots t. is_set z s" using places_set [OF i(1)] t(1) by (auto simp: less_Suc_eq)
      then show ?thesis
        using timer_ok [OF i, of rx ry] bl d t(1) by (auto simp: t_def [symmetric])
    next
      case False
      then have d3: "dots s = 3" using i(1) by (auto simp: snake_inv_def)
      let ?u = "t\<lparr>in_game := \<not> bites t (dots t) \<and> \<not> outside (px t 0) (py t 0)\<rparr>"
      have "check_collision t = Inr ?u"
        using bl t(4) collision_eq [OF t(2,5,6)] by simp
      moreover have "follow_loop (dots t) ?u = Inl Uninitialised"
        using follow_loop_unset [of "dots s" ?u] d t(1-3) False by simp
      ultimately have "timer_event rx ry s = Inl Uninitialised"
        using c i(2) t(1) by (simp add: timer_event_def move_def)
      then show ?thesis using i(2) e d d3 False by (simp add: apple_fault_def)
    qed
  qed
qed

lemma timer_outcome:
  assumes "snake_inv jx jy s"
  shows "case timer_event rx ry s of Inr t \<Rightarrow> snake_inv jx jy t | Inl f \<Rightarrow> apple_fault f s"
proof (cases "in_game s")
  case True
  have d: "dots s < all_dots" using assms by (simp add: snake_inv_def)
  consider "\<not> eats s" | "eats s" "Suc (dots s) = all_dots" | "eats s" "Suc (dots s) < all_dots"
    using d by linarith
  then show ?thesis
  proof cases
    case 1
    then show ?thesis using tick_without_apple [OF assms True 1, of rx ry] by auto
  next
    case 2
    then show ?thesis using apple_at_the_end [OF assms True 2] True by (simp add: apple_fault_def)
  qed (use tick_with_apple [OF assms True] in simp)
qed (use assms in \<open>simp add: timer_event_def\<close>)

lemma play_append: "play (es @ fs) s = bnd (play es s) (play fs)"
proof (induction es s rule: play.induct)
  case (3 rx ry es s)
  then show ?case by (cases "timer_event rx ry s") simp_all
qed simp_all

definition play_fault :: "snake_event list \<Rightarrow> snake \<Rightarrow> fault \<Rightarrow> bool" where
  "play_fault es s f \<longleftrightarrow> (\<exists>es1 rx ry es2 t. es = es1 @ Timer rx ry # es2 \<and> play es1 s = Inr t \<and> apple_fault f t)"

lemma play_fault_now: "apple_fault f s \<Longrightarrow> play_fault (Timer rx ry # es) s f"
  unfolding play_fault_def by (intro exI [of _ "[]"] exI [of _ rx] exI [of _ ry] exI [of _ es] exI [of _ s]) simp

lemma play_fault_later:
  assumes "play [e] s = Inr s1" "play_fault es s1 f"
  shows "play_fault (e # es) s f"
proof -
  obtain es1 rx ry es2 t where *: "es = es1 @ Timer rx ry # es2" "play es1 s1 = Inr t" "apple_fault f t"
    using assms(2) by (auto simp: play_fault_def)
  have "play (e # es1) s = Inr t" using play_append [of "[e]" es1 s] assms(1) *(2) by simp
  then show ?thesis
    unfolding play_fault_def using *(1,3)
    by (intro exI [of _ "e # es1"] exI [of _ rx] exI [of _ ry] exI [of _ es2] exI [of _ t]) simp
qed

lemma play_outcome:
  assumes "snake_inv jx jy s"
  shows "case play es s of Inr t \<Rightarrow> snake_inv jx jy t | Inl f \<Rightarrow> play_fault es s f"
  using assms
proof (induction es arbitrary: s)
  case (Cons e es)
  have later: ?case if s1: "play [e] s = Inr s1" "snake_inv jx jy s1" for s1
    using Cons.IH [OF s1(2)] play_fault_later [OF s1(1), of es] play_append [of "[e]" es s] s1(1)
    by (simp split: sum.splits)
  show ?case
  proof (cases e)
    case (Key_Press k)
    then show ?thesis using later [of "key_press k s"] key_press_inv [OF Cons.prems] by simp
  next
    case (Timer rx ry)
    show ?thesis
    proof (cases "timer_event rx ry s")
      case (Inl f)
      then show ?thesis
        using Timer timer_outcome [OF Cons.prems, of rx ry] play_fault_now by simp
    next
      case (Inr s1)
      then show ?thesis using Timer later [of s1] timer_outcome [OF Cons.prems, of rx ry] by simp
    qed
  qed
qed simp

section \<open>Properties\<close>

text \<open>C21 (The snake stays whole). However the keys are pressed and the apples fall, and whatever the arrays hold at the
  beginning: either the game goes on without a fault, and the snake keeps exactly one direction, its dots were all
  written and lie inside the arrays and on the grid, each one dot away from the one before, and its head is on the
  board or one dot beside it while the game runs. Or the program has undefined behaviour, and then at a tick at
  which an apple is eaten: either the snake fills the arrays, and a place behind them is read, or the place that has
  to be read behind the tail was never written. (With arrays that hold nothing at the beginning, as in the program,
  that is the second apple: \<open>second_apple_undefined\<close>, \<open>never_five_dots\<close>.)\<close>

theorem snake_whole:
  assumes "length jx = all_dots" "length jy = all_dots"
  shows "case play es (new_snake jx jy rx ry) of
      Inr s \<Rightarrow> one_direction s \<and> 3 \<le> dots s \<and> dots s < all_dots \<and> chain (dots s) s \<and> (in_game s \<longrightarrow> in_range 10 s)
    | Inl f \<Rightarrow> (\<exists>es1 qx qy es2 s. es = es1 @ Timer qx qy # es2 \<and> play es1 (new_snake jx jy rx ry) = Inr s
        \<and> in_game s \<and> xs s ! 0 = Some (apple_x s) \<and> ys s ! 0 = Some (apple_y s)
        \<and> (if Suc (dots s) = all_dots then f = Out_Of_Bounds
           else f = Uninitialised \<and> \<not> is_set (if dots s = 3 then 3 else Suc (dots s)) s))"
proof (cases "play es (new_snake jx jy rx ry)")
  case (Inl f)
  then show ?thesis
    using play_outcome [OF new_snake_inv [OF assms], of es rx ry]
    by (simp only: sum.case play_fault_def apple_fault_def eats_def conj_assoc)
next
  case (Inr s)
  then show ?thesis
    using play_outcome [OF new_snake_inv [OF assms], of es rx ry] by (simp add: snake_inv_def)
qed

theorem snake_whole_witness:
  "\<exists>s. play [Timer 1 1, Key_Press Key_Up, Timer 2 3, Timer 4 5]
      (new_snake (replicate all_dots None) (replicate all_dots None) 6 5) = Inr s
    \<and> dots s = 4 \<and> one_direction s \<and> chain (dots s) s \<and> in_range 10 s"
proof -
  have "case play [Timer 1 1, Key_Press Key_Up, Timer 2 3, Timer 4 5]
      (new_snake (replicate all_dots None) (replicate all_dots None) 6 5) of Inr s \<Rightarrow> dots s = 4 \<and> in_game s | Inl _ \<Rightarrow> False"
    by code_simp
  then show ?thesis
    using snake_whole [of "replicate all_dots None" "replicate all_dots None"
        "[Timer 1 1, Key_Press Key_Up, Timer 2 3, Timer 4 5]" 6 5]
    by (auto split: sum.splits)
qed

text \<open>
  Turning on the spot: between two ticks of the timer the snake can be turned round. Going right, an up and a left put
  its head on the dot behind it. No bite is noticed, as these are looked for from the fifth dot on.
\<close>

lemma snake_turns_round:
  assumes i: "snake_inv jx jy s" "right_dir s" "xs s ! 1 = Some (px s 0 - 10)" "ys s ! 1 = ys s ! 0"
    and "in_game s" and s': "s' = key_press Key_Left (key_press Key_Up s)" and e: "\<not> eats s'"
  shows "\<exists>t. timer_event rx ry s' = Inr t \<and> xs t ! 0 = xs t ! 2 \<and> ys t ! 0 = ys t ! 2"
proof -
  have dirs: "\<not> left_dir s \<and> \<not> up_dir s \<and> \<not> down_dir s"
    using i(1,2) by (auto simp: snake_inv_def one_direction_def split: if_splits)
  have k: "xs s' = xs s" "ys s' = ys s" "in_game s' = in_game s" "left_dir s'" "\<not> right_dir s'" "\<not> up_dir s'" "\<not> down_dir s'"
    "dots s' = dots s"
    using i(2) s' dirs by (simp_all add: key_press_def)
  have i': "snake_inv jx jy s'" unfolding s' by (intro key_press_inv i(1))
  have t: "after_apple rx ry s' = s'" using e by (simp add: after_apple_def)
  have "bite_loop (dots s') s' = Inr (if bites s' (dots s') then s'\<lparr>in_game := False\<rparr> else s')"
    using i' places_set [OF i'] by (intro bite_loop_eq) (auto simp: snake_inv_def le_less)
  then have "timer_event rx ry s' = Inr (ticked rx ry s')"
    using timer_event_eq [OF i', of rx ry] t i' places_set [OF i'] assms(5) k(3) by (simp add: snake_inv_def)
  moreover have "length (xs s') = all_dots" "length (ys s') = all_dots" "3 \<le> dots s'" "dots s' < all_dots"
    "is_set 0 s'" using i' places_set [OF i', of 0] by (auto simp: snake_inv_def sized_def)
  ultimately show ?thesis
    using i(3,4) k t
    by (auto simp: ticked_def pushed_nth pushed_length nth_list_update go_x_def go_y_def dot_size_def px_def py_def
        is_set_def)
qed

section \<open>The place behind the tail\<close>

text \<open>
  As the arrays are never initialised, the second apple is undefined behaviour: with four dots, the new place is read
  by the search for a bite, before the dots move up.
\<close>

lemma second_apple_undefined:
  assumes i: "snake_inv (replicate all_dots None) (replicate all_dots None) s" "in_game s" and e: "eats s"
    and d: "4 \<le> dots s" "Suc (dots s) < all_dots"
  shows "timer_event rx ry s = Inl Uninitialised"
proof -
  define t where "t = after_apple rx ry s"
  have z: "sized s" "is_set 0 s" using i(1) places_set [OF i(1), of 0] by (auto simp: snake_inv_def)
  have t: "dots t = Suc (dots s)" "xs t = xs s" "ys t = ys s" using e by (simp_all add: t_def after_apple_same)
  have n: "xs s ! Suc (dots s) = None" using i(1) d by (simp add: snake_inv_def)
  have "read_place (Suc (dots s)) (xs t) = Inl Uninitialised" "read_place 0 (xs t) = Inr (px s 0)"
    using n z d t read_place_set [of s 0] by (simp_all add: read_place_def sized_def px_def all_dots_def)
  then have "bite_loop (dots t) t = Inl Uninitialised" using t(1) d by (simp add: Let_def head_at_def)
  then show ?thesis
    using check_apple_eq [OF z] i(2) by (simp add: timer_event_def check_collision_def t_def)
qed

lemma bite_loop_dots: "bite_loop n s = Inr t \<Longrightarrow> dots t = dots s"
  by (induction n arbitrary: s) (auto simp: Let_def split: if_splits)

lemma follow_loop_dots: "follow_loop n s = Inr t \<Longrightarrow> dots t = dots s"
  by (induction n arbitrary: s) (fastforce simp: Let_def)+

lemma check_apple_dots:
  assumes "check_apple rx ry s = Inr t"
  shows "in_game t = in_game s \<and> (dots t = dots s \<or> eats s \<and> dots t = Suc (dots s))"
  using assms by (auto simp: check_apple_def head_at_def read_place_def locate_apple_def eats_def
      split: if_splits option.splits)

lemma dots_after_tick:
  assumes "timer_event rx ry s = Inr t"
  shows "dots t = dots s \<or> in_game s \<and> eats s \<and> dots t = Suc (dots s)"
proof (cases "in_game s")
  case True
  with assms obtain u v where uv: "check_apple rx ry s = Inr u" "check_collision u = Inr v" "move v = Inr t"
    by (auto simp: timer_event_def)
  have "dots v = dots u" using uv(2) bite_loop_dots [of "dots u" u] by (auto simp: check_collision_def)
  moreover have "dots t = dots v"
    using uv(3) follow_loop_dots [of "dots v" v] by (auto simp: move_def step_head_def)
  ultimately show ?thesis using check_apple_dots [OF uv(1)] True by auto
qed (use assms in \<open>simp add: timer_event_def\<close>)

text \<open>So a snake that eats has never more than four dots, unless the memory happens to hold something.\<close>

lemma never_five_dots:
  assumes "play es (new_snake (replicate all_dots None) (replicate all_dots None) rx ry) = Inr s"
  shows "dots s \<le> 4"
proof -
  let ?j = "replicate all_dots None :: int option list"
  have "dots t \<le> 4" if "snake_inv ?j ?j s" "dots s \<le> 4" "play es s = Inr t" for es s t
    using that
  proof (induction es s rule: play.induct)
    case (2 k es s)
    have "dots (key_press k s) = dots s" by (cases k) (simp_all add: key_press_def)
    then show ?case using 2 key_press_inv by simp
  next
    case (3 rx ry es s)
    then obtain u where u: "timer_event rx ry s = Inr u" "play es u = Inr t"
      by (cases "timer_event rx ry s") auto
    then have "snake_inv ?j ?j u" using timer_outcome [OF "3.prems"(1), of rx ry] by simp
    moreover have "dots u \<le> 4"
    proof (cases "in_game s \<and> eats s")
      case True
      then have "\<not> 4 \<le> dots s"
        using second_apple_undefined [OF "3.prems"(1)] u(1) "3.prems"(2) by (auto simp: all_dots_def)
      then show ?thesis using dots_after_tick [OF u(1)] by auto
    qed (use "3.prems"(2) dots_after_tick [OF u(1)] in auto)
    ultimately show ?case using "3.IH" u by blast
  qed simp
  moreover have "snake_inv ?j ?j (new_snake ?j ?j rx ry)" by (rule new_snake_inv) simp_all
  moreover have "dots (new_snake ?j ?j rx ry) \<le> 4" by (simp add: new_snake_def locate_apple_def)
  ultimately show ?thesis using assms by blast
qed

text \<open>Two apples in a row: the program as it is, with nothing in its arrays.\<close>

lemma second_apple_example:
  "play [Timer 6 5, Timer 7 5, Timer 4 5] (new_snake (replicate all_dots None) (replicate all_dots None) 6 5)
    = Inl Uninitialised"
  by code_simp

end
