(* ===== verification/Compile_Time_Numbers.thy ===== *)
theory Compile_Time_Numbers
  imports Prelude Complex_Main "HOL-Library.Char_ord" "HOL-Library.Word"
begin

text \<open>
  Programs that the compiler runs on numbers and characters: \<^verbatim>\<open>factorial.cpp\<close>, \<^verbatim>\<open>is_prime.cpp\<close> and
  \<^verbatim>\<open>fractions.cpp\<close> of \<^verbatim>\<open>src/Metaprogramming/fundamentals\<close>, the two programs \<^verbatim>\<open>fizbuzz\<close>, and the multiplication table
  of \<^verbatim>\<open>char_sequence/char_seq.cpp\<close>. A template that cannot be instantiated is \<^const>\<open>None\<close>; \<^verbatim>\<open>size_t\<close> is a word of 64 bits.
\<close>

section \<open>Factorials\<close>

fun factorial :: "nat \<Rightarrow> 64 word" where
  "factorial 0 = 1"
| "factorial (Suc n) = of_nat (Suc n) * factorial n"

function fact_loop :: "64 word \<Rightarrow> 64 word \<Rightarrow> 64 word" where
  "fact_loop n result = (if n \<noteq> 0 then fact_loop (n - 1) (result * n) else result)"
  by pat_completeness auto
termination
  by (relation "measure (\<lambda>(n, _). unat n)") (auto simp: unat_minus_one unat_gt_0)

declare fact_loop.simps [simp del]

definition factorial_constexpr :: "64 word \<Rightarrow> 64 word" where
  "factorial_constexpr n = fact_loop n 1"

lemma factorial_fact: "factorial n = of_nat (fact n)"
  by (induction n) (simp_all add: algebra_simps)

lemma fact_loop_eq: "fact_loop n r = r * of_nat (fact (unat n))"
proof (induction n r rule: fact_loop.induct)
  case (1 n r)
  show ?case
  proof (cases "n = 0")
    case False
    then have u: "unat n = Suc (unat (n - 1))" by (simp add: unat_minus_one unat_gt_0)
    have "(of_nat (fact (unat n)) :: 64 word) = n * of_nat (fact (unat (n - 1)))"
      unfolding u fact_Suc of_nat_mult using u by (metis of_nat_unat ucast_id)
    then show ?thesis using False 1 by (subst fact_loop.simps) (simp add: mult.assoc)
  qed (simp add: fact_loop.simps)
qed

section \<open>Prime numbers\<close>

text \<open>The template: both sides of its conjunction are instantiated, and \<open>I % 0\<close> has no value.\<close>

fun is_prime_impl :: "nat \<Rightarrow> nat \<Rightarrow> bool option" where
  "is_prime_impl i 0 = None"
| "is_prime_impl i (Suc d) = (if Suc d = 2 then Some (i mod 2 \<noteq> 0)
     else (case is_prime_impl i d of None \<Rightarrow> None | Some b \<Rightarrow> Some (i mod Suc d \<noteq> 0 \<and> b)))"

definition is_prime :: "nat \<Rightarrow> bool option" where
  "is_prime i = (if i = 0 \<or> i = 1 then Some False else if i = 2 \<or> i = 3 then Some True else is_prime_impl i (i div 2))"

text \<open>The function: the second side of the conjunction is evaluated if the first one is true.\<close>

fun is_prime_cpp11_impl :: "nat \<Rightarrow> nat \<Rightarrow> bool option" where
  "is_prime_cpp11_impl p 0 = None"
| "is_prime_cpp11_impl p (Suc d) = (if Suc d \<noteq> 2
     then (if p mod Suc d \<noteq> 0 then is_prime_cpp11_impl p d else Some False)
     else Some (p mod 2 \<noteq> 0))"

definition is_prime_cpp11 :: "nat \<Rightarrow> bool option" where
  "is_prime_cpp11 p = (if p < 4 then Some (\<not> p < 2) else is_prime_cpp11_impl p (p div 2))"

text \<open>The loop tests the divisor 2 in each of its rounds.\<close>

function prime_cpp14_loop :: "nat \<Rightarrow> nat \<Rightarrow> bool" where
  "prime_cpp14_loop d p = (if d \<le> p div 2 then (if p mod 2 = 0 then False else prime_cpp14_loop (d + 1) p) else p > 1)"
  by pat_completeness auto
termination
  by (relation "measure (\<lambda>(d, p). Suc (p div 2) - d)") auto

declare prime_cpp14_loop.simps [simp del]

definition is_prime_cpp14 :: "nat \<Rightarrow> bool" where
  "is_prime_cpp14 p = prime_cpp14_loop 2 p"

definition prime_number :: "nat \<Rightarrow> bool" where
  "prime_number n \<longleftrightarrow> 1 < n \<and> (\<forall>d. d dvd n \<longrightarrow> d = 1 \<or> d = n)"

lemma no_divisor_half:
  assumes "4 \<le> n"
  shows "prime_number n \<longleftrightarrow> (\<forall>d. 2 \<le> d \<and> d \<le> n div 2 \<longrightarrow> n mod d \<noteq> 0)"
proof
  assume p: "prime_number n"
  show "\<forall>d. 2 \<le> d \<and> d \<le> n div 2 \<longrightarrow> n mod d \<noteq> 0"
  proof (intro allI impI notI)
    fix d assume d: "2 \<le> d \<and> d \<le> n div 2" "n mod d = 0"
    then have "d = 1 \<or> d = n" using p by (auto simp: prime_number_def)
    then show False using d assms by linarith
  qed
next
  assume h: "\<forall>d. 2 \<le> d \<and> d \<le> n div 2 \<longrightarrow> n mod d \<noteq> 0"
  have "d = 1 \<or> d = n" if dvd: "d dvd n" for d
  proof (rule ccontr)
    assume c: "\<not> (d = 1 \<or> d = n)"
    obtain k where k: "n = d * k" using dvd unfolding dvd_def by blast
    have "d \<noteq> 0" "k \<noteq> 0" "k \<noteq> 1" using k c assms by (auto intro: Nat.gr0I)
    then have "2 \<le> d" "d * 2 \<le> n" using c k by auto
    then have "n mod d \<noteq> 0" using h by auto
    then show False using dvd by auto
  qed
  then show "prime_number n" using assms by (simp add: prime_number_def)
qed

lemma up_to_Suc: "(\<forall>d. 2 \<le> d \<and> d \<le> Suc n \<longrightarrow> P d) \<longleftrightarrow> (\<forall>d. 2 \<le> d \<and> d \<le> n \<longrightarrow> P d) \<and> (2 \<le> Suc n \<longrightarrow> P (Suc n))"
  by (auto simp: le_Suc_eq)

lemma up_to_2: "(\<forall>d. 2 \<le> d \<and> d \<le> (2::nat) \<longrightarrow> P d) \<longleftrightarrow> P 2"
  by (metis le_antisym order_refl)

lemma is_prime_impl_eq:
  assumes "2 \<le> d"
  shows "is_prime_impl i d = Some (\<forall>e. 2 \<le> e \<and> e \<le> d \<longrightarrow> i mod e \<noteq> 0)"
  using assms
proof (induction d rule: dec_induct)
  case base
  show ?case unfolding up_to_2 [where P = "\<lambda>e. i mod e \<noteq> 0"] by (simp add: numeral_2_eq_2)
next
  case (step d)
  then show ?case unfolding up_to_Suc by auto
qed

lemma is_prime_cpp11_impl_eq:
  assumes "2 \<le> d"
  shows "is_prime_cpp11_impl i d = Some (\<forall>e. 2 \<le> e \<and> e \<le> d \<longrightarrow> i mod e \<noteq> 0)"
  using assms
proof (induction d rule: dec_induct)
  case base
  show ?case unfolding up_to_2 [where P = "\<lambda>e. i mod e \<noteq> 0"] by (simp add: numeral_2_eq_2)
next
  case (step d)
  then show ?case unfolding up_to_Suc by auto
qed

lemma small_primes:
  "prime_number 2" "prime_number 3" "\<not> prime_number 0" "\<not> prime_number (Suc 0)"
proof -
  have "d = 1 \<or> d = 2" if "d dvd 2" for d :: nat using dvd_imp_le [OF that] that by (cases "d = 0") auto
  then show "prime_number 2" by (simp add: prime_number_def)
  have "d = 1 \<or> d = 3" if "d dvd 3" for d :: nat
  proof -
    have "d \<le> 3" using dvd_imp_le [OF that] by simp
    then consider "d = 0" | "d = 1" | "d = 2" | "d = 3" by linarith
    then show ?thesis using that by cases auto
  qed
  then show "prime_number 3" by (simp add: prime_number_def)
qed (simp_all add: prime_number_def)

lemma prime_cpp14_loop_eq: "prime_cpp14_loop d p \<longleftrightarrow> 1 < p \<and> (d \<le> p div 2 \<longrightarrow> odd p)"
proof (induction d p rule: prime_cpp14_loop.induct)
  case (1 d p)
  then show ?case by (subst prime_cpp14_loop.simps) (auto simp: even_iff_mod_2_eq_zero)
qed

text \<open>Prime numbers. The template and the C++11 function are instantiated for every number and tell the primes; the
  C++14 function takes every odd number but 1 for a prime.\<close>

theorem primes_decided:
  "is_prime p = Some (prime_number p) \<and> is_prime_cpp11 p = Some (prime_number p)
    \<and> (is_prime_cpp14 p \<longleftrightarrow> p = 2 \<or> odd p \<and> p \<noteq> 1)"
proof (cases "p < 4")
  case True
  then consider "p = 0" | "p = 1" | "p = 2" | "p = 3" by linarith
  then show ?thesis
    by cases (simp_all add: is_prime_def is_prime_cpp11_def is_prime_cpp14_def prime_cpp14_loop_eq small_primes)
next
  case False
  then have p: "4 \<le> p" "2 \<le> p div 2" by auto
  then show ?thesis
    by (auto simp: is_prime_def is_prime_cpp11_def is_prime_cpp14_def prime_cpp14_loop_eq
        is_prime_impl_eq is_prime_cpp11_impl_eq no_divisor_half [OF p(1)])
qed


section \<open>Fractions\<close>

type_synonym fraction = "64 word \<times> 64 word"

definition scalar_multiply :: "64 word \<Rightarrow> fraction \<Rightarrow> fraction" where
  "scalar_multiply x f = (fst f * x, snd f * x)"

function mcd :: "64 word \<Rightarrow> 64 word \<Rightarrow> 64 word" where
  "mcd x y = (if y = 0 then x else mcd y (x mod y))"
  by pat_completeness auto
termination
  by (relation "measure (\<lambda>(_, y). unat y)") (auto simp: unat_mod unat_gt_0)

declare mcd.simps [simp del]

text \<open>A division by zero is no constant.\<close>

definition simplify :: "fraction \<Rightarrow> fraction option" where
  "simplify f = (let m = mcd (fst f) (snd f) in if m = 0 then None else Some (fst f div m, snd f div m))"

definition as_common_base :: "fraction \<Rightarrow> fraction \<Rightarrow> fraction \<times> fraction" where
  "as_common_base f1 f2 = (scalar_multiply (snd f2) f1, scalar_multiply (snd f1) f2)"

definition sum_fractions :: "fraction \<Rightarrow> fraction \<Rightarrow> fraction option" where
  "sum_fractions x y = (case as_common_base x y of (bx, by) \<Rightarrow> simplify (fst bx + fst by, snd bx))"

fun e_fraction :: "nat \<Rightarrow> fraction option" where
  "e_fraction 0 = Some (1, 1)"
| "e_fraction (Suc n) = (case e_fraction n of None \<Rightarrow> None
     | Some next_term \<Rightarrow> sum_fractions (1, factorial_constexpr (of_nat (Suc n))) next_term)"

lemma mcd_gcd: "mcd x y = of_nat (gcd (unat x) (unat y))"
proof (induction x y rule: mcd.induct)
  case (1 x y)
  show ?case
  proof (cases "y = 0")
    case False
    then have "mcd y (x mod y) = of_nat (gcd (unat y) (unat x mod unat y))" using 1 by (simp add: unat_mod)
    also have "gcd (unat y) (unat x mod unat y) = gcd (unat x) (unat y)" by (rule gcd_red_nat [symmetric])
    finally show ?thesis using False by (simp add: mcd.simps [of x y])
  qed (simp add: mcd.simps)
qed

lemma unat_small: "n < 2 ^ 64 \<Longrightarrow> unat (of_nat n :: 64 word) = n"
  by (simp add: unat_of_nat)

lemma simplify_of_nat:
  assumes "a < 2 ^ 64" "b < 2 ^ 64" "0 < b"
  shows "simplify (of_nat a, of_nat b) = Some (of_nat (a div gcd a b), of_nat (b div gcd a b))"
proof -
  have g: "0 < gcd a b" "gcd a b < 2 ^ 64" using assms gcd_le2_nat [of b a] by (simp, linarith)
  then have "unat (of_nat (gcd a b) :: 64 word) \<noteq> 0" by (simp add: unat_small)
  then have "of_nat (gcd a b) \<noteq> (0 :: 64 word)" by auto
  moreover have "(of_nat a :: 64 word) div of_nat (gcd a b) = of_nat (a div gcd a b)"
    "(of_nat b :: 64 word) div of_nat (gcd a b) = of_nat (b div gcd a b)"
    using assms g by (simp_all add: word_arith_nat_div unat_small)
  ultimately show ?thesis using assms by (simp add: simplify_def mcd_gcd unat_small Let_def)
qed

definition e_sum :: "nat \<Rightarrow> real" where
  "e_sum n = (\<Sum>k\<le>n. 1 / fact k)"

lemma e_sum_le: "e_sum n \<le> 3"
proof -
  have "e_sum (Suc n) + 1 / fact (Suc n) \<le> 3"
  proof (induction n)
    case (Suc n)
    have "2 * (fact (Suc n) :: real) \<le> fact (Suc (Suc n))"
      unfolding fact_Suc [of "Suc n"] by (intro mult_right_mono) simp_all
    then have "2 * (1 / fact (Suc (Suc n)) :: real) \<le> 1 / fact (Suc n)" by (simp add: divide_simps del: fact_Suc)
    moreover have "e_sum (Suc (Suc n)) = e_sum (Suc n) + 1 / fact (Suc (Suc n))" by (simp add: e_sum_def)
    ultimately show ?case using Suc by linarith
  qed (simp add: e_sum_def)
  moreover have "e_sum n \<le> e_sum (Suc n)" "0 \<le> (1 / fact (Suc n) :: real)" by (simp_all add: e_sum_def)
  ultimately show ?thesis by linarith
qed

definition e_exact :: "nat \<Rightarrow> bool" where
  "e_exact n \<longleftrightarrow> (\<exists>a b. e_fraction n = Some (of_nat a, of_nat b) \<and> a < 2 ^ 64 \<and> 0 < b \<and> b dvd fact n \<and> coprime a b
     \<and> real a = real b * e_sum n)"

lemma e_exact_Suc:
  assumes "e_exact n" "4 * fact n * fact (Suc n) < (2 ^ 64 :: nat)"
  shows "e_exact (Suc n)"
proof -
  obtain a b where e: "e_fraction n = Some (of_nat a, of_nat b)" "0 < b" "b dvd fact n" "real a = real b * e_sum n"
    using assms(1) by (auto simp: e_exact_def)
  define F where "F = (fact (Suc n) :: nat)"
  define N where "N = b + a * F"
  define D where "D = F * b"
  have F: "1 \<le> F" using fact_ge_1 [of "Suc n", where 'a = nat] by (simp only: F_def)
  have bn: "b \<le> fact n" using e(3) by (intro dvd_imp_le) simp_all
  have "real a \<le> real (b * 3)" using e(4) e_sum_le [of n] mult_left_mono [of "e_sum n" 3 "real b"] by simp
  then have "a \<le> b * 3" by (simp only: of_nat_le_iff)
  then have "a * F \<le> b * 3 * F" by (rule mult_le_mono1)
  then have "a * F \<le> 3 * (b * F)" by (simp only: ac_simps)
  moreover have "b * 1 \<le> b * F" using F by (rule mult_le_mono2)
  moreover have "b * F \<le> fact n * F" using bn by (rule mult_le_mono1)
  moreover have "4 * (fact n * F) < 2 ^ 64" using assms(2) by (simp only: F_def ac_simps)
  ultimately have lt: "N < 2 ^ 64" "D < 2 ^ 64"
    unfolding N_def D_def mult.commute [of F b] by linarith+
  have D: "0 < D" using F e(2) by (simp add: D_def)
  have fc: "factorial_constexpr (of_nat (Suc n)) = of_nat F"
  proof -
    have "Suc n \<le> fact (Suc n)" by (rule fact_ge_self)
    also have "\<dots> \<le> 4 * fact n * fact (Suc n)" by simp
    finally have "Suc n < 2 ^ 64" using assms(2) by linarith
    then have "unat (of_nat (Suc n) :: 64 word) = Suc n" by (rule unat_small)
    then show ?thesis unfolding factorial_constexpr_def fact_loop_eq F_def by simp
  qed
  let ?g = "gcd N D"
  have "e_fraction (Suc n) = Some (of_nat (N div ?g), of_nat (D div ?g))"
    using simplify_of_nat [OF lt D] e(1)
    by (simp add: fc sum_fractions_def as_common_base_def scalar_multiply_def N_def D_def del: of_nat_Suc)
  moreover have "N div ?g < 2 ^ 64" using lt(1) div_le_dividend [of N ?g] by linarith
  moreover have "0 < D div ?g" using D by (simp add: div_greater_zero_iff)
  moreover have "D div ?g dvd fact (Suc n)"
  proof -
    have "b dvd F" using e(3) by (simp add: F_def)
    then have "b dvd ?g" by (simp add: N_def D_def)
    then obtain c where c: "?g = b * c" unfolding dvd_def by blast
    have "D = ?g * (D div ?g)" by simp
    then have "b * F = b * (c * (D div ?g))" unfolding c by (simp add: D_def ac_simps)
    then have "F = c * (D div ?g)" using e(2) by simp
    then show ?thesis unfolding F_def by (metis dvd_triv_right)
  qed
  moreover have "coprime (N div ?g) (D div ?g)" using D by (intro div_gcd_coprime) simp
  moreover have "real (N div ?g) = real (D div ?g) * e_sum (Suc n)"
  proof -
    have "real N = real D * e_sum (Suc n)"
    proof -
      have "e_sum (Suc n) = e_sum n + 1 / real F" by (simp add: e_sum_def F_def del: fact_Suc)
      then show ?thesis using F by (simp only: N_def D_def) (simp add: e(4) algebra_simps)
    qed
    moreover have "real N = real (N div ?g) * real ?g" "real D = real (D div ?g) * real ?g"
      by (metis dvd_div_mult_self gcd_dvd1 of_nat_mult) (metis dvd_div_mult_self gcd_dvd2 of_nat_mult)
    moreover have "real ?g \<noteq> 0" using D by simp
    ultimately have "real ?g * real (N div ?g) = real ?g * (real (D div ?g) * e_sum (Suc n))" by (simp only: ac_simps)
    then show ?thesis using \<open>real ?g \<noteq> 0\<close> by (metis mult_left_cancel)
  qed
  ultimately show ?thesis unfolding e_exact_def by blast
qed

lemma e_exact_13: "n \<le> 13 \<Longrightarrow> e_exact n"
proof (induction n)
  case 0
  show ?case unfolding e_exact_def by (intro exI [of _ 1]) (simp add: e_sum_def)
next
  case (Suc n)
  have "(fact n :: nat) \<le> fact 12" "(fact (Suc n) :: nat) \<le> fact 13" using Suc.prems by (intro fact_mono; simp)+
  then have "fact n * fact (Suc n) \<le> (fact 12 * fact 13 :: nat)" by (rule mult_le_mono)
  also have "\<dots> < 2 ^ 62" by (simp add: fact_numeral)
  finally have "4 * fact n * fact (Suc n) < (2 ^ 64 :: nat)" by simp
  then show ?case using Suc by (intro e_exact_Suc) simp_all
qed

lemma e14: "e_fraction 14 = Some (35940666576970623, 25734568893544448)"
  by code_simp

text \<open>C29 (The number e as a fraction). Up to \<^verbatim>\<open>E<13>\<close>, the fraction is the sum of the reciprocals of the factorials in its
  lowest terms. \<^verbatim>\<open>E<14>\<close> is another number, as the numerator overflows.\<close>

theorem e_is_exact:
  "list_all e_exact [0..<14] \<and> \<not> e_exact 14"
proof -
  have "\<not> e_exact 14"
  proof
    assume "e_exact 14"
    then obtain a b where e: "Some (35940666576970623, 25734568893544448) = Some (of_nat a :: 64 word, of_nat b :: 64 word)"
      "a < 2 ^ 64" "0 < b" "b dvd fact 14" "real a = real b * e_sum 14"
      by (auto simp: e_exact_def e14)
    have "b \<le> fact 14" using e(4) by (intro dvd_imp_le) simp_all
    then have "b < 2 ^ 64" by (simp add: fact_numeral)
    then have "unat (of_nat b :: 64 word) = b" by (intro unat_small) simp
    moreover have "(of_nat b :: 64 word) = 25734568893544448" using e(1) by simp
    ultimately have "b = unat (25734568893544448 :: 64 word)" by metis
    then have "b = 25734568893544448" by simp
    then show False using \<open>b \<le> fact 14\<close> by (simp add: fact_numeral)
  qed
  then show ?thesis using e_exact_13 by (simp add: list_all_iff)
qed



section \<open>Fizz and buzz\<close>

datatype fizz = Number nat | Fizz string

definition fizzbuzz_number :: "nat \<Rightarrow> fizz" where
  "fizzbuzz_number i =
     (if i mod 3 = 0 \<and> i mod 5 \<noteq> 0 then Fizz ''Fizz''
      else if i mod 3 \<noteq> 0 \<and> i mod 5 = 0 then Fizz ''Buzz''
      else if i mod 15 = 0 then Fizz ''FizzBuzz''
      else Number i)"

definition fizzbuzz :: "nat list \<Rightarrow> fizz list" where
  "fizzbuzz is = concat (map (\<lambda>i. [fizzbuzz_number i]) is)"

text \<open>The decimal digits that \<open><<\<close> writes.\<close>

fun decimal :: "nat \<Rightarrow> string" where
  "decimal n = (if n < 10 then [char_of (48 + n)] else decimal (n div 10) @ [char_of (48 + n mod 10)])"

declare decimal.simps [simp del]

definition line_end :: string where
  "line_end = [CHR 0x0A]"

text \<open>The four specialisations of \<^verbatim>\<open>FizzbuzzSingle\<close>; 0 is left out by one of \<^verbatim>\<open>Fizzbuzz\<close>.\<close>

definition fizzbuzz_single :: "nat \<Rightarrow> string" where
  "fizzbuzz_single i =
     (if i mod 3 = 0 \<and> i mod 5 \<noteq> 0 then ''Fizz'' @ line_end
      else if i mod 3 \<noteq> 0 \<and> i mod 5 = 0 then ''Buzz'' @ line_end
      else if i mod 3 = 0 \<and> i mod 5 = 0 then ''FizzBuzz'' @ line_end
      else decimal i @ line_end)"

fun fizzbuzz_struct :: "nat list \<Rightarrow> string" where
  "fizzbuzz_struct [] = ''''"
| "fizzbuzz_struct (0 # is) = fizzbuzz_struct is"
| "fizzbuzz_struct (Suc i # is) = fizzbuzz_single (Suc i) @ fizzbuzz_struct is"

definition fizz_text :: "fizz \<Rightarrow> string" where
  "fizz_text f = (case f of Number n \<Rightarrow> decimal n | Fizz w \<Rightarrow> w)"

lemma div_15: "i mod 15 = 0 \<longleftrightarrow> i mod 3 = 0 \<and> i mod 5 = 0" for i :: nat
  by presburger

lemma fizzbuzz_single_eq: "fizzbuzz_single i = fizz_text (fizzbuzz_number i) @ line_end"
  by (auto simp: fizzbuzz_single_def fizzbuzz_number_def fizz_text_def div_15)

text \<open>Two solutions. The classes print the elements of the tuple, one on a line, but for those of 0.\<close>

theorem fizzbuzz_agree:
  "fizzbuzz_struct is = concat (map (\<lambda>f. fizz_text f @ line_end) (fizzbuzz (filter (\<lambda>i. i \<noteq> 0) is)))"
  by (induction "is" rule: fizzbuzz_struct.induct) (simp_all add: fizzbuzz_def fizzbuzz_single_eq)

section \<open>The multiplication table\<close>

definition make_seq_array :: "nat \<Rightarrow> nat list \<Rightarrow> nat list" where
  "make_seq_array m is = map (\<lambda>i. m * (1 + i)) is"

definition make_2d_seq_array :: "nat list \<Rightarrow> nat list list" where
  "make_2d_seq_array is = map (\<lambda>i. make_seq_array (1 + i) [0..<length is]) is"

definition make_digit_char :: "nat \<Rightarrow> nat \<Rightarrow> char \<Rightarrow> char" where
  "make_digit_char digit power_of_ten fill =
     (if power_of_ten \<le> digit then char_of (digit div power_of_ten + 48) else fill)"

definition make_char_seq_from_num :: "nat \<Rightarrow> string option" where
  "make_char_seq_from_num n = (if n < 1000
     then Some [CHR '' '', make_digit_char n 100 (CHR '' ''),
       make_digit_char (n mod 100) 10 (if 100 \<le> n then CHR ''0'' else CHR '' ''),
       make_digit_char (n mod 10) 1 (CHR ''0'')]
     else None)"

definition add_seq :: "nat \<Rightarrow> nat list \<Rightarrow> nat list" where
  "add_seq n is = map (\<lambda>i. n + i) is"

definition multiply_seq :: "nat \<Rightarrow> nat list \<Rightarrow> nat list" where
  "multiply_seq n is = map (\<lambda>i. n * i) is"

text \<open>Both templates take one element at least; their helpers end the recursion.\<close>

fun charseq_impl :: "nat list \<Rightarrow> string option" where
  "charseq_impl [] = Some ''''"
| "charseq_impl (i # is) = (case make_char_seq_from_num i of None \<Rightarrow> None
     | Some xs \<Rightarrow> (case charseq_impl is of None \<Rightarrow> None | Some ys \<Rightarrow> Some (xs @ ys)))"

definition convert_to_charseq :: "nat list \<Rightarrow> string option" where
  "convert_to_charseq is = (if is = [] then None else charseq_impl is)"

definition make_row :: "nat \<Rightarrow> nat \<Rightarrow> string option" where
  "make_row row n = map_option (\<lambda>s. s @ line_end) (convert_to_charseq (multiply_seq row (add_seq 1 [0..<n])))"

fun rows_impl :: "nat \<Rightarrow> nat list \<Rightarrow> string option" where
  "rows_impl n [] = Some ''''"
| "rows_impl n (col # cols) = (case make_row col n of None \<Rightarrow> None
     | Some xs \<Rightarrow> (case rows_impl n cols of None \<Rightarrow> None | Some ys \<Rightarrow> Some (xs @ ys)))"

definition makerows :: "nat \<Rightarrow> nat list \<Rightarrow> string option" where
  "makerows n cols = (if cols = [] then None else rows_impl n cols)"

text \<open>The array of characters gets a line_end at its end, and no character 0.\<close>

definition multiplication_table :: "nat \<Rightarrow> string option" where
  "multiplication_table n = map_option (\<lambda>s. (line_end @ s) @ line_end) (makerows n (add_seq 1 [0..<n]))"

text \<open>Printing characters from a pointer: up to a character 0, and behind the array there is none.\<close>

fun print_chars :: "string \<Rightarrow> fault + string" where
  "print_chars [] = Inl Out_Of_Bounds"
| "print_chars (c # cs) = (if c = CHR 0x00 then Inr '''' else bnd (print_chars cs) (\<lambda>s. Inr (c # s)))"

text \<open>The number to the right of a field of four characters.\<close>

definition field4 :: "nat \<Rightarrow> string" where
  "field4 n = replicate (4 - length (decimal n)) (CHR '' '') @ decimal n"

lemma zero_char: "char_of (48 :: nat) = CHR ''0''"
  by code_simp

lemma charseq_field:
  assumes "n < 1000"
  shows "make_char_seq_from_num n = Some (field4 n)"
proof -
  consider "n < 10" | "10 \<le> n" "n < 100" | "100 \<le> n" using assms by linarith
  then show ?thesis
  proof cases
    case 1
    then show ?thesis
      by (cases "n = 0") (simp_all add: make_char_seq_from_num_def make_digit_char_def field4_def decimal.simps add.commute
          numeral_3_eq_3 zero_char)
  next
    case 2
    have "decimal n = [char_of (n div 10 + 48), char_of (n mod 10 + 48)]"
    proof -
      have "n div 10 < 10" using 2 by simp
      then show ?thesis using 2 by (simp add: decimal.simps [of n] decimal.simps [of "n div 10"] add.commute)
    qed
    then show ?thesis
      using 2 by (cases "n mod 10 = 0") (simp_all add: make_char_seq_from_num_def make_digit_char_def field4_def numeral_2_eq_2 zero_char)
  next
    case 3
    have "decimal n = [char_of (n div 100 + 48), char_of (n div 10 mod 10 + 48), char_of (n mod 10 + 48)]"
    proof -
      have "n div 100 < 10" "\<not> n div 10 < 10" using 3 assms by linarith+
      then show ?thesis using 3 assms by (simp add: decimal.simps [of n] decimal.simps [of "n div 10"] decimal.simps [of "n div 100"]
          div_mult2_eq [symmetric] add.commute)
    qed
    moreover have e: "n mod 100 = 10 * (n div 10 mod 10) + n mod 10" using mod_mult2_eq [of n 10 10] by simp
    moreover have "make_digit_char (n mod 100) 10 (CHR ''0'') = char_of (n div 10 mod 10 + 48)"
      by (cases "n div 10 mod 10 = 0") (simp_all add: e make_digit_char_def zero_char not_le)
    moreover have "make_digit_char (n mod 10) 1 (CHR ''0'') = char_of (n mod 10 + 48)"
      by (cases "n mod 10 = 0") (simp_all add: make_digit_char_def zero_char)
    moreover have "make_digit_char n 100 (CHR '' '') = char_of (n div 100 + 48)" using 3 by (simp add: make_digit_char_def)
    ultimately show ?thesis using 3 assms by (simp add: make_char_seq_from_num_def field4_def)
  qed
qed

lemma charseq_fields:
  "charseq_impl is = (if \<forall>i \<in> set is. i < 1000 then Some (concat (map field4 is)) else None)"
  by (induction "is") (auto simp: charseq_field split: option.splits, auto simp: make_char_seq_from_num_def split: if_splits)

definition table_row :: "nat list \<Rightarrow> string" where
  "table_row r = concat (map field4 r) @ line_end"

lemma make_row_eq:
  assumes "0 < n"
  shows "make_row r n = (if r * n < 1000 then Some (table_row (make_seq_array r [0..<n])) else None)"
proof -
  have "(\<forall>i < n. r + r * i < 1000) \<longleftrightarrow> r * n < 1000"
  proof
    assume "\<forall>i < n. r + r * i < 1000"
    then have "r + r * (n - 1) < 1000" using assms by simp
    then show "r * n < 1000" using assms by (cases n) simp_all
  next
    assume "r * n < 1000"
    moreover have "r + r * i \<le> r * n" if "i < n" for i
      using mult_le_mono2 [of "Suc i" n r] that by simp
    ultimately show "\<forall>i < n. r + r * i < 1000" by (meson le_less_trans)
  qed
  moreover have "multiply_seq r (add_seq 1 [0..<n]) = make_seq_array r [0..<n]"
    by (simp add: multiply_seq_def add_seq_def make_seq_array_def)
  ultimately show ?thesis
    using assms by (auto simp: make_row_def convert_to_charseq_def charseq_fields table_row_def make_seq_array_def)
qed

lemma rows_eq:
  assumes "0 < n"
  shows "rows_impl n cols = (if \<forall>r \<in> set cols. r * n < 1000
    then Some (concat (map (\<lambda>r. table_row (make_seq_array r [0..<n])) cols)) else None)"
  by (induction cols) (auto simp: make_row_eq [OF assms] split: option.splits if_splits)

lemma print_no_end: "CHR 0x00 \<notin> set s \<Longrightarrow> print_chars s = Inl Out_Of_Bounds"
  by (induction s) auto

lemma decimal_no_end: "CHR 0x00 \<notin> set (decimal n)"
proof (induction n rule: decimal.induct)
  case (1 n)
  have "char_of (48 + d) \<noteq> CHR 0x00" if "d < 10" for d :: nat
  proof
    assume "char_of (48 + d) = CHR 0x00"
    then have "of_char (char_of (48 + d)) = (0 :: nat)" by simp
    then show False using that unfolding of_char_of by simp
  qed
  from this [of n] this [of "n mod 10"] show ?case using 1 by (subst decimal.simps) (auto simp: eq_commute)
qed

lemma field4_no_end: "CHR 0x00 \<notin> set (field4 n)"
  using decimal_no_end by (simp add: field4_def)

text \<open>The multiplication table. Up to a dimension of 31, beyond which a product has four digits, the characters are the rows of
  the array of products, each product to the right of a field of four. As the array does not end with a character 0,
  printing it reads over its end.\<close>

theorem table_printed:
  "multiplication_table n = (if 1 \<le> n \<and> n \<le> 31
      then Some (line_end @ concat (map table_row (make_2d_seq_array [0..<n])) @ line_end) else None)
    \<and> map_option print_chars (multiplication_table n) = (if 1 \<le> n \<and> n \<le> 31 then Some (Inl Out_Of_Bounds) else None)"
proof (cases "n = 0")
  case True
  then show ?thesis by (simp add: multiplication_table_def makerows_def add_seq_def)
next
  case False
  then have n: "0 < n" by simp
  have b: "(\<forall>r \<in> set (add_seq 1 [0..<n]). r * n < 1000) \<longleftrightarrow> n \<le> 31"
  proof
    assume "\<forall>r \<in> set (add_seq 1 [0..<n]). r * n < 1000"
    moreover have "n \<in> set (add_seq 1 [0..<n])" using n by (auto simp: add_seq_def image_iff intro!: bexI [of _ "n - 1"])
    ultimately have "n * n < 1000" by blast
    then have "\<not> 32 * 32 \<le> n * n" by simp
    then show "n \<le> 31" using mult_le_mono [of 32 n 32 n] by linarith
  next
    assume "n \<le> 31"
    then have "r * n < 1000" if "r \<le> n" for r using mult_le_mono [of r 31 n 31] that by linarith
    then show "\<forall>r \<in> set (add_seq 1 [0..<n]). r * n < 1000" by (auto simp: add_seq_def)
  qed
  let ?t = "line_end @ concat (map table_row (make_2d_seq_array [0..<n])) @ line_end"
  have t: "multiplication_table n = (if 1 \<le> n \<and> n \<le> 31 then Some ?t else None)"
    using n b by (simp add: multiplication_table_def makerows_def rows_eq make_2d_seq_array_def comp_def)
      (simp add: add_seq_def comp_def)
  have "CHR 0x00 \<notin> set ?t" using field4_no_end by (auto simp: line_end_def table_row_def)
  then have "print_chars ?t = Inl Out_Of_Bounds" by (rule print_no_end)
  then show ?thesis using t by simp
qed

end
