(* ===== verification/Basic_Tuple.thy ===== *)
theory Basic_Tuple
  imports Prelude
begin

text \<open>
  The comparisons of the tuple of \<^verbatim>\<open>src/Metaprogramming/basic_tuple\<close> (\<^verbatim>\<open>basic_tuple.h\<close>, and with the same text
  \<^verbatim>\<open>basic_tuple.hpp\<close> of \<^verbatim>\<open>cpp17\<close>). A tuple is the list of its values, in an ordered type; an index sequence
  is a list of indices. A comparison that does not compile is \<^const>\<open>None\<close>.
\<close>

section \<open>The operators\<close>

text \<open>\<open>Get<I>\<close> has no base class to convert to when the index is too large.\<close>

definition tuple_get :: "'a list \<Rightarrow> nat \<Rightarrow> 'a option" where
  "tuple_get t i = (if i < length t then Some (t ! i) else None)"

text \<open>The fold over the indices is instantiated for all of them.\<close>

fun tuple_equals_impl :: "'a list \<Rightarrow> 'a list \<Rightarrow> nat list \<Rightarrow> bool option" where
  "tuple_equals_impl lhs rhs [] = Some True"
| "tuple_equals_impl lhs rhs (i # is) =
     (case (tuple_get lhs i, tuple_get rhs i, tuple_equals_impl lhs rhs is) of
        (Some l, Some r, Some b) \<Rightarrow> Some (l = r \<and> b) | _ \<Rightarrow> None)"

text \<open>The statement behind \<open>if constexpr\<close> without an \<open>else\<close> is instantiated for tuples of different sizes, too.\<close>

definition tuple_eq :: "'a list \<Rightarrow> 'a list \<Rightarrow> bool option" where
  "tuple_eq lhs rhs = (if lhs = [] \<and> rhs = [] then Some True
     else (case tuple_equals_impl lhs rhs [0..<length lhs] of None \<Rightarrow> None
       | Some b \<Rightarrow> Some (if length lhs \<noteq> length rhs then False else b)))"

definition tuple_neq :: "'a list \<Rightarrow> 'a list \<Rightarrow> bool option" where
  "tuple_neq lhs rhs = (if lhs = [] \<and> rhs = [] then Some False
     else if length lhs \<noteq> length rhs then Some True
     else map_option Not (tuple_equals_impl lhs rhs [0..<length lhs]))"

fun tuple_lt_impl :: "'a::linorder list \<Rightarrow> nat list \<Rightarrow> 'a list \<Rightarrow> nat list \<Rightarrow> bool option" where
  "tuple_lt_impl lhs (i # is) rhs (j # js) =
     (case (tuple_get lhs i, tuple_get rhs j, tuple_lt_impl lhs is rhs js) of
        (Some l, Some r, Some b) \<Rightarrow> Some (if l = r then b else l < r) | _ \<Rightarrow> None)"
| "tuple_lt_impl lhs is rhs js = Some (if length is = 0 \<and> length js \<noteq> 0 then True else False)"

definition tuple_less :: "'a::linorder list \<Rightarrow> 'a list \<Rightarrow> bool option" where
  "tuple_less lhs rhs = (if lhs = [] \<and> rhs = [] then Some False
     else tuple_lt_impl lhs [0..<length lhs] rhs [0..<length rhs])"

section \<open>What they compute\<close>

lemma equals_from:
  assumes "length t \<le> length u"
  shows "tuple_equals_impl t u [k..<length t] = Some (drop k t = take (length t - k) (drop k u))"
proof (induction "length t - k" arbitrary: k)
  case (Suc n)
  then have k: "k < length t" "k < length u" using assms by auto
  have "tuple_equals_impl t u [Suc k..<length t] = Some (drop (Suc k) t = take (length t - Suc k) (drop (Suc k) u))"
    using Suc by simp
  then show ?case
    using k by (simp add: upt_conv_Cons tuple_get_def Cons_nth_drop_Suc [symmetric] Suc_diff_Suc [symmetric])
qed simp

lemma equals_short:
  assumes "length u < length t" "k \<le> length u"
  shows "tuple_equals_impl t u [k..<length t] = None"
  using assms(2)
proof (induction "length u - k" arbitrary: k)
  case 0
  then show ?case using assms by (simp add: upt_conv_Cons tuple_get_def)
next
  case (Suc n)
  then have "tuple_equals_impl t u [Suc k..<length t] = None" by simp
  then show ?case using Suc assms(1) by (simp add: upt_conv_Cons split: option.splits)
qed

lemma lt_from:
  assumes "k \<le> length t" "k \<le> length u"
  shows "tuple_lt_impl t [k..<length t] u [k..<length u] = Some (ord_class.lexordp (drop k t) (drop k u))"
  using assms
proof (induction "length t - k" arbitrary: k)
  case 0
  then show ?case
    by (cases "k = length u") (simp_all add: upt_conv_Cons Cons_nth_drop_Suc [symmetric])
next
  case (Suc n)
  show ?case
  proof (cases "k = length u")
    case True
    then show ?thesis using Suc.hyps(2) by (simp add: upt_conv_Cons)
  next
    case False
    then have k: "k < length t" "k < length u" using Suc by auto
    then have "tuple_lt_impl t [Suc k..<length t] u [Suc k..<length u] = Some (ord_class.lexordp (drop (Suc k) t) (drop (Suc k) u))"
      using Suc by simp
    then show ?thesis
      using k by (auto simp: upt_conv_Cons tuple_get_def Cons_nth_drop_Suc [symmetric])
  qed
qed

text \<open>C24 (Comparisons of tuples). \<open><\<close> is the lexicographic order, with a prefix below what it is a prefix of, and \<open>!=\<close> is
  inequality, for tuples of any sizes; \<open>==\<close> is equality, but does not compile when the left tuple is the longer one.\<close>

theorem tuple_comparisons:
  "tuple_less t u = Some (ord_class.lexordp t u)
    \<and> tuple_neq t u = Some (t \<noteq> u)
    \<and> tuple_eq t u = (if length u < length t then None else Some (t = u))"
proof (intro conjI)
  show "tuple_less t u = Some (ord_class.lexordp t u)" using lt_from [of 0 t u] by (simp add: tuple_less_def)
  show "tuple_neq t u = Some (t \<noteq> u)"
    using equals_from [of t u 0] by (auto simp: tuple_neq_def)
  show "tuple_eq t u = (if length u < length t then None else Some (t = u))"
    using equals_from [of t u 0] equals_short [of u t 0] by (auto simp: tuple_eq_def not_less)
qed

end
