(* ===== verification/Tuple_Algorithms.thy ===== *)
theory Tuple_Algorithms
  imports Prelude
begin

text \<open>
  The algorithms on tuples of \<^verbatim>\<open>src/Metaprogramming/tuple_algorithms\<close>, in each of their versions. A tuple is the list of
  its values; a callable changes a state of the program, and may throw. Recursion on an index sequence is recursion
  on the list of indices. What does not compile is \<^const>\<open>None\<close>.
\<close>

section \<open>Calls\<close>

text \<open>A call returns, throws, or ends the program when an exception leaves a function that is \<^verbatim>\<open>noexcept\<close>.\<close>

datatype 's run_outcome = Done 's | Thrown 's | Terminated

definition seq :: "'s run_outcome \<Rightarrow> ('s \<Rightarrow> 't run_outcome) \<Rightarrow> ('s \<Rightarrow> 't) \<Rightarrow> 't run_outcome" where
  "seq r f g = (case r of Done s \<Rightarrow> f s | Thrown s \<Rightarrow> Thrown (g s) | Terminated \<Rightarrow> Terminated)"

definition then_do :: "'s run_outcome \<Rightarrow> ('s \<Rightarrow> 's run_outcome) \<Rightarrow> 's run_outcome" where
  "then_do r f = seq r f (\<lambda>s. s)"

definition noexcept :: "'s run_outcome \<Rightarrow> 's run_outcome" where
  "noexcept r = (case r of Thrown s \<Rightarrow> Terminated | _ \<Rightarrow> r)"

type_synonym ('a, 's) element_call = "'a \<Rightarrow> 's \<Rightarrow> 's run_outcome"

lemma then_do_simps [simp]:
  "then_do (Done s) f = f s" "then_do (Thrown s) f = Thrown s" "then_do Terminated f = Terminated"
  by (simp_all add: then_do_def seq_def)

lemma noexcept_simps [simp]:
  "noexcept (Done s) = Done s" "noexcept (Thrown s) = Terminated" "noexcept Terminated = Terminated"
  by (simp_all add: noexcept_def)

lemma noexcept_idem [simp]: "noexcept (noexcept r) = noexcept r"
  by (cases r) simp_all

lemma then_do_Done [simp]: "then_do r Done = r"
  by (cases r) simp_all

lemma noexcept_then [simp]: "noexcept (then_do r (\<lambda>s. noexcept (f s))) = noexcept (then_do r f)"
  by (cases r) simp_all

definition indices :: "'a list \<Rightarrow> nat list" where
  "indices t = [0..<length t]"

section \<open>tuple_for_each\<close>

text \<open>The fold over the comma operator.\<close>

definition for_each_impl :: "'a list \<Rightarrow> ('a, 's) element_call \<Rightarrow> nat list \<Rightarrow> 's \<Rightarrow> 's run_outcome" where
  "for_each_impl t f is s = foldl (\<lambda>r i. then_do r (f (t ! i))) (Done s) is"

definition tuple_for_each :: "'a list \<Rightarrow> ('a, 's) element_call \<Rightarrow> 's \<Rightarrow> 's run_outcome" where
  "tuple_for_each t f = for_each_impl t f (indices t)"

text \<open>The helpers of \<^verbatim>\<open>alt\<close> and the overloads of \<^verbatim>\<open>alt2\<close>.\<close>

fun for_each_helper :: "'a list \<Rightarrow> ('a, 's) element_call \<Rightarrow> nat list \<Rightarrow> 's \<Rightarrow> 's run_outcome" where
  "for_each_helper t f [] s = Done s"
| "for_each_helper t f (i # is) s = then_do (f (t ! i) s) (for_each_helper t f is)"

definition for_each_alt :: "'a list \<Rightarrow> ('a, 's) element_call \<Rightarrow> 's \<Rightarrow> 's run_outcome" where
  "for_each_alt t f = for_each_helper t f (indices t)"

fun for_each_overloads :: "'a list \<Rightarrow> ('a, 's) element_call \<Rightarrow> nat list \<Rightarrow> 's \<Rightarrow> 's run_outcome" where
  "for_each_overloads t f [] s = Done s"
| "for_each_overloads t f (i # is) s = then_do (f (t ! i) s) (for_each_overloads t f is)"

definition for_each_alt2 :: "'a list \<Rightarrow> ('a, 's) element_call \<Rightarrow> 's \<Rightarrow> 's run_outcome" where
  "for_each_alt2 t f = for_each_overloads t f (indices t)"

text \<open>The structures of \<^verbatim>\<open>alt3\<close> end with one index, those of \<^verbatim>\<open>alt4\<close> with none.\<close>

fun for_each_struct :: "'a list \<Rightarrow> ('a, 's) element_call \<Rightarrow> nat list \<Rightarrow> ('s \<Rightarrow> 's run_outcome) option" where
  "for_each_struct t f [] = None"
| "for_each_struct t f [i] = Some (f (t ! i))"
| "for_each_struct t f (i # is) = map_option (\<lambda>next s. then_do (f (t ! i) s) next) (for_each_struct t f is)"

definition for_each_alt3 :: "'a list \<Rightarrow> ('a, 's) element_call \<Rightarrow> ('s \<Rightarrow> 's run_outcome) option" where
  "for_each_alt3 t f = for_each_struct t f (indices t)"

definition apply_one :: "'a list \<Rightarrow> ('a, 's) element_call \<Rightarrow> nat \<Rightarrow> 's \<Rightarrow> 's run_outcome" where
  "apply_one t f i s = f (t ! i) s"

fun for_each_inherit :: "'a list \<Rightarrow> ('a, 's) element_call \<Rightarrow> nat list \<Rightarrow> 's \<Rightarrow> 's run_outcome" where
  "for_each_inherit t f [] s = Done s"
| "for_each_inherit t f (i # is) s = then_do (apply_one t f i s) (for_each_inherit t f is)"

definition for_each_alt4 :: "'a list \<Rightarrow> ('a, 's) element_call \<Rightarrow> 's \<Rightarrow> 's run_outcome" where
  "for_each_alt4 t f = for_each_inherit t f (indices t)"

section \<open>tuple_apply_at\<close>

text \<open>An action that cannot be called with an element, \<^const>\<open>None\<close>, is not called.\<close>

type_synonym ('a, 's) element_action = "'a \<Rightarrow> ('s \<Rightarrow> 's run_outcome) option"

definition apply_at_helper :: "'a list \<Rightarrow> ('a, 's) element_action \<Rightarrow> nat \<Rightarrow> 's \<Rightarrow> 's run_outcome" where
  "apply_at_helper t act i s = (case act (t ! i) of None \<Rightarrow> Done s | Some f \<Rightarrow> f s)"

fun apply_at_impl :: "'a list \<Rightarrow> ('a, 's) element_action \<Rightarrow> nat \<Rightarrow> nat list \<Rightarrow> 's \<Rightarrow> 's run_outcome" where
  "apply_at_impl t act idx [] s = Done s"
| "apply_at_impl t act idx (i # is) s = (if idx = i then apply_at_helper t act i s else apply_at_impl t act idx is s)"

definition tuple_apply_at :: "'a list \<Rightarrow> ('a, 's) element_action \<Rightarrow> nat \<Rightarrow> 's \<Rightarrow> 's run_outcome" where
  "tuple_apply_at t act idx = apply_at_impl t act idx (indices t)"

fun apply_at_struct :: "'a list \<Rightarrow> ('a, 's) element_action \<Rightarrow> nat \<Rightarrow> nat list \<Rightarrow> 's \<Rightarrow> 's run_outcome" where
  "apply_at_struct t act idx [] s = Done s"
| "apply_at_struct t act idx (i # is) s =
     noexcept (if i = idx then apply_at_helper t act i s else apply_at_struct t act idx is s)"

definition apply_at_alt :: "'a list \<Rightarrow> ('a, 's) element_action \<Rightarrow> nat \<Rightarrow> 's \<Rightarrow> 's run_outcome" where
  "apply_at_alt t act idx s = noexcept (apply_at_struct t act idx (indices t) s)"

section \<open>tuple_find_if and tuple_apply_unique\<close>

text \<open>A predicate throws, \<^const>\<open>None\<close>, or has a value.\<close>

type_synonym 'a predicate = "'a \<Rightarrow> bool option"

text \<open>The first version ends with one index; all functions are \<^verbatim>\<open>noexcept\<close>.\<close>

fun find_if_struct :: "'a list \<Rightarrow> 'a predicate \<Rightarrow> nat list \<Rightarrow> nat run_outcome option" where
  "find_if_struct t p [] = None"
| "find_if_struct t p [i] = Some (case p (t ! i) of None \<Rightarrow> Terminated | Some b \<Rightarrow> Done (if b then i else i + 1))"
| "find_if_struct t p (i # is) = (case find_if_struct t p is of None \<Rightarrow> None
     | Some r \<Rightarrow> Some (case p (t ! i) of None \<Rightarrow> Terminated | Some b \<Rightarrow> if b then Done i else r))"

definition tuple_find_if :: "'a list \<Rightarrow> 'a predicate \<Rightarrow> nat run_outcome option" where
  "tuple_find_if t p = find_if_struct t p (indices t)"

fun find_if_overloads :: "'a list \<Rightarrow> 'a predicate \<Rightarrow> nat list \<Rightarrow> nat run_outcome" where
  "find_if_overloads t p [] = Done (length t)"
| "find_if_overloads t p (i # is) =
     (case p (t ! i) of None \<Rightarrow> Terminated | Some b \<Rightarrow> if b then Done i else find_if_overloads t p is)"

definition find_if_alt :: "'a list \<Rightarrow> 'a predicate \<Rightarrow> nat run_outcome" where
  "find_if_alt t p = find_if_overloads t p (indices t)"

text \<open>The overload for no index is declared, not defined.\<close>

definition maybe_invoke :: "('a, 's) element_action \<Rightarrow> 'a \<Rightarrow> 's \<Rightarrow> 's run_outcome" where
  "maybe_invoke act x s = (case act x of None \<Rightarrow> Done s | Some f \<Rightarrow> noexcept (f s))"

fun apply_unique_impl :: "'a list \<Rightarrow> ('a, 's) element_action \<Rightarrow> 'a predicate \<Rightarrow> nat list \<Rightarrow> ('s \<Rightarrow> 's run_outcome) option" where
  "apply_unique_impl t act p [] = None"
| "apply_unique_impl t act p [i] = Some (\<lambda>s. case p (t ! i) of None \<Rightarrow> Terminated
     | Some b \<Rightarrow> if b then maybe_invoke act (t ! i) s else Done s)"
| "apply_unique_impl t act p (i # is) = map_option (\<lambda>next s. case p (t ! i) of None \<Rightarrow> Terminated
     | Some b \<Rightarrow> if b then maybe_invoke act (t ! i) s else next s) (apply_unique_impl t act p is)"

definition tuple_apply_unique :: "'a list \<Rightarrow> ('a, 's) element_action \<Rightarrow> 'a predicate \<Rightarrow> ('s \<Rightarrow> 's run_outcome) option" where
  "tuple_apply_unique t act p = apply_unique_impl t act p (indices t)"

fun apply_unique_struct :: "'a list \<Rightarrow> ('a, 's) element_action \<Rightarrow> 'a predicate \<Rightarrow> nat list \<Rightarrow> 's \<Rightarrow> 's run_outcome" where
  "apply_unique_struct t act p [] s = Done s"
| "apply_unique_struct t act p (i # is) s = (case p (t ! i) of None \<Rightarrow> Terminated
     | Some b \<Rightarrow> if b then maybe_invoke act (t ! i) s else apply_unique_struct t act p is s)"

definition apply_unique_alt :: "'a list \<Rightarrow> ('a, 's) element_action \<Rightarrow> 'a predicate \<Rightarrow> 's \<Rightarrow> 's run_outcome" where
  "apply_unique_alt t act p s = apply_unique_struct t act p (indices t) s"

section \<open>tuple_accumulate\<close>

text \<open>
  A function of an accumulator, passed by reference, and an element: the new value of the accumulator and what it
  returns. \<open>tuple_accumulate\<close> goes on with the result, \<open>tupleAccumulate\<close> with the accumulator.
\<close>

type_synonym ('b, 'a) accumulator = "'b \<Rightarrow> 'a \<Rightarrow> 'b \<times> 'b"

fun accumulate_impl :: "'a list \<Rightarrow> ('b, 'a) accumulator \<Rightarrow> nat list \<Rightarrow> 'b \<Rightarrow> 'b option" where
  "accumulate_impl t f [] b = None"
| "accumulate_impl t f [i] b = Some (snd (f b (t ! i)))"
| "accumulate_impl t f (i # is) b = accumulate_impl t f is (snd (f b (t ! i)))"

definition tuple_accumulate :: "'a list \<Rightarrow> 'b \<Rightarrow> ('b, 'a) accumulator \<Rightarrow> 'b option" where
  "tuple_accumulate t b f = accumulate_impl t f (indices t) b"

definition tupleAccumulate :: "'a list \<Rightarrow> 'b \<Rightarrow> ('b, 'a) accumulator \<Rightarrow> 'b" where
  "tupleAccumulate t b f = foldl (\<lambda>c i. fst (f c (t ! i))) b (indices t)"

section \<open>elementwise_apply\<close>

text \<open>The tuples are a list of lists; a function is called with a list of arguments. All functions are \<^verbatim>\<open>noexcept\<close>.\<close>

definition elementwise_one :: "('a list, 's) element_call \<Rightarrow> 'a list list \<Rightarrow> nat \<Rightarrow> 's \<Rightarrow> 's run_outcome" where
  "elementwise_one f ts i s = noexcept (f (map (\<lambda>t. t ! i) ts) s)"

text \<open>An index has to be below the size of each tuple.\<close>

definition indices_fit :: "nat list \<Rightarrow> 'a list list \<Rightarrow> bool" where
  "indices_fit is ts \<longleftrightarrow> list_all (\<lambda>i. list_all (\<lambda>t. i < length t) ts) is"

definition elementwise_apply :: "('a list, 's) element_call \<Rightarrow> 'a list list \<Rightarrow> 's \<Rightarrow> 's run_outcome option" where
  "elementwise_apply f ts s = (if ts = [] then None else let size = length (hd ts) in
     if list_all (\<lambda>t. size = length t) ts \<and> indices_fit [0..<size] ts
     then Some (foldl (\<lambda>r i. then_do r (elementwise_one f ts i)) (Done s) [0..<size]) else None)"

fun elementwise_overloads :: "('a list, 's) element_call \<Rightarrow> nat list \<Rightarrow> 'a list list \<Rightarrow> 's \<Rightarrow> 's run_outcome" where
  "elementwise_overloads f [] ts s = Done s"
| "elementwise_overloads f (i # is) ts s =
     noexcept (then_do (f (map (\<lambda>t. t ! i) ts) s) (elementwise_overloads f is ts))"

text \<open>The versions \<^verbatim>\<open>alt\<close> and \<^verbatim>\<open>alt2\<close> do not compare the sizes.\<close>

definition elementwise_alt :: "('a list, 's) element_call \<Rightarrow> 'a list list \<Rightarrow> 's \<Rightarrow> 's run_outcome option" where
  "elementwise_alt f ts s = (if ts = [] then None else let is = [0..<length (hd ts)] in
     if indices_fit is ts then Some (elementwise_overloads f is ts s) else None)"

section \<open>The calls they make\<close>

fun each :: "('a, 's) element_call \<Rightarrow> 'a list \<Rightarrow> 's \<Rightarrow> 's run_outcome" where
  "each f [] s = Done s"
| "each f (x # xs) s = then_do (f x s) (each f xs)"

lemma each_Nil [simp]: "each f [] = Done"
  by (rule ext) simp

lemma foldl_then:
  "foldl (\<lambda>r i. then_do r (g i)) r is = then_do r (\<lambda>s. foldl (\<lambda>r i. then_do r (g i)) (Done s) is)"
proof (induction "is" arbitrary: r)
  case (Cons i "is")
  show ?case
    using Cons [of "then_do r (g i)"] Cons [of "g i s" for s] by (cases r) simp_all
qed simp

lemma foldl_each: "foldl (\<lambda>r i. then_do r (g i)) (Done s) is = each g is s"
proof (induction "is" arbitrary: s)
  case (Cons i "is")
  then show ?case using foldl_then [of g "g i s" "is"] by simp
qed simp

lemma each_map: "each f (map g is) = each (\<lambda>i. f (g i)) is"
proof
  show "each f (map g is) s = each (\<lambda>i. f (g i)) is s" for s
    by (induction "is" arbitrary: s) (simp_all, metis)
qed

lemma each_tuple: "each (\<lambda>i. f (t ! i)) (indices t) = each f t"
  using each_map [of f "\<lambda>i. t ! i" "indices t"] by (simp add: indices_def map_nth)

lemma for_each_helper_eq: "for_each_helper t f is = each (\<lambda>i. f (t ! i)) is"
proof
  show "for_each_helper t f is s = each (\<lambda>i. f (t ! i)) is s" for s
    by (induction "is" arbitrary: s) (simp_all, metis)
qed

lemma for_each_overloads_eq: "for_each_overloads t f is = each (\<lambda>i. f (t ! i)) is"
proof
  show "for_each_overloads t f is s = each (\<lambda>i. f (t ! i)) is s" for s
    by (induction "is" arbitrary: s) (simp_all, metis)
qed

lemma for_each_inherit_eq: "for_each_inherit t f is = each (\<lambda>i. f (t ! i)) is"
proof
  show "for_each_inherit t f is s = each (\<lambda>i. f (t ! i)) is s" for s
    by (induction "is" arbitrary: s) (simp_all add: apply_one_def, metis)
qed

lemma for_each_struct_eq:
  "for_each_struct t f is = (if is = [] then None else Some (each (\<lambda>i. f (t ! i)) is))"
proof (induction t f "is" rule: for_each_struct.induct)
  case (2 t f i)
  show ?case by (auto intro!: ext)
next
  case (3 t f i j "is")
  then show ?case by (auto intro!: ext)
qed simp

text \<open>Five loops over a tuple. Each version calls the function with every element in order, up to the first that throws; the
  third cannot be instantiated for the empty tuple.\<close>

theorem for_each_versions:
  "tuple_for_each t f = each f t \<and> for_each_alt t f = each f t \<and> for_each_alt2 t f = each f t
    \<and> for_each_alt3 t f = (if t = [] then None else Some (each f t)) \<and> for_each_alt4 t f = each f t"
proof -
  have "tuple_for_each t f = each f t"
    using each_tuple [of f t] by (auto intro!: ext simp: tuple_for_each_def for_each_impl_def foldl_each)
  then show ?thesis
    using each_tuple [of f t]
    by (simp add: for_each_alt_def for_each_alt2_def for_each_alt3_def for_each_alt4_def for_each_helper_eq
        for_each_overloads_eq for_each_inherit_eq for_each_struct_eq) (simp add: indices_def)
qed

section \<open>One element\<close>

lemma apply_at_impl_eq:
  "apply_at_impl t act idx is s = (if idx \<in> set is then apply_at_helper t act idx s else Done s)"
  by (induction "is") auto

lemma apply_at_struct_eq:
  "noexcept (apply_at_struct t act idx is s) = noexcept (if idx \<in> set is then apply_at_helper t act idx s else Done s)"
  by (induction "is") auto

text \<open>The element at a run-time index. The action is called with the element at the index, if there is one and the action
  takes it. In the second version an exception of the action ends the program, as its functions are \<^verbatim>\<open>noexcept\<close>.\<close>

theorem apply_at_versions:
  "tuple_apply_at t act idx s = (if idx < length t then (case act (t ! idx) of None \<Rightarrow> Done s | Some f \<Rightarrow> f s) else Done s)
    \<and> apply_at_alt t act idx s = noexcept (tuple_apply_at t act idx s)"
  by (simp add: tuple_apply_at_def apply_at_alt_def apply_at_impl_eq apply_at_struct_eq apply_at_helper_def indices_def)

text \<open>The first element for which the predicate holds, unless it throws before.\<close>

fun first_index :: "'a predicate \<Rightarrow> 'a list \<Rightarrow> nat option" where
  "first_index p [] = Some 0"
| "first_index p (x # xs) = (case p x of None \<Rightarrow> None | Some True \<Rightarrow> Some 0 | Some False \<Rightarrow> map_option Suc (first_index p xs))"

definition index_outcome :: "nat option \<Rightarrow> nat run_outcome" where
  "index_outcome r = (case r of None \<Rightarrow> Terminated | Some i \<Rightarrow> Done i)"

lemma find_overloads_from:
  assumes "k \<le> length t"
  shows "find_if_overloads t p [k..<length t] = index_outcome (map_option ((+) k) (first_index p (drop k t)))"
  using assms
proof (induction "length t - k" arbitrary: k)
  case (Suc n)
  have IH: "find_if_overloads t p [Suc k..<length t] = index_outcome (map_option ((+) (Suc k)) (first_index p (drop (Suc k) t)))"
    using Suc by simp
  have "k < length t" using Suc by simp
  then show ?case
    by (auto simp: upt_conv_Cons IH Cons_nth_drop_Suc [symmetric] index_outcome_def option.map_comp comp_def
        split: option.splits bool.splits)
qed (simp add: index_outcome_def)

lemma find_struct_eq:
  assumes "is \<noteq> [] \<Longrightarrow> Suc (last is) = length t"
  shows "find_if_struct t p is = (if is = [] then None else Some (find_if_overloads t p is))"
  using assms by (induction t p "is" rule: find_if_struct.induct) (auto split: option.splits)

lemma last_index: "indices t \<noteq> [] \<Longrightarrow> Suc (last (indices t)) = length t"
  by (cases t) (simp_all add: indices_def)

text \<open>The index of the first element. Both versions return the index of the first element for which the predicate holds, or the
  size; a predicate that throws before ends the program. The first version cannot be instantiated for the empty tuple.\<close>

theorem find_if_versions:
  "find_if_alt t p = index_outcome (first_index p t)
    \<and> tuple_find_if t p = (if t = [] then None else Some (find_if_alt t p))"
proof -
  have "(+) 0 = (\<lambda>n::nat. n)" by auto
  then have "find_if_alt t p = index_outcome (first_index p t)"
    using find_overloads_from [of 0 t p] by (simp add: find_if_alt_def indices_def option.map_ident)
  moreover have "tuple_find_if t p = (if t = [] then None else Some (find_if_alt t p))"
    using find_struct_eq [of "indices t" t p, OF last_index]
    by (simp add: tuple_find_if_def find_if_alt_def) (simp add: indices_def)
  ultimately show ?thesis by blast
qed

lemma apply_unique_struct_eq:
  "apply_unique_struct t act p is s = (case first_index p (map ((!) t) is) of None \<Rightarrow> Terminated
     | Some k \<Rightarrow> if k < length is then maybe_invoke act (t ! (is ! k)) s else Done s)"
  by (induction "is") (auto split: option.splits bool.splits)

lemma apply_unique_impl_eq:
  "apply_unique_impl t act p is = (if is = [] then None else Some (apply_unique_struct t act p is))"
  by (induction t act p "is" rule: apply_unique_impl.induct) (auto intro!: ext split: option.splits)

text \<open>The first element that fits. The action is called with the first element for which the predicate holds, and with no
  other; an exception of either ends the program. The first version is not defined for the empty tuple.\<close>

theorem apply_unique_versions:
  "apply_unique_alt t act p s = (case first_index p t of None \<Rightarrow> Terminated
     | Some i \<Rightarrow> if i < length t then maybe_invoke act (t ! i) s else Done s)
    \<and> tuple_apply_unique t act p = (if t = [] then None else Some (apply_unique_alt t act p))"
proof -
  have i: "i < length t \<Longrightarrow> indices t ! i = i" "length (indices t) = length t" "map ((!) t) (indices t) = t" for i
    by (simp_all add: indices_def map_nth)
  then show ?thesis
    by (auto simp: apply_unique_alt_def tuple_apply_unique_def apply_unique_struct_eq apply_unique_impl_eq
        intro!: ext split: option.splits)
qed

section \<open>All elements\<close>

lemma accumulate_impl_eq:
  "accumulate_impl t f is b = (if is = [] then None else Some (foldl (\<lambda>c i. snd (f c (t ! i))) b is))"
  by (induction t f "is" b rule: accumulate_impl.induct) simp_all

lemma foldl_indices: "foldl (\<lambda>c i. g c (t ! i)) b (indices t) = foldl g b t"
proof -
  have "foldl g b (map ((!) t) (indices t)) = foldl (\<lambda>c i. g c (t ! i)) b (indices t)" by (simp add: foldl_map)
  then show ?thesis by (simp add: indices_def map_nth)
qed

text \<open>Two ways to accumulate. The first folds what the function returns, and is not there for the empty tuple; the second folds what the
  function makes of its argument.\<close>

theorem accumulate_versions:
  "tuple_accumulate t b f = (if t = [] then None else Some (foldl (\<lambda>c x. snd (f c x)) b t))
    \<and> tupleAccumulate t b f = foldl (\<lambda>c x. fst (f c x)) b t"
  using foldl_indices [of "\<lambda>c x. snd (f c x)" t b] foldl_indices [of "\<lambda>c x. fst (f c x)" t b]
  by (simp add: tuple_accumulate_def tupleAccumulate_def accumulate_impl_eq) (simp add: indices_def)

section \<open>Several tuples\<close>

definition columns :: "'a list list \<Rightarrow> nat \<Rightarrow> 'a list list" where
  "columns ts n = map (\<lambda>i. map (\<lambda>t. t ! i) ts) [0..<n]"

lemma each_noexcept: "each (\<lambda>i s. noexcept (f i s)) is s = noexcept (each f is s)"
proof (induction "is" arbitrary: s)
  case (Cons i "is")
  show ?case by (cases "f i s") (simp_all add: Cons)
qed simp

lemma elementwise_overloads_eq: "elementwise_overloads f is ts s = noexcept (each (\<lambda>i. f (map (\<lambda>t. t ! i) ts)) is s)"
proof (induction "is" arbitrary: s)
  case (Cons i "is")
  show ?case by (cases "f (map (\<lambda>t. t ! i) ts) s") (simp_all add: Cons)
qed simp

lemma fits: "indices_fit [0..<n] ts \<longleftrightarrow> (\<forall>t \<in> set ts. n \<le> length t)"
  by (cases n) (auto simp: indices_fit_def list_all_iff)

text \<open>Element by element. The function is called with the first elements of all tuples, then with the second ones, and so on, and an
  exception ends the program. The first version takes tuples of the same size only; the others take the size of the
  first tuple, leave out what the others have behind it, and do not compile when one of them is shorter.\<close>

theorem elementwise_versions:
  "elementwise_apply f ts s = (case ts of [] \<Rightarrow> None | t # us \<Rightarrow>
      if list_all (\<lambda>u. length u = length t) us then Some (noexcept (each f (columns ts (length t)) s)) else None)
    \<and> elementwise_alt f ts s = (case ts of [] \<Rightarrow> None | t # us \<Rightarrow>
      if list_all (\<lambda>u. length t \<le> length u) us then Some (noexcept (each f (columns ts (length t)) s)) else None)"
proof (cases ts)
  case (Cons t us)
  have c: "each f (columns ts n) = each (\<lambda>i. f (map (\<lambda>t. t ! i) ts)) [0..<n]" for n
    unfolding columns_def by (rule each_map)
  have e: "foldl (\<lambda>r i. then_do r (elementwise_one f ts i)) (Done s) [0..<n] = noexcept (each f (columns ts n) s)" for n
  proof -
    have "elementwise_one f ts = (\<lambda>i s. noexcept (f (map (\<lambda>t. t ! i) ts) s))" by (auto intro!: ext simp: elementwise_one_def)
    then show ?thesis
      using each_noexcept [of "\<lambda>i. f (map (\<lambda>t. t ! i) ts)" "[0..<n]" s] by (simp only: foldl_each c)
  qed
  show ?thesis
    using Cons e [of "length t"] c [of "length t"]
    by (auto simp: elementwise_apply_def elementwise_alt_def fits elementwise_overloads_eq list_all_iff Let_def)
qed (simp add: elementwise_apply_def elementwise_alt_def)

end
