(* ===== verification/Modifier_Chain.thy ===== *)
theory Modifier_Chain
  imports Prelude
begin

text \<open>
  The chain of responsibility of \<^verbatim>\<open>src/DesignPatterns/Behavioral/chain_of_resp_2.cpp\<close>: modifiers of a creature that
  hold pointers to the next one. Pointers are positions in the list of all modifiers; as they may form a cycle, a
  call that does not return is \<^const>\<open>None\<close>.
\<close>

section \<open>Modifiers\<close>

record creature =
  attack :: int
  defence :: int

datatype modifier_kind = Plain | No_Bonuses | Double_Attack | Increase_Defence

record modifier =
  kind :: modifier_kind
  creature_of :: nat
  next_of :: "nat option"

definition new_modifier :: "modifier_kind \<Rightarrow> nat \<Rightarrow> modifier" where
  "new_modifier k c = \<lparr>kind = k, creature_of = c, next_of = None\<rparr>"

text \<open>The recursion of \<^verbatim>\<open>add\<close>, to the modifier whose pointer is null.\<close>

partial_function (option) add_end :: "modifier list \<Rightarrow> nat \<Rightarrow> nat option" where
  "add_end ms i = (case next_of (ms ! i) of Some j \<Rightarrow> add_end ms j | None \<Rightarrow> Some i)"

definition add_modifier :: "nat \<Rightarrow> nat option \<Rightarrow> modifier list \<Rightarrow> modifier list option" where
  "add_modifier i cm ms = map_option (\<lambda>e. ms[e := (ms ! e)\<lparr>next_of := cm\<rparr>]) (add_end ms i)"

text \<open>What a modifier does to its creature; \<^const>\<open>None\<close> if it does not call \<^verbatim>\<open>handle\<close> of the base.\<close>

definition own_part :: "modifier \<Rightarrow> creature list \<Rightarrow> (fault + creature list) option" where
  "own_part m cs = (let c = cs ! creature_of m in case kind m of
       Plain \<Rightarrow> Some (Inr cs)
     | No_Bonuses \<Rightarrow> None
     | Double_Attack \<Rightarrow> Some (bnd (checked_int (attack c * 2)) (\<lambda>a. Inr (cs[creature_of m := c\<lparr>attack := a\<rparr>])))
     | Increase_Defence \<Rightarrow> Some (if attack c \<le> 2
         then bnd (checked_int (defence c + 1)) (\<lambda>d. Inr (cs[creature_of m := c\<lparr>defence := d\<rparr>])) else Inr cs))"

partial_function (option) handle_from :: "modifier list \<Rightarrow> nat \<Rightarrow> creature list \<Rightarrow> (fault + creature list) option" where
  "handle_from ms i cs = (case own_part (ms ! i) cs of
       None \<Rightarrow> Some (Inr cs)
     | Some r \<Rightarrow> (case r of Inl e \<Rightarrow> Some (Inl e)
         | Inr cs' \<Rightarrow> (case next_of (ms ! i) of None \<Rightarrow> Some (Inr cs') | Some j \<Rightarrow> handle_from ms j cs')))"

section \<open>Chains\<close>

text \<open>From the modifier at \<open>i\<close> the pointers lead to those at \<open>js\<close>, and no further.\<close>

fun linked :: "modifier list \<Rightarrow> nat \<Rightarrow> nat list \<Rightarrow> bool" where
  "linked ms i [] \<longleftrightarrow> next_of (ms ! i) = None"
| "linked ms i (j # js) \<longleftrightarrow> next_of (ms ! i) = Some j \<and> linked ms j js"

lemma add_end_linked: "linked ms i js \<Longrightarrow> add_end ms i = Some (last (i # js))"
  by (induction js arbitrary: i) (simp_all add: add_end.simps)

lemma linked_update:
  assumes "e \<notin> set (i # js)"
  shows "linked (ms[e := m]) i js = linked ms i js"
  using assms by (induction js arbitrary: i) auto

lemma linked_append:
  assumes "linked ms i js" "distinct (i # js)" "set (i # js) \<subseteq> {..<length ms}"
    and "next_of (ms ! cm) = None" "cm \<notin> set (i # js)"
  shows "linked (ms[last (i # js) := (ms ! last (i # js))\<lparr>next_of := Some cm\<rparr>]) i (js @ [cm])"
  using assms
proof (induction js arbitrary: i)
  case (Cons j js)
  show ?case
  proof (cases "js = []")
    case False
    then have "last js \<noteq> i" using Cons.prems(2) last_in_set [OF False] by auto
    then show ?thesis using Cons False by simp
  qed (use Cons in simp)
qed simp

fun add_all :: "nat \<Rightarrow> nat list \<Rightarrow> modifier list \<Rightarrow> modifier list option" where
  "add_all i [] ms = Some ms"
| "add_all i (cm # cms) ms = (case add_modifier i (Some cm) ms of None \<Rightarrow> None | Some ms' \<Rightarrow> add_all i cms ms')"

definition same_modifiers :: "modifier list \<Rightarrow> modifier list \<Rightarrow> bool" where
  "same_modifiers ms ms' \<longleftrightarrow> map (\<lambda>m. m\<lparr>next_of := None\<rparr>) ms' = map (\<lambda>m. m\<lparr>next_of := None\<rparr>) ms"

lemma same_update: "e < length ms \<Longrightarrow> same_modifiers ms (ms[e := (ms ! e)\<lparr>next_of := p\<rparr>])"
  unfolding same_modifiers_def map_update by (metis (no_types, lifting) list_update_id map_update modifier.surjective modifier.update_convs(3) nth_map)

lemma add_all_from:
  assumes "linked ms i js" "distinct (i # js @ cms)" "set (i # js @ cms) \<subseteq> {..<length ms}"
    and "\<forall>cm \<in> set cms. next_of (ms ! cm) = None"
  shows "\<exists>ms'. add_all i cms ms = Some ms' \<and> linked ms' i (js @ cms) \<and> same_modifiers ms ms'"
  using assms
proof (induction cms arbitrary: ms js)
  case Nil
  then show ?case by (simp add: same_modifiers_def)
next
  case (Cons cm cms)
  let ?e = "last (i # js)" let ?ms = "ms[?e := (ms ! ?e)\<lparr>next_of := Some cm\<rparr>]"
  have e: "?e \<in> set (i # js)" by (rule last_in_set) simp
  have ne: "?e \<notin> set cms" using e Cons.prems(2) by auto
  have "linked ?ms i (js @ [cm])" using Cons.prems by (intro linked_append) auto
  moreover have "\<forall>c \<in> set cms. next_of (?ms ! c) = None"
    using Cons.prems(4) ne by (metis list.set_intros(2) nth_list_update_neq)
  ultimately obtain ms' where "add_all i cms ?ms = Some ms'" "linked ms' i ((js @ [cm]) @ cms)" "same_modifiers ?ms ms'"
    using Cons.IH [of ?ms "js @ [cm]"] Cons.prems(2,3) by auto
  moreover have "same_modifiers ms ?ms" using e Cons.prems(3) by (intro same_update) auto
  ultimately show ?case
    using add_end_linked [OF Cons.prems(1)] by (simp add: add_modifier_def same_modifiers_def)
qed

text \<open>The modifiers in turn, up to one that stops.\<close>

fun apply_parts :: "modifier list \<Rightarrow> creature list \<Rightarrow> fault + creature list" where
  "apply_parts [] cs = Inr cs"
| "apply_parts (m # ms) cs = (case own_part m cs of None \<Rightarrow> Inr cs | Some r \<Rightarrow> bnd r (apply_parts ms))"

lemma handle_linked: "linked ms i js \<Longrightarrow> handle_from ms i cs = Some (apply_parts (map ((!) ms) (i # js)) cs)"
proof (induction js arbitrary: i cs)
  case Nil
  then show ?case by (subst handle_from.simps) (auto simp: bnd_def split: option.splits sum.splits)
next
  case (Cons j js)
  then show ?case by (subst handle_from.simps) (auto simp: bnd_def split: option.splits sum.splits)
qed

lemma own_part_next: "own_part (m\<lparr>next_of := p\<rparr>) = own_part m"
  by (simp add: own_part_def fun_eq_iff Let_def split: modifier_kind.split)

lemma apply_parts_same:
  assumes "same_modifiers ms ms'" "set is \<subseteq> {..<length ms}"
  shows "apply_parts (map ((!) ms') is) cs = apply_parts (map ((!) ms) is) cs"
  using assms(2)
proof (induction "is" arbitrary: cs)
  case (Cons i "is")
  have "length ms' = length ms" using assms(1) unfolding same_modifiers_def by (metis length_map)
  then have "(ms' ! i)\<lparr>next_of := None\<rparr> = (ms ! i)\<lparr>next_of := None\<rparr>"
    using assms(1) Cons.prems unfolding same_modifiers_def by (metis insert_subset lessThan_iff list.simps(15) nth_map)
  then have "own_part (ms' ! i) = own_part (ms ! i)" by (metis own_part_next)
  moreover have "apply_parts (map ((!) ms') is) = apply_parts (map ((!) ms) is)" using Cons by auto
  ultimately show ?case by (simp split: option.split)
qed simp

text \<open>The chain. Modifiers added to a root, each of them once, are called in the order they were added, from the root to
  the first that does not pass on, or until an \<^verbatim>\<open>int\<close> overflows.\<close>

theorem chain_in_order:
  assumes "distinct (root # cms)" "set (root # cms) \<subseteq> {..<length ms}" "\<forall>i \<in> set (root # cms). next_of (ms ! i) = None"
  shows "\<exists>ms'. add_all root cms ms = Some ms' \<and> handle_from ms' root cs = Some (apply_parts (map ((!) ms) (root # cms)) cs)"
proof -
  obtain ms' where ms': "add_all root cms ms = Some ms'" "linked ms' root cms" "same_modifiers ms ms'"
    using add_all_from [of ms root "[]" cms] assms by auto
  then show ?thesis using handle_linked [OF ms'(2), of cs] apply_parts_same [OF ms'(3) assms(2), of cs] by simp
qed

theorem chain_in_order_witness:
  "\<exists>ms'. add_all 0 [1, 2, 3] [new_modifier Plain 0, new_modifier Double_Attack 0, new_modifier Double_Attack 0,
      new_modifier Increase_Defence 0] = Some ms'
    \<and> handle_from ms' 0 [\<lparr>attack = 1, defence = 1\<rparr>] = Some (Inr [\<lparr>attack = 4, defence = 1\<rparr>])"
  using chain_in_order [of 0 "[1, 2, 3]" "[new_modifier Plain 0, new_modifier Double_Attack 0, new_modifier Double_Attack 0,
      new_modifier Increase_Defence 0]" "[\<lparr>attack = 1, defence = 1\<rparr>]"]
  by (simp add: new_modifier_def own_part_def checked_int_def in_int_def int_min_def int_max_def)

section \<open>Cycles\<close>

definition closed_under_next :: "modifier list \<Rightarrow> nat set \<Rightarrow> bool" where
  "closed_under_next ms S \<longleftrightarrow> (\<forall>i \<in> S. \<exists>j \<in> S. next_of (ms ! i) = Some j)"

lemma add_end_cycle:
  assumes "closed_under_next ms S" "i \<in> S"
  shows "add_end ms i = None"
proof -
  have "ms' = ms \<longrightarrow> i \<notin> S" if "add_end ms' i = Some e" for ms' i e
  proof (rule add_end.raw_induct [where P = "\<lambda>ms' i e. ms' = ms \<longrightarrow> i \<notin> S", OF _ that])
    fix f ms' i e
    assume "\<And>ms' i e. f ms' i = Some e \<Longrightarrow> ms' = ms \<longrightarrow> i \<notin> S"
      and "(case next_of (ms' ! i) of None \<Rightarrow> Some i | Some j \<Rightarrow> f ms' j) = Some e"
    then show "ms' = ms \<longrightarrow> i \<notin> S" using assms(1) by (auto simp: closed_under_next_def)
  qed
  then show ?thesis using assms(2) by (cases "add_end ms i") auto
qed

lemma linked_next:
  assumes "linked ms i js" "distinct (i # js)" "k \<in> set (i # js)" "k \<noteq> last (i # js)"
  shows "\<exists>j \<in> set (i # js). next_of (ms ! k) = Some j"
  using assms
proof (induction js arbitrary: i)
  case (Cons j js)
  show ?case
  proof (cases "k = i")
    case False
    then have "\<exists>l \<in> set (j # js). next_of (ms ! k) = Some l" using Cons.prems by (intro Cons.IH) (auto split: if_splits)
    then show ?thesis by auto
  qed (use Cons.prems in simp)
qed simp

lemma linked_cycle:
  assumes "linked ms i js" "distinct (i # js)" "set (i # js) \<subseteq> {..<length ms}" "j \<in> set (i # js)"
  shows "closed_under_next (ms[last (i # js) := (ms ! last (i # js))\<lparr>next_of := Some j\<rparr>]) (set (i # js))"
  unfolding closed_under_next_def
proof
  let ?e = "last (i # js)"
  fix k assume k: "k \<in> set (i # js)"
  show "\<exists>l \<in> set (i # js). next_of (ms[?e := (ms ! ?e)\<lparr>next_of := Some j\<rparr>] ! k) = Some l"
  proof (cases "k = ?e")
    case True
    have "?e < length ms" using k assms(3) unfolding True by blast
    then show ?thesis unfolding True using assms(4) by (intro bexI [of _ j]) simp_all
  next
    case False
    then have "ms[?e := (ms ! ?e)\<lparr>next_of := Some j\<rparr>] ! k = ms ! k" by (metis nth_list_update_neq)
    then show ?thesis using linked_next [OF assms(1,2) k False] by (simp only:)
  qed
qed

lemma handle_cycle:
  assumes "closed_under_next ms S" "\<forall>i \<in> S. kind (ms ! i) \<noteq> No_Bonuses" "i \<in> S" "handle_from ms i cs = Some r"
  shows "r = Inl Signed_Overflow"
proof -
  have "ms' = ms \<longrightarrow> i \<in> S \<longrightarrow> r = Inl Signed_Overflow" if "handle_from ms' i cs = Some r" for ms' i cs r
  proof (rule handle_from.raw_induct [where P = "\<lambda>ms' i cs r. ms' = ms \<longrightarrow> i \<in> S \<longrightarrow> r = Inl Signed_Overflow", OF _ that], intro impI)
    fix f ms' i cs r
    assume IH: "\<And>ms' i cs r. f ms' i cs = Some r \<Longrightarrow> ms' = ms \<longrightarrow> i \<in> S \<longrightarrow> r = Inl Signed_Overflow"
      and f: "(case own_part (ms' ! i) cs of None \<Rightarrow> Some (Inr cs) | Some r \<Rightarrow> (case r of Inl e \<Rightarrow> Some (Inl e)
         | Inr cs' \<Rightarrow> (case next_of (ms' ! i) of None \<Rightarrow> Some (Inr cs') | Some j \<Rightarrow> f ms' j cs'))) = Some r"
      and i: "ms' = ms" "i \<in> S"
    obtain j where j: "next_of (ms ! i) = Some j" "j \<in> S" using assms(1) i by (auto simp: closed_under_next_def)
    have "own_part (ms ! i) cs = Some (Inl Signed_Overflow) \<or> (\<exists>cs'. own_part (ms ! i) cs = Some (Inr cs'))"
      using assms(2) i by (auto simp: own_part_def checked_int_def Let_def bnd_def split: modifier_kind.splits)
    then show "r = Inl Signed_Overflow" using f i j IH by auto
  qed
  then show ?thesis using assms(3,4) by blast
qed

text \<open>C13 (A modifier added twice). Adding a modifier that is in the chain already, or the root itself, makes the pointers a cycle.
  From then on \<^verbatim>\<open>add\<close> never returns; and if no modifier of the chain stops, \<^verbatim>\<open>handle\<close> does not return either, unless
  an \<^verbatim>\<open>int\<close> overflows.\<close>

theorem added_twice:
  assumes "distinct (root # cms)" "set (root # cms) \<subseteq> {..<length ms}" "\<forall>i \<in> set (root # cms). next_of (ms ! i) = None"
    and "c \<in> set (root # cms)"
  shows "\<exists>ms'. add_all root (cms @ [c]) ms = Some ms' \<and> add_modifier root x ms' = None
    \<and> ((\<forall>i \<in> set (root # cms). kind (ms ! i) \<noteq> No_Bonuses) \<longrightarrow>
        handle_from ms' root cs = None \<or> handle_from ms' root cs = Some (Inl Signed_Overflow))"
proof -
  obtain m where m: "add_all root cms ms = Some m" "linked m root cms" "same_modifiers ms m"
    using add_all_from [of ms root "[]" cms] assms(1-3) by auto
  let ?e = "last (root # cms)"
  let ?m = "m[?e := (m ! ?e)\<lparr>next_of := Some c\<rparr>]"
  have len: "length m = length ms" using m(3) unfolding same_modifiers_def by (metis length_map)
  have append: "add_all r (xs @ [c]) ms = (case add_all r xs ms of None \<Rightarrow> None | Some m \<Rightarrow> add_modifier r (Some c) m)" for r xs ms
    by (induction xs arbitrary: ms) (auto split: option.splits)
  have "add_all root (cms @ [c]) ms = Some ?m"
    unfolding append using m(1) add_end_linked [OF m(2)] by (simp add: add_modifier_def)
  moreover have cl: "closed_under_next ?m (set (root # cms))"
    using linked_cycle [OF m(2) assms(1) _ assms(4)] assms(2) len by simp
  then have "add_modifier root x ?m = None" using add_end_cycle [OF cl, of root] by (simp add: add_modifier_def)
  moreover have "handle_from ?m root cs = None \<or> handle_from ?m root cs = Some (Inl Signed_Overflow)"
    if "\<forall>i \<in> set (root # cms). kind (ms ! i) \<noteq> No_Bonuses"
  proof -
    have "kind (?m ! i) = kind (ms ! i)" if "i < length ms" for i
    proof -
      have "kind (m ! i) = kind (ms ! i)"
        using m(3) that len unfolding same_modifiers_def
        by (metis (mono_tags, lifting) modifier.select_convs(1) modifier.surjective modifier.update_convs(3) nth_map)
      moreover have "kind (m[e := (m ! e)\<lparr>next_of := Some c\<rparr>] ! i) = kind (m ! i)" for e
        using that len by (cases "e = i") simp_all
      ultimately show ?thesis by metis
    qed
    then have "\<forall>i \<in> set (root # cms). kind (?m ! i) \<noteq> No_Bonuses" using that assms(2) by auto
    then show ?thesis using handle_cycle [OF cl, of root cs] by (cases "handle_from ?m root cs") auto
  qed
  ultimately show ?thesis by blast
qed

theorem added_twice_witness:
  "\<exists>ms'. add_all 0 [1, 1] [new_modifier Plain 0, new_modifier Increase_Defence 0] = Some ms'
    \<and> add_modifier 0 (Some 1) ms' = None
    \<and> (handle_from ms' 0 [\<lparr>attack = 1, defence = 1\<rparr>] = None \<or> handle_from ms' 0 [\<lparr>attack = 1, defence = 1\<rparr>] = Some (Inl Signed_Overflow))"
  using added_twice [of 0 "[1]" "[new_modifier Plain 0, new_modifier Increase_Defence 0]" 1 "Some 1" "[\<lparr>attack = 1, defence = 1\<rparr>]"]
  by (simp add: new_modifier_def)

end
