(* ===== verification/Chat_Room.thy ===== *)
theory Chat_Room
  imports Prelude
begin

text \<open>
  The mediator of \<^verbatim>\<open>src/DesignPatterns/Behavioral/mediator_1.cpp\<close>: one chat room and its persons. A pointer to a
  person is a position in the list of all persons; the pointer to the room is set or null.
\<close>

section \<open>Persons and the room\<close>

record person =
  name :: string
  in_room :: bool
  chat_log :: "string list"

record chats =
  people :: "nat list"
  persons :: "person list"

definition quoted :: "string \<Rightarrow> string \<Rightarrow> string" where
  "quoted origin message = origin @ '': '' @ [CHR 0x22] @ message @ [CHR 0x22]"

definition receive :: "string \<Rightarrow> string \<Rightarrow> person \<Rightarrow> person" where
  "receive origin message p = p\<lparr>chat_log := chat_log p @ [quoted origin message]\<rparr>"

definition update_person :: "nat \<Rightarrow> (person \<Rightarrow> person) \<Rightarrow> chats \<Rightarrow> chats" where
  "update_person i f c = c\<lparr>persons := (persons c)[i := f (persons c ! i)]\<rparr>"

definition broadcast :: "string \<Rightarrow> string \<Rightarrow> chats \<Rightarrow> chats" where
  "broadcast origin message c = fold (\<lambda>i c. if name (persons c ! i) \<noteq> origin
     then update_person i (receive origin message) c else c) (people c) c"

definition join :: "nat \<Rightarrow> chats \<Rightarrow> chats" where
  "join i c = (let c' = update_person i (\<lambda>p. p\<lparr>in_room := True\<rparr>)
       (broadcast ''room'' (name (persons c ! i) @ '' joins the chat'') c)
     in c'\<lparr>people := people c' @ [i]\<rparr>)"

definition message_to :: "string \<Rightarrow> string \<Rightarrow> string \<Rightarrow> chats \<Rightarrow> chats" where
  "message_to origin who message c = (case List.find (\<lambda>i. name (persons c ! i) = who) (people c) of
     Some i \<Rightarrow> update_person i (receive origin message) c | None \<Rightarrow> c)"

definition say :: "nat \<Rightarrow> string \<Rightarrow> chats \<Rightarrow> fault + chats" where
  "say i message c = (let p = persons c ! i in
     if in_room p then Inr (broadcast (name p) message c) else Inl Null_Deref)"

definition pm :: "nat \<Rightarrow> string \<Rightarrow> string \<Rightarrow> chats \<Rightarrow> fault + chats" where
  "pm i who message c = (let p = persons c ! i in
     if in_room p then Inr (message_to (name p) who message c) else Inl Null_Deref)"

datatype chat_call = Join nat | Say nat string | Pm nat string string

fun chat :: "chat_call list \<Rightarrow> chats \<Rightarrow> fault + chats" where
  "chat [] c = Inr c"
| "chat (Join i # es) c = chat es (join i c)"
| "chat (Say i m # es) c = bnd (say i m c) (chat es)"
| "chat (Pm i who m # es) c = bnd (pm i who m c) (chat es)"

definition new_chats :: "string list \<Rightarrow> chats" where
  "new_chats ns = \<lparr>people = [], persons = map (\<lambda>n. \<lparr>name = n, in_room = False, chat_log = []\<rparr>) ns\<rparr>"

section \<open>What is sent\<close>

lemma update_person_simps [simp]:
  "people (update_person i f c) = people c" "length (persons (update_person i f c)) = length (persons c)"
  by (simp_all add: update_person_def)

lemma update_person_nth: "i < length (persons c) \<Longrightarrow>
    persons (update_person i f c) ! j = (if i = j then f (persons c ! j) else persons c ! j)"
  by (simp add: update_person_def)

lemma receive_simps [simp]:
  "name (receive m n p) = name p" "in_room (receive m n p) = in_room p"
  "chat_log (receive m n p) = chat_log p @ [quoted m n]"
  by (simp_all add: receive_def)

definition adds :: "(nat \<Rightarrow> string list) \<Rightarrow> chats \<Rightarrow> chats \<Rightarrow> bool" where
  "adds f c c' \<longleftrightarrow> people c' = people c \<and> length (persons c') = length (persons c)
     \<and> (\<forall>j < length (persons c). name (persons c' ! j) = name (persons c ! j) \<and> in_room (persons c' ! j) = in_room (persons c ! j)
         \<and> chat_log (persons c' ! j) = chat_log (persons c ! j) @ f j)"

lemma broadcast_adds:
  assumes "set (people c) \<subseteq> {..<length (persons c)}" "distinct (people c)"
  shows "adds (\<lambda>j. if j \<in> set (people c) \<and> name (persons c ! j) \<noteq> origin then [quoted origin msg] else []) c
    (broadcast origin msg c)"
proof -
  have "adds (\<lambda>j. if j \<in> set is \<and> name (persons c ! j) \<noteq> origin then [quoted origin msg] else []) c
      (fold (\<lambda>i c. if name (persons c ! i) \<noteq> origin then update_person i (receive origin msg) c else c) is c)"
    if "set is \<subseteq> {..<length (persons c)}" "distinct is" for "is" c
    using that
  proof (induction "is" arbitrary: c)
    case (Cons i "is")
    let ?c = "if name (persons c ! i) \<noteq> origin then update_person i (receive origin msg) c else c"
    have "adds (\<lambda>j. if j \<in> set is \<and> name (persons ?c ! j) \<noteq> origin then [quoted origin msg] else []) ?c
        (fold (\<lambda>i c. if name (persons c ! i) \<noteq> origin then update_person i (receive origin msg) c else c) is ?c)"
      using Cons.prems by (intro Cons.IH) auto
    then show ?case using Cons.prems by (auto simp: adds_def update_person_nth)
  qed (simp add: adds_def)
  then show ?thesis using assms by (simp add: broadcast_def)
qed

lemma message_adds:
  assumes "set (people c) \<subseteq> {..<length (persons c)}" "distinct (map (\<lambda>i. name (persons c ! i)) (people c))"
  shows "adds (\<lambda>j. if j \<in> set (people c) \<and> name (persons c ! j) = who then [quoted origin msg] else []) c
    (message_to origin who msg c)"
proof (cases "List.find (\<lambda>i. name (persons c ! i) = who) (people c)")
  case None
  then have "message_to origin who msg c = c" by (simp add: message_to_def)
  then show ?thesis using None by (auto simp: adds_def find_None_iff)
next
  case (Some i)
  then have i: "i \<in> set (people c)" "name (persons c ! i) = who" by (auto simp: find_Some_iff)
  then have "j \<in> set (people c) \<and> name (persons c ! j) = who \<longleftrightarrow> j = i" for j
    using assms(2) by (auto simp: distinct_map inj_on_def)
  then show ?thesis using Some i assms(1) by (auto simp: message_to_def adds_def update_person_nth)
qed

section \<open>What is heard\<close>

fun heard :: "string list \<Rightarrow> nat \<Rightarrow> bool \<Rightarrow> chat_call list \<Rightarrow> string list" where
  "heard ns j joined [] = []"
| "heard ns j joined (Join i # es) =
     (if joined then [quoted ''room'' (ns ! i @ '' joins the chat'')] else []) @ heard ns j (joined \<or> i = j) es"
| "heard ns j joined (Say i m # es) = (if joined \<and> i \<noteq> j then [quoted (ns ! i) m] else []) @ heard ns j joined es"
| "heard ns j joined (Pm i who m # es) = (if joined \<and> ns ! j = who then [quoted (ns ! i) m] else []) @ heard ns j joined es"

text \<open>Everyone joins once at most, before speaking.\<close>

fun orderly :: "nat \<Rightarrow> nat list \<Rightarrow> chat_call list \<Rightarrow> bool" where
  "orderly n js [] \<longleftrightarrow> True"
| "orderly n js (Join i # es) \<longleftrightarrow> i < n \<and> i \<notin> set js \<and> orderly n (js @ [i]) es"
| "orderly n js (Say i m # es) \<longleftrightarrow> i \<in> set js \<and> orderly n js es"
| "orderly n js (Pm i who m # es) \<longleftrightarrow> i \<in> set js \<and> orderly n js es"

definition chats_inv :: "string list \<Rightarrow> chats \<Rightarrow> bool" where
  "chats_inv ns c \<longleftrightarrow> length (persons c) = length ns \<and> set (people c) \<subseteq> {..<length ns} \<and> distinct (people c)
     \<and> (\<forall>j < length ns. name (persons c ! j) = ns ! j \<and> in_room (persons c ! j) = (j \<in> set (people c)))"

lemma chat_heard:
  assumes "chats_inv ns c" "distinct ns" "''room'' \<notin> set ns" "orderly (length ns) (people c) es"
  shows "\<exists>c'. chat es c = Inr c' \<and> length (persons c') = length ns \<and> (\<forall>j < length ns. chat_log (persons c' ! j) =
    chat_log (persons c ! j) @ heard ns j (j \<in> set (people c)) es)"
  using assms(1,4)
proof (induction es arbitrary: c)
  case Nil
  then show ?case by (simp add: chats_inv_def)
next
  case (Cons e es)
  note inv = Cons.prems(1)
  have dn: "distinct (map (\<lambda>i. name (persons c ! i)) (people c))"
    using inv assms(2) by (auto simp: chats_inv_def distinct_map inj_on_def nth_eq_iff_index_eq subset_iff)
  have step: ?case if c: "adds f c c'" "chat (e # es) c = chat es c'" "orderly (length ns) (people c) es"
    and h: "\<And>j. j < length ns \<Longrightarrow> heard ns j (j \<in> set (people c)) (e # es) = f j @ heard ns j (j \<in> set (people c)) es" for f c'
  proof -
    have i: "chats_inv ns c'" "people c' = people c" using inv c(1) by (auto simp: chats_inv_def adds_def)
    have "\<exists>c''. chat es c' = Inr c'' \<and> length (persons c'') = length ns \<and> (\<forall>j < length ns. chat_log (persons c'' ! j) =
        chat_log (persons c' ! j) @ heard ns j (j \<in> set (people c')) es)"
      using i c(3) by (intro Cons.IH) simp_all
    then show ?thesis using c(1,2) i(2) h inv by (auto simp: adds_def chats_inv_def)
  qed
  show ?case
  proof (cases e)
    case (Say i m)
    then have "i \<in> set (people c)" "i < length ns" "in_room (persons c ! i)" "name (persons c ! i) = ns ! i"
      using Cons.prems by (auto simp: chats_inv_def)
    moreover have "name (persons c ! j) \<noteq> ns ! i \<longleftrightarrow> i \<noteq> j" if "j < length ns" for j
      using inv assms(2) that calculation(2) by (auto simp: chats_inv_def nth_eq_iff_index_eq)
    ultimately have "adds (\<lambda>j. if j \<in> set (people c) \<and> i \<noteq> j then [quoted (ns ! i) m] else []) c (broadcast (ns ! i) m c)"
      using broadcast_adds [of c "ns ! i" m] inv by (auto simp: chats_inv_def adds_def)
    then show ?thesis
      using Cons.prems(2) Say \<open>in_room (persons c ! i)\<close> \<open>name (persons c ! i) = ns ! i\<close>
      by (intro step [of _ "broadcast (ns ! i) m c"]) (auto simp: say_def)
  next
    case (Pm i who m)
    then have "i \<in> set (people c)" "i < length ns" "in_room (persons c ! i)" "name (persons c ! i) = ns ! i"
      using Cons.prems by (auto simp: chats_inv_def)
    then have "adds (\<lambda>j. if j \<in> set (people c) \<and> ns ! j = who then [quoted (ns ! i) m] else []) c (message_to (ns ! i) who m c)"
      using message_adds [OF _ dn, of who "ns ! i" m] inv by (auto simp: chats_inv_def adds_def)
    then show ?thesis
      using Cons.prems(2) Pm \<open>in_room (persons c ! i)\<close> \<open>name (persons c ! i) = ns ! i\<close>
      by (intro step [of _ "message_to (ns ! i) who m c"]) (auto simp: pm_def)
  next
    case (Join i)
    then have i: "i < length ns" "i \<notin> set (people c)" "orderly (length ns) (people c @ [i]) es"
      using Cons.prems(2) by simp_all
    have ad: "adds (\<lambda>j. if j \<in> set (people c) then [quoted ''room'' (ns ! i @ '' joins the chat'')] else []) c
        (broadcast ''room'' (ns ! i @ '' joins the chat'') c)"
    proof -
      have "name (persons c ! j) \<noteq> ''room''" if "j \<in> set (people c)" for j
        using inv assms(3) that by (metis (no_types, lifting) chats_inv_def lessThan_iff nth_mem subsetD)
      then show ?thesis
        using broadcast_adds [of c "''room''" "ns ! i @ '' joins the chat''"] inv by (auto simp: chats_inv_def adds_def)
    qed
    have l: "i < length (persons (broadcast ''room'' (ns ! i @ '' joins the chat'') c))" "name (persons c ! i) = ns ! i"
      using ad inv i(1) by (auto simp: adds_def chats_inv_def)
    have p: "people (join i c) = people c @ [i]" using ad l by (simp add: join_def Let_def adds_def)
    have q: "persons (join i c) = persons (update_person i (\<lambda>p. p\<lparr>in_room := True\<rparr>) (broadcast ''room'' (ns ! i @ '' joins the chat'') c))"
      using l(2) by (simp add: join_def Let_def)
    have n: "chats_inv ns (join i c)"
      using inv ad i l by (auto simp: chats_inv_def adds_def p q update_person_nth)
    then obtain c'' where "chat es (join i c) = Inr c''" "length (persons c'') = length ns" "\<forall>j < length ns. chat_log (persons c'' ! j) =
        chat_log (persons (join i c) ! j) @ heard ns j (j \<in> set (people (join i c))) es"
      using Cons.IH [of "join i c"] i(3) p by auto
    then show ?thesis
      using Join ad l inv by (auto simp: p q update_person_nth adds_def chats_inv_def)
  qed
qed

text \<open>C20 (What is heard). With different names, and nobody called \<^verbatim>\<open>room\<close>, the log of each person is what the others said and who
  joined since the person joined itself, with the private messages to its name, in order; no null pointer is
  followed.\<close>

theorem everyone_hears:
  assumes "distinct ns" "''room'' \<notin> set ns" "orderly (length ns) [] es"
  shows "\<exists>c. chat es (new_chats ns) = Inr c \<and> map chat_log (persons c) = map (\<lambda>j. heard ns j False es) [0..<length ns]"
proof -
  have "chats_inv ns (new_chats ns)" by (simp add: chats_inv_def new_chats_def)
  moreover have "people (new_chats ns) = []" by (simp add: new_chats_def)
  ultimately obtain c where c: "chat es (new_chats ns) = Inr c"
    "\<forall>j < length ns. chat_log (persons c ! j) = chat_log (persons (new_chats ns) ! j) @ heard ns j False es"
    and "length (persons c) = length ns"
    using chat_heard [of ns "new_chats ns" es] assms by auto
  moreover have "chat_log (persons (new_chats ns) ! j) = []" if "j < length ns" for j using that by (simp add: new_chats_def)
  ultimately have "map chat_log (persons c) = map (\<lambda>j. heard ns j False es) [0..<length ns]"
    by (intro nth_equalityI) simp_all
  then show ?thesis using c(1) by blast
qed

theorem everyone_hears_witness:
  "\<exists>c. chat [Join 0, Join 1, Say 0 ''hi'', Pm 1 ''a'' ''you''] (new_chats [''a'', ''b'']) = Inr c
    \<and> map chat_log (persons c) = [[quoted ''room'' ''b joins the chat'', quoted ''b'' ''you''], [quoted ''a'' ''hi'']]"
  using everyone_hears [of "[''a'', ''b'']" "[Join 0, Join 1, Say 0 ''hi'', Pm 1 ''a'' ''you'']"] by (simp add: upt_rec)

text \<open>A person that speaks before it joins follows the null pointer.\<close>

lemma early_speaker: "\<not> in_room (persons c ! i) \<Longrightarrow> say i m c = Inl Null_Deref"
  by (simp add: say_def)

end
