(* ===== verification/Named_Semaphore.thy ===== *)
theory Named_Semaphore
  imports Prelude "HOL-Library.Signed_Division"
begin

text \<open>
  The named semaphores of \<^verbatim>\<open>src/Multithreading/Semaphore\<close> (\<^verbatim>\<open>Semaphore.hpp\<close>, \<^verbatim>\<open>Semaphore.cpp\<close>). The calls of the system
  are an argument: each takes the state of the system, and returns 0 or the \<^verbatim>\<open>errno\<close> it sets.
\<close>

section \<open>The system\<close>

type_synonym sem = nat

record 'os sem_calls =
  sys_open :: "string \<Rightarrow> int \<Rightarrow> int \<Rightarrow> 'os \<Rightarrow> (int + sem) \<times> 'os"
  sys_unlink :: "string \<Rightarrow> 'os \<Rightarrow> int \<times> 'os"
  sys_wait :: "sem \<Rightarrow> 'os \<Rightarrow> int \<times> 'os"
  sys_trywait :: "sem \<Rightarrow> 'os \<Rightarrow> int \<times> 'os"
  sys_post :: "sem \<Rightarrow> 'os \<Rightarrow> int \<times> 'os"
  sys_timedwait :: "sem \<Rightarrow> int \<Rightarrow> int \<Rightarrow> 'os \<Rightarrow> int \<times> 'os"

definition eagain :: int where "eagain = 11"
definition etimedout :: int where "etimedout = 110"

text \<open>A \<^verbatim>\<open>SemaphoreError\<close> with its code, or the end of the program.\<close>

datatype sem_failure = Semaphore_Error int string | Terminate

section \<open>The operations\<close>

record named_semaphore =
  sem_ptr :: sem
  sem_name :: string

definition construct :: "'os sem_calls \<Rightarrow> string \<Rightarrow> int \<Rightarrow> int \<Rightarrow> 'os \<Rightarrow> (sem_failure + named_semaphore) \<times> 'os" where
  "construct sys n oflags md os = (case sys_open sys n oflags md os of
     (Inl e, os') \<Rightarrow> (Inl (Semaphore_Error e ''sem_open failed''), os')
   | (Inr p, os') \<Rightarrow> (Inr \<lparr>sem_ptr = p, sem_name = n\<rparr>, os'))"

definition unlink_name :: "'os sem_calls \<Rightarrow> string \<Rightarrow> 'os \<Rightarrow> (sem_failure + unit) \<times> 'os" where
  "unlink_name sys n os = (case sys_unlink sys n os of (e, os') \<Rightarrow>
     (if e \<noteq> 0 then Inl (Semaphore_Error e ''sem_unlink failed'') else Inr (), os'))"

definition wait :: "'os sem_calls \<Rightarrow> named_semaphore \<Rightarrow> 'os \<Rightarrow> (sem_failure + unit) \<times> 'os" where
  "wait sys s os = (case sys_wait sys (sem_ptr s) os of (e, os') \<Rightarrow>
     (if e \<noteq> 0 then Inl (Semaphore_Error e ''wait failed'') else Inr (), os'))"

definition try_wait :: "'os sem_calls \<Rightarrow> named_semaphore \<Rightarrow> 'os \<Rightarrow> (sem_failure + bool) \<times> 'os" where
  "try_wait sys s os = (case sys_trywait sys (sem_ptr s) os of (e, os') \<Rightarrow>
     (if e \<noteq> 0 then if e \<noteq> eagain then Inl (Semaphore_Error e ''trywait failed'') else Inr False else Inr True, os'))"

definition post :: "'os sem_calls \<Rightarrow> named_semaphore \<Rightarrow> 'os \<Rightarrow> (sem_failure + unit) \<times> 'os" where
  "post sys s os = (case sys_post sys (sem_ptr s) os of (e, os') \<Rightarrow>
     (if e \<noteq> 0 then Inl (Semaphore_Error e ''post failed'') else Inr (), os'))"

text \<open>The point in time counts nanoseconds; the casts of \<^verbatim>\<open>chrono\<close> truncate towards zero.\<close>

definition timespec :: "int \<Rightarrow> int \<times> int" where
  "timespec timepoint = (let seconds = timepoint sdiv 1000000000 in (seconds, timepoint - seconds * 1000000000))"

definition try_wait_until :: "'os sem_calls \<Rightarrow> named_semaphore \<Rightarrow> int \<Rightarrow> 'os \<Rightarrow> (sem_failure + bool) \<times> 'os" where
  "try_wait_until sys s timepoint os = (case timespec timepoint of (sec, nsec) \<Rightarrow>
     (case sys_timedwait sys (sem_ptr s) sec nsec os of (e, os') \<Rightarrow>
       (if e \<noteq> 0 then if e \<noteq> etimedout then Inl (Semaphore_Error e ''timedwait failed'') else Inr False else Inr True, os')))"

text \<open>The destructor of an owning semaphore.\<close>

definition destroy :: "'os sem_calls \<Rightarrow> named_semaphore \<Rightarrow> 'os \<Rightarrow> (sem_failure + unit) \<times> 'os" where
  "destroy sys s os = (case unlink_name sys (sem_name s) os of
     (Inl e, os') \<Rightarrow> (Inl Terminate, os') | (Inr u, os') \<Rightarrow> (Inr u, os'))"

text \<open>Moving leaves a string with some value, \<open>left\<close>. Construction: the new semaphore, and the one moved from.\<close>

definition move_construct :: "string \<Rightarrow> named_semaphore \<Rightarrow> named_semaphore \<times> named_semaphore" where
  "move_construct left other = (other, other\<lparr>sem_name := left\<rparr>)"

text \<open>Assignment is \<^verbatim>\<open>noexcept\<close>, and does nothing to itself.\<close>

definition semaphore_move_assign :: "'os sem_calls \<Rightarrow> string \<Rightarrow> bool \<Rightarrow> named_semaphore \<Rightarrow> named_semaphore \<Rightarrow> 'os \<Rightarrow>
    (sem_failure + named_semaphore \<times> named_semaphore) \<times> 'os" where
  "semaphore_move_assign sys left same s other os = (if same then (Inr (s, other), os)
     else (case unlink_name sys (sem_name s) os of
         (Inl e, os') \<Rightarrow> (Inl Terminate, os')
       | (Inr u, os') \<Rightarrow> (Inr (other, other\<lparr>sem_name := left\<rparr>), os')))"

section \<open>Properties\<close>

text \<open>The semaphores of a scope are destroyed from the last to the first.\<close>

fun destroy_all :: "'os sem_calls \<Rightarrow> named_semaphore list \<Rightarrow> 'os \<Rightarrow> (sem_failure + unit) \<times> 'os" where
  "destroy_all sys [] os = (Inr (), os)"
| "destroy_all sys (s # ss) os = (case destroy_all sys ss os of
     (Inl e, os') \<Rightarrow> (Inl e, os') | (Inr u, os') \<Rightarrow> destroy sys s os')"

text \<open>A system on which only existing names can be unlinked, and once.\<close>

definition unlinks :: "'os sem_calls \<Rightarrow> ('os \<Rightarrow> string set) \<Rightarrow> bool" where
  "unlinks sys names \<longleftrightarrow> (\<forall>n os. (if n \<in> names os
     then fst (sys_unlink sys n os) = 0 \<and> names (snd (sys_unlink sys n os)) = names os - {n}
     else fst (sys_unlink sys n os) \<noteq> 0 \<and> names (snd (sys_unlink sys n os)) = names os))"

lemma destroy_known:
  assumes "unlinks sys names"
  shows "fst (destroy sys s os) = (if sem_name s \<in> names os then Inr () else Inl Terminate)"
    "names (snd (destroy sys s os)) = names os - {sem_name s}"
proof -
  obtain e os' where u: "sys_unlink sys (sem_name s) os = (e, os')" by fastforce
  have d: "destroy sys s os = (if e \<noteq> 0 then Inl Terminate else Inr (), os')" by (simp add: destroy_def unlink_name_def u)
  have "if sem_name s \<in> names os then e = 0 \<and> names os' = names os - {sem_name s} else e \<noteq> 0 \<and> names os' = names os"
    using assms u unfolding unlinks_def by (metis fst_conv snd_conv)
  then show "fst (destroy sys s os) = (if sem_name s \<in> names os then Inr () else Inl Terminate)"
    "names (snd (destroy sys s os)) = names os - {sem_name s}"
    by (auto simp: d split: if_splits)
qed

text \<open>Semaphores that own their names. Semaphores that own different names, all of which exist, are destroyed without a failure, and
  none of the names is left.\<close>

theorem owners_destroyed:
  assumes "unlinks sys names" "distinct (map sem_name ss)" "sem_name ` set ss \<subseteq> names os"
  shows "fst (destroy_all sys ss os) = Inr () \<and> names (snd (destroy_all sys ss os)) = names os - sem_name ` set ss"
  using assms(2,3)
proof (induction ss)
  case (Cons s ss)
  obtain u os' where d: "destroy_all sys ss os = (Inr u, os')" "names os' = names os - sem_name ` set ss"
    using Cons by (cases "destroy_all sys ss os") auto
  then show ?case using Cons.prems destroy_known [OF assms(1), of s os'] by auto
qed simp

text \<open>Moving an owner ends the program. When a semaphore has been moved into a new one, the destructor of the one moved from
  unlinks a name that does not exist, whatever its string has become, unless it is the name of
  another semaphore: the program is terminated.\<close>

theorem moved_owner_terminates:
  assumes "unlinks sys names" "move_construct left other = (s, moved)"
    and "left = sem_name other \<or> left \<notin> names os"
  shows "fst (destroy_all sys [moved, s] os) = Inl Terminate"
proof -
  have m: "s = other" "sem_name moved = left" using assms(2) by (auto simp: move_construct_def)
  show ?thesis
    using m assms(3) destroy_known [OF assms(1), of s os] destroy_known [OF assms(1), of moved "snd (destroy sys s os)"]
    by (cases "destroy sys s os") (auto split: sum.splits prod.splits)
qed

text \<open>A system whose state is the list of the names.\<close>

definition name_list_calls :: "string list sem_calls" where
  "name_list_calls = \<lparr>sys_open = (\<lambda>n _ _ os. (Inr 0, List.insert n os)),
     sys_unlink = (\<lambda>n os. if n \<in> set os then (0, removeAll n os) else (2, os)),
     sys_wait = (\<lambda>_ os. (0, os)), sys_trywait = (\<lambda>_ os. (eagain, os)), sys_post = (\<lambda>_ os. (0, os)),
     sys_timedwait = (\<lambda>_ _ _ os. (etimedout, os))\<rparr>"

lemma name_list_unlinks: "unlinks name_list_calls set"
  by (auto simp: unlinks_def name_list_calls_def)

theorem owners_destroyed_witness:
  "fst (destroy_all name_list_calls [\<lparr>sem_ptr = 0, sem_name = ''a''\<rparr>, \<lparr>sem_ptr = 1, sem_name = ''b''\<rparr>] [''a'', ''b'', ''c'']) = Inr ()
    \<and> set (snd (destroy_all name_list_calls [\<lparr>sem_ptr = 0, sem_name = ''a''\<rparr>, \<lparr>sem_ptr = 1, sem_name = ''b''\<rparr>] [''a'', ''b'', ''c''])) = {''c''}"
  using owners_destroyed [OF name_list_unlinks, of "[\<lparr>sem_ptr = 0, sem_name = ''a''\<rparr>, \<lparr>sem_ptr = 1, sem_name = ''b''\<rparr>]" "[''a'', ''b'', ''c'']"]
  by (simp add: insert_Diff_if)

theorem moved_owner_terminates_witness:
  "fst (destroy_all name_list_calls [\<lparr>sem_ptr = 0, sem_name = ''''\<rparr>, \<lparr>sem_ptr = 0, sem_name = ''a''\<rparr>] [''a'']) = Inl Terminate"
  using moved_owner_terminates [OF name_list_unlinks, of "''''" "\<lparr>sem_ptr = 0, sem_name = ''a''\<rparr>"
      "\<lparr>sem_ptr = 0, sem_name = ''a''\<rparr>" "\<lparr>sem_ptr = 0, sem_name = ''''\<rparr>" "[''a'']"]
  by (simp add: move_construct_def)

text \<open>Times. From the epoch on, the seconds and nanoseconds are those of the point in time; before it, the nanoseconds are
  negative unless the second is full, which the system refuses.\<close>

theorem timespec_valid:
  "(case timespec t of (sec, nsec) \<Rightarrow> sec * 1000000000 + nsec = t
     \<and> (0 \<le> nsec \<and> nsec < 1000000000 \<longleftrightarrow> 0 \<le> t \<or> t mod 1000000000 = 0))"
proof (cases "0 \<le> t")
  case True
  then have "t sdiv 1000000000 = t div 1000000000" by (cases "t = 0") (simp_all add: signed_divide_int_def)
  moreover have "t - t div 1000000000 * 1000000000 = t mod 1000000000" by (simp add: minus_div_mult_eq_mod)
  ultimately show ?thesis using True by (simp add: timespec_def Let_def)
next
  case False
  define r where "r = (- t) mod 1000000000"
  have "t sdiv 1000000000 = - ((- t) div 1000000000)" using False by (simp add: signed_divide_int_def sgn_if)
  then have "timespec t = (- ((- t) div 1000000000), - r)"
    by (simp add: timespec_def Let_def r_def minus_div_mult_eq_mod [symmetric])
  moreover have "- ((- t) div 1000000000) * 1000000000 - r = t"
    unfolding r_def using div_mult_mod_eq [of "- t" 1000000000] by linarith
  moreover have "0 \<le> r" "r = 0 \<longleftrightarrow> t mod 1000000000 = 0"
    using pos_mod_bound [of 1000000000 t] by (auto simp: r_def zmod_zminus1_eq_if)
  ultimately show ?thesis using False by auto
qed

end
