(* ===== verification/Output_Iterators.thy ===== *)
theory Output_Iterators
  imports Tuple_Algorithms
begin

text \<open>
  The output iterators of \<^verbatim>\<open>src/Metaprogramming/output_iterators\<close>: adaptors that send the values assigned to them on to other
  iterators. An iterator is given by its two operations, assignment through it (\<open>*it = v\<close>) and increment (\<open>++it\<close>);
  its state holds what it writes to. The locale \<open>output_iterator\<close> is what the adaptors promise and what they rely on.
\<close>

section \<open>Copying\<close>

text \<open>\<^verbatim>\<open>std::copy\<close>: assignment, then increment, for each value.\<close>

fun copy_to :: "('v \<Rightarrow> 'i \<Rightarrow> fault + 'i) \<Rightarrow> ('i \<Rightarrow> 'i) \<Rightarrow> 'v list \<Rightarrow> 'i \<Rightarrow> fault + 'i" where
  "copy_to asg adv [] i = Inr i"
| "copy_to asg adv (v # vs) i = bnd (asg v i) (\<lambda>i'. copy_to asg adv vs (adv i'))"

text \<open>
  An iterator that has room for some values takes them: each changes what can be seen of the output as \<open>emit\<close> says.
\<close>

locale output_iterator =
  fixes asg :: "'v \<Rightarrow> 'i \<Rightarrow> fault + 'i"
    and adv :: "'i \<Rightarrow> 'i"
    and room :: "'v list \<Rightarrow> 'i \<Rightarrow> bool"
    and view :: "'i \<Rightarrow> 'o"
    and emit :: "'v \<Rightarrow> 'o \<Rightarrow> 'o"
  assumes takes: "room (v # vs) i \<Longrightarrow> \<exists>i'. asg v i = Inr i' \<and> room vs (adv i') \<and> view (adv i') = emit v (view i)"
begin

lemma copied: "room vs i \<Longrightarrow> \<exists>i'. copy_to asg adv vs i = Inr i' \<and> view i' = fold emit vs (view i)"
proof (induction vs arbitrary: i)
  case (Cons v vs)
  obtain i' where "asg v i = Inr i'" "room vs (adv i')" "view (adv i') = emit v (view i)"
    using takes [OF Cons.prems] by blast
  then show ?case using Cons.IH [of "adv i'"] by simp
qed simp

end

section \<open>Inserters and arrays\<close>

text \<open>
  \<^verbatim>\<open>std::back_inserter\<close>, which \<^verbatim>\<open>src/Patterns/Iterator/inserters.cpp\<close> writes again as \<^verbatim>\<open>Backinserter\<close>, with the two other
  inserters of that file, and a pointer to a place of an array; writing behind the array is a fault.
\<close>

definition push_back :: "'v \<Rightarrow> 'v list \<Rightarrow> fault + 'v list" where
  "push_back v xs = Inr (xs @ [v])"

definition front_insert :: "'v \<Rightarrow> 'v list \<Rightarrow> fault + 'v list" where
  "front_insert v xs = Inr (v # xs)"

definition insert_middle :: "'v \<Rightarrow> 'v list \<times> nat \<Rightarrow> fault + 'v list \<times> nat" where
  "insert_middle v a = Inr (take (snd a) (fst a) @ v # drop (snd a) (fst a), Suc (snd a))"

definition no_step :: "'i \<Rightarrow> 'i" where
  "no_step i = i"

definition snoc :: "'v \<Rightarrow> 'v list \<Rightarrow> 'v list" where
  "snoc v xs = xs @ [v]"

definition array_assign :: "'v \<Rightarrow> 'v list \<times> nat \<Rightarrow> fault + 'v list \<times> nat" where
  "array_assign v a = (if snd a < length (fst a) then Inr ((fst a)[snd a := v], snd a) else Inl Out_Of_Bounds)"

definition array_step :: "'v list \<times> nat \<Rightarrow> 'v list \<times> nat" where
  "array_step a = (fst a, Suc (snd a))"

definition array_room :: "'v list \<Rightarrow> 'v list \<times> nat \<Rightarrow> bool" where
  "array_room vs a \<longleftrightarrow> snd a + length vs \<le> length (fst a)"

definition array_view :: "'v list \<times> nat \<Rightarrow> 'v list" where
  "array_view a = take (snd a) (fst a)"

interpretation inserter: output_iterator push_back no_step "\<lambda>_ _. True" "\<lambda>xs. xs" snoc
  by unfold_locales (simp add: push_back_def no_step_def snoc_def)

interpretation front: output_iterator front_insert no_step "\<lambda>_ _. True" "\<lambda>xs. xs" "(#)"
  by unfold_locales (simp add: front_insert_def no_step_def)

interpretation middle: output_iterator insert_middle no_step "\<lambda>_ a. snd a \<le> length (fst a)" "\<lambda>a. (take (snd a) (fst a), drop (snd a) (fst a))"
    "\<lambda>v (us, ws). (us @ [v], ws)"
  by unfold_locales (simp add: insert_middle_def no_step_def)

interpretation place: output_iterator array_assign array_step array_room array_view snoc
  by unfold_locales (auto simp: array_assign_def array_step_def array_room_def array_view_def snoc_def take_Suc_conv_app_nth)

lemma fold_snoc: "fold snoc vs xs = xs @ vs"
  by (induction vs arbitrary: xs) (simp_all add: snoc_def)

text \<open>What a copy through each inserter leaves.\<close>

lemma fold_middle: "fold (\<lambda>v (us, ws). (us @ [v], ws)) vs (us, ws) = (us @ vs, ws)"
  by (induction vs arbitrary: us) simp_all

theorem inserters_copy:
  assumes "k \<le> length xs"
  shows "copy_to push_back no_step vs xs = Inr (xs @ vs) \<and> copy_to front_insert no_step vs xs = Inr (rev vs @ xs)
    \<and> (\<exists>a. copy_to insert_middle no_step vs (xs, k) = Inr a \<and> fst a = take k xs @ vs @ drop k xs)"
proof (intro conjI)
  show "copy_to push_back no_step vs xs = Inr (xs @ vs)" using inserter.copied [of vs xs] by (simp add: fold_snoc)
  show "copy_to front_insert no_step vs xs = Inr (rev vs @ xs)" using front.copied [of vs xs] by (simp add: fold_Cons_rev)
  obtain a where "copy_to insert_middle no_step vs (xs, k) = Inr a" "(take (snd a) (fst a), drop (snd a) (fst a)) = (take k xs @ vs, drop k xs)"
    using middle.copied [where vs = vs and i = "(xs, k)"] assms by (auto simp: fold_middle)
  then show "\<exists>a. copy_to insert_middle no_step vs (xs, k) = Inr a \<and> fst a = take k xs @ vs @ drop k xs"
    by (metis append_assoc append_take_drop_id prod.inject)
qed

section \<open>The adaptors\<close>

text \<open>The increment of a filter does nothing; it is in the assignment.\<close>

definition filter_assign :: "('v \<Rightarrow> 'i \<Rightarrow> fault + 'i) \<Rightarrow> ('i \<Rightarrow> 'i) \<Rightarrow> ('v \<Rightarrow> bool) \<Rightarrow> 'v \<Rightarrow> 'i \<Rightarrow> fault + 'i" where
  "filter_assign asg adv p v i = (if p v then bnd (asg v i) (\<lambda>i'. Inr (adv i')) else Inr i)"

definition transform_assign :: "('w \<Rightarrow> 'i \<Rightarrow> fault + 'i) \<Rightarrow> ('v \<Rightarrow> 'w) \<Rightarrow> 'v \<Rightarrow> 'i \<Rightarrow> fault + 'i" where
  "transform_assign asg f v i = asg (f v) i"

definition partition_assign :: "('v \<Rightarrow> 'i \<Rightarrow> fault + 'i) \<Rightarrow> ('i \<Rightarrow> 'i) \<Rightarrow> ('v \<Rightarrow> 'j \<Rightarrow> fault + 'j) \<Rightarrow> ('j \<Rightarrow> 'j) \<Rightarrow>
    ('v \<Rightarrow> bool) \<Rightarrow> 'v \<Rightarrow> 'i \<times> 'j \<Rightarrow> fault + 'i \<times> 'j" where
  "partition_assign asg1 adv1 asg2 adv2 p v ij = (if p v
     then bnd (asg1 v (fst ij)) (\<lambda>i'. Inr (adv1 i', snd ij))
     else bnd (asg2 v (snd ij)) (\<lambda>j'. Inr (fst ij, adv2 j')))"

text \<open>The branches of a \<^verbatim>\<open>demux\<close> have a predicate each; the value goes to the first that holds.\<close>

fun demux_assign :: "('v \<Rightarrow> 'i \<Rightarrow> fault + 'i) \<Rightarrow> ('i \<Rightarrow> 'i) \<Rightarrow> ('v \<Rightarrow> bool) list \<Rightarrow> 'v \<Rightarrow> 'i list \<Rightarrow> fault + 'i list" where
  "demux_assign asg adv (p # ps) v (i # is) =
     (if p v then bnd (asg v i) (\<lambda>i'. Inr (adv i' # is)) else bnd (demux_assign asg adv ps v is) (\<lambda>is'. Inr (i # is')))"
| "demux_assign asg adv ps v is = Inr is"

text \<open>
  All functions of a \<^verbatim>\<open>multitransform\<close> get the value, and all iterators are incremented. The value is forwarded to each of the
  functions: \<open>after\<close> is what a call leaves of it, the value itself unless it is an rvalue that was moved from. There are as many
  functions as iterators, which a static assertion sees to.
\<close>

fun multi_assign :: "('w \<Rightarrow> 'i \<Rightarrow> fault + 'i) \<Rightarrow> ('v \<Rightarrow> 'v) \<Rightarrow> ('v \<Rightarrow> 'w) list \<Rightarrow> 'v \<Rightarrow> 'i list \<Rightarrow> fault + 'i list" where
  "multi_assign asg after (f # fs) v (i # is) =
     bnd (asg (f v) i) (\<lambda>i'. bnd (multi_assign asg after fs (after v) is) (\<lambda>is'. Inr (i' # is')))"
| "multi_assign asg after fs v is = Inr is"

definition multi_step :: "('i \<Rightarrow> 'i) \<Rightarrow> 'i list \<Rightarrow> 'i list" where
  "multi_step adv is = map adv is"

text \<open>The elements of a tuple go to one iterator each.\<close>

fun unzip_assign :: "('w \<Rightarrow> 'i \<Rightarrow> fault + 'i) \<Rightarrow> 'w list \<Rightarrow> 'i list \<Rightarrow> fault + 'i list" where
  "unzip_assign asg (w # ws) (i # is) =
     bnd (asg w i) (\<lambda>i'. bnd (unzip_assign asg ws is) (\<lambda>is'. Inr (i' # is')))"
| "unzip_assign asg ws is = Inr is"

definition unzip_alt_assign :: "('w \<Rightarrow> 'i \<Rightarrow> fault + 'i) \<Rightarrow> nat \<Rightarrow> 'w list \<Rightarrow> 'i list \<Rightarrow> fault + 'i list" where
  "unzip_alt_assign asg n = multi_assign asg (\<lambda>t. t) (map (\<lambda>k t. t ! k) [0..<n])"

text \<open>
  \<open>*it++ = v\<close> of a transform iterator: the postfix increment advances the iterator and returns it after the increment. The
  same holds for \<^verbatim>\<open>multitransform\<close> and \<^verbatim>\<open>unzip\<close>.
\<close>

definition transform_post :: "('w \<Rightarrow> 'i \<Rightarrow> fault + 'i) \<Rightarrow> ('i \<Rightarrow> 'i) \<Rightarrow> ('v \<Rightarrow> 'w) \<Rightarrow> 'v \<Rightarrow> 'i \<Rightarrow> fault + 'i" where
  "transform_post asg adv f v i = transform_assign asg f v (adv i)"

section \<open>Each adaptor is an output iterator\<close>

locale filtered_output = output_iterator asg adv room view emit
  for asg :: "'v \<Rightarrow> 'i \<Rightarrow> fault + 'i" and adv :: "'i \<Rightarrow> 'i" and room :: "'v list \<Rightarrow> 'i \<Rightarrow> bool"
    and view :: "'i \<Rightarrow> 'o" and emit :: "'v \<Rightarrow> 'o \<Rightarrow> 'o" +
  fixes p :: "'v \<Rightarrow> bool"

sublocale filtered_output \<subseteq> filtered: output_iterator "filter_assign asg adv p" no_step
  "\<lambda>vs. room (filter p vs)" view "\<lambda>v u. if p v then emit v u else u"
proof
  fix v vs i
  assume r: "room (filter p (v # vs)) i"
  then show "\<exists>i'. filter_assign asg adv p v i = Inr i' \<and> room (filter p vs) (no_step i')
      \<and> view (no_step i') = (if p v then emit v (view i) else view i)"
    using takes [of v "filter p vs" i] by (auto simp: filter_assign_def no_step_def)
qed

locale transformed_output = output_iterator asg adv room view emit
  for asg :: "'v \<Rightarrow> 'i \<Rightarrow> fault + 'i" and adv :: "'i \<Rightarrow> 'i" and room :: "'v list \<Rightarrow> 'i \<Rightarrow> bool"
    and view :: "'i \<Rightarrow> 'o" and emit :: "'v \<Rightarrow> 'o \<Rightarrow> 'o" +
  fixes f :: "'w \<Rightarrow> 'v"

sublocale transformed_output \<subseteq> transformed: output_iterator "transform_assign asg f" adv
  "\<lambda>vs. room (map f vs)" view "\<lambda>v. emit (f v)"
  by unfold_locales (use takes in \<open>simp add: transform_assign_def\<close>)

locale partitioned_output = t: output_iterator asg1 adv1 room1 view1 emit1 + e: output_iterator asg2 adv2 room2 view2 emit2
  for asg1 :: "'v \<Rightarrow> 'i \<Rightarrow> fault + 'i" and adv1 :: "'i \<Rightarrow> 'i" and room1 :: "'v list \<Rightarrow> 'i \<Rightarrow> bool"
    and view1 :: "'i \<Rightarrow> 'o" and emit1 :: "'v \<Rightarrow> 'o \<Rightarrow> 'o"
    and asg2 :: "'v \<Rightarrow> 'j \<Rightarrow> fault + 'j" and adv2 :: "'j \<Rightarrow> 'j" and room2 :: "'v list \<Rightarrow> 'j \<Rightarrow> bool"
    and view2 :: "'j \<Rightarrow> 'u" and emit2 :: "'v \<Rightarrow> 'u \<Rightarrow> 'u" +
  fixes p :: "'v \<Rightarrow> bool"

sublocale partitioned_output \<subseteq> partitioned: output_iterator "partition_assign asg1 adv1 asg2 adv2 p" no_step
  "\<lambda>vs ij. room1 (filter p vs) (fst ij) \<and> room2 (filter (\<lambda>v. \<not> p v) vs) (snd ij)"
  "map_prod view1 view2" "\<lambda>v. if p v then map_prod (emit1 v) id else map_prod id (emit2 v)"
proof
  fix v vs and ij :: "'i \<times> 'j"
  assume r: "room1 (filter p (v # vs)) (fst ij) \<and> room2 (filter (\<lambda>v. \<not> p v) (v # vs)) (snd ij)"
  then show "\<exists>i'. partition_assign asg1 adv1 asg2 adv2 p v ij = Inr i'
      \<and> (room1 (filter p vs) (fst (no_step i')) \<and> room2 (filter (\<lambda>v. \<not> p v) vs) (snd (no_step i')))
      \<and> map_prod view1 view2 (no_step i') = (if p v then map_prod (emit1 v) id else map_prod id (emit2 v)) (map_prod view1 view2 ij)"
    using t.takes [of v "filter p vs" "fst ij"] e.takes [of v "filter (\<lambda>v. \<not> p v) vs" "snd ij"]
    by (cases ij) (auto simp: partition_assign_def no_step_def)
qed

text \<open>What reaches the branches of a \<^verbatim>\<open>demux\<close>.\<close>

fun branches :: "('v \<Rightarrow> bool) list \<Rightarrow> 'v list \<Rightarrow> 'v list list" where
  "branches [] vs = []"
| "branches (p # ps) vs = filter p vs # branches ps (filter (\<lambda>v. \<not> p v) vs)"

fun demux_emit :: "('v \<Rightarrow> 'o \<Rightarrow> 'o) \<Rightarrow> ('v \<Rightarrow> bool) list \<Rightarrow> 'v \<Rightarrow> 'o list \<Rightarrow> 'o list" where
  "demux_emit em (p # ps) v (u # us) = (if p v then em v u # us else u # demux_emit em ps v us)"
| "demux_emit em ps v us = us"

locale demuxed_output = output_iterator asg adv room view emit
  for asg :: "'v \<Rightarrow> 'i \<Rightarrow> fault + 'i" and adv :: "'i \<Rightarrow> 'i" and room :: "'v list \<Rightarrow> 'i \<Rightarrow> bool"
    and view :: "'i \<Rightarrow> 'o" and emit :: "'v \<Rightarrow> 'o \<Rightarrow> 'o" +
  fixes ps :: "('v \<Rightarrow> bool) list"

sublocale demuxed_output \<subseteq> demuxed: output_iterator "demux_assign asg adv ps" no_step
  "\<lambda>vs. list_all2 room (branches ps vs)" "map view" "demux_emit emit ps"
proof
  fix v vs "is"
  have "\<exists>is'. demux_assign asg adv qs v is = Inr is' \<and> list_all2 room (branches qs vs) is'
      \<and> map view is' = demux_emit emit qs v (map view is)" if "list_all2 room (branches qs (v # vs)) is" for qs vs "is"
    using that
  proof (induction qs arbitrary: vs "is")
    case (Cons q qs)
    obtain i js where "is": "is = i # js" using Cons.prems by (cases "is") auto
    show ?case
    proof (cases "q v")
      case True
      then show ?thesis using Cons.prems takes [of v "filter q vs" i] by (auto simp: "is")
    next
      case False
      then obtain js' where "demux_assign asg adv qs v js = Inr js'"
        "list_all2 room (branches qs (filter (\<lambda>v. \<not> q v) vs)) js'" "map view js' = demux_emit emit qs v (map view js)"
        using Cons.prems Cons.IH [of "filter (\<lambda>v. \<not> q v) vs" js] by (auto simp: "is")
      then show ?thesis using False Cons.prems by (simp add: "is")
    qed
  qed simp
  moreover assume "list_all2 room (branches ps (v # vs)) is"
  ultimately show "\<exists>is'. demux_assign asg adv ps v is = Inr is' \<and> list_all2 room (branches ps vs) (no_step is')
      \<and> map view (no_step is') = demux_emit emit ps v (map view is)"
    unfolding no_step_def .
qed

locale multi_output = output_iterator asg adv room view emit
  for asg :: "'v \<Rightarrow> 'i \<Rightarrow> fault + 'i" and adv :: "'i \<Rightarrow> 'i" and room :: "'v list \<Rightarrow> 'i \<Rightarrow> bool"
    and view :: "'i \<Rightarrow> 'o" and emit :: "'v \<Rightarrow> 'o \<Rightarrow> 'o" +
  fixes fs :: "('w \<Rightarrow> 'v) list"

sublocale multi_output \<subseteq> multi: output_iterator "multi_assign asg (\<lambda>v. v) fs" "multi_step adv"
  "\<lambda>vs. list_all2 (\<lambda>f. room (map f vs)) fs" "map view" "\<lambda>v us. map2 (\<lambda>f. emit (f v)) fs us"
proof
  fix v :: 'w and vs "is"
  have "\<exists>is'. multi_assign asg (\<lambda>v. v) gs v is = Inr is' \<and> list_all2 (\<lambda>f. room (map f vs)) gs (map adv is')
      \<and> map view (map adv is') = map2 (\<lambda>f. emit (f v)) gs (map view is)"
    if "list_all2 (\<lambda>f. room (map f (v # vs))) gs is" for gs "is"
    using that
  proof (induction gs arbitrary: "is")
    case (Cons g gs)
    then obtain i js where "is": "is = i # js" by (cases "is") auto
    obtain i' where "asg (g v) i = Inr i'" "room (map g vs) (adv i')" "view (adv i') = emit (g v) (view i)"
      using Cons.prems takes [of "g v" "map g vs" i] by (auto simp: "is")
    moreover obtain js' where "multi_assign asg (\<lambda>v. v) gs v js = Inr js'" "list_all2 (\<lambda>f. room (map f vs)) gs (map adv js')"
      "map view (map adv js') = map2 (\<lambda>f. emit (f v)) gs (map view js)"
      using Cons.prems Cons.IH [of js] by (auto simp: "is")
    ultimately show ?case by (simp add: "is")
  qed simp
  moreover assume "list_all2 (\<lambda>f. room (map f (v # vs))) fs is"
  ultimately show "\<exists>is'. multi_assign asg (\<lambda>v. v) fs v is = Inr is' \<and> list_all2 (\<lambda>f. room (map f vs)) fs (multi_step adv is')
      \<and> map view (multi_step adv is') = map2 (\<lambda>f. emit (f v)) fs (map view is)"
    unfolding multi_step_def .
qed

section \<open>The standard iterators behind an adaptor\<close>

interpretation transform_place: transformed_output array_assign array_step array_room array_view snoc f for f
  by unfold_locales

interpretation filter_transform_place: filtered_output "transform_assign array_assign f" array_step
  "\<lambda>vs. array_room (map f vs)" array_view "\<lambda>v. snoc (f v)" p for f p
  by unfold_locales (rule transform_place.transformed.takes)

interpretation partition_vectors: partitioned_output push_back no_step "\<lambda>_ _. True" "\<lambda>xs. xs" snoc
  push_back no_step "\<lambda>_ _. True" "\<lambda>xs. xs" snoc p for p
  by unfold_locales

interpretation demux_vectors: demuxed_output push_back no_step "\<lambda>_ _. True" "\<lambda>xs. xs" snoc ps for ps
  by unfold_locales

interpretation multi_vectors: multi_output push_back no_step "\<lambda>_ _. True" "\<lambda>xs. xs" snoc fs for fs
  by unfold_locales

lemma fold_snoc_map: "fold (\<lambda>v. snoc (f v)) vs xs = xs @ map f vs"
  by (induction vs arbitrary: xs) (simp_all add: snoc_def)

lemma fold_snoc_filter: "fold (\<lambda>v u. if p v then g v u else u) vs = fold g (filter p vs)"
  by (induction vs) auto

lemma copied_through:
  assumes "length (filter p vs) \<le> length xs"
  shows "\<exists>ys k. copy_to (filter_assign (transform_assign array_assign f) array_step p) no_step vs (xs, 0) = Inr (ys, k)
    \<and> take k ys = map f (filter p vs)"
proof -
  have "array_room (map f (filter p vs)) (xs, 0)" using assms by (simp add: array_room_def)
  note filter_transform_place.filtered.copied [where f = f and p = p and vs = vs and i = "(xs, 0)", OF this]
  then obtain a where a: "copy_to (filter_assign (transform_assign array_assign f) array_step p) no_step vs (xs, 0) = Inr a"
    "array_view a = fold (\<lambda>v u. if p v then snoc (f v) u else u) vs (array_view (xs, 0))"
    by (elim exE conjE)
  have "array_view a = map f (filter p vs)"
    unfolding a(2) fold_snoc_filter [where g = "\<lambda>v. snoc (f v)"] fold_snoc_map by (simp add: array_view_def)
  with a(1) show ?thesis by (cases a) (simp add: array_view_def)
qed

lemma fold_partition:
  "fold (\<lambda>v. if p v then map_prod (snoc v) id else map_prod id (snoc v)) vs (us, ws)
   = (us @ filter p vs, ws @ filter (\<lambda>v. \<not> p v) vs)"
  by (induction vs arbitrary: us ws) (simp_all add: snoc_def)

theorem partitioned_copy:
  "copy_to (partition_assign push_back no_step push_back no_step p) no_step vs ([], [])
   = Inr (filter p vs, filter (\<lambda>v. \<not> p v) vs)"
  using partition_vectors.partitioned.copied [of p vs "([], [])"] by (auto simp: fold_partition map_prod_def)

lemma length_branches [simp]: "length (branches ps vs) = length ps"
  by (induction ps vs rule: branches.induct) simp_all

lemma branches_nth:
  "branches ps vs = map (\<lambda>k. filter (\<lambda>v. (ps ! k) v \<and> list_all (\<lambda>q. \<not> q v) (take k ps)) vs) [0..<length ps]"
proof (rule nth_equalityI)
  fix k
  assume "k < length (branches ps vs)"
  then show "branches ps vs ! k
    = map (\<lambda>k. filter (\<lambda>v. (ps ! k) v \<and> list_all (\<lambda>q. \<not> q v) (take k ps)) vs) [0..<length ps] ! k"
  proof (induction ps vs arbitrary: k rule: branches.induct)
    case (2 p ps vs)
    show ?case
    proof (cases k)
      case (Suc l)
      then show ?thesis using 2 by (auto simp: nth_append intro!: filter_cong simp del: upt_Suc)
    qed (use 2 in \<open>simp del: upt_Suc\<close>)
  qed simp
qed simp

lemma list_all2_True: "list_all2 (\<lambda>_ _. True) xs ys \<longleftrightarrow> length xs = length ys"
  by (simp add: list_all2_conv_all_nth)

lemma fold_demux:
  assumes "length uss = length ps"
  shows "fold (demux_emit snoc ps) vs uss = map2 (@) uss (branches ps vs)"
  using assms
proof (induction vs arbitrary: uss)
  case Nil
  then show ?case by (induction ps arbitrary: uss) (auto simp: length_Suc_conv)
next
  case (Cons v vs)
  have "length (demux_emit snoc ps v uss) = length ps \<and>
    map2 (@) (demux_emit snoc ps v uss) (branches ps ws) = map2 (@) uss (branches ps (v # ws))" for ws
    using Cons.prems
    by (induction ps arbitrary: uss ws) (auto simp: length_Suc_conv snoc_def)
  then show ?case using Cons.IH by simp
qed

text \<open>C31 (each branch of a \<^verbatim>\<open>demux\<close> gets, in order, the values for which its predicate is the first that holds).\<close>

theorem demultiplexed:
  "copy_to (demux_assign push_back no_step ps) no_step vs (replicate (length ps) [])
   = Inr (map (\<lambda>k. filter (\<lambda>v. (ps ! k) v \<and> list_all (\<lambda>q. \<not> q v) (take k ps)) vs) [0..<length ps])"
proof -
  have "map2 (@) (replicate (length ps) []) (branches ps vs) = branches ps vs"
    by (rule nth_equalityI) simp_all
  then show ?thesis
    using demux_vectors.demuxed.copied [of ps vs "replicate (length ps) []"]
    by (simp add: list_all2_True fold_demux branches_nth)
qed

lemma fold_multi:
  assumes "length uss = length fs"
  shows "fold (\<lambda>v us. map2 (\<lambda>f. snoc (f v)) fs us) vs uss = map2 (\<lambda>f u. u @ map f vs) fs uss"
  using assms
proof (induction vs arbitrary: uss)
  case Nil
  then show ?case by (auto intro: nth_equalityI)
next
  case (Cons v vs)
  have "map2 (\<lambda>f u. u @ map f vs) fs (map2 (\<lambda>f. snoc (f v)) fs uss) = map2 (\<lambda>f u. u @ map f (v # vs)) fs uss"
    using Cons.prems by (intro nth_equalityI) (simp_all add: snoc_def)
  then show ?case using Cons by simp
qed

theorem multitransformed:
  "copy_to (multi_assign push_back (\<lambda>v. v) fs) (multi_step no_step) vs (replicate (length fs) []) = Inr (map (\<lambda>f. map f vs) fs)"
proof -
  have "map2 (\<lambda>f u. u @ map f vs) fs (replicate (length fs) []) = map (\<lambda>f. map f vs) fs"
    by (rule nth_equalityI) simp_all
  then show ?thesis
    using multi_vectors.multi.copied [where fs = fs and vs = vs and i = "replicate (length fs) []"]
    by (simp add: list_all2_conv_all_nth fold_multi)
qed

text \<open>Both \<^verbatim>\<open>unzip\<close> iterators do the same with a tuple that has an element for each iterator.\<close>

theorem unzip_versions:
  assumes "length ws = length is"
  shows "unzip_assign asg ws is = unzip_alt_assign asg (length is) ws is"
proof -
  have "unzip_assign asg (drop k us) is = multi_assign asg (\<lambda>t. t) (map (\<lambda>k t. t ! k) [k..<length us]) us is"
    if "k \<le> length us" for k us and "is"
    using that
  proof (induction "length us - k" arbitrary: k "is")
    case (Suc n)
    then have "k < length us" by simp
    then have "drop k us = us ! k # drop (Suc k) us" "[k..<length us] = k # [Suc k..<length us]"
      by (simp_all add: Cons_nth_drop_Suc upt_conv_Cons)
    then show ?case using Suc by (cases "is") simp_all
  qed simp
  from this [of 0 ws "is"] show ?thesis using assms by (simp add: unzip_alt_assign_def)
qed

section \<open>Arrays that are too small, and the postfix increment\<close>

lemma copy_through_filter:
  "copy_to (filter_assign asg adv p) no_step vs i = copy_to asg adv (filter p vs) i"
  by (induction vs arbitrary: i) (auto simp: filter_assign_def no_step_def bnd_def split: sum.splits)

lemma copy_through_transform:
  "copy_to (transform_assign asg f) adv vs i = copy_to asg adv (map f vs) i"
  by (induction vs arbitrary: i) (auto simp: transform_assign_def bnd_def split: sum.splits)

lemma copy_to_array:
  assumes "k \<le> length xs"
  shows "copy_to array_assign array_step vs (xs, k) = (if k + length vs \<le> length xs
    then Inr (take k xs @ vs @ drop (k + length vs) xs, k + length vs) else Inl Out_Of_Bounds)"
  using assms
proof (induction vs arbitrary: xs k)
  case (Cons v vs)
  show ?case
  proof (cases "k < length xs")
    case True
    then show ?thesis using Cons.IH [of "Suc k" "xs[k := v]"]
      by (simp add: array_assign_def array_step_def take_Suc_conv_app_nth)
  qed (simp add: array_assign_def)
qed simp

text \<open>Copying through a filter and a transformation.\<close>

theorem pipeline:
  "copy_to (filter_assign (transform_assign array_assign f) array_step p) no_step vs (xs, 0)
   = (let ys = map f (filter p vs) in if length ys \<le> length xs
      then Inr (ys @ drop (length ys) xs, length ys) else Inl Out_Of_Bounds)"
  by (simp add: copy_through_filter copy_through_transform copy_to_array Let_def)

text \<open>A loop of \<open>*it++ = v\<close> leaves the first place as it is and writes one place behind the values.\<close>

fun copy_post :: "('v \<Rightarrow> 'i \<Rightarrow> fault + 'i) \<Rightarrow> 'v list \<Rightarrow> 'i \<Rightarrow> fault + 'i" where
  "copy_post asg [] i = Inr i"
| "copy_post asg (v # vs) i = bnd (asg v i) (copy_post asg vs)"

lemma copy_post_array:
  assumes "k < length xs"
  shows "copy_post (transform_post array_assign array_step f) vs (xs, k) = (if k + length vs < length xs
    then Inr (take (Suc k) xs @ map f vs @ drop (Suc (k + length vs)) xs, k + length vs) else Inl Out_Of_Bounds)"
  using assms
proof (induction vs arbitrary: xs k)
  case (Cons v vs)
  show ?case
  proof (cases "Suc k < length xs")
    case True
    then show ?thesis using Cons.IH [of "Suc k" "xs[Suc k := f v]"]
      by (simp add: transform_post_def transform_assign_def array_assign_def array_step_def take_Suc_conv_app_nth)
  qed (simp add: transform_post_def transform_assign_def array_assign_def array_step_def)
qed (simp add: append_take_drop_id)

theorem post_increment_shifts:
  "copy_post (transform_post array_assign array_step f) vs (x # xs, 0) = (if length vs \<le> length xs
     then Inr (x # map f vs @ drop (length vs) xs, length vs) else Inl Out_Of_Bounds)"
  by (simp add: copy_post_array less_Suc_eq_le)

end
