(* ===== verification/Tracked_Allocation.thy ===== *)
theory Tracked_Allocation
  imports Prelude
begin

text \<open>
  The trackers of allocations of \<^verbatim>\<open>src/Memory/tracking_allocation\<close>: \<^verbatim>\<open>new_tracker.h\<close>, \<^verbatim>\<open>new_tracker_src_loc.h\<close> with
  the source locations, and \<^verbatim>\<open>new_tracker_src_loc_myalloc.h\<close> with vectors in place of the arrays. Addresses are natural numbers, 0
  is the null pointer; the address that \<^verbatim>\<open>malloc\<close> returns comes with the request. The operators pass the alignment 0. The
  tracing, which only prints, is left out.
\<close>

section \<open>Memory\<close>

text \<open>The blocks that \<^verbatim>\<open>malloc\<close> has given out; freeing anything else is a fault.\<close>

definition std_malloc :: "nat \<Rightarrow> nat set \<Rightarrow> nat set" where
  "std_malloc p h = (if p = 0 then h else insert p h)"

definition std_free :: "nat \<Rightarrow> nat set \<Rightarrow> fault + nat set" where
  "std_free p h = (if p = 0 then Inr h else if p \<in> h then Inr (h - {p}) else Inl Dangling)"

text \<open>The functions are \<^verbatim>\<open>noexcept\<close>: an exception ends the program.\<close>

datatype tracker_failure = Program_Ends | Faulty fault

definition noexcept_call :: "fault + 'a \<Rightarrow> tracker_failure + 'a" where
  "noexcept_call m = (case m of Inl e \<Rightarrow> Inl (if e = Out_Of_Range then Program_Ends else Faulty e) | Inr x \<Rightarrow> Inr x)"

lemma noexcept_call_simps [simp]:
  "noexcept_call (Inr x) = Inr x"
  "noexcept_call (Inl Out_Of_Range) = Inl Program_Ends"
  "e \<noteq> Out_Of_Range \<Longrightarrow> noexcept_call (Inl e) = Inl (Faulty e)"
  by (simp_all add: noexcept_call_def)

lemma noexcept_call_Inr [simp]: "noexcept_call m = Inr x \<longleftrightarrow> m = Inr x"
  by (cases m) (simp_all add: noexcept_call_def)

lemma noexcept_call_Faulty [simp]: "noexcept_call m = Inl (Faulty f) \<longleftrightarrow> f \<noteq> Out_Of_Range \<and> m = Inl f"
  by (cases m) (auto simp: noexcept_call_def)

section \<open>The trackers\<close>

text \<open>\<^verbatim>\<open>at\<close>, the index operator, and \<^verbatim>\<open>std::find\<close>, which gives the end when there is no such element.\<close>

definition put_at :: "'a list \<Rightarrow> nat \<Rightarrow> 'a \<Rightarrow> fault + 'a list" where
  "put_at xs i x = (if i < length xs then Inr (xs[i := x]) else Inl Out_Of_Range)"

definition put_index :: "'a list \<Rightarrow> nat \<Rightarrow> 'a \<Rightarrow> fault + 'a list" where
  "put_index xs i x = (if i < length xs then Inr (xs[i := x]) else Inl Out_Of_Bounds)"

definition find_pos :: "'a \<Rightarrow> 'a list \<Rightarrow> nat" where
  "find_pos x xs = length (takeWhile (\<lambda>y. y \<noteq> x) xs)"

record tracker =
  allocs :: "nat list"
  num_allocs :: int
  num_delete :: int
  total_allocated :: size_t

text \<open>A file, null in a default location, and a line.\<close>

type_synonym src_loc = "string option \<times> nat"

definition no_loc :: src_loc where
  "no_loc = (None, 4294967295)"

record loc_tracker = tracker +
  traces :: "src_loc list"

definition reset_tracker :: "tracker \<Rightarrow> tracker" where
  "reset_tracker t = t\<lparr>allocs := replicate (length (allocs t)) 0, num_allocs := 0, num_delete := 0, total_allocated := 0\<rparr>"

definition reset_loc :: "loc_tracker \<Rightarrow> loc_tracker" where
  "reset_loc t = t\<lparr>allocs := replicate (length (allocs t)) 0, traces := replicate (length (traces t)) no_loc,
     num_allocs := 0, num_delete := 0, total_allocated := 0\<rparr>"

definition reset_vec :: "loc_tracker \<Rightarrow> loc_tracker" where
  "reset_vec t = t\<lparr>allocs := [], traces := [], num_allocs := 0, num_delete := 0, total_allocated := 0\<rparr>"

definition new_tracker :: tracker where
  "new_tracker = \<lparr>allocs = replicate 100 0, num_allocs = 0, num_delete = 0, total_allocated = 0\<rparr>"

definition new_loc :: loc_tracker where
  "new_loc = \<lparr>allocs = replicate 100 0, num_allocs = 0, num_delete = 0, total_allocated = 0, traces = replicate 100 no_loc\<rparr>"

definition new_vec :: loc_tracker where
  "new_vec = \<lparr>allocs = [], num_allocs = 0, num_delete = 0, total_allocated = 0, traces = []\<rparr>"

definition allocate :: "size_t \<Rightarrow> nat \<Rightarrow> tracker \<times> nat set \<Rightarrow> tracker_failure + tracker \<times> nat set" where
  "allocate bytes p s = (case s of (t, h) \<Rightarrow> noexcept_call
     (bnd (checked_int (num_allocs t + 1)) (\<lambda>n.
      bnd (put_at (allocs t) (nat n) p) (\<lambda>as.
      Inr (t\<lparr>num_allocs := n, total_allocated := total_allocated t + bytes, allocs := as\<rparr>, std_malloc p h)))))"

definition deallocate :: "nat \<Rightarrow> tracker \<times> nat set \<Rightarrow> tracker_failure + tracker \<times> nat set" where
  "deallocate p s = (case s of (t, h) \<Rightarrow> noexcept_call
     (bnd (checked_int (num_delete t + 1)) (\<lambda>n.
      bnd (put_at (allocs t) (find_pos p (allocs t)) 0) (\<lambda>as.
      bnd (std_free p h) (\<lambda>h'.
      Inr (t\<lparr>num_delete := n, allocs := as\<rparr>, h'))))))"

definition allocate_loc :: "size_t \<Rightarrow> nat \<Rightarrow> src_loc \<Rightarrow> loc_tracker \<times> nat set \<Rightarrow> tracker_failure + loc_tracker \<times> nat set" where
  "allocate_loc bytes p l s = (case s of (t, h) \<Rightarrow> noexcept_call
     (bnd (checked_int (num_allocs t + 1)) (\<lambda>n.
      bnd (put_at (allocs t) (nat n) p) (\<lambda>as.
      bnd (put_index (traces t) (nat n) l) (\<lambda>ls.
      Inr (t\<lparr>num_allocs := n, total_allocated := total_allocated t + bytes, allocs := as, traces := ls\<rparr>, std_malloc p h))))))"

definition allocate_vec :: "size_t \<Rightarrow> nat \<Rightarrow> src_loc \<Rightarrow> loc_tracker \<times> nat set \<Rightarrow> tracker_failure + loc_tracker \<times> nat set" where
  "allocate_vec bytes p l s = (case s of (t, h) \<Rightarrow> noexcept_call
     (bnd (checked_int (num_allocs t + 1)) (\<lambda>n.
      Inr (t\<lparr>num_allocs := n, total_allocated := total_allocated t + bytes, allocs := allocs t @ [p],
             traces := traces t @ [l]\<rparr>, std_malloc p h))))"

text \<open>The text of the member is the same in both files.\<close>

definition deallocate_loc :: "nat \<Rightarrow> loc_tracker \<times> nat set \<Rightarrow> tracker_failure + loc_tracker \<times> nat set" where
  "deallocate_loc p s = (case s of (t, h) \<Rightarrow> noexcept_call
     (bnd (checked_int (num_delete t + 1)) (\<lambda>n.
      bnd (put_at (allocs t) (find_pos p (allocs t)) 0) (\<lambda>as.
      bnd (put_index (traces t) (find_pos p (allocs t)) no_loc) (\<lambda>ls.
      bnd (std_free p h) (\<lambda>h'.
      Inr (t\<lparr>num_delete := n, allocs := as, traces := ls\<rparr>, h')))))))"

text \<open>What \<^verbatim>\<open>status\<close> prints of the blocks: index, address and location.\<close>

definition status :: "tracker \<Rightarrow> (nat \<times> nat) list" where
  "status t = map (\<lambda>i. (i, allocs t ! i)) (filter (\<lambda>i. allocs t ! i \<noteq> 0) [0..<length (allocs t)])"

definition status_loc :: "loc_tracker \<Rightarrow> (nat \<times> nat \<times> src_loc) list" where
  "status_loc t = map (\<lambda>i. (i, allocs t ! i, traces t ! i)) (filter (\<lambda>i. allocs t ! i \<noteq> 0) [0..<length (allocs t)])"

section \<open>Requests\<close>

text \<open>
  What a program does: \<^verbatim>\<open>new\<close> and \<^verbatim>\<open>delete\<close>, memory that does not come from the operators of the tracker, \<^verbatim>\<open>reset\<close>.
\<close>

datatype request = New size_t nat src_loc | Delete nat | Foreign nat | Reset

fun serve :: "(size_t \<Rightarrow> nat \<Rightarrow> src_loc \<Rightarrow> 't \<times> nat set \<Rightarrow> tracker_failure + 't \<times> nat set) \<Rightarrow>
    (nat \<Rightarrow> 't \<times> nat set \<Rightarrow> tracker_failure + 't \<times> nat set) \<Rightarrow> ('t \<Rightarrow> 't) \<Rightarrow>
    request \<Rightarrow> 't \<times> nat set \<Rightarrow> tracker_failure + 't \<times> nat set" where
  "serve nw dl cl (New b p l) s = nw b p l s"
| "serve nw dl cl (Delete p) s = dl p s"
| "serve nw dl cl (Foreign p) s = Inr (fst s, std_malloc p (snd s))"
| "serve nw dl cl Reset s = Inr (cl (fst s), snd s)"

fun serve_all :: "(request \<Rightarrow> 's \<Rightarrow> tracker_failure + 's) \<Rightarrow> request list \<Rightarrow> 's \<Rightarrow> tracker_failure + 's" where
  "serve_all f [] s = Inr s"
| "serve_all f (r # rs) s = bnd (f r s) (serve_all f rs)"

definition run_tracker :: "request list \<Rightarrow> tracker_failure + tracker \<times> nat set" where
  "run_tracker rs = serve_all (serve (\<lambda>b p l. allocate b p) deallocate reset_tracker) rs (new_tracker, {})"

definition run_loc :: "request list \<Rightarrow> tracker_failure + loc_tracker \<times> nat set" where
  "run_loc rs = serve_all (serve allocate_loc deallocate_loc reset_loc) rs (new_loc, {})"

definition run_vec :: "request list \<Rightarrow> tracker_failure + loc_tracker \<times> nat set" where
  "run_vec rs = serve_all (serve allocate_vec deallocate_loc reset_vec) rs (new_vec, {})"

text \<open>
  The blocks there are, with the number of their allocation, counted from \<open>b\<close>; \<open>see\<close> is what is kept of a location. A proper
  program gets new addresses and deletes blocks it has from the tracker.
\<close>

fun expected :: "nat \<Rightarrow> (src_loc \<Rightarrow> src_loc) \<Rightarrow> request \<Rightarrow> nat \<times> (nat \<times> nat \<times> src_loc) list \<Rightarrow> nat \<times> (nat \<times> nat \<times> src_loc) list" where
  "expected b see (New _ p l) (n, bs) = (Suc n, bs @ [(b + n, p, see l)])"
| "expected b see (Delete p) (n, bs) = (n, filter (\<lambda>(_, q, _). q \<noteq> p) bs)"
| "expected b see (Foreign p) (n, bs) = (n, bs)"
| "expected b see Reset (n, bs) = (0, [])"

fun proper :: "request list \<Rightarrow> nat set \<Rightarrow> nat set \<Rightarrow> bool" where
  "proper [] h t \<longleftrightarrow> True"
| "proper (New _ p _ # rs) h t \<longleftrightarrow> p \<noteq> 0 \<and> p \<notin> h \<and> proper rs (insert p h) (insert p t)"
| "proper (Delete p # rs) h t \<longleftrightarrow> p \<in> t \<and> proper rs (h - {p}) (t - {p})"
| "proper (Foreign p # rs) h t \<longleftrightarrow> p \<noteq> 0 \<and> p \<notin> h \<and> proper rs (insert p h) t"
| "proper (Reset # rs) h t \<longleftrightarrow> proper rs h {}"

fun news :: "request list \<Rightarrow> nat" where
  "news [] = 0"
| "news (New _ _ _ # rs) = Suc (news rs)"
| "news (_ # rs) = news rs"

fun deletes :: "request list \<Rightarrow> nat" where
  "deletes [] = 0"
| "deletes (Delete _ # rs) = Suc (deletes rs)"
| "deletes (_ # rs) = deletes rs"

abbreviation addresses :: "(nat \<times> nat \<times> src_loc) list \<Rightarrow> nat set" where
  "addresses bs \<equiv> set (map (fst \<circ> snd) bs)"

locale tracking =
  fixes nw :: "size_t \<Rightarrow> nat \<Rightarrow> src_loc \<Rightarrow> 't \<times> nat set \<Rightarrow> tracker_failure + 't \<times> nat set"
    and dl :: "nat \<Rightarrow> 't \<times> nat set \<Rightarrow> tracker_failure + 't \<times> nat set"
    and cl :: "'t \<Rightarrow> 't"
    and blocks :: "'t \<Rightarrow> (nat \<times> nat \<times> src_loc) list"
    and wf :: "nat \<Rightarrow> nat \<Rightarrow> 't \<Rightarrow> nat set \<Rightarrow> bool"
    and limit :: nat and b :: nat and see :: "src_loc \<Rightarrow> src_loc"
  assumes new_law: "\<lbrakk>wf n m t h; p \<noteq> 0; p \<notin> h; n < limit\<rbrakk> \<Longrightarrow>
      \<exists>t'. nw k p l (t, h) = Inr (t', insert p h) \<and> wf (Suc n) m t' (insert p h) \<and> blocks t' = blocks t @ [(b + n, p, see l)]"
    and delete_law: "\<lbrakk>wf n m t h; p \<in> addresses (blocks t); int m < int_max\<rbrakk> \<Longrightarrow>
      \<exists>t'. dl p (t, h) = Inr (t', h - {p}) \<and> wf n (Suc m) t' (h - {p}) \<and> blocks t' = filter (\<lambda>(_, q, _). q \<noteq> p) (blocks t)"
    and foreign_law: "\<lbrakk>wf n m t h; p \<noteq> 0; p \<notin> h\<rbrakk> \<Longrightarrow> wf n m t (insert p h)"
    and clear_law: "wf n m t h \<Longrightarrow> wf 0 0 (cl t) h \<and> blocks (cl t) = []"
begin

lemma served:
  assumes "wf n m t h" "proper rs h (addresses (blocks t))" "n + news rs \<le> limit" "int (m + deletes rs) \<le> int_max"
  shows "\<exists>t' h' n' m'. serve_all (serve nw dl cl) rs (t, h) = Inr (t', h') \<and> wf n' m' t' h'
    \<and> (n', blocks t') = fold (expected b see) rs (n, blocks t)"
  using assms
proof (induction rs arbitrary: n m t h)
  case Nil
  then show ?case by auto
next
  case (Cons r rs)
  show ?case
  proof (cases r)
    case (New k p l)
    then obtain t' where t': "nw k p l (t, h) = Inr (t', insert p h)" "wf (Suc n) m t' (insert p h)"
        "blocks t' = blocks t @ [(b + n, p, see l)]"
      using Cons.prems new_law [of n m t h p k l] by auto
    show ?thesis using Cons.IH [OF t'(2)] Cons.prems New t' by simp
  next
    case (Delete p)
    then obtain t' where t': "dl p (t, h) = Inr (t', h - {p})" "wf n (Suc m) t' (h - {p})"
        "blocks t' = filter (\<lambda>(_, q, _). q \<noteq> p) (blocks t)"
      using Cons.prems delete_law [of n m t h p] by auto
    have "addresses (blocks t') = addresses (blocks t) - {p}"
      by (auto simp: t'(3) image_iff)
    then show ?thesis using Cons.IH [OF t'(2)] Cons.prems Delete t' by simp
  next
    case (Foreign p)
    then show ?thesis using Cons.IH [of n m t "insert p h"] Cons.prems foreign_law by (simp add: std_malloc_def)
  next
    case Reset
    then show ?thesis using Cons.IH [of 0 0 "cl t" h] Cons.prems clear_law [of n m t h] by simp
  qed
qed

end

section \<open>Tables\<close>

definition table_ok :: "nat list \<Rightarrow> nat set \<Rightarrow> bool" where
  "table_ok xs h \<longleftrightarrow> 0 \<notin> h \<and> set xs \<subseteq> insert 0 h \<and> (\<forall>i < length xs. \<forall>j < length xs. xs ! i = xs ! j \<longrightarrow> xs ! i \<noteq> 0 \<longrightarrow> i = j)"

lemma table_put:
  assumes ok: "table_ok xs h" and new: "p \<noteq> 0 \<Longrightarrow> p \<notin> h" and i: "i < length xs"
  shows "table_ok (xs[i := p]) (std_malloc p h)"
proof -
  have old: "xs ! j \<noteq> p" if "j < length xs" "p \<noteq> 0" for j
    using nth_mem [OF that(1)] ok new that(2) by (auto simp: table_ok_def)
  have "set (xs[i := p]) \<subseteq> insert 0 (std_malloc p h)"
    using set_update_subset_insert [of xs i p] ok by (auto simp: table_ok_def std_malloc_def)
  moreover have "j = k" if "j < length xs" "k < length xs" "xs[i := p] ! j = xs[i := p] ! k" "xs[i := p] ! j \<noteq> 0" for j k
    using that ok old [OF that(1)] old [OF that(2)] i by (auto simp: table_ok_def nth_list_update split: if_splits)
  moreover have "0 \<notin> std_malloc p h" using ok by (simp add: table_ok_def std_malloc_def)
  ultimately show ?thesis by (auto simp: table_ok_def)
qed

lemma table_append:
  assumes ok: "table_ok xs h" and new: "p \<noteq> 0 \<Longrightarrow> p \<notin> h"
  shows "table_ok (xs @ [p]) (std_malloc p h)"
proof -
  have old: "xs ! j \<noteq> p" if "j < length xs" "p \<noteq> 0" for j
    using nth_mem [OF that(1)] ok new that(2) by (auto simp: table_ok_def)
  have "set (xs @ [p]) \<subseteq> insert 0 (std_malloc p h)" "0 \<notin> std_malloc p h"
    using ok by (auto simp: table_ok_def std_malloc_def)
  moreover have "j = k" if "j \<le> length xs" "k \<le> length xs" "(xs @ [p]) ! j = (xs @ [p]) ! k" "(xs @ [p]) ! j \<noteq> 0" for j k
  proof (cases "j < length xs"; cases "k < length xs")
    assume "j < length xs" "k < length xs"
    then show ?thesis using that ok by (simp add: table_ok_def nth_append)
  qed (use that old [of j] old [of k] in \<open>auto simp: nth_append\<close>)
  ultimately show ?thesis by (simp add: table_ok_def less_Suc_eq_le)
qed

lemma table_more: "table_ok xs h \<Longrightarrow> p \<noteq> 0 \<Longrightarrow> table_ok xs (insert p h)"
  by (auto simp: table_ok_def)

lemma table_zeros: "0 \<notin> h \<Longrightarrow> table_ok (replicate n 0) h" "0 \<notin> h \<Longrightarrow> table_ok [] h"
  by (auto simp: table_ok_def)

lemma find_pos_less: "find_pos x xs < length xs \<longleftrightarrow> x \<in> set xs"
  unfolding find_pos_def by (induction xs) auto

lemma find_pos_nth: "x \<in> set xs \<Longrightarrow> xs ! find_pos x xs = x"
  unfolding find_pos_def by (induction xs) auto

lemma table_clear:
  assumes "table_ok xs h" "p \<in> set xs" "p \<noteq> 0"
  shows "table_ok (xs[find_pos p xs := 0]) (h - {p})"
  unfolding table_ok_def
proof (intro conjI)
  let ?k = "find_pos p xs"
  have k: "?k < length xs" "xs ! ?k = p" using assms by (simp_all add: find_pos_less find_pos_nth)
  show "set (xs[?k := 0]) \<subseteq> insert 0 (h - {p})"
  proof
    fix q
    assume "q \<in> set (xs[?k := 0])"
    then obtain i where "i < length xs" "q = xs[?k := 0] ! i" by (auto simp: in_set_conv_nth)
    then show "q \<in> insert 0 (h - {p})" using assms k
      by (cases "i = ?k") (auto simp: table_ok_def dest: nth_mem)
  qed
  show "\<forall>i<length (xs[?k := 0]). \<forall>j<length (xs[?k := 0]). xs[?k := 0] ! i = xs[?k := 0] ! j \<longrightarrow> xs[?k := 0] ! i \<noteq> 0 \<longrightarrow> i = j"
    using assms k by (auto simp: table_ok_def nth_list_update split: if_splits)
qed (use assms in \<open>simp add: table_ok_def\<close>)

definition report :: "(nat \<Rightarrow> 'l) \<Rightarrow> nat list \<Rightarrow> (nat \<times> nat \<times> 'l) list" where
  "report f xs = map (\<lambda>i. (i, xs ! i, f i)) (filter (\<lambda>i. xs ! i \<noteq> 0) [0..<length xs])"

lemma report_addresses: "(fst \<circ> snd) ` set (report f xs) = set xs - {0}"
  by (force simp: report_def in_set_conv_nth image_iff)

lemma report_put:
  assumes "i < length xs" "xs ! i = 0" "\<And>j. i < j \<Longrightarrow> j < length xs \<Longrightarrow> xs ! j = 0" "p \<noteq> 0"
    "\<And>j. j < i \<Longrightarrow> f' j = f j"
  shows "report f' (xs[i := p]) = report f xs @ [(i, p, f' i)]"
proof -
  have s: "[0..<length xs] = [0..<i] @ i # [Suc i..<length xs]"
    using assms(1) upt_add_eq_append [of 0 i "length xs - i"] by (simp add: upt_conv_Cons)
  have "filter (\<lambda>j. xs ! j \<noteq> 0) [Suc i..<length xs] = []" "filter (\<lambda>j. xs[i := p] ! j \<noteq> 0) [Suc i..<length xs] = []"
    using assms(3) by (auto simp: filter_empty_conv)
  moreover have "filter (\<lambda>j. xs[i := p] ! j \<noteq> 0) [0..<i] = filter (\<lambda>j. xs ! j \<noteq> 0) [0..<i]"
    by (rule filter_cong) auto
  ultimately show ?thesis using assms by (simp add: report_def s)
qed

lemma report_append:
  assumes "p \<noteq> 0" "\<And>j. j < length xs \<Longrightarrow> f' j = f j"
  shows "report f' (xs @ [p]) = report f xs @ [(length xs, p, f' (length xs))]"
proof -
  have "filter (\<lambda>i. (xs @ [p]) ! i \<noteq> 0) [0..<length xs] = filter (\<lambda>i. xs ! i \<noteq> 0) [0..<length xs]"
    by (rule filter_cong) (auto simp: nth_append)
  then show ?thesis using assms by (auto simp: report_def nth_append)
qed

lemma report_clear:
  assumes "table_ok xs h" "p \<in> set xs" "p \<noteq> 0" "\<And>j. j \<noteq> find_pos p xs \<Longrightarrow> f' j = f j"
  shows "report f' (xs[find_pos p xs := 0]) = filter (\<lambda>(_, q, _). q \<noteq> p) (report f xs)"
proof -
  let ?k = "find_pos p xs"
  have k: "?k < length xs" "xs ! ?k = p" using assms by (simp_all add: find_pos_less find_pos_nth)
  have "filter (\<lambda>i. xs[?k := 0] ! i \<noteq> 0) [0..<length xs] = filter (\<lambda>i. xs ! i \<noteq> p) (filter (\<lambda>i. xs ! i \<noteq> 0) [0..<length xs])"
    unfolding filter_filter using assms(1) k assms(3)
    by (intro filter_cong) (auto simp: table_ok_def nth_list_update)
  moreover have "xs[?k := 0] ! i = xs ! i" "f' i = f i" if "xs ! i \<noteq> p" for i
    using that k assms(4) [of i] by (metis nth_list_update_neq)+
  ultimately show ?thesis by (auto simp: report_def filter_map comp_def intro!: map_cong)
qed

section \<open>The trackers keep the contract\<close>

definition array_wf :: "nat \<Rightarrow> nat list \<Rightarrow> nat set \<Rightarrow> bool" where
  "array_wf n xs h \<longleftrightarrow> length xs = 100 \<and> n \<le> 99 \<and> table_ok xs h \<and> xs ! 0 = 0 \<and> (\<forall>j. n < j \<longrightarrow> j < 100 \<longrightarrow> xs ! j = 0)"

definition tracker_wf :: "nat \<Rightarrow> nat \<Rightarrow> tracker \<Rightarrow> nat set \<Rightarrow> bool" where
  "tracker_wf n m t h \<longleftrightarrow> array_wf n (allocs t) h \<and> num_allocs t = int n \<and> num_delete t = int m"

definition loc_wf :: "nat \<Rightarrow> nat \<Rightarrow> loc_tracker \<Rightarrow> nat set \<Rightarrow> bool" where
  "loc_wf n m t h \<longleftrightarrow> array_wf n (allocs t) h \<and> length (traces t) = 100 \<and> num_allocs t = int n \<and> num_delete t = int m"

definition vec_wf :: "nat \<Rightarrow> nat \<Rightarrow> loc_tracker \<Rightarrow> nat set \<Rightarrow> bool" where
  "vec_wf n m t h \<longleftrightarrow> table_ok (allocs t) h \<and> length (allocs t) = n \<and> length (traces t) = n
     \<and> num_allocs t = int n \<and> num_delete t = int m"

definition seen :: "tracker \<Rightarrow> (nat \<times> nat \<times> src_loc) list" where
  "seen t = map (\<lambda>(i, p). (i, p, no_loc)) (status t)"

lemma seen_report: "seen t = report (\<lambda>_. no_loc) (allocs t)"
  by (simp add: seen_def status_def report_def)

lemma status_loc_report: "status_loc t = report ((!) (traces t)) (allocs t)"
  by (simp add: status_loc_def report_def)

lemma array_put:
  assumes "array_wf n xs h" "p \<noteq> 0" "p \<notin> h" "n < 99"
  shows "array_wf (Suc n) (xs[Suc n := p]) (insert p h)"
  using assms table_put [of xs h p "Suc n"] by (simp add: array_wf_def std_malloc_def nth_list_update)

lemma array_clear:
  assumes "array_wf n xs h" "p \<in> set xs" "p \<noteq> 0"
  shows "array_wf n (xs[find_pos p xs := 0]) (h - {p})"
  using assms table_clear [of xs h p] find_pos_less [of p xs] by (auto simp: array_wf_def nth_list_update)

lemma small_int: "int n + 1 \<le> int_max \<Longrightarrow> in_int (int n + 1)" "int n < int_max \<Longrightarrow> in_int (int n + 1)"
  by (auto simp: in_int_def int_min_def)

interpretation arrays: tracking "\<lambda>b p l. allocate b p" deallocate reset_tracker seen tracker_wf 99 1 "\<lambda>_. no_loc"
proof
  fix n m t h p k l
  assume "tracker_wf n m t h" "p \<noteq> 0" "p \<notin> h" "n < 99"
  then show "\<exists>t'. allocate k p (t, h) = Inr (t', insert p h) \<and> tracker_wf (Suc n) m t' (insert p h)
      \<and> seen t' = seen t @ [(1 + n, p, no_loc)]"
    using array_put [of n "allocs t" h p] report_put [of "Suc n" "allocs t" p "\<lambda>_. no_loc" "\<lambda>_. no_loc"]
    by (simp add: allocate_def tracker_wf_def seen_report put_at_def std_malloc_def small_int int_max_def nat_add_distrib array_wf_def)
next
  fix n m t h p
  assume *: "tracker_wf n m t h" "p \<in> addresses (seen t)" "int m < int_max"
  then have p: "p \<in> set (allocs t)" "p \<noteq> 0" "p \<in> h"
    using report_addresses [of "\<lambda>_. no_loc" "allocs t"] by (auto simp: seen_report tracker_wf_def array_wf_def table_ok_def)
  then show "\<exists>t'. deallocate p (t, h) = Inr (t', h - {p}) \<and> tracker_wf n (Suc m) t' (h - {p})
      \<and> seen t' = filter (\<lambda>(_, q, _). q \<noteq> p) (seen t)"
    using * array_clear [of n "allocs t" h p] report_clear [of "allocs t" h p "\<lambda>_. no_loc" "\<lambda>_. no_loc"]
    by (simp add: deallocate_def tracker_wf_def seen_report put_at_def find_pos_less std_free_def small_int)
      (simp add: array_wf_def)
qed (auto simp: tracker_wf_def array_wf_def table_more reset_tracker_def seen_report report_def table_zeros, simp_all add: table_ok_def)

interpretation locations: tracking allocate_loc deallocate_loc reset_loc status_loc loc_wf 99 1 "\<lambda>l. l"
proof
  fix n m t h p k l
  assume "loc_wf n m t h" "p \<noteq> 0" "p \<notin> h" "n < 99"
  then show "\<exists>t'. allocate_loc k p l (t, h) = Inr (t', insert p h) \<and> loc_wf (Suc n) m t' (insert p h)
      \<and> status_loc t' = status_loc t @ [(1 + n, p, l)]"
    using array_put [of n "allocs t" h p] report_put [of "Suc n" "allocs t" p "(!) ((traces t)[Suc n := l])" "(!) (traces t)"]
    by (simp add: allocate_loc_def loc_wf_def status_loc_report put_at_def put_index_def std_malloc_def small_int int_max_def
        nat_add_distrib array_wf_def)
next
  fix n m t h p
  assume *: "loc_wf n m t h" "p \<in> addresses (status_loc t)" "int m < int_max"
  then have p: "p \<in> set (allocs t)" "p \<noteq> 0" "p \<in> h"
    using report_addresses [of "(!) (traces t)" "allocs t"] by (auto simp: status_loc_report loc_wf_def array_wf_def table_ok_def)
  have k: "find_pos p (allocs t) < 100" using p * find_pos_less [of p "allocs t"] by (simp add: loc_wf_def array_wf_def)
  then show "\<exists>t'. deallocate_loc p (t, h) = Inr (t', h - {p}) \<and> loc_wf n (Suc m) t' (h - {p})
      \<and> status_loc t' = filter (\<lambda>(_, q, _). q \<noteq> p) (status_loc t)"
    using p * array_clear [of n "allocs t" h p]
      report_clear [of "allocs t" h p "(!) ((traces t)[find_pos p (allocs t) := no_loc])" "(!) (traces t)"]
    by (simp add: deallocate_loc_def loc_wf_def status_loc_report put_at_def put_index_def find_pos_less std_free_def small_int)
      (simp add: array_wf_def)
qed (auto simp: loc_wf_def array_wf_def table_more reset_loc_def status_loc_report report_def table_zeros, simp_all add: table_ok_def)

interpretation vectors: tracking allocate_vec deallocate_loc reset_vec status_loc vec_wf 2147483647 0 "\<lambda>l. l"
proof
  fix n m t h p k l
  assume "vec_wf n m t h" "p \<noteq> 0" "p \<notin> h" "n < 2147483647"
  then show "\<exists>t'. allocate_vec k p l (t, h) = Inr (t', insert p h) \<and> vec_wf (Suc n) m t' (insert p h)
      \<and> status_loc t' = status_loc t @ [(0 + n, p, l)]"
    using table_append [of "allocs t" h p] report_append [of p "allocs t" "(!) (traces t @ [l])" "(!) (traces t)"]
    by (simp add: allocate_vec_def vec_wf_def status_loc_report std_malloc_def small_int int_max_def nth_append)
next
  fix n m t h p
  assume *: "vec_wf n m t h" "p \<in> addresses (status_loc t)" "int m < int_max"
  then have p: "p \<in> set (allocs t)" "p \<noteq> 0" "p \<in> h"
    using report_addresses [of "(!) (traces t)" "allocs t"] by (auto simp: status_loc_report vec_wf_def table_ok_def)
  have k: "find_pos p (allocs t) < n" using p * find_pos_less [of p "allocs t"] by (simp add: vec_wf_def)
  then show "\<exists>t'. deallocate_loc p (t, h) = Inr (t', h - {p}) \<and> vec_wf n (Suc m) t' (h - {p})
      \<and> status_loc t' = filter (\<lambda>(_, q, _). q \<noteq> p) (status_loc t)"
    using p * table_clear [of "allocs t" h p]
      report_clear [of "allocs t" h p "(!) ((traces t)[find_pos p (allocs t) := no_loc])" "(!) (traces t)"]
    by (simp add: deallocate_loc_def vec_wf_def status_loc_report put_at_def put_index_def find_pos_less std_free_def small_int)
qed (auto simp: vec_wf_def table_more reset_vec_def status_loc_report report_def table_zeros, simp_all add: table_ok_def)

section \<open>Any sequence of requests\<close>

text \<open>\<^verbatim>\<open>malloc\<close> returns null or an address that is not in use; nothing else is asked of the program.\<close>

fun new_address :: "request \<Rightarrow> nat set \<Rightarrow> bool" where
  "new_address (New _ p _) h \<longleftrightarrow> p \<notin> h"
| "new_address (Foreign p) h \<longleftrightarrow> p \<notin> h"
| "new_address _ h \<longleftrightarrow> True"

fun heap_after :: "request \<Rightarrow> nat set \<Rightarrow> nat set" where
  "heap_after (New _ p _) h = std_malloc p h"
| "heap_after (Foreign p) h = std_malloc p h"
| "heap_after (Delete p) h = h - {p}"
| "heap_after Reset h = h"

fun new_addresses :: "request list \<Rightarrow> nat set \<Rightarrow> bool" where
  "new_addresses [] h \<longleftrightarrow> True"
| "new_addresses (r # rs) h \<longleftrightarrow> new_address r h \<and> new_addresses rs (heap_after r h)"

definition benign :: "('t \<Rightarrow> nat set \<Rightarrow> bool) \<Rightarrow> nat set \<Rightarrow> tracker_failure + 't \<times> nat set \<Rightarrow> bool" where
  "benign I h' m = (case m of Inl e \<Rightarrow> e = Program_Ends \<or> e = Faulty Signed_Overflow | Inr (t, h) \<Rightarrow> I t h \<and> h = h')"

lemma all_benign:
  assumes "\<And>r t h. I t h \<Longrightarrow> new_address r h \<Longrightarrow> benign I (heap_after r h) (f r (t, h))"
    and "I t h" "new_addresses rs h" "serve_all f rs (t, h) = Inl e"
  shows "e = Program_Ends \<or> e = Faulty Signed_Overflow"
  using assms(2-)
proof (induction rs arbitrary: t h)
  case (Cons r rs)
  then have r: "benign I (heap_after r h) (f r (t, h))" using assms(1) by simp
  show ?case
  proof (cases "f r (t, h)")
    case (Inl e')
    then show ?thesis using Cons.prems r by (simp add: benign_def)
  next
    case (Inr s)
    then show ?thesis using Cons r by (cases s) (simp add: benign_def)
  qed
qed simp

definition same_size :: "loc_tracker \<Rightarrow> nat set \<Rightarrow> bool" where
  "same_size t h \<longleftrightarrow> table_ok (allocs t) h \<and> length (traces t) = length (allocs t)"

lemma table_delete:
  assumes "table_ok xs h" "p \<in> set xs"
  shows "table_ok (xs[find_pos p xs := 0]) (h - {p})" "std_free p h = Inr (h - {p})"
proof -
  show "table_ok (xs[find_pos p xs := 0]) (h - {p})"
  proof (cases "p = 0")
    case True
    moreover have "xs[find_pos 0 xs := 0] = xs"
      using find_pos_nth [of 0 xs] assms True by (metis list_update_id)
    ultimately show ?thesis using assms by (simp add: table_ok_def)
  qed (use assms table_clear in auto)
  show "std_free p h = Inr (h - {p})" using assms by (auto simp: std_free_def table_ok_def)
qed

lemma table_put_any: "table_ok xs h \<Longrightarrow> p \<notin> h \<Longrightarrow> i < length xs \<Longrightarrow> table_ok (xs[i := p]) (std_malloc p h)"
  by (rule table_put) simp_all

lemma table_malloc: "table_ok xs h \<Longrightarrow> table_ok xs (std_malloc p h)"
  by (auto simp: table_ok_def std_malloc_def)

lemmas benign_simps = benign_def put_at_def put_index_def checked_int_def find_pos_less table_delete table_malloc
  noexcept_call_def bnd_def

lemma benign_tracker:
  assumes ok: "table_ok (allocs t) h" and new: "new_address r h"
  shows "benign (\<lambda>t. table_ok (allocs t)) (heap_after r h) (serve (\<lambda>b p l. allocate b p) deallocate reset_tracker r (t, h))"
proof (cases r)
  case (New b p l)
  then show ?thesis using ok new table_put_any [OF ok, of p] by (simp add: allocate_def benign_simps)
next
  case (Delete p)
  then show ?thesis using ok by (simp add: deallocate_def benign_simps)
next
  case Reset
  then show ?thesis using ok by (simp add: reset_tracker_def benign_def table_zeros table_ok_def [of "allocs t"])
qed (use ok in \<open>simp add: benign_def table_malloc\<close>)

lemma benign_loc:
  assumes ok: "same_size t h" and new: "new_address r h"
  shows "benign same_size (heap_after r h) (serve allocate_loc deallocate_loc reset_loc r (t, h))"
proof (cases r)
  case (New b p l)
  then show ?thesis using ok new table_put_any [of "allocs t" h p]
    by (simp add: allocate_loc_def benign_simps same_size_def)
next
  case (Delete p)
  then show ?thesis using ok find_pos_less [of p "allocs t"] table_delete [of "allocs t" h p]
    by (simp add: deallocate_loc_def benign_simps same_size_def)
next
  case Reset
  then show ?thesis using ok by (simp add: reset_loc_def benign_def same_size_def table_zeros table_ok_def [of "allocs t"])
qed (use ok in \<open>simp add: benign_def table_malloc same_size_def\<close>)

lemma benign_vec:
  assumes ok: "same_size t h" and new: "new_address r h"
  shows "benign same_size (heap_after r h) (serve allocate_vec deallocate_loc reset_vec r (t, h))"
proof (cases r)
  case (New b p l)
  then show ?thesis using ok new table_append [of "allocs t" h p]
    by (simp add: allocate_vec_def benign_simps same_size_def)
next
  case (Delete p)
  then show ?thesis using ok find_pos_less [of p "allocs t"] table_delete [of "allocs t" h p]
    by (simp add: deallocate_loc_def benign_simps same_size_def)
next
  case Reset
  then show ?thesis using ok by (simp add: reset_vec_def benign_def same_size_def table_zeros table_ok_def [of "allocs t"])
qed (use ok in \<open>simp add: benign_def table_malloc same_size_def\<close>)

section \<open>Properties\<close>

text \<open>C28 (a program with up to 99 allocations that deletes only what it has from the tracker runs to its end in all three versions, and \<^verbatim>\<open>status\<close> reports exactly the blocks it has not deleted, with the number of their allocation and their place).\<close>

theorem leaks_reported:
  assumes "proper rs {} {}" "news rs \<le> 99" "int (deletes rs) \<le> int_max"
  shows "(\<exists>t h. run_tracker rs = Inr (t, h)
      \<and> status t = map (\<lambda>(i, p, _). (i, p)) (snd (fold (expected 1 (\<lambda>_. no_loc)) rs (0, []))))
    \<and> (\<exists>t h. run_loc rs = Inr (t, h) \<and> status_loc t = snd (fold (expected 1 (\<lambda>l. l)) rs (0, [])))
    \<and> (\<exists>t h. run_vec rs = Inr (t, h) \<and> status_loc t = snd (fold (expected 0 (\<lambda>l. l)) rs (0, [])))"
proof -
  have w: "tracker_wf 0 0 new_tracker {}" "loc_wf 0 0 new_loc {}" "vec_wf 0 0 new_vec {}"
    by (simp_all add: tracker_wf_def loc_wf_def vec_wf_def array_wf_def new_tracker_def new_loc_def new_vec_def table_zeros)
  have z: "seen new_tracker = []" "status_loc new_loc = []" "status_loc new_vec = []"
    by (simp_all add: seen_report status_loc_report report_def new_tracker_def new_loc_def new_vec_def)
  obtain t h n where 1: "run_tracker rs = Inr (t, h)" "(n, seen t) = fold (expected 1 (\<lambda>_. no_loc)) rs (0, [])"
    using arrays.served [OF w(1), of rs] assms by (auto simp: run_tracker_def z)
  have "status t = map (\<lambda>(i, p, _). (i, p)) (seen t)" by (simp add: seen_def comp_def case_prod_unfold)
  with 1 have "\<exists>t h. run_tracker rs = Inr (t, h)
      \<and> status t = map (\<lambda>(i, p, _). (i, p)) (snd (fold (expected 1 (\<lambda>_. no_loc)) rs (0, [])))"
    by (metis snd_conv)
  moreover obtain t h n where "run_loc rs = Inr (t, h)" "(n, status_loc t) = fold (expected 1 (\<lambda>l. l)) rs (0, [])"
    using locations.served [OF w(2), of rs] assms by (auto simp: run_loc_def z)
  then have "\<exists>t h. run_loc rs = Inr (t, h) \<and> status_loc t = snd (fold (expected 1 (\<lambda>l. l)) rs (0, []))"
    by (metis snd_conv)
  moreover obtain t h n where "run_vec rs = Inr (t, h)" "(n, status_loc t) = fold (expected 0 (\<lambda>l. l)) rs (0, [])"
    using vectors.served [OF w(3), of rs] assms by (auto simp: run_vec_def z)
  then have "\<exists>t h. run_vec rs = Inr (t, h) \<and> status_loc t = snd (fold (expected 0 (\<lambda>l. l)) rs (0, []))"
    by (metis snd_conv)
  ultimately show ?thesis by blast
qed

text \<open>Two blocks of which the first is deleted, beside one that is not from the tracker.\<close>

theorem leaks_reported_witness:
  "(\<exists>t h. run_vec [New 4 10 (Some ''a.cpp'', 7), Foreign 11, New 8 12 (Some ''a.cpp'', 8), Delete 10] = Inr (t, h)
    \<and> status_loc t = [(1, 12, Some ''a.cpp'', 8)])"
  using leaks_reported [of "[New 4 10 (Some ''a.cpp'', 7), Foreign 11, New 8 12 (Some ''a.cpp'', 8), Delete 10]"]
  by (simp add: int_max_def)

text \<open>What the table does not have cannot be deleted: not a block from elsewhere, and of the vector not a null pointer.\<close>

theorem unknown_delete_ends:
  assumes "p \<notin> set (allocs t)" "p \<notin> set (allocs t')" "0 \<le> num_delete t" "num_delete t < int_max"
    "0 \<le> num_delete t'" "num_delete t' < int_max"
  shows "deallocate p (t, h) = Inl Program_Ends \<and> deallocate_loc p (t', h) = Inl Program_Ends"
proof -
  have "in_int (num_delete t + 1)" "in_int (num_delete t' + 1)" using assms by (auto simp: in_int_def int_min_def)
  then show ?thesis using assms
    by (simp add: deallocate_def deallocate_loc_def put_at_def find_pos_less)
qed


text \<open>Whatever the program deletes, \<^verbatim>\<open>free\<close> is called for null and for blocks in use only.\<close>

theorem no_block_freed_twice:
  assumes "new_addresses rs {}"
  shows "run_tracker rs \<noteq> Inl (Faulty Dangling) \<and> run_loc rs \<noteq> Inl (Faulty Dangling) \<and> run_vec rs \<noteq> Inl (Faulty Dangling)
    \<and> run_loc rs \<noteq> Inl (Faulty Out_Of_Bounds) \<and> run_vec rs \<noteq> Inl (Faulty Out_Of_Bounds)"
proof -
  have w: "table_ok (allocs new_tracker) {}" "same_size new_loc {}" "same_size new_vec {}"
    by (simp_all add: new_tracker_def new_loc_def new_vec_def same_size_def table_zeros)
  have "e = Program_Ends \<or> e = Faulty Signed_Overflow" if "run_tracker rs = Inl e" for e
    using all_benign [of "\<lambda>t. table_ok (allocs t)", OF benign_tracker w(1) assms] that by (simp add: run_tracker_def)
  moreover have "e = Program_Ends \<or> e = Faulty Signed_Overflow" if "run_loc rs = Inl e" for e
    using all_benign [of same_size, OF benign_loc w(2) assms] that by (simp add: run_loc_def)
  moreover have "e = Program_Ends \<or> e = Faulty Signed_Overflow" if "run_vec rs = Inl e" for e
    using all_benign [of same_size, OF benign_vec w(3) assms] that by (simp add: run_vec_def)
  ultimately show ?thesis by blast
qed

lemma serve_all_append: "serve_all f (rs @ qs) s = bnd (serve_all f rs s) (serve_all f qs)"
  by (induction rs arbitrary: s) (simp_all add: bnd_def split: sum.splits)

lemma numbered: "Reset \<notin> set rs \<Longrightarrow> fst (fold (expected b see) rs (n, bs)) = n + news rs"
proof (induction rs arbitrary: n bs)
  case (Cons r rs)
  then show ?case by (cases r) simp_all
qed simp

text \<open>The tables have place for 99 allocations, deleted or not; the next one ends the program.\<close>

theorem hundredth_new_ends:
  assumes "proper rs {} {}" "news rs = 99" "Reset \<notin> set rs" "int (deletes rs) \<le> int_max"
  shows "run_tracker (rs @ [New b p l]) = Inl Program_Ends \<and> run_loc (rs @ [New b p l]) = Inl Program_Ends"
proof -
  have w: "tracker_wf 0 0 new_tracker {}" "loc_wf 0 0 new_loc {}"
    by (simp_all add: tracker_wf_def loc_wf_def array_wf_def new_tracker_def new_loc_def table_zeros)
  have z: "seen new_tracker = []" "status_loc new_loc = []"
    by (simp_all add: seen_report status_loc_report report_def new_tracker_def new_loc_def)
  obtain t h n m where 1: "run_tracker rs = Inr (t, h)" "tracker_wf n m t h"
      "(n, seen t) = fold (expected 1 (\<lambda>_. no_loc)) rs (0, [])"
    using arrays.served [OF w(1), of rs] assms by (auto simp: run_tracker_def z)
  have "n = 99" using numbered [of rs 1 "\<lambda>_. no_loc" 0 "[]"] 1(3) assms by (metis add_0 fst_conv)
  then have "allocate b p (t, h) = Inl Program_Ends"
    using 1(2) by (simp add: allocate_def tracker_wf_def array_wf_def put_at_def checked_int_def in_int_def int_max_def int_min_def)
  moreover obtain t' h' n' m' where 2: "run_loc rs = Inr (t', h')" "loc_wf n' m' t' h'"
      "(n', status_loc t') = fold (expected 1 (\<lambda>l. l)) rs (0, [])"
    using locations.served [OF w(2), of rs] assms by (auto simp: run_loc_def z)
  have "n' = 99" using numbered [of rs 1 "\<lambda>l. l" 0 "[]"] 2(3) assms by (metis add_0 fst_conv)
  then have "allocate_loc b p l (t', h') = Inl Program_Ends"
    using 2(2) by (simp add: allocate_loc_def loc_wf_def array_wf_def put_at_def checked_int_def in_int_def int_max_def int_min_def)
  ultimately show ?thesis using 1(1) 2(1) by (simp add: run_tracker_def run_loc_def serve_all_append)
qed

end
