(* ===== verification/Breakout_Game.thy ===== *)
theory Breakout_Game
  imports Prelude
begin

text \<open>
  The game of \<^verbatim>\<open>src/Libraries/qt5/zetcode/Ch14_Breakout\<close> without its drawing. \<^verbatim>\<open>QRect\<close> is an argument, a record of the members the
  game calls; so are the rectangles of the images. The number that \<^verbatim>\<open>startTimer\<close> returns comes with the key that starts the timer.
  \<^verbatim>\<open>Qt\<close> calls \<^verbatim>\<open>keyPressEvent\<close> and \<^verbatim>\<open>keyReleaseEvent\<close>; the members of the game have other names and are called by nobody, so that no game
  ever starts. What follows is about calls of them.
\<close>

section \<open>The objects\<close>

record 'r qrect =
  r_left :: "'r \<Rightarrow> int"
  r_right :: "'r \<Rightarrow> int"
  r_top :: "'r \<Rightarrow> int"
  r_bottom :: "'r \<Rightarrow> int"
  r_x :: "'r \<Rightarrow> int"
  r_width :: "'r \<Rightarrow> int"
  r_height :: "'r \<Rightarrow> int"
  r_move_to :: "int \<Rightarrow> int \<Rightarrow> 'r \<Rightarrow> 'r"
  r_translate :: "int \<Rightarrow> int \<Rightarrow> 'r \<Rightarrow> 'r"
  r_intersects :: "'r \<Rightarrow> 'r \<Rightarrow> bool"
  r_contains :: "'r \<Rightarrow> int \<Rightarrow> int \<Rightarrow> bool"

record 'r ball =
  x_dir :: int
  y_dir :: int
  ball_rect :: 'r

record 'r paddle =
  paddle_dx :: int
  paddle_rect :: 'r

record 'r brick =
  brick_rect :: 'r
  destroyed :: bool

definition ball_reset :: "'r qrect \<Rightarrow> 'r ball \<Rightarrow> 'r ball" where
  "ball_reset q b = b\<lparr>ball_rect := r_move_to q 230 355 (ball_rect b)\<rparr>"

definition ball_auto_move :: "'r qrect \<Rightarrow> 'r ball \<Rightarrow> 'r ball" where
  "ball_auto_move q b = (let r = r_translate q (x_dir b) (y_dir b) (ball_rect b);
     b1 = b\<lparr>ball_rect := r\<rparr>;
     b2 = (if r_left q r = 0 then b1\<lparr>x_dir := 1\<rparr> else b1);
     b3 = (if r_right q r = 300 then b2\<lparr>x_dir := - 1\<rparr> else b2)
     in if r_top q r = 0 then b3\<lparr>y_dir := 1\<rparr> else b3)"

definition paddle_reset :: "'r qrect \<Rightarrow> 'r paddle \<Rightarrow> 'r paddle" where
  "paddle_reset q p = p\<lparr>paddle_rect := r_move_to q 200 360 (paddle_rect p)\<rparr>"

definition paddle_move :: "'r qrect \<Rightarrow> 'r paddle \<Rightarrow> 'r paddle" where
  "paddle_move q p = p\<lparr>paddle_rect := r_move_to q (r_x q (paddle_rect p) + paddle_dx p) (r_top q (paddle_rect p)) (paddle_rect p)\<rparr>"

definition new_ball :: "'r qrect \<Rightarrow> 'r \<Rightarrow> 'r ball" where
  "new_ball q img = ball_reset q \<lparr>x_dir = 1, y_dir = - 1, ball_rect = img\<rparr>"

definition new_paddle :: "'r qrect \<Rightarrow> 'r \<Rightarrow> 'r paddle" where
  "new_paddle q img = paddle_reset q \<lparr>paddle_dx = 0, paddle_rect = img\<rparr>"

definition new_brick :: "'r qrect \<Rightarrow> 'r \<Rightarrow> int \<Rightarrow> int \<Rightarrow> 'r brick" where
  "new_brick q img x y = \<lparr>brick_rect = r_translate q x y img, destroyed = False\<rparr>"

section \<open>The game\<close>

text \<open>\<open>timers\<close> are the timers of the widget that run.\<close>

record 'r breakout =
  timer_id :: int
  the_ball :: "'r ball"
  the_paddle :: "'r paddle"
  bricks :: "'r brick list"
  game_over :: bool
  game_won :: bool
  game_started :: bool
  paused :: bool
  timers :: "int list"

definition new_breakout :: "'r qrect \<Rightarrow> 'r \<Rightarrow> 'r \<Rightarrow> 'r \<Rightarrow> 'r breakout" where
  "new_breakout q ball_img paddle_img brick_img = \<lparr>timer_id = 0, the_ball = new_ball q ball_img, the_paddle = new_paddle q paddle_img,
     bricks = concat (map (\<lambda>i. map (\<lambda>j. new_brick q brick_img (j * 40 + 30) (i * 10 + 50)) [0..5]) [0..4]),
     game_over = False, game_won = False, game_started = False, paused = False, timers = []\<rparr>"

definition start_timer :: "int \<Rightarrow> 'r breakout \<Rightarrow> 'r breakout" where
  "start_timer t g = g\<lparr>timer_id := t, timers := timers g @ [t]\<rparr>"

definition kill_timer :: "'r breakout \<Rightarrow> 'r breakout" where
  "kill_timer g = g\<lparr>timers := filter (\<lambda>t. t \<noteq> timer_id g) (timers g)\<rparr>"

definition start_game :: "'r qrect \<Rightarrow> int \<Rightarrow> 'r breakout \<Rightarrow> 'r breakout" where
  "start_game q t g = (if \<not> game_started g then
     start_timer t (g\<lparr>the_ball := ball_reset q (the_ball g), the_paddle := paddle_reset q (the_paddle g),
       bricks := map (\<lambda>b. b\<lparr>destroyed := False\<rparr>) (bricks g), game_over := False, game_won := False, game_started := True\<rparr>)
     else g)"

definition pause_game :: "int \<Rightarrow> 'r breakout \<Rightarrow> 'r breakout" where
  "pause_game t g = (if paused g then (start_timer t g)\<lparr>paused := False\<rparr> else kill_timer (g\<lparr>paused := True\<rparr>))"

definition stop_game :: "'r breakout \<Rightarrow> 'r breakout" where
  "stop_game g = (kill_timer g)\<lparr>game_over := True, game_started := False\<rparr>"

definition victory :: "'r breakout \<Rightarrow> 'r breakout" where
  "victory g = (kill_timer g)\<lparr>game_won := True, game_started := False\<rparr>"

text \<open>The parts of \<^verbatim>\<open>check_collision\<close>: the paddle, and one brick.\<close>

definition bounce :: "'r qrect \<Rightarrow> 'r \<Rightarrow> 'r ball \<Rightarrow> 'r ball" where
  "bounce q pr b = (if r_intersects q (ball_rect b) pr then
     let pl = r_left q pr; bl = r_left q (ball_rect b);
       b1 = (if bl < pl + 8 then b\<lparr>x_dir := - 1, y_dir := - 1\<rparr> else b);
       b2 = (if bl \<ge> pl + 8 \<and> bl < pl + 16 then b1\<lparr>x_dir := - 1, y_dir := - 1 * y_dir b1\<rparr> else b1);
       b3 = (if bl \<ge> pl + 16 \<and> bl < pl + 24 then b2\<lparr>x_dir := 0, y_dir := - 1\<rparr> else b2);
       b4 = (if bl \<ge> pl + 24 \<and> bl < pl + 32 then b3\<lparr>x_dir := 1, y_dir := - 1 * y_dir b3\<rparr> else b3)
     in if bl > pl + 32 then b4\<lparr>x_dir := 1, y_dir := - 1\<rparr> else b4 else b)"

definition hit :: "'r qrect \<Rightarrow> 'r brick \<Rightarrow> 'r ball \<Rightarrow> 'r brick \<times> 'r ball" where
  "hit q k b = (if r_intersects q (ball_rect b) (brick_rect k) \<and> \<not> destroyed k then
     let r = ball_rect b; l = r_left q r; h = r_height q r; w = r_width q r; t = r_top q r;
       b1 = (if r_contains q (brick_rect k) (l + w + 1) t then b\<lparr>x_dir := - 1\<rparr>
             else if r_contains q (brick_rect k) (l - 1) t then b\<lparr>x_dir := 1\<rparr> else b);
       b2 = (if r_contains q (brick_rect k) l (t - 1) then b1\<lparr>y_dir := 1\<rparr>
             else if r_contains q (brick_rect k) l (t + h + 1) then b1\<lparr>y_dir := - 1\<rparr> else b1)
     in (k\<lparr>destroyed := True\<rparr>, b2) else (k, b))"

fun hit_bricks :: "'r qrect \<Rightarrow> 'r brick list \<Rightarrow> 'r ball \<Rightarrow> 'r brick list \<times> 'r ball" where
  "hit_bricks q [] b = ([], b)"
| "hit_bricks q (k # ks) b = (let (k', b1) = hit q k b; (ks', b2) = hit_bricks q ks b1 in (k' # ks', b2))"

definition breakout_collision :: "'r qrect \<Rightarrow> 'r breakout \<Rightarrow> 'r breakout" where
  "breakout_collision q g = (let
     g1 = (if r_bottom q (ball_rect (the_ball g)) > 400 then stop_game g else g);
     g2 = (if length (filter destroyed (bricks g1)) = 30 then victory g1 else g1);
     b1 = bounce q (paddle_rect (the_paddle g2)) (the_ball g2);
     (ks, b2) = hit_bricks q (bricks g2) b1
     in g2\<lparr>the_ball := b2, bricks := ks\<rparr>)"

definition move_objects :: "'r qrect \<Rightarrow> 'r breakout \<Rightarrow> 'r breakout" where
  "move_objects q g = g\<lparr>the_ball := ball_auto_move q (the_ball g), the_paddle := paddle_move q (the_paddle g)\<rparr>"

definition breakout_timer :: "'r qrect \<Rightarrow> 'r breakout \<Rightarrow> 'r breakout" where
  "breakout_timer q g = breakout_collision q (move_objects q g)"

text \<open>The keys; \<^verbatim>\<open>Escape\<close> leaves the event loop, which is not part of the state, and other keys go to the base class.\<close>

datatype game_key = Left_Arrow | Right_Arrow | Letter_P | Space_Bar | Another_Key

definition game_key_pressed :: "'r qrect \<Rightarrow> game_key \<Rightarrow> int \<Rightarrow> 'r breakout \<Rightarrow> 'r breakout" where
  "game_key_pressed q k t g = (case k of
       Left_Arrow \<Rightarrow> g\<lparr>the_paddle := (the_paddle g)\<lparr>paddle_dx := - 1\<rparr>\<rparr>
     | Right_Arrow \<Rightarrow> g\<lparr>the_paddle := (the_paddle g)\<lparr>paddle_dx := 1\<rparr>\<rparr>
     | Letter_P \<Rightarrow> pause_game t g
     | Space_Bar \<Rightarrow> start_game q t g
     | Another_Key \<Rightarrow> g)"

definition game_key_released :: "game_key \<Rightarrow> 'r breakout \<Rightarrow> 'r breakout" where
  "game_key_released k g =
     (if k = Left_Arrow \<or> k = Right_Arrow then g\<lparr>the_paddle := (the_paddle g)\<lparr>paddle_dx := 0\<rparr>\<rparr> else g)"

text \<open>A timer event comes only while a timer runs. The new timer of a key has a number that none has that runs.\<close>

datatype game_event = Pressed game_key int | Released game_key | Tick

definition game_step :: "'r qrect \<Rightarrow> game_event \<Rightarrow> 'r breakout \<Rightarrow> 'r breakout" where
  "game_step q e g = (case e of
       Pressed k t \<Rightarrow> game_key_pressed q k t g
     | Released k \<Rightarrow> game_key_released k g
     | Tick \<Rightarrow> if timers g = [] then g else breakout_timer q g)"

definition play_breakout :: "'r qrect \<Rightarrow> game_event list \<Rightarrow> 'r breakout \<Rightarrow> 'r breakout" where
  "play_breakout q es g = fold (game_step q) es g"

section \<open>What a step changes\<close>

lemmas game_defs = game_step_def game_key_pressed_def game_key_released_def start_game_def pause_game_def start_timer_def
  kill_timer_def stop_game_def victory_def breakout_timer_def move_objects_def breakout_collision_def

definition ball_ok :: "'r ball \<Rightarrow> bool" where
  "ball_ok b \<longleftrightarrow> x_dir b \<in> {- 1, 0, 1} \<and> y_dir b \<in> {- 1, 1}"

lemma ball_ok_steps [simp]:
  "ball_ok b \<Longrightarrow> ball_ok (ball_auto_move q b)"
  "ball_ok b \<Longrightarrow> ball_ok (ball_reset q b)"
  "ball_ok b \<Longrightarrow> ball_ok (bounce q r b)"
  "ball_ok b \<Longrightarrow> ball_ok (snd (hit q k b))"
  by (auto simp: ball_ok_def ball_auto_move_def ball_reset_def bounce_def hit_def Let_def)

lemma hit_rect [simp]: "ball_rect (snd (hit q k b)) = ball_rect b" "brick_rect (fst (hit q k b)) = brick_rect k"
  by (auto simp: hit_def Let_def)

lemma hit_destroyed: "destroyed (fst (hit q k b)) \<longleftrightarrow> destroyed k \<or> r_intersects q (ball_rect b) (brick_rect k)"
  by (auto simp: hit_def Let_def)

lemma hit_bricks_all:
  "(ball_ok b \<longrightarrow> ball_ok (snd (hit_bricks q ks b))) \<and> map brick_rect (fst (hit_bricks q ks b)) = map brick_rect ks
   \<and> map destroyed (fst (hit_bricks q ks b)) = map (\<lambda>k. destroyed k \<or> r_intersects q (ball_rect b) (brick_rect k)) ks"
proof (induction ks arbitrary: b)
  case (Cons k ks)
  obtain k' b' where h: "hit q k b = (k', b')" by fastforce
  obtain ks' c where hs: "hit_bricks q ks b' = (ks', c)" by fastforce
  have "ball_rect b' = ball_rect b" "brick_rect k' = brick_rect k"
    "destroyed k' \<longleftrightarrow> destroyed k \<or> r_intersects q (ball_rect b) (brick_rect k)" "ball_ok b \<Longrightarrow> ball_ok b'"
    using hit_rect [of q k b] hit_destroyed [of q k b] ball_ok_steps(4) [of b q k] by (simp_all add: h)
  then show ?case using Cons.IH [of b'] by (simp add: h hs)
qed simp

lemmas hit_bricks_ok = hit_bricks_all [THEN conjunct1, rule_format] hit_bricks_all [THEN conjunct2, THEN conjunct1]
  hit_bricks_all [THEN conjunct2, THEN conjunct2]

lemma breakout_collision_parts:
  fixes q g
  defines "b \<equiv> bounce q (paddle_rect (the_paddle g)) (the_ball g)"
  shows "the_ball (breakout_collision q g) = snd (hit_bricks q (bricks g) b)"
    and "bricks (breakout_collision q g) = fst (hit_bricks q (bricks g) b)"
    and "game_won (breakout_collision q g) \<longleftrightarrow> game_won g \<or> length (filter destroyed (bricks g)) = 30"
    and "game_over (breakout_collision q g) \<longleftrightarrow> game_over g \<or> r_bottom q (ball_rect (the_ball g)) > 400"
    and "timers (breakout_collision q g) = (if r_bottom q (ball_rect (the_ball g)) > 400 \<or> length (filter destroyed (bricks g)) = 30
      then filter (\<lambda>t. t \<noteq> timer_id g) (timers g) else timers g)"
    and "game_started (breakout_collision q g) \<longleftrightarrow>
      game_started g \<and> \<not> (r_bottom q (ball_rect (the_ball g)) > 400 \<or> length (filter destroyed (bricks g)) = 30)"
    and "timer_id (breakout_collision q g) = timer_id g"
  by (auto simp: breakout_collision_def stop_game_def victory_def kill_timer_def b_def Let_def split: prod.splits)

section \<open>Properties\<close>

definition sound :: "'r breakout \<Rightarrow> bool" where
  "sound g \<longleftrightarrow> ball_ok (the_ball g) \<and> length (bricks g) = 30"

lemma sound_step: "sound g \<Longrightarrow> sound (game_step q e g)"
proof -
  assume g: "sound g"
  have "length (fst (hit_bricks q ks b)) = length ks" for ks b
    using hit_bricks_ok(2) [of q ks b] by (metis length_map)
  then show ?thesis using g
    by (cases e; auto simp: sound_def game_step_def game_key_pressed_def game_key_released_def start_game_def pause_game_def
        start_timer_def kill_timer_def breakout_timer_def breakout_collision_parts move_objects_def hit_bricks_ok(1) split: game_key.split)
qed

lemma sound_new: "sound (new_breakout q bi pi ki)"
  by (simp add: sound_def new_breakout_def new_ball_def ball_reset_def ball_ok_def upto_rec1)

theorem ball_keeps_moving: "sound (play_breakout q es (new_breakout q bi pi ki))"
  unfolding play_breakout_def by (rule fold_invariant [where Q = "\<lambda>_. True"]) (simp_all add: sound_new sound_step)

text \<open>A step of the timer destroys the bricks that the moved ball meets; a victory is that there were none left before.\<close>

theorem tick_destroys:
  assumes "timers g \<noteq> []" "sound g"
  shows "map destroyed (bricks (game_step q Tick g))
      = map (\<lambda>k. destroyed k \<or> r_intersects q (ball_rect (ball_auto_move q (the_ball g))) (brick_rect k)) (bricks g)
    \<and> (game_won (game_step q Tick g) \<longleftrightarrow> game_won g \<or> list_all destroyed (bricks g))
    \<and> (game_over (game_step q Tick g) \<longleftrightarrow> game_over g \<or> r_bottom q (ball_rect (ball_auto_move q (the_ball g))) > 400)"
proof -
  have "ball_rect (bounce q r b) = ball_rect b" for r b by (simp add: bounce_def Let_def)
  moreover have "length (filter destroyed (bricks g)) = 30 \<longleftrightarrow> list_all destroyed (bricks g)"
    using assms(2) by (metis filter_id_conv length_filter_less list_all_iff nat_neq_iff sound_def)
  ultimately show ?thesis using assms
    by (simp add: game_step_def breakout_timer_def breakout_collision_parts hit_bricks_ok move_objects_def)
qed

text \<open>Without the key that pauses, one timer runs while the game does.\<close>

definition one_timer :: "'r breakout \<Rightarrow> bool" where
  "one_timer g \<longleftrightarrow> timers g = (if game_started g then [timer_id g] else [])"

lemma one_timer_tick: "one_timer g \<Longrightarrow> one_timer (breakout_timer q g)"
  by (simp add: one_timer_def breakout_timer_def breakout_collision_parts move_objects_def)

lemma one_timer_step:
  assumes "one_timer g" "\<And>t. e \<noteq> Pressed Letter_P t"
  shows "one_timer (game_step q e g)"
proof (cases e)
  case (Pressed k t)
  then show ?thesis using assms
    by (cases k) (simp_all add: one_timer_def game_step_def game_key_pressed_def start_game_def start_timer_def)
next
  case (Released k)
  then show ?thesis using assms(1) by (simp add: one_timer_def game_step_def game_key_released_def)
next
  case Tick
  then show ?thesis using assms(1) by (simp add: game_step_def one_timer_tick)
qed

theorem one_timer_runs:
  assumes "list_all (\<lambda>e. case e of Pressed Letter_P _ \<Rightarrow> False | _ \<Rightarrow> True) es"
  shows "one_timer (play_breakout q es (new_breakout q bi pi ki))"
proof -
  have "one_timer (fold (game_step q) es g)" if "one_timer g" for g
    using that assms
  proof (induction es arbitrary: g)
    case (Cons e es)
    then have "one_timer (game_step q e g)" by (intro one_timer_step) auto
    then show ?case using Cons by simp
  qed simp
  then show ?thesis by (simp add: play_breakout_def one_timer_def new_breakout_def)
qed

text \<open>A pause before the start and another after it leave two timers, of which the end of the game stops one.\<close>

theorem pause_doubles_timer:
  assumes "t \<noteq> u"
  shows "let g = play_breakout q [Pressed Letter_P s, Pressed Space_Bar t, Pressed Letter_P u] (new_breakout q bi pi ki)
    in timers g = [t, u] \<and> timers (stop_game g) = [t] \<and> timers (victory g) = [t]"
  using assms by (simp add: play_breakout_def new_breakout_def game_defs Let_def)

text \<open>At one place the paddle does nothing to a ball that meets it.\<close>

theorem paddle_gap:
  assumes "r_left q (ball_rect b) = r_left q pr + 32"
  shows "bounce q pr b = b"
  using assms by (simp add: bounce_def Let_def)

text \<open>
  The documented members of \<^verbatim>\<open>QRect\<close> for translations. A ball that meets the left part of the paddle on its way back from the left edge
  is sent over the edge, where nothing turns it round.
\<close>

definition qrect_moves :: "'r qrect \<Rightarrow> bool" where
  "qrect_moves q \<longleftrightarrow> (\<forall>dx dy r. r_left q (r_translate q dx dy r) = r_left q r + dx \<and> r_right q (r_translate q dx dy r) = r_right q r + dx)"

lemma over_the_edge:
  assumes q: "qrect_moves q" and b: "x_dir b = - 1" "r_left q (ball_rect b) \<le> 0" "r_right q (ball_rect b) < 300"
  shows "x_dir ((ball_auto_move q ^^ n) b) = - 1 \<and> r_left q (ball_rect ((ball_auto_move q ^^ n) b)) = r_left q (ball_rect b) - int n
    \<and> r_right q (ball_rect ((ball_auto_move q ^^ n) b)) = r_right q (ball_rect b) - int n"
proof (induction n)
  case (Suc n)
  then show ?case using q b(2,3) by (auto simp: ball_auto_move_def qrect_moves_def Let_def)
qed (use b in simp)

theorem ball_escapes:
  assumes q: "qrect_moves q" and edge: "r_left q (ball_rect b) = 0" "r_right q (ball_rect b) < 300"
    and paddle: "r_intersects q (ball_rect b) pr" "0 < r_left q pr + 8"
  shows "r_left q (ball_rect ((ball_auto_move q ^^ n) (bounce q pr b))) = - int n"
proof -
  have "x_dir (bounce q pr b) = - 1" "ball_rect (bounce q pr b) = ball_rect b"
    using edge paddle by (simp_all add: bounce_def Let_def)
  then show ?thesis using over_the_edge [OF q, of "bounce q pr b" n] edge by simp
qed

text \<open>Rectangles by their left upper corner and size: a ball at the left edge, the paddle below it.\<close>

definition corner_rect :: "(int \<times> int \<times> int \<times> int) qrect" where
  "corner_rect = \<lparr>r_left = \<lambda>(x, y, w, h). x, r_right = \<lambda>(x, y, w, h). x + w - 1, r_top = \<lambda>(x, y, w, h). y,
     r_bottom = \<lambda>(x, y, w, h). y + h - 1, r_x = \<lambda>(x, y, w, h). x, r_width = \<lambda>(x, y, w, h). w, r_height = \<lambda>(x, y, w, h). h,
     r_move_to = \<lambda>a b (x, y, w, h). (a, b, w, h), r_translate = \<lambda>a b (x, y, w, h). (x + a, y + b, w, h),
     r_intersects = \<lambda>(x, y, w, h) (x', y', w', h'). x < x' + w' \<and> x' < x + w \<and> y < y' + h' \<and> y' < y + h,
     r_contains = \<lambda>(x, y, w, h) a b. x \<le> a \<and> a < x + w \<and> y \<le> b \<and> b < y + h\<rparr>"

theorem ball_escapes_witness:
  "r_left corner_rect (ball_rect ((ball_auto_move corner_rect ^^ n)
     (bounce corner_rect (2, 360, 40, 10) \<lparr>x_dir = 1, y_dir = 1, ball_rect = (0, 355, 10, 10)\<rparr>))) = - int n"
  by (rule ball_escapes) (simp_all add: qrect_moves_def corner_rect_def)

end
