(* ===== verification/Pattern_Structures.thy ===== *)
theory Pattern_Structures
  imports Prelude "HOL-Library.Tree"
begin

text \<open>
  Structures of objects that point to each other, from the examples of patterns: the visitors of
  \<^verbatim>\<open>src/Patterns/CRTP/crtp_tree.cpp\<close> (\<^verbatim>\<open>crtp_tree_virtual.cpp\<close> has the same members behind an interface), the pictures of
  \<^verbatim>\<open>src/DesignPatterns/Structural/composite_1.cpp\<close>, the neurons of \<^verbatim>\<open>composite_2.cpp\<close>, and the text processors of
  \<^verbatim>\<open>src/DesignPatterns/Behavioral/strategy_1.cpp\<close>. A pointer is a number; the objects are a function from the numbers. Where the
  pointers may form a cycle a member is a \<open>partial_function\<close>, and \<^const>\<open>None\<close> when it does not return.
\<close>

section \<open>Visitors\<close>

datatype node_kind = Red_Node | Blue_Node

record tree_node =
  node_kind :: node_kind
  left_node :: "nat option"
  right_node :: "nat option"

text \<open>The text that a handler prints, and the address.\<close>

type_synonym handler = "node_kind \<Rightarrow> nat \<Rightarrow> string \<times> nat"

definition generic_visitor :: handler where
  "generic_visitor k a = (case k of Red_Node \<Rightarrow> (''Generic handle RED '', a) | Blue_Node \<Rightarrow> (''Generic handle BLUE '', a))"

definition special_visitor :: handler where
  "special_visitor k a = (case k of Red_Node \<Rightarrow> (''RED special visitor '', a) | Blue_Node \<Rightarrow> generic_visitor k a)"

definition blue_visitor :: handler where
  "blue_visitor k a = (case k of Red_Node \<Rightarrow> generic_visitor k a | Blue_Node \<Rightarrow> (''BLUE dedicated visitor '', a))"

definition dispatch_node :: "(nat \<Rightarrow> tree_node) \<Rightarrow> handler \<Rightarrow> nat \<Rightarrow> string \<times> nat" where
  "dispatch_node ns v a = v (node_kind (ns a)) a"

partial_function (option) visit_preorder :: "(nat \<Rightarrow> tree_node) \<Rightarrow> handler \<Rightarrow> nat option \<Rightarrow> (string \<times> nat) list option" where
  "visit_preorder ns v p = (case p of None \<Rightarrow> Some [] | Some a \<Rightarrow>
     Option.bind (visit_preorder ns v (left_node (ns a))) (\<lambda>xs.
     Option.bind (visit_preorder ns v (right_node (ns a))) (\<lambda>ys.
     Some (dispatch_node ns v a # xs @ ys))))"

partial_function (option) visit_inorder :: "(nat \<Rightarrow> tree_node) \<Rightarrow> handler \<Rightarrow> nat option \<Rightarrow> (string \<times> nat) list option" where
  "visit_inorder ns v p = (case p of None \<Rightarrow> Some [] | Some a \<Rightarrow>
     Option.bind (visit_inorder ns v (left_node (ns a))) (\<lambda>xs.
     Option.bind (visit_inorder ns v (right_node (ns a))) (\<lambda>ys.
     Some (xs @ dispatch_node ns v a # ys))))"

partial_function (option) visit_postorder :: "(nat \<Rightarrow> tree_node) \<Rightarrow> handler \<Rightarrow> nat option \<Rightarrow> (string \<times> nat) list option" where
  "visit_postorder ns v p = (case p of None \<Rightarrow> Some [] | Some a \<Rightarrow>
     Option.bind (visit_postorder ns v (left_node (ns a))) (\<lambda>xs.
     Option.bind (visit_postorder ns v (right_node (ns a))) (\<lambda>ys.
     Some (xs @ ys @ [dispatch_node ns v a]))))"

text \<open>The tree of the addresses that a pointer leads to, when there is one; nodes may be shared.\<close>

fun shape :: "(nat \<Rightarrow> tree_node) \<Rightarrow> nat option \<Rightarrow> nat tree \<Rightarrow> bool" where
  "shape ns p Leaf \<longleftrightarrow> p = None"
| "shape ns p (Node l a r) \<longleftrightarrow> p = Some a \<and> shape ns (left_node (ns a)) l \<and> shape ns (right_node (ns a)) r"

lemma visits_tree:
  assumes "shape ns p t"
  shows "visit_preorder ns v p = Some (map (dispatch_node ns v) (preorder t))
    \<and> visit_inorder ns v p = Some (map (dispatch_node ns v) (inorder t))
    \<and> visit_postorder ns v p = Some (map (dispatch_node ns v) (postorder t))"
  using assms
  by (induction t arbitrary: p)
    (auto simp: visit_preorder.simps visit_inorder.simps visit_postorder.simps)

lemma shape_null: "\<exists>t. shape ns None t"
  by (rule exI [of _ Leaf]) simp

lemma shape_node:
  assumes "\<exists>l. shape ns (left_node (ns a)) l" "\<exists>r. shape ns (right_node (ns a)) r"
  shows "\<exists>t. shape ns (Some a) t"
proof -
  from assms obtain l r where "shape ns (left_node (ns a)) l" "shape ns (right_node (ns a)) r" by blast
  then have "shape ns (Some a) (Node l a r)" by simp
  then show ?thesis by blast
qed

lemmas shapes = bind_eq_Some_conv shape_null

lemma preorder_shape: "visit_preorder ns v p = Some xs \<Longrightarrow> \<exists>t. shape ns p t"
  by (erule visit_preorder.raw_induct [rotated]) (auto simp: shapes split: option.splits intro!: shape_node)

lemma inorder_shape: "visit_inorder ns v p = Some xs \<Longrightarrow> \<exists>t. shape ns p t"
  by (erule visit_inorder.raw_induct [rotated]) (auto simp: shapes split: option.splits intro!: shape_node)

lemma postorder_shape: "visit_postorder ns v p = Some xs \<Longrightarrow> \<exists>t. shape ns p t"
  by (erule visit_postorder.raw_induct [rotated]) (auto simp: shapes split: option.splits intro!: shape_node)

text \<open>A visit returns if and only if there is no cycle; then it calls the handlers in the order of its name.\<close>

theorem visits_trees:
  "(visit_preorder ns v p = Some xs \<longleftrightarrow> (\<exists>t. shape ns p t \<and> xs = map (dispatch_node ns v) (preorder t)))
   \<and> (visit_inorder ns v p = Some xs \<longleftrightarrow> (\<exists>t. shape ns p t \<and> xs = map (dispatch_node ns v) (inorder t)))
   \<and> (visit_postorder ns v p = Some xs \<longleftrightarrow> (\<exists>t. shape ns p t \<and> xs = map (dispatch_node ns v) (postorder t)))"
proof (intro conjI)
  show "visit_preorder ns v p = Some xs \<longleftrightarrow> (\<exists>t. shape ns p t \<and> xs = map (dispatch_node ns v) (preorder t))"
    by (metis preorder_shape visits_tree option.inject)
  show "visit_inorder ns v p = Some xs \<longleftrightarrow> (\<exists>t. shape ns p t \<and> xs = map (dispatch_node ns v) (inorder t))"
    by (metis inorder_shape visits_tree option.inject)
  show "visit_postorder ns v p = Some xs \<longleftrightarrow> (\<exists>t. shape ns p t \<and> xs = map (dispatch_node ns v) (postorder t))"
    by (metis postorder_shape visits_tree option.inject)
qed

section \<open>Pictures\<close>

datatype graphic = Line | Rectangle | Text_Graphic | Picture "nat list"

definition add_graphic :: "nat \<Rightarrow> nat \<Rightarrow> (nat \<Rightarrow> graphic) \<Rightarrow> nat \<Rightarrow> graphic" where
  "add_graphic p g gs = (case gs p of Picture qs \<Rightarrow> gs(p := Picture (qs @ [g])) | _ \<Rightarrow> gs)"

definition graphic_parts :: "graphic \<Rightarrow> nat list" where
  "graphic_parts g = (case g of Picture qs \<Rightarrow> qs | _ \<Rightarrow> [])"

definition own_line :: "graphic \<Rightarrow> string" where
  "own_line g = (case g of Line \<Rightarrow> ''Line::draw()'' | Rectangle \<Rightarrow> ''Rectangle::draw()''
     | Text_Graphic \<Rightarrow> ''Text::draw()'' | Picture _ \<Rightarrow> ''Picture:'')"

text \<open>Drawing a list of pointers; an object prints its line, and a picture then draws what it has.\<close>

partial_function (option) draw_list :: "(nat \<Rightarrow> graphic) \<Rightarrow> nat list \<Rightarrow> string list option" where
  "draw_list gs ps = (case ps of [] \<Rightarrow> Some [] | p # ps' \<Rightarrow>
     Option.bind (draw_list gs (graphic_parts (gs p))) (\<lambda>xs.
     Option.bind (draw_list gs ps') (\<lambda>ys.
     Some (own_line (gs p) # xs @ ys))))"

definition draw :: "(nat \<Rightarrow> graphic) \<Rightarrow> nat \<Rightarrow> string list option" where
  "draw gs p = draw_list gs [p]"

abbreviation part_of :: "(nat \<Rightarrow> graphic) \<Rightarrow> nat \<Rightarrow> nat \<Rightarrow> bool" where
  "part_of gs q p \<equiv> q \<in> set (graphic_parts (gs p))"

lemma draw_list_Nil [simp]: "draw_list gs [] = Some []"
  by (simp add: draw_list.simps)

lemma draw_list_Cons:
  "draw_list gs (p # ps) = Option.bind (draw_list gs (graphic_parts (gs p))) (\<lambda>xs.
     Option.bind (draw_list gs ps) (\<lambda>ys. Some (own_line (gs p) # xs @ ys)))"
  by (subst draw_list.simps) simp

lemma draws_acyclic: "Wellfounded.accp (part_of gs) p \<Longrightarrow> \<exists>xs. draw_list gs (graphic_parts (gs p)) = Some xs"
proof (induction rule: accp.induct)
  case (accI p)
  have "\<exists>xs. draw_list gs ps = Some xs" if "set ps \<subseteq> set (graphic_parts (gs p))" for ps
    using that
  proof (induction ps)
    case (Cons q qs)
    then show ?case using accI.IH [of q] by (auto simp: draw_list_Cons)
  qed simp
  then show ?case by blast
qed

lemma drawn_acyclic: "draw_list gs ps = Some xs \<Longrightarrow> list_all (Wellfounded.accp (part_of gs)) ps"
proof (erule draw_list.raw_induct [rotated])
  fix f gs ps xs
  assume IH: "\<And>gs qs ys. f gs qs = Some ys \<Longrightarrow> list_all (Wellfounded.accp (part_of gs)) qs"
    and step: "(case ps of [] \<Rightarrow> Some [] | p # ps' \<Rightarrow> Option.bind (f gs (graphic_parts (gs p))) (\<lambda>xs.
      Option.bind (f gs ps') (\<lambda>ys. Some (own_line (gs p) # xs @ ys)))) = Some xs"
  show "list_all (Wellfounded.accp (part_of gs)) ps"
  proof (cases ps)
    case (Cons p ps')
    then obtain ys zs where "f gs (graphic_parts (gs p)) = Some ys" "f gs ps' = Some zs"
      using step by (auto simp: bind_eq_Some_conv)
    then have "list_all (Wellfounded.accp (part_of gs)) (graphic_parts (gs p))" "list_all (Wellfounded.accp (part_of gs)) ps'"
      using IH by blast+
    then show ?thesis using Cons accp.accI [of "part_of gs" p] by (simp add: list_all_iff)
  qed simp
qed

text \<open>Drawing returns if and only if no picture is part of itself.\<close>

theorem draw_returns: "(\<exists>xs. draw gs p = Some xs) \<longleftrightarrow> Wellfounded.accp (part_of gs) p"
  using draws_acyclic [of gs p] drawn_acyclic [of gs "[p]"] by (auto simp: draw_def draw_list_Cons)

lemma not_accp_self:
  assumes "r x x"
  shows "\<not> Wellfounded.accp r x"
proof
  assume "Wellfounded.accp r x"
  then show False using assms by (induction rule: accp.induct) blast
qed

theorem own_part_diverges:
  assumes "gs p = Picture qs"
  shows "draw (add_graphic p p gs) p = None"
proof -
  have "part_of (add_graphic p p gs) p p" by (simp add: add_graphic_def graphic_parts_def assms)
  then have "\<not> Wellfounded.accp (part_of (add_graphic p p gs)) p" by (rule not_accp_self)
  then show ?thesis using draw_returns [of "add_graphic p p gs" p] by auto
qed

section \<open>Neurons\<close>

record neuron =
  ins :: "nat list"
  outs :: "nat list"

definition connect_one :: "nat \<Rightarrow> nat \<Rightarrow> (nat \<Rightarrow> neuron) \<Rightarrow> nat \<Rightarrow> neuron" where
  "connect_one a b ns = (let ns1 = ns(a := (ns a)\<lparr>outs := outs (ns a) @ [b]\<rparr>) in ns1(b := (ns1 b)\<lparr>ins := ins (ns1 b) @ [a]\<rparr>))"

text \<open>A neuron is a layer with one neuron.\<close>

definition connect_to :: "nat list \<Rightarrow> nat list \<Rightarrow> (nat \<Rightarrow> neuron) \<Rightarrow> nat \<Rightarrow> neuron" where
  "connect_to as bs ns = fold (\<lambda>a. fold (connect_one a) bs) as ns"

text \<open>The connections that \<^verbatim>\<open>operator<<\<close> prints of a neuron.\<close>

definition neuron_lines :: "(nat \<Rightarrow> neuron) \<Rightarrow> nat \<Rightarrow> (nat \<times> nat) list" where
  "neuron_lines ns a = map (\<lambda>b. (b, a)) (ins (ns a)) @ map (\<lambda>b. (a, b)) (outs (ns a))"

lemma connect_one_sel:
  "outs (connect_one a b ns c) = (if c = a then outs (ns c) @ [b] else outs (ns c))"
  "ins (connect_one a b ns c) = (if c = b then ins (ns c) @ [a] else ins (ns c))"
  by (simp_all add: connect_one_def Let_def)

lemma connect_row:
  "outs (fold (connect_one a) bs ns c) = outs (ns c) @ (if c = a then bs else [])"
  "ins (fold (connect_one a) bs ns c) = ins (ns c) @ replicate (count_list bs c) a"
  by (induction bs arbitrary: ns) (simp_all add: connect_one_sel)

theorem layers_connected:
  "outs (connect_to as bs ns c) = outs (ns c) @ concat (replicate (count_list as c) bs)
   \<and> ins (connect_to as bs ns c) = ins (ns c) @ concat (map (\<lambda>a. replicate (count_list bs c) a) as)"
  unfolding connect_to_def
  by (induction as arbitrary: ns) (simp_all add: connect_row)

text \<open>Every connection is known at both ends, as often.\<close>

definition dual :: "(nat \<Rightarrow> neuron) \<Rightarrow> bool" where
  "dual ns \<longleftrightarrow> (\<forall>a b. count_list (outs (ns a)) b = count_list (ins (ns b)) a)"

lemma dual_one: "dual ns \<Longrightarrow> dual (connect_one a b ns)"
  by (auto simp: dual_def connect_one_sel)

lemma dual_row: "dual ns \<Longrightarrow> dual (fold (connect_one a) bs ns)"
  by (induction bs arbitrary: ns) (simp_all add: dual_one)

theorem connections_dual: "dual ns \<Longrightarrow> dual (connect_to as bs ns)"
  unfolding connect_to_def by (induction as arbitrary: ns) (simp_all add: dual_row)

section \<open>Text processors\<close>

datatype list_strategy = Markdown | Html

definition list_start :: "list_strategy \<Rightarrow> string" where
  "list_start s = (case s of Markdown \<Rightarrow> '''' | Html \<Rightarrow> ''<ul>'' @ [CHR 0x0A])"

definition list_item :: "list_strategy \<Rightarrow> string \<Rightarrow> string" where
  "list_item s i = (case s of Markdown \<Rightarrow> '' * '' @ i @ [CHR 0x0A] | Html \<Rightarrow> ''<li>'' @ i @ ''</li>'' @ [CHR 0x0A])"

definition list_end :: "list_strategy \<Rightarrow> string" where
  "list_end s = (case s of Markdown \<Rightarrow> '''' | Html \<Rightarrow> ''</ul>'' @ [CHR 0x0A])"

definition append_static :: "list_strategy \<Rightarrow> string list \<Rightarrow> string \<Rightarrow> string" where
  "append_static s is out = foldl (\<lambda>o' i. o' @ list_item s i) (out @ list_start s) is @ list_end s"

text \<open>The dynamic processor has a pointer to its strategy, null at the beginning.\<close>

record text_processor =
  oss :: string
  strategy :: "list_strategy option"

datatype processor_call = Set_Output_Format list_strategy | Append_List "string list" | Clear_Text

definition append_dynamic :: "string list \<Rightarrow> text_processor \<Rightarrow> fault + text_processor" where
  "append_dynamic is t = (case strategy t of None \<Rightarrow> Inl Null_Deref
     | Some s \<Rightarrow> Inr (t\<lparr>oss := foldl (\<lambda>o' i. o' @ list_item s i) (oss t @ list_start s) is @ list_end s\<rparr>))"

definition processor_step :: "processor_call \<Rightarrow> text_processor \<Rightarrow> fault + text_processor" where
  "processor_step c t = (case c of
       Set_Output_Format s \<Rightarrow> Inr (t\<lparr>strategy := Some s\<rparr>)
     | Append_List is \<Rightarrow> append_dynamic is t
     | Clear_Text \<Rightarrow> Inr (t\<lparr>oss := ''''\<rparr>))"

fun processor_run :: "processor_call list \<Rightarrow> text_processor \<Rightarrow> fault + text_processor" where
  "processor_run [] t = Inr t"
| "processor_run (c # cs) t = bnd (processor_step c t) (processor_run cs)"

text \<open>The text that the static processors of the formats in force would append.\<close>

fun static_text :: "list_strategy \<Rightarrow> processor_call list \<Rightarrow> string \<Rightarrow> string" where
  "static_text s [] out = out"
| "static_text s (Set_Output_Format s' # cs) out = static_text s' cs out"
| "static_text s (Append_List is # cs) out = static_text s cs (append_static s is out)"
| "static_text s (Clear_Text # cs) out = static_text s cs ''''"

theorem processors_agree:
  "map_sum id oss (processor_run (Set_Output_Format s # cs) \<lparr>oss = '''', strategy = None\<rparr>) = Inr (static_text s cs '''')"
proof -
  have "map_sum id oss (processor_run cs \<lparr>oss = out, strategy = Some s\<rparr>) = Inr (static_text s cs out)" for out
    by (induction s cs out rule: static_text.induct) (simp_all add: processor_step_def append_static_def append_dynamic_def)
  then show ?thesis by (simp add: processor_step_def)
qed

theorem format_missing: "processor_run (Append_List is # cs) \<lparr>oss = '''', strategy = None\<rparr> = Inl Null_Deref"
  by (simp add: processor_step_def append_dynamic_def)

end
