(* ===== verification/Spec2Isabelle.thy ===== *)
theory Spec2Isabelle
  imports SLL_Properties PunyPy_Properties Hash_Map_Properties Binary_Tree_Properties
    Calculator_Properties Punypy2_Scanner Tiny_Fsm Naive_Fsm Tuple_Fsm
    Typelist_Properties Animation_Programs Bank_Commands Memento Expression_Interpreter
    Formatted_Text Short_Alloc Active_Object Chat_Client Olc_Net Socket_Servers Snake_Game
    Compile_Time_Numbers Basic_Tuple Tuple_Algorithms Modifier_Chain Chat_Room Named_Semaphore
    Output_Iterators Tracked_Allocation Breakout_Game Pattern_Structures
begin

text \<open>
  A verification library for \<^verbatim>\<open>Always-be-learning\<close>, a collection of C++ programs under \<^verbatim>\<open>src\<close>.
  The programs with a core of their own are the container templates of \<^verbatim>\<open>DataStructures\<close>, the
  interpreters of \<^verbatim>\<open>Parsers\<close>, the state machines of \<^verbatim>\<open>State_machines\<close>, the metaprograms of
  \<^verbatim>\<open>Metaprogramming\<close>, the allocator of \<^verbatim>\<open>Allocators\<close>, the trackers of \<^verbatim>\<open>Memory\<close>, the servers and the games of \<^verbatim>\<open>Libraries\<close> and the programs that give
  a pattern some behaviour in \<^verbatim>\<open>DesignPatterns\<close>, \<^verbatim>\<open>Patterns\<close> and \<^verbatim>\<open>Multithreading\<close>; these are modelled. They do
  not call each other. What they share, they share here: \<open>Prelude\<close> has the faults (undefined
  behaviour and failed contracts as values), the sequencing of computations that may fail, and machine
  integers; \<open>Input_Stream\<close>, \<open>Map_Interface\<close>, \<open>Animation_Spec\<close> and \<open>Undo_Interface\<close> have the interfaces as locales.

  \<^bold>\<open>Containers.\<close> (1) \<^verbatim>\<open>SingleLinkedList\<close> (\<^verbatim>\<open>single_linked_list.hpp\<close>): \<open>Node_Store\<close> is the free store,
  \<open>Single_Linked_List\<close> the state and its abstraction to a sequence of nodes, \<open>SLL_Nodes\<close> the private
  helpers, \<open>SLL_Modifiers\<close> and \<open>SLL_Algorithms\<close> the members, pointer by pointer. The lemmas of the last
  two refine each member to a list function, with what is left of the store; \<open>SLL_Properties\<close> has the
  properties. (2) \<^verbatim>\<open>HashMap\<close> (\<^verbatim>\<open>hash_map_bucket.hpp\<close>, \<^verbatim>\<open>hash_map.hpp\<close>): \<open>Hash_Bucket\<close> and \<open>Hash_Map\<close>
  are the operations, \<open>Hash_Map_Laws\<close> the invariant, the finite map the table stands for and what each
  operation does to both, \<open>Hash_Map_Iteration\<close> iteration, filling and rehashing. (3) \<^verbatim>\<open>BinaryTree\<close>
  (\<^verbatim>\<open>binary_tree.hpp\<close>): \<open>Binary_Tree\<close> has the operations and the iterators with their stacks,
  \<open>Binary_Tree_Iterators\<close> what they visit, \<open>Binary_Tree_Laws\<close> the order of the tree. The contract \<open>assoc\<close>
  of \<open>Map_Interface\<close>, a finite map under lookup, insertion, assignment and erasure, is interpreted on
  the buckets, the hash map and the tree, and proved once for sequences of calls.

  \<^bold>\<open>Parsers.\<close> (4) \<^verbatim>\<open>Punypy-parser\<close>: \<open>PunyPy_Scanner\<close>, \<open>PunyPy_Parser\<close> (productions and the
  recursive-descent parser), \<open>PunyPy_Semantics\<close> (world, analyser, interpreter and \<^verbatim>\<open>main\<close>), with
  \<open>PunyPy_Grammar\<close> for the texts that the parser reads back. (5) \<^verbatim>\<open>Punypy2\<close>: \<open>Punypy2_Scanner\<close>.
  (6) \<^verbatim>\<open>Calculator\<close>: \<open>Calc_Token\<close> has the token with its union and the proof that the copies keep the
  active member, so that \<open>Calculator\<close> (token stream, variables, evaluator, \<^verbatim>\<open>run\<close>) uses its content;
  \<open>Calculator_Termination\<close> shows that all of it ends, \<open>Calculator_Laws\<close> that the evaluator computes the
  value of the syntax tree it reads, and \<open>Calculator_Properties\<close> that this is the value of the grammar in the header
  comment, where no factor follows the right operand of a \<^verbatim>\<open>%\<close>: there the comment and the code differ. The three token streams are instances of \<open>token_stream\<close>, one token
  of push-back in front of a source.

  \<^bold>\<open>State machines.\<close> (7) \<^verbatim>\<open>naive_fsm/second.cpp\<close> is \<open>Naive_Fsm\<close>, \<^verbatim>\<open>tiny_fsm/first.cpp\<close> is \<open>Tiny_Fsm\<close>,
  \<^verbatim>\<open>tuple_fsm/transition_table\<close> is \<open>Tuple_Fsm\<close>, the generator and its animation; a row says whether the calls of its guard and
  its action read the objects in the row, which are destroyed by then. They are instances of
  the locale \<open>animation\<close>, the first with a different rule for stopping a paused animation, the second
  also of \<open>limited_animation\<close>. \<open>Fsm_Dispatch\<close> has the ways in which the other machines choose what a transition does
  (specialisations, overloads, static members, a log) and shows that they agree; \<open>Animation_Programs\<close> has the programs on
  top of them and the variant machines, all of them instances of the same contract.

  \<^bold>\<open>Metaprograms.\<close> (8) \<^verbatim>\<open>Metaprogramming/typelist\<close>, programs the compiler runs, is \<open>Typelist\<close>; a
  metafunction with no result is \<^const>\<open>None\<close>. Nine of them are there twice, replacement three times; the second implementation is a
  \<open>partial_function\<close> over the operations of a list, and the locale \<open>sequence_ops\<close> in \<open>Typelist_Properties\<close>,
  interpreted on type lists and value lists, shows that it ends and agrees with the first.
  (9) \<open>Compile_Time_Numbers\<close>: the factorials, primes and fractions of \<^verbatim>\<open>fundamentals\<close>, the two \<^verbatim>\<open>fizbuzz\<close> programs and the
  multiplication table of \<^verbatim>\<open>char_sequence\<close>. (10) \<open>Basic_Tuple\<close>: the comparisons of \<^verbatim>\<open>basic_tuple\<close>. (11) \<open>Tuple_Algorithms\<close>: each
  version of each algorithm of \<^verbatim>\<open>tuple_algorithms\<close>, with exceptions and \<^verbatim>\<open>noexcept\<close>. \<open>Output_Iterators\<close>: the adaptors of
  \<^verbatim>\<open>output_iterators\<close>, each an instance of the locale \<open>output_iterator\<close> over any other, and the inserters of
  \<^verbatim>\<open>Patterns/Iterator\<close>.

  \<^bold>\<open>Memory.\<close> (12) \<^verbatim>\<open>Allocators/short_alloc\<close> is \<open>Short_Alloc\<close>: the arena, its clients as sequences of requests of any size, and
  blocks as intervals of addresses; what \<^verbatim>\<open>operator new\<close> returns is disjoint from the buffer and the live blocks, and may begin
  right behind the buffer. \<^verbatim>\<open>Memory/tracking_allocation\<close> is \<open>Tracked_Allocation\<close>: three trackers of allocations, instances of the
  locale \<open>tracking\<close>, under sequences of requests.

  \<^bold>\<open>Patterns.\<close> (13) \<^verbatim>\<open>command_composite.cpp\<close> and \<^verbatim>\<open>command_3.cpp\<close> are \<open>Bank_Commands\<close>,
  instances of the locale \<open>undoable\<close> of \<open>Undo_Interface\<close>; \<^verbatim>\<open>memento.cpp\<close> is \<open>Memento\<close>. (14) \<open>Expression_Interpreter\<close>, \<open>Formatted_Text\<close> (the flyweight),
  \<open>Modifier_Chain\<close> (the chain of responsibility, whose pointers may form a cycle), \<open>Chat_Room\<close> (the mediator) and
  \<open>Pattern_Structures\<close> (visitors, pictures and neurons, which point to each other, and text processors). (15)
  \<^verbatim>\<open>Active_object\<close> is \<open>Active_Object\<close>: client and worker with the mutex and the condition variable of their queue, in every
  interleaving; a schedule has at most \<open>11 n + 15\<close> turns for \<open>n\<close> tasks, and three more for each spurious
  wakeup. (16) \<^verbatim>\<open>Semaphore\<close> is \<open>Named_Semaphore\<close>.

  \<^bold>\<open>Libraries.\<close> (17) \<^verbatim>\<open>asio/chat\<close>: \<open>Chat_Message\<close> has the format of messages, \<open>Chat_Server\<close> the room and the sessions, \<open>Chat_Client\<close>
  the client; the ends of the operations of \<^verbatim>\<open>asio\<close> are events. A session and the client hold the message of the write under way;
  a write started while another is under way is a fault, and a write ends only if it was started. Both are instances of
  the locale \<open>outbox\<close>, a queue with one write under way. (18) \<^verbatim>\<open>asio/olc\<close> is \<open>Olc_Net\<close>. (19) \<open>Socket_Servers\<close> has one round of each of
  the two servers on sockets. (20) \<open>Snake_Game\<close> and \<open>Breakout_Game\<close> are the \<^verbatim>\<open>Qt\<close> games without their
  drawing; the places of the snake's arrays are unset until they are written, and reading an unset one is a fault.

  \<^bold>\<open>Conventions.\<close> An operation returns \<^const>\<open>Inr\<close> of its result or \<^const>\<open>Inl\<close> of an exception or a
  fault, so a theorem that it returns \<^const>\<open>Inr\<close> is also its memory safety. \<^verbatim>\<open>size_t\<close>, \<^verbatim>\<open>uint32_t\<close> and
  \<^verbatim>\<open>unsigned\<close> are words and wrap around; \<^verbatim>\<open>int\<close> is an integer with its range checked where it may
  overflow. Loops over nodes have fuel taken from the store (one more than its highest address),
  which is enough for every well-formed list; the number of passes of \<^verbatim>\<open>sort\<close> is an argument, with a bound in
  the theorem; the depth of interpreted calls is bounded by their rank, the productions of \<^verbatim>\<open>main\<close> by the
  characters; the calculator needs six units for every character left. The other functions of
  scanners and parsers recurse on the characters left, without fuel. Running out of fuel is the
  fault \<^const>\<open>Diverges\<close>; the theorems on termination exclude it.

  \<^bold>\<open>Parameters.\<close> The hash function, the comparison and the predicates of the container templates; \<open>past\<close>, what
  the hash map reads behind its buckets (in the loops that allocate, as a function of the nodes allocated so far), and its load factors, as \<^verbatim>\<open>float\<close> is not interpreted; the operations of \<^verbatim>\<open>double\<close>, and
  for a literal the value stored and whether the stream fails (\<open>arith\<close>), of the calculator; the memory that \<^verbatim>\<open>operator new\<close> returns; the results of system
  calls and of the operations of \<^verbatim>\<open>asio\<close>, and the places that a random generator chooses, which come with the events; \<^verbatim>\<open>QRect\<close>; what the
  moved-from string of a semaphore holds. Character classes are those of the C locale.

  \<^bold>\<open>Not modelled.\<close> Allocators of the containers (an allocation succeeds), move semantics beyond what the moved-from object
  holds, members that do not compile when they are used (\<^verbatim>\<open>emplace_unique\<close>, assignment of trees), output
  formatting, the configuration of the assertions (a failed \<^verbatim>\<open>JAM_EXPECT\<close> is the fault \<^const>\<open>Contract\<close>). Of the state
  machines, the vendored \<^verbatim>\<open>sml.hpp\<close> with its clients, and \<^verbatim>\<open>tuple_fsm/first\<close>, which does not compile. Of the rest of the
  repository: \<^verbatim>\<open>clara.hpp\<close>, the build files and the tests are not its own code or not code of the programs;
  \<^verbatim>\<open>Algorithms\<close>, \<^verbatim>\<open>Language_features\<close>, \<^verbatim>\<open>Misc\<close> and most of \<^verbatim>\<open>DesignPatterns\<close> and \<^verbatim>\<open>Patterns\<close> call the standard library or show
  a feature of the language, with no state of their own; the rest of \<^verbatim>\<open>Metaprogramming\<close> (strong types, the detection of
  members, event interfaces) is glue between types and overloads; the remaining examples of \<^verbatim>\<open>Libraries\<close> pass on what
  \<^verbatim>\<open>Qt\<close>, \<^verbatim>\<open>asio\<close> or the sockets give them.
\<close>

end
